(* ===== verification/Prelude.thy ===== *)
theory Prelude
  imports Main "HOL-Library.Word" "HOL-Library.List_Lexorder" "HOL-Library.Product_Lexorder"
begin

text \<open>
  The vocabulary every component of the development shares.

  \<^item> Type synonyms for the machine types of the Go sources: \<open>byte\<close>, \<open>bytes\<close>, \<open>u32\<close>, \<open>u64\<close>.
    An \<open>int64\<close> of the sources is an \<open>i64\<close>, the same 64-bit pattern read with \<open>sint\<close> or compared
    with the signed order, so the conversions \<open>uint64(x)\<close> and \<open>int64(x)\<close> are the identity.
  \<^item> \<open>slice\<close> keeps the one distinction the sources make between a nil and an empty byte slice.
  \<^item> \<open>error\<close>: the error values of \<open>src/types.go\<close>, \<open>src/internal/error.go\<close> and
    \<open>src/internal/patch/apply.go\<close> that the modelled code raises, the errors of the standard
    library and of LMDB it handles, the errors made from a text (\<open>ErrText\<close>), and two outcomes that are no error value in Go: a run-time
    panic and a loop that does not return.
  \<^item> \<open>bindE\<close>: sequencing of computations that may fail, the \<open>if err != nil { return }\<close> of the sources.
  \<^item> The lemma collections \<open>go_simps\<close> (the standard library's encodings), \<open>codec_simps\<close> (the
    encodings of the storage records), \<open>mdb_simps\<close> (the laws of the ordered store) and
    \<open>lcs_simps\<close> (the edit graph).
\<close>

named_theorems go_simps "encodings of the Go standard library"
named_theorems codec_simps "encodings of the storage records"
named_theorems mdb_simps "laws of the ordered store"
named_theorems lcs_simps "edit graph and labels"

type_synonym byte = "8 word"
type_synonym bytes = "byte list"
type_synonym u8 = "8 word"
type_synonym u32 = "32 word"
type_synonym u64 = "64 word"
type_synonym i64 = "64 word"

text \<open>A Go byte slice where the code distinguishes nil from empty: \<open>None\<close> is nil.\<close>

type_synonym slice = "bytes option"

definition sl :: "slice \<Rightarrow> bytes" where
  "sl s = (case s of None \<Rightarrow> [] | Some b \<Rightarrow> b)"

lemma sl_simps [simp]: "sl None = []" "sl (Some b) = b"
  by (simp_all add: sl_def)

section \<open>Slices\<close>

text \<open>Indexing and slicing with Go's bounds checks: \<open>None\<close> is the run-time panic.\<close>

definition idx :: "'a list \<Rightarrow> int \<Rightarrow> 'a option" where
  "idx xs i = (if 0 \<le> i \<and> i < int (length xs) then Some (xs ! nat i) else None)"

definition subslice :: "'a list \<Rightarrow> int \<Rightarrow> int \<Rightarrow> 'a list option" where
  "subslice xs i j = (if 0 \<le> i \<and> i \<le> j \<and> j \<le> int (length xs)
     then Some (take (nat (j - i)) (drop (nat i) xs)) else None)"

definition go_append :: "slice \<Rightarrow> bytes \<Rightarrow> slice" where
  "go_append s xs = (if xs = [] then s else Some (sl s @ xs))"

lemma sl_go_append [simp]: "sl (go_append s xs) = sl s @ xs"
  by (simp add: go_append_def)

lemma subslice_eq:
  "0 \<le> i \<Longrightarrow> i \<le> j \<Longrightarrow> j \<le> int (length xs) \<Longrightarrow>
     subslice xs i j = Some (take (nat (j - i)) (drop (nat i) xs))"
  by (simp add: subslice_def)

lemma subslice_length: "subslice xs i j = Some ys \<Longrightarrow> int (length ys) = j - i"
  by (auto simp: subslice_def split: if_splits)

section \<open>Errors\<close>

datatype error =
    ErrChecksumInvalid | ErrChecksumMissing | ErrValueInvalid | ErrPatchInvalid
  | ErrKeyInvalid | ErrKeyMissing | ErrLeaseKeyInvalid | ErrNotFound | ErrTermExpired
  | ErrCorrupt
  | ErrGRPCKeyTooLong | ErrGRPCEmptyKey | ErrGRPCValueProvided | ErrGRPCLeaseProvided
  | ErrGRPCDuplicateKey | ErrGRPCCompacted | ErrGRPCFutureRev
  | ErrGRPCLeaseNotFound | ErrGRPCLeaseExist
  | ErrEOF | ErrUnexpectedEOF | ErrOverflow
  | ErrSnappyCorrupt
  | ErrMdbNotFound | ErrMdb nat
  | ErrMarshal | ErrText bytes
  | GoPanic | NoReturn

type_synonym 'a result = "error + 'a"

definition IsNotFound :: "error \<Rightarrow> bool" where
  "IsNotFound e \<longleftrightarrow> e = ErrMdbNotFound"

lemma IsNotFound_simps [simp]:
  "IsNotFound ErrMdbNotFound" "e \<noteq> ErrMdbNotFound \<Longrightarrow> \<not> IsNotFound e"
  by (simp_all add: IsNotFound_def)

section \<open>Sequencing of fallible computations\<close>

definition bindE :: "'e + 'a \<Rightarrow> ('a \<Rightarrow> 'e + 'b) \<Rightarrow> 'e + 'b" where
  "bindE m f = (case m of Inl e \<Rightarrow> Inl e | Inr x \<Rightarrow> f x)"

lemma bindE_simps [simp]: "bindE (Inl e) f = Inl e" "bindE (Inr x) f = f x"
  by (simp_all add: bindE_def)

lemma bindE_Inr_iff: "bindE m f = Inr y \<longleftrightarrow> (\<exists>x. m = Inr x \<and> f x = Inr y)"
  by (cases m) simp_all

lemma bindE_Inl_iff: "bindE m f = Inl e \<longleftrightarrow> m = Inl e \<or> (\<exists>x. m = Inr x \<and> f x = Inl e)"
  by (cases m) auto

lemma bindE_InrE [elim]:
  assumes "bindE m f = Inr y"
  obtains x where "m = Inr x" "f x = Inr y"
  using assms by (auto simp: bindE_Inr_iff)

lemma bindE_cong [fundef_cong]:
  "m = m' \<Longrightarrow> (\<And>x. m' = Inr x \<Longrightarrow> f x = g x) \<Longrightarrow> bindE m f = bindE m' g"
  by (cases m') simp_all

lemma bindE_assoc: "bindE (bindE m f) g = bindE m (\<lambda>x. bindE (f x) g)"
  by (cases m) simp_all

section \<open>Generic lemmas\<close>

lemma find_Some_append:
  "List.find P (xs @ ys) = (case List.find P xs of None \<Rightarrow> List.find P ys | Some x \<Rightarrow> Some x)"
  by (induction xs) auto

lemma find_None_iff_filter: "List.find P xs = None \<longleftrightarrow> filter P xs = []"
  by (induction xs) auto

lemma find_hd_filter: "List.find P xs = (case filter P xs of [] \<Rightarrow> None | x # _ \<Rightarrow> Some x)"
  by (induction xs) auto

lemma take_drop_last4: "4 \<le> length xs \<Longrightarrow> take (length xs - 4) xs @ drop (length xs - 4) xs = xs"
  by simp

lemma append_lexord_left [simp]: "(xs @ ys < xs @ zs) = (ys < (zs :: 'a :: order list))"
  by (induction xs) auto

lemma append_lexord_eqlen:
  fixes xs ys :: "'a :: linorder list"
  shows "length xs = length ys \<Longrightarrow>
    (xs @ us < ys @ vs) \<longleftrightarrow> xs < ys \<or> xs = ys \<and> us < vs"
proof (induction xs arbitrary: ys)
  case (Cons x xs)
  then show ?case by (cases ys) auto
qed auto

end
