(* ===== verification/Lcs.thy ===== *)
theory Lcs
  imports Prelude "HOL-Library.Monad_Syntax"
begin

text \<open>
  The longest-common-subsequence package \<open>src/internal/patch/lcs\<close> (\<open>common.go\<close>, \<open>labels.go\<close>,
  \<open>sequence.go\<close>, \<open>old.go\<close>), used by the patch generator through \<open>DiffBytes\<close>.

  Go's \<open>int\<close> is \<open>int\<close> here. A computation that panics (an index out of range, an explicit
  \<open>panic\<close>) or does not return is \<open>None\<close>; everything runs in the option monad. The edit graph is a
  record that carries the two label tables, which the algorithms update. The label tables come
  from a \<open>sync.Pool\<close>, so their initial contents are arguments: whatever an earlier run left.
  The three \<open>sequences\<close> implementations differ only in their element type, so the model is
  polymorphic in it. \<open>sort.Slice\<close> is insertion sort, which is what it runs on up to 12 elements.
\<close>

section \<open>Slices and loops\<close>

text \<open>Go's integer division truncates towards zero.\<close>

definition half :: "int \<Rightarrow> int" where
  "half x = (if 0 \<le> x then x div 2 else - ((- x) div 2))"

text \<open>The values of \<open>k\<close> in \<open>for k := lo; k <= hi; k += 2\<close>.\<close>

definition krange :: "int \<Rightarrow> int \<Rightarrow> int list" where
  "krange lo hi = (if hi < lo then [] else map (\<lambda>i. lo + 2 * int i) [0..<nat ((hi - lo) div 2) + 1])"

fun ins_less :: "('a \<Rightarrow> 'a \<Rightarrow> bool) \<Rightarrow> 'a \<Rightarrow> 'a list \<Rightarrow> 'a list" where
  "ins_less lt x [] = [x]"
| "ins_less lt x (y # ys) = (if lt x y then x # y # ys else y # ins_less lt x ys)"

definition sort_Slice :: "('a \<Rightarrow> 'a \<Rightarrow> bool) \<Rightarrow> 'a list \<Rightarrow> 'a list" where
  "sort_Slice lt xs = foldl (\<lambda>acc x. ins_less lt x acc) [] xs"

section \<open>Diagonals (common.go)\<close>

record diag =
  dX :: int
  dY :: int
  dLen :: int

type_synonym lcs = "diag list"

definition lcs_sort :: "lcs \<Rightarrow> lcs" where
  "lcs_sort l = sort_Slice (\<lambda>p q. if dX p \<noteq> dX q then dX p < dX q else dLen p > dLen q) l"

fun lcs_valid :: "lcs \<Rightarrow> bool" where
  "lcs_valid (p # q # l) =
     (if dX p + dLen p > dX q then False
      else if dY p + dLen p > dY q then False
      else lcs_valid (q # l))"
| "lcs_valid _ = True"

datatype direction = Empty | Leftdown | Rightup | Bad

text \<open>\<open>overlap\<close> trims the proposed diagonal in four steps, each of which may empty it.\<close>

definition overlap_end :: "int \<Rightarrow> int \<Rightarrow> diag \<Rightarrow> diag" where
  "overlap_end p e prop = prop\<lparr>dLen := dLen prop - (p + dLen prop - e)\<rparr>"

definition overlap_begin :: "int \<Rightarrow> diag \<Rightarrow> diag" where
  "overlap_begin delta prop = prop\<lparr>dLen := dLen prop - delta\<rparr>"

definition shift :: "int \<Rightarrow> diag \<Rightarrow> diag" where
  "shift delta prop = prop\<lparr>dX := dX prop + delta, dY := dY prop + delta\<rparr>"

definition overlap_dir :: "diag \<Rightarrow> diag \<Rightarrow> direction \<times> diag" where
  "overlap_dir exist prop =
     (if dX prop + dLen prop \<le> dX exist \<and> dY prop + dLen prop \<le> dY exist then (Leftdown, prop)
      else if dX exist + dLen exist \<le> dX prop \<and> dY exist + dLen exist \<le> dY prop then (Rightup, prop)
      else (Bad, prop))"

definition overlap4 :: "diag \<Rightarrow> diag \<Rightarrow> direction \<times> diag" where
  "overlap4 exist prop =
     (if dY exist \<le> dY prop \<and> dY prop < dY exist + dLen exist then
        let delta = dY exist + dLen exist - dY prop; prop1 = overlap_begin delta prop in
        if dLen prop1 \<le> 0 then (Empty, prop1) else overlap_dir exist (shift delta prop1)
      else overlap_dir exist prop)"

definition overlap3 :: "diag \<Rightarrow> diag \<Rightarrow> direction \<times> diag" where
  "overlap3 exist prop =
     (if dY prop \<le> dY exist \<and> dY exist < dY prop + dLen prop then
        let prop1 = overlap_end (dY prop) (dY exist) prop in
        if dLen prop1 \<le> 0 then (Empty, prop1) else overlap4 exist prop1
      else overlap4 exist prop)"

definition overlap2 :: "diag \<Rightarrow> diag \<Rightarrow> direction \<times> diag" where
  "overlap2 exist prop =
     (if dX exist \<le> dX prop \<and> dX prop < dX exist + dLen exist then
        let delta = dX exist + dLen exist - dX prop; prop1 = overlap_begin delta prop in
        if dLen prop1 \<le> 0 then (Empty, prop1) else overlap3 exist (shift delta prop1)
      else overlap3 exist prop)"

definition overlap :: "diag \<Rightarrow> diag \<Rightarrow> direction \<times> diag" where
  "overlap exist prop =
     (if dX prop \<le> dX exist \<and> dX exist < dX prop + dLen prop then
        let prop1 = overlap_end (dX prop) (dX exist) prop in
        if dLen prop1 \<le> 0 then (Empty, prop1) else overlap2 exist prop1
      else overlap2 exist prop)"

text \<open>\<open>fix\<close>: the inner loop over the diagonals accepted so far, then the outer loop. The inner loop
  starts with the zero value of \<open>direction\<close>, which is \<open>empty\<close>.\<close>

fun fix_in :: "lcs \<Rightarrow> direction \<Rightarrow> diag \<Rightarrow> direction \<times> diag" where
  "fix_in [] dir nxt = (dir, nxt)"
| "fix_in (i # tmp) dir nxt =
     (let (dir1, nxt1) = overlap i nxt in
      if dir1 = Empty \<or> dir1 = Bad then (dir1, nxt1) else fix_in tmp dir1 nxt1)"

fun fix_out :: "lcs \<Rightarrow> lcs \<Rightarrow> lcs" where
  "fix_out tmp [] = tmp"
| "fix_out tmp (p # l) =
     (let (dir, nxt) = fix_in tmp Empty p in
      if 0 < dLen nxt \<and> dir \<noteq> Bad then fix_out (tmp @ [nxt]) l else fix_out tmp l)"

definition lcs_fix :: "lcs \<Rightarrow> lcs" where
  "lcs_fix l = (case sort_Slice (\<lambda>p q. dLen p > dLen q) l of
       [] \<Rightarrow> []
     | p # ps \<Rightarrow> lcs_sort (fix_out [p] ps))"

definition lcs_prepend :: "lcs \<Rightarrow> int \<Rightarrow> int \<Rightarrow> lcs" where
  "lcs_prepend l x y =
     (case l of
        d # ds \<Rightarrow>
          if dX d = x + 1 \<and> dY d = y + 1
          then d\<lparr>dX := x, dY := y, dLen := dLen d + 1\<rparr> # ds
          else \<lparr>dX = x, dY = y, dLen = 1\<rparr> # l
      | [] \<Rightarrow> [\<lparr>dX = x, dY = y, dLen = 1\<rparr>])"

definition lcs_append :: "lcs \<Rightarrow> int \<Rightarrow> int \<Rightarrow> lcs" where
  "lcs_append l x y =
     (if l \<noteq> [] \<and> dX (last l) + dLen (last l) = x \<and> dY (last l) + dLen (last l) = y
      then butlast l @ [(last l)\<lparr>dLen := dLen (last l) + 1\<rparr>]
      else l @ [\<lparr>dX = x, dY = y, dLen = 1\<rparr>])"

definition ok :: "int \<Rightarrow> int \<Rightarrow> bool" where
  "ok d k \<longleftrightarrow> 0 \<le> d \<and> - d \<le> k \<and> k \<le> d"

section \<open>Labels (labels.go)\<close>

text \<open>A nil row is \<open>[]\<close>: rows that were made have at least one element.\<close>

type_synonym label = "int list list"

definition label_set :: "label \<Rightarrow> int \<Rightarrow> int \<Rightarrow> int \<Rightarrow> label option" where
  "label_set vec D k x =
     (let vec1 = vec @ replicate (nat (D + 1) - length vec) [] in
      do {
        row \<leftarrow> idx vec1 D;
        let row1 = (if row = [] then replicate (nat (D + 1)) 0 else row);
        let i = half (D + k);
        _ \<leftarrow> idx row1 i;
        Some (vec1[nat D := row1[nat i := x]])
      })"

definition label_get :: "label \<Rightarrow> int \<Rightarrow> int \<Rightarrow> int option" where
  "label_get vec d k = do { row \<leftarrow> idx vec d; idx row (half (d + k)) }"

section \<open>Sequences (sequence.go)\<close>

function commonPrefixLen_loop :: "'a list \<Rightarrow> 'a list \<Rightarrow> nat \<Rightarrow> nat \<Rightarrow> nat" where
  "commonPrefixLen_loop a b n i =
     (if i < n \<and> a ! i = b ! i then commonPrefixLen_loop a b n (i + 1) else i)"
  by pat_completeness auto
termination by (relation "measure (\<lambda>(a, b, n, i). n - i)") auto

function commonSuffixLen_loop :: "'a list \<Rightarrow> 'a list \<Rightarrow> nat \<Rightarrow> nat \<Rightarrow> nat" where
  "commonSuffixLen_loop a b n i =
     (if i < n \<and> a ! (length a - 1 - i) = b ! (length b - 1 - i)
      then commonSuffixLen_loop a b n (i + 1) else i)"
  by pat_completeness auto
termination by (relation "measure (\<lambda>(a, b, n, i). n - i)") auto

declare commonPrefixLen_loop.simps [simp del] commonSuffixLen_loop.simps [simp del]

definition commonPrefixLenBytes :: "'a list \<Rightarrow> 'a list \<Rightarrow> int" where
  "commonPrefixLenBytes a b = int (commonPrefixLen_loop a b (min (length a) (length b)) 0)"

definition commonSuffixLenBytes :: "'a list \<Rightarrow> 'a list \<Rightarrow> int" where
  "commonSuffixLenBytes a b = int (commonSuffixLen_loop a b (min (length a) (length b)) 0)"

section \<open>The edit graph (old.go)\<close>

record 'a editGraph =
  seq_a :: "'a list"
  seq_b :: "'a list"
  vf :: label
  vb :: label
  limit :: int
  lx :: int
  ly :: int
  ux :: int
  uy :: int
  delta :: int

definition commonPrefixLen :: "'a editGraph \<Rightarrow> int \<Rightarrow> int \<Rightarrow> int \<Rightarrow> int \<Rightarrow> int option" where
  "commonPrefixLen e ai aj bi bj = do {
     a \<leftarrow> subslice (seq_a e) ai aj;
     b \<leftarrow> subslice (seq_b e) bi bj;
     Some (commonPrefixLenBytes a b) }"

definition commonSuffixLen :: "'a editGraph \<Rightarrow> int \<Rightarrow> int \<Rightarrow> int \<Rightarrow> int \<Rightarrow> int option" where
  "commonSuffixLen e ai aj bi bj = do {
     a \<leftarrow> subslice (seq_a e) ai aj;
     b \<leftarrow> subslice (seq_b e) bi bj;
     Some (commonSuffixLenBytes a b) }"

record Diff =
  Start :: int
  End :: int
  ReplStart :: int
  ReplEnd :: int

fun toDiffs_loop :: "lcs \<Rightarrow> int \<Rightarrow> int \<Rightarrow> int \<Rightarrow> int \<Rightarrow> Diff list" where
  "toDiffs_loop [] pa pb alen blen =
     (if pa < alen \<or> pb < blen
      then [\<lparr>Start = pa, End = alen, ReplStart = pb, ReplEnd = blen\<rparr>] else [])"
| "toDiffs_loop (l # ls) pa pb alen blen =
     (if pa < dX l \<or> pb < dY l
      then [\<lparr>Start = pa, End = dX l, ReplStart = pb, ReplEnd = dY l\<rparr>] else [])
     @ toDiffs_loop ls (dX l + dLen l) (dY l + dLen l) alen blen"

definition toDiffs :: "lcs \<Rightarrow> int \<Rightarrow> int \<Rightarrow> Diff list" where
  "toDiffs l alen blen = toDiffs_loop l 0 0 alen blen"

subsection \<open>Forward\<close>

definition lookForward :: "'a editGraph \<Rightarrow> int \<Rightarrow> int \<Rightarrow> int option" where
  "lookForward e k relx =
     (let rely = relx - k; x = relx + lx e; y = rely + ly e in
      if x < ux e \<and> y < uy e
      then do { n \<leftarrow> commonPrefixLen e x (ux e) y (uy e); Some (x + n) }
      else Some x)"

definition setForward :: "'a editGraph \<Rightarrow> int \<Rightarrow> int \<Rightarrow> int \<Rightarrow> 'a editGraph option" where
  "setForward e d k relx = do {
     x \<leftarrow> lookForward e k relx;
     v \<leftarrow> label_set (vf e) d k (x - lx e);
     Some (e\<lparr>vf := v\<rparr>) }"

definition getForward :: "'a editGraph \<Rightarrow> int \<Rightarrow> int \<Rightarrow> int option" where
  "getForward e d k = label_get (vf e) d k"

text \<open>The test \<open>ok(D, k) && x == e.getForward(D, k)\<close> of the backtracking loops.\<close>

definition fmatch :: "'a editGraph \<Rightarrow> int \<Rightarrow> int \<Rightarrow> int \<Rightarrow> bool option" where
  "fmatch e D k x = (if ok D k then do { v \<leftarrow> getForward e D k; Some (x = v) } else Some False)"

partial_function (option) forwardlcs_loop ::
  "'a editGraph \<Rightarrow> int \<Rightarrow> int \<Rightarrow> int \<Rightarrow> lcs \<Rightarrow> lcs option" where
  "forwardlcs_loop e D k x ans =
     (if x = 0 \<and> x - k = 0 then Some ans
      else do {
        c1 \<leftarrow> fmatch e (D - 1) (k - 1) (x - 1);
        if c1 then forwardlcs_loop e (D - 1) (k - 1) (x - 1) ans
        else do {
          c2 \<leftarrow> fmatch e (D - 1) (k + 1) x;
          if c2 then forwardlcs_loop e (D - 1) (k + 1) x ans
          else forwardlcs_loop e D k (x - 1) (lcs_prepend ans (x + lx e - 1) (x - k + ly e - 1))
        }
      })"

declare forwardlcs_loop.simps [code]

definition forwardlcs :: "'a editGraph \<Rightarrow> int \<Rightarrow> int \<Rightarrow> lcs option" where
  "forwardlcs e D k = do { x \<leftarrow> getForward e D k; forwardlcs_loop e D k x [] }"

text \<open>\<open>Some (Some ans)\<close> is the \<open>(true, ans)\<close> of the source, \<open>Some None\<close> its \<open>(false, nil)\<close>.\<close>

definition fdone :: "'a editGraph \<Rightarrow> int \<Rightarrow> int \<Rightarrow> lcs option option" where
  "fdone e D k = do {
     x \<leftarrow> label_get (vf e) D k;
     if x = ux e \<and> x - k = uy e then do { ans \<leftarrow> forwardlcs e D k; Some (Some ans) }
     else Some None }"

text \<open>One diagonal of a forward pass from \<open>D\<close> to \<open>D + 1\<close>.\<close>

definition forward_k :: "'a editGraph \<Rightarrow> int \<Rightarrow> int \<Rightarrow> 'a editGraph option" where
  "forward_k e D k = do {
     v1 \<leftarrow> getForward e D (k - 1);
     lookv \<leftarrow> lookForward e k (v1 + 1);
     h1 \<leftarrow> getForward e D (k + 1);
     lookh \<leftarrow> lookForward e k h1;
     if lookv > lookh then setForward e (D + 1) k lookv else setForward e (D + 1) k lookh }"

fun forward_ks :: "'a editGraph \<Rightarrow> int \<Rightarrow> int list \<Rightarrow> ('a editGraph + lcs) option" where
  "forward_ks e D [] = Some (Inl e)"
| "forward_ks e D (k # ks) = do {
     e1 \<leftarrow> forward_k e D k;
     r \<leftarrow> fdone e1 (D + 1) k;
     (case r of Some ans \<Rightarrow> Some (Inr ans) | None \<Rightarrow> forward_ks e1 D ks) }"

definition forward_D :: "'a editGraph \<Rightarrow> int \<Rightarrow> ('a editGraph + lcs) option" where
  "forward_D e D = do {
     f0 \<leftarrow> getForward e D (- D);
     e1 \<leftarrow> setForward e (D + 1) (- (D + 1)) f0;
     r1 \<leftarrow> fdone e1 (D + 1) (- (D + 1));
     (case r1 of Some ans \<Rightarrow> Some (Inr ans)
      | None \<Rightarrow> do {
          f1 \<leftarrow> getForward e1 D D;
          e2 \<leftarrow> setForward e1 (D + 1) (D + 1) (f1 + 1);
          r2 \<leftarrow> fdone e2 (D + 1) (D + 1);
          (case r2 of Some ans \<Rightarrow> Some (Inr ans)
           | None \<Rightarrow> forward_ks e2 D (krange (- D + 1) (D - 1))) }) }"

fun forward_Ds :: "nat \<Rightarrow> 'a editGraph \<Rightarrow> int \<Rightarrow> ('a editGraph + lcs) option" where
  "forward_Ds 0 e D = Some (Inl e)"
| "forward_Ds (Suc n) e D = do {
     r \<leftarrow> forward_D e D;
     (case r of Inr ans \<Rightarrow> Some (Inr ans) | Inl e1 \<Rightarrow> forward_Ds n e1 (D + 1)) }"

text \<open>The search for the furthest point inside the rectangle when the limit is reached.\<close>

fun best_forward :: "'a editGraph \<Rightarrow> int list \<Rightarrow> int \<Rightarrow> int \<Rightarrow> int option" where
  "best_forward e [] diagmax kmax = Some kmax"
| "best_forward e (k # ks) diagmax kmax = do {
     x \<leftarrow> getForward e (limit e) k;
     let y = x - k;
     if x + y > diagmax \<and> x \<le> ux e \<and> y \<le> uy e then best_forward e ks (x + y) k
     else best_forward e ks diagmax kmax }"

definition forward :: "'a editGraph \<Rightarrow> lcs option" where
  "forward e = do {
     e1 \<leftarrow> setForward e 0 0 (lx e);
     r \<leftarrow> fdone e1 0 0;
     (case r of Some ans \<Rightarrow> Some ans
      | None \<Rightarrow> do {
          q \<leftarrow> forward_Ds (nat (limit e)) e1 0;
          (case q of Inr ans \<Rightarrow> Some ans
           | Inl e2 \<Rightarrow> do {
               kmax \<leftarrow> best_forward e2 (krange (- limit e) (limit e)) (- 1) (- limit e - 1);
               forwardlcs e2 (limit e) kmax }) }) }"

subsection \<open>Backward\<close>

definition lookBackward :: "'a editGraph \<Rightarrow> int \<Rightarrow> int \<Rightarrow> int option" where
  "lookBackward e k relx =
     (let rely = relx - (k + delta e); x = relx + lx e; y = rely + ly e in
      if x > 0 \<and> y > 0
      then do { n \<leftarrow> commonSuffixLen e 0 x 0 y; Some (x - n) }
      else Some x)"

definition setBackward :: "'a editGraph \<Rightarrow> int \<Rightarrow> int \<Rightarrow> int \<Rightarrow> 'a editGraph option" where
  "setBackward e d k relx = do {
     x \<leftarrow> lookBackward e k relx;
     v \<leftarrow> label_set (vb e) d k (x - lx e);
     Some (e\<lparr>vb := v\<rparr>) }"

definition getBackward :: "'a editGraph \<Rightarrow> int \<Rightarrow> int \<Rightarrow> int option" where
  "getBackward e d k = label_get (vb e) d k"

definition bmatch :: "'a editGraph \<Rightarrow> int \<Rightarrow> int \<Rightarrow> int \<Rightarrow> bool option" where
  "bmatch e D k x = (if ok D k then do { v \<leftarrow> getBackward e D k; Some (x = v) } else Some False)"

partial_function (option) backwardlcs_loop ::
  "'a editGraph \<Rightarrow> int \<Rightarrow> int \<Rightarrow> int \<Rightarrow> lcs \<Rightarrow> lcs option" where
  "backwardlcs_loop e D k x ans =
     (if x = ux e \<and> x - (k + delta e) = uy e then Some ans
      else do {
        c1 \<leftarrow> bmatch e (D - 1) (k - 1) x;
        if c1 then backwardlcs_loop e (D - 1) (k - 1) x ans
        else do {
          c2 \<leftarrow> bmatch e (D - 1) (k + 1) (x + 1);
          if c2 then backwardlcs_loop e (D - 1) (k + 1) (x + 1) ans
          else backwardlcs_loop e D k (x + 1)
                 (lcs_append ans (x + lx e) (x - (k + delta e) + ly e))
        }
      })"

declare backwardlcs_loop.simps [code]

definition backwardlcs :: "'a editGraph \<Rightarrow> int \<Rightarrow> int \<Rightarrow> lcs option" where
  "backwardlcs e D k = do { x \<leftarrow> getBackward e D k; backwardlcs_loop e D k x [] }"

definition backward_k :: "'a editGraph \<Rightarrow> int \<Rightarrow> int \<Rightarrow> 'a editGraph option" where
  "backward_k e D k = do {
     v1 \<leftarrow> getBackward e D (k - 1);
     lookv \<leftarrow> lookBackward e k v1;
     h1 \<leftarrow> getBackward e D (k + 1);
     lookh \<leftarrow> lookBackward e k (h1 - 1);
     if lookv < lookh then setBackward e (D + 1) k lookv else setBackward e (D + 1) k lookh }"

fun best_backward :: "'a editGraph \<Rightarrow> int list \<Rightarrow> int \<Rightarrow> int \<Rightarrow> int option" where
  "best_backward e [] diagmin kmax = Some kmax"
| "best_backward e (k # ks) diagmin kmax = do {
     x \<leftarrow> getBackward e (limit e) k;
     let y = x - (k + delta e);
     if x + y < diagmin \<and> 0 \<le> x \<and> 0 \<le> y then best_backward e ks (x + y) k
     else best_backward e ks diagmin kmax }"

definition bdone :: "'a editGraph \<Rightarrow> int \<Rightarrow> int \<Rightarrow> lcs option option" where
  "bdone e D k = do {
     x \<leftarrow> label_get (vb e) D k;
     if x = 0 \<and> x - (k + delta e) = 0 then do { ans \<leftarrow> backwardlcs e D k; Some (Some ans) }
     else Some None }"

fun backward_ks :: "'a editGraph \<Rightarrow> int \<Rightarrow> int list \<Rightarrow> ('a editGraph + lcs) option" where
  "backward_ks e D [] = Some (Inl e)"
| "backward_ks e D (k # ks) = do {
     e1 \<leftarrow> backward_k e D k;
     r \<leftarrow> bdone e1 (D + 1) k;
     (case r of Some ans \<Rightarrow> Some (Inr ans) | None \<Rightarrow> backward_ks e1 D ks) }"

definition backward_D :: "'a editGraph \<Rightarrow> int \<Rightarrow> ('a editGraph + lcs) option" where
  "backward_D e D = do {
     f0 \<leftarrow> getBackward e D (- D);
     e1 \<leftarrow> setBackward e (D + 1) (- (D + 1)) (f0 - 1);
     r1 \<leftarrow> bdone e1 (D + 1) (- (D + 1));
     (case r1 of Some ans \<Rightarrow> Some (Inr ans)
      | None \<Rightarrow> do {
          f1 \<leftarrow> getBackward e1 D D;
          e2 \<leftarrow> setBackward e1 (D + 1) (D + 1) f1;
          r2 \<leftarrow> bdone e2 (D + 1) (D + 1);
          (case r2 of Some ans \<Rightarrow> Some (Inr ans)
           | None \<Rightarrow> backward_ks e2 D (krange (- D + 1) (D - 1))) }) }"

fun backward_Ds :: "nat \<Rightarrow> 'a editGraph \<Rightarrow> int \<Rightarrow> ('a editGraph + lcs) option" where
  "backward_Ds 0 e D = Some (Inl e)"
| "backward_Ds (Suc n) e D = do {
     r \<leftarrow> backward_D e D;
     (case r of Inr ans \<Rightarrow> Some (Inr ans) | Inl e1 \<Rightarrow> backward_Ds n e1 (D + 1)) }"

definition backward :: "'a editGraph \<Rightarrow> lcs option" where
  "backward e = do {
     e1 \<leftarrow> setBackward e 0 0 (ux e);
     r \<leftarrow> bdone e1 0 0;
     (case r of Some ans \<Rightarrow> Some ans
      | None \<Rightarrow> do {
          q \<leftarrow> backward_Ds (nat (limit e)) e1 0;
          (case q of Inr ans \<Rightarrow> Some ans
           | Inl e2 \<Rightarrow> do {
               kmax \<leftarrow> best_backward e2 (krange (- limit e) (limit e)) (2 ^ 25) (- limit e - 1);
               if kmax < - limit e then None else backwardlcs e2 (limit e) kmax }) }) }"

subsection \<open>Two-sided\<close>

fun twoDone_in :: "'a editGraph \<Rightarrow> int \<Rightarrow> int \<Rightarrow> int list \<Rightarrow> int option option" where
  "twoDone_in e df db [] = Some None"
| "twoDone_in e df db (l # ls) = do {
     x \<leftarrow> label_get (vf e) df l;
     let y = x - l;
     u \<leftarrow> label_get (vb e) db (l - delta e);
     let v = u - l;
     if x = u \<or> u = 0 \<or> v = 0 \<or> y = uy e \<or> x = ux e then Some (Some l)
     else twoDone_in e df db ls }"

fun twoDone_out :: "'a editGraph \<Rightarrow> int \<Rightarrow> int \<Rightarrow> int list \<Rightarrow> int option option" where
  "twoDone_out e df db [] = Some None"
| "twoDone_out e df db (k # ks) = do {
     x \<leftarrow> label_get (vf e) df k;
     u \<leftarrow> label_get (vb e) db (k - delta e);
     if u \<le> x then do {
       r \<leftarrow> twoDone_in e df db (k # ks);
       (case r of Some l \<Rightarrow> Some (Some l) | None \<Rightarrow> Some (Some k)) }
     else twoDone_out e df db ks }"

definition twoDone :: "'a editGraph \<Rightarrow> int \<Rightarrow> int \<Rightarrow> int option option" where
  "twoDone e df db =
     (if (df + db + delta e) mod 2 \<noteq> 0 then Some None
      else twoDone_out e df db (krange (max (- db + delta e) (- df)) (min (db + delta e) df)))"

definition twolcs :: "'a editGraph \<Rightarrow> int \<Rightarrow> int \<Rightarrow> int \<Rightarrow> lcs option" where
  "twolcs e df db kf = do {
     x \<leftarrow> label_get (vf e) df kf;
     let y = x - kf;
     let kb = kf - delta e;
     u \<leftarrow> label_get (vb e) db kb;
     let v = u - kf;
     if x = u then do {
       f \<leftarrow> forwardlcs e df kf; b \<leftarrow> backwardlcs e db kb; Some (lcs_sort (f @ b)) }
     else do {
     c1 \<leftarrow> (if u > 0 then fmatch e (df - 1) (u - 1 - v) (u - 1) else Some False);
     if c1 then do {
       f \<leftarrow> forwardlcs e (df - 1) (u - 1 - v); b \<leftarrow> backwardlcs e db kb; Some (lcs_sort (f @ b)) }
     else do {
     c2 \<leftarrow> (if v > 0 then fmatch e (df - 1) (u - (v - 1)) u else Some False);
     if c2 then do {
       f \<leftarrow> forwardlcs e (df - 1) (u - (v - 1)); b \<leftarrow> backwardlcs e db kb; Some (lcs_sort (f @ b)) }
     else if u = 0 \<or> v = 0 \<or> x = ux e \<or> y = uy e then
       (if u = 0 \<or> v = 0 then backwardlcs e db kb else forwardlcs e df kf)
     else do {
     c3 \<leftarrow> (if x + 1 \<le> ux e then bmatch e (db - 1) (x + 1 - y - delta e) (x + 1) else Some False);
     if c3 then do {
       b \<leftarrow> backwardlcs e (db - 1) (kb + 1); f \<leftarrow> forwardlcs e df kf; Some (lcs_sort (b @ f)) }
     else do {
     c4 \<leftarrow> (if y + 1 \<le> uy e then bmatch e (db - 1) (x - (y + 1) - delta e) x else Some False);
     if c4 then do {
       b \<leftarrow> backwardlcs e (db - 1) (kb - 1); f \<leftarrow> forwardlcs e df kf; Some (lcs_sort (b @ f)) }
     else do {
       b \<leftarrow> backwardlcs e db kb;
       f \<leftarrow> forward (e\<lparr>ux := u, uy := v\<rparr>);
       Some (lcs_sort (b @ f)) } } } } } }"

fun forward_pass :: "'a editGraph \<Rightarrow> int \<Rightarrow> int list \<Rightarrow> 'a editGraph option" where
  "forward_pass e D [] = Some e"
| "forward_pass e D (k # ks) = do { e1 \<leftarrow> forward_k e D k; forward_pass e1 D ks }"

fun backward_pass :: "'a editGraph \<Rightarrow> int \<Rightarrow> int list \<Rightarrow> 'a editGraph option" where
  "backward_pass e D [] = Some e"
| "backward_pass e D (k # ks) = do { e1 \<leftarrow> backward_k e D k; backward_pass e1 D ks }"

definition twosided_forward :: "'a editGraph \<Rightarrow> int \<Rightarrow> 'a editGraph option" where
  "twosided_forward e D = do {
     f0 \<leftarrow> getForward e D (- D);
     e1 \<leftarrow> setForward e (D + 1) (- (D + 1)) f0;
     f1 \<leftarrow> getForward e1 D D;
     e2 \<leftarrow> setForward e1 (D + 1) (D + 1) (f1 + 1);
     forward_pass e2 D (krange (- D + 1) (D - 1)) }"

definition twosided_backward :: "'a editGraph \<Rightarrow> int \<Rightarrow> 'a editGraph option" where
  "twosided_backward e D = do {
     f0 \<leftarrow> getBackward e D (- D);
     e1 \<leftarrow> setBackward e (D + 1) (- (D + 1)) (f0 - 1);
     f1 \<leftarrow> getBackward e1 D D;
     e2 \<leftarrow> setBackward e1 (D + 1) (D + 1) f1;
     backward_pass e2 D (krange (- D + 1) (D - 1)) }"

fun twosided_Ds :: "nat \<Rightarrow> 'a editGraph \<Rightarrow> int \<Rightarrow> ('a editGraph + lcs) option" where
  "twosided_Ds 0 e D = Some (Inl e)"
| "twosided_Ds (Suc n) e D = do {
     t1 \<leftarrow> twoDone e D D;
     (case t1 of Some got \<Rightarrow> map_option Inr (twolcs e D D got)
      | None \<Rightarrow> do {
          e1 \<leftarrow> twosided_forward e D;
          t2 \<leftarrow> twoDone e1 (D + 1) D;
          (case t2 of Some got \<Rightarrow> map_option Inr (twolcs e1 (D + 1) D got)
           | None \<Rightarrow> do { e2 \<leftarrow> twosided_backward e1 D; twosided_Ds n e2 (D + 1) }) }) }"

definition twosided_limit :: "'a editGraph \<Rightarrow> lcs option" where
  "twosided_limit e = do {
     kf \<leftarrow> best_forward e (krange (- limit e) (limit e)) (- 1) (- limit e - 1);
     if kf < - limit e then None
     else do {
       f \<leftarrow> forwardlcs e (limit e) kf;
       kb \<leftarrow> best_backward e (krange (- limit e) (limit e)) (2 ^ 25) kf;
       if kb < - limit e then None
       else do { b \<leftarrow> backwardlcs e (limit e) kb; Some (lcs_fix (f @ b)) } } }"

definition twosided :: "'a editGraph \<Rightarrow> lcs option" where
  "twosided e = do {
     e1 \<leftarrow> setForward e 0 0 (lx e);
     e2 \<leftarrow> setBackward e1 0 0 (ux e1);
     r \<leftarrow> twosided_Ds (nat (limit e)) e2 0;
     (case r of Inr ans \<Rightarrow> Some ans | Inl e3 \<Rightarrow> twosided_limit e3) }"

definition maxDiffs :: int where "maxDiffs = 8"

definition new_editGraph :: "label \<Rightarrow> label \<Rightarrow> 'a list \<Rightarrow> 'a list \<Rightarrow> int \<Rightarrow> 'a editGraph" where
  "new_editGraph pf pb a b lim = \<lparr>
     seq_a = a, seq_b = b, vf = pf, vb = pb,
     limit = (if lim \<le> 0 then 2 ^ 25 else lim), lx = 0, ly = 0,
     ux = int (length a), uy = int (length b), delta = int (length a) - int (length b)\<rparr>"

definition compute :: "label \<Rightarrow> label \<Rightarrow> 'a list \<Rightarrow> 'a list \<Rightarrow> ('a editGraph \<Rightarrow> lcs option) \<Rightarrow> int
    \<Rightarrow> (Diff list \<times> lcs) option" where
  "compute pf pb a b algo lim = do {
     l \<leftarrow> algo (new_editGraph pf pb a b lim);
     Some (toDiffs l (int (length a)) (int (length b)), l) }"

definition DiffBytes :: "label \<Rightarrow> label \<Rightarrow> 'a list \<Rightarrow> 'a list \<Rightarrow> Diff list option" where
  "DiffBytes pf pb a b = map_option fst (compute pf pb a b twosided (half maxDiffs))"

end
