(* ===== verification/Go_Binary.thy ===== *)
theory Go_Binary
  imports Prelude
begin

text \<open>
  What the sources use of the Go standard library, as HOL functions:

  \<^item> \<open>encoding/binary\<close>: \<open>AppendUvarint\<close>, \<open>Uvarint\<close>, \<open>ReadUvarint\<close>, and the big-endian
    \<open>AppendUint64\<close>/\<open>Uint64\<close> and \<open>AppendUint32\<close>/\<open>Uint32\<close>;
  \<^item> \<open>hash/crc32\<close>: the IEEE polynomial, bit by bit;
  \<^item> \<open>bytes.Compare\<close>, which is the lexicographic order of \<open>List_Lexorder\<close> on unsigned bytes.

  The lemmas: every decoder inverts its encoder on any suffix, encodings have the lengths the
  storage layer relies on, and the big-endian encoding preserves the order of the numbers.
\<close>

unbundle bit_operations_syntax

section \<open>Variable-length integers\<close>

text \<open>\<open>binary.AppendUvarint(buf, x)\<close> appends \<open>uvarint x\<close>: seven bits a byte, low bits first.\<close>

function uvarint :: "u64 \<Rightarrow> bytes" where
  "uvarint x = (if x < 0x80 then [ucast x] else (ucast x OR 0x80) # uvarint (drop_bit 7 x))"
  by pat_completeness auto
termination
proof (relation "measure unat")
  fix x :: u64
  assume "\<not> x < 0x80"
  then have "128 \<le> unat x"
    by (simp add: word_less_nat_alt)
  moreover have "unat (drop_bit 7 x) = unat x div 128"
    by (simp add: drop_bit_eq_div unat_div)
  ultimately show "(drop_bit 7 x, x) \<in> measure unat" by simp
qed auto

declare uvarint.simps [simp del]

definition AppendUvarint :: "bytes \<Rightarrow> u64 \<Rightarrow> bytes" where
  "AppendUvarint buf x = buf @ uvarint x"

text \<open>\<open>binary.Uvarint(buf)\<close>: the value and the number of bytes read, \<open>0\<close> when the buffer is too
  short, negative when the value overflows 64 bits.\<close>

fun Uvarint_loop :: "nat \<Rightarrow> u64 \<Rightarrow> nat \<Rightarrow> bytes \<Rightarrow> u64 \<times> int" where
  "Uvarint_loop i x s [] = (0, 0)"
| "Uvarint_loop i x s (b # bs) =
     (if i = 10 then (0, - int (i + 1))
      else if b < 0x80 then
        (if i = 9 \<and> 1 < b then (0, - int (i + 1)) else (x OR push_bit s (ucast b), int (i + 1)))
      else Uvarint_loop (i + 1) (x OR push_bit s (ucast (b AND 0x7f))) (s + 7) bs)"

definition Uvarint :: "bytes \<Rightarrow> u64 \<times> int" where
  "Uvarint buf = Uvarint_loop 0 0 0 buf"

text \<open>\<open>binary.ReadUvarint(r)\<close> on a reader whose unread bytes are the argument; the result carries
  the bytes left unread.\<close>

fun ReadUvarint_loop :: "nat \<Rightarrow> u64 \<Rightarrow> nat \<Rightarrow> bytes \<Rightarrow> (u64 \<times> bytes) result" where
  "ReadUvarint_loop i x s [] =
     (if 10 \<le> i then Inl ErrOverflow else if 0 < i then Inl ErrUnexpectedEOF else Inl ErrEOF)"
| "ReadUvarint_loop i x s (b # bs) =
     (if 10 \<le> i then Inl ErrOverflow
      else if b < 0x80 then
        (if i = 9 \<and> 1 < b then Inl ErrOverflow else Inr (x OR push_bit s (ucast b), bs))
      else ReadUvarint_loop (i + 1) (x OR push_bit s (ucast (b AND 0x7f))) (s + 7) bs)"

definition ReadUvarint :: "bytes \<Rightarrow> (u64 \<times> bytes) result" where
  "ReadUvarint r = ReadUvarint_loop 0 0 0 r"

section \<open>Big-endian integers\<close>

fun be :: "nat \<Rightarrow> nat \<Rightarrow> bytes" where
  "be 0 x = []"
| "be (Suc n) x = be n (x div 256) @ [word_of_nat (x mod 256)]"

definition unbe :: "bytes \<Rightarrow> nat" where
  "unbe bs = foldl (\<lambda>a b. a * 256 + unat b) 0 bs"

definition be64 :: "u64 \<Rightarrow> bytes" where "be64 x = be 8 (unat x)"
definition be32 :: "u32 \<Rightarrow> bytes" where "be32 x = be 4 (unat x)"

text \<open>\<open>BigEndian.Uint64(b)\<close> and \<open>Uint32\<close> read the first 8 and 4 bytes; they panic on a shorter
  slice, so every use below stands under a length check or returns \<open>GoPanic\<close>.\<close>

definition Uint64 :: "bytes \<Rightarrow> u64" where "Uint64 b = word_of_nat (unbe (take 8 b))"
definition Uint32 :: "bytes \<Rightarrow> u32" where "Uint32 b = word_of_nat (unbe (take 4 b))"

section \<open>CRC-32 (IEEE)\<close>

definition crc32_bit :: "u32 \<Rightarrow> u32" where
  "crc32_bit c = (if bit c 0 then drop_bit 1 c XOR 0xEDB88320 else drop_bit 1 c)"

definition crc32_byte :: "u32 \<Rightarrow> byte \<Rightarrow> u32" where
  "crc32_byte c b = (crc32_bit ^^ 8) (c XOR ucast b)"

text \<open>The running state of a \<open>hash.Hash32\<close>: \<open>Write\<close> folds the bytes in, \<open>Sum32\<close> complements.\<close>

definition crc32_new :: u32 where "crc32_new = 0xFFFFFFFF"
definition crc32_Write :: "u32 \<Rightarrow> bytes \<Rightarrow> u32" where "crc32_Write h bs = foldl crc32_byte h bs"
definition crc32_Sum32 :: "u32 \<Rightarrow> u32" where "crc32_Sum32 h = h XOR 0xFFFFFFFF"

section \<open>Lemmas: variable-length integers\<close>

lemma unat_drop_bit_7: "unat (drop_bit 7 x :: u64) = unat x div 128"
  by (simp add: drop_bit_eq_div unat_div)

lemma mask_7: "(0x7f :: u64) = mask 7" "(0x7f :: u8) = mask 7"
  by (simp_all add: mask_eq_exp_minus_1)

lemma low7_or_high: "push_bit s (x AND 0x7f) OR push_bit (s + 7) (drop_bit 7 x) = push_bit s (x :: u64)"
proof -
  have "(x AND 0x7f) OR push_bit 7 (drop_bit 7 x) = x"
    unfolding mask_7 by (rule bit_eqI) (case_tac "n < 7"; auto simp: bit_simps)
  then have "push_bit s x = push_bit s ((x AND 0x7f) OR push_bit 7 (drop_bit 7 x))"
    by simp
  then show ?thesis
    by (simp add: push_bit_or add.commute)
qed

lemma cont_byte: "ucast ((ucast (x :: u64) OR 0x80 :: u8) AND 0x7f) = (x AND 0x7f)"
proof -
  have "(ucast x OR 0x80 :: u8) AND mask 7 = take_bit 7 (ucast x)"
    by (simp flip: take_bit_eq_mask add: take_bit_or)
  then show ?thesis unfolding mask_7 by (simp only:) (auto simp: bit_eq_iff bit_simps)
qed

lemma cont_byte_big: "\<not> (ucast (x :: u64) OR 0x80 :: u8) < 0x80"
  by (simp add: not_less le_word_or1)

lemma last_byte_small: "x < 0x80 \<Longrightarrow> (ucast (x :: u64) :: u8) < 0x80"
  by (simp add: word_less_nat_alt unsigned_ucast_eq take_bit_eq_mod)

lemma last_byte_id: "x < 0x80 \<Longrightarrow> ucast (ucast (x :: u64) :: u8) = x"
  by (rule word_unat_eq_iff [THEN iffD2])
    (simp add: word_less_nat_alt unsigned_ucast_eq take_bit_eq_mod unat_mod)

lemma last_byte_one: "x < 0x80 \<Longrightarrow> 1 < (ucast (x :: u64) :: u8) \<longleftrightarrow> 1 < unat x"
  by (simp add: word_less_nat_alt unsigned_ucast_eq take_bit_eq_mod)

lemmas byte_facts = cont_byte cont_byte_big last_byte_small last_byte_id last_byte_one

text \<open>What is left of the number fits in the bits left of the word; a tenth byte is 0 or 1.\<close>

lemma varint_step:
  assumes "unat x < 2 ^ (64 - 7 * i)" "\<not> x < (0x80 :: u64)" "i \<le> 9"
  shows "unat (drop_bit 7 x) < 2 ^ (64 - 7 * Suc i) \<and> i < 9"
proof -
  have ge: "128 \<le> unat x" using assms(2) by (simp add: word_less_nat_alt not_less)
  have i: "i < 9"
  proof (rule ccontr)
    assume "\<not> i < 9"
    with assms(3) have "i = 9" by simp
    with assms(1) ge show False by simp
  qed
  then have "64 - 7 * i = (64 - 7 * Suc i) + 7" by simp
  then have "unat x < 2 ^ (64 - 7 * Suc i) * 128"
    using assms(1) by (simp only: power_add) simp
  with i show ?thesis
    by (simp only: unat_drop_bit_7) (simp add: less_mult_imp_div_less)
qed

lemma Uvarint_loop_uvarint:
  "unat x < 2 ^ (64 - 7 * i) \<Longrightarrow> i \<le> 9 \<Longrightarrow>
   Uvarint_loop i acc (7 * i) (uvarint x @ rest)
     = (acc OR push_bit (7 * i) x, int (i + length (uvarint x)))"
proof (induction x arbitrary: i acc rule: uvarint.induct)
  case (1 x)
  show ?case
  proof (cases "x < 0x80")
    case True
    have "\<not> (i = 9 \<and> 1 < (ucast x :: u8))"
      using "1.prems" True by (auto simp: last_byte_one)
    with True "1.prems" show ?thesis
      by (auto simp: uvarint.simps [of x] byte_facts simp del: One_nat_def)
  next
    case False
    from varint_step [OF "1.prems"(1) False "1.prems"(2)]
    have "Uvarint_loop (Suc i) (acc OR push_bit (7 * i) (x AND 0x7f)) (7 * Suc i)
            (uvarint (drop_bit 7 x) @ rest)
          = ((acc OR push_bit (7 * i) (x AND 0x7f)) OR push_bit (7 * Suc i) (drop_bit 7 x),
             int (Suc i + length (uvarint (drop_bit 7 x))))" and "i < 9"
      using "1.IH" [OF False, of "Suc i"] by auto
    with False show ?thesis
      using low7_or_high [of "7 * i" x]
      by (simp add: uvarint.simps [of x] byte_facts or.assoc add.commute)
  qed
qed

lemma ReadUvarint_loop_uvarint:
  "unat x < 2 ^ (64 - 7 * i) \<Longrightarrow> i \<le> 9 \<Longrightarrow>
   ReadUvarint_loop i acc (7 * i) (uvarint x @ rest) = Inr (acc OR push_bit (7 * i) x, rest)"
proof (induction x arbitrary: i acc rule: uvarint.induct)
  case (1 x)
  show ?case
  proof (cases "x < 0x80")
    case True
    have "\<not> (i = 9 \<and> 1 < (ucast x :: u8))"
      using "1.prems" True by (auto simp: last_byte_one)
    with True "1.prems" show ?thesis
      by (auto simp: uvarint.simps [of x] byte_facts simp del: One_nat_def)
  next
    case False
    from varint_step [OF "1.prems"(1) False "1.prems"(2)]
    have "ReadUvarint_loop (Suc i) (acc OR push_bit (7 * i) (x AND 0x7f)) (7 * Suc i)
            (uvarint (drop_bit 7 x) @ rest)
          = Inr ((acc OR push_bit (7 * i) (x AND 0x7f)) OR push_bit (7 * Suc i) (drop_bit 7 x), rest)"
      and "i < 9"
      using "1.IH" [OF False, of "Suc i"] by auto
    with False show ?thesis
      using low7_or_high [of "7 * i" x]
      by (simp add: uvarint.simps [of x] byte_facts or.assoc add.commute)
  qed
qed

lemma unat_u64_bound: "unat (x :: u64) < 2 ^ 64"
  using unsigned_less [of x, where ?'a = nat] by simp

lemma Uvarint_uvarint [simp, go_simps]: "Uvarint (uvarint x @ rest) = (x, int (length (uvarint x)))"
  using Uvarint_loop_uvarint [of x 0 0 rest] unat_u64_bound [of x] by (simp add: Uvarint_def)

lemma Uvarint_uvarint0 [simp, go_simps]: "Uvarint (uvarint x) = (x, int (length (uvarint x)))"
  using Uvarint_uvarint [of x "[]"] by simp

lemma ReadUvarint_uvarint [simp, go_simps]: "ReadUvarint (uvarint x @ rest) = Inr (x, rest)"
  using ReadUvarint_loop_uvarint [of x 0 0 rest] unat_u64_bound [of x] by (simp add: ReadUvarint_def)

lemma ReadUvarint_uvarint0 [simp, go_simps]: "ReadUvarint (uvarint x) = Inr (x, [])"
  using ReadUvarint_uvarint [of x "[]"] by simp

lemma uvarint_not_Nil [simp, go_simps]: "uvarint x \<noteq> []"
  by (subst uvarint.simps) simp

lemma length_uvarint_pos [simp, go_simps]: "0 < length (uvarint x)"
  by simp

lemma uvarint_append_inject: "uvarint x @ r = uvarint y @ s \<longleftrightarrow> x = y \<and> r = s"
  by (metis ReadUvarint_uvarint prod.inject sum.inject(2))

lemma uvarint_inject [simp]: "uvarint x = uvarint y \<longleftrightarrow> x = y"
  by (metis ReadUvarint_uvarint0 prod.inject sum.inject(2))

lemma length_uvarint_bound: "unat x < 2 ^ (64 - 7 * i) \<Longrightarrow> i \<le> 9 \<Longrightarrow> length (uvarint x) \<le> 10 - i"
proof (induction x arbitrary: i rule: uvarint.induct)
  case (1 x)
  show ?case
  proof (cases "x < 0x80")
    case True
    with "1.prems" show ?thesis by (simp add: uvarint.simps [of x])
  next
    case False
    from varint_step [OF "1.prems"(1) False "1.prems"(2)] "1.IH" [OF False, of "Suc i"] False
    show ?thesis by (auto simp: uvarint.simps [of x])
  qed
qed

lemma length_uvarint_le: "length (uvarint x) \<le> 10"
  using length_uvarint_bound [of x 0] unat_u64_bound [of x] by simp

section \<open>Lemmas: big-endian integers\<close>

lemma length_be [simp]: "length (be n x) = n"
  by (induction n arbitrary: x) auto

lemma length_be64 [simp, go_simps]: "length (be64 x) = 8"
  and length_be32 [simp, go_simps]: "length (be32 y) = 4"
  by (simp_all add: be64_def be32_def)

lemma unbe_snoc: "unbe (bs @ [b]) = unbe bs * 256 + unat b"
  by (simp add: unbe_def)

lemma unbe_be: "unbe (be n x) = x mod 256 ^ n"
proof (induction n arbitrary: x)
  case (Suc n)
  have "unat (word_of_nat (x mod 256) :: u8) = x mod 256"
    by (simp add: unat_of_nat)
  with Suc show ?case
    by (simp add: unbe_snoc mod_mult2_eq [of x 256 "256 ^ n"] mult.commute)
qed (simp add: unbe_def)

lemma be_unbe: "be (length b) (unbe b) = b"
proof (induction b rule: rev_induct)
  case (snoc x xs)
  have "unat x < 256" using unsigned_less [of x, where ?'a = nat] by simp
  with snoc show ?case by (simp add: unbe_snoc word_of_nat_eq_iff take_bit_eq_mod flip: unat_eq_nat_uint)
qed (simp add: unbe_def)

lemma Uint64_be64 [simp, go_simps]: "Uint64 (be64 x @ rest) = x"
proof -
  have "unat x mod 256 ^ 8 = unat x" using unat_u64_bound [of x] by simp
  then show ?thesis by (simp add: Uint64_def be64_def unbe_be)
qed

lemma Uint64_be64_0 [simp, go_simps]: "Uint64 (be64 x) = x"
  using Uint64_be64 [of x "[]"] by simp

lemma Uint32_be32 [simp, go_simps]: "Uint32 (be32 x @ rest) = x"
proof -
  have "unat x < 2 ^ 32" using unsigned_less [of x, where ?'a = nat] by simp
  then have "unat x mod 256 ^ 4 = unat x" by simp
  then show ?thesis by (simp add: Uint32_def be32_def unbe_be)
qed

lemma Uint32_be32_0 [simp, go_simps]: "Uint32 (be32 x) = x"
  using Uint32_be32 [of x "[]"] by simp

lemma unbe_less: "unbe bs < 256 ^ length bs"
proof (induction bs rule: rev_induct)
  case (snoc b bs)
  have "unat b < 256" using unsigned_less [of b, where ?'a = nat] by simp
  with snoc show ?case by (simp add: unbe_snoc)
qed (simp add: unbe_def)

lemma be64_Uint64: "length b = 8 \<Longrightarrow> be64 (Uint64 b) = b"
  using be_unbe [of b] unbe_less [of b] by (simp add: be64_def Uint64_def unsigned_of_nat take_bit_nat_eq_self)

lemma be32_Uint32: "length b = 4 \<Longrightarrow> be32 (Uint32 b) = b"
  using be_unbe [of b] unbe_less [of b] by (simp add: be32_def Uint32_def unsigned_of_nat take_bit_nat_eq_self)

lemma be64_inject [simp]: "be64 x = be64 y \<longleftrightarrow> x = y"
  by (metis Uint64_be64_0)

lemma be64_append_inject: "be64 x @ r = be64 y @ s \<longleftrightarrow> x = y \<and> r = s"
  by (auto simp: append_eq_append_conv)

lemma unbe_append: "unbe (xs @ ys) = unbe xs * 256 ^ length ys + unbe ys"
proof (induction ys rule: rev_induct)
  case (snoc y ys)
  show ?case
    using unbe_snoc [of "xs @ ys" y] snoc by (simp add: unbe_snoc algebra_simps)
qed (simp add: unbe_def)

lemma unbe_Cons: "unbe (x # xs) = unat x * 256 ^ length xs + unbe xs"
  using unbe_append [of "[x]" xs] by (simp add: unbe_def)

lemma lex_less_unbe: "length xs = length ys \<Longrightarrow> xs < ys \<longleftrightarrow> unbe xs < unbe ys"
proof (induction xs ys rule: list_induct2)
  case (Cons x xs y ys)
  let ?n = "256 ^ length ys :: nat"
  have b: "unbe xs < ?n" "unbe ys < ?n"
    using unbe_less [of xs] unbe_less [of ys] Cons.hyps by simp_all
  have lt: "a * ?n + c < b * ?n + d" if "a < b" "c < ?n" for a b c d
  proof -
    have "Suc a * ?n \<le> b * ?n" using that(1) by (intro mult_le_mono1) simp
    with that(2) show ?thesis by simp
  qed
  consider "x < y" | "x = y" | "y < x" by fastforce
  then show ?case
  proof cases
    case 1
    then have "unat x < unat y" by (simp add: word_less_nat_alt)
    with 1 lt [OF this b(1)] Cons.hyps show ?thesis by (simp add: unbe_Cons)
  next
    case 2
    with Cons show ?thesis by (simp add: unbe_Cons)
  next
    case 3
    then have "unat y < unat x" by (simp add: word_less_nat_alt)
    from lt [OF this b(2), of "unbe xs"] 3 Cons.hyps show ?thesis by (auto simp: unbe_Cons)
  qed
qed (simp add: unbe_def)

text \<open>LMDB orders keys bytewise; big-endian keys are therefore in numeric order.\<close>

lemma be64_less [go_simps]: "be64 x < be64 y \<longleftrightarrow> x < y"
proof -
  have "unat x mod 256 ^ 8 = unat x" "unat y mod 256 ^ 8 = unat y"
    using unat_u64_bound [of x] unat_u64_bound [of y] by simp_all
  then show ?thesis
    by (simp add: lex_less_unbe be64_def unbe_be word_less_nat_alt)
qed

lemma be64_le [go_simps]: "be64 x \<le> be64 y \<longleftrightarrow> x \<le> y"
  by (simp add: le_less be64_less)

end
