(* ===== verification/Lmdb.thy ===== *)
theory Lmdb
  imports Go_Binary
begin

text \<open>
  LMDB, the ordered key-value store under the state machine, is third-party code: it is a
  parameter of the model. The record \<open>lmdb\<close> holds the operations of a write transaction the
  sources call (\<open>Txn.Get\<close>, \<open>Put\<close>, \<open>Del\<close>, \<open>OpenDBI\<close>, \<open>OpenCursor\<close>, and the cursor operations
  \<open>SetRange\<close>, \<open>Next\<close>, \<open>NextDup\<close>, \<open>NextNoDup\<close>, \<open>Del(Current)\<close>) over an unspecified type of
  transaction states, plus the entry count of a database (\<open>Stat\<close>), which bounds the scan loops.
  A cursor is the entry it stands on.

  The locale \<open>lmdb\<close> states the documented behaviour the sources rely on, through the sorted list
  of the entries of each database (\<open>view\<close>): bytewise order of keys and of the duplicates of a
  key, one value a key in a database opened without \<open>DupSort\<close>, at most 511 bytes in a key and
  in a duplicate, \<open>NotFound\<close> when there is nothing to return. The operations of the model below
  never assume it; the theorems that need it take \<open>lmdb L view\<close> as a hypothesis.

  \<open>mem_lmdb\<close> is an in-memory store that satisfies the contract: it shows that the hypothesis can
  hold and serves as the store of every concrete run.
\<close>

section \<open>The interface\<close>

text \<open>The databases the state machine opens, by the name it opens them under.\<close>

datatype dbi =
    DBI_meta | DBI_stats | DBI_revision | DBI_event | DBI_value
  | DBI_lease | DBI_lease_exp | DBI_lease_key

definition dupsort :: "dbi \<Rightarrow> bool" where
  "dupsort d \<longleftrightarrow> d = DBI_revision \<or> d = DBI_event"

lemma dupsort_simps [simp]:
  "dupsort DBI_revision" "dupsort DBI_event" "\<not> dupsort DBI_meta" "\<not> dupsort DBI_stats"
  "\<not> dupsort DBI_value" "\<not> dupsort DBI_lease" "\<not> dupsort DBI_lease_exp" "\<not> dupsort DBI_lease_key"
  by (simp_all add: dupsort_def)

type_synonym entry = "bytes \<times> bytes"

record 't lmdb =
  mdb_OpenDBI :: "'t \<Rightarrow> dbi \<Rightarrow> 't result"
  mdb_Get :: "'t \<Rightarrow> dbi \<Rightarrow> bytes \<Rightarrow> bytes result"
  mdb_Put :: "'t \<Rightarrow> dbi \<Rightarrow> bytes \<Rightarrow> bytes \<Rightarrow> 't result"
  mdb_Del :: "'t \<Rightarrow> dbi \<Rightarrow> bytes \<Rightarrow> 't result"
  mdb_OpenCursor :: "'t \<Rightarrow> dbi \<Rightarrow> unit result"
  cur_SetRange :: "'t \<Rightarrow> dbi \<Rightarrow> bytes \<Rightarrow> entry result"
  cur_Next :: "'t \<Rightarrow> dbi \<Rightarrow> entry option \<Rightarrow> entry result"
  cur_NextDup :: "'t \<Rightarrow> dbi \<Rightarrow> entry \<Rightarrow> entry result"
  cur_NextNoDup :: "'t \<Rightarrow> dbi \<Rightarrow> entry \<Rightarrow> entry result"
  cur_Del :: "'t \<Rightarrow> dbi \<Rightarrow> entry \<Rightarrow> 't result"
  mdb_Entries :: "'t \<Rightarrow> dbi \<Rightarrow> nat"

section \<open>Sorted lists of entries\<close>

abbreviation ssorted :: "entry list \<Rightarrow> bool" where
  "ssorted \<equiv> sorted_wrt (<)"

definition good_db :: "dbi \<Rightarrow> entry list \<Rightarrow> bool" where
  "good_db d xs \<longleftrightarrow> ssorted xs \<and> (dupsort d \<or> distinct (map fst xs))"

fun ins_entry :: "entry \<Rightarrow> entry list \<Rightarrow> entry list" where
  "ins_entry e [] = [e]"
| "ins_entry e (x # xs) = (if e < x then e # x # xs else if e = x then x # xs else x # ins_entry e xs)"

definition del_key :: "bytes \<Rightarrow> entry list \<Rightarrow> entry list" where
  "del_key k xs = filter (\<lambda>e. fst e \<noteq> k) xs"

definition put_entry :: "dbi \<Rightarrow> bytes \<Rightarrow> bytes \<Rightarrow> entry list \<Rightarrow> entry list" where
  "put_entry d k v xs = ins_entry (k, v) (if dupsort d then xs else del_key k xs)"

definition first_entry :: "(entry \<Rightarrow> bool) \<Rightarrow> entry list \<Rightarrow> entry result" where
  "first_entry P xs = (case List.find P xs of None \<Rightarrow> Inl ErrMdbNotFound | Some e \<Rightarrow> Inr e)"

definition after :: "entry option \<Rightarrow> entry \<Rightarrow> bool" where
  "after p e = (case p of None \<Rightarrow> True | Some q \<Rightarrow> q < e)"

lemma after_simps [simp]: "after None e" "after (Some q) e \<longleftrightarrow> q < e"
  by (simp_all add: after_def)

text \<open>Sizes LMDB accepts: keys of 1 to 511 bytes, duplicates of at most 511.\<close>

definition size_ok :: "dbi \<Rightarrow> bytes \<Rightarrow> bytes \<Rightarrow> bool" where
  "size_ok d k v \<longleftrightarrow> k \<noteq> [] \<and> length k \<le> 511 \<and> (dupsort d \<longrightarrow> length v \<le> 511)"

lemma set_ins_entry [simp]: "set (ins_entry e xs) = insert e (set xs)"
  by (induction xs) auto

lemma sorted_ins_entry [intro, simp]: "ssorted xs \<Longrightarrow> ssorted (ins_entry e xs)"
  by (induction xs) (auto dest: less_trans)

lemma set_del_key [simp]: "set (del_key k xs) = {e \<in> set xs. fst e \<noteq> k}"
  by (simp add: del_key_def)

lemma sorted_del_key [intro, simp]: "ssorted xs \<Longrightarrow> ssorted (del_key k xs)"
  by (simp add: del_key_def sorted_wrt_filter)

lemma fst_ins_entry_distinct:
  "distinct (map fst xs) \<Longrightarrow> fst e \<notin> fst ` set xs \<Longrightarrow> distinct (map fst (ins_entry e xs))"
  by (induction xs) auto

lemma distinct_del_key: "distinct (map fst xs) \<Longrightarrow> distinct (map fst (del_key k xs))"
  by (simp add: del_key_def distinct_map_filter)

lemma set_put_entry:
  "set (put_entry d k v xs) = insert (k, v) (if dupsort d then set xs else {e \<in> set xs. fst e \<noteq> k})"
  by (simp add: put_entry_def)

lemma good_put_entry [intro]: "good_db d xs \<Longrightarrow> good_db d (put_entry d k v xs)"
  by (auto simp: good_db_def put_entry_def intro!: fst_ins_entry_distinct distinct_del_key)

lemma good_filter [intro]: "good_db d xs \<Longrightarrow> good_db d (filter P xs)"
  by (auto simp: good_db_def sorted_wrt_filter distinct_map_filter)

lemma ssorted_eq_iff_set: "ssorted xs \<Longrightarrow> ssorted ys \<Longrightarrow> xs = ys \<longleftrightarrow> set xs = set ys"
  by (metis strict_sorted_equal)

lemma map_of_ins_entry:
  "fst e \<notin> fst ` set ys \<Longrightarrow> map_of (ins_entry e ys) = (map_of ys)(fst e \<mapsto> snd e)"
  by (induction ys) (auto simp: fun_eq_iff)

lemma map_of_del_key: "map_of (del_key k xs) = (map_of xs)(k := None)"
  by (induction xs) (auto simp: del_key_def fun_eq_iff)

lemma map_of_put_entry:
  assumes "\<not> dupsort d"
  shows "map_of (put_entry d k v xs) = (map_of xs)(k \<mapsto> v)"
proof -
  have "fst (k, v) \<notin> fst ` set (del_key k xs)" by auto
  from map_of_ins_entry [OF this] assms show ?thesis
    by (simp add: put_entry_def map_of_del_key)
qed

section \<open>The contract\<close>

locale lmdb =
  fixes L :: "'t lmdb" and view :: "'t \<Rightarrow> dbi \<Rightarrow> entry list"
  assumes view_good: "good_db d (view t d)"
    and OpenDBI: "mdb_OpenDBI L t d = Inr t' \<Longrightarrow> view t' d' = view t d'"
    and OpenDBI_ok: "\<exists>t'. mdb_OpenDBI L t d = Inr t'"
    and Get: "k \<noteq> [] \<Longrightarrow> mdb_Get L t d k =
        bindE (first_entry (\<lambda>e. fst e = k) (view t d)) (\<lambda>e. Inr (snd e))"
    and Put_ok: "size_ok d k v \<Longrightarrow> \<exists>t'. mdb_Put L t d k v = Inr t'"
    and Put: "mdb_Put L t d k v = Inr t' \<Longrightarrow>
        view t' d' = (if d' = d then put_entry d k v (view t d) else view t d')"
    and Del_ok: "k \<in> fst ` set (view t d) \<Longrightarrow> \<exists>t'. mdb_Del L t d k = Inr t'"
    and Del_missing: "k \<noteq> [] \<Longrightarrow> k \<notin> fst ` set (view t d) \<Longrightarrow> mdb_Del L t d k = Inl ErrMdbNotFound"
    and Del: "mdb_Del L t d k = Inr t' \<Longrightarrow>
        view t' d' = (if d' = d then del_key k (view t d) else view t d')"
    and OpenCursor: "mdb_OpenCursor L t d = Inr ()"
    and SetRange: "k \<noteq> [] \<Longrightarrow> cur_SetRange L t d k = first_entry (\<lambda>e. k \<le> fst e) (view t d)"
    and Next: "cur_Next L t d p = first_entry (after p) (view t d)"
    and NextDup: "cur_NextDup L t d q = first_entry (\<lambda>e. q < e \<and> fst e = fst q) (view t d)"
    and NextNoDup: "cur_NextNoDup L t d q = first_entry (\<lambda>e. fst q < fst e) (view t d)"
    and CurDel_ok: "q \<in> set (view t d) \<Longrightarrow> \<exists>t'. cur_Del L t d q = Inr t'"
    and CurDel: "cur_Del L t d q = Inr t' \<Longrightarrow>
        view t' d' = (if d' = d then filter (\<lambda>e. e \<noteq> q) (view t d) else view t d')"
    and Entries: "mdb_Entries L t d = length (view t d)"
begin

lemma view_sorted [simp]: "ssorted (view t d)"
  using view_good [of d t] by (simp add: good_db_def)

lemma view_distinct [simp]: "distinct (view t d)"
  using strict_sorted_iff view_sorted by blast

lemma view_keys_distinct [simp]: "\<not> dupsort d \<Longrightarrow> distinct (map fst (view t d))"
  using view_good [of d t] by (simp add: good_db_def)

lemma Get_map_of:
  "\<not> dupsort d \<Longrightarrow> k \<noteq> [] \<Longrightarrow> mdb_Get L t d k =
     (case map_of (view t d) k of None \<Rightarrow> Inl ErrMdbNotFound | Some v \<Rightarrow> Inr v)"
proof -
  assume k: "k \<noteq> []"
  have "bindE (first_entry (\<lambda>e. fst e = k) xs) (\<lambda>e. Inr (snd e)) =
      (case map_of xs k of None \<Rightarrow> Inl ErrMdbNotFound | Some v \<Rightarrow> Inr v)" for xs :: "entry list"
    by (induction xs) (auto simp: first_entry_def split: option.splits)
  with k show ?thesis by (simp add: Get)
qed

lemma Put_map_of:
  "\<not> dupsort d \<Longrightarrow> mdb_Put L t d k v = Inr t' \<Longrightarrow>
     map_of (view t' d) = (map_of (view t d))(k \<mapsto> v)"
  by (simp add: Put map_of_put_entry)

lemma Put_other: "mdb_Put L t d k v = Inr t' \<Longrightarrow> d' \<noteq> d \<Longrightarrow> view t' d' = view t d'"
  by (simp add: Put)

lemma Put_set:
  "mdb_Put L t d k v = Inr t' \<Longrightarrow> set (view t' d) =
     insert (k, v) (if dupsort d then set (view t d) else {e \<in> set (view t d). fst e \<noteq> k})"
  by (simp add: Put set_put_entry)

end

section \<open>An in-memory store that satisfies the contract\<close>

typedef memdb = "{f :: dbi \<Rightarrow> entry list. \<forall>d. good_db d (f d)}"
  by (rule exI [where x = "\<lambda>_. []"]) (simp add: good_db_def)

definition mem_empty :: memdb where
  "mem_empty = Abs_memdb (\<lambda>_. [])"

definition mem_view :: "memdb \<Rightarrow> dbi \<Rightarrow> entry list" where
  "mem_view m = Rep_memdb m"

definition mem_put :: "memdb \<Rightarrow> dbi \<Rightarrow> bytes \<Rightarrow> bytes \<Rightarrow> memdb" where
  "mem_put m d k v = Abs_memdb ((mem_view m)(d := put_entry d k v (mem_view m d)))"

definition mem_filter :: "memdb \<Rightarrow> dbi \<Rightarrow> (entry \<Rightarrow> bool) \<Rightarrow> memdb" where
  "mem_filter m d P = Abs_memdb ((mem_view m)(d := filter P (mem_view m d)))"

lemma good_mem_view [simp]: "good_db d (mem_view m d)"
  using Rep_memdb [of m] by (simp add: mem_view_def)

lemma mem_view_Abs: "(\<And>d. good_db d (f d)) \<Longrightarrow> mem_view (Abs_memdb f) = f"
  by (simp add: mem_view_def Abs_memdb_inverse)

lemma mem_view_empty [simp]: "mem_view mem_empty d = []"
  by (simp add: mem_empty_def mem_view_Abs good_db_def)

lemma mem_view_put [simp]:
  "mem_view (mem_put m d k v) d' = (if d' = d then put_entry d k v (mem_view m d) else mem_view m d')"
proof -
  have "good_db d1 (((mem_view m)(d := put_entry d k v (mem_view m d))) d1)" for d1
    by auto
  then show ?thesis by (simp add: mem_put_def mem_view_Abs)
qed

lemma mem_view_filter [simp]:
  "mem_view (mem_filter m d P) d' = (if d' = d then filter P (mem_view m d) else mem_view m d')"
proof -
  have "good_db d1 (((mem_view m)(d := filter P (mem_view m d))) d1)" for d1
    by auto
  then show ?thesis by (simp add: mem_filter_def mem_view_Abs)
qed

definition mem_lmdb :: "memdb lmdb" where
  "mem_lmdb = \<lparr>
     mdb_OpenDBI = (\<lambda>m d. Inr m),
     mdb_Get = (\<lambda>m d k. bindE (first_entry (\<lambda>e. fst e = k) (mem_view m d)) (\<lambda>e. Inr (snd e))),
     mdb_Put = (\<lambda>m d k v. if size_ok d k v then Inr (mem_put m d k v) else Inl (ErrMdb 30781)),
     mdb_Del = (\<lambda>m d k. if k \<in> fst ` set (mem_view m d)
        then Inr (mem_filter m d (\<lambda>e. fst e \<noteq> k)) else Inl ErrMdbNotFound),
     mdb_OpenCursor = (\<lambda>m d. Inr ()),
     cur_SetRange = (\<lambda>m d k. first_entry (\<lambda>e. k \<le> fst e) (mem_view m d)),
     cur_Next = (\<lambda>m d p. first_entry (after p) (mem_view m d)),
     cur_NextDup = (\<lambda>m d q. first_entry (\<lambda>e. q < e \<and> fst e = fst q) (mem_view m d)),
     cur_NextNoDup = (\<lambda>m d q. first_entry (\<lambda>e. fst q < fst e) (mem_view m d)),
     cur_Del = (\<lambda>m d q. Inr (mem_filter m d (\<lambda>e. e \<noteq> q))),
     mdb_Entries = (\<lambda>m d. length (mem_view m d))\<rparr>"

lemma mem_lmdb_simps [simp]:
  "mdb_OpenDBI mem_lmdb m d = Inr m"
  "mdb_Get mem_lmdb m d k = bindE (first_entry (\<lambda>e. fst e = k) (mem_view m d)) (\<lambda>e. Inr (snd e))"
  "mdb_Put mem_lmdb m d k v = (if size_ok d k v then Inr (mem_put m d k v) else Inl (ErrMdb 30781))"
  "mdb_Del mem_lmdb m d k = (if k \<in> fst ` set (mem_view m d)
        then Inr (mem_filter m d (\<lambda>e. fst e \<noteq> k)) else Inl ErrMdbNotFound)"
  "mdb_OpenCursor mem_lmdb m d = Inr ()"
  "cur_SetRange mem_lmdb m d k = first_entry (\<lambda>e. k \<le> fst e) (mem_view m d)"
  "cur_Next mem_lmdb m d p = first_entry (after p) (mem_view m d)"
  "cur_NextDup mem_lmdb m d q = first_entry (\<lambda>e. q < e \<and> fst e = fst q) (mem_view m d)"
  "cur_NextNoDup mem_lmdb m d q = first_entry (\<lambda>e. fst q < fst e) (mem_view m d)"
  "cur_Del mem_lmdb m d q = Inr (mem_filter m d (\<lambda>e. e \<noteq> q))"
  "mdb_Entries mem_lmdb m d = length (mem_view m d)"
  by (simp_all add: mem_lmdb_def)

interpretation mem: lmdb mem_lmdb mem_view
  by unfold_locales (auto simp: del_key_def split: if_splits)

end
