(* ===== verification/Types.thy ===== *)
theory Types
  imports Lcs Lmdb
begin

text \<open>
  The constants and the flags of \<open>src/types.go\<close>.

  The package-level variables \<open>PCB_*\<close> are the fields of the record \<open>config\<close>, so that every
  theorem holds for all their values; \<open>default_config\<close> has the values the source gives them.
  \<open>env\<close> extends it with what the storage code takes from outside the repository: the snappy
  codec (\<open>github.com/golang/snappy\<close>), and the contents of the label pool of the diff package.
  The durations are not modelled, since the model has no clock.
\<close>

section \<open>Constants\<close>

definition KV_FLAG_PATCH :: u8 where "KV_FLAG_PATCH = 1"
definition KV_FLAG_COMPRESSED :: u8 where "KV_FLAG_COMPRESSED = 2"

definition CMD_INTERNAL_TERM :: byte where "CMD_INTERNAL_TERM = 0"
definition CMD_INTERNAL_TICK :: byte where "CMD_INTERNAL_TICK = 1"
definition CMD_KV_PUT :: byte where "CMD_KV_PUT = 2"
definition CMD_KV_DELETE_RANGE :: byte where "CMD_KV_DELETE_RANGE = 3"
definition CMD_KV_COMPACT :: byte where "CMD_KV_COMPACT = 4"
definition CMD_KV_TXN :: byte where "CMD_KV_TXN = 5"
definition CMD_LEASE_GRANT :: byte where "CMD_LEASE_GRANT = 6"
definition CMD_LEASE_REVOKE :: byte where "CMD_LEASE_REVOKE = 7"
definition CMD_LEASE_KEEP_ALIVE :: byte where "CMD_LEASE_KEEP_ALIVE = 8"
definition CMD_LEASE_KEEP_ALIVE_BATCH :: byte where "CMD_LEASE_KEEP_ALIVE_BATCH = 9"

lemmas CMD_defs = CMD_INTERNAL_TERM_def CMD_INTERNAL_TICK_def CMD_KV_PUT_def
  CMD_KV_DELETE_RANGE_def CMD_KV_COMPACT_def CMD_KV_TXN_def CMD_LEASE_GRANT_def
  CMD_LEASE_REVOKE_def CMD_LEASE_KEEP_ALIVE_def CMD_LEASE_KEEP_ALIVE_BATCH_def

definition QUERY_KV_RANGE :: byte where "QUERY_KV_RANGE = 0"
definition QUERY_LEASE_LEASES :: byte where "QUERY_LEASE_LEASES = 1"
definition QUERY_LEASE_TIME_TO_LIVE :: byte where "QUERY_LEASE_TIME_TO_LIVE = 2"
definition QUERY_WATCH_PROGRESS :: byte where "QUERY_WATCH_PROGRESS = 3"
definition QUERY_HEADER :: byte where "QUERY_HEADER = 4"

lemmas QUERY_defs = QUERY_KV_RANGE_def QUERY_LEASE_LEASES_def QUERY_LEASE_TIME_TO_LIVE_def
  QUERY_WATCH_PROGRESS_def QUERY_HEADER_def

definition WatchMessageType_UNKNOWN :: byte where "WatchMessageType_UNKNOWN = 0"
definition WatchMessageType_INIT :: byte where "WatchMessageType_INIT = 1"
definition WatchMessageType_EVENT :: byte where "WatchMessageType_EVENT = 2"
definition WatchMessageType_SYNC :: byte where "WatchMessageType_SYNC = 3"
definition WatchMessageType_NOTIFY :: byte where "WatchMessageType_NOTIFY = 4"
definition WatchMessageType_CANCELED :: byte where "WatchMessageType_CANCELED = 5"
definition WatchMessageType_ERR_COMPACTED :: byte where "WatchMessageType_ERR_COMPACTED = 6"
definition WatchMessageType_ERR_EXISTS :: byte where "WatchMessageType_ERR_EXISTS = 7"

lemmas WatchMessageType_defs = WatchMessageType_UNKNOWN_def WatchMessageType_INIT_def
  WatchMessageType_EVENT_def WatchMessageType_SYNC_def WatchMessageType_NOTIFY_def
  WatchMessageType_CANCELED_def WatchMessageType_ERR_COMPACTED_def
  WatchMessageType_ERR_EXISTS_def

definition sizeMetaKeyValue :: int where "sizeMetaKeyValue = 256"
definition sizeMetaEvent :: int where "sizeMetaEvent = 256"
definition sizeMetaHeader :: int where "sizeMetaHeader = 256"
definition sizeMetaWatchResponse :: int where "sizeMetaWatchResponse = 256"
definition limitCompactionMaxKeys :: nat where "limitCompactionMaxKeys = 1000"
definition PCB_TXN_OPS_LIMIT :: nat where "PCB_TXN_OPS_LIMIT = 1024"
definition PCB_LIMIT_KEY_LENGTH :: nat where "PCB_LIMIT_KEY_LENGTH = 480"

section \<open>Flags\<close>

record config =
  PCB_RANGE_COUNT_FULL :: bool
  PCB_RANGE_COUNT_FAKE :: bool
  PCB_RANGE_COUNT_FILTER_CORRECT :: bool
  PCB_PATCH_ENABLED :: bool
  PCB_COMPRESSION_ENABLED :: bool
  PCB_TXN_MULTI_WRITE_ENABLED :: bool
  PCB_WATCH_ID_ZERO_INDEX :: bool
  PCB_TXN_OPS_MAX :: int
  PCB_RESPONSE_SIZE_MAX :: int
  PCB_READ_LOCAL :: bool
  PCB_BATCH_LEASE_RENEWAL :: bool
  PCB_BATCH_LEASE_RENEWAL_LIMIT :: int

definition default_config :: config where
  "default_config = \<lparr>
     PCB_RANGE_COUNT_FULL = True, PCB_RANGE_COUNT_FAKE = False,
     PCB_RANGE_COUNT_FILTER_CORRECT = True, PCB_PATCH_ENABLED = True,
     PCB_COMPRESSION_ENABLED = True, PCB_TXN_MULTI_WRITE_ENABLED = False,
     PCB_WATCH_ID_ZERO_INDEX = False, PCB_TXN_OPS_MAX = 128,
     PCB_RESPONSE_SIZE_MAX = 10 * 1024 * 1024, PCB_READ_LOCAL = True,
     PCB_BATCH_LEASE_RENEWAL = True, PCB_BATCH_LEASE_RENEWAL_LIMIT = 1000\<rparr>"

record env = config +
  snappy_Encode :: "bytes \<Rightarrow> bytes"
  snappy_Decode :: "bytes \<Rightarrow> bytes option"
  pool_f :: label
  pool_b :: label

text \<open>A codec for the concrete runs: it stores the bytes as they are, so it never shortens them.\<close>

definition plain_env :: env where
  "plain_env = config.extend default_config
     \<lparr>snappy_Encode = (\<lambda>b. b), snappy_Decode = Some, pool_f = [], pool_b = []\<rparr>"

lemma plain_env_simps [simp]:
  "PCB_RANGE_COUNT_FULL plain_env" "\<not> PCB_RANGE_COUNT_FAKE plain_env"
  "PCB_RANGE_COUNT_FILTER_CORRECT plain_env" "PCB_PATCH_ENABLED plain_env"
  "PCB_COMPRESSION_ENABLED plain_env" "\<not> PCB_TXN_MULTI_WRITE_ENABLED plain_env"
  "\<not> PCB_WATCH_ID_ZERO_INDEX plain_env" "PCB_TXN_OPS_MAX plain_env = 128"
  "PCB_RESPONSE_SIZE_MAX plain_env = 10 * 1024 * 1024" "PCB_READ_LOCAL plain_env"
  "PCB_BATCH_LEASE_RENEWAL plain_env" "PCB_BATCH_LEASE_RENEWAL_LIMIT plain_env = 1000"
  "snappy_Encode plain_env b = b" "snappy_Decode plain_env b = Some b"
  "pool_f plain_env = []" "pool_b plain_env = []"
  by (simp_all add: plain_env_def default_config_def config.defs)

end
