(* ===== verification/Db.thy ===== *)
theory Db
  imports Types
begin

text \<open>
  \<open>src/crc.go\<close> and \<open>src/db.go\<close>: the checksum every stored value carries, and the storage of
  64-bit counters. The handle \<open>db.i\<close> is the name of the database.
\<close>

definition crc :: "bytes \<Rightarrow> bytes \<Rightarrow> u32" where
  "crc key val = crc32_Sum32 (crc32_Write (crc32_Write crc32_new key) val)"

definition trimChecksum :: "bytes \<Rightarrow> bytes \<Rightarrow> bytes result" where
  "trimChecksum key val =
     (if length val < 4 then Inl ErrChecksumInvalid
      else let chk = Uint32 (drop (length val - 4) val);
               val1 = take (length val - 4) val in
           if chk \<noteq> crc key val1 then Inl ErrChecksumInvalid else Inr val1)"

definition addChecksum :: "bytes \<Rightarrow> bytes \<Rightarrow> bytes" where
  "addChecksum key val = val @ be32 (crc key val)"

text \<open>When fewer than eight bytes precede the checksum the error is set but the slice is taken
  anyway: up to its capacity, which still holds the checksum, and beyond that it panics.\<close>

definition getUint64 :: "'t lmdb \<Rightarrow> 't \<Rightarrow> dbi \<Rightarrow> bytes \<Rightarrow> u64 result" where
  "getUint64 L t d key =
     bindE (mdb_Get L t d key) (\<lambda>val.
     bindE (trimChecksum key val) (\<lambda>val1.
     if length val1 < 4 then Inl GoPanic
     else if length val1 < 8 then Inl ErrValueInvalid
     else Inr (Uint64 (take 8 val1))))"

definition putUint64 :: "'t lmdb \<Rightarrow> 't \<Rightarrow> dbi \<Rightarrow> bytes \<Rightarrow> u64 \<Rightarrow> 't result" where
  "putUint64 L t d key val = mdb_Put L t d key (addChecksum key (be64 val))"

section \<open>Lemmas\<close>

lemma trim_addChecksum [simp, codec_simps]: "trimChecksum key (addChecksum key val) = Inr val"
  by (simp add: trimChecksum_def addChecksum_def)

lemma length_addChecksum [simp, codec_simps]: "length (addChecksum key val) = length val + 4"
  by (simp add: addChecksum_def)

lemma trimChecksum_Inr_iff: "trimChecksum key val = Inr v \<longleftrightarrow> val = addChecksum key v"
proof
  assume t: "trimChecksum key val = Inr v"
  then have len: "4 \<le> length val" and v: "v = take (length val - 4) val"
    and c: "Uint32 (drop (length val - 4) val) = crc key v"
    by (auto simp: trimChecksum_def Let_def split: if_splits)
  from len have "be32 (Uint32 (drop (length val - 4) val)) = drop (length val - 4) val"
    by (intro be32_Uint32) simp
  with v c show "val = addChecksum key v"
    by (metis addChecksum_def append_take_drop_id)
qed simp

text \<open>The checksum register after each byte is an injective function of the register before it,
  and of the byte.\<close>

lemma xor_right_cancel: "(a :: 'a :: len word) XOR c = b XOR c \<longleftrightarrow> a = b"
  by (auto simp: bit_eq_iff bit_xor_iff)

lemma xor_left_cancel: "(c :: 'a :: len word) XOR a = c XOR b \<longleftrightarrow> a = b"
  by (auto simp: bit_eq_iff bit_xor_iff)

lemma crc32_bit_top: "bit (crc32_bit c) 31 = bit c 0"
  by (simp add: crc32_bit_def bit_simps) (use bit_imp_le_length [of c 32] in auto)

lemma crc32_bit_inject: "crc32_bit c = crc32_bit d \<longleftrightarrow> c = d"
proof
  assume eq: "crc32_bit c = crc32_bit d"
  then have b0: "bit c 0 = bit d 0" using crc32_bit_top by metis
  have "drop_bit 1 c = drop_bit 1 d"
    using eq b0 by (auto simp: crc32_bit_def xor_right_cancel split: if_splits)
  then have "bit c (Suc n) = bit d (Suc n)" for n
    by (metis bit_drop_bit_eq plus_1_eq_Suc comp_apply)
  with b0 show "c = d" by (metis bit_word_eqI not0_implies_Suc)
qed simp

lemma crc32_bits_inject: "(crc32_bit ^^ n) c = (crc32_bit ^^ n) d \<longleftrightarrow> c = d"
  by (induction n) (simp_all add: crc32_bit_inject)

lemma ucast_ucast_id_u8: "ucast (ucast (a :: u8) :: u32) = a"
  by (simp add: bit_eq_iff bit_simps)

lemma crc32_byte_inject: "crc32_byte c a = crc32_byte d a \<longleftrightarrow> c = d"
  unfolding crc32_byte_def crc32_bits_inject by (rule xor_right_cancel)

lemma crc32_byte_inject2: "crc32_byte c a = crc32_byte c b \<longleftrightarrow> a = b"
  unfolding crc32_byte_def crc32_bits_inject xor_left_cancel
  by (metis ucast_ucast_id_u8)

lemma crc32_Write_inject: "crc32_Write c bs = crc32_Write d bs \<longleftrightarrow> c = d"
  by (induction bs arbitrary: c d) (simp_all add: crc32_Write_def crc32_byte_inject)

lemma crc32_Write_append: "crc32_Write c (xs @ ys) = crc32_Write (crc32_Write c xs) ys"
  by (simp add: crc32_Write_def)

lemma crc_one_byte: "crc key (xs @ a # ys) = crc key (xs @ b # ys) \<longleftrightarrow> a = b"
proof -
  have "crc32_Write h (xs @ c # ys) = crc32_Write (crc32_byte (crc32_Write h xs) c) ys" for h c
    by (simp add: crc32_Write_def)
  then show ?thesis
    by (simp add: crc_def crc32_Sum32_def xor_right_cancel crc32_Write_inject crc32_byte_inject2)
qed

lemma be32_inject: "be32 x = be32 y \<longleftrightarrow> x = y"
  by (metis Uint32_be32_0)

lemma trimChecksum_one_byte:
  assumes "addChecksum key v = xs @ a # ys" "a \<noteq> b"
  shows "trimChecksum key (xs @ b # ys) = Inl ErrChecksumInvalid"
proof (cases "trimChecksum key (xs @ b # ys)")
  case (Inl e)
  then show ?thesis by (auto simp: trimChecksum_def Let_def split: if_splits)
next
  case (Inr w)
  then have w: "xs @ b # ys = w @ be32 (crc key w)"
    by (simp add: trimChecksum_Inr_iff addChecksum_def)
  have v: "xs @ a # ys = v @ be32 (crc key v)" using assms by (simp add: addChecksum_def)
  have len: "length w = length v"
    using arg_cong [OF w, of length] arg_cong [OF v, of length] by simp
  have "a = b"
  proof (cases "length xs < length v")
    case True
    let ?n = "length v - Suc (length xs)"
    have "take (length v) (xs @ b # ys) = w" "drop (length v) (xs @ b # ys) = be32 (crc key w)"
      unfolding w by (simp_all add: len)
    then have w': "w = xs @ b # take ?n ys" and dw: "drop ?n ys = be32 (crc key w)"
      using True by (simp_all add: take_Cons' drop_Cons')
    have "take (length v) (xs @ a # ys) = v" "drop (length v) (xs @ a # ys) = be32 (crc key v)"
      unfolding v by simp_all
    then have v': "v = xs @ a # take ?n ys" and dv: "drop ?n ys = be32 (crc key v)"
      using True by (simp_all add: take_Cons' drop_Cons')
    from dw dv have "be32 (crc key v) = be32 (crc key w)" by simp
    then show ?thesis using v' w' by (metis be32_inject crc_one_byte)
  next
    case False
    then have same: "take (length v) (xs @ b # ys) = take (length v) (xs @ a # ys)" by simp
    have "take (length v) (xs @ b # ys) = w" unfolding w by (simp add: len)
    also have "take (length v) (xs @ b # ys) = v" unfolding same unfolding v by simp
    finally have "xs @ a # ys = xs @ b # ys" unfolding v w by simp
    then show ?thesis by simp
  qed
  with assms show ?thesis by simp
qed

section \<open>Counters\<close>

context lmdb
begin

lemma put_getUint64:
  assumes "\<not> dupsort d" "key \<noteq> []" "putUint64 L t d key val = Inr t'"
  shows "getUint64 L t' d key = Inr val"
  using assms Put_map_of [of d t key _ t']
  by (simp add: putUint64_def getUint64_def Get_map_of)

lemma putUint64_ok:
  assumes "\<not> dupsort d" "key \<noteq> []" "length key \<le> 511"
  shows "\<exists>t'. putUint64 L t d key val = Inr t'"
  using assms by (simp add: putUint64_def Put_ok size_ok_def)

lemma putUint64_other:
  assumes "putUint64 L t d key val = Inr t'" "d' \<noteq> d"
  shows "view t' d' = view t d'"
  using assms by (simp add: putUint64_def Put)

end

section \<open>Properties\<close>

text \<open>C34: the checksum of a stored value detects every change of a single byte of it, in the payload or
  in the checksum itself: the value is refused, never returned altered.\<close>

theorem checksum_detects_one_byte:
  assumes "addChecksum key v = xs @ a # ys" "a \<noteq> c"
  shows "trimChecksum key (xs @ c # ys) = Inl ErrChecksumInvalid"
  by (rule trimChecksum_one_byte [OF assms])

theorem checksum_detects_one_byte_witness:
  "trimChecksum [1] ([] @ 8 # be32 (crc [1] [7])) = Inl ErrChecksumInvalid"
  by (rule checksum_detects_one_byte [where v = "[7]" and a = 7]) (simp_all add: addChecksum_def)

end
