(* ===== verification/Lcs_Correct.thy ===== *)
theory Lcs_Correct
  imports Lcs
begin

text \<open>
  The correctness of the diff: \<open>DiffBytes\<close> returns for every pair of inputs, and what it returns is
  an edit script between them.

  The label tables the passes fill are shown equal to two recursive functions, \<open>fr\<close> and \<open>br\<close>, the
  furthest points reachable by a path with a given number of edges from either corner. What the
  two-sided search needs of them is then geometry: where the backtracking goes (\<open>fr_start\<close>), and
  that a path that leaves the rectangle has passed its border one step earlier (\<open>fr_top\<close>,
  \<open>fr_right\<close> and their mirror images).
\<close>

section \<open>Cells and snakes\<close>

definition cell :: "'a list \<Rightarrow> 'a list \<Rightarrow> int \<Rightarrow> int \<Rightarrow> bool" where
  "cell a b x y \<longleftrightarrow> 0 \<le> x \<and> x < int (length a) \<and> 0 \<le> y \<and> y < int (length b) \<and> a ! nat x = b ! nat y"

definition snake :: "'a list \<Rightarrow> 'a list \<Rightarrow> int \<Rightarrow> int \<Rightarrow> int \<Rightarrow> bool" where
  "snake a b k s x \<longleftrightarrow> s \<le> x \<and> (\<forall>i. s \<le> i \<and> i < x \<longrightarrow> cell a b i (i - k))"

lemma snake_refl [simp]: "snake a b k s s"
  by (auto simp: snake_def)

lemma snake_trans: "snake a b k s x \<Longrightarrow> snake a b k x z \<Longrightarrow> snake a b k s z"
  unfolding snake_def by (metis linorder_not_le order_trans)

lemma snake_sub: "snake a b k s x \<Longrightarrow> s \<le> s' \<Longrightarrow> s' \<le> x \<Longrightarrow> snake a b k s' x"
  by (auto simp: snake_def)

lemma commonPrefixLen_loop_spec:
  "i \<le> n \<Longrightarrow> (let r = commonPrefixLen_loop a b n i in
     i \<le> r \<and> r \<le> n \<and> (\<forall>j. i \<le> j \<and> j < r \<longrightarrow> a ! j = b ! j) \<and> (r < n \<longrightarrow> a ! r \<noteq> b ! r))"
proof (induction a b n i rule: commonPrefixLen_loop.induct)
  case (1 a b n i)
  show ?case
  proof (cases "i < n \<and> a ! i = b ! i")
    case True
    then have r: "commonPrefixLen_loop a b n i = commonPrefixLen_loop a b n (i + 1)"
      by (simp add: commonPrefixLen_loop.simps [of a b n i])
    from 1 True have IH: "(let r = commonPrefixLen_loop a b n (i + 1) in
       i + 1 \<le> r \<and> r \<le> n \<and> (\<forall>j. i + 1 \<le> j \<and> j < r \<longrightarrow> a ! j = b ! j) \<and> (r < n \<longrightarrow> a ! r \<noteq> b ! r))" by auto
    have "a ! j = b ! j" if "i \<le> j" "j < commonPrefixLen_loop a b n (i + 1)" for j
      using that IH True by (cases "j = i") (auto simp: Let_def)
    with IH show ?thesis unfolding r by (auto simp: Let_def)
  next
    case False
    then have "commonPrefixLen_loop a b n i = i" by (auto simp: commonPrefixLen_loop.simps [of a b n i])
    with 1 False show ?thesis by (auto simp: Let_def)
  qed
qed

lemma commonSuffixLen_loop_spec:
  "i \<le> n \<Longrightarrow> (let r = commonSuffixLen_loop a b n i in
     i \<le> r \<and> r \<le> n \<and> (\<forall>j. i \<le> j \<and> j < r \<longrightarrow> a ! (length a - 1 - j) = b ! (length b - 1 - j))
     \<and> (r < n \<longrightarrow> a ! (length a - 1 - r) \<noteq> b ! (length b - 1 - r)))"
proof (induction a b n i rule: commonSuffixLen_loop.induct)
  case (1 a b n i)
  show ?case
  proof (cases "i < n \<and> a ! (length a - 1 - i) = b ! (length b - 1 - i)")
    case True
    then have r: "commonSuffixLen_loop a b n i = commonSuffixLen_loop a b n (i + 1)"
      by (simp add: commonSuffixLen_loop.simps [of a b n i])
    from 1 True have IH: "(let r = commonSuffixLen_loop a b n (i + 1) in
       i + 1 \<le> r \<and> r \<le> n \<and> (\<forall>j. i + 1 \<le> j \<and> j < r \<longrightarrow> a ! (length a - 1 - j) = b ! (length b - 1 - j))
       \<and> (r < n \<longrightarrow> a ! (length a - 1 - r) \<noteq> b ! (length b - 1 - r)))" by auto
    have "a ! (length a - 1 - j) = b ! (length b - 1 - j)"
      if "i \<le> j" "j < commonSuffixLen_loop a b n (i + 1)" for j
      using that IH True by (cases "j = i") (auto simp: Let_def)
    with IH show ?thesis unfolding r by (auto simp: Let_def)
  next
    case False
    then have "commonSuffixLen_loop a b n i = i" by (auto simp: commonSuffixLen_loop.simps [of a b n i])
    with 1 False show ?thesis by (auto simp: Let_def)
  qed
qed

lemma nth_take_drop: "j < length (take n (drop m xs)) \<Longrightarrow> take n (drop m xs) ! j = xs ! (m + j)"
  by (auto intro: nth_drop)

lemma commonPrefixLenBytes_spec:
  obtains r where "commonPrefixLenBytes A B = int r" "r \<le> length A" "r \<le> length B"
    "\<And>j. j < r \<Longrightarrow> A ! j = B ! j" "r < length A \<Longrightarrow> r < length B \<Longrightarrow> A ! r \<noteq> B ! r"
  using commonPrefixLen_loop_spec [of 0 "min (length A) (length B)" A B] that
  unfolding commonPrefixLenBytes_def by (auto simp: Let_def)

lemma commonSuffixLenBytes_spec:
  obtains r where "commonSuffixLenBytes A B = int r" "r \<le> length A" "r \<le> length B"
    "\<And>j. j < r \<Longrightarrow> A ! (length A - 1 - j) = B ! (length B - 1 - j)"
    "r < length A \<Longrightarrow> r < length B \<Longrightarrow> A ! (length A - 1 - r) \<noteq> B ! (length B - 1 - r)"
  using commonSuffixLen_loop_spec [of 0 "min (length A) (length B)" A B] that
  unfolding commonSuffixLenBytes_def by (auto simp: Let_def)

section \<open>The furthest point along a diagonal\<close>

text \<open>\<open>lookF\<close> and \<open>lookB\<close> are what \<open>lookForward\<close> and \<open>lookBackward\<close> compute when they do not panic.
  \<open>k\<close> is a forward diagonal in both.\<close>

definition lookF :: "'a list \<Rightarrow> 'a list \<Rightarrow> int \<Rightarrow> int \<Rightarrow> int \<Rightarrow> int \<Rightarrow> int" where
  "lookF a b u v k s = (if s < u \<and> s - k < v
     then s + commonPrefixLenBytes (take (nat (u - s)) (drop (nat s) a))
                (take (nat (v - (s - k))) (drop (nat (s - k)) b)) else s)"

definition lookB :: "'a list \<Rightarrow> 'a list \<Rightarrow> int \<Rightarrow> int \<Rightarrow> int" where
  "lookB a b k s = (if s > 0 \<and> s - k > 0
     then s - commonSuffixLenBytes (take (nat s) a) (take (nat (s - k)) b) else s)"

text \<open>A rectangle inside the edit graph.\<close>

definition rect :: "'a list \<Rightarrow> 'a list \<Rightarrow> int \<Rightarrow> int \<Rightarrow> bool" where
  "rect a b u v \<longleftrightarrow> 0 \<le> u \<and> u \<le> int (length a) \<and> 0 \<le> v \<and> v \<le> int (length b)"

lemma lookF_props:
  assumes r: "rect a b u v" and s: "0 \<le> s" "0 \<le> s - k"
  shows "snake a b k s (lookF a b u v k s)"
    and "s < u \<and> s - k < v \<Longrightarrow> lookF a b u v k s \<le> u \<and> lookF a b u v k s - k \<le> v"
    and "let x = lookF a b u v k s in x < u \<and> x - k < v \<longrightarrow> \<not> cell a b x (x - k)"
proof -
  let ?A = "take (nat (u - s)) (drop (nat s) a)"
  let ?B = "take (nat (v - (s - k))) (drop (nat (s - k)) b)"
  obtain r where pr: "commonPrefixLenBytes ?A ?B = int r" "r \<le> length ?A" "r \<le> length ?B"
    "\<And>j. j < r \<Longrightarrow> ?A ! j = ?B ! j" "r < length ?A \<Longrightarrow> r < length ?B \<Longrightarrow> ?A ! r \<noteq> ?B ! r"
    by (rule commonPrefixLenBytes_spec [of ?A ?B]) blast
  have nth: "?A ! j = a ! nat (s + int j)" if "j < length ?A" for j
    using nth_take_drop [OF that] s by (simp add: nat_add_distrib)
  have nthB: "?B ! j = b ! nat (s + int j - k)" if "j < length ?B" for j
  proof -
    have "nat (s - k) + j = nat (s + int j - k)" using s by auto
    with nth_take_drop [OF that] show ?thesis by metis
  qed
  have "snake a b k s (lookF a b u v k s) \<and>
     (s < u \<and> s - k < v \<longrightarrow> lookF a b u v k s \<le> u \<and> lookF a b u v k s - k \<le> v) \<and>
     (let x = lookF a b u v k s in x < u \<and> x - k < v \<longrightarrow> \<not> cell a b x (x - k))"
  proof (cases "s < u \<and> s - k < v")
    case True
    then have x: "lookF a b u v k s = s + int r"
      by (simp only: lookF_def pr(1) if_True simp_thms)
    have lA: "length ?A = nat (u - s)" using True r s by (auto simp: rect_def)
    have lB: "length ?B = nat (v - (s - k))" using True r s by (auto simp: rect_def)
    have "cell a b i (i - k)" if "s \<le> i" "i < s + int r" for i
    proof -
      define j where "j = nat (i - s)"
      have j: "j < r" "i = s + int j" using that by (auto simp: j_def)
      then have jn: "j < length ?A" "j < length ?B" using pr(2,3) by linarith+
      from pr(4) [OF j(1)] nth [OF jn(1)] nthB [OF jn(2)] have "a ! nat i = b ! nat (i - k)"
        using j(2) by metis
      moreover have "i < u" "i - k < v" using jn lA lB j(2) True by linarith+
      ultimately show ?thesis using r s that by (auto simp: cell_def rect_def)
    qed
    then have "snake a b k s (s + int r)" by (auto simp: snake_def)
    moreover have "s + int r \<le> u" "s + int r - k \<le> v" using pr(2,3) lA lB True by linarith+
    moreover have "\<not> cell a b (s + int r) (s + int r - k)" if "s + int r < u" "s + int r - k < v"
    proof -
      have rn: "r < length ?A" "r < length ?B" using that lA lB by linarith+
      from pr(5) [OF rn] nth [OF rn(1)] nthB [OF rn(2)] show ?thesis unfolding cell_def by metis
    qed
    ultimately show ?thesis unfolding x by (auto simp: Let_def)
  next
    case False
    then show ?thesis by (auto simp: lookF_def Let_def)
  qed
  then show "snake a b k s (lookF a b u v k s)"
    "s < u \<and> s - k < v \<Longrightarrow> lookF a b u v k s \<le> u \<and> lookF a b u v k s - k \<le> v"
    "let x = lookF a b u v k s in x < u \<and> x - k < v \<longrightarrow> \<not> cell a b x (x - k)" by blast+
qed

lemma lookF_ge: "rect a b u v \<Longrightarrow> 0 \<le> s \<Longrightarrow> 0 \<le> s - k \<Longrightarrow> s \<le> lookF a b u v k s"
  using lookF_props(1) [of a b u v s k] by (simp add: snake_def)

lemma lookF_out: "\<not> (s < u \<and> s - k < v) \<Longrightarrow> lookF a b u v k s = s"
  by (auto simp: lookF_def)

text \<open>From a start on a snake, the look reaches the end of the snake or the border.\<close>

lemma lookF_reach:
  assumes "rect a b u v" "0 \<le> s" "0 \<le> s - k" "snake a b k s x"
  shows "min x (min u (v + k)) \<le> lookF a b u v k s"
proof (rule ccontr)
  let ?l = "lookF a b u v k s"
  assume "\<not> ?thesis"
  then have l: "?l < x" "?l < u" "?l - k < v" by auto
  with lookF_ge [OF assms(1-3)] assms(4) have "cell a b ?l (?l - k)" by (auto simp: snake_def)
  with lookF_props(3) [OF assms(1-3)] l show False by (simp add: Let_def)
qed

lemma lookF_idem:
  assumes "rect a b u v" "0 \<le> s" "0 \<le> s - k"
  shows "lookF a b u v k (lookF a b u v k s) = lookF a b u v k s"
proof -
  let ?l = "lookF a b u v k s"
  have ge: "s \<le> ?l" by (rule lookF_ge [OF assms])
  then have p: "0 \<le> ?l" "0 \<le> ?l - k" using assms by auto
  show ?thesis
  proof (rule ccontr)
    assume ne: "lookF a b u v k ?l \<noteq> ?l"
    then have inr: "?l < u \<and> ?l - k < v" using lookF_out by blast
    from ne lookF_ge [OF assms(1) p] have "?l < lookF a b u v k ?l" by simp
    with lookF_props(1) [OF assms(1) p] have "cell a b ?l (?l - k)" by (auto simp: snake_def)
    with lookF_props(3) [OF assms] inr show False by (simp add: Let_def)
  qed
qed

section \<open>Furthest reaching points\<close>

definition dk :: "nat \<Rightarrow> int \<Rightarrow> bool" where
  "dk D k \<longleftrightarrow> - int D \<le> k \<and> k \<le> int D \<and> even (int D + k)"

fun fr :: "'a list \<Rightarrow> 'a list \<Rightarrow> int \<Rightarrow> int \<Rightarrow> nat \<Rightarrow> int \<Rightarrow> int" where
  "fr a b u v 0 k = lookF a b u v k 0"
| "fr a b u v (Suc D) k =
     (let right = lookF a b u v k (fr a b u v D (k - 1) + 1);
          up = lookF a b u v k (fr a b u v D (k + 1)) in
      if k = - int (Suc D) then up else if k = int (Suc D) then right else max right up)"

lemma dk_0 [simp]: "dk 0 k \<longleftrightarrow> k = 0"
  by (auto simp: dk_def)

lemma dk_Suc_right: "dk (Suc D) k \<Longrightarrow> k \<noteq> - int (Suc D) \<Longrightarrow> dk D (k - 1)"
  unfolding dk_def by (auto simp: algebra_simps) presburger+

lemma dk_Suc_up: "dk (Suc D) k \<Longrightarrow> k \<noteq> int (Suc D) \<Longrightarrow> dk D (k + 1)"
  unfolding dk_def by (auto simp: algebra_simps) presburger+

lemma dk_right: "dk D k \<Longrightarrow> dk (Suc D) (k + 1)"
  and dk_up: "dk D k \<Longrightarrow> dk (Suc D) (k - 1)"
  by (auto simp: dk_def)

lemma dk_uminus: "dk D (- k) \<longleftrightarrow> dk D k"
  by (auto simp: dk_def)

text \<open>A furthest point, its two ways of being reached.\<close>

definition from_right :: "'a list \<Rightarrow> 'a list \<Rightarrow> int \<Rightarrow> int \<Rightarrow> nat \<Rightarrow> int \<Rightarrow> bool" where
  "from_right a b u v D k \<longleftrightarrow> dk D (k - 1) \<and>
     fr a b u v (Suc D) k = lookF a b u v k (fr a b u v D (k - 1) + 1)"

definition from_up :: "'a list \<Rightarrow> 'a list \<Rightarrow> int \<Rightarrow> int \<Rightarrow> nat \<Rightarrow> int \<Rightarrow> bool" where
  "from_up a b u v D k \<longleftrightarrow> dk D (k + 1) \<and>
     fr a b u v (Suc D) k = lookF a b u v k (fr a b u v D (k + 1))"

lemma fr_cases: "dk (Suc D) k \<Longrightarrow> from_right a b u v D k \<or> from_up a b u v D k"
  using dk_Suc_right [of D k] dk_Suc_up [of D k]
  by (auto simp: from_right_def from_up_def Let_def max_def)

lemma fr_nonneg:
  assumes "rect a b u v" "dk D k"
  shows "0 \<le> fr a b u v D k \<and> 0 \<le> fr a b u v D k - k"
  using assms(2)
proof (induction D arbitrary: k)
  case 0
  with lookF_ge [OF assms(1), of 0 0] show ?case by simp
next
  case (Suc D)
  from fr_cases [OF Suc.prems] show ?case
  proof
    assume f: "from_right a b u v D k"
    with Suc.IH have "0 \<le> fr a b u v D (k - 1) \<and> 0 \<le> fr a b u v D (k - 1) - (k - 1)"
      by (simp add: from_right_def)
    then have nn: "0 \<le> fr a b u v D (k - 1) + 1" "0 \<le> fr a b u v D (k - 1) + 1 - k" by auto
    from lookF_ge [OF assms(1) nn] nn f show ?thesis unfolding from_right_def by linarith
  next
    assume f: "from_up a b u v D k"
    with Suc.IH have "0 \<le> fr a b u v D (k + 1) \<and> 0 \<le> fr a b u v D (k + 1) - (k + 1)"
      by (simp add: from_up_def)
    then have nn: "0 \<le> fr a b u v D (k + 1)" "0 \<le> fr a b u v D (k + 1) - k" by auto
    from lookF_ge [OF assms(1) nn] nn f show ?thesis unfolding from_up_def by linarith
  qed
qed

text \<open>A furthest point is at least as far as either step from the level below, and as its look.\<close>

lemma fr_ge_right:
  assumes "rect a b u v" "dk D (k - 1)"
  shows "lookF a b u v k (fr a b u v D (k - 1) + 1) \<le> fr a b u v (Suc D) k"
    and "fr a b u v D (k - 1) + 1 \<le> fr a b u v (Suc D) k"
proof -
  have "k \<noteq> - int (Suc D)" using assms(2) by (auto simp: dk_def)
  then show l: "lookF a b u v k (fr a b u v D (k - 1) + 1) \<le> fr a b u v (Suc D) k"
    by (simp add: Let_def)
  from fr_nonneg [OF assms] lookF_ge [OF assms(1), of "fr a b u v D (k - 1) + 1" k] l
  show "fr a b u v D (k - 1) + 1 \<le> fr a b u v (Suc D) k" by linarith
qed

lemma fr_ge_up:
  assumes "rect a b u v" "dk D (k + 1)"
  shows "lookF a b u v k (fr a b u v D (k + 1)) \<le> fr a b u v (Suc D) k"
    and "fr a b u v D (k + 1) \<le> fr a b u v (Suc D) k"
proof -
  have "k \<noteq> int (Suc D)" using assms(2) by (auto simp: dk_def)
  then show l: "lookF a b u v k (fr a b u v D (k + 1)) \<le> fr a b u v (Suc D) k"
    by (simp add: Let_def)
  from fr_nonneg [OF assms] lookF_ge [OF assms(1), of "fr a b u v D (k + 1)" k] l
  show "fr a b u v D (k + 1) \<le> fr a b u v (Suc D) k" by linarith
qed

text \<open>A path that is above the rectangle was at or above its border one edge earlier, one diagonal
  to the right; likewise to the right of it.\<close>

lemma fr_top:
  assumes "rect a b u v" "dk D k" "v < fr a b u v D k - k"
  shows "\<exists>D'. D = Suc D' \<and> dk D' (k + 1) \<and> fr a b u v D k \<le> fr a b u v D' (k + 1)"
  using assms(2,3)
proof (induction D arbitrary: k)
  case 0
  then have "v < lookF a b u v 0 0" by simp
  with lookF_props(2) [OF assms(1), of 0 0] lookF_out [of 0 u 0 v a b] assms(1) show ?case
    by (cases "0 < u \<and> 0 < v") (auto simp: rect_def)
next
  case (Suc D)
  let ?f = "fr a b u v"
  from fr_cases [OF Suc.prems(1)] show ?case
  proof
    assume f: "from_right a b u v D k"
    then have d: "dk D (k - 1)" by (simp add: from_right_def)
    let ?s = "?f D (k - 1) + 1"
    have nn: "0 \<le> ?s" "0 \<le> ?s - k" using fr_nonneg [OF assms(1) d] by auto
    have "\<not> (?s < u \<and> ?s - k < v)"
      using lookF_props(2) [OF assms(1) nn] Suc.prems(2) f unfolding from_right_def by linarith
    then have eq: "?f (Suc D) k = ?s" using f lookF_out unfolding from_right_def by metis
    with Suc.prems(2) have "v < ?f D (k - 1) - (k - 1)" by linarith
    from Suc.IH [OF d this] obtain D' where D': "D = Suc D'" "dk D' k" "?f D (k - 1) \<le> ?f D' k" by auto
    from fr_ge_right(2) [OF assms(1), of D' "k + 1"] D' eq dk_right [of D' k] show ?thesis by auto
  next
    assume f: "from_up a b u v D k"
    then have d: "dk D (k + 1)" by (simp add: from_up_def)
    let ?s = "?f D (k + 1)"
    have nn: "0 \<le> ?s" "0 \<le> ?s - k" using fr_nonneg [OF assms(1) d] by auto
    have "\<not> (?s < u \<and> ?s - k < v)"
      using lookF_props(2) [OF assms(1) nn] Suc.prems(2) f unfolding from_up_def by linarith
    then have "?f (Suc D) k = ?s" using f lookF_out unfolding from_up_def by metis
    with d show ?thesis by auto
  qed
qed

lemma fr_right:
  assumes "rect a b u v" "dk D k" "u < fr a b u v D k"
  shows "\<exists>D'. D = Suc D' \<and> dk D' (k - 1) \<and> fr a b u v D k - 1 \<le> fr a b u v D' (k - 1)"
  using assms(2,3)
proof (induction D arbitrary: k)
  case 0
  then have "u < lookF a b u v 0 0" by simp
  with lookF_props(2) [OF assms(1), of 0 0] lookF_out [of 0 u 0 v a b] assms(1) show ?case
    by (cases "0 < u \<and> 0 < v") (auto simp: rect_def)
next
  case (Suc D)
  let ?f = "fr a b u v"
  from fr_cases [OF Suc.prems(1)] show ?case
  proof
    assume f: "from_right a b u v D k"
    then have d: "dk D (k - 1)" by (simp add: from_right_def)
    let ?s = "?f D (k - 1) + 1"
    have nn: "0 \<le> ?s" "0 \<le> ?s - k" using fr_nonneg [OF assms(1) d] by auto
    have "\<not> (?s < u \<and> ?s - k < v)"
      using lookF_props(2) [OF assms(1) nn] Suc.prems(2) f unfolding from_right_def by linarith
    then have "?f (Suc D) k = ?s" using f lookF_out unfolding from_right_def by metis
    with d show ?thesis by auto
  next
    assume f: "from_up a b u v D k"
    then have d: "dk D (k + 1)" by (simp add: from_up_def)
    let ?s = "?f D (k + 1)"
    have nn: "0 \<le> ?s" "0 \<le> ?s - k" using fr_nonneg [OF assms(1) d] by auto
    have "\<not> (?s < u \<and> ?s - k < v)"
      using lookF_props(2) [OF assms(1) nn] Suc.prems(2) f unfolding from_up_def by linarith
    then have eq: "?f (Suc D) k = ?s" using f lookF_out unfolding from_up_def by metis
    with Suc.prems(2) have "u < ?f D (k + 1)" by linarith
    from Suc.IH [OF d this] obtain D' where D': "D = Suc D'" "dk D' k" "?f D (k + 1) - 1 \<le> ?f D' k" by auto
    from fr_ge_up(2) [OF assms(1), of D' "k - 1"] D' eq dk_up [of D' k] show ?thesis by auto
  qed
qed

text \<open>A smaller rectangle only stops a path at its border.\<close>

lemma fr_restrict:
  assumes r: "rect a b u v" and R: "rect a b U V" and le: "u \<le> U" "v \<le> V" and "dk D k"
  shows "min (fr a b U V D k) (min u (v + k)) \<le> fr a b u v D k"
  using assms(5)
proof (induction D arbitrary: k)
  case 0
  then have "k = 0" by simp
  then show ?case using lookF_reach [OF r, of 0 0] lookF_props(1) [OF R, of 0 0] by simp
next
  case (Suc D)
  have step: "min (lookF a b U V k S) (min u (v + k)) \<le> lookF a b u v k s"
    if "0 \<le> s" "0 \<le> s - k" "0 \<le> S" "0 \<le> S - k" "min S (min u (v + k)) \<le> s" for s S
  proof (cases "s < min (lookF a b U V k S) (min u (v + k))")
    case True
    with that have "S \<le> s" "s \<le> lookF a b U V k S" by auto
    with lookF_props(1) [OF R that(3,4)] have "snake a b k s (lookF a b U V k S)" by (rule snake_sub)
    from lookF_reach [OF r that(1,2) this] show ?thesis .
  next
    case False
    with lookF_ge [OF r that(1,2)] show ?thesis by linarith
  qed
  from fr_cases [OF Suc.prems] show ?case
  proof
    assume f: "from_right a b U V D k"
    then have d: "dk D (k - 1)" by (simp add: from_right_def)
    have "min (fr a b U V D (k - 1) + 1) (min u (v + k)) \<le> fr a b u v D (k - 1) + 1"
      using Suc.IH [OF d] by linarith
    then have "min (lookF a b U V k (fr a b U V D (k - 1) + 1)) (min u (v + k))
        \<le> lookF a b u v k (fr a b u v D (k - 1) + 1)"
      by (intro step) (use fr_nonneg [OF r d] fr_nonneg [OF R d] in auto)
    with fr_ge_right(1) [OF r d] f show ?thesis unfolding from_right_def by linarith
  next
    assume f: "from_up a b U V D k"
    then have d: "dk D (k + 1)" by (simp add: from_up_def)
    have "min (fr a b U V D (k + 1)) (min u (v + k)) \<le> fr a b u v D (k + 1)"
      using Suc.IH [OF d] by linarith
    then have "min (lookF a b U V k (fr a b U V D (k + 1))) (min u (v + k))
        \<le> lookF a b u v k (fr a b u v D (k + 1))"
      by (intro step) (use fr_nonneg [OF r d] fr_nonneg [OF R d] in auto)
    with fr_ge_up(1) [OF r d] f show ?thesis unfolding from_up_def by linarith
  qed
qed

text \<open>The diagonal of the far corner is first passed at the corner itself.\<close>

lemma fr_corner_exact:
  assumes "rect a b u v"
  shows "dk D (u - v) \<Longrightarrow> u \<le> fr a b u v D (u - v) \<Longrightarrow>
    \<exists>D' \<le> D. dk D' (u - v) \<and> fr a b u v D' (u - v) = u"
proof (induction D rule: less_induct)
  case (less D)
  show ?case
  proof (cases "fr a b u v D (u - v) = u")
    case False
    with less.prems have gt: "u < fr a b u v D (u - v)" by simp
    from fr_top [OF assms less.prems(1)] gt obtain D1
      where D1: "D = Suc D1" "dk D1 (u - v + 1)" "fr a b u v D (u - v) \<le> fr a b u v D1 (u - v + 1)"
      by auto
    from fr_right [OF assms D1(2)] gt D1(3) obtain D2
      where D2: "D1 = Suc D2" "dk D2 (u - v)" "fr a b u v D1 (u - v + 1) - 1 \<le> fr a b u v D2 (u - v)"
      by auto
    then have "D2 < D" "u \<le> fr a b u v D2 (u - v)" using D1 gt by auto
    from less.IH [OF this(1) D2(2) this(2)] obtain D' where
      "D' \<le> D2" "dk D' (u - v)" "fr a b u v D' (u - v) = u" by blast
    moreover from this have "D' \<le> D" using D1(1) D2(1) by simp
    ultimately show ?thesis by blast
  qed (use less.prems in blast)
qed

lemma fr_corner:
  assumes "rect a b u v"
  shows "dk D k \<Longrightarrow> u \<le> fr a b u v D k \<Longrightarrow> v \<le> fr a b u v D k - k \<Longrightarrow>
    \<exists>D' \<le> D. dk D' (u - v) \<and> u \<le> fr a b u v D' (u - v)"
proof (induction D arbitrary: k rule: less_induct)
  case (less D)
  consider "k = u - v" | "u - v < k" | "k < u - v" by linarith
  then show ?case
  proof cases
    case 1
    then show ?thesis using less.prems by blast
  next
    case 2
    with less.prems have "u < fr a b u v D k" by linarith
    from fr_right [OF assms less.prems(1) this] obtain D' where D': "D = Suc D'" "dk D' (k - 1)"
      "fr a b u v D k - 1 \<le> fr a b u v D' (k - 1)" by blast
    with 2 less.prems have "u \<le> fr a b u v D' (k - 1)" "v \<le> fr a b u v D' (k - 1) - (k - 1)" by linarith+
    from less.IH [OF _ D'(2) this] D'(1) show ?thesis by (metis le_Suc_eq lessI)
  next
    case 3
    with less.prems have "v < fr a b u v D k - k" by linarith
    from fr_top [OF assms less.prems(1) this] obtain D' where D': "D = Suc D'" "dk D' (k + 1)"
      "fr a b u v D k \<le> fr a b u v D' (k + 1)" by blast
    with 3 less.prems have "u \<le> fr a b u v D' (k + 1)" "v \<le> fr a b u v D' (k + 1) - (k + 1)" by linarith+
    from less.IH [OF _ D'(2) this] D'(1) show ?thesis by (metis le_Suc_eq lessI)
  qed
qed

text \<open>At every level some furthest point is inside the rectangle, unless the corner was passed
  below it.\<close>

lemma fr_inside:
  assumes "rect a b u v"
  shows "(\<exists>k. dk D k \<and> fr a b u v D k \<le> u \<and> fr a b u v D k - k \<le> v) \<or>
    (\<exists>D' < D. dk D' (u - v) \<and> u \<le> fr a b u v D' (u - v))"
proof (rule ccontr)
  let ?f = "fr a b u v D"
  let ?k = "\<lambda>j. 2 * int j - int D"
  assume no: "\<not> ?thesis"
  have dkj: "dk D (?k j)" if "j \<le> D" for j using that by (auto simp: dk_def)
  have out: "u < ?f (?k j) \<or> v < ?f (?k j) - ?k j" if "j \<le> D" for j
    using no dkj [OF that] by force
  have start: "\<not> u < ?f (?k 0)"
  proof
    assume "u < ?f (?k 0)"
    from fr_right [OF assms dkj this] show False by (auto simp: dk_def)
  qed
  have stop: "u < ?f (?k D)"
  proof (rule ccontr)
    assume "\<not> ?thesis"
    then have "v < ?f (?k D) - ?k D" using out [of D] by blast
    from fr_top [OF assms dkj this] show False by (auto simp: dk_def)
  qed
  define m where "m = (LEAST j. u < ?f (?k j))"
  have m: "u < ?f (?k m)" using stop unfolding m_def by (rule LeastI)
  have "m \<le> D" using stop unfolding m_def by (rule Least_le)
  moreover have "m \<noteq> 0" using m start by metis
  ultimately obtain j where j: "m = Suc j" "j \<le> D" by (cases m) auto
  have "\<not> u < ?f (?k j)" using not_less_Least [of j "\<lambda>j. u < ?f (?k j)"] j(1) by (simp add: m_def)
  with out [OF j(2)] have "v < ?f (?k j) - ?k j" by blast
  from fr_top [OF assms dkj [OF j(2)] this] obtain D' where D': "D = Suc D'" "dk D' (?k j + 1)"
    "?f (?k j) \<le> fr a b u v D' (?k j + 1)" by blast
  from fr_right [OF assms dkj [OF \<open>m \<le> D\<close>] m] obtain D'' where D'': "D = Suc D''"
    "?f (?k m) - 1 \<le> fr a b u v D'' (?k m - 1)" by blast
  have k: "?k m - 1 = ?k j + 1" using j by simp
  have "u \<le> fr a b u v D' (?k j + 1)" using D'' D'(1) m k by (metis Suc_inject le_less_linear
        order.strict_trans1 zle_diff1_eq order_trans)
  moreover have "v \<le> fr a b u v D' (?k j + 1) - (?k j + 1)"
    using D'(3) \<open>v < ?f (?k j) - ?k j\<close> by linarith
  ultimately obtain D3 where "D3 \<le> D'" "dk D3 (u - v)" "u \<le> fr a b u v D3 (u - v)"
    using fr_corner [OF assms D'(2)] by blast
  with no D'(1) show False by (meson le_imp_less_Suc)
qed

section \<open>The mirror image\<close>

text \<open>The backward search is the forward search over the reversed inputs: the point \<open>(x, y)\<close>
  corresponds to \<open>(length a - x, length b - y)\<close>, the backward diagonal \<open>k\<close> to \<open>- k\<close>.\<close>

abbreviation N_of :: "'a list \<Rightarrow> int" where "N_of a \<equiv> int (length a)"

definition br :: "'a list \<Rightarrow> 'a list \<Rightarrow> nat \<Rightarrow> int \<Rightarrow> int" where
  "br a b D k = N_of a - fr (rev a) (rev b) (N_of a) (N_of b) D (- k)"

lemma rect_full [simp]: "rect a b (N_of a) (N_of b)" "rect (rev a) (rev b) (N_of a) (N_of b)"
  by (simp_all add: rect_def)

lemma cell_rev: "cell (rev a) (rev b) x y \<longleftrightarrow> cell a b (N_of a - 1 - x) (N_of b - 1 - y)"
proof -
  have "rev xs ! nat z = xs ! nat (N_of xs - 1 - z)" if "0 \<le> z" "z < N_of xs" for xs :: "'a list" and z
  proof -
    have "nat z < length xs" "length xs - Suc (nat z) = nat (N_of xs - 1 - z)" using that by auto
    then show ?thesis by (metis rev_nth)
  qed
  then show ?thesis unfolding cell_def by auto
qed

lemma commonSuffixLen_loop_rev:
  "n \<le> length A \<Longrightarrow> n \<le> length B \<Longrightarrow>
     commonSuffixLen_loop A B n i = commonPrefixLen_loop (rev A) (rev B) n i"
proof (induction A B n i rule: commonSuffixLen_loop.induct)
  case (1 A B n i)
  have "i < n \<Longrightarrow> rev A ! i = A ! (length A - 1 - i) \<and> rev B ! i = B ! (length B - 1 - i)"
    using 1 by (simp add: rev_nth)
  with 1 show ?case
    by (subst commonSuffixLen_loop.simps, subst commonPrefixLen_loop.simps) auto
qed

lemma commonSuffixLenBytes_rev: "commonSuffixLenBytes A B = commonPrefixLenBytes (rev A) (rev B)"
  by (simp add: commonSuffixLenBytes_def commonPrefixLenBytes_def commonSuffixLen_loop_rev)

lemma take_drop_rev: "0 \<le> n \<Longrightarrow> n \<le> N_of xs \<Longrightarrow> take (nat n) (drop (nat (N_of xs - n)) (rev xs)) = rev (take (nat n) xs)"
proof -
  assume n: "0 \<le> n" "n \<le> N_of xs"
  then have "length xs - nat n = nat (N_of xs - n)" by auto
  then have "rev (take (nat n) xs) = drop (nat (N_of xs - n)) (rev xs)" by (metis rev_take)
  with n show ?thesis by auto
qed

lemma lookB_mirror:
  assumes "s \<le> N_of a" "s - k \<le> N_of b"
  shows "lookB a b k s = N_of a - lookF (rev a) (rev b) (N_of a) (N_of b) (N_of a - N_of b - k) (N_of a - s)"
proof (cases "s > 0 \<and> s - k > 0")
  case True
  have e1: "N_of a - (N_of a - s) = s" "N_of b - (N_of a - s - (N_of a - N_of b - k)) = s - k" by auto
  have e2: "N_of a - s - (N_of a - N_of b - k) = N_of b - (s - k)" by auto
  have c: "N_of a - s < N_of a \<and> N_of a - s - (N_of a - N_of b - k) < N_of b" using True by auto
  show ?thesis
    using True take_drop_rev [of s a] take_drop_rev [of "s - k" b] assms
    unfolding lookF_def if_P [OF c] lookB_def if_P [OF True] commonSuffixLenBytes_rev e1 e2 by simp
next
  case False
  then show ?thesis by (simp only: lookF_def lookB_def) auto
qed

lemma br_0: "br a b 0 0 = lookB a b (N_of a - N_of b) (N_of a)"
  by (simp add: br_def lookB_mirror)

lemma br_bound: "dk D k \<Longrightarrow> br a b D k \<le> N_of a \<and> br a b D k - (k + N_of a - N_of b) \<le> N_of b"
  using fr_nonneg [of "rev a" "rev b" "N_of a" "N_of b" D "- k"] by (simp add: br_def dk_uminus)

lemma br_Suc:
  assumes "dk (Suc D) k"
  shows "br a b (Suc D) k =
    (let kk = k + N_of a - N_of b;
         right = lookB a b kk (br a b D (k + 1) - 1);
         up = lookB a b kk (br a b D (k - 1)) in
     if k = int (Suc D) then up else if k = - int (Suc D) then right else min up right)"
proof -
  let ?F = "fr (rev a) (rev b) (N_of a) (N_of b)"
  let ?kk = "k + N_of a - N_of b"
  have kk: "N_of a - N_of b - ?kk = - k" by simp
  have right: "lookB a b ?kk (br a b D (k + 1) - 1) =
      N_of a - lookF (rev a) (rev b) (N_of a) (N_of b) (- k) (?F D (- k - 1) + 1)"
    if "k \<noteq> int (Suc D)"
  proof -
    have d: "dk D (k + 1)" using dk_Suc_up [OF assms that] .
    have "br a b D (k + 1) - 1 \<le> N_of a" "br a b D (k + 1) - 1 - ?kk \<le> N_of b"
      using br_bound [OF d, of a b] by auto
    from lookB_mirror [OF this] show ?thesis unfolding kk by (simp add: br_def)
  qed
  have up: "lookB a b ?kk (br a b D (k - 1)) =
      N_of a - lookF (rev a) (rev b) (N_of a) (N_of b) (- k) (?F D (- k + 1))"
    if "k \<noteq> - int (Suc D)"
  proof -
    have d: "dk D (k - 1)" using dk_Suc_right [OF assms that] .
    have "br a b D (k - 1) \<le> N_of a" "br a b D (k - 1) - ?kk \<le> N_of b"
      using br_bound [OF d, of a b] by auto
    from lookB_mirror [OF this] show ?thesis unfolding kk by (simp add: br_def)
  qed
  show ?thesis
    using right up by (auto simp: br_def [of a b "Suc D"] Let_def max_def min_def)
qed

section \<open>Label tables\<close>

text \<open>What every table keeps, and what the pool relies on: a row is nil or has its full length.\<close>

definition label_ok :: "label \<Rightarrow> bool" where
  "label_ok vec \<longleftrightarrow> (\<forall>i < length vec. vec ! i = [] \<or> length (vec ! i) = i + 1)"

lemma half_dk: "dk D k \<Longrightarrow> half (int D + k) = (int D + k) div 2 \<and> 0 \<le> half (int D + k) \<and> half (int D + k) \<le> int D"
  by (auto simp: dk_def half_def)

lemma half_dk_inj: "dk D k \<Longrightarrow> dk D k' \<Longrightarrow> half (int D + k) = half (int D + k') \<Longrightarrow> k = k'"
proof -
  assume d: "dk D k" "dk D k'" and h: "half (int D + k) = half (int D + k')"
  have "2 * half (int D + j) = int D + j" if "dk D j" for j
    using half_dk [OF that] that by (metis dk_def dvd_mult_div_cancel)
  with d h show "k = k'" by (metis add_left_cancel)
qed

lemma label_set_get:
  assumes ok: "label_ok vec" and d: "dk D k"
  shows "\<exists>vec'. label_set vec (int D) k x = Some vec' \<and> label_ok vec' \<and>
    label_get vec' (int D) k = Some x \<and>
    (\<forall>D' k' y. dk D' k' \<longrightarrow> (D', k') \<noteq> (D, k) \<longrightarrow> label_get vec (int D') k' = Some y \<longrightarrow>
       label_get vec' (int D') k' = Some y)"
proof -
  let ?v1 = "vec @ replicate (nat (int D + 1) - length vec) []"
  let ?row = "?v1 ! D"
  let ?row1 = "if ?row = [] then replicate (nat (int D + 1)) 0 else ?row"
  let ?i = "half (int D + k)"
  let ?v2 = "?v1[D := ?row1[nat ?i := x]]"
  have i: "0 \<le> ?i" "?i \<le> int D" using half_dk [OF d] by auto
  have len: "D < length ?v1" by auto
  have ok1: "label_ok ?v1" using ok by (auto simp: label_ok_def nth_append)
  then have row: "length ?row1 = D + 1" using len by (auto simp: label_ok_def)
  have old: "\<exists>row. idx vec (int D') = Some row \<and> idx ?v1 (int D') = Some row \<and> row \<noteq> []"
    if "label_get vec (int D') k' = Some y" for D' k' y
    using that by (auto simp: label_get_def idx_def nth_append split: if_splits bind_splits)
  have set: "label_set vec (int D) k x = Some ?v2"
    using row i len by (simp add: label_set_def idx_def Let_def)
  have get: "label_get ?v2 (int D) k = Some x"
    using row i len by (simp add: label_get_def idx_def)
  have ok2: "label_ok ?v2"
    using ok1 row unfolding label_ok_def by (auto simp: nth_list_update)
  have "label_get ?v2 (int D') k' = Some y"
    if "dk D' k'" "(D', k') \<noteq> (D, k)" and y: "label_get vec (int D') k' = Some y" for D' k' y
  proof -
    from old [OF y] obtain r where r: "idx vec (int D') = Some r" "idx ?v1 (int D') = Some r" "r \<noteq> []" by blast
    have D': "D' < length ?v1" "?v1 ! D' = r" using r(2) by (auto simp: idx_def split: if_splits)
    have ry: "idx r (half (int D' + k')) = Some y" using y r(1) by (simp add: label_get_def)
    show ?thesis
    proof (cases "D' = D")
      case True
      with that d half_dk_inj have ne: "?i \<noteq> half (int D' + k')" by blast
      have "nat ?i \<noteq> nat (half (int D' + k'))"
        using ne i half_dk [OF that(1)] by auto
      with True D' r(3) ry len show ?thesis
        by (auto simp: label_get_def idx_def split: if_splits)
    next
      case False
      with D' ry len show ?thesis by (auto simp: label_get_def idx_def split: if_splits)
    qed
  qed
  with set get ok2 show ?thesis by blast
qed

section \<open>The passes fill the tables\<close>

definition geom :: "'a editGraph \<Rightarrow> bool" where
  "geom e \<longleftrightarrow> lx e = 0 \<and> ly e = 0 \<and> rect (seq_a e) (seq_b e) (ux e) (uy e)"

abbreviation frE :: "'a editGraph \<Rightarrow> nat \<Rightarrow> int \<Rightarrow> int" where
  "frE e \<equiv> fr (seq_a e) (seq_b e) (ux e) (uy e)"

text \<open>The forward table is right up to level \<open>n\<close>, and at the diagonals \<open>S\<close> of the next level.\<close>

definition ftab :: "'a editGraph \<Rightarrow> nat \<Rightarrow> int set \<Rightarrow> bool" where
  "ftab e n S \<longleftrightarrow> geom e \<and> label_ok (vf e) \<and>
     (\<forall>D k. dk D k \<and> (D \<le> n \<or> D = Suc n \<and> k \<in> S) \<longrightarrow> label_get (vf e) (int D) k = Some (frE e D k))"

text \<open>What a forward pass leaves alone.\<close>

definition keepF :: "'a editGraph \<Rightarrow> 'a editGraph \<Rightarrow> bool" where
  "keepF e e' \<longleftrightarrow> e' = e\<lparr>vf := vf e'\<rparr>"

lemma keepF_refl [simp]: "keepF e e" by (simp add: keepF_def)

lemma keepF_trans: "keepF e e1 \<Longrightarrow> keepF e1 e2 \<Longrightarrow> keepF e e2"
  unfolding keepF_def by (metis editGraph.surjective editGraph.update_convs(3))

lemma keepF_simps:
  assumes "keepF e e'"
  shows "seq_a e' = seq_a e" "seq_b e' = seq_b e" "vb e' = vb e" "limit e' = limit e" "lx e' = lx e"
    "ly e' = ly e" "ux e' = ux e" "uy e' = uy e" "delta e' = delta e"
  using assms unfolding keepF_def by (metis editGraph.select_convs editGraph.surjective editGraph.update_convs(3))+

lemma lookForward_eq:
  assumes "geom e" "0 \<le> s" "0 \<le> s - k"
  shows "lookForward e k s = Some (lookF (seq_a e) (seq_b e) (ux e) (uy e) k s)"
  using assms by (auto simp: lookForward_def lookF_def geom_def rect_def commonPrefixLen_def subslice_def Let_def)

lemma getForward_ftab:
  "ftab e n S \<Longrightarrow> dk D k \<Longrightarrow> D \<le> n \<or> D = Suc n \<and> k \<in> S \<Longrightarrow> getForward e (int D) k = Some (frE e D k)"
  by (simp add: ftab_def getForward_def)

lemma setForward_ftab:
  assumes t: "ftab e n S" and d: "dk (Suc n) k" and s: "0 \<le> s" "0 \<le> s - k"
    and f: "lookF (seq_a e) (seq_b e) (ux e) (uy e) k s = frE e (Suc n) k"
  shows "\<exists>e'. setForward e (int n + 1) k s = Some e' \<and> keepF e e' \<and> ftab e' n (insert k S)"
proof -
  from t have g: "geom e" and ok: "label_ok (vf e)" by (auto simp: ftab_def)
  from label_set_get [OF ok d, of "frE e (Suc n) k"] obtain v where
    v: "label_set (vf e) (int (Suc n)) k (frE e (Suc n) k) = Some v" "label_ok v"
      "label_get v (int (Suc n)) k = Some (frE e (Suc n) k)"
      "\<And>D' k' y. dk D' k' \<Longrightarrow> (D', k') \<noteq> (Suc n, k) \<Longrightarrow> label_get (vf e) (int D') k' = Some y \<Longrightarrow>
         label_get v (int D') k' = Some y" by blast
  have eq: "int n + 1 = int (Suc n)" by simp
  have "setForward e (int n + 1) k s = Some (e\<lparr>vf := v\<rparr>)"
    unfolding setForward_def eq using lookForward_eq [OF g s] f v(1) g by (simp add: geom_def)
  moreover have "keepF e (e\<lparr>vf := v\<rparr>)" by (simp add: keepF_def)
  moreover have "ftab (e\<lparr>vf := v\<rparr>) n (insert k S)"
    unfolding ftab_def
  proof (intro conjI allI impI)
    fix D k'
    assume A: "dk D k' \<and> (D \<le> n \<or> D = Suc n \<and> k' \<in> insert k S)"
    show "label_get (vf (e\<lparr>vf := v\<rparr>)) (int D) k' = Some (frE (e\<lparr>vf := v\<rparr>) D k')"
    proof (cases "(D, k') = (Suc n, k)")
      case False
      with A t have "label_get (vf e) (int D) k' = Some (frE e D k')" by (auto simp: ftab_def)
      with v(4) [OF _ False] A show ?thesis by simp
    qed (use v(3) in simp)
  qed (use g v(2) in \<open>simp_all add: geom_def\<close>)
  ultimately show ?thesis by blast
qed

lemma set_krange: "set (krange lo hi) = {k. lo \<le> k \<and> k \<le> hi \<and> even (k - lo)}"
proof (cases "hi < lo")
  case False
  let ?img = "(\<lambda>i. lo + 2 * int i) ` {0..<nat ((hi - lo) div 2) + 1}"
  have mem: "k \<in> ?img"
    if k: "lo \<le> k" "k \<le> hi" "even (k - lo)" for k
  proof (rule image_eqI [where x = "nat ((k - lo) div 2)"])
    show "k = lo + 2 * int (nat ((k - lo) div 2))" using k by auto
    show "nat ((k - lo) div 2) \<in> {0..<nat ((hi - lo) div 2) + 1}"
      using k zdiv_mono1 [of "k - lo" "hi - lo" 2] by auto
  qed
  have bound: "lo \<le> lo + 2 * int i \<and> lo + 2 * int i \<le> hi \<and> even (lo + 2 * int i - lo)"
    if "i \<in> {0..<nat ((hi - lo) div 2) + 1}" for i using that False by auto
  have "set (krange lo hi) = ?img"
    using False by (simp only: krange_def if_False set_map set_upt)
  moreover have "?img \<subseteq> {k. lo \<le> k \<and> k \<le> hi \<and> even (k - lo)}"
    by (rule image_subsetI) (use bound in simp)
  moreover have "{k. lo \<le> k \<and> k \<le> hi \<and> even (k - lo)} \<subseteq> ?img" by (rule subsetI) (use mem in simp)
  ultimately show ?thesis by (metis equalityI)
qed (auto simp: krange_def)

lemma krange_dk: "k \<in> set (krange (- int n + 1) (int n - 1)) \<Longrightarrow>
    dk (Suc n) k \<and> dk n (k - 1) \<and> dk n (k + 1) \<and> k \<noteq> int (Suc n) \<and> k \<noteq> - int (Suc n)"
  by (auto simp: set_krange dk_def)

lemma dk_Suc_krange:
  "dk (Suc n) k \<Longrightarrow> k = int (Suc n) \<or> k = - int (Suc n) \<or> k \<in> set (krange (- int n + 1) (int n - 1))"
  unfolding set_krange dk_def by (auto simp: algebra_simps) presburger+

lemma forward_k_ftab:
  assumes t: "ftab e n S" and k: "dk (Suc n) k" "dk n (k - 1)" "dk n (k + 1)"
  shows "\<exists>e'. forward_k e (int n) k = Some e' \<and> keepF e e' \<and> ftab e' n (insert k S)"
proof -
  let ?L = "lookF (seq_a e) (seq_b e) (ux e) (uy e) k"
  let ?r = "frE e n (k - 1) + 1" and ?u = "frE e n (k + 1)"
  from t have g: "geom e" by (simp add: ftab_def)
  then have r: "rect (seq_a e) (seq_b e) (ux e) (uy e)" by (simp add: geom_def)
  have nr: "0 \<le> ?r" "0 \<le> ?r - k" using fr_nonneg [OF r k(2)] by auto
  have nu: "0 \<le> ?u" "0 \<le> ?u - k" using fr_nonneg [OF r k(3)] by auto
  have ne: "k \<noteq> - int (Suc n)" "k \<noteq> int (Suc n)" using k by (auto simp: dk_def)
  then have f: "frE e (Suc n) k = max (?L ?r) (?L ?u)" by (auto simp: Let_def)
  let ?m = "if ?L ?r > ?L ?u then ?L ?r else ?L ?u"
  have m: "?L ?m = frE e (Suc n) k" "0 \<le> ?m" "0 \<le> ?m - k"
    using f lookF_idem [OF r nr] lookF_idem [OF r nu] lookF_ge [OF r nr] lookF_ge [OF r nu] nr nu by auto
  have eq: "forward_k e (int n) k = setForward e (int n + 1) k ?m"
    unfolding forward_k_def
    using getForward_ftab [OF t k(2)] getForward_ftab [OF t k(3)] lookForward_eq [OF g nr] lookForward_eq [OF g nu]
    by simp
  from setForward_ftab [OF t k(1) m(2,3,1)] show ?thesis unfolding eq .
qed

lemma ftab_Suc: "ftab e n S \<Longrightarrow> (\<And>k. dk (Suc n) k \<Longrightarrow> k \<in> S) \<Longrightarrow> ftab e (Suc n) {}"
  unfolding ftab_def by (auto simp: le_Suc_eq)

lemma low_edge_ftab:
  assumes t: "ftab e n S"
  shows "\<exists>f0 e'. getForward e (int n) (- int n) = Some f0 \<and>
    setForward e (int n + 1) (- (int n + 1)) f0 = Some e' \<and> keepF e e' \<and>
    ftab e' n (insert (- int (Suc n)) S)"
proof -
  let ?k = "- int (Suc n)"
  have d: "dk n (- int n)" "dk (Suc n) ?k" by (auto simp: dk_def)
  from t have r: "rect (seq_a e) (seq_b e) (ux e) (uy e)" by (simp add: ftab_def geom_def)
  have s: "0 \<le> frE e n (- int n)" "0 \<le> frE e n (- int n) - ?k" using fr_nonneg [OF r d(1)] by auto
  have f: "lookF (seq_a e) (seq_b e) (ux e) (uy e) ?k (frE e n (- int n)) = frE e (Suc n) ?k"
    by (simp add: Let_def)
  have eq: "- (int n + 1) = ?k" by simp
  from setForward_ftab [OF t d(2) s f] getForward_ftab [OF t d(1)] show ?thesis unfolding eq by auto
qed

lemma high_edge_ftab:
  assumes t: "ftab e n S"
  shows "\<exists>f1 e'. getForward e (int n) (int n) = Some f1 \<and>
    setForward e (int n + 1) (int n + 1) (f1 + 1) = Some e' \<and> keepF e e' \<and>
    ftab e' n (insert (int (Suc n)) S)"
proof -
  let ?k = "int (Suc n)"
  have d: "dk n (int n)" "dk (Suc n) ?k" by (auto simp: dk_def)
  from t have r: "rect (seq_a e) (seq_b e) (ux e) (uy e)" by (simp add: ftab_def geom_def)
  have s: "0 \<le> frE e n (int n) + 1" "0 \<le> frE e n (int n) + 1 - ?k" using fr_nonneg [OF r d(1)] by auto
  have f: "lookF (seq_a e) (seq_b e) (ux e) (uy e) ?k (frE e n (int n) + 1) = frE e (Suc n) ?k"
    by (simp add: Let_def)
  have eq: "int n + 1 = ?k" by simp
  from setForward_ftab [OF t d(2) s f] getForward_ftab [OF t d(1)] show ?thesis unfolding eq by auto
qed

lemma forward_pass_ftab:
  assumes "ftab e n S" "set ks \<subseteq> set (krange (- int n + 1) (int n - 1))"
  shows "\<exists>e'. forward_pass e (int n) ks = Some e' \<and> keepF e e' \<and> ftab e' n (S \<union> set ks)"
  using assms
proof (induction ks arbitrary: e S)
  case (Cons k ks)
  then have "k \<in> set (krange (- int n + 1) (int n - 1))" by simp
  from krange_dk [OF this] forward_k_ftab [OF Cons.prems(1)] obtain e1 where
    e1: "forward_k e (int n) k = Some e1" "keepF e e1" "ftab e1 n (insert k S)" by blast
  from Cons.IH [OF e1(3)] Cons.prems(2) obtain e2 where
    e2: "forward_pass e1 (int n) ks = Some e2" "keepF e1 e2" "ftab e2 n (insert k S \<union> set ks)" by auto
  with e1 keepF_trans show ?case by auto
qed auto

lemma twosided_forward_ftab:
  assumes t: "ftab e n {}"
  shows "\<exists>e'. twosided_forward e (int n) = Some e' \<and> keepF e e' \<and> ftab e' (Suc n) {}"
proof -
  from low_edge_ftab [OF t] obtain f0 e1 where 1: "getForward e (int n) (- int n) = Some f0"
    "setForward e (int n + 1) (- (int n + 1)) f0 = Some e1" "keepF e e1" "ftab e1 n {- int (Suc n)}" by auto
  from high_edge_ftab [OF 1(4)] obtain f1 e2 where 2: "getForward e1 (int n) (int n) = Some f1"
    "setForward e1 (int n + 1) (int n + 1) (f1 + 1) = Some e2" "keepF e1 e2"
    "ftab e2 n {int (Suc n), - int (Suc n)}" by auto
  from forward_pass_ftab [OF 2(4) subset_refl] obtain e3 where
    3: "forward_pass e2 (int n) (krange (- int n + 1) (int n - 1)) = Some e3" "keepF e2 e3"
      "ftab e3 n ({int (Suc n), - int (Suc n)} \<union> set (krange (- int n + 1) (int n - 1)))" by blast
  have "ftab e3 (Suc n) {}" by (rule ftab_Suc [OF 3(3)]) (use dk_Suc_krange in blast)
  with 1 2 3 show ?thesis unfolding twosided_forward_def by (auto intro: keepF_trans)
qed

lemma setForward_0:
  assumes g: "geom e" and ok: "label_ok (vf e)"
  shows "\<exists>e'. setForward e 0 0 (lx e) = Some e' \<and> keepF e e' \<and> ftab e' 0 {}"
proof -
  from g have r: "rect (seq_a e) (seq_b e) (ux e) (uy e)" and l: "lx e = 0" by (auto simp: geom_def)
  from label_set_get [OF ok, of 0 0 "frE e 0 0"] obtain v where
    v: "label_set (vf e) 0 0 (frE e 0 0) = Some v" "label_ok v" "label_get v 0 0 = Some (frE e 0 0)" by auto
  have "setForward e 0 0 (lx e) = Some (e\<lparr>vf := v\<rparr>)"
    using v(1) lookForward_eq [OF g, of 0 0] l by (simp add: setForward_def)
  moreover have "ftab (e\<lparr>vf := v\<rparr>) 0 {}" using g v by (auto simp: ftab_def geom_def)
  ultimately show ?thesis by (auto simp: keepF_def)
qed

section \<open>Chains of diagonals\<close>

text \<open>A chain from \<open>(x0, y0)\<close> to \<open>(x1, y1)\<close>: matching diagonals, in order and apart in both
  coordinates.\<close>

definition diag_ok :: "'a list \<Rightarrow> 'a list \<Rightarrow> diag \<Rightarrow> bool" where
  "diag_ok a b d \<longleftrightarrow> 0 < dLen d \<and> (\<forall>i. 0 \<le> i \<and> i < dLen d \<longrightarrow> cell a b (dX d + i) (dY d + i))"

lemma diag_ok_1 [simp]: "diag_ok a b \<lparr>dX = x, dY = y, dLen = 1\<rparr> \<longleftrightarrow> cell a b x y"
proof -
  have "0 \<le> i \<and> i < 1 \<longleftrightarrow> i = 0" for i :: int by auto
  then show ?thesis by (simp add: diag_ok_def)
qed

fun chain :: "'a list \<Rightarrow> 'a list \<Rightarrow> int \<Rightarrow> int \<Rightarrow> lcs \<Rightarrow> int \<Rightarrow> int \<Rightarrow> bool" where
  "chain a b x0 y0 [] x1 y1 \<longleftrightarrow> x0 \<le> x1 \<and> y0 \<le> y1"
| "chain a b x0 y0 (d # ds) x1 y1 \<longleftrightarrow> x0 \<le> dX d \<and> y0 \<le> dY d \<and> diag_ok a b d \<and>
     chain a b (dX d + dLen d) (dY d + dLen d) ds x1 y1"

lemma chain_widen: "chain a b x0 y0 l x1 y1 \<Longrightarrow> x0' \<le> x0 \<Longrightarrow> y0' \<le> y0 \<Longrightarrow> chain a b x0' y0' l x1 y1"
  by (cases l) auto

lemma chain_widen2: "chain a b x0 y0 l x1 y1 \<Longrightarrow> x1 \<le> x1' \<Longrightarrow> y1 \<le> y1' \<Longrightarrow> chain a b x0 y0 l x1' y1'"
  by (induction l arbitrary: x0 y0) auto

lemma chain_append: "chain a b x0 y0 l x y \<Longrightarrow> chain a b x y l' x1 y1 \<Longrightarrow> chain a b x0 y0 (l @ l') x1 y1"
proof (induction l arbitrary: x0 y0)
  case Nil
  then show ?case using chain_widen by simp blast
qed auto

lemma chain_diag_ok: "chain a b x0 y0 l x1 y1 \<Longrightarrow> d \<in> set l \<Longrightarrow> diag_ok a b d"
  by (induction l arbitrary: x0 y0) auto

lemma chain_prepend:
  assumes "chain a b x y l x1 y1" "cell a b (x - 1) (y - 1)"
  shows "chain a b (x - 1) (y - 1) (lcs_prepend l (x - 1) (y - 1)) x1 y1"
proof (cases l)
  case Nil
  with assms show ?thesis by (simp add: lcs_prepend_def)
next
  case (Cons d ds)
  show ?thesis
  proof (cases "dX d = x \<and> dY d = y")
    case True
    have "cell a b (x - 1 + i) (y - 1 + i)" if "0 \<le> i" "i < dLen d + 1" for i
    proof (cases "i = 0")
      case False
      with that assms Cons True have "cell a b (dX d + (i - 1)) (dY d + (i - 1))" by (auto simp: diag_ok_def)
      with True show ?thesis by (simp add: algebra_simps)
    qed (use assms in simp)
    with assms Cons True show ?thesis by (auto simp: lcs_prepend_def diag_ok_def algebra_simps)
  next
    case False
    with assms Cons show ?thesis by (auto simp: lcs_prepend_def)
  qed
qed

lemma chain_snoc: "chain a b x0 y0 (l @ [d]) x1 y1 \<longleftrightarrow>
    chain a b x0 y0 l (dX d) (dY d) \<and> diag_ok a b d \<and> dX d + dLen d \<le> x1 \<and> dY d + dLen d \<le> y1"
  by (induction l arbitrary: x0 y0) auto

lemma chain_append_cell:
  assumes "chain a b x0 y0 l x y" "cell a b x y"
  shows "chain a b x0 y0 (lcs_append l x y) (x + 1) (y + 1)"
proof (cases "l \<noteq> [] \<and> dX (last l) + dLen (last l) = x \<and> dY (last l) + dLen (last l) = y")
  case True
  define d ds where "d = last l" and "ds = butlast l"
  have l: "l = ds @ [d]" using True by (simp add: d_def ds_def)
  have "cell a b (dX d + i) (dY d + i)" if "0 \<le> i" "i < dLen d + 1" for i
    using that assms True chain_snoc [of a b x0 y0 ds d x y]
    by (cases "i = dLen d") (auto simp: diag_ok_def l)
  moreover have "lcs_append l x y = ds @ [d\<lparr>dLen := dLen d + 1\<rparr>]"
    using True by (simp add: lcs_append_def l)
  ultimately show ?thesis using assms True unfolding l by (auto simp: chain_snoc diag_ok_def)
next
  case False
  then have "lcs_append l x y = l @ [\<lparr>dX = x, dY = y, dLen = 1\<rparr>]" by (auto simp: lcs_append_def)
  with assms show ?thesis by (simp add: chain_snoc)
qed

section \<open>Backtracking\<close>

lemma ok_dk: "dk (Suc D) k \<Longrightarrow> ok (int D) (k - 1) \<longleftrightarrow> dk D (k - 1)"
  "dk (Suc D) k \<Longrightarrow> ok (int D) (k + 1) \<longleftrightarrow> dk D (k + 1)"
  by (auto simp: ok_def dk_def)

text \<open>The start of the snake that ends at a furthest point.\<close>

definition fstart :: "'a editGraph \<Rightarrow> nat \<Rightarrow> int \<Rightarrow> int \<Rightarrow> bool" where
  "fstart e D k s = (case D of 0 \<Rightarrow> s = 0
     | Suc D' \<Rightarrow> dk D' (k - 1) \<and> s = frE e D' (k - 1) + 1 \<or> dk D' (k + 1) \<and> s = frE e D' (k + 1))"

lemma fr_start:
  assumes "geom e" "dk D k"
  shows "\<exists>s. fstart e D k s \<and> snake (seq_a e) (seq_b e) k s (frE e D k) \<and> 0 \<le> s \<and> 0 \<le> s - k"
proof -
  from assms(1) have r: "rect (seq_a e) (seq_b e) (ux e) (uy e)" by (simp add: geom_def)
  show ?thesis
  proof (cases D)
    case 0
    with assms(2) lookF_props(1) [OF r, of 0 0] show ?thesis by (simp add: fstart_def)
  next
    case (Suc D')
    from fr_cases [of D' k] assms(2) Suc consider
      "from_right (seq_a e) (seq_b e) (ux e) (uy e) D' k" | "from_up (seq_a e) (seq_b e) (ux e) (uy e) D' k" by blast
    then show ?thesis
    proof cases
      case 1
      then have d: "dk D' (k - 1)" and f: "frE e D k = lookF (seq_a e) (seq_b e) (ux e) (uy e) k (frE e D' (k - 1) + 1)"
        using Suc by (simp_all only: from_right_def)
      have nn: "0 \<le> frE e D' (k - 1) + 1" "0 \<le> frE e D' (k - 1) + 1 - k" using fr_nonneg [OF r d] by auto
      from lookF_props(1) [OF r nn] f nn d Suc show ?thesis by (auto simp: fstart_def simp del: fr.simps)
    next
      case 2
      then have d: "dk D' (k + 1)" and f: "frE e D k = lookF (seq_a e) (seq_b e) (ux e) (uy e) k (frE e D' (k + 1))"
        using Suc by (simp_all only: from_up_def)
      have nn: "0 \<le> frE e D' (k + 1)" "0 \<le> frE e D' (k + 1) - k" using fr_nonneg [OF r d] by auto
      from lookF_props(1) [OF r nn] f nn d Suc show ?thesis by (auto simp: fstart_def simp del: fr.simps)
    qed
  qed
qed

lemma fmatch_ftab:
  assumes "ftab e n S" "D \<le> n" "ok (int D) k \<longleftrightarrow> dk D k"
  shows "fmatch e (int D) k x = Some (dk D k \<and> x = frE e D k)"
  using assms getForward_ftab [OF assms(1), of D k] by (auto simp: fmatch_def)

lemma forwardlcs_loop_chain:
  assumes t: "ftab e n S" and "D \<le> Suc n" "dk D k" "fstart e D k s" "snake (seq_a e) (seq_b e) k s xl"
    and "0 \<le> s" "0 \<le> s - k" "s \<le> x" "x \<le> xl" "chain (seq_a e) (seq_b e) x (x - k) ans x1 y1"
  shows "\<exists>l. forwardlcs_loop e (int D) k x ans = Some l \<and> chain (seq_a e) (seq_b e) 0 0 l x1 y1"
  using assms(2-)
proof (induction "nat (x + (x - k))" arbitrary: D k s xl x ans rule: less_induct)
  case less
  from t have g: "geom e" by (simp add: ftab_def)
  then have l0: "lx e = 0" "ly e = 0" by (auto simp: geom_def)
  show ?case
  proof (cases "x = 0 \<and> x - k = 0")
    case True
    with less.prems show ?thesis by (subst forwardlcs_loop.simps) auto
  next
    case no: False
    have pos: "0 \<le> x" "0 \<le> x - k" using less.prems by auto
    have go: "\<exists>l. forwardlcs_loop e (int D') k' x' ans = Some l \<and> chain (seq_a e) (seq_b e) 0 0 l x1 y1"
      if D': "D = Suc D'" and d': "dk D' k'" and x': "x' = frE e D' k'"
        and dec: "x' + (x' - k') = x + (x - k) - 1" "x' \<le> x" "x' - k' \<le> x - k" for D' k' x'
    proof -
      from fr_start [OF g d'] obtain s' where s': "fstart e D' k' s'"
        "snake (seq_a e) (seq_b e) k' s' (frE e D' k')" "0 \<le> s'" "0 \<le> s' - k'" by blast
      have "s' \<le> x'" using s'(2) x' by (simp add: snake_def)
      show ?thesis
      proof (rule less.hyps [OF _ _ d' s'(1,2,3,4)])
        show "nat (x' + (x' - k')) < nat (x + (x - k))" using dec pos no by linarith
        show "D' \<le> Suc n" using less.prems(1) D' by simp
        show "s' \<le> x'" by fact
        show "x' \<le> frE e D' k'" using x' by simp
        show "chain (seq_a e) (seq_b e) x' (x' - k') ans x1 y1"
          using chain_widen [OF less.prems(9)] dec by blast
      qed
    qed
    have cell_case: "\<exists>l. forwardlcs_loop e (int D) k (x - 1) (lcs_prepend ans (x - 1) (x - k - 1)) = Some l
        \<and> chain (seq_a e) (seq_b e) 0 0 l x1 y1" if "s < x"
    proof (rule less.hyps [OF _ less.prems(1,2,3,4,5,6)])
      have c: "cell (seq_a e) (seq_b e) (x - 1) (x - 1 - k)"
        using less.prems(4,8) that by (auto simp: snake_def)
      show "nat (x - 1 + (x - 1 - k)) < nat (x + (x - k))" using pos no that less.prems(5,6) by linarith
      show "s \<le> x - 1" "x - 1 \<le> xl" using that less.prems(8) by auto
      show "chain (seq_a e) (seq_b e) (x - 1) (x - 1 - k) (lcs_prepend ans (x - 1) (x - k - 1)) x1 y1"
        using chain_prepend [OF less.prems(9)] c by (simp add: algebra_simps)
    qed
    show ?thesis
    proof (cases D)
      case 0
      with less.prems(2,3) have "k = 0" "s = 0" by (auto simp: fstart_def)
      moreover have "ok (- 1) j = False" for j by (simp add: ok_def)
      ultimately show ?thesis using cell_case no pos 0 l0
        by (subst forwardlcs_loop.simps) (auto simp: fmatch_def)
    next
      case (Suc D')
      then have dD: "int D - 1 = int D'" and D'n: "D' \<le> n" using less.prems(1) by auto
      note oks = ok_dk [of D' k, OF less.prems(2) [unfolded Suc]]
      have m1: "fmatch e (int D') (k - 1) (x - 1) = Some (dk D' (k - 1) \<and> x - 1 = frE e D' (k - 1))"
        by (rule fmatch_ftab [OF t D'n oks(1)])
      have m2: "fmatch e (int D') (k + 1) x = Some (dk D' (k + 1) \<and> x = frE e D' (k + 1))"
        by (rule fmatch_ftab [OF t D'n oks(2)])
      consider (right) "dk D' (k - 1)" "x - 1 = frE e D' (k - 1)"
        | (up) "\<not> (dk D' (k - 1) \<and> x - 1 = frE e D' (k - 1))" "dk D' (k + 1)" "x = frE e D' (k + 1)"
        | (on) "\<not> (dk D' (k - 1) \<and> x - 1 = frE e D' (k - 1))" "\<not> (dk D' (k + 1) \<and> x = frE e D' (k + 1))" by blast
      then show ?thesis
      proof cases
        case right
        with go [OF Suc right(1,2)] no m1 show ?thesis
          by (subst forwardlcs_loop.simps) (auto simp: dD)
      next
        case up
        with go [OF Suc up(2,3)] no m1 m2 show ?thesis
          by (subst forwardlcs_loop.simps) (auto simp: dD)
      next
        case on
        have "s \<noteq> x" using on less.prems(3) Suc by (auto simp: fstart_def)
        with less.prems(7) have "s < x" by simp
        from cell_case [OF this] no m1 m2 on l0 show ?thesis
          by (subst forwardlcs_loop.simps) (auto simp: dD)
      qed
    qed
  qed
qed

lemma forwardlcs_chain:
  assumes t: "ftab e n S" and D: "dk D k" "D \<le> n \<or> D = Suc n \<and> k \<in> S"
  shows "\<exists>l. forwardlcs e (int D) k = Some l \<and>
    chain (seq_a e) (seq_b e) 0 0 l (frE e D k) (frE e D k - k)"
proof -
  from t have "geom e" by (simp add: ftab_def)
  from fr_start [OF this D(1)] obtain s where s: "fstart e D k s"
    "snake (seq_a e) (seq_b e) k s (frE e D k)" "0 \<le> s" "0 \<le> s - k" by blast
  have "s \<le> frE e D k" using s(2) by (simp add: snake_def)
  from forwardlcs_loop_chain [OF t _ D(1) s(1,2,3,4) this order_refl, of "[]" "frE e D k" "frE e D k - k"] D
    getForward_ftab [OF t D]
  show ?thesis by (auto simp: forwardlcs_def)
qed

end
