(* ===== verification/Lcs_Backward.thy ===== *)
theory Lcs_Backward
  imports Lcs_Correct
begin

text \<open>
  The backward half of the search: the backward table holds the points \<open>br\<close>, the mirror image of
  the furthest forward points, and the backtracking through it gives a chain of diagonals from
  such a point to the far corner.
\<close>

section \<open>The table\<close>

text \<open>The backward search runs over the whole rectangle only.\<close>

definition geomB :: "'a editGraph \<Rightarrow> bool" where
  "geomB e \<longleftrightarrow> lx e = 0 \<and> ly e = 0 \<and> ux e = N_of (seq_a e) \<and> uy e = N_of (seq_b e) \<and>
     delta e = N_of (seq_a e) - N_of (seq_b e)"

abbreviation brE :: "'a editGraph \<Rightarrow> nat \<Rightarrow> int \<Rightarrow> int" where
  "brE e \<equiv> br (seq_a e) (seq_b e)"

definition btab :: "'a editGraph \<Rightarrow> nat \<Rightarrow> int set \<Rightarrow> bool" where
  "btab e n S \<longleftrightarrow> geomB e \<and> label_ok (vb e) \<and>
     (\<forall>D k. dk D k \<and> (D \<le> n \<or> D = Suc n \<and> k \<in> S) \<longrightarrow> label_get (vb e) (int D) k = Some (brE e D k))"

definition keepB :: "'a editGraph \<Rightarrow> 'a editGraph \<Rightarrow> bool" where
  "keepB e e' \<longleftrightarrow> e' = e\<lparr>vb := vb e'\<rparr>"

lemma keepB_refl [simp]: "keepB e e" by (simp add: keepB_def)

lemma keepB_trans: "keepB e e1 \<Longrightarrow> keepB e1 e2 \<Longrightarrow> keepB e e2"
  unfolding keepB_def by (metis editGraph.surjective editGraph.update_convs(4))

lemma keepB_simps:
  assumes "keepB e e'"
  shows "seq_a e' = seq_a e" "seq_b e' = seq_b e" "vf e' = vf e" "limit e' = limit e" "lx e' = lx e"
    "ly e' = ly e" "ux e' = ux e" "uy e' = uy e" "delta e' = delta e"
  using assms unfolding keepB_def by (metis editGraph.select_convs editGraph.surjective editGraph.update_convs(4))+

lemma geomB_geom: "geomB e \<Longrightarrow> geom e"
  by (simp add: geomB_def geom_def)

text \<open>The start points a backward look is called with.\<close>

definition inB :: "'a editGraph \<Rightarrow> int \<Rightarrow> int \<Rightarrow> bool" where
  "inB e k s \<longleftrightarrow> s \<le> N_of (seq_a e) \<and> s - (k + delta e) \<le> N_of (seq_b e)"

abbreviation lookBE :: "'a editGraph \<Rightarrow> int \<Rightarrow> int \<Rightarrow> int" where
  "lookBE e k \<equiv> lookB (seq_a e) (seq_b e) (k + delta e)"

lemma lookBackward_eq:
  assumes "geomB e" "inB e k s"
  shows "lookBackward e k s = Some (lookBE e k s)"
  using assms by (auto simp: lookBackward_def lookB_def geomB_def inB_def commonSuffixLen_def subslice_def Let_def)

lemma br_inB: "geomB e \<Longrightarrow> dk D k \<Longrightarrow> inB e k (brE e D k)"
  using br_bound [of D k "seq_a e" "seq_b e"] by (auto simp: inB_def geomB_def)

lemma lookBE_mirror:
  assumes "geomB e" "inB e k s"
  shows "lookBE e k s = N_of (seq_a e) -
     lookF (rev (seq_a e)) (rev (seq_b e)) (N_of (seq_a e)) (N_of (seq_b e)) (- k) (N_of (seq_a e) - s)"
proof -
  have "s \<le> N_of (seq_a e)" "s - (k + delta e) \<le> N_of (seq_b e)" using assms(2) by (auto simp: inB_def)
  from lookB_mirror [OF this] assms(1) show ?thesis by (simp add: geomB_def)
qed

lemma inB_mirror:
  assumes "geomB e" "inB e k s"
  shows "0 \<le> N_of (seq_a e) - s" "0 \<le> N_of (seq_a e) - s - (- k)"
  using assms by (auto simp: geomB_def inB_def)

lemma lookBE_props:
  assumes g: "geomB e" and i: "inB e k s"
  shows "lookBE e k s \<le> s" "inB e k (lookBE e k s)" "lookBE e k (lookBE e k s) = lookBE e k s"
    "snake (seq_a e) (seq_b e) (k + delta e) (lookBE e k s) s"
proof -
  let ?l = "lookF (rev (seq_a e)) (rev (seq_b e)) (N_of (seq_a e)) (N_of (seq_b e)) (- k)"
  note m = inB_mirror [OF g i]
  have eq: "lookBE e k s = N_of (seq_a e) - ?l (N_of (seq_a e) - s)" by (rule lookBE_mirror [OF g i])
  have ge: "N_of (seq_a e) - s \<le> ?l (N_of (seq_a e) - s)" by (rule lookF_ge [OF rect_full(2) m])
  show le: "lookBE e k s \<le> s" using eq ge by linarith
  show i2: "inB e k (lookBE e k s)" using le i by (auto simp: inB_def)
  show "lookBE e k (lookBE e k s) = lookBE e k s"
    unfolding lookBE_mirror [OF g i2] using lookF_idem [OF rect_full(2) m] by (simp add: eq)
  show "snake (seq_a e) (seq_b e) (k + delta e) (lookBE e k s) s"
    unfolding snake_def
  proof (intro conjI allI impI)
    fix j assume j: "lookBE e k s \<le> j \<and> j < s"
    let ?j = "N_of (seq_a e) - 1 - j"
    have sn: "snake (rev (seq_a e)) (rev (seq_b e)) (- k) (N_of (seq_a e) - s) (?l (N_of (seq_a e) - s))"
      by (rule lookF_props(1) [OF rect_full(2) m])
    have "N_of (seq_a e) - s \<le> ?j" "?j < ?l (N_of (seq_a e) - s)" using j eq by linarith+
    with sn have "cell (rev (seq_a e)) (rev (seq_b e)) ?j (?j - (- k))" unfolding snake_def by blast
    then have "cell (seq_a e) (seq_b e) (N_of (seq_a e) - 1 - ?j) (N_of (seq_b e) - 1 - (?j - (- k)))"
      by (simp only: cell_rev)
    moreover have "N_of (seq_a e) - 1 - ?j = j" "N_of (seq_b e) - 1 - (?j - (- k)) = j - (k + delta e)"
      using g by (simp_all add: geomB_def)
    ultimately show "cell (seq_a e) (seq_b e) j (j - (k + delta e))" by metis
  qed (rule le)
qed

lemma brE_Suc:
  assumes "geomB e" "dk (Suc D) k"
  shows "brE e (Suc D) k = (if k = int (Suc D) then lookBE e k (brE e D (k - 1))
    else if k = - int (Suc D) then lookBE e k (brE e D (k + 1) - 1)
    else min (lookBE e k (brE e D (k - 1))) (lookBE e k (brE e D (k + 1) - 1)))"
proof -
  have "k + N_of (seq_a e) - N_of (seq_b e) = k + delta e" using assms(1) by (simp add: geomB_def)
  then show ?thesis using br_Suc [OF assms(2), of "seq_a e" "seq_b e"] by (simp only: Let_def)
qed

lemma inB_right: "geomB e \<Longrightarrow> dk D (k + 1) \<Longrightarrow> inB e k (brE e D (k + 1) - 1)"
  using br_inB [of e D "k + 1"] by (auto simp: inB_def)

lemma inB_up: "geomB e \<Longrightarrow> dk D (k - 1) \<Longrightarrow> inB e k (brE e D (k - 1))"
  using br_inB [of e D "k - 1"] by (auto simp: inB_def)

section \<open>The passes\<close>

lemma getBackward_btab:
  "btab e n S \<Longrightarrow> dk D k \<Longrightarrow> D \<le> n \<or> D = Suc n \<and> k \<in> S \<Longrightarrow> getBackward e (int D) k = Some (brE e D k)"
  by (simp add: btab_def getBackward_def)

lemma setBackward_btab:
  assumes t: "btab e n S" and d: "dk (Suc n) k" and s: "inB e k s" and f: "lookBE e k s = brE e (Suc n) k"
  shows "\<exists>e'. setBackward e (int n + 1) k s = Some e' \<and> keepB e e' \<and> btab e' n (insert k S)"
proof -
  from t have g: "geomB e" and ok: "label_ok (vb e)" by (auto simp: btab_def)
  from label_set_get [OF ok d, of "brE e (Suc n) k"] obtain v where
    v: "label_set (vb e) (int (Suc n)) k (brE e (Suc n) k) = Some v" "label_ok v"
      "label_get v (int (Suc n)) k = Some (brE e (Suc n) k)"
      "\<And>D' k' y. dk D' k' \<Longrightarrow> (D', k') \<noteq> (Suc n, k) \<Longrightarrow> label_get (vb e) (int D') k' = Some y \<Longrightarrow>
         label_get v (int D') k' = Some y" by blast
  have eq: "int n + 1 = int (Suc n)" by simp
  have "setBackward e (int n + 1) k s = Some (e\<lparr>vb := v\<rparr>)"
    unfolding setBackward_def eq using lookBackward_eq [OF g s] f v(1) g by (simp add: geomB_def)
  moreover have "keepB e (e\<lparr>vb := v\<rparr>)" by (simp add: keepB_def)
  moreover have "btab (e\<lparr>vb := v\<rparr>) n (insert k S)"
    unfolding btab_def
  proof (intro conjI allI impI)
    fix D k'
    assume A: "dk D k' \<and> (D \<le> n \<or> D = Suc n \<and> k' \<in> insert k S)"
    show "label_get (vb (e\<lparr>vb := v\<rparr>)) (int D) k' = Some (brE (e\<lparr>vb := v\<rparr>) D k')"
    proof (cases "(D, k') = (Suc n, k)")
      case False
      with A t have "label_get (vb e) (int D) k' = Some (brE e D k')" by (auto simp: btab_def)
      with v(4) [OF _ False] A show ?thesis by simp
    qed (use v(3) in simp)
  qed (use g v(2) in \<open>simp_all add: geomB_def\<close>)
  ultimately show ?thesis by blast
qed

lemma backward_k_btab:
  assumes t: "btab e n S" and k: "dk (Suc n) k" "dk n (k - 1)" "dk n (k + 1)"
  shows "\<exists>e'. backward_k e (int n) k = Some e' \<and> keepB e e' \<and> btab e' n (insert k S)"
proof -
  let ?L = "lookBE e k"
  let ?u = "brE e n (k - 1)" and ?r = "brE e n (k + 1) - 1"
  from t have g: "geomB e" by (simp add: btab_def)
  note iu = inB_up [OF g k(2)] and ir = inB_right [OF g k(3)]
  have "k \<noteq> - int (Suc n)" "k \<noteq> int (Suc n)" using k by (auto simp: dk_def)
  then have f: "brE e (Suc n) k = min (?L ?u) (?L ?r)" using brE_Suc [OF g k(1)] by simp
  let ?m = "if ?L ?u < ?L ?r then ?L ?u else ?L ?r"
  have m: "inB e k ?m" "?L ?m = brE e (Suc n) k"
    using f lookBE_props [OF g iu] lookBE_props [OF g ir] by (auto simp: min_def)
  have eq: "backward_k e (int n) k = setBackward e (int n + 1) k ?m"
    unfolding backward_k_def
    using getBackward_btab [OF t k(2)] getBackward_btab [OF t k(3)] lookBackward_eq [OF g iu] lookBackward_eq [OF g ir]
    by simp
  from setBackward_btab [OF t k(1) m] show ?thesis unfolding eq .
qed

lemma btab_Suc: "btab e n S \<Longrightarrow> (\<And>k. dk (Suc n) k \<Longrightarrow> k \<in> S) \<Longrightarrow> btab e (Suc n) {}"
  unfolding btab_def by (auto simp: le_Suc_eq)

lemma low_edge_btab:
  assumes t: "btab e n S"
  shows "\<exists>f0 e'. getBackward e (int n) (- int n) = Some f0 \<and>
    setBackward e (int n + 1) (- (int n + 1)) (f0 - 1) = Some e' \<and> keepB e e' \<and>
    btab e' n (insert (- int (Suc n)) S)"
proof -
  let ?k = "- int (Suc n)"
  have d: "dk n (- int n)" "dk (Suc n) ?k" by (auto simp: dk_def)
  from t have g: "geomB e" by (simp add: btab_def)
  have s: "inB e ?k (brE e n (- int n) - 1)" using inB_right [OF g, of n ?k] d by simp
  have f: "lookBE e ?k (brE e n (- int n) - 1) = brE e (Suc n) ?k"
    using brE_Suc [OF g d(2)] by simp
  have eq: "- (int n + 1) = ?k" by simp
  from setBackward_btab [OF t d(2) s f] getBackward_btab [OF t d(1)] show ?thesis unfolding eq by auto
qed

lemma high_edge_btab:
  assumes t: "btab e n S"
  shows "\<exists>f1 e'. getBackward e (int n) (int n) = Some f1 \<and>
    setBackward e (int n + 1) (int n + 1) f1 = Some e' \<and> keepB e e' \<and>
    btab e' n (insert (int (Suc n)) S)"
proof -
  let ?k = "int (Suc n)"
  have d: "dk n (int n)" "dk (Suc n) ?k" by (auto simp: dk_def)
  from t have g: "geomB e" by (simp add: btab_def)
  have s: "inB e ?k (brE e n (int n))" using inB_up [OF g, of n ?k] d by simp
  have f: "lookBE e ?k (brE e n (int n)) = brE e (Suc n) ?k"
    using brE_Suc [OF g d(2)] by simp
  have eq: "int n + 1 = ?k" by simp
  from setBackward_btab [OF t d(2) s f] getBackward_btab [OF t d(1)] show ?thesis unfolding eq by auto
qed

lemma backward_pass_btab:
  assumes "btab e n S" "set ks \<subseteq> set (krange (- int n + 1) (int n - 1))"
  shows "\<exists>e'. backward_pass e (int n) ks = Some e' \<and> keepB e e' \<and> btab e' n (S \<union> set ks)"
  using assms
proof (induction ks arbitrary: e S)
  case (Cons k ks)
  then have "k \<in> set (krange (- int n + 1) (int n - 1))" by simp
  from krange_dk [OF this] backward_k_btab [OF Cons.prems(1)] obtain e1 where
    e1: "backward_k e (int n) k = Some e1" "keepB e e1" "btab e1 n (insert k S)" by blast
  from Cons.IH [OF e1(3)] Cons.prems(2) obtain e2 where
    e2: "backward_pass e1 (int n) ks = Some e2" "keepB e1 e2" "btab e2 n (insert k S \<union> set ks)" by auto
  with e1 keepB_trans show ?case by auto
qed auto

lemma twosided_backward_btab:
  assumes t: "btab e n {}"
  shows "\<exists>e'. twosided_backward e (int n) = Some e' \<and> keepB e e' \<and> btab e' (Suc n) {}"
proof -
  from low_edge_btab [OF t] obtain f0 e1 where 1: "getBackward e (int n) (- int n) = Some f0"
    "setBackward e (int n + 1) (- (int n + 1)) (f0 - 1) = Some e1" "keepB e e1" "btab e1 n {- int (Suc n)}" by auto
  from high_edge_btab [OF 1(4)] obtain f1 e2 where 2: "getBackward e1 (int n) (int n) = Some f1"
    "setBackward e1 (int n + 1) (int n + 1) f1 = Some e2" "keepB e1 e2"
    "btab e2 n {int (Suc n), - int (Suc n)}" by auto
  from backward_pass_btab [OF 2(4) subset_refl] obtain e3 where
    3: "backward_pass e2 (int n) (krange (- int n + 1) (int n - 1)) = Some e3" "keepB e2 e3"
      "btab e3 n ({int (Suc n), - int (Suc n)} \<union> set (krange (- int n + 1) (int n - 1)))" by blast
  have "btab e3 (Suc n) {}" by (rule btab_Suc [OF 3(3)]) (use dk_Suc_krange in blast)
  with 1 2 3 show ?thesis unfolding twosided_backward_def by (auto intro: keepB_trans)
qed

lemma setBackward_0:
  assumes g: "geomB e" and ok: "label_ok (vb e)"
  shows "\<exists>e'. setBackward e 0 0 (ux e) = Some e' \<and> keepB e e' \<and> btab e' 0 {}"
proof -
  from label_set_get [OF ok, of 0 0 "brE e 0 0"] obtain v where
    v: "label_set (vb e) 0 0 (brE e 0 0) = Some v" "label_ok v" "label_get v 0 0 = Some (brE e 0 0)" by auto
  have i: "inB e 0 (ux e)" using g by (simp add: geomB_def inB_def)
  have "lookBE e 0 (ux e) = brE e 0 0" using g by (simp add: br_0 geomB_def)
  then have "setBackward e 0 0 (ux e) = Some (e\<lparr>vb := v\<rparr>)"
    using v(1) lookBackward_eq [OF g i] g by (simp add: setBackward_def geomB_def)
  moreover have "btab (e\<lparr>vb := v\<rparr>) 0 {}" using g v by (auto simp: btab_def geomB_def)
  ultimately show ?thesis by (auto simp: keepB_def)
qed

section \<open>Backtracking\<close>

definition bstart :: "'a editGraph \<Rightarrow> nat \<Rightarrow> int \<Rightarrow> int \<Rightarrow> bool" where
  "bstart e D k s = (case D of 0 \<Rightarrow> s = ux e
     | Suc D' \<Rightarrow> dk D' (k - 1) \<and> s = brE e D' (k - 1) \<or> dk D' (k + 1) \<and> s = brE e D' (k + 1) - 1)"

lemma br_start:
  assumes g: "geomB e" and d: "dk D k"
  shows "\<exists>s. bstart e D k s \<and> snake (seq_a e) (seq_b e) (k + delta e) (brE e D k) s \<and> inB e k s"
proof (cases D)
  case 0
  have i: "inB e 0 (ux e)" using g by (simp add: geomB_def inB_def)
  have "lookBE e 0 (ux e) = brE e 0 0" using g by (simp add: br_0 geomB_def)
  with lookBE_props(4) [OF g i] i d 0 show ?thesis by (auto simp: bstart_def)
next
  case (Suc D')
  note eq = brE_Suc [OF g d [unfolded Suc]]
  consider "dk D' (k - 1)" "brE e D k = lookBE e k (brE e D' (k - 1))"
    | "dk D' (k + 1)" "brE e D k = lookBE e k (brE e D' (k + 1) - 1)"
    using eq dk_Suc_right [of D' k] dk_Suc_up [of D' k] d Suc by (auto simp: min_def split: if_splits)
  then show ?thesis
  proof cases
    case 1
    from lookBE_props(4) [OF g inB_up [OF g 1(1)]] inB_up [OF g 1(1)] 1 Suc show ?thesis by (auto simp: bstart_def)
  next
    case 2
    from lookBE_props(4) [OF g inB_right [OF g 2(1)]] inB_right [OF g 2(1)] 2 Suc show ?thesis by (auto simp: bstart_def)
  qed
qed

lemma bmatch_btab:
  assumes "btab e n S" "D \<le> n" "ok (int D) k \<longleftrightarrow> dk D k"
  shows "bmatch e (int D) k x = Some (dk D k \<and> x = brE e D k)"
  using assms getBackward_btab [OF assms(1), of D k] by (auto simp: bmatch_def)

lemma backwardlcs_loop_chain:
  assumes t: "btab e n S" and "D \<le> Suc n" "dk D k" "bstart e D k s"
    "snake (seq_a e) (seq_b e) (k + delta e) xl s" "inB e k s" "xl \<le> x" "x \<le> s"
    and "chain (seq_a e) (seq_b e) x0 y0 ans x (x - (k + delta e))"
  shows "\<exists>l. backwardlcs_loop e (int D) k x ans = Some l \<and>
    chain (seq_a e) (seq_b e) x0 y0 l (ux e) (uy e)"
  using assms(2-)
proof (induction "nat ((ux e - x) + (uy e - (x - (k + delta e))))" arbitrary: D k s xl x ans rule: less_induct)
  case less
  from t have g: "geomB e" by (simp add: btab_def)
  then have l0: "lx e = 0" "ly e = 0" by (auto simp: geomB_def)
  show ?case
  proof (cases "x = ux e \<and> x - (k + delta e) = uy e")
    case True
    then show ?thesis using less.prems by (subst backwardlcs_loop.simps) auto
  next
    case no: False
    have pos: "x \<le> ux e" "x - (k + delta e) \<le> uy e"
      using less.prems(5,7) g by (auto simp: inB_def geomB_def)
    have go: "\<exists>l. backwardlcs_loop e (int D') k' x' ans = Some l \<and> chain (seq_a e) (seq_b e) x0 y0 l (ux e) (uy e)"
      if D': "D = Suc D'" and d': "dk D' k'" and x': "x' = brE e D' k'"
        and dec: "x' + (x' - k') = x + (x - k) + 1" "x \<le> x'" "x - k \<le> x' - k'" for D' k' x'
    proof -
      from br_start [OF g d'] obtain s' where s': "bstart e D' k' s'"
        "snake (seq_a e) (seq_b e) (k' + delta e) (brE e D' k') s'" "inB e k' s'" by blast
      have le: "x' \<le> s'" using s'(2) x' by (simp add: snake_def)
      show ?thesis
      proof (rule less.hyps [OF _ _ d' s'(1,2,3)])
        show "nat (ux e - x' + (uy e - (x' - (k' + delta e)))) < nat (ux e - x + (uy e - (x - (k + delta e))))"
          using dec pos no by linarith
        show "D' \<le> Suc n" using less.prems(1) D' by simp
        show "brE e D' k' \<le> x'" using x' by simp
        show "x' \<le> s'" by fact
        show "chain (seq_a e) (seq_b e) x0 y0 ans x' (x' - (k' + delta e))"
          using chain_widen2 [OF less.prems(8)] dec by simp
      qed
    qed
    have cell_case: "\<exists>l. backwardlcs_loop e (int D) k (x + 1) (lcs_append ans x (x - (k + delta e))) = Some l
        \<and> chain (seq_a e) (seq_b e) x0 y0 l (ux e) (uy e)" if "x < s"
    proof (rule less.hyps [OF _ less.prems(1,2,3,4,5)])
      have c: "cell (seq_a e) (seq_b e) x (x - (k + delta e))"
        using less.prems(4,6) that by (auto simp: snake_def)
      have "s \<le> ux e" "s - (k + delta e) \<le> uy e" using less.prems(5) g by (auto simp: inB_def geomB_def)
      with that show "nat (ux e - (x + 1) + (uy e - (x + 1 - (k + delta e)))) <
          nat (ux e - x + (uy e - (x - (k + delta e))))" by linarith
      show "xl \<le> x + 1" "x + 1 \<le> s" using that less.prems(6) by auto
      show "chain (seq_a e) (seq_b e) x0 y0 (lcs_append ans x (x - (k + delta e))) (x + 1) (x + 1 - (k + delta e))"
        using chain_append_cell [OF less.prems(8) c] by (simp add: algebra_simps)
    qed
    show ?thesis
    proof (cases D)
      case 0
      with less.prems(2,3) have "k = 0" "s = ux e" by (auto simp: bstart_def)
      moreover have "x \<noteq> ux e" using no pos \<open>k = 0\<close> g by (auto simp: geomB_def)
      moreover have "ok (- 1) j = False" for j by (simp add: ok_def)
      ultimately show ?thesis using cell_case no pos 0 l0
        by (subst backwardlcs_loop.simps) (auto simp: bmatch_def)
    next
      case (Suc D')
      then have dD: "int D - 1 = int D'" and D'n: "D' \<le> n" using less.prems(1) by auto
      note oks = ok_dk [of D' k, OF less.prems(2) [unfolded Suc]]
      have m1: "bmatch e (int D') (k - 1) x = Some (dk D' (k - 1) \<and> x = brE e D' (k - 1))"
        by (rule bmatch_btab [OF t D'n oks(1)])
      have m2: "bmatch e (int D') (k + 1) (x + 1) = Some (dk D' (k + 1) \<and> x + 1 = brE e D' (k + 1))"
        by (rule bmatch_btab [OF t D'n oks(2)])
      consider (up) "dk D' (k - 1)" "x = brE e D' (k - 1)"
        | (right) "\<not> (dk D' (k - 1) \<and> x = brE e D' (k - 1))" "dk D' (k + 1)" "x + 1 = brE e D' (k + 1)"
        | (on) "\<not> (dk D' (k - 1) \<and> x = brE e D' (k - 1))" "\<not> (dk D' (k + 1) \<and> x + 1 = brE e D' (k + 1))" by blast
      then show ?thesis
      proof cases
        case up
        with go [OF Suc up(1,2)] no m1 show ?thesis
          by (subst backwardlcs_loop.simps) (auto simp: dD)
      next
        case right
        with go [OF Suc right(2,3)] no m1 m2 show ?thesis
          by (subst backwardlcs_loop.simps) (auto simp: dD)
      next
        case on
        have "s \<noteq> x" using on less.prems(3) Suc by (auto simp: bstart_def)
        with less.prems(7) have "x < s" by simp
        from cell_case [OF this] no m1 m2 on l0 show ?thesis
          by (subst backwardlcs_loop.simps) (auto simp: dD)
      qed
    qed
  qed
qed

lemma backwardlcs_chain:
  assumes t: "btab e n S" and D: "dk D k" "D \<le> n \<or> D = Suc n \<and> k \<in> S"
  shows "\<exists>l. backwardlcs e (int D) k = Some l \<and>
    chain (seq_a e) (seq_b e) (brE e D k) (brE e D k - (k + delta e)) l (ux e) (uy e)"
proof -
  from t have "geomB e" by (simp add: btab_def)
  from br_start [OF this D(1)] obtain s where s: "bstart e D k s"
    "snake (seq_a e) (seq_b e) (k + delta e) (brE e D k) s" "inB e k s" by blast
  have "brE e D k \<le> s" using s(2) by (simp add: snake_def)
  from backwardlcs_loop_chain [OF t _ D(1) s order_refl this, of "brE e D k" "brE e D k - (k + delta e)" "[]"] D
    getBackward_btab [OF t D]
  show ?thesis by (auto simp: backwardlcs_def)
qed

end
