(* ===== verification/Lcs_Twosided.thy ===== *)
theory Lcs_Twosided
  imports Lcs_Backward
begin

text \<open>
  The two-sided search: what \<open>twoDone\<close> decides in terms of the furthest points, that the two paths
  stay inside the rectangle when they first meet, and that \<open>twolcs\<close> and the repair of two paths
  that did not meet return a chain of diagonals from corner to corner.
\<close>

section \<open>The forward search\<close>

text \<open>The path ends at the far corner.\<close>

definition hit :: "'a editGraph \<Rightarrow> nat \<Rightarrow> int \<Rightarrow> bool" where
  "hit e D k \<longleftrightarrow> frE e D k = ux e \<and> frE e D k - k = uy e"

abbreviation whole :: "'a editGraph \<Rightarrow> lcs \<Rightarrow> bool" where
  "whole e l \<equiv> chain (seq_a e) (seq_b e) 0 0 l (ux e) (uy e)"

lemma fdone_ftab:
  assumes t: "ftab e n S" and D: "dk D k" "D \<le> n \<or> D = Suc n \<and> k \<in> S"
  shows "hit e D k \<Longrightarrow> \<exists>l. fdone e (int D) k = Some (Some l) \<and> whole e l"
    and "\<not> hit e D k \<Longrightarrow> fdone e (int D) k = Some None"
  using forwardlcs_chain [OF t D] t D by (auto simp: fdone_def hit_def ftab_def)

text \<open>The outcome of a part of the search: a chain, or a larger table and no hit in it.\<close>

definition outcome :: "'a editGraph \<Rightarrow> ('a editGraph + lcs) option \<Rightarrow> ('a editGraph \<Rightarrow> bool) \<Rightarrow> bool" where
  "outcome e r P \<longleftrightarrow> (\<exists>l. r = Some (Inr l) \<and> whole e l) \<or> (\<exists>e'. r = Some (Inl e') \<and> keepF e e' \<and> P e')"

lemma hit_keepF: "keepF e e' \<Longrightarrow> hit e' D k = hit e D k"
  by (simp add: hit_def keepF_simps)

lemma whole_keepF: "keepF e e' \<Longrightarrow> whole e' l = whole e l"
  by (simp add: keepF_simps)

lemma outcome_keepF:
  assumes "keepF e e1" "outcome e1 r P"
  shows "outcome e r P"
  using assms keepF_trans [OF assms(1)] by (auto simp: outcome_def whole_keepF [OF assms(1)])

lemma outcome_mono: "outcome e r P \<Longrightarrow> (\<And>e'. keepF e e' \<Longrightarrow> P e' \<Longrightarrow> Q e') \<Longrightarrow> outcome e r Q"
  by (auto simp: outcome_def)

lemma forward_ks_outcome:
  assumes "ftab e n S" "set ks \<subseteq> set (krange (- int n + 1) (int n - 1))"
  shows "outcome e (forward_ks e (int n) ks) (\<lambda>e'. ftab e' n (S \<union> set ks) \<and> (\<forall>k \<in> set ks. \<not> hit e (Suc n) k))"
  using assms
proof (induction ks arbitrary: e S)
  case Nil
  then show ?case by (simp add: outcome_def)
next
  case (Cons k ks)
  then have "k \<in> set (krange (- int n + 1) (int n - 1))" by simp
  note d = krange_dk [OF this]
  from d forward_k_ftab [OF Cons.prems(1)] obtain e1 where
    e1: "forward_k e (int n) k = Some e1" "keepF e e1" "ftab e1 n (insert k S)" by blast
  note fd = fdone_ftab [OF e1(3), of "Suc n" k]
  have int: "int n + 1 = int (Suc n)" by simp
  show ?case
  proof (cases "hit e1 (Suc n) k")
    case True
    with fd(1) d obtain l where "fdone e1 (int n + 1) k = Some (Some l)" "whole e1 l" unfolding int by auto
    then show ?thesis using e1 whole_keepF [OF e1(2)] by (simp add: outcome_def)
  next
    case False
    with fd(2) d have "fdone e1 (int n + 1) k = Some None" unfolding int by auto
    then have eq: "forward_ks e (int n) (k # ks) = forward_ks e1 (int n) ks" using e1(1) by simp
    have "outcome e1 (forward_ks e1 (int n) ks)
        (\<lambda>e'. ftab e' n (insert k S \<union> set ks) \<and> (\<forall>k \<in> set ks. \<not> hit e1 (Suc n) k))"
      using Cons.IH [OF e1(3)] Cons.prems(2) by simp
    from outcome_keepF [OF e1(2) this] show ?thesis unfolding eq
      by (rule outcome_mono) (use False hit_keepF [OF e1(2)] in auto)
  qed
qed

lemma forward_D_outcome:
  assumes t: "ftab e n {}"
  shows "outcome e (forward_D e (int n)) (\<lambda>e'. ftab e' (Suc n) {} \<and> (\<forall>k. dk (Suc n) k \<longrightarrow> \<not> hit e (Suc n) k))"
proof -
  have int: "- (int n + 1) = - int (Suc n)" "int n + 1 = int (Suc n)" by simp_all
  have ds: "dk (Suc n) (- int (Suc n))" "dk (Suc n) (int (Suc n))" by (auto simp: dk_def)
  from low_edge_ftab [OF t] obtain f0 e1 where 1: "getForward e (int n) (- int n) = Some f0"
    "setForward e (int n + 1) (- (int n + 1)) f0 = Some e1" "keepF e e1" "ftab e1 n {- int (Suc n)}" by auto
  from high_edge_ftab [OF 1(4)] obtain f1 e2 where 2: "getForward e1 (int n) (int n) = Some f1"
    "setForward e1 (int n + 1) (int n + 1) (f1 + 1) = Some e2" "keepF e1 e2"
    "ftab e2 n {int (Suc n), - int (Suc n)}" by auto
  note k2 = keepF_trans [OF 1(3) 2(3)]
  show ?thesis
  proof (cases "hit e (Suc n) (- int (Suc n))")
    case True
    with fdone_ftab(1) [OF 1(4) ds(1)] hit_keepF [OF 1(3)] obtain l where
      "fdone e1 (int n + 1) (- (int n + 1)) = Some (Some l)" "whole e1 l" unfolding int by auto
    then show ?thesis using 1 whole_keepF [OF 1(3)] by (simp add: forward_D_def outcome_def)
  next
    case no1: False
    with fdone_ftab(2) [OF 1(4) ds(1)] hit_keepF [OF 1(3)] have
      n1: "fdone e1 (int n + 1) (- (int n + 1)) = Some None" unfolding int by auto
    show ?thesis
    proof (cases "hit e (Suc n) (int (Suc n))")
      case True
      with fdone_ftab(1) [OF 2(4) ds(2)] hit_keepF [OF k2] obtain l where
        "fdone e2 (int n + 1) (int n + 1) = Some (Some l)" "whole e2 l" unfolding int by auto
      then show ?thesis using 1 2 n1 whole_keepF [OF k2] by (simp add: forward_D_def outcome_def)
    next
      case no2: False
      with fdone_ftab(2) [OF 2(4) ds(2)] hit_keepF [OF k2] have
        n2: "fdone e2 (int n + 1) (int n + 1) = Some None" unfolding int by auto
      have eq: "forward_D e (int n) = forward_ks e2 (int n) (krange (- int n + 1) (int n - 1))"
        using 1 2 n1 n2 by (simp add: forward_D_def)
      show ?thesis unfolding eq
      proof (rule outcome_mono [OF outcome_keepF [OF k2 forward_ks_outcome [OF 2(4) subset_refl]]])
        fix e'
        assume "ftab e' n ({int (Suc n), - int (Suc n)} \<union> set (krange (- int n + 1) (int n - 1))) \<and>
          (\<forall>k \<in> set (krange (- int n + 1) (int n - 1)). \<not> hit e2 (Suc n) k)"
        then have f: "ftab e' n ({int (Suc n), - int (Suc n)} \<union> set (krange (- int n + 1) (int n - 1)))"
          and h: "\<And>k. k \<in> set (krange (- int n + 1) (int n - 1)) \<Longrightarrow> \<not> hit e (Suc n) k"
          using hit_keepF [OF k2] by auto
        have "ftab e' (Suc n) {}" by (rule ftab_Suc [OF f]) (use dk_Suc_krange in blast)
        moreover have "\<not> hit e (Suc n) k" if "dk (Suc n) k" for k
          using dk_Suc_krange [OF that] h no1 no2 by blast
        ultimately show "ftab e' (Suc n) {} \<and> (\<forall>k. dk (Suc n) k \<longrightarrow> \<not> hit e (Suc n) k)" by blast
      qed
    qed
  qed
qed

lemma forward_Ds_outcome:
  assumes "ftab e n {}"
  shows "outcome e (forward_Ds m e (int n)) (\<lambda>e'. \<forall>D k. n < D \<and> D \<le> n + m \<and> dk D k \<longrightarrow> \<not> hit e D k)"
  using assms
proof (induction m arbitrary: e n)
  case 0
  then show ?case by (auto simp: outcome_def)
next
  case (Suc m)
  have int: "int n + 1 = int (Suc n)" by simp
  from forward_D_outcome [OF Suc.prems] consider
      l where "forward_D e (int n) = Some (Inr l)" "whole e l"
    | e1 where "forward_D e (int n) = Some (Inl e1)" "keepF e e1" "ftab e1 (Suc n) {}"
        "\<And>k. dk (Suc n) k \<Longrightarrow> \<not> hit e (Suc n) k" unfolding outcome_def by blast
  then show ?case
  proof cases
    case 1
    then show ?thesis by (simp add: outcome_def)
  next
    case 2
    have eq: "forward_Ds (Suc m) e (int n) = forward_Ds m e1 (int (Suc n))"
      using 2(1) by (simp only: forward_Ds.simps int Option.bind.simps sum.case)
    show ?thesis unfolding eq
    proof (rule outcome_mono [OF outcome_keepF [OF 2(2) Suc.IH [OF 2(3)]]])
      fix e' assume h: "\<forall>D k. Suc n < D \<and> D \<le> Suc n + m \<and> dk D k \<longrightarrow> \<not> hit e1 D k"
      show "\<forall>D k. n < D \<and> D \<le> n + Suc m \<and> dk D k \<longrightarrow> \<not> hit e D k"
      proof (intro allI impI)
        fix D k assume D: "n < D \<and> D \<le> n + Suc m \<and> dk D k"
        show "\<not> hit e D k"
          using D h 2(4) [of k] hit_keepF [OF 2(2)] by (cases "D = Suc n") auto
      qed
    qed
  qed
qed

lemma forward_whole:
  assumes g: "geom e" and ok: "label_ok (vf e)" and D: "dk D k" "hit e D k" "int D \<le> limit e"
  shows "\<exists>l. forward e = Some l \<and> whole e l"
proof -
  from setForward_0 [OF g ok] obtain e1 where e1: "setForward e 0 0 (lx e) = Some e1" "keepF e e1" "ftab e1 0 {}" by blast
  note fd = fdone_ftab [OF e1(3), of 0 0]
  show ?thesis
  proof (cases "hit e1 0 0")
    case True
    with fd(1) obtain l where "fdone e1 0 0 = Some (Some l)" "whole e1 l" by auto
    then show ?thesis using e1 whole_keepF [OF e1(2)] by (simp add: forward_def)
  next
    case False
    with fd(2) have n: "fdone e1 0 0 = Some None" by simp
    have "D \<noteq> 0" using False D hit_keepF [OF e1(2)] by (cases D) auto
    then have "\<not> (\<forall>D k. 0 < D \<and> D \<le> 0 + nat (limit e) \<and> dk D k \<longrightarrow> \<not> hit e1 D k)"
      using D hit_keepF [OF e1(2)] by (auto intro!: exI [where x = D])
    with forward_Ds_outcome [OF e1(3), of "nat (limit e)"] obtain l where
      "forward_Ds (nat (limit e)) e1 0 = Some (Inr l)" "whole e1 l" by (auto simp: outcome_def)
    then show ?thesis using e1 n whole_keepF [OF e1(2)] by (simp add: forward_def)
  qed
qed

section \<open>Where the paths meet\<close>

text \<open>Both tables, up to the levels \<open>df\<close> and \<open>db\<close>.\<close>

definition tabs :: "'a editGraph \<Rightarrow> nat \<Rightarrow> nat \<Rightarrow> bool" where
  "tabs e df db \<longleftrightarrow> ftab e df {} \<and> btab e db {}"

lemma tabs_geomB: "tabs e df db \<Longrightarrow> geomB e"
  by (simp add: tabs_def btab_def)

lemma label_get_tabs:
  assumes "tabs e df db"
  shows "D \<le> df \<Longrightarrow> dk D k \<Longrightarrow> label_get (vf e) (int D) k = Some (frE e D k)"
    and "D' \<le> db \<Longrightarrow> dk D' k' \<Longrightarrow> label_get (vb e) (int D') k' = Some (brE e D' k')"
  using assms by (auto simp: tabs_def ftab_def btab_def)

text \<open>The diagonals both searches have reached, and the failure of the test for meeting on them.\<close>

definition shared :: "'a editGraph \<Rightarrow> nat \<Rightarrow> nat \<Rightarrow> int \<Rightarrow> bool" where
  "shared e df db k \<longleftrightarrow> dk df k \<and> dk db (k - delta e)"

definition apart :: "'a editGraph \<Rightarrow> nat \<Rightarrow> nat \<Rightarrow> bool" where
  "apart e df db \<longleftrightarrow> (\<forall>k. shared e df db k \<longrightarrow> frE e df k < brE e db (k - delta e))"

lemma shared_range:
  assumes "(int df + int db + delta e) mod 2 = 0"
  shows "k \<in> set (krange (max (- int db + delta e) (- int df)) (min (int db + delta e) (int df)))
    \<longleftrightarrow> shared e df db k"
proof -
  have "even (int df + int db + delta e)" using assms by presburger
  then show ?thesis unfolding set_krange shared_def dk_def
    by (cases "- int db + delta e \<le> - int df") (auto simp: max_def)
qed

lemma shared_parity: "shared e df db k \<Longrightarrow> (int df + int db + delta e) mod 2 = 0"
  unfolding shared_def dk_def by presburger

lemma fr_nonneg_tabs:
  assumes "geomB e" "dk D k"
  shows "0 \<le> frE e D k" "0 \<le> frE e D k - k"
  using fr_nonneg [of "seq_a e" "seq_b e" "ux e" "uy e" D k] assms by (simp_all add: geomB_def)

lemma br_bound_tabs:
  assumes "geomB e" "dk D k"
  shows "brE e D k \<le> ux e" "brE e D k - (k + delta e) \<le> uy e"
  using br_inB [OF assms] assms(1) by (simp_all add: inB_def geomB_def)

lemma twoDone_in_spec:
  assumes t: "tabs e df db" and "\<forall>l \<in> set ls. shared e df db l"
  shows "\<exists>r. twoDone_in e (int df) (int db) ls = Some r \<and>
    (\<forall>l. r = Some l \<longrightarrow> l \<in> set ls \<and> brE e db (l - delta e) \<le> frE e df l)"
  using assms(2)
proof (induction ls)
  case (Cons l ls)
  then have d: "dk df l" "dk db (l - delta e)" by (auto simp: shared_def)
  note get = label_get_tabs(1) [OF t order_refl d(1)] label_get_tabs(2) [OF t order_refl d(2)]
  note g = tabs_geomB [OF t]
  have le: "brE e db (l - delta e) \<le> frE e df l"
    if "frE e df l = brE e db (l - delta e) \<or> brE e db (l - delta e) = 0 \<or> brE e db (l - delta e) - l = 0
      \<or> frE e df l - l = uy e \<or> frE e df l = ux e"
    using that fr_nonneg_tabs [OF g d(1)] br_bound_tabs [OF g d(2)] by auto
  from Cons show ?case using get le by (auto simp: Let_def)
qed simp

lemma twoDone_out_spec:
  assumes t: "tabs e df db" and "\<forall>k \<in> set ks. shared e df db k"
  shows "\<exists>r. twoDone_out e (int df) (int db) ks = Some r \<and>
    (\<forall>l. r = Some l \<longrightarrow> l \<in> set ks \<and> brE e db (l - delta e) \<le> frE e df l) \<and>
    (r = None \<longrightarrow> (\<forall>k \<in> set ks. frE e df k < brE e db (k - delta e)))"
  using assms(2)
proof (induction ks)
  case (Cons k ks)
  then have d: "dk df k" "dk db (k - delta e)" by (auto simp: shared_def)
  note get = label_get_tabs(1) [OF t order_refl d(1)] label_get_tabs(2) [OF t order_refl d(2)]
  show ?case
  proof (cases "brE e db (k - delta e) \<le> frE e df k")
    case True
    from twoDone_in_spec [OF t Cons.prems] obtain r where
      r: "twoDone_in e (int df) (int db) (k # ks) = Some r"
        "\<forall>l. r = Some l \<longrightarrow> l \<in> set (k # ks) \<and> brE e db (l - delta e) \<le> frE e df l" by blast
    have eq: "twoDone_out e (int df) (int db) (k # ks) = Some (case r of Some l \<Rightarrow> Some l | None \<Rightarrow> Some k)"
      using get True r(1) by (simp del: twoDone_in.simps split: option.splits)
    show ?thesis unfolding eq using r(2) True by (cases r) auto
  next
    case False
    have "twoDone_out e (int df) (int db) (k # ks) = twoDone_out e (int df) (int db) ks"
      using get False by simp
    with Cons False show ?thesis by auto
  qed
qed simp

lemma twoDone_spec:
  assumes t: "tabs e df db"
  shows "\<exists>r. twoDone e (int df) (int db) = Some r \<and>
    (\<forall>l. r = Some l \<longrightarrow> shared e df db l \<and> brE e db (l - delta e) \<le> frE e df l) \<and>
    (r = None \<longrightarrow> apart e df db)"
proof (cases "(int df + int db + delta e) mod 2 = 0")
  case True
  let ?ks = "krange (max (- int db + delta e) (- int df)) (min (int db + delta e) (int df))"
  note sh = shared_range [OF True]
  then have "\<forall>k \<in> set ?ks. shared e df db k" by blast
  from twoDone_out_spec [OF t this] show ?thesis using True
    unfolding twoDone_def apart_def sh [symmetric] Ball_def by (simp only: not_True_eq_False if_False simp_thms)
next
  case False
  with shared_parity [of e df db] have "\<not> shared e df db k" for k by blast
  with False show ?thesis by (simp add: twoDone_def apart_def)
qed

text \<open>The two paths are inside the rectangle when they first meet: one that has left it met the
  other one edge earlier on both sides.\<close>

lemma br_left:
  assumes g: "geomB e" and d: "dk D k" and "brE e D k < 0"
  shows "\<exists>D'. D = Suc D' \<and> dk D' (k + 1) \<and> brE e D' (k + 1) \<le> brE e D k + 1"
proof -
  let ?F = "fr (rev (seq_a e)) (rev (seq_b e)) (N_of (seq_a e)) (N_of (seq_b e))"
  have "dk D (- k)" "N_of (seq_a e) < ?F D (- k)" using assms by (auto simp: br_def dk_uminus)
  from fr_right [OF rect_full(2) this] obtain D' where "D = Suc D'" "dk D' (- k - 1)"
    "?F D (- k) - 1 \<le> ?F D' (- k - 1)" by blast
  moreover have e: "- k - 1 = - (k + 1)" by simp
  ultimately have "D = Suc D'" "dk D' (k + 1)" "brE e D' (k + 1) \<le> brE e D k + 1"
    unfolding br_def e dk_uminus by auto
  then show ?thesis by blast
qed

lemma br_bottom:
  assumes g: "geomB e" and d: "dk D k" and "brE e D k - (k + delta e) < 0"
  shows "\<exists>D'. D = Suc D' \<and> dk D' (k - 1) \<and> brE e D' (k - 1) \<le> brE e D k"
proof -
  let ?F = "fr (rev (seq_a e)) (rev (seq_b e)) (N_of (seq_a e)) (N_of (seq_b e))"
  have "dk D (- k)" "N_of (seq_b e) < ?F D (- k) - (- k)"
    using assms by (auto simp: br_def dk_uminus geomB_def)
  from fr_top [OF rect_full(2) this] obtain D' where "D = Suc D'" "dk D' (- k + 1)"
    "?F D (- k) \<le> ?F D' (- k + 1)" by blast
  moreover have e: "- k + 1 = - (k - 1)" by simp
  ultimately have "D = Suc D'" "dk D' (k - 1)" "brE e D' (k - 1) \<le> brE e D k"
    unfolding br_def e dk_uminus by auto
  then show ?thesis by blast
qed

lemma first_meet_backward:
  assumes g: "geomB e" and sh: "shared e df db k"
    and prev: "\<And>df' db'. df = Suc df' \<Longrightarrow> db = Suc db' \<Longrightarrow> apart e df' db'"
    and df: "df = 0 \<Longrightarrow> db = 0"
  shows "0 \<le> brE e db (k - delta e) \<and> 0 \<le> brE e db (k - delta e) - k"
proof -
  let ?u = "brE e db (k - delta e)"
  from sh have d: "dk df k" "dk db (k - delta e)" by (auto simp: shared_def)
  have left: False if "?u < 0" "k < int df"
  proof -
    from br_left [OF g d(2) that(1)] obtain db' where db': "db = Suc db'" "dk db' (k - delta e + 1)"
      "brE e db' (k - delta e + 1) \<le> ?u + 1" by blast
    from db' df obtain df' where df': "df = Suc df'" by (cases df) auto
    from d(1) that(2) df' have d1: "dk df' (k + 1)" by (intro dk_Suc_up) auto
    have e: "k + 1 - delta e = k - delta e + 1" by simp
    from prev [OF df' db'(1)] d1 db'(2) have "frE e df' (k + 1) < brE e db' (k - delta e + 1)"
      unfolding apart_def shared_def using e by metis
    with fr_nonneg_tabs(1) [OF g d1] db'(3) that(1) show False by linarith
  qed
  have bottom: False if "?u - k < 0" "- int df < k"
  proof -
    have "?u - (k - delta e + delta e) < 0" using that(1) by simp
    from br_bottom [OF g d(2) this] obtain db' where db': "db = Suc db'" "dk db' (k - delta e - 1)"
      "brE e db' (k - delta e - 1) \<le> ?u" by blast
    from db' df obtain df' where df': "df = Suc df'" by (cases df) auto
    from d(1) that(2) df' have d1: "dk df' (k - 1)" by (intro dk_Suc_right) auto
    have e: "k - 1 - delta e = k - delta e - 1" by simp
    from prev [OF df' db'(1)] d1 db'(2) have "frE e df' (k - 1) < brE e db' (k - delta e - 1)"
      unfolding apart_def shared_def using e by metis
    with fr_nonneg_tabs(2) [OF g d1] db'(3) that(1) show False by linarith
  qed
  have zero: "0 \<le> ?u \<and> 0 \<le> ?u - k" if "df = 0"
  proof -
    have "k = 0" using that d(1) by simp
    with br_left [OF g d(2)] br_bottom [OF g d(2)] df that show ?thesis by force
  qed
  show ?thesis
  proof (cases "df = 0")
    case False
    have k: "- int df \<le> k" "k \<le> int df" using d(1) by (auto simp: dk_def)
    show ?thesis
    proof (rule ccontr)
      assume "\<not> ?thesis"
      then consider "?u < 0" | "?u - k < 0" by linarith
      then show False
      proof cases
        case 1
        then have "k = int df" using left k by force
        with 1 bottom False show False by auto
      next
        case 2
        then have "k = - int df" using bottom k by force
        with 2 left False show False by auto
      qed
    qed
  qed (rule zero)
qed

lemma first_meet_forward:
  assumes g: "geomB e" and sh: "shared e df db k"
    and prev: "\<And>df' db'. df = Suc df' \<Longrightarrow> db = Suc db' \<Longrightarrow> apart e df' db'"
    and df: "df \<le> Suc db"
  shows "frE e df k \<le> ux e \<and> frE e df k - k \<le> uy e"
proof -
  let ?x = "frE e df k"
  from g have r: "rect (seq_a e) (seq_b e) (ux e) (uy e)" by (simp add: geomB_def)
  have M: "ux e - delta e = uy e" using g by (simp add: geomB_def)
  from sh have d: "dk df k" "dk db (k - delta e)" by (auto simp: shared_def)
  then have kb: "- int db \<le> k - delta e" "k - delta e \<le> int db" by (auto simp: dk_def)
  have right: False if "ux e < ?x" "- int db < k - delta e"
  proof -
    from fr_right [OF r d(1) that(1)] obtain df' where df': "df = Suc df'" "dk df' (k - 1)"
      "?x - 1 \<le> frE e df' (k - 1)" by blast
    from that(2) kb obtain db' where db': "db = Suc db'" by (cases db) auto
    have "dk (Suc db') (k - delta e)" using d(2) db' by simp
    from dk_Suc_right [OF this] that(2) db' have d1: "dk db' (k - 1 - delta e)" by (simp add: algebra_simps)
    from prev [OF df'(1) db'] df'(2) d1 have "frE e df' (k - 1) < brE e db' (k - 1 - delta e)"
      by (simp add: apart_def shared_def)
    with br_bound_tabs(1) [OF g d1] df'(3) that(1) show False by linarith
  qed
  have top: False if "uy e < ?x - k" "k - delta e < int db"
  proof -
    from fr_top [OF r d(1) that(1)] obtain df' where df': "df = Suc df'" "dk df' (k + 1)"
      "?x \<le> frE e df' (k + 1)" by blast
    from that(2) kb obtain db' where db': "db = Suc db'" by (cases db) auto
    have "dk (Suc db') (k - delta e)" using d(2) db' by simp
    from dk_Suc_up [OF this] that(2) db' have d1: "dk db' (k + 1 - delta e)" by (simp add: algebra_simps)
    from prev [OF df'(1) db'] df'(2) d1 have "frE e df' (k + 1) < brE e db' (k + 1 - delta e)"
      by (simp add: apart_def shared_def)
    with br_bound_tabs(2) [OF g d1] df'(3) that(1) show False by linarith
  qed
  have zero: "?x \<le> ux e \<and> ?x - k \<le> uy e" if "db = 0"
  proof (rule ccontr)
    assume "\<not> ?thesis"
    then have x: "ux e < ?x" "uy e < ?x - k" using kb that M by auto
    from fr_right [OF r d(1) x(1)] obtain D where D: "df = Suc D" "dk D (k - 1)" "?x - 1 \<le> frE e D (k - 1)" by blast
    with df that have "D = 0" by simp
    moreover have "uy e < frE e D (k - 1) - (k - 1)" using D(3) x(2) by linarith
    ultimately show False using fr_top [OF r D(2)] by blast
  qed
  show ?thesis
  proof (cases "db = 0")
    case False
    show ?thesis
    proof (rule ccontr)
      assume "\<not> ?thesis"
      then consider "ux e < ?x" | "uy e < ?x - k" by linarith
      then show False
      proof cases
        case 1
        then have "k - delta e = - int db" using right kb by force
        with 1 top False M show False by auto
      next
        case 2
        then have "k - delta e = int db" using top kb by force
        with 2 right False M show False by auto
      qed
    qed
  qed (rule zero)
qed

end
