(* ===== verification/Lcs_Diff.thy ===== *)
theory Lcs_Diff
  imports Lcs_Twosided "HOL-Library.Multiset"
begin

text \<open>
  The result of the search: sorting and repairing lists of diagonals, \<open>twolcs\<close>, \<open>twosided\<close> and
  \<open>DiffBytes\<close>. The last one returns for every pair of inputs and whatever earlier runs left in the
  label tables, and the differences it returns are an edit script.
\<close>

section \<open>Sorting\<close>

lemma mset_ins_less [simp]: "mset (ins_less lt x ys) = add_mset x (mset ys)"
  by (induction ys) auto

lemma mset_foldl_ins_less: "mset (foldl (\<lambda>acc x. ins_less lt x acc) acc xs) = mset acc + mset xs"
  by (induction xs arbitrary: acc) auto

lemma mset_sort_Slice [simp]: "mset (sort_Slice lt xs) = mset xs"
  by (simp add: sort_Slice_def mset_foldl_ins_less)

lemma set_sort_Slice [simp]: "set (sort_Slice lt xs) = set xs"
  using mset_eq_setD [OF mset_sort_Slice] .

definition dless :: "diag \<Rightarrow> diag \<Rightarrow> bool" where
  "dless p q \<longleftrightarrow> (if dX p \<noteq> dX q then dX p < dX q else dLen p > dLen q)"

lemma lcs_sort_dless: "lcs_sort l = sort_Slice dless l"
  by (simp add: lcs_sort_def dless_def [abs_def])

lemma set_ins_less [simp]: "set (ins_less lt x ys) = insert x (set ys)"
  by (induction ys) auto

lemma sorted_ins_dless: "sorted (map dX ys) \<Longrightarrow> sorted (map dX (ins_less dless x ys))"
  by (induction ys) (auto simp: dless_def split: if_splits)

lemma sorted_lcs_sort: "sorted (map dX (lcs_sort l))"
proof -
  have "sorted (map dX acc) \<Longrightarrow> sorted (map dX (foldl (\<lambda>acc x. ins_less dless x acc) acc l))" for acc
    by (induction l arbitrary: acc) (auto simp: sorted_ins_dless)
  then show ?thesis by (simp add: lcs_sort_dless sort_Slice_def)
qed

lemma mset_lcs_sort [simp]: "mset (lcs_sort l) = mset l"
  by (simp add: lcs_sort_dless)

text \<open>A list sorted by \<open>dX\<close> without repetitions is the only one with its elements.\<close>

lemma lcs_sort_unique:
  assumes "sorted_wrt (\<lambda>p q. dX p < dX q) l" "mset l' = mset l"
  shows "lcs_sort l' = l"
proof (rule map_sorted_distinct_set_unique [where f = dX])
  have s: "sorted_wrt (<) (map dX l)" using assms(1) by (simp add: sorted_wrt_map)
  then have d: "distinct (map dX l)" "sorted (map dX l)" by (simp_all add: strict_sorted_iff)
  have m: "mset (lcs_sort l') = mset l" using assms(2) by simp
  have set: "set (lcs_sort l') = set l" using mset_eq_setD [OF m] .
  show "set (lcs_sort l') = set l" by (rule set)
  show "inj_on dX (set (lcs_sort l') \<union> set l)" using d(1) set by (simp add: distinct_map)
  show "sorted (map dX (lcs_sort l'))" by (rule sorted_lcs_sort)
  have "mset (map dX (lcs_sort l')) = mset (map dX l)" using m by (metis mset_map)
  with d(1) show "distinct (map dX (lcs_sort l'))" by (metis mset_eq_imp_distinct_iff)
qed (use assms in \<open>simp_all add: sorted_wrt_map [symmetric] strict_sorted_iff\<close>)

lemma chain_le: "chain a b x0 y0 l x1 y1 \<Longrightarrow> x0 \<le> x1 \<and> y0 \<le> y1"
  by (induction l arbitrary: x0 y0) (fastforce simp: diag_ok_def)+

lemma chain_ge: "chain a b x0 y0 l x1 y1 \<Longrightarrow> d \<in> set l \<Longrightarrow> x0 \<le> dX d"
  by (induction l arbitrary: x0 y0) (fastforce simp: diag_ok_def)+

lemma chain_strict: "chain a b x0 y0 l x1 y1 \<Longrightarrow> sorted_wrt (\<lambda>p q. dX p < dX q) l"
proof (induction l arbitrary: x0 y0)
  case (Cons d ds)
  then have "chain a b (dX d + dLen d) (dY d + dLen d) ds x1 y1" "0 < dLen d" by (auto simp: diag_ok_def)
  with Cons.IH chain_ge show ?case by fastforce
qed simp

lemma chain_sort: "chain a b x0 y0 l x1 y1 \<Longrightarrow> mset l' = mset l \<Longrightarrow> lcs_sort l' = l"
  by (rule lcs_sort_unique [OF chain_strict])

text \<open>Two chains that follow each other, whichever order they are concatenated in.\<close>

lemma chain_join:
  assumes "chain a b 0 0 f x y" "chain a b u v g x1 y1" "x \<le> u" "y \<le> v"
  shows "chain a b 0 0 (lcs_sort (f @ g)) x1 y1" "chain a b 0 0 (lcs_sort (g @ f)) x1 y1"
proof -
  have "chain a b 0 0 (f @ g) x1 y1"
    by (rule chain_append [OF chain_widen2 [OF assms(1,3,4)] assms(2)])
  moreover from chain_sort [OF this, of "g @ f"] have "lcs_sort (g @ f) = f @ g" by simp
  moreover from chain_sort [OF calculation(1), of "f @ g"] have "lcs_sort (f @ g) = f @ g" by simp
  ultimately show "chain a b 0 0 (lcs_sort (f @ g)) x1 y1" "chain a b 0 0 (lcs_sort (g @ f)) x1 y1" by simp_all
qed

section \<open>Repair\<close>

text \<open>\<open>p\<close> ends before \<open>q\<close> begins, in both coordinates.\<close>

definition before :: "diag \<Rightarrow> diag \<Rightarrow> bool" where
  "before p q \<longleftrightarrow> dX p + dLen p \<le> dX q \<and> dY p + dLen p \<le> dY q"

definition apartd :: "diag \<Rightarrow> diag \<Rightarrow> bool" where
  "apartd p q \<longleftrightarrow> before p q \<or> before q p"

definition part :: "diag \<Rightarrow> diag \<Rightarrow> bool" where
  "part p q \<longleftrightarrow> (\<exists>o1. 0 \<le> o1 \<and> dX p = dX q + o1 \<and> dY p = dY q + o1 \<and> o1 + dLen p \<le> dLen q)"

lemma part_refl [simp]: "part p p"
  by (auto simp: part_def)

lemma part_trans: "part p q \<Longrightarrow> part q r \<Longrightarrow> part p r"
proof -
  assume "part p q" "part q r"
  then obtain o1 o2 where "0 \<le> o1" "dX p = dX q + o1" "dY p = dY q + o1" "o1 + dLen p \<le> dLen q"
    "0 \<le> o2" "dX q = dX r + o2" "dY q = dY r + o2" "o2 + dLen q \<le> dLen r" by (auto simp: part_def)
  then show "part p r" unfolding part_def by (intro exI [where x = "o1 + o2"]) auto
qed

lemma part_diag_ok:
  assumes "part p q" "diag_ok a b q" "0 < dLen p"
  shows "diag_ok a b p"
proof -
  from assms(1) obtain o1 where o1: "0 \<le> o1" "dX p = dX q + o1" "dY p = dY q + o1" "o1 + dLen p \<le> dLen q"
    by (auto simp: part_def)
  have "cell a b (dX p + i) (dY p + i)" if "0 \<le> i" "i < dLen p" for i
  proof -
    have "cell a b (dX q + (o1 + i)) (dY q + (o1 + i))"
      using assms(2) that o1 unfolding diag_ok_def by (metis add_nonneg_nonneg add_strict_left_mono order_less_le_trans)
    then show ?thesis using o1 by (simp add: algebra_simps)
  qed
  with assms(3) show ?thesis by (simp add: diag_ok_def)
qed

lemma part_apartd: "part p q \<Longrightarrow> apartd i q \<Longrightarrow> apartd i p"
  by (auto simp: part_def apartd_def before_def)

lemma part_end: "p \<le> e \<Longrightarrow> e < p + dLen q \<Longrightarrow> part (overlap_end p e q) q"
  by (auto simp: part_def overlap_end_def)

lemma part_begin: "0 \<le> dl \<Longrightarrow> part (shift dl (overlap_begin dl q)) q"
  by (auto simp: part_def shift_def overlap_begin_def)

text \<open>What the four steps of \<open>overlap\<close> keep.\<close>

definition trimmed :: "diag \<Rightarrow> diag \<Rightarrow> direction \<times> diag \<Rightarrow> bool" where
  "trimmed exist prop r \<longleftrightarrow> (fst r = Empty \<and> dLen (snd r) \<le> 0) \<or> fst r = Bad \<or>
     (fst r \<noteq> Empty \<and> part (snd r) prop \<and> apartd exist (snd r))"

lemma trimmed_part: "trimmed exist prop1 r \<Longrightarrow> part prop1 prop \<Longrightarrow> trimmed exist prop r"
  by (auto simp: trimmed_def intro: part_trans)

lemma overlap_dir_trimmed: "trimmed exist prop (overlap_dir exist prop)"
  by (auto simp: overlap_dir_def trimmed_def apartd_def before_def)

lemma overlap4_trimmed: "trimmed exist prop (overlap4 exist prop)"
proof -
  let ?dl = "dY exist + dLen exist - dY prop"
  have "trimmed exist prop (overlap_dir exist (shift ?dl (overlap_begin ?dl prop)))" if "0 \<le> ?dl"
    by (rule trimmed_part [OF overlap_dir_trimmed part_begin [OF that]])
  then show ?thesis using overlap_dir_trimmed [of exist "prop"]
    unfolding overlap4_def Let_def by (auto simp: trimmed_def)
qed

lemma overlap3_trimmed: "trimmed exist prop (overlap3 exist prop)"
proof -
  have "trimmed exist prop (overlap4 exist (overlap_end (dY prop) (dY exist) prop))"
    if "dY prop \<le> dY exist" "dY exist < dY prop + dLen prop"
    by (rule trimmed_part [OF overlap4_trimmed part_end [OF that]])
  then show ?thesis using overlap4_trimmed [of exist "prop"]
    unfolding overlap3_def Let_def by (auto simp: trimmed_def)
qed

lemma overlap2_trimmed: "trimmed exist prop (overlap2 exist prop)"
proof -
  let ?dl = "dX exist + dLen exist - dX prop"
  have "trimmed exist prop (overlap3 exist (shift ?dl (overlap_begin ?dl prop)))" if "0 \<le> ?dl"
    by (rule trimmed_part [OF overlap3_trimmed part_begin [OF that]])
  then show ?thesis using overlap3_trimmed [of exist "prop"]
    unfolding overlap2_def Let_def by (auto simp: trimmed_def)
qed

lemma overlap_trimmed: "trimmed exist prop (overlap exist prop)"
proof -
  have "trimmed exist prop (overlap2 exist (overlap_end (dX prop) (dX exist) prop))"
    if "dX prop \<le> dX exist" "dX exist < dX prop + dLen prop"
    by (rule trimmed_part [OF overlap2_trimmed part_end [OF that]])
  then show ?thesis using overlap2_trimmed [of exist "prop"]
    unfolding overlap_def Let_def by (auto simp: trimmed_def)
qed

lemma fix_in_kept:
  assumes "fix_in tmp d0 prop = (dir, nxt)" "0 < dLen nxt" "dir \<noteq> Bad"
  shows "part nxt prop \<and> (\<forall>i \<in> set tmp. apartd i nxt)"
  using assms
proof (induction tmp arbitrary: d0 "prop")
  case (Cons i tmp)
  obtain d1 n1 where o: "overlap i prop = (d1, n1)" by force
  with overlap_trimmed [of i "prop"] have t: "trimmed i prop (d1, n1)" by simp
  show ?case
  proof (cases "d1 = Empty \<or> d1 = Bad")
    case True
    with Cons.prems o t show ?thesis by (auto simp: trimmed_def)
  next
    case False
    with Cons.prems o have r: "fix_in tmp d1 n1 = (dir, nxt)" by simp
    from Cons.IH [OF r Cons.prems(2,3)] have IH: "part nxt n1" "\<forall>i \<in> set tmp. apartd i nxt" by auto
    from t False have "part n1 prop" "apartd i n1" by (auto simp: trimmed_def)
    with IH show ?thesis by (auto intro: part_trans part_apartd)
  qed
qed simp

definition scattered :: "'a list \<Rightarrow> 'a list \<Rightarrow> lcs \<Rightarrow> bool" where
  "scattered a b l \<longleftrightarrow> (\<forall>d \<in> set l. diag_ok a b d) \<and> sorted_wrt apartd l"

lemma fix_out_scattered:
  assumes "scattered a b tmp" "\<forall>d \<in> set l. diag_ok a b d"
  shows "scattered a b (fix_out tmp l)"
  using assms
proof (induction l arbitrary: tmp)
  case (Cons p l)
  obtain dir nxt where f: "fix_in tmp Empty p = (dir, nxt)" by force
  show ?case
  proof (cases "0 < dLen nxt \<and> dir \<noteq> Bad")
    case True
    with fix_in_kept [OF f] have k: "part nxt p" "\<forall>i \<in> set tmp. apartd i nxt" by auto
    with part_diag_ok Cons.prems True have "diag_ok a b nxt" by fastforce
    with k Cons.prems(1) have "scattered a b (tmp @ [nxt])" by (auto simp: scattered_def sorted_wrt_append)
    from Cons.IH [OF this] Cons.prems True f show ?thesis by simp
  next
    case False
    with Cons f show ?thesis by auto
  qed
qed simp

lemma apartd_sym: "apartd p q = apartd q p"
  by (auto simp: apartd_def)

lemma scattered_set:
  assumes "\<forall>d \<in> set l. diag_ok a b d"
  shows "sorted_wrt apartd l \<longleftrightarrow> distinct l \<and> (\<forall>p \<in> set l. \<forall>q \<in> set l. p \<noteq> q \<longrightarrow> apartd p q)"
  using assms
proof (induction l)
  case (Cons d l)
  have "\<not> apartd d d" using Cons.prems by (auto simp: apartd_def before_def diag_ok_def)
  with Cons show ?case by (auto simp: apartd_sym)
qed simp

lemma diag_ok_bounds:
  assumes "diag_ok a b d"
  shows "0 \<le> dX d" "0 \<le> dY d" "dX d + dLen d \<le> N_of a" "dY d + dLen d \<le> N_of b" "0 < dLen d"
proof -
  from assms have l: "0 < dLen d" and c: "\<And>i. 0 \<le> i \<Longrightarrow> i < dLen d \<Longrightarrow> cell a b (dX d + i) (dY d + i)"
    by (auto simp: diag_ok_def)
  from c [of 0] c [of "dLen d - 1"] l show "0 \<le> dX d" "0 \<le> dY d" "dX d + dLen d \<le> N_of a" "dY d + dLen d \<le> N_of b" "0 < dLen d"
    by (auto simp: cell_def)
qed

lemma chain_of_sorted:
  assumes "\<forall>d \<in> set l. diag_ok a b d" "sorted_wrt before l" "x0 \<le> N_of a" "y0 \<le> N_of b"
    and "\<forall>d \<in> set l. x0 \<le> dX d \<and> y0 \<le> dY d"
  shows "chain a b x0 y0 l (N_of a) (N_of b)"
  using assms
proof (induction l arbitrary: x0 y0)
  case (Cons d l)
  have "chain a b (dX d + dLen d) (dY d + dLen d) l (N_of a) (N_of b)"
    by (rule Cons.IH) (use Cons.prems diag_ok_bounds [of a b d] in \<open>auto simp: before_def\<close>)
  with Cons.prems show ?case by simp
qed simp

lemma scattered_sort:
  assumes "scattered a b l"
  shows "chain a b 0 0 (lcs_sort l) (N_of a) (N_of b)"
proof -
  let ?s = "lcs_sort l"
  have set: "set ?s = set l" by (rule mset_eq_setD) simp
  from assms have ok: "\<forall>d \<in> set ?s. diag_ok a b d" unfolding set by (simp add: scattered_def)
  have "distinct ?s = distinct l" by (rule mset_eq_imp_distinct_iff) simp
  then have p: "sorted_wrt apartd ?s"
    using assms scattered_set [OF ok] scattered_set [of l a b] by (simp add: scattered_def set)
  have s: "sorted_wrt (\<lambda>p q. dX p \<le> dX q) ?s" using sorted_lcs_sort [of l] by (simp add: sorted_map)
  have "sorted_wrt before ?s"
    unfolding sorted_wrt_iff_nth_less
  proof (intro allI impI)
    fix i j assume ij: "i < j" "j < length ?s"
    with p s have "apartd (?s ! i) (?s ! j)" "dX (?s ! i) \<le> dX (?s ! j)" by (auto simp: sorted_wrt_iff_nth_less)
    moreover have "0 < dLen (?s ! j)" "0 < dLen (?s ! i)" using ok ij by (auto simp: diag_ok_def)
    ultimately show "before (?s ! i) (?s ! j)" by (auto simp: apartd_def before_def)
  qed
  with ok show ?thesis by (intro chain_of_sorted) (auto dest: diag_ok_bounds)
qed

lemma lcs_fix_chain:
  assumes "\<forall>d \<in> set l. diag_ok a b d"
  shows "chain a b 0 0 (lcs_fix l) (N_of a) (N_of b)"
proof (cases "sort_Slice (\<lambda>p q. dLen p > dLen q) l")
  case Nil
  then show ?thesis by (simp add: lcs_fix_def)
next
  case (Cons p ps)
  have "set (p # ps) = set l" using Cons set_sort_Slice by metis
  with assms have "scattered a b (fix_out [p] ps)"
    by (intro fix_out_scattered) (auto simp: scattered_def)
  from scattered_sort [OF this] Cons show ?thesis by (simp add: lcs_fix_def)
qed

section \<open>The two-sided search\<close>

lemma fmatch_tabs:
  assumes t: "tabs e df db" and d: "dk df k"
  shows "fmatch e (int df - 1) (k - 1) x = Some (\<exists>D. df = Suc D \<and> dk D (k - 1) \<and> x = frE e D (k - 1))"
    and "fmatch e (int df - 1) (k + 1) x = Some (\<exists>D. df = Suc D \<and> dk D (k + 1) \<and> x = frE e D (k + 1))"
proof -
  from t have f: "ftab e df {}" by (simp add: tabs_def)
  show "fmatch e (int df - 1) (k - 1) x = Some (\<exists>D. df = Suc D \<and> dk D (k - 1) \<and> x = frE e D (k - 1))"
  proof (cases df)
    case (Suc D)
    then show ?thesis using fmatch_ftab [OF f, of D "k - 1" x] ok_dk(1) [of D k] d by simp
  qed (simp add: fmatch_def ok_def)
  show "fmatch e (int df - 1) (k + 1) x = Some (\<exists>D. df = Suc D \<and> dk D (k + 1) \<and> x = frE e D (k + 1))"
  proof (cases df)
    case (Suc D)
    then show ?thesis using fmatch_ftab [OF f, of D "k + 1" x] ok_dk(2) [of D k] d by simp
  qed (simp add: fmatch_def ok_def)
qed

lemma bmatch_tabs:
  assumes t: "tabs e df db" and d: "dk db k"
  shows "bmatch e (int db - 1) (k - 1) x = Some (\<exists>D. db = Suc D \<and> dk D (k - 1) \<and> x = brE e D (k - 1))"
    and "bmatch e (int db - 1) (k + 1) x = Some (\<exists>D. db = Suc D \<and> dk D (k + 1) \<and> x = brE e D (k + 1))"
proof -
  from t have f: "btab e db {}" by (simp add: tabs_def)
  show "bmatch e (int db - 1) (k - 1) x = Some (\<exists>D. db = Suc D \<and> dk D (k - 1) \<and> x = brE e D (k - 1))"
  proof (cases db)
    case (Suc D)
    then show ?thesis using bmatch_btab [OF f, of D "k - 1" x] ok_dk(1) [of D k] d by simp
  qed (simp add: bmatch_def ok_def)
  show "bmatch e (int db - 1) (k + 1) x = Some (\<exists>D. db = Suc D \<and> dk D (k + 1) \<and> x = brE e D (k + 1))"
  proof (cases db)
    case (Suc D)
    then show ?thesis using bmatch_btab [OF f, of D "k + 1" x] ok_dk(2) [of D k] d by simp
  qed (simp add: bmatch_def ok_def)
qed

lemma lcs_tabs:
  assumes t: "tabs e df db"
  shows "D \<le> df \<Longrightarrow> dk D k \<Longrightarrow> \<exists>l. forwardlcs e (int D) k = Some l \<and>
      chain (seq_a e) (seq_b e) 0 0 l (frE e D k) (frE e D k - k)"
    and "D' \<le> db \<Longrightarrow> dk D' k' \<Longrightarrow> \<exists>l. backwardlcs e (int D') k' = Some l \<and>
      chain (seq_a e) (seq_b e) (brE e D' k') (brE e D' k' - (k' + delta e)) l (ux e) (uy e)"
  using t forwardlcs_chain [of e df "{}" D k] backwardlcs_chain [of e db "{}" D' k'] by (auto simp: tabs_def)

text \<open>The rest of the forward path when the backward path ends inside the rectangle.\<close>

lemma forward_rest:
  assumes t: "tabs e df db" and sh: "shared e df db k" and le: "brE e db (k - delta e) \<le> frE e df k"
    and u: "0 \<le> brE e db (k - delta e)" "0 \<le> brE e db (k - delta e) - k" and lim: "int df \<le> limit e"
  shows "\<exists>l. forward (e\<lparr>ux := brE e db (k - delta e), uy := brE e db (k - delta e) - k\<rparr>) = Some l \<and>
    chain (seq_a e) (seq_b e) 0 0 l (brE e db (k - delta e)) (brE e db (k - delta e) - k)"
proof -
  let ?u = "brE e db (k - delta e)"
  let ?v = "?u - k"
  let ?e = "e\<lparr>ux := ?u, uy := ?v\<rparr>"
  note g = tabs_geomB [OF t]
  from sh have d: "dk df k" "dk db (k - delta e)" by (auto simp: shared_def)
  have b: "?u \<le> ux e" "?v \<le> uy e" using br_bound_tabs [OF g d(2)] by simp_all
  have r: "rect (seq_a e) (seq_b e) ?u ?v" using u b g by (simp add: rect_def geomB_def)
  have R: "rect (seq_a e) (seq_b e) (ux e) (uy e)" using g by (simp add: geomB_def)
  have "?u - ?v = k" by simp
  have "?u \<le> fr (seq_a e) (seq_b e) ?u ?v df k"
    using fr_restrict [OF r R b d(1)] le by simp
  with fr_corner_exact [OF r, of df] d(1) obtain D where D: "D \<le> df" "dk D k"
    "fr (seq_a e) (seq_b e) ?u ?v D k = ?u" unfolding \<open>?u - ?v = k\<close> by blast
  have "\<exists>l. forward ?e = Some l \<and> whole ?e l"
  proof (rule forward_whole [of ?e D k])
    show "geom ?e" using r g by (simp add: geom_def geomB_def)
    show "label_ok (vf ?e)" using t by (simp add: tabs_def ftab_def)
    show "hit ?e D k" using D(3) by (simp add: hit_def)
  qed (use D lim in simp_all)
  then show ?thesis by simp
qed

lemma twolcs_whole:
  assumes t: "tabs e df db" and sh: "shared e df db k" and le: "brE e db (k - delta e) \<le> frE e df k"
    and prev: "\<And>df' db'. df = Suc df' \<Longrightarrow> db = Suc db' \<Longrightarrow> apart e df' db'"
    and dfdb: "df \<le> Suc db" "df = 0 \<Longrightarrow> db = 0" and lim: "int df \<le> limit e"
  shows "\<exists>l. twolcs e (int df) (int db) k = Some l \<and> whole e l"
proof -
  let ?x = "frE e df k" and ?kb = "k - delta e"
  let ?u = "brE e db ?kb"
  note g = tabs_geomB [OF t]
  from sh have d: "dk df k" "dk db ?kb" by (auto simp: shared_def)
  note get = label_get_tabs(1) [OF t order_refl d(1)] label_get_tabs(2) [OF t order_refl d(2)]
  have ub: "0 \<le> ?u" "0 \<le> ?u - k" using first_meet_backward [OF g sh prev dfdb(2)] by auto
  have xb: "?x \<le> ux e" "?x - k \<le> uy e" using first_meet_forward [OF g sh prev dfdb(1)] by auto
  obtain f where f: "forwardlcs e (int df) k = Some f" "chain (seq_a e) (seq_b e) 0 0 f ?x (?x - k)"
    using lcs_tabs(1) [OF t order_refl d(1)] by blast
  obtain g1 where g1: "backwardlcs e (int db) ?kb = Some g1" "chain (seq_a e) (seq_b e) ?u (?u - k) g1 (ux e) (uy e)"
    using lcs_tabs(2) [OF t order_refl d(2)] by auto
  obtain h where h: "forward (e\<lparr>ux := ?u, uy := ?u - k\<rparr>) = Some h" "chain (seq_a e) (seq_b e) 0 0 h ?u (?u - k)"
    using forward_rest [OF t sh le ub lim] by blast
  have e1: "?u - 1 - (?u - k) = k - 1" "?u - (?u - k - 1) = k + 1"
    "?x + 1 - (?x - k) - delta e = ?kb + 1" "?x - (?x - k + 1) - delta e = ?kb - 1" by auto
  note go = get Let_def Option.bind.simps e1
  note m = fmatch_tabs [OF t d(1)] bmatch_tabs [OF t d(2)]
  consider (meet) "?x = ?u"
    | (right) D where "?x \<noteq> ?u" "0 < ?u" "df = Suc D" "dk D (k - 1)" "?u - 1 = frE e D (k - 1)"
    | (up) D where "?x \<noteq> ?u" "\<not> (0 < ?u \<and> (\<exists>D. df = Suc D \<and> dk D (k - 1) \<and> ?u - 1 = frE e D (k - 1)))"
        "0 < ?u - k" "df = Suc D" "dk D (k + 1)" "?u = frE e D (k + 1)"
    | (rest) "?x \<noteq> ?u" "\<not> (0 < ?u \<and> (\<exists>D. df = Suc D \<and> dk D (k - 1) \<and> ?u - 1 = frE e D (k - 1)))"
        "\<not> (0 < ?u - k \<and> (\<exists>D. df = Suc D \<and> dk D (k + 1) \<and> ?u = frE e D (k + 1)))" by blast
  then show ?thesis
  proof cases
    case meet
    show ?thesis unfolding twolcs_def
      by (simp only: go meet if_True f(1) g1(1)) (use chain_join(1) [OF f(2) g1(2)] meet in simp)
  next
    case right
    from right(5) have q: "frE e D (k - 1) = ?u - 1" "?u - 1 - (k - 1) = ?u - k" by simp_all
    from lcs_tabs(1) [OF t _ right(4)] right(3) obtain f' where
      f': "forwardlcs e (int df - 1) (k - 1) = Some f'" "chain (seq_a e) (seq_b e) 0 0 f' (?u - 1) (?u - k)"
      unfolding q by auto
    have c1: "(if 0 < ?u then fmatch e (int df - 1) (k - 1) (?u - 1) else Some False) = Some True"
      using right unfolding m by simp
    show ?thesis unfolding twolcs_def
      by (simp only: go right(1) c1 if_True if_False f'(1) g1(1)) (use chain_join(1) [OF f'(2) g1(2)] in simp)
  next
    case up
    from up(6) have q: "frE e D (k + 1) = ?u" "?u - (k + 1) = ?u - k - 1" by simp_all
    from lcs_tabs(1) [OF t _ up(5)] up(4) obtain f' where
      f': "forwardlcs e (int df - 1) (k + 1) = Some f'" "chain (seq_a e) (seq_b e) 0 0 f' ?u (?u - k - 1)"
      unfolding q by auto
    have c1: "(if 0 < ?u then fmatch e (int df - 1) (k - 1) (?u - 1) else Some False) = Some False"
      using up unfolding m by simp
    have c2: "(if 0 < ?u - k then fmatch e (int df - 1) (k + 1) ?u else Some False) = Some True"
      using up unfolding m by simp
    show ?thesis unfolding twolcs_def
      by (simp only: go up(1) c1 c2 if_True if_False f'(1) g1(1)) (use chain_join(1) [OF f'(2) g1(2)] in simp)
  next
    case rest
    have c1: "(if 0 < ?u then fmatch e (int df - 1) (k - 1) (?u - 1) else Some False) = Some False"
      using rest unfolding m by simp
    have c2: "(if 0 < ?u - k then fmatch e (int df - 1) (k + 1) ?u else Some False) = Some False"
      using rest unfolding m by simp
    have b0: "chain (seq_a e) (seq_b e) 0 0 g1 (ux e) (uy e)" by (rule chain_widen [OF g1(2) ub])
    have f0: "chain (seq_a e) (seq_b e) 0 0 f (ux e) (uy e)" by (rule chain_widen2 [OF f(2) xb])
    show ?thesis
    proof (cases "?u = 0 \<or> ?u - k = 0 \<or> ?x = ux e \<or> ?x - k = uy e")
      case True
      show ?thesis unfolding twolcs_def
        by (simp only: go rest(1) c1 c2 True if_True if_False f(1) g1(1)) (use b0 f0 in simp)
    next
      case in1: False
      consider (c3) D where "?x + 1 \<le> ux e" "db = Suc D" "dk D (?kb + 1)" "?x + 1 = brE e D (?kb + 1)"
        | (c4) D where "\<not> (?x + 1 \<le> ux e \<and> (\<exists>D. db = Suc D \<and> dk D (?kb + 1) \<and> ?x + 1 = brE e D (?kb + 1)))"
          "?x - k + 1 \<le> uy e" "db = Suc D" "dk D (?kb - 1)" "?x = brE e D (?kb - 1)"
        | (out) "\<not> (?x + 1 \<le> ux e \<and> (\<exists>D. db = Suc D \<and> dk D (?kb + 1) \<and> ?x + 1 = brE e D (?kb + 1)))"
          "\<not> (?x - k + 1 \<le> uy e \<and> (\<exists>D. db = Suc D \<and> dk D (?kb - 1) \<and> ?x = brE e D (?kb - 1)))" by blast
      then show ?thesis
      proof cases
        case c3
        from c3(4) have q: "brE e D (?kb + 1) = ?x + 1" "?x + 1 - (?kb + 1 + delta e) = ?x - k" by simp_all
        from lcs_tabs(2) [OF t _ c3(3)] c3(2) obtain b' where
          b': "backwardlcs e (int db - 1) (?kb + 1) = Some b'" "chain (seq_a e) (seq_b e) (?x + 1) (?x - k) b' (ux e) (uy e)"
          unfolding q by auto
        have c3': "(if ?x + 1 \<le> ux e then bmatch e (int db - 1) (?kb + 1) (?x + 1) else Some False) = Some True"
          using c3 unfolding m by simp
        show ?thesis unfolding twolcs_def
          by (simp only: go rest(1) c1 c2 in1 c3' if_True if_False f(1) b'(1)) (use chain_join(2) [OF f(2) b'(2)] in simp)
      next
        case c4
        from c4(5) have q: "brE e D (?kb - 1) = ?x" "?x - (?kb - 1 + delta e) = ?x - k + 1" by simp_all
        from lcs_tabs(2) [OF t _ c4(4)] c4(3) obtain b' where
          b': "backwardlcs e (int db - 1) (?kb - 1) = Some b'" "chain (seq_a e) (seq_b e) ?x (?x - k + 1) b' (ux e) (uy e)"
          unfolding q by auto
        have c3': "(if ?x + 1 \<le> ux e then bmatch e (int db - 1) (?kb + 1) (?x + 1) else Some False) = Some False"
          using c4(1) unfolding m by simp
        have c4': "(if ?x - k + 1 \<le> uy e then bmatch e (int db - 1) (?kb - 1) ?x else Some False) = Some True"
          using c4 unfolding m by simp
        show ?thesis unfolding twolcs_def
          by (simp only: go rest(1) c1 c2 in1 c3' c4' if_True if_False f(1) b'(1))
             (use chain_join(2) [OF f(2) b'(2)] in simp)
      next
        case out
        have c3': "(if ?x + 1 \<le> ux e then bmatch e (int db - 1) (?kb + 1) (?x + 1) else Some False) = Some False"
          using out(1) unfolding m by simp
        have c4': "(if ?x - k + 1 \<le> uy e then bmatch e (int db - 1) (?kb - 1) ?x else Some False) = Some False"
          using out(2) unfolding m by simp
        show ?thesis unfolding twolcs_def
          by (simp only: go rest(1) c1 c2 in1 c3' c4' if_True if_False g1(1) h(1))
             (use chain_join(2) [OF h(2) g1(2)] in simp)
      qed
    qed
  qed
qed

text \<open>What the passes leave alone, and the tests that failed before level \<open>D\<close>.\<close>

definition same :: "'a editGraph \<Rightarrow> 'a editGraph \<Rightarrow> bool" where
  "same e e' \<longleftrightarrow> seq_a e' = seq_a e \<and> seq_b e' = seq_b e \<and> ux e' = ux e \<and> uy e' = uy e \<and>
     delta e' = delta e \<and> limit e' = limit e \<and> lx e' = lx e \<and> ly e' = ly e"

definition missed :: "'a editGraph \<Rightarrow> nat \<Rightarrow> bool" where
  "missed e D \<longleftrightarrow> (\<forall>D' < D. apart e D' D' \<and> apart e (Suc D') D')"

lemma same_trans: "same e e1 \<Longrightarrow> same e1 e2 \<Longrightarrow> same e e2"
  by (simp add: same_def)

lemma same_keep: "keepF e e' \<Longrightarrow> same e e'" "keepB e e' \<Longrightarrow> same e e'"
  using keepF_simps [of e e'] keepB_simps [of e e'] by (simp_all add: same_def)

lemma same_apart: "same e e' \<Longrightarrow> apart e' df db = apart e df db"
  by (simp add: apart_def shared_def same_def)

lemma same_missed: "same e e' \<Longrightarrow> missed e' D = missed e D"
  by (simp add: missed_def same_apart)

lemma same_whole: "same e e' \<Longrightarrow> whole e' l = whole e l"
  by (simp add: same_def)

lemma btab_keepF: "keepF e e' \<Longrightarrow> btab e n S \<Longrightarrow> btab e' n S"
  using keepF_simps [of e e'] by (simp add: btab_def geomB_def)

lemma ftab_keepB: "keepB e e' \<Longrightarrow> ftab e n S \<Longrightarrow> ftab e' n S"
  using keepB_simps [of e e'] by (simp add: ftab_def geom_def)

lemma tabs_forward:
  assumes "tabs e n n"
  shows "\<exists>e'. twosided_forward e (int n) = Some e' \<and> same e e' \<and> tabs e' (Suc n) n"
proof -
  from assms have "ftab e n {}" "btab e n {}" by (simp_all add: tabs_def)
  with twosided_forward_ftab obtain e' where "twosided_forward e (int n) = Some e'" "keepF e e'"
    "ftab e' (Suc n) {}" by blast
  with \<open>btab e n {}\<close> btab_keepF same_keep show ?thesis by (auto simp: tabs_def)
qed

lemma tabs_backward:
  assumes "tabs e (Suc n) n"
  shows "\<exists>e'. twosided_backward e (int n) = Some e' \<and> same e e' \<and> tabs e' (Suc n) (Suc n)"
proof -
  from assms have "ftab e (Suc n) {}" "btab e n {}" by (simp_all add: tabs_def)
  with twosided_backward_btab obtain e' where "twosided_backward e (int n) = Some e'" "keepB e e'"
    "btab e' (Suc n) {}" by blast
  with \<open>ftab e (Suc n) {}\<close> ftab_keepB same_keep show ?thesis by (auto simp: tabs_def)
qed

text \<open>One test: it stops the search with a chain, or the paths are still apart.\<close>

lemma test_spec:
  assumes t: "tabs e df db" and prev: "\<And>df' db'. df = Suc df' \<Longrightarrow> db = Suc db' \<Longrightarrow> apart e df' db'"
    and dfdb: "df \<le> Suc db" "df = 0 \<Longrightarrow> db = 0" and lim: "int df \<le> limit e"
  shows "(\<exists>k l. twoDone e (int df) (int db) = Some (Some k) \<and> twolcs e (int df) (int db) k = Some l \<and> whole e l)
    \<or> twoDone e (int df) (int db) = Some None \<and> apart e df db"
proof -
  from twoDone_spec [OF t] obtain r where r: "twoDone e (int df) (int db) = Some r"
    "\<forall>l. r = Some l \<longrightarrow> shared e df db l \<and> brE e db (l - delta e) \<le> frE e df l"
    "r = None \<longrightarrow> apart e df db" by blast
  show ?thesis
  proof (cases r)
    case (Some k)
    with r(2) have "shared e df db k" "brE e db (k - delta e) \<le> frE e df k" by auto
    from twolcs_whole [OF t this prev dfdb lim] r(1) Some show ?thesis by auto
  qed (use r in auto)
qed

lemma twosided_Ds_spec:
  assumes "tabs e D D" "missed e D" "int (D + n) \<le> limit e"
  shows "(\<exists>l. twosided_Ds n e (int D) = Some (Inr l) \<and> whole e l) \<or>
    (\<exists>e'. twosided_Ds n e (int D) = Some (Inl e') \<and> same e e' \<and> tabs e' (D + n) (D + n) \<and> missed e (D + n))"
  using assms
proof (induction n arbitrary: e D)
  case 0
  then show ?case by (simp add: same_def)
next
  case (Suc n)
  have int: "int D + 1 = int (Suc D)" by simp
  have p1: "apart e df' db'" if "D = Suc df'" "D = Suc db'" for df' db'
    using Suc.prems(2) that by (simp add: missed_def)
  from test_spec [OF Suc.prems(1) p1] Suc.prems(3) consider
      k l where "twoDone e (int D) (int D) = Some (Some k)" "twolcs e (int D) (int D) k = Some l" "whole e l"
    | "twoDone e (int D) (int D) = Some None" "apart e D D" by force
  then show ?case
  proof cases
    case 1
    then show ?thesis by simp
  next
    case 2
    from tabs_forward [OF Suc.prems(1)] obtain e1 where
      e1: "twosided_forward e (int D) = Some e1" "same e e1" "tabs e1 (Suc D) D" by blast
    have p2: "apart e1 df' db'" if "Suc D = Suc df'" "D = Suc db'" for df' db'
      using Suc.prems(2) that same_apart [OF e1(2)] by (auto simp: missed_def)
    have lim: "int (Suc D) \<le> limit e1" using Suc.prems(3) e1(2) by (simp add: same_def)
    from test_spec [OF e1(3) p2 _ _ lim] consider
        k l where "twoDone e1 (int (Suc D)) (int D) = Some (Some k)" "twolcs e1 (int (Suc D)) (int D) k = Some l" "whole e1 l"
      | "twoDone e1 (int (Suc D)) (int D) = Some None" "apart e1 (Suc D) D" by force
    then show ?thesis
    proof cases
      case 3: 1
      then show ?thesis using 2 e1(1) same_whole [OF e1(2)] by (simp add: int [symmetric] del: of_nat_Suc)
    next
      case 4: 2
      from tabs_backward [OF e1(3)] obtain e2 where
        e2: "twosided_backward e1 (int D) = Some e2" "same e1 e2" "tabs e2 (Suc D) (Suc D)" by blast
      note sm = same_trans [OF e1(2) e2(2)]
      have "missed e2 (Suc D)"
        using Suc.prems(2) 2(2) 4(2) same_apart [OF sm] same_apart [OF e1(2)] by (auto simp: missed_def less_Suc_eq)
      moreover have "int (Suc D + n) \<le> limit e2" using Suc.prems(3) sm by (simp add: same_def)
      moreover have "twosided_Ds (Suc n) e (int D) = twosided_Ds n e2 (int (Suc D))"
        using 2(1) 4(1) e1(1) e2(1) by (simp only: twosided_Ds.simps int Option.bind.simps option.case)
      ultimately show ?thesis
        using Suc.IH [OF e2(3)] same_whole [OF sm] same_missed [OF sm] same_trans [OF sm]
        by (metis add_Suc_shift)
    qed
  qed
qed

section \<open>The limit\<close>

lemma best_forward_spec:
  assumes "\<forall>k \<in> set ks. getForward e (limit e) k = Some (F k)" and "- 1 \<le> dm"
    and "\<forall>k \<in> set ks. 0 \<le> F k \<and> 0 \<le> F k - k"
  shows "\<exists>r. best_forward e ks dm km = Some r \<and>
    (r \<in> set ks \<and> F r \<le> ux e \<and> F r - r \<le> uy e \<or>
     r = km \<and> (dm = - 1 \<longrightarrow> (\<forall>k \<in> set ks. \<not> (F k \<le> ux e \<and> F k - k \<le> uy e))))"
  using assms
proof (induction ks arbitrary: dm km)
  case (Cons k ks)
  show ?case
  proof (cases "F k + (F k - k) > dm \<and> F k \<le> ux e \<and> F k - k \<le> uy e")
    case True
    have "0 \<le> F k + (F k - k)" using Cons.prems(3) by auto
    with Cons.IH [of "F k + (F k - k)" k] Cons.prems True show ?thesis by (auto simp: Let_def)
  next
    case False
    with Cons.IH [of dm km] Cons.prems show ?thesis by (auto simp: Let_def)
  qed
qed auto

lemma best_backward_mem:
  assumes "\<forall>k \<in> set ks. \<exists>x. getBackward e (limit e) k = Some x"
  shows "\<exists>r. best_backward e ks dm km = Some r \<and> (r \<in> set ks \<or> r = km)"
  using assms
proof (induction ks arbitrary: dm km)
  case (Cons k ks)
  then obtain x where x: "getBackward e (limit e) k = Some x" by auto
  show ?case
  proof (cases "x + (x - (k + delta e)) < dm \<and> 0 \<le> x \<and> 0 \<le> x - (k + delta e)")
    case True
    with Cons.IH [of "x + (x - (k + delta e))" k] Cons.prems x show ?thesis by (auto simp: Let_def)
  next
    case False
    with Cons.IH [of dm km] Cons.prems x show ?thesis by (auto simp: Let_def)
  qed
qed simp

text \<open>While the paths have not met, some forward path is inside the rectangle.\<close>

lemma missed_inside:
  assumes g: "geomB e" and m: "missed e n"
  shows "\<exists>k. dk n k \<and> frE e n k \<le> ux e \<and> frE e n k - k \<le> uy e"
proof -
  from g have r: "rect (seq_a e) (seq_b e) (ux e) (uy e)" and dl: "ux e - uy e = delta e" by (simp_all add: geomB_def)
  have False if "D < n" "dk D (delta e)" "ux e \<le> frE e D (delta e)" for D
  proof (cases "even D")
    case True
    then have z: "dk D 0" by (simp add: dk_def)
    from m that(1) have "apart e D D" by (simp add: missed_def)
    with z that(2) have "frE e D (delta e) < brE e D 0"
      unfolding apart_def shared_def by (auto dest!: spec [where x = "delta e"])
    with that(3) br_bound_tabs(1) [OF g z] show False by linarith
  next
    case False
    then obtain D' where D': "D = Suc D'" "even D'" by (cases D) auto
    then have z: "dk D' 0" by (simp add: dk_def)
    from m that(1) D' have "apart e (Suc D') D'" by (simp add: missed_def)
    with z that(2) D' have "frE e D (delta e) < brE e D' 0"
      unfolding apart_def shared_def by (auto dest!: spec [where x = "delta e"])
    with that(3) br_bound_tabs(1) [OF g z] show False by linarith
  qed
  with fr_inside [OF r, of n] show ?thesis unfolding dl by blast
qed

lemma dk_krange: "dk n k \<longleftrightarrow> k \<in> set (krange (- int n) (int n))"
  by (auto simp: dk_def set_krange add.commute)

lemma twosided_limit_whole:
  assumes t: "tabs e n n" and m: "missed e n" and lim: "limit e = int n"
  shows "\<exists>l. twosided_limit e = Some l \<and> whole e l"
proof -
  note g = tabs_geomB [OF t]
  let ?ks = "krange (- limit e) (limit e)"
  have ks: "k \<in> set ?ks \<longleftrightarrow> dk n k" for k using dk_krange lim by simp
  have gf: "\<forall>k \<in> set ?ks. getForward e (limit e) k = Some (frE e n k)"
    using label_get_tabs(1) [OF t order_refl] ks lim by (auto simp: getForward_def)
  have gb: "\<forall>k \<in> set ?ks. \<exists>x. getBackward e (limit e) k = Some x"
    using label_get_tabs(2) [OF t order_refl] ks lim by (auto simp: getBackward_def)
  have nn: "\<forall>k \<in> set ?ks. 0 \<le> frE e n k \<and> 0 \<le> frE e n k - k" using fr_nonneg_tabs [OF g] ks by auto
  from best_forward_spec [OF gf _ nn, of "- 1" "- limit e - 1"] missed_inside [OF g m] ks obtain kf where
    kf: "best_forward e ?ks (- 1) (- limit e - 1) = Some kf" "dk n kf" by auto
  from best_backward_mem [OF gb, of "2 ^ 25" kf] kf(2) ks obtain kb where
    kb: "best_backward e ?ks (2 ^ 25) kf = Some kb" "dk n kb" by auto
  obtain f where f: "forwardlcs e (limit e) kf = Some f" "chain (seq_a e) (seq_b e) 0 0 f (frE e n kf) (frE e n kf - kf)"
    using lcs_tabs(1) [OF t order_refl kf(2)] lim by auto
  obtain b where b: "backwardlcs e (limit e) kb = Some b"
    "chain (seq_a e) (seq_b e) (brE e n kb) (brE e n kb - (kb + delta e)) b (ux e) (uy e)"
    using lcs_tabs(2) [OF t order_refl kb(2)] lim by auto
  have "\<not> kf < - limit e" "\<not> kb < - limit e" using kf(2) kb(2) lim by (auto simp: dk_def)
  then have "twosided_limit e = Some (lcs_fix (f @ b))"
    unfolding twosided_limit_def by (simp only: kf(1) kb(1) f(1) b(1) if_False Option.bind.simps)
  moreover have "whole e (lcs_fix (f @ b))"
    using lcs_fix_chain [of "f @ b" "seq_a e" "seq_b e"] chain_diag_ok [OF f(2)] chain_diag_ok [OF b(2)] g
    by (auto simp: geomB_def)
  ultimately show ?thesis by blast
qed

lemma twosided_whole:
  assumes g: "geomB e" and ok: "label_ok (vf e)" "label_ok (vb e)" and lim: "0 \<le> limit e"
  shows "\<exists>l. twosided e = Some l \<and> whole e l"
proof -
  from setForward_0 [OF geomB_geom [OF g] ok(1)] obtain e1 where
    e1: "setForward e 0 0 (lx e) = Some e1" "keepF e e1" "ftab e1 0 {}" by blast
  note k1 = keepF_simps [OF e1(2)]
  have g1: "geomB e1" "label_ok (vb e1)" using g ok(2) by (simp_all add: geomB_def k1)
  from setBackward_0 [OF g1] obtain e2 where
    e2: "setBackward e1 0 0 (ux e1) = Some e2" "keepB e1 e2" "btab e2 0 {}" by blast
  have t: "tabs e2 0 0" using ftab_keepB [OF e2(2) e1(3)] e2(3) by (simp add: tabs_def)
  have s2: "same e e2" using same_keep(1) [OF e1(2)] same_keep(2) [OF e2(2)] by (rule same_trans)
  have lim2: "int (0 + nat (limit e)) \<le> limit e2" using lim s2 by (simp add: same_def)
  have m: "missed e2 0" by (simp add: missed_def)
  from twosided_Ds_spec [OF t m lim2] consider
      l where "twosided_Ds (nat (limit e)) e2 0 = Some (Inr l)" "whole e2 l"
    | e3 where "twosided_Ds (nat (limit e)) e2 0 = Some (Inl e3)" "same e2 e3"
        "tabs e3 (nat (limit e)) (nat (limit e))" "missed e2 (nat (limit e))" by auto
  then show ?thesis
  proof cases
    case 1
    then show ?thesis using e1 e2 same_whole [OF s2] by (simp add: twosided_def)
  next
    case 2
    have s3: "same e e3" using same_trans [OF s2 2(2)] .
    have "limit e3 = int (nat (limit e))" using s3 lim by (simp add: same_def)
    from twosided_limit_whole [OF 2(3) _ this] 2(4) same_missed [OF 2(2)] obtain l where
      "twosided_limit e3 = Some l" "whole e3 l" by blast
    then show ?thesis using e1 e2 2(1) same_whole [OF s3] by (simp add: twosided_def)
  qed
qed

section \<open>Edit scripts\<close>

text \<open>\<open>edits a b pa pb ds\<close>: from offset \<open>pa\<close> of \<open>a\<close> and \<open>pb\<close> of \<open>b\<close> on, the two agree between the
  differences \<open>ds\<close>, which are in order and in range.\<close>

fun edits :: "'a list \<Rightarrow> 'a list \<Rightarrow> int \<Rightarrow> int \<Rightarrow> Diff list \<Rightarrow> bool" where
  "edits a b pa pb [] \<longleftrightarrow> drop (nat pa) a = drop (nat pb) b"
| "edits a b pa pb (d # ds) \<longleftrightarrow>
     pa \<le> Start d \<and> Start d \<le> End d \<and> End d \<le> int (length a) \<and>
     pb \<le> ReplStart d \<and> ReplStart d \<le> ReplEnd d \<and> ReplEnd d \<le> int (length b) \<and>
     Start d - pa = ReplStart d - pb \<and>
     take (nat (Start d - pa)) (drop (nat pa) a) = take (nat (Start d - pa)) (drop (nat pb) b) \<and>
     edits a b (End d) (ReplEnd d) ds"

lemma edits_prefix:
  assumes "edits a b (pa + n) (pb + n) ds" "0 \<le> pa" "0 \<le> pb" "0 \<le> n"
    and "pa + n \<le> N_of a" "pb + n \<le> N_of b"
    and "take (nat n) (drop (nat pa) a) = take (nat n) (drop (nat pb) b)"
  shows "edits a b pa pb ds"
proof -
  have nat: "nat (pa + n) = nat n + nat pa" "nat (pb + n) = nat n + nat pb" using assms by auto
  have split: "take (m + k) (drop i xs) = take m (drop i xs) @ take k (drop (m + i) xs)" for m k i and xs :: "'a list"
    by (simp add: take_add)
  show ?thesis
  proof (cases ds)
    case Nil
    have "drop (nat pa) a = take (nat n) (drop (nat pa) a) @ drop (nat (pa + n)) a"
      unfolding nat by (metis append_take_drop_id drop_drop)
    moreover have "drop (nat pb) b = take (nat n) (drop (nat pb) b) @ drop (nat (pb + n)) b"
      unfolding nat by (metis append_take_drop_id drop_drop)
    ultimately show ?thesis using assms(1,7) Nil by simp
  next
    case (Cons d ds')
    let ?m = "Start d - (pa + n)"
    have d: "pa + n \<le> Start d" "pb + n \<le> ReplStart d" "?m = ReplStart d - (pb + n)"
      "take (nat ?m) (drop (nat (pa + n)) a) = take (nat ?m) (drop (nat (pb + n)) b)"
      using assms(1) unfolding Cons edits.simps by blast+
    have "nat (Start d - pa) = nat n + nat ?m" using d assms(4) by simp
    then have "take (nat (Start d - pa)) (drop (nat pa) a) = take (nat (Start d - pa)) (drop (nat pb) b)"
      using d(4) assms(7) by (simp only: split nat)
    moreover have "Start d - pa = ReplStart d - pb" "pa \<le> Start d" "pb \<le> ReplStart d" using d assms(4) by linarith+
    ultimately show ?thesis using assms(1) unfolding Cons edits.simps by blast
  qed
qed

lemma diag_take:
  assumes "diag_ok a b d"
  shows "take (nat (dLen d)) (drop (nat (dX d)) a) = take (nat (dLen d)) (drop (nat (dY d)) b)"
proof (rule nth_equalityI)
  note bd = diag_ok_bounds [OF assms]
  show "length (take (nat (dLen d)) (drop (nat (dX d)) a)) = length (take (nat (dLen d)) (drop (nat (dY d)) b))"
    using bd by auto
  fix i assume i: "i < length (take (nat (dLen d)) (drop (nat (dX d)) a))"
  then have "cell a b (dX d + int i) (dY d + int i)" using assms by (auto simp: diag_ok_def)
  then have "a ! nat (dX d + int i) = b ! nat (dY d + int i)" by (simp add: cell_def)
  moreover have "nat (dX d + int i) = nat (dX d) + i" "nat (dY d + int i) = nat (dY d) + i" using bd by auto
  ultimately show "take (nat (dLen d)) (drop (nat (dX d)) a) ! i = take (nat (dLen d)) (drop (nat (dY d)) b) ! i"
    using i by (metis (no_types, lifting) \<open>length _ = length _\<close> nth_take_drop)
qed

lemma toDiffs_edits:
  assumes "chain a b pa pb l (N_of a) (N_of b)" "0 \<le> pa" "0 \<le> pb"
  shows "edits a b pa pb (toDiffs_loop l pa pb (N_of a) (N_of b))"
  using assms
proof (induction l arbitrary: pa pb)
  case (Cons d l)
  let ?ds = "toDiffs_loop l (dX d + dLen d) (dY d + dLen d) (N_of a) (N_of b)"
  from Cons.prems have ok: "diag_ok a b d" and c: "chain a b (dX d + dLen d) (dY d + dLen d) l (N_of a) (N_of b)"
    and le: "pa \<le> dX d" "pb \<le> dY d" by auto
  note bd = diag_ok_bounds [OF ok]
  have "edits a b (dX d + dLen d) (dY d + dLen d) ?ds" using Cons.IH [OF c] bd by simp
  then have e: "edits a b (dX d) (dY d) ?ds" by (rule edits_prefix) (use bd diag_take [OF ok] in auto)
  show ?case
  proof (cases "pa < dX d \<or> pb < dY d")
    case True
    then show ?thesis using e le bd by simp
  next
    case False
    with le have "pa = dX d" "pb = dY d" by auto
    with False e show ?thesis by simp
  qed
qed auto

text \<open>A difference of a script is not empty, so a script is not longer than its inputs.\<close>

lemma length_toDiffs:
  assumes "chain a b pa pb l x1 y1"
  shows "int (length (toDiffs_loop l pa pb x1 y1)) \<le> (x1 - pa) + (y1 - pb)"
  using assms
proof (induction l arbitrary: pa pb)
  case (Cons d l)
  then have "chain a b (dX d + dLen d) (dY d + dLen d) l x1 y1" and d: "pa \<le> dX d" "pb \<le> dY d" "0 < dLen d"
    by (auto simp: diag_ok_def)
  from Cons.IH [OF this(1)] d show ?case by auto
qed auto

theorem DiffBytes_edits:
  assumes "label_ok pf" "label_ok pb"
  shows "\<exists>ds. DiffBytes pf pb a b = Some ds \<and> edits a b 0 0 ds \<and> length ds \<le> length a + length b"
proof -
  let ?e = "new_editGraph pf pb a b (half maxDiffs)"
  have "\<exists>l. twosided ?e = Some l \<and> whole ?e l"
    by (rule twosided_whole) (use assms in \<open>simp_all add: geomB_def new_editGraph_def half_def maxDiffs_def\<close>)
  then obtain l where l: "twosided ?e = Some l" "chain a b 0 0 l (N_of a) (N_of b)"
    by (auto simp: new_editGraph_def)
  have "DiffBytes pf pb a b = Some (toDiffs l (N_of a) (N_of b))"
    using l(1) by (simp add: DiffBytes_def compute_def)
  moreover have "edits a b 0 0 (toDiffs l (N_of a) (N_of b))" using toDiffs_edits [OF l(2)] by (simp add: toDiffs_def)
  moreover have "length (toDiffs l (N_of a) (N_of b)) \<le> length a + length b"
    using length_toDiffs [OF l(2)] by (simp add: toDiffs_def)
  ultimately show ?thesis by blast
qed

section \<open>Properties\<close>

text \<open>C22: the diff of two byte strings always returns: no index is out of range, no explicit panic is
  reached and every loop ends, whatever earlier runs left in the pooled label tables. What it
  returns is an edit script: the inputs agree between the differences, which are in order, in range
  and no more than the two inputs have elements.\<close>

theorem diff_is_edit_script:
  assumes "label_ok pf" "label_ok pb"
  shows "\<exists>ds. DiffBytes pf pb a b = Some ds \<and> edits a b 0 0 ds \<and> length ds \<le> length a + length b"
  by (rule DiffBytes_edits [OF assms])

theorem diff_is_edit_script_witness:
  "\<exists>ds. DiffBytes [[7], [], [1, 2, 3]] [] [1, 2, 3 :: byte] [2, 4, 3] = Some ds \<and>
     edits [1, 2, 3 :: byte] [2, 4, 3] 0 0 ds \<and> length ds \<le> 6"
  using diff_is_edit_script [of "[[7], [], [1, 2, 3]]" "[]" "[1, 2, 3 :: byte]" "[2, 4, 3]"]
  by (simp add: label_ok_def less_Suc_eq numeral_eq_Suc)

text \<open>The invariant of the pooled label tables: each row is nil or has its full length. Writing a
  label on a diagonal of its level keeps it and never panics, and only that label changes.\<close>

theorem label_set_keeps_pool:
  assumes "label_ok vec" "dk D k"
  shows "\<exists>vec'. label_set vec (int D) k x = Some vec' \<and> label_ok vec' \<and>
    label_get vec' (int D) k = Some x \<and>
    (\<forall>D' k' y. dk D' k' \<and> (D', k') \<noteq> (D, k) \<and> label_get vec (int D') k' = Some y \<longrightarrow>
       label_get vec' (int D') k' = Some y)"
  using label_set_get [OF assms] by metis

theorem label_set_keeps_pool_witness:
  "\<exists>vec'. label_set [[5]] (int 1) (- 1) 9 = Some vec' \<and> label_ok vec' \<and>
    label_get vec' (int 1) (- 1) = Some 9 \<and> label_get vec' 0 0 = Some 5"
proof -
  have "label_ok [[5]]" "dk 1 (- 1)" by (simp_all add: label_ok_def dk_def)
  from label_set_keeps_pool [OF this, of 9] obtain vec' where v: "label_set [[5]] (int 1) (- 1) 9 = Some vec'"
    "label_ok vec'" "label_get vec' (int 1) (- 1) = Some 9"
    "\<And>D' k' y. dk D' k' \<and> (D', k') \<noteq> (1, - 1) \<and> label_get [[5]] (int D') k' = Some y \<Longrightarrow>
       label_get vec' (int D') k' = Some y" by blast
  have "label_get [[5]] (int 0) 0 = Some 5" by (simp add: label_get_def idx_def half_def)
  with v(4) [of 0 0 5] have "label_get vec' 0 0 = Some 5" by simp
  with v show ?thesis by blast
qed

end
