(* ===== verification/Patch.thy ===== *)
theory Patch
  imports Db Lcs_Diff
begin

text \<open>
  The patch package: \<open>src/internal/patch/generate.go\<close> and \<open>apply.go\<close>.

  \<open>Generate\<close> encodes the differences that \<open>DiffBytes\<close> finds; \<open>Apply\<close> replays them. \<open>Apply\<close>
  returns what it has rebuilt together with the error, as the source does, and \<open>Inl GoPanic\<close> where
  a slice expression is out of range. \<open>edits\<close> says what a list of differences must satisfy; the
  round trip holds for every such list.
\<close>

section \<open>Generate\<close>

fun Generate_loop :: "bytes \<Rightarrow> Diff list \<Rightarrow> bytes \<Rightarrow> bytes result" where
  "Generate_loop b [] patch = Inr patch"
| "Generate_loop b (diff # diffs) patch =
     (let patch1 = AppendUvarint patch (word_of_int (Start diff));
          patch2 = AppendUvarint patch1 (word_of_int (End diff));
          patch3 = AppendUvarint patch2 (word_of_int (ReplEnd diff - ReplStart diff)) in
      case subslice b (ReplStart diff) (ReplEnd diff) of
        None \<Rightarrow> Inl GoPanic
      | Some repl \<Rightarrow> Generate_loop b diffs (patch3 @ repl))"

definition Generate :: "'x env_scheme \<Rightarrow> bytes \<Rightarrow> bytes \<Rightarrow> bytes \<Rightarrow> bytes result" where
  "Generate env a b patch =
     (case DiffBytes (pool_f env) (pool_b env) a b of
        None \<Rightarrow> Inl GoPanic
      | Some diffs \<Rightarrow>
          let patch1 = AppendUvarint patch (of_nat (length b));
              patch2 = AppendUvarint patch1 (of_nat (length diffs)) in
          Generate_loop b diffs patch2)"

section \<open>Apply\<close>

definition readUvarint :: "bytes \<Rightarrow> (int \<times> bytes) result" where
  "readUvarint r = bindE (ReadUvarint r) (\<lambda>(i64, r1). Inr (sint i64, r1))"

text \<open>\<open>bytes.Buffer.Next\<close>: at most what is left; a negative count panics.\<close>

definition buf_Next :: "bytes \<Rightarrow> int \<Rightarrow> (bytes \<times> bytes) option" where
  "buf_Next r n = (if n < 0 then None else Some (take (nat n) r, drop (nat n) r))"

text \<open>The body of the loop reads one difference. \<open>Inl\<close> is an early return with its error (or a
  panic), \<open>Inr\<close> the state of the next iteration: the buffer, \<open>prev\<close> and \<open>b\<close>.\<close>

datatype apply_exit = Corrupt slice | Panic

definition Apply_body :: "bytes \<Rightarrow> bytes \<Rightarrow> int \<Rightarrow> slice \<Rightarrow> apply_exit + (bytes \<times> int \<times> slice)" where
  "Apply_body a r prev b =
     (case readUvarint r of Inl _ \<Rightarrow> Inl (Corrupt b) | Inr (start, r1) \<Rightarrow>
      if int (length a) < start then Inl (Corrupt b) else
      case readUvarint r1 of Inl _ \<Rightarrow> Inl (Corrupt b) | Inr (stop, r2) \<Rightarrow>
      if int (length a) < stop then Inl (Corrupt b) else
      case readUvarint r2 of Inl _ \<Rightarrow> Inl (Corrupt b) | Inr (diff, r3) \<Rightarrow>
      case subslice a prev start of None \<Rightarrow> Inl Panic | Some pre \<Rightarrow>
      case buf_Next r3 diff of None \<Rightarrow> Inl Panic | Some (repl, r4) \<Rightarrow>
      Inr (r4, stop, go_append (go_append b pre) repl))"

fun Apply_loop :: "nat \<Rightarrow> bytes \<Rightarrow> bytes \<Rightarrow> int \<Rightarrow> slice \<Rightarrow> apply_exit + (int \<times> slice)" where
  "Apply_loop 0 a r prev b = Inr (prev, b)"
| "Apply_loop (Suc n) a r prev b =
     bindE (Apply_body a r prev b) (\<lambda>(r1, prev1, b1). Apply_loop n a r1 prev1 b1)"

definition Apply :: "bytes \<Rightarrow> bytes \<Rightarrow> slice \<Rightarrow> (slice \<times> error option) result" where
  "Apply a patch b =
     (case readUvarint patch of Inl _ \<Rightarrow> Inr (b, Some ErrCorrupt) | Inr (sz, r1) \<Rightarrow>
      case readUvarint r1 of Inl _ \<Rightarrow> Inr (b, Some ErrCorrupt) | Inr (cnt, r2) \<Rightarrow>
      case Apply_loop (nat cnt) a r2 0 (map_option (\<lambda>_. []) b) of
        Inl Panic \<Rightarrow> Inl GoPanic
      | Inl (Corrupt b1) \<Rightarrow> Inr (b1, Some ErrCorrupt)
      | Inr (prev, b1) \<Rightarrow>
          (case subslice a prev (int (length a)) of None \<Rightarrow> Inl GoPanic | Some rest \<Rightarrow>
           let b2 = go_append b1 rest in
           if sz \<noteq> int (length (sl b2)) then Inr (b2, Some ErrCorrupt) else Inr (b2, None)))"

section \<open>Edit scripts\<close>

definition enc_diff :: "bytes \<Rightarrow> Diff \<Rightarrow> bytes" where
  "enc_diff b d = uvarint (word_of_int (Start d)) @ uvarint (word_of_int (End d))
     @ uvarint (word_of_int (ReplEnd d - ReplStart d))
     @ take (nat (ReplEnd d - ReplStart d)) (drop (nat (ReplStart d)) b)"

lemma Generate_loop_edits:
  "edits a b pa pb ds \<Longrightarrow> 0 \<le> pa \<Longrightarrow> 0 \<le> pb \<Longrightarrow>
     Generate_loop b ds patch = Inr (patch @ concat (map (enc_diff b) ds))"
proof (induction ds arbitrary: pa pb patch)
  case (Cons d ds)
  from Cons.prems have "edits a b (End d) (ReplEnd d) ds" "0 \<le> End d" "0 \<le> ReplEnd d"
    by auto
  note IH = Cons.IH [OF this]
  from Cons.prems show ?case
    by (simp add: subslice_eq AppendUvarint_def IH) (simp add: enc_diff_def)
qed simp

lemma readUvarint_uvarint:
  "0 \<le> i \<Longrightarrow> i < 2 ^ 63 \<Longrightarrow> readUvarint (uvarint (word_of_int i) @ r) = Inr (i, r)"
  by (simp add: readUvarint_def signed_of_int signed_take_bit_int_eq_self)

lemma Apply_body_enc:
  assumes "edits a b pa pb (d # ds)" "0 \<le> pa" "0 \<le> pb" "length a < 2 ^ 63" "length b < 2 ^ 63"
  shows "Apply_body a (enc_diff b d @ r) pa acc = Inr (r, End d,
     go_append (go_append acc (take (nat (Start d - pa)) (drop (nat pa) a)))
       (take (nat (ReplEnd d - ReplStart d)) (drop (nat (ReplStart d)) b)))"
proof -
  have m: "min (length b - nat (ReplStart d)) (nat (ReplEnd d - ReplStart d)) =
      nat (ReplEnd d - ReplStart d)" using assms by auto
  from assms show ?thesis
    by (simp add: Apply_body_def enc_diff_def readUvarint_uvarint subslice_eq buf_Next_def m
        del: of_int_diff)
qed

lemma take_drop_split:
  "0 \<le> i \<Longrightarrow> i \<le> j \<Longrightarrow> j \<le> k \<Longrightarrow> k \<le> int (length b) \<Longrightarrow>
     take (nat i) b @ take (nat (j - i)) (drop (nat i) b) @ take (nat (k - j)) (drop (nat j) b) =
     take (nat k) b"
proof -
  assume *: "0 \<le> i" "i \<le> j" "j \<le> k" "k \<le> int (length b)"
  have "nat j = nat i + nat (j - i)" "nat k = nat j + nat (k - j)" using * by auto
  then show ?thesis by (metis append.assoc take_add)
qed

lemma Apply_loop_enc:
  assumes "edits a b pa pb ds" "0 \<le> pa" "0 \<le> pb" "pb \<le> int (length b)"
    and "length a < 2 ^ 63" "length b < 2 ^ 63" "sl acc = take (nat pb) b" "pa \<le> int (length a)"
  shows "\<exists>pa' acc'. Apply_loop (length ds) a (concat (map (enc_diff b) ds) @ r) pa acc = Inr (pa', acc')
     \<and> 0 \<le> pa' \<and> pa' \<le> int (length a) \<and> sl acc' @ drop (nat pa') a = b"
  using assms
proof (induction ds arbitrary: pa pb acc)
  case Nil
  then show ?case by simp
next
  case (Cons d ds)
  let ?acc = "go_append (go_append acc (take (nat (Start d - pa)) (drop (nat pa) a)))
       (take (nat (ReplEnd d - ReplStart d)) (drop (nat (ReplStart d)) b))"
  from Cons.prems have e: "edits a b (End d) (ReplEnd d) ds" by simp
  from Cons.prems have same:
    "take (nat (Start d - pa)) (drop (nat pa) a) = take (nat (ReplStart d - pb)) (drop (nat pb) b)"
    by (metis edits.simps(2))
  have "take (nat pb) b @ take (nat (ReplStart d - pb)) (drop (nat pb) b)
      @ take (nat (ReplEnd d - ReplStart d)) (drop (nat (ReplStart d)) b) = take (nat (ReplEnd d)) b"
    using Cons.prems(1,3) by (intro take_drop_split) simp_all
  then have acc: "sl ?acc = take (nat (ReplEnd d)) b"
    by (simp only: sl_go_append same Cons.prems(7) append_assoc)
  have "\<exists>pa' acc'. Apply_loop (length ds) a (concat (map (enc_diff b) ds) @ r) (End d) ?acc = Inr (pa', acc')
     \<and> 0 \<le> pa' \<and> pa' \<le> int (length a) \<and> sl acc' @ drop (nat pa') a = b"
    by (rule Cons.IH [OF e _ _ _ _ _ acc]) (use Cons.prems in simp_all)
  then show ?case
    by (simp only: Apply_body_enc [OF Cons.prems(1,2,3,5,6)] list.map concat.simps append_assoc
        list.size Apply_loop.simps bindE_simps prod.case add_Suc_right add_0_right)
qed

lemma Apply_edits:
  assumes e: "edits a b 0 0 ds"
    and len: "length a < 2 ^ 63" "length b < 2 ^ 63" "length ds < 2 ^ 63"
  shows "\<exists>b'. Apply a (uvarint (of_nat (length b)) @ uvarint (of_nat (length ds))
     @ concat (map (enc_diff b) ds)) None = Inr (b', None) \<and> sl b' = b"
proof -
  have r: "n < 2 ^ 63 \<Longrightarrow> readUvarint (uvarint (of_nat n) @ xs) = Inr (int n, xs)" for n xs
    using readUvarint_uvarint [of "int n" xs] by simp
  from Apply_loop_enc [OF e, of None "[]"] len
  obtain pa' acc' where l: "Apply_loop (length ds) a (concat (map (enc_diff b) ds)) 0 None = Inr (pa', acc')"
    and p: "0 \<le> pa'" "pa' \<le> int (length a)" and b: "sl acc' @ drop (nat pa') a = b" by auto
  have "sl (go_append acc' (take (nat (int (length a) - pa')) (drop (nat pa') a))) = b"
    using p b by simp
  moreover have "length (sl acc') + length a - nat pa' = length b" using p b by auto
  ultimately show ?thesis using len l p by (simp add: Apply_def r subslice_eq)
qed

lemma Generate_edits:
  assumes "DiffBytes (pool_f env) (pool_b env) a b = Some ds" "edits a b 0 0 ds"
  shows "Generate env a b patch = Inr (patch @ uvarint (of_nat (length b))
     @ uvarint (of_nat (length ds)) @ concat (map (enc_diff b) ds))"
  using assms by (simp add: Generate_def AppendUvarint_def Generate_loop_edits [OF assms(2)])

text \<open>The invariant of the pooled label tables the diff starts from.\<close>

definition pools_ok :: "'x env_scheme \<Rightarrow> bool" where
  "pools_ok env \<longleftrightarrow> label_ok (pool_f env) \<and> label_ok (pool_b env)"

lemma pools_ok_plain [simp]: "pools_ok plain_env"
  by (simp add: pools_ok_def label_ok_def)

lemma Generate_Apply:
  assumes "pools_ok env" "length a < 2 ^ 62" "length b < 2 ^ 62"
  shows "\<exists>p b'. Generate env a b patch = Inr (patch @ p) \<and> Apply a p None = Inr (b', None) \<and> sl b' = b"
proof -
  from DiffBytes_edits [of "pool_f env" "pool_b env" a b] assms(1) obtain ds where
    ds: "DiffBytes (pool_f env) (pool_b env) a b = Some ds" "edits a b 0 0 ds" "length ds \<le> length a + length b"
    by (auto simp: pools_ok_def)
  from Apply_edits [OF ds(2)] Generate_edits [OF ds(1,2), of patch] ds(3) assms(2,3) show ?thesis by auto
qed

section \<open>Properties\<close>

text \<open>C23: a patch always exists and inverts: for all byte strings \<open>a\<close> and \<open>b\<close>, \<open>Generate\<close> returns a patch,
  and \<open>Apply\<close> of that patch to \<open>a\<close> succeeds and gives \<open>b\<close> back.\<close>

theorem patch_roundtrip:
  assumes "pools_ok env" "length a < 2 ^ 62" "length b < 2 ^ 62"
  shows "\<exists>p b'. Generate env a b [] = Inr p \<and> Apply a p None = Inr (b', None) \<and> sl b' = b"
  using Generate_Apply [OF assms, of "[]"] by simp

theorem patch_roundtrip_witness:
  "\<exists>p b'. Generate plain_env [1, 2, 3] [1, 5, 3, 4] [] = Inr p \<and>
     Apply [1, 2, 3] p None = Inr (b', None) \<and> sl b' = [1, 5, 3, 4]"
  by (rule patch_roundtrip) simp_all

end
