(* ===== verification/Kv.thy ===== *)
theory Kv
  imports Patch
begin

text \<open>
  \<open>src/kv.go\<close>: the record stored for each revision of a key (\<open>kv\<close>), the packed revision number
  (\<open>keyrev\<close>), the record stored under each key (\<open>keyrecord\<close>) and the event (\<open>kvEvent\<close>), with their
  encodings.

  \<open>kv.val\<close> is a \<open>slice\<close>: whether the next value of a key is nil decides how a value is encoded and
  decoded. The decoders return the record filled so far together with the error, as the source
  does; \<open>Inl\<close> is a run-time panic.
\<close>

section \<open>keyrev\<close>

type_synonym keyrev = u64

definition revMaskLower :: u64 where "revMaskLower = drop_bit 54 (- 1)"
definition revMaskDelete :: u64 where "revMaskDelete = 2"

definition newkeyrev :: "u64 \<Rightarrow> u64 \<Rightarrow> bool \<Rightarrow> keyrev" where
  "newkeyrev upper lower isdel =
     (let a = push_bit 12 upper + push_bit 2 lower in if isdel then a OR revMaskDelete else a)"

definition invert :: "keyrev \<Rightarrow> keyrev" where "invert kr = - 1 - kr"
definition upper :: "keyrev \<Rightarrow> u64" where "upper kr = drop_bit 12 kr"
definition lower :: "keyrev \<Rightarrow> u64" where "lower kr = drop_bit 2 kr AND revMaskLower"
definition isdel :: "keyrev \<Rightarrow> bool" where "isdel kr \<longleftrightarrow> 0 < kr AND revMaskDelete"
definition keyrev_appendbytes :: "keyrev \<Rightarrow> bytes \<Rightarrow> bytes" where
  "keyrev_appendbytes kr buf = buf @ be64 kr"
definition keyrev_key :: "keyrev \<Rightarrow> bytes" where "keyrev_key kr = keyrev_appendbytes kr []"

text \<open>The test that opens every decoder: long enough, and the checksum is right.\<close>

definition checkSum :: "nat \<Rightarrow> bytes \<Rightarrow> bytes \<Rightarrow> error option" where
  "checkSum n key buf =
     (if length buf < n then Some ErrChecksumMissing
      else if Uint32 (drop (length buf - 4) buf) \<noteq> crc key (take (length buf - 4) buf)
      then Some ErrChecksumInvalid
      else None)"

definition keyrev_FromBytes :: "keyrev \<Rightarrow> bytes \<Rightarrow> bytes \<Rightarrow> keyrev \<times> error option" where
  "keyrev_FromBytes kr key buf =
     (case checkSum 11 key buf of
        Some err \<Rightarrow> (kr, Some err)
      | None \<Rightarrow> (invert (Uint64 (take 8 buf)), None))"

text \<open>\<open>Uint64(key)\<close> panics on a key of fewer than eight bytes.\<close>

definition keyrev_FromKey :: "keyrev \<Rightarrow> bytes \<Rightarrow> bytes \<Rightarrow> (keyrev \<times> error option) result" where
  "keyrev_FromKey kr key buf =
     (case checkSum 4 key buf of
        Some err \<Rightarrow> Inr (kr, Some err)
      | None \<Rightarrow> if length key < 8 then Inl GoPanic else Inr (Uint64 key, None))"

definition keyrev_Bytes :: "keyrev \<Rightarrow> bytes \<Rightarrow> bytes \<Rightarrow> bytes" where
  "keyrev_Bytes kr key buf =
     (let buf1 = keyrev_appendbytes (invert kr) buf in buf1 @ be32 (crc key buf1))"

section \<open>kv\<close>

record kv =
  kv_rev :: keyrev
  kv_version :: u64
  kv_created :: u64
  kv_lease :: u64
  kv_flags :: u8
  kv_key :: bytes
  kv_val :: slice

definition kv_zero :: kv where
  "kv_zero = \<lparr>kv_rev = 0, kv_version = 0, kv_created = 0, kv_lease = 0, kv_flags = 0,
     kv_key = [], kv_val = None\<rparr>"

text \<open>The two optional transformations of the value in \<open>Bytes\<close>.\<close>

definition kv_patch :: "'x env_scheme \<Rightarrow> slice \<Rightarrow> kv \<Rightarrow> kv result" where
  "kv_patch env next kv =
     (case next of
        Some nx \<Rightarrow>
          if PCB_PATCH_ENABLED env then
            bindE (Generate env nx (sl (kv_val kv)) []) (\<lambda>p.
            if length p < length (sl (kv_val kv))
            then Inr (kv\<lparr>kv_val := Some p, kv_flags := kv_flags kv OR KV_FLAG_PATCH\<rparr>)
            else Inr kv)
          else Inr kv
      | None \<Rightarrow> Inr kv)"

definition kv_compress :: "'x env_scheme \<Rightarrow> kv \<Rightarrow> kv" where
  "kv_compress env kv =
     (if PCB_COMPRESSION_ENABLED env \<and> 16 < length (sl (kv_val kv)) then
        let p = snappy_Encode env (sl (kv_val kv)) in
        if length p < length (sl (kv_val kv))
        then kv\<lparr>kv_val := Some p, kv_flags := kv_flags kv OR KV_FLAG_COMPRESSED\<rparr>
        else kv
      else kv)"

definition kv_Bytes :: "'x env_scheme \<Rightarrow> kv \<Rightarrow> slice \<Rightarrow> bytes \<Rightarrow> bytes result" where
  "kv_Bytes env kv next buf =
     (let buf1 = AppendUvarint buf (of_nat (length (kv_key kv))) @ kv_key kv in
      bindE
        (if \<not> isdel (kv_rev kv) then
           (let buf2 = AppendUvarint buf1 (kv_created kv);
                buf3 = AppendUvarint buf2 (kv_version kv);
                buf4 = AppendUvarint buf3 (kv_lease kv) in
            bindE (kv_patch env next (kv\<lparr>kv_flags := 0\<rparr>)) (\<lambda>kv1.
            let kv2 = kv_compress env kv1 in
            Inr (buf4 @ [kv_flags kv2] @ sl (kv_val kv2))))
         else Inr buf1)
        (\<lambda>buf5. Inr (buf5 @ be32 (crc (keyrev_key (kv_rev kv)) buf5))))"

text \<open>\<open>FromBytes\<close> in three parts: the value, the numbers, the whole.\<close>

definition kv_FromBytes_patch :: "kv \<Rightarrow> slice \<Rightarrow> (kv \<times> error option) result" where
  "kv_FromBytes_patch kv next =
     (if 0 < kv_flags kv AND KV_FLAG_PATCH then
        (case next of
           None \<Rightarrow> Inr (kv, Some ErrPatchInvalid)
         | Some nx \<Rightarrow> bindE (Apply nx (sl (kv_val kv)) None) (\<lambda>(v, err). Inr (kv\<lparr>kv_val := v\<rparr>, err)))
      else Inr (kv, None))"

definition kv_FromBytes_val :: "'x env_scheme \<Rightarrow> kv \<Rightarrow> bytes \<Rightarrow> slice \<Rightarrow> (kv \<times> error option) result" where
  "kv_FromBytes_val env kv r next =
     (if 0 < kv_flags kv AND KV_FLAG_COMPRESSED then
        (case snappy_Decode env r of
           None \<Rightarrow> Inr (kv\<lparr>kv_val := None\<rparr>, Some ErrSnappyCorrupt)
         | Some v \<Rightarrow> kv_FromBytes_patch (kv\<lparr>kv_val := Some v\<rparr>) next)
      else kv_FromBytes_patch (kv\<lparr>kv_val := Some r\<rparr>) next)"

definition kv_FromBytes_rest ::
    "'x env_scheme \<Rightarrow> kv \<Rightarrow> bytes \<Rightarrow> slice \<Rightarrow> bool \<Rightarrow> (kv \<times> error option) result" where
  "kv_FromBytes_rest env kv r next noval =
     (case ReadUvarint r of Inl err \<Rightarrow> Inr (kv\<lparr>kv_created := 0\<rparr>, Some err) | Inr (created, r1) \<Rightarrow>
      let kv1 = kv\<lparr>kv_created := created\<rparr> in
      case ReadUvarint r1 of Inl err \<Rightarrow> Inr (kv1\<lparr>kv_version := 0\<rparr>, Some err) | Inr (version, r2) \<Rightarrow>
      let kv2 = kv1\<lparr>kv_version := version\<rparr> in
      case ReadUvarint r2 of Inl err \<Rightarrow> Inr (kv2\<lparr>kv_lease := 0\<rparr>, Some err) | Inr (lease, r3) \<Rightarrow>
      let kv3 = kv2\<lparr>kv_lease := lease\<rparr> in
      case r3 of [] \<Rightarrow> Inr (kv3\<lparr>kv_flags := 0\<rparr>, Some ErrEOF) | flags # r4 \<Rightarrow>
      let kv4 = kv3\<lparr>kv_flags := flags\<rparr> in
      if \<not> noval then kv_FromBytes_val env kv4 r4 next else Inr (kv4, None))"

definition kv_FromBytes ::
    "'x env_scheme \<Rightarrow> kv \<Rightarrow> bytes \<Rightarrow> bytes \<Rightarrow> slice \<Rightarrow> bool \<Rightarrow> (kv \<times> error option) result" where
  "kv_FromBytes env kv revKey buf next noval =
     (case checkSum 11 revKey buf of
        Some err \<Rightarrow> Inr (kv, Some err)
      | None \<Rightarrow>
          if length revKey < 8 then Inl GoPanic else
          let kv1 = kv\<lparr>kv_rev := Uint64 revKey\<rparr> in
          if isdel (kv_rev kv1) then Inr (kv1, None) else
          let (keylen, n) = Uvarint buf in
          (case subslice buf n (n + sint keylen) of None \<Rightarrow> Inl GoPanic | Some key \<Rightarrow>
           case subslice buf (n + sint keylen) (int (length buf) - 4) of None \<Rightarrow> Inl GoPanic | Some r \<Rightarrow>
           kv_FromBytes_rest env (kv1\<lparr>kv_key := key\<rparr>) r next noval))"

record KeyValue =
  KeyValue_CreateRevision :: i64
  KeyValue_ModRevision :: i64
  KeyValue_Version :: i64
  KeyValue_Lease :: i64
  KeyValue_Key :: bytes
  KeyValue_Value :: bytes

definition ToProto :: "kv \<Rightarrow> KeyValue" where
  "ToProto kv = \<lparr>KeyValue_CreateRevision = kv_created kv, KeyValue_ModRevision = upper (kv_rev kv),
     KeyValue_Version = kv_version kv, KeyValue_Lease = kv_lease kv,
     KeyValue_Key = kv_key kv, KeyValue_Value = sl (kv_val kv)\<rparr>"

section \<open>keyrecord and kvEvent\<close>

record keyrecord =
  krec_key :: bytes
  krec_rev :: keyrev
  krec_lease :: u64

definition krec_zero :: keyrecord where
  "krec_zero = \<lparr>krec_key = [], krec_rev = 0, krec_lease = 0\<rparr>"

definition keyrecord_FromBytes :: "keyrecord \<Rightarrow> bytes \<Rightarrow> bytes \<Rightarrow> keyrecord \<times> error option" where
  "keyrecord_FromBytes kr key buf =
     (case checkSum 11 key buf of
        Some err \<Rightarrow> (kr, Some err)
      | None \<Rightarrow>
          let kr1 = kr\<lparr>krec_rev := invert (Uint64 (take 8 buf)), krec_key := key\<rparr> in
          if \<not> isdel (krec_rev kr1) then (kr1\<lparr>krec_lease := fst (Uvarint (drop 8 buf))\<rparr>, None)
          else (kr1, None))"

definition keyrecord_Bytes :: "keyrecord \<Rightarrow> bytes \<Rightarrow> bytes" where
  "keyrecord_Bytes kr buf =
     (let buf1 = keyrev_appendbytes (invert (krec_rev kr)) buf;
          buf2 = (if \<not> isdel (krec_rev kr) then AppendUvarint buf1 (krec_lease kr) else buf1) in
      buf2 @ be32 (crc (krec_key kr) buf2))"

record kvEvent =
  evt_epoch :: u64
  evt_key :: bytes
  evt_rev :: keyrev

definition etype :: "kvEvent \<Rightarrow> u8" where
  "etype e = (if isdel (evt_rev e) then 1 else 0)"

section \<open>Packed revisions\<close>

text \<open>A revision and a subrevision that fit the 52 and 10 bits reserved for them.\<close>

definition rev_fits :: "u64 \<Rightarrow> u64 \<Rightarrow> bool" where
  "rev_fits u l \<longleftrightarrow> unat u < 2 ^ 52 \<and> unat l < 2 ^ 10"

lemma rev_word_arith:
  assumes "rev_fits u l"
  shows "unat (push_bit 12 u + push_bit 2 l :: u64) = unat u * 4096 + unat l * 4"
proof -
  have u: "unat (push_bit 12 u) = unat u * 4096"
    using assms unat_mult_lem [of u "4096 :: u64"] by (simp add: rev_fits_def push_bit_eq_mult)
  have l: "unat (push_bit 2 l) = unat l * 4"
    using assms unat_mult_lem [of l "4 :: u64"] by (simp add: rev_fits_def push_bit_eq_mult)
  show ?thesis using assms by (subst unat_add_lem [THEN iffD1]) (auto simp: u l rev_fits_def)
qed

lemma bit_1_odd: "bit (a :: u64) 1 \<longleftrightarrow> odd (unat a div 2)"
proof -
  have "bit (unat a) 1 = bit a 1" by (simp add: bit_unsigned_iff)
  then show ?thesis by (simp add: bit_iff_odd [of "unat a"])
qed

lemma and_2_eq_0: "(a :: u64) AND 2 = 0 \<longleftrightarrow> \<not> bit a 1"
proof
  assume "a AND 2 = 0"
  moreover have "bit (a AND 2) 1 = bit a 1" by (simp add: bit_and_iff bit_2_iff)
  ultimately show "\<not> bit a 1" by simp
qed (auto intro!: bit_word_eqI simp: bit_and_iff bit_2_iff)

lemma or_disjoint_2: "bit a 1 = False \<Longrightarrow> (a :: u64) OR 2 = a + 2"
proof -
  assume "bit a 1 = False"
  then have "a AND 2 = 0" by (simp add: and_2_eq_0)
  then show ?thesis by (simp add: disjunctive_add_eq_or)
qed

lemma unat_newkeyrev:
  assumes "rev_fits u l"
  shows "unat (newkeyrev u l d) = unat u * 4096 + unat l * 4 + (if d then 2 else 0)"
proof -
  let ?a = "push_bit 12 u + push_bit 2 l :: u64"
  note a = rev_word_arith [OF assms]
  have "bit ?a 1 = odd (unat ?a div 2)"
    by (rule bit_1_odd)
  also have "\<dots> = False" unfolding a by simp
  finally have "?a OR 2 = ?a + 2" by (rule or_disjoint_2)
  moreover have "unat (?a + 2) = unat ?a + 2"
    using a assms by (subst unat_add_lem [THEN iffD1]) (auto simp: rev_fits_def)
  ultimately show ?thesis using a by (simp add: newkeyrev_def revMaskDelete_def)
qed

lemma unat_upper: "unat (upper kr) = unat kr div 4096"
  by (simp add: upper_def drop_bit_eq_div unat_div)

lemma upper_newkeyrev: "rev_fits u l \<Longrightarrow> upper (newkeyrev u l d) = u"
  by (rule unsigned_word_eqI [where ?'a = nat]) (auto simp: unat_upper unat_newkeyrev rev_fits_def)

lemma revMaskLower_eq: "revMaskLower = mask 10"
  by (simp add: revMaskLower_def mask_eq_exp_minus_1)

lemma unat_lower: "unat (lower kr) = unat kr div 4 mod 1024"
  by (simp add: lower_def revMaskLower_eq drop_bit_eq_div flip: take_bit_eq_mask)
    (simp add: take_bit_eq_mod unat_mod unat_div)

lemma lower_newkeyrev: "rev_fits u l \<Longrightarrow> lower (newkeyrev u l d) = l"
proof (rule unsigned_word_eqI [where ?'a = nat])
  assume "rev_fits u l"
  moreover have "m < 1024 \<Longrightarrow> d \<le> 2 \<Longrightarrow> (n * 4096 + m * 4 + d) div 4 mod 1024 = m" for n m d :: nat
  proof -
    assume "m < 1024" "d \<le> 2"
    then have "(n * 4096 + m * 4 + d) div 4 = m + n * 1024" by linarith
    then show ?thesis using \<open>m < 1024\<close> by (simp only: mod_mult_self1) simp
  qed
  ultimately show "unat (lower (newkeyrev u l d)) = unat l"
    by (simp only: unat_lower unat_newkeyrev) (auto simp: rev_fits_def)
qed

lemma isdel_odd: "isdel kr \<longleftrightarrow> odd (unat kr div 2)"
  by (simp add: isdel_def revMaskDelete_def bit_1_odd and_2_eq_0 flip: word_neq_0_conv One_nat_def)

lemma isdel_newkeyrev: "rev_fits u l \<Longrightarrow> isdel (newkeyrev u l d) = d"
  by (simp add: isdel_odd unat_newkeyrev)

lemma packed_less:
  fixes l l' :: nat
  assumes "l < 1024" "l' < 1024" "d \<le> 2" "d' \<le> 2"
  shows "u * 4096 + l * 4 + d < u' * 4096 + l' * 4 + d' \<longleftrightarrow>
    u < u' \<or> u = u' \<and> (l < l' \<or> l = l' \<and> d < d')"
  using assms by linarith

lemma newkeyrev_less:
  assumes "rev_fits u l" "rev_fits u' l'"
  shows "newkeyrev u l d < newkeyrev u' l' d' \<longleftrightarrow> u < u' \<or> u = u' \<and> (l < l' \<or> l = l' \<and> \<not> d \<and> d')"
proof -
  have "newkeyrev u l d < newkeyrev u' l' d' \<longleftrightarrow>
      unat u * 4096 + unat l * 4 + (if d then 2 else 0) < unat u' * 4096 + unat l' * 4 + (if d' then 2 else 0)"
    using assms by (simp only: word_less_nat_alt unat_newkeyrev)
  also have "\<dots> \<longleftrightarrow> unat u < unat u' \<or> unat u = unat u' \<and>
      (unat l < unat l' \<or> unat l = unat l' \<and> \<not> d \<and> d')"
    using assms by (subst packed_less) (auto simp: rev_fits_def)
  finally show ?thesis
    by (simp only: word_less_nat_alt word_eq_iff_unsigned [where ?'a = nat])
qed

lemma invert_invert [simp]: "invert (invert kr) = kr" by (simp add: invert_def)

lemma unat_invert: "unat (invert kr) = 2 ^ 64 - 1 - unat kr"
  by (simp add: invert_def unat_sub unsigned_minus_1_eq_mask mask_eq_exp_minus_1)

lemma invert_less: "invert a < invert b \<longleftrightarrow> b < a"
  using unat_u64_bound [of a] unat_u64_bound [of b]
  unfolding word_less_nat_alt unat_invert by linarith

lemma invert_eq [simp]: "invert a = invert b \<longleftrightarrow> a = b"
  by (metis invert_invert)

lemma newkeyrev_carry: "newkeyrev u 1024 d = newkeyrev (u + 1) 0 d"
  by (simp add: newkeyrev_def push_bit_add push_bit_eq_mult algebra_simps)

section \<open>Round trips\<close>

lemma checkSum_append [simp, codec_simps]:
  "n \<le> length buf + 4 \<Longrightarrow> checkSum n key (buf @ be32 (crc key buf)) = None"
  by (simp add: checkSum_def)

lemma keyrev_key_eq [simp, codec_simps]: "keyrev_key kr = be64 kr"
  by (simp add: keyrev_key_def keyrev_appendbytes_def)

lemma keyrev_FromBytes_Bytes [codec_simps]: "keyrev_FromBytes kr0 key (keyrev_Bytes kr key []) = (kr, None)"
  by (simp add: keyrev_FromBytes_def keyrev_Bytes_def keyrev_appendbytes_def Let_def)

lemma keyrecord_FromBytes_Bytes [codec_simps]:
  "krec_key kr = key \<Longrightarrow> keyrecord_FromBytes kr0 key (keyrecord_Bytes kr []) =
     (kr\<lparr>krec_lease := if isdel (krec_rev kr) then krec_lease kr0 else krec_lease kr\<rparr>, None)"
  by (auto simp: keyrecord_FromBytes_def keyrecord_Bytes_def keyrev_appendbytes_def Let_def
      AppendUvarint_def simp flip: append_assoc)

text \<open>What the value encoding relies on: snappy decodes what it encoded, and a patch applied to the
  value it was made against gives the other value back.\<close>

definition snappy_ok :: "'x env_scheme \<Rightarrow> bool" where
  "snappy_ok env \<longleftrightarrow> (\<forall>b. snappy_Decode env (snappy_Encode env b) = Some b)"

definition patch_inverse :: "'x env_scheme \<Rightarrow> bytes \<Rightarrow> bytes \<Rightarrow> bool" where
  "patch_inverse env a b \<longleftrightarrow>
     (\<forall>p. Generate env a b [] = Inr p \<longrightarrow> (\<exists>b'. Apply a p None = Inr (b', None) \<and> sl b' = b))"

lemma patch_inverse_pools:
  "pools_ok env \<Longrightarrow> length a < 2 ^ 62 \<Longrightarrow> length b < 2 ^ 62 \<Longrightarrow> patch_inverse env a b"
  using Generate_Apply [of env a b "[]"] by (auto simp: patch_inverse_def)

text \<open>The four encodings of a value, by the flags they set.\<close>

definition enc_val :: "'x env_scheme \<Rightarrow> slice \<Rightarrow> bytes \<Rightarrow> (u8 \<times> bytes) result" where
  "enc_val env next v =
     bindE (case next of None \<Rightarrow> Inr (0, v)
            | Some nx \<Rightarrow> if PCB_PATCH_ENABLED env
                then bindE (Generate env nx v []) (\<lambda>p. Inr (if length p < length v then (1, p) else (0, v)))
                else Inr (0, v))
       (\<lambda>(f, w). Inr (if PCB_COMPRESSION_ENABLED env \<and> 16 < length w
                        \<and> length (snappy_Encode env w) < length w
                      then (f OR 2, snappy_Encode env w) else (f, w)))"

lemma enc_val_ok:
  assumes "pools_ok env" "length (sl next) < 2 ^ 62" "length v < 2 ^ 62"
  shows "\<exists>f w. enc_val env next v = Inr (f, w) \<and> length w \<le> length v"
proof -
  have "\<exists>f w. (case next of None \<Rightarrow> Inr (0, v)
            | Some nx \<Rightarrow> if PCB_PATCH_ENABLED env
                then bindE (Generate env nx v []) (\<lambda>p. Inr (if length p < length v then (1, p) else (0, v)))
                else Inr (0, v)) = Inr (f :: u8, w) \<and> length w \<le> length v"
    using Generate_Apply [OF assms(1), of "the next" v "[]"] assms(2,3) by (cases "next") auto
  then obtain f w where "(case next of None \<Rightarrow> Inr (0, v)
            | Some nx \<Rightarrow> if PCB_PATCH_ENABLED env
                then bindE (Generate env nx v []) (\<lambda>p. Inr (if length p < length v then (1, p) else (0, v)))
                else Inr (0, v)) = Inr (f :: u8, w)" "length w \<le> length v" by blast
  then show ?thesis unfolding enc_val_def by auto
qed

lemma kv_enc_val:
  "bindE (kv_patch env next (kv\<lparr>kv_flags := 0\<rparr>)) (\<lambda>kv1. let kv2 = kv_compress env kv1 in
      Inr (buf @ [kv_flags kv2] @ sl (kv_val kv2))) =
   bindE (enc_val env next (sl (kv_val kv))) (\<lambda>(f, w). Inr (buf @ [f] @ w))"
  by (cases "Generate env (the next) (sl (kv_val kv)) []")
    (auto simp: kv_patch_def kv_compress_def enc_val_def Let_def KV_FLAG_PATCH_def
      KV_FLAG_COMPRESSED_def split: option.splits)

lemma kv_Bytes_put:
  assumes "\<not> isdel (kv_rev kv)"
  shows "kv_Bytes env kv next [] =
    bindE (enc_val env next (sl (kv_val kv))) (\<lambda>(f, w).
      let buf = uvarint (of_nat (length (kv_key kv))) @ kv_key kv @ uvarint (kv_created kv)
            @ uvarint (kv_version kv) @ uvarint (kv_lease kv) @ [f] @ w in
      Inr (buf @ be32 (crc (be64 (kv_rev kv)) buf)))"
proof -
  have *: "bindE (case x of (f, w) \<Rightarrow> Inr (b f w)) g = (case x of (f, w) \<Rightarrow> g (b f w))"
    for x :: "u8 \<times> bytes" and b :: "u8 \<Rightarrow> bytes \<Rightarrow> bytes" and g :: "bytes \<Rightarrow> bytes result"
    by (cases x) simp
  show ?thesis
    using assms unfolding kv_Bytes_def Let_def
    by (simp only: if_True simp_thms kv_enc_val [unfolded Let_def] bindE_assoc * keyrev_key_eq)
       (simp add: AppendUvarint_def)
qed

lemma kv_Bytes_del:
  assumes "isdel (kv_rev kv)"
  shows "kv_Bytes env kv next [] = (let buf = uvarint (of_nat (length (kv_key kv))) @ kv_key kv in
      Inr (buf @ be32 (crc (be64 (kv_rev kv)) buf)))"
  using assms by (simp add: kv_Bytes_def AppendUvarint_def Let_def)

text \<open>A value is decoded against the next value it was encoded against; a value encoded without
  one is decoded whatever the reader passes.\<close>

lemma dec_enc_val:
  assumes sn: "snappy_ok env" and enc: "enc_val env next v = Inr (f, w)"
    and inv: "\<And>nx. next = Some nx \<Longrightarrow> patch_inverse env nx v"
    and nx: "next' = next \<or> next = None" and fl: "kv_flags kv = f"
  shows "kv_FromBytes_val env kv w next' = Inr (kv\<lparr>kv_val := Some v\<rparr>, None)"
proof -
  from enc obtain g u where g: "(case next of None \<Rightarrow> Inr (0, v)
            | Some nx \<Rightarrow> if PCB_PATCH_ENABLED env
                then bindE (Generate env nx v []) (\<lambda>p. Inr (if length p < length v then (1, p) else (0, v)))
                else Inr (0, v)) = Inr (g, u)"
    and f: "f = g \<and> w = u \<or> f = g OR 2 \<and> w = snappy_Encode env u"
    unfolding enc_val_def by (auto simp: bindE_Inr_iff split: if_splits)
  have patch: "kv_FromBytes_patch (kv\<lparr>kv_val := Some u\<rparr>) next' = Inr (kv\<lparr>kv_val := Some v\<rparr>, None)"
    if "0 < kv_flags kv AND 1 \<longleftrightarrow> g = 1"
  proof (cases "next")
    case None
    with g that show ?thesis by (simp add: kv_FromBytes_patch_def KV_FLAG_PATCH_def)
  next
    case (Some n)
    show ?thesis
    proof (cases "g = 1")
      case False
      with g that Some show ?thesis
        by (auto simp: kv_FromBytes_patch_def KV_FLAG_PATCH_def bindE_Inr_iff split: if_splits)
    next
      case True
      with g Some have G: "Generate env n v [] = Inr u" "length u < length v"
        by (auto simp: bindE_Inr_iff split: if_splits)
      with inv [OF Some] obtain b' where b': "Apply n u None = Inr (b', None)" "sl b' = v"
        by (auto simp: patch_inverse_def)
      with G have "b' = Some v" by (cases b') auto
      with b' True that Some nx show ?thesis by (simp add: kv_FromBytes_patch_def KV_FLAG_PATCH_def)
    qed
  qed
  have "g = 0 \<or> g = 1" using g by (auto simp: bindE_Inr_iff split: option.splits if_splits)
  with f patch fl sn show ?thesis
    by (auto simp: kv_FromBytes_val_def KV_FLAG_COMPRESSED_def snappy_ok_def)
qed

lemma sint_of_nat_small: "n < 2 ^ 63 \<Longrightarrow> sint (of_nat n :: u64) = int n"
  by (simp add: signed_of_nat signed_take_bit_int_eq_self)

lemma kv_FromBytes_put:
  assumes del: "\<not> isdel (kv_rev kv)" and key: "length (kv_key kv) < 2 ^ 63"
    and buf: "buf = uvarint (of_nat (length (kv_key kv))) @ kv_key kv @ uvarint (kv_created kv)
            @ uvarint (kv_version kv) @ uvarint (kv_lease kv) @ [f] @ w"
    and len: "11 \<le> length buf + 4"
  shows "kv_FromBytes env kv0 (be64 (kv_rev kv)) (buf @ be32 (crc (be64 (kv_rev kv)) buf)) next noval =
    (let kv1 = kv0\<lparr>kv_rev := kv_rev kv, kv_key := kv_key kv, kv_created := kv_created kv,
            kv_version := kv_version kv, kv_lease := kv_lease kv, kv_flags := f\<rparr> in
     if noval then Inr (kv1, None) else kv_FromBytes_val env kv1 w next)"
proof -
  let ?n = "int (length (uvarint (of_nat (length (kv_key kv)))))"
  let ?c = "be32 (crc (be64 (kv_rev kv)) buf)"
  let ?r = "uvarint (kv_created kv) @ uvarint (kv_version kv) @ uvarint (kv_lease kv) @ [f] @ w"
  have u: "Uvarint (buf @ ?c) = (of_nat (length (kv_key kv)), ?n)" by (simp add: buf)
  have k: "subslice (buf @ ?c) ?n (?n + int (length (kv_key kv))) = Some (kv_key kv)"
    by (simp add: subslice_def buf)
  have r: "subslice (buf @ ?c) (?n + int (length (kv_key kv))) (int (length (buf @ ?c)) - 4) = Some ?r"
    by (simp add: subslice_def buf nat_add_distrib)
  show ?thesis using del len key
    by (simp add: kv_FromBytes_def u k r [simplified] sint_of_nat_small kv_FromBytes_rest_def Let_def)
qed

lemma kv_FromBytes_Bytes:
  assumes sn: "snappy_ok env" and b: "kv_Bytes env kv next [] = Inr buf"
    and del: "\<not> isdel (kv_rev kv)" and len: "11 \<le> length buf" and key: "length (kv_key kv) < 2 ^ 63"
    and inv: "\<And>nx. next = Some nx \<Longrightarrow> patch_inverse env nx (sl (kv_val kv))"
    and nx: "next' = next \<or> next = None"
  shows "\<exists>f. kv_FromBytes env kv0 (keyrev_key (kv_rev kv)) buf next' False =
     Inr (kv\<lparr>kv_flags := f, kv_val := Some (sl (kv_val kv))\<rparr>, None)"
proof -
  from b obtain f w where enc: "enc_val env next (sl (kv_val kv)) = Inr (f, w)"
    and buf: "buf = (let buf = uvarint (of_nat (length (kv_key kv))) @ kv_key kv @ uvarint (kv_created kv)
            @ uvarint (kv_version kv) @ uvarint (kv_lease kv) @ [f] @ w in
      buf @ be32 (crc (be64 (kv_rev kv)) buf))"
    by (auto simp: kv_Bytes_put [OF del] bindE_Inr_iff Let_def)
  let ?kv1 = "kv0\<lparr>kv_rev := kv_rev kv, kv_key := kv_key kv, kv_created := kv_created kv,
            kv_version := kv_version kv, kv_lease := kv_lease kv, kv_flags := f\<rparr>"
  have "kv_FromBytes env kv0 (be64 (kv_rev kv)) buf next' False = kv_FromBytes_val env ?kv1 w next'"
    using len unfolding buf Let_def by (subst kv_FromBytes_put [OF del key refl]) simp_all
  also have "\<dots> = Inr (?kv1\<lparr>kv_val := Some (sl (kv_val kv))\<rparr>, None)"
    by (rule dec_enc_val [OF sn enc inv nx]) simp_all
  also have "?kv1\<lparr>kv_val := Some (sl (kv_val kv))\<rparr> = kv\<lparr>kv_flags := f, kv_val := Some (sl (kv_val kv))\<rparr>"
    by (rule kv.equality) simp_all
  finally show ?thesis by auto
qed

lemma kv_FromBytes_keys:
  assumes b: "kv_Bytes env kv next [] = Inr buf" and del: "\<not> isdel (kv_rev kv)" and len: "11 \<le> length buf"
    and key: "length (kv_key kv) < 2 ^ 63"
  shows "\<exists>f. kv_FromBytes env kv0 (be64 (kv_rev kv)) buf next' True = Inr (kv\<lparr>kv_flags := f, kv_val := kv_val kv0\<rparr>, None)"
proof -
  from b obtain f w where buf: "buf = (let buf = uvarint (of_nat (length (kv_key kv))) @ kv_key kv @ uvarint (kv_created kv)
            @ uvarint (kv_version kv) @ uvarint (kv_lease kv) @ [f] @ w in
      buf @ be32 (crc (be64 (kv_rev kv)) buf))"
    by (auto simp: kv_Bytes_put [OF del] bindE_Inr_iff Let_def)
  have "kv_FromBytes env kv0 (be64 (kv_rev kv)) buf next' True = Inr (kv0\<lparr>kv_rev := kv_rev kv, kv_key := kv_key kv,
      kv_created := kv_created kv, kv_version := kv_version kv, kv_lease := kv_lease kv, kv_flags := f\<rparr>, None)"
    using len unfolding buf Let_def by (subst kv_FromBytes_put [OF del key refl]) simp_all
  also have "kv0\<lparr>kv_rev := kv_rev kv, kv_key := kv_key kv, kv_created := kv_created kv, kv_version := kv_version kv,
      kv_lease := kv_lease kv, kv_flags := f\<rparr> = kv\<lparr>kv_flags := f, kv_val := kv_val kv0\<rparr>"
    by (rule kv.equality) simp_all
  finally show ?thesis by auto
qed

lemma kv_Bytes_ok:
  assumes "pools_ok env" "length (sl next) < 2 ^ 62" "length (sl (kv_val kv)) < 2 ^ 62"
  shows "\<exists>buf. kv_Bytes env kv next [] = Inr buf"
proof (cases "isdel (kv_rev kv)")
  case False
  with enc_val_ok [OF assms] show ?thesis by (auto simp: kv_Bytes_put Let_def)
qed (simp add: kv_Bytes_del Let_def)

lemma length_kv_Bytes:
  assumes "\<not> isdel (kv_rev kv)" "kv_Bytes env kv next [] = Inr buf"
  shows "length (kv_key kv) + 9 \<le> length buf"
proof -
  have "0 < length (uvarint x)" for x by simp
  then have u: "1 \<le> length (uvarint x)" for x by (simp add: Suc_le_eq)
  from assms obtain f w where "buf = (let buf = uvarint (of_nat (length (kv_key kv))) @ kv_key kv @ uvarint (kv_created kv)
            @ uvarint (kv_version kv) @ uvarint (kv_lease kv) @ [f] @ w in
      buf @ be32 (crc (be64 (kv_rev kv)) buf))"
    by (auto simp: kv_Bytes_put bindE_Inr_iff Let_def)
  then show ?thesis using u [of "of_nat (length (kv_key kv))"] u [of "kv_created kv"] u [of "kv_version kv"]
    u [of "kv_lease kv"] by (simp add: Let_def)
qed

section \<open>Properties\<close>

text \<open>A packed revision unpacks to the revision, the subrevision and the deletion mark it was made
  from, as long as the revision fits 52 bits and the subrevision 10.\<close>

theorem keyrev_unpack:
  assumes "rev_fits u l"
  shows "upper (newkeyrev u l d) = u \<and> lower (newkeyrev u l d) = l \<and> isdel (newkeyrev u l d) = d"
  using assms by (simp add: upper_newkeyrev lower_newkeyrev isdel_newkeyrev)

theorem keyrev_unpack_witness:
  "upper (newkeyrev 7 1023 True) = 7 \<and> lower (newkeyrev 7 1023 True) = 1023 \<and> isdel (newkeyrev 7 1023 True) = True"
  by (rule keyrev_unpack) (simp add: rev_fits_def)

text \<open>The bytes of the inverted revision, under which the records of a key are ordered, sort the
  records from the newest to the oldest, and a deletion before the write of the same revision and
  subrevision.\<close>

theorem keyrev_newest_first:
  assumes "rev_fits u l" "rev_fits u' l'"
  shows "keyrev_key (invert (newkeyrev u' l' d')) < keyrev_key (invert (newkeyrev u l d)) \<longleftrightarrow>
     u < u' \<or> u = u' \<and> (l < l' \<or> l = l' \<and> \<not> d \<and> d')"
  using newkeyrev_less [OF assms] by (simp add: be64_less invert_less)

theorem keyrev_newest_first_witness:
  "keyrev_key (invert (newkeyrev 3 0 False)) < keyrev_key (invert (newkeyrev 2 9 True))"
proof -
  have "rev_fits 2 9" "rev_fits 3 0" by (simp_all add: rev_fits_def)
  from keyrev_newest_first [OF this, of False True] show ?thesis by simp
qed

text \<open>A subrevision of 1024 carries into the revision: it packs to the first subrevision of the next
  revision. Nothing bounds the number of operations of a transaction, so its 1025th write takes a
  revision that is not its own.\<close>

theorem keyrev_carry: "newkeyrev u 1024 d = newkeyrev (u + 1) 0 d"
  by (rule newkeyrev_carry)

text \<open>A key record decodes to what was encoded; the lease of a tombstone is not stored.\<close>

theorem keyrecord_roundtrip:
  "keyrecord_FromBytes krec_zero (krec_key kr) (keyrecord_Bytes kr []) =
     (kr\<lparr>krec_lease := if isdel (krec_rev kr) then 0 else krec_lease kr\<rparr>, None)"
  by (simp add: keyrecord_FromBytes_Bytes krec_zero_def)

text \<open>C24: a value stored under a key of at least two bytes decodes to what was encoded, whatever combination of
  patching and compression the encoder chose, when the reader passes the next value it was encoded against (any,
  when there was none). A record under a shorter key can be too short for the decoder.\<close>

theorem kv_roundtrip:
  assumes "pools_ok env" "snappy_ok env" "\<not> isdel (kv_rev kv)"
    and "2 \<le> length (kv_key kv)" "length (kv_key kv) < 2 ^ 63"
    and "length (sl (kv_val kv)) < 2 ^ 62" "length (sl next) < 2 ^ 62"
    and "next' = next \<or> next = None"
  shows "\<exists>buf f. kv_Bytes env kv next [] = Inr buf \<and>
     kv_FromBytes env kv_zero (keyrev_key (kv_rev kv)) buf next' False =
       Inr (kv\<lparr>kv_flags := f, kv_val := Some (sl (kv_val kv))\<rparr>, None)"
proof -
  from kv_Bytes_ok [OF assms(1,7,6)] obtain buf where b: "kv_Bytes env kv next [] = Inr buf" by blast
  have "11 \<le> length buf" using length_kv_Bytes [OF assms(3) b] assms(4) by linarith
  moreover have "patch_inverse env nx (sl (kv_val kv))" if "next = Some nx" for nx
    using patch_inverse_pools [OF assms(1)] assms(6,7) that by simp
  ultimately show ?thesis using kv_FromBytes_Bytes [OF assms(2) b assms(3) _ assms(5) _ assms(8)] b by blast
qed

definition wit_kv1 :: kv where
  "wit_kv1 = \<lparr>kv_rev = newkeyrev 2 0 False, kv_version = 1, kv_created = 2, kv_lease = 0, kv_flags = 0,
     kv_key = [97, 98], kv_val = Some (replicate 30 7)\<rparr>"

theorem kv_roundtrip_witness:
  "\<exists>buf f. kv_Bytes plain_env wit_kv1 (Some (replicate 30 7)) [] = Inr buf \<and>
     kv_FromBytes plain_env kv_zero (keyrev_key (kv_rev wit_kv1)) buf (Some (replicate 30 7)) False =
       Inr (wit_kv1\<lparr>kv_flags := f, kv_val := Some (sl (kv_val wit_kv1))\<rparr>, None)"
  by (rule kv_roundtrip) (simp_all add: wit_kv1_def snappy_ok_def isdel_newkeyrev rev_fits_def)

text \<open>The decoder asks for one byte more than the smallest record has: the record of an empty value
  under a one-byte key, with small numbers, is refused as having no checksum.\<close>

theorem kv_short_record:
  assumes "length (kv_key kv) = 1" "sl (kv_val kv) = []" "\<not> isdel (kv_rev kv)"
    and "kv_created kv < 128" "kv_version kv < 128" "kv_lease kv < 128"
  shows "\<exists>buf. kv_Bytes env kv None [] = Inr buf \<and>
     kv_FromBytes env kv_zero (keyrev_key (kv_rev kv)) buf None False = Inr (kv_zero, Some ErrChecksumMissing)"
proof -
  have one: "x < 128 \<Longrightarrow> length (uvarint x) = 1" for x by (simp add: uvarint.simps)
  have "enc_val env None [] = Inr (0, [])" by (simp add: enc_val_def)
  then have "\<exists>buf. kv_Bytes env kv None [] = Inr buf \<and> length buf = 10"
    using assms by (simp add: kv_Bytes_put Let_def one)
  then show ?thesis by (auto simp: kv_FromBytes_def checkSum_def)
qed

theorem kv_short_record_witness:
  "\<exists>buf. kv_Bytes plain_env (wit_kv1\<lparr>kv_key := [97], kv_val := None\<rparr>) None [] = Inr buf \<and>
     kv_FromBytes plain_env kv_zero (keyrev_key (kv_rev wit_kv1)) buf None False =
       Inr (kv_zero, Some ErrChecksumMissing)"
  using kv_short_record [of "wit_kv1\<lparr>kv_key := [97], kv_val := None\<rparr>" plain_env]
  by (simp add: wit_kv1_def isdel_newkeyrev rev_fits_def)

end
