(* ===== verification/Db_Meta.thy ===== *)
theory Db_Meta
  imports Db
begin

text \<open>
  \<open>src/db_meta.go\<close> and \<open>src/db_stats.go\<close>: the counters of the state machine (epoch, last applied
  index, lease id, revision, compaction cursor, minimum revision, term), each under its own key of
  the database \<open>meta\<close>.

  A failing \<open>OpenDBI\<close> ends the initialisation at once; the source ends it at the first read
  through the invalid handle.
\<close>

definition metaKeyEpoch :: bytes where "metaKeyEpoch = map of_char ''epoch''"
definition metaKeyIndex :: bytes where "metaKeyIndex = map of_char ''index''"
definition metaKeyLeaseID :: bytes where "metaKeyLeaseID = map of_char ''lease_id''"
definition metaKeyRevision :: bytes where "metaKeyRevision = map of_char ''rev''"
definition metaKeyRevisionCompacted :: bytes where
  "metaKeyRevisionCompacted = map of_char ''rev_compacted''"
definition metaKeyRevisionMin :: bytes where "metaKeyRevisionMin = map of_char ''rev_min''"
definition metaKeyTerm :: bytes where "metaKeyTerm = map of_char ''term''"

lemmas metaKey_defs = metaKeyEpoch_def metaKeyIndex_def metaKeyLeaseID_def metaKeyRevision_def
  metaKeyRevisionCompacted_def metaKeyRevisionMin_def metaKeyTerm_def

definition getEpoch :: "'t lmdb \<Rightarrow> 't \<Rightarrow> u64 result" where
  "getEpoch L t = getUint64 L t DBI_meta metaKeyEpoch"
definition setEpoch :: "'t lmdb \<Rightarrow> 't \<Rightarrow> u64 \<Rightarrow> 't result" where
  "setEpoch L t val = putUint64 L t DBI_meta metaKeyEpoch val"
definition getIndex :: "'t lmdb \<Rightarrow> 't \<Rightarrow> u64 result" where
  "getIndex L t = getUint64 L t DBI_meta metaKeyIndex"
definition setIndex :: "'t lmdb \<Rightarrow> 't \<Rightarrow> u64 \<Rightarrow> 't result" where
  "setIndex L t val = putUint64 L t DBI_meta metaKeyIndex val"
definition getLeaseID :: "'t lmdb \<Rightarrow> 't \<Rightarrow> u64 result" where
  "getLeaseID L t = getUint64 L t DBI_meta metaKeyLeaseID"
definition setLeaseID :: "'t lmdb \<Rightarrow> 't \<Rightarrow> u64 \<Rightarrow> 't result" where
  "setLeaseID L t val = putUint64 L t DBI_meta metaKeyLeaseID val"
definition getRevision :: "'t lmdb \<Rightarrow> 't \<Rightarrow> u64 result" where
  "getRevision L t = getUint64 L t DBI_meta metaKeyRevision"
definition setRevision :: "'t lmdb \<Rightarrow> 't \<Rightarrow> u64 \<Rightarrow> 't result" where
  "setRevision L t val = putUint64 L t DBI_meta metaKeyRevision val"
definition getRevisionCompacted :: "'t lmdb \<Rightarrow> 't \<Rightarrow> u64 result" where
  "getRevisionCompacted L t = getUint64 L t DBI_meta metaKeyRevisionCompacted"
definition setRevisionCompacted :: "'t lmdb \<Rightarrow> 't \<Rightarrow> u64 \<Rightarrow> 't result" where
  "setRevisionCompacted L t val = putUint64 L t DBI_meta metaKeyRevisionCompacted val"
definition getRevisionMin :: "'t lmdb \<Rightarrow> 't \<Rightarrow> u64 result" where
  "getRevisionMin L t = getUint64 L t DBI_meta metaKeyRevisionMin"
definition setRevisionMin :: "'t lmdb \<Rightarrow> 't \<Rightarrow> u64 \<Rightarrow> 't result" where
  "setRevisionMin L t val = putUint64 L t DBI_meta metaKeyRevisionMin val"
definition getTerm :: "'t lmdb \<Rightarrow> 't \<Rightarrow> u64 result" where
  "getTerm L t = getUint64 L t DBI_meta metaKeyTerm"
definition setTerm :: "'t lmdb \<Rightarrow> 't \<Rightarrow> u64 \<Rightarrow> 't result" where
  "setTerm L t val = putUint64 L t DBI_meta metaKeyTerm val"

lemmas meta_defs = getEpoch_def setEpoch_def getIndex_def setIndex_def getLeaseID_def
  setLeaseID_def getRevision_def setRevision_def getRevisionCompacted_def setRevisionCompacted_def
  getRevisionMin_def setRevisionMin_def getTerm_def setTerm_def

fun meta_init :: "'t lmdb \<Rightarrow> u64 \<Rightarrow> bytes list \<Rightarrow> 't \<Rightarrow> 't result" where
  "meta_init L val [] t = Inr t"
| "meta_init L val (k # ks) t =
     (case getUint64 L t DBI_meta k of
        Inr _ \<Rightarrow> meta_init L val ks t
      | Inl err \<Rightarrow>
          if IsNotFound err then bindE (putUint64 L t DBI_meta k val) (meta_init L val ks)
          else Inl err)"

definition newDbMeta :: "'t lmdb \<Rightarrow> 't \<Rightarrow> ('t \<times> u64) result" where
  "newDbMeta L t =
     bindE (mdb_OpenDBI L t DBI_meta) (\<lambda>t1.
     bindE (meta_init L 0 [metaKeyEpoch, metaKeyIndex, metaKeyLeaseID, metaKeyRevisionCompacted,
              metaKeyTerm] t1) (\<lambda>t2.
     bindE (meta_init L 1 [metaKeyRevision, metaKeyRevisionMin] t2) (\<lambda>t3.
     bindE (getIndex L t3) (\<lambda>index. Inr (t3, index)))))"

definition newDbStats :: "'t lmdb \<Rightarrow> 't \<Rightarrow> 't result" where
  "newDbStats L t = mdb_OpenDBI L t DBI_stats"

section \<open>The counters as a map\<close>

text \<open>The abstract state of the database: the value of each counter that is stored well.\<close>

definition dec_u64 :: "bytes \<Rightarrow> bytes \<Rightarrow> u64 result" where
  "dec_u64 key val = bindE (trimChecksum key val) (\<lambda>val1.
     if length val1 < 4 then Inl GoPanic
     else if length val1 < 8 then Inl ErrValueInvalid else Inr (Uint64 (take 8 val1)))"

definition counter :: "('t \<Rightarrow> dbi \<Rightarrow> entry list) \<Rightarrow> 't \<Rightarrow> bytes \<Rightarrow> u64 result" where
  "counter view t key = (case map_of (view t DBI_meta) key of
       None \<Rightarrow> Inl ErrMdbNotFound | Some v \<Rightarrow> dec_u64 key v)"

lemma dec_u64_addChecksum [simp, codec_simps]: "dec_u64 key (addChecksum key (be64 x)) = Inr x"
  by (simp add: dec_u64_def)

lemma metaKeys_nonempty [simp]:
  "metaKeyEpoch \<noteq> []" "metaKeyIndex \<noteq> []" "metaKeyLeaseID \<noteq> []" "metaKeyRevision \<noteq> []"
  "metaKeyRevisionCompacted \<noteq> []" "metaKeyRevisionMin \<noteq> []" "metaKeyTerm \<noteq> []"
  by (simp_all add: metaKey_defs)

lemma metaKeys_distinct [simp]:
  "distinct [metaKeyEpoch, metaKeyIndex, metaKeyLeaseID, metaKeyRevision,
     metaKeyRevisionCompacted, metaKeyRevisionMin, metaKeyTerm]"
  by (simp add: metaKey_defs)

lemma metaKeys_length [simp]:
  "length metaKeyEpoch \<le> 511" "length metaKeyIndex \<le> 511" "length metaKeyLeaseID \<le> 511"
  "length metaKeyRevision \<le> 511" "length metaKeyRevisionCompacted \<le> 511"
  "length metaKeyRevisionMin \<le> 511" "length metaKeyTerm \<le> 511"
  by (simp_all add: metaKey_defs)

context lmdb
begin

lemma getUint64_counter: "key \<noteq> [] \<Longrightarrow> getUint64 L t DBI_meta key = counter view t key"
  by (simp add: getUint64_def counter_def dec_u64_def Get_map_of split: option.splits)

lemma putUint64_counter:
  assumes "putUint64 L t DBI_meta key val = Inr t'"
  shows "counter view t' key' = (if key' = key then Inr val else counter view t key')"
  using assms Put_map_of [of DBI_meta t key _ t'] by (simp add: putUint64_def counter_def)

lemma counter_other:
  assumes "view t' DBI_meta = view t DBI_meta"
  shows "counter view t' key = counter view t key"
  using assms by (simp add: counter_def)

lemma meta_init_counter:
  assumes "\<forall>k \<in> set ks. k \<noteq> [] \<and> length k \<le> 511"
    and "\<forall>k \<in> set ks. counter view t k = Inl ErrMdbNotFound \<or> (\<exists>v. counter view t k = Inr v)"
  shows "\<exists>t'. meta_init L val ks t = Inr t' \<and>
     (\<forall>k. counter view t' k = (if k \<in> set ks \<and> counter view t k = Inl ErrMdbNotFound
                              then Inr val else counter view t k)) \<and>
     (\<forall>d. d \<noteq> DBI_meta \<longrightarrow> view t' d = view t d)"
  using assms
proof (induction ks arbitrary: t)
  case Nil
  then show ?case by simp
next
  case (Cons k ks)
  show ?case
  proof (cases "\<exists>v. counter view t k = Inr v")
    case True
    then obtain v where v: "counter view t k = Inr v" by blast
    from Cons.IH [of t] Cons.prems obtain t' where t': "meta_init L val ks t = Inr t'"
      "\<forall>k. counter view t' k = (if k \<in> set ks \<and> counter view t k = Inl ErrMdbNotFound
                              then Inr val else counter view t k)"
      "\<forall>d. d \<noteq> DBI_meta \<longrightarrow> view t' d = view t d" by auto
    with v Cons.prems show ?thesis by (auto simp: getUint64_counter)
  next
    case False
    with Cons.prems have nf: "counter view t k = Inl ErrMdbNotFound" by auto
    from Cons.prems obtain t1 where t1: "putUint64 L t DBI_meta k val = Inr t1"
      using putUint64_ok [of DBI_meta k t val] by auto
    have c1: "counter view t1 k' = (if k' = k then Inr val else counter view t k')" for k'
      using putUint64_counter [OF t1] by simp
    have v1: "d \<noteq> DBI_meta \<Longrightarrow> view t1 d = view t d" for d
      using putUint64_other [OF t1] by simp
    have "\<forall>k \<in> set ks. counter view t1 k = Inl ErrMdbNotFound \<or> (\<exists>v. counter view t1 k = Inr v)"
      using Cons.prems(2) by (simp add: c1)
    with Cons.IH [of t1] Cons.prems(1) obtain t' where t': "meta_init L val ks t1 = Inr t'"
      "\<forall>k. counter view t' k = (if k \<in> set ks \<and> counter view t1 k = Inl ErrMdbNotFound
                              then Inr val else counter view t1 k)"
      "\<forall>d. d \<noteq> DBI_meta \<longrightarrow> view t' d = view t1 d" by auto
    with t1 nf Cons.prems v1 show ?thesis by (auto simp: getUint64_counter c1)
  qed
qed

end

end
