(* ===== verification/Db_Lease.thy ===== *)
theory Db_Lease
  imports Db_Meta
begin

text \<open>
  The lease databases: \<open>src/db_lease.go\<close> (lease id to its record), \<open>src/db_lease_exp.go\<close> (expiry
  epoch and id, in order of expiry) and \<open>src/db_lease_key.go\<close> (lease id and key: the keys attached
  to a lease).

  A scan loop takes fuel, one unit an entry; \<open>NoReturn\<close> is running out of it, and the callers
  give it one more unit than the database has entries. The iterator of \<open>dbLeaseExp.scan\<close> is
  written with its consumer as an argument, because the consumer changes the database between two
  steps of the cursor.
\<close>

section \<open>Leases\<close>

record lease =
  lease_id :: u64
  lease_expires :: u64
  lease_renewed :: u64

definition lease_zero :: lease where
  "lease_zero = \<lparr>lease_id = 0, lease_expires = 0, lease_renewed = 0\<rparr>"

definition lease_FromBytes :: "lease \<Rightarrow> bytes \<Rightarrow> bytes \<Rightarrow> lease result" where
  "lease_FromBytes item key buf =
     (if length buf < 6 then Inl ErrChecksumMissing
      else if Uint32 (drop (length buf - 4) buf) \<noteq> crc key (take (length buf - 4) buf)
      then Inl ErrChecksumInvalid
      else
        let (lid, n) = Uvarint key in
        if n = 0 then Inl ErrLeaseKeyInvalid else
        bindE (ReadUvarint (take (length buf - 4) buf)) (\<lambda>(expires, r1).
        bindE (ReadUvarint r1) (\<lambda>(renewed, r2).
        Inr (item\<lparr>lease_id := lid, lease_expires := expires, lease_renewed := renewed\<rparr>))))"

definition lease_Bytes :: "lease \<Rightarrow> bytes \<Rightarrow> bytes" where
  "lease_Bytes item buf =
     (let buf1 = AppendUvarint buf (lease_expires item);
          buf2 = AppendUvarint buf1 (lease_renewed item) in
      buf2 @ be32 (crc (AppendUvarint [] (lease_id item)) buf2))"

definition newDbLease :: "'t lmdb \<Rightarrow> 't \<Rightarrow> 't result" where
  "newDbLease L t = mdb_OpenDBI L t DBI_lease"

definition dbLease_get :: "'t lmdb \<Rightarrow> 't \<Rightarrow> u64 \<Rightarrow> lease result" where
  "dbLease_get L t lid =
     (let k = AppendUvarint [] lid in
      case mdb_Get L t DBI_lease k of
        Inl err \<Rightarrow> if IsNotFound err then Inr lease_zero else Inl err
      | Inr v \<Rightarrow> lease_FromBytes lease_zero k v)"

definition dbLease_put :: "'t lmdb \<Rightarrow> 't \<Rightarrow> lease \<Rightarrow> 't result" where
  "dbLease_put L t item = mdb_Put L t DBI_lease (AppendUvarint [] (lease_id item)) (lease_Bytes item [])"

text \<open>The loop declares an \<open>err\<close> of its own, so that an error of the cursor after the first step ends it like the end of the
  database; an error of the first step is returned.\<close>

fun dbLease_all_loop :: "'t lmdb \<Rightarrow> nat \<Rightarrow> 't \<Rightarrow> entry result \<Rightarrow> lease list \<Rightarrow> lease list result" where
  "dbLease_all_loop L 0 t cur items = Inl NoReturn"
| "dbLease_all_loop L (Suc n) t cur items =
     (case cur of
        Inl _ \<Rightarrow> Inr items
      | Inr (k, v) \<Rightarrow>
          if k = [] then Inr items else
          bindE (lease_FromBytes lease_zero k v) (\<lambda>item.
          dbLease_all_loop L n t (cur_Next L t DBI_lease (Some (k, v))) (items @ [item])))"

definition dbLease_all :: "'t lmdb \<Rightarrow> 't \<Rightarrow> lease list result" where
  "dbLease_all L t =
     bindE (mdb_OpenCursor L t DBI_lease) (\<lambda>_.
     case cur_Next L t DBI_lease None of
       Inl err \<Rightarrow> if IsNotFound err then Inr [] else Inl err
     | Inr e \<Rightarrow> dbLease_all_loop L (Suc (mdb_Entries L t DBI_lease)) t (Inr e) [])"

definition dbLease_del :: "'t lmdb \<Rightarrow> 't \<Rightarrow> u64 \<Rightarrow> 't result" where
  "dbLease_del L t lid = mdb_Del L t DBI_lease (AppendUvarint [] lid)"

section \<open>Expiry\<close>

definition newDbLeaseExp :: "'t lmdb \<Rightarrow> 't \<Rightarrow> 't result" where
  "newDbLeaseExp L t = mdb_OpenDBI L t DBI_lease_exp"

definition dbLeaseExp_put :: "'t lmdb \<Rightarrow> 't \<Rightarrow> lease \<Rightarrow> 't result" where
  "dbLeaseExp_put L t item =
     (let k = AppendUvarint (be64 (lease_expires item)) (lease_id item) in
      mdb_Put L t DBI_lease_exp k (addChecksum k []))"

definition dbLeaseExp_del :: "'t lmdb \<Rightarrow> 't \<Rightarrow> lease \<Rightarrow> 't result" where
  "dbLeaseExp_del L t item =
     mdb_Del L t DBI_lease_exp (AppendUvarint (be64 (lease_expires item)) (lease_id item))"

text \<open>\<open>yield\<close> gets the transaction and the consumer's state and returns them updated; an error
  of it is the consumer's early return.\<close>

fun dbLeaseExp_scan_loop :: "'t lmdb \<Rightarrow> nat \<Rightarrow> u64 \<Rightarrow> (u64 \<Rightarrow> 't \<times> 's \<Rightarrow> ('t \<times> 's) result)
    \<Rightarrow> entry result \<Rightarrow> 't \<times> 's \<Rightarrow> ('t \<times> 's) result" where
  "dbLeaseExp_scan_loop L 0 expires yield cur st = Inl NoReturn"
| "dbLeaseExp_scan_loop L (Suc n) expires yield cur st =
     (case cur of
        Inl err \<Rightarrow> Inr st
      | Inr (k, v) \<Rightarrow>
          (case trimChecksum k v of
             Inl err \<Rightarrow> Inr st
           | Inr _ \<Rightarrow>
               if length k < 9 then Inr st
               else if Uint64 (take 8 k) > expires then Inr st
               else
                 let (lid, _) = Uvarint (drop 8 k) in
                 bindE (yield lid st) (\<lambda>st1.
                 dbLeaseExp_scan_loop L n expires yield
                   (cur_Next L (fst st1) DBI_lease_exp (Some (k, v))) st1)))"

text \<open>\<open>scan\<close> returns a nil iterator when the cursor cannot be opened; ranging over it panics.\<close>

definition dbLeaseExp_scan :: "'t lmdb \<Rightarrow> u64 \<Rightarrow> (u64 \<Rightarrow> 't \<times> 's \<Rightarrow> ('t \<times> 's) result)
    \<Rightarrow> 't \<times> 's \<Rightarrow> ('t \<times> 's) result" where
  "dbLeaseExp_scan L expires yield st =
     (case mdb_OpenCursor L (fst st) DBI_lease_exp of
        Inl err \<Rightarrow> Inl GoPanic
      | Inr _ \<Rightarrow> dbLeaseExp_scan_loop L (Suc (mdb_Entries L (fst st) DBI_lease_exp)) expires yield
                   (cur_Next L (fst st) DBI_lease_exp None) st)"

section \<open>Keys of a lease\<close>

definition newDbLeaseKey :: "'t lmdb \<Rightarrow> 't \<Rightarrow> 't result" where
  "newDbLeaseKey L t = mdb_OpenDBI L t DBI_lease_key"

definition dbLeaseKey_put :: "'t lmdb \<Rightarrow> 't \<Rightarrow> u64 \<Rightarrow> bytes \<Rightarrow> 't result" where
  "dbLeaseKey_put L t lid key =
     (let k = AppendUvarint [] lid @ key in
      mdb_Put L t DBI_lease_key k (addChecksum k []))"

text \<open>One round of at most \<open>cap(batch)\<close> keys. An error of the cursor comes with a nil key, so it
  ends the round like the end of the database.\<close>

fun dbLeaseKey_sweep_loop :: "'t lmdb \<Rightarrow> nat \<Rightarrow> u64 \<Rightarrow> entry result \<Rightarrow> 't \<Rightarrow> bytes list
    \<Rightarrow> ('t \<times> bytes list) result" where
  "dbLeaseKey_sweep_loop L 0 lid cur t batch = Inr (t, batch)"
| "dbLeaseKey_sweep_loop L (Suc n) lid cur t batch =
     (case cur of
        Inl err \<Rightarrow> Inr (t, batch)
      | Inr (k, v) \<Rightarrow>
          if k = [] then Inr (t, batch) else
          bindE (trimChecksum k v) (\<lambda>_.
          bindE (ReadUvarint k) (\<lambda>(found, key).
          if found \<noteq> lid then Inr (t, batch) else
          bindE (cur_Del L t DBI_lease_key (k, v)) (\<lambda>t1.
          dbLeaseKey_sweep_loop L n lid (cur_Next L t1 DBI_lease_key (Some (k, v))) t1
            (batch @ [key])))))"

definition dbLeaseKey_sweep :: "'t lmdb \<Rightarrow> 't \<Rightarrow> u64 \<Rightarrow> nat \<Rightarrow> ('t \<times> bytes list) result" where
  "dbLeaseKey_sweep L t lid capacity =
     bindE (mdb_OpenCursor L t DBI_lease_key) (\<lambda>_.
     dbLeaseKey_sweep_loop L capacity lid (cur_SetRange L t DBI_lease_key (AppendUvarint [] lid)) t [])"

definition dbLeaseKey_del :: "'t lmdb \<Rightarrow> 't \<Rightarrow> u64 \<Rightarrow> bytes \<Rightarrow> 't result" where
  "dbLeaseKey_del L t lid key = mdb_Del L t DBI_lease_key (AppendUvarint [] lid @ key)"

end
