(* ===== verification/Db_Kv.thy ===== *)
theory Db_Kv
  imports Kv Db_Lease "HOL-Library.AList"
begin

text \<open>
  \<open>src/db_kv.go\<close>: the multi-version key-value store over three databases. \<open>revision\<close> maps a key to
  its records, newest first (the revision is stored inverted, so the bytewise order of the
  duplicates is the descending order of revisions); \<open>value\<close> maps a revision to the stored value,
  which is a patch against the next value of the key where that is shorter; \<open>event\<close> maps a
  revision to the epoch and the keys it changed.

  A cursor is the entry it stands on. Loops over a cursor take fuel (\<open>NoReturn\<close> when it runs out);
  the callers give one more unit than the database has entries. The key map of \<open>compact\<close> is an
  association list, so its entries are visited in the order they were inserted, one of the orders
  Go may choose.
\<close>

definition newDbKv :: "'t lmdb \<Rightarrow> 't \<Rightarrow> 't result" where
  "newDbKv L t =
     bindE (mdb_OpenDBI L t DBI_revision) (\<lambda>t1.
     bindE (mdb_OpenDBI L t1 DBI_event) (\<lambda>t2.
     mdb_OpenDBI L t2 DBI_value))"

section \<open>put\<close>

text \<open>The event record of a key.\<close>

definition event_bytes :: "keyrev \<Rightarrow> u64 \<Rightarrow> bytes \<Rightarrow> bytes" where
  "event_bytes rv epoch key = addChecksum (keyrev_key rv) (AppendUvarint [] epoch @ key)"

text \<open>The end of both branches of \<open>put\<close>: the key record, the value and the event of \<open>next\<close>.\<close>

definition dbKv_put_store ::
    "'x env_scheme \<Rightarrow> 't lmdb \<Rightarrow> 't \<Rightarrow> kv \<Rightarrow> u64 \<Rightarrow> u64 \<Rightarrow> bytes \<Rightarrow> 't result" where
  "dbKv_put_store env L t next lease epoch key =
     (let krec = \<lparr>krec_key = key, krec_rev = kv_rev next, krec_lease = lease\<rparr> in
      bindE (mdb_Put L t DBI_revision key (keyrecord_Bytes krec [])) (\<lambda>t1.
      let revkey = keyrev_key (krec_rev krec) in
      bindE (kv_Bytes env next None []) (\<lambda>buf.
      bindE (mdb_Put L t1 DBI_value revkey buf) (\<lambda>t2.
      mdb_Put L t2 DBI_event revkey (event_bytes (krec_rev krec) epoch key)))))"

text \<open>The current record of a key: the zero record when the key has none.\<close>

definition dbKv_current :: "'t lmdb \<Rightarrow> 't \<Rightarrow> bytes \<Rightarrow> keyrecord result" where
  "dbKv_current L t key =
     (case cur_SetRange L t DBI_revision key of
        Inr (k, b) \<Rightarrow>
          if k = key then
            (case keyrecord_FromBytes krec_zero k b of
               (krec, None) \<Rightarrow> Inr krec
             | (krec, Some err) \<Rightarrow> Inl err)
          else Inr krec_zero
      | Inl err \<Rightarrow> if IsNotFound err then Inr krec_zero else Inl err)"

text \<open>The previous value is stored again, as a patch against the new one, when that is shorter.\<close>

definition dbKv_repatch ::
    "'x env_scheme \<Rightarrow> 't lmdb \<Rightarrow> 't \<Rightarrow> keyrecord \<Rightarrow> kv \<Rightarrow> bytes \<Rightarrow> slice \<Rightarrow> ('t \<times> bool) result" where
  "dbKv_repatch env L t krec prev v val =
     (if PCB_PATCH_ENABLED env \<and> \<not> isdel (krec_rev krec) then
        bindE (kv_Bytes env prev val []) (\<lambda>buf.
        if length buf < length v
        then bindE (mdb_Put L t DBI_value (keyrev_key (kv_rev prev)) buf) (\<lambda>t1. Inr (t1, True))
        else Inr (t, False))
      else Inr (t, False))"

definition dbKv_put ::
    "'x env_scheme \<Rightarrow> 't lmdb \<Rightarrow> 't \<Rightarrow> u64 \<Rightarrow> u64 \<Rightarrow> u64 \<Rightarrow> u64 \<Rightarrow> bytes \<Rightarrow> slice \<Rightarrow> bool \<Rightarrow> bool
     \<Rightarrow> ('t \<times> kv \<times> kv \<times> bool) result" where
  "dbKv_put env L t rv subrev lease epoch key val ignoreValue ignoreLease =
     (if length key = 0 then Inl ErrGRPCEmptyKey
      else if length key > PCB_LIMIT_KEY_LENGTH then Inl ErrGRPCKeyTooLong
      else
        bindE (mdb_OpenCursor L t DBI_revision) (\<lambda>_.
        bindE (dbKv_current L t key) (\<lambda>krec.
        if krec_rev krec = 0 \<or> isdel (krec_rev krec) then
          let next = \<lparr>kv_rev = newkeyrev rv subrev False, kv_version = 1, kv_created = rv,
                kv_lease = lease, kv_flags = 0, kv_key = key, kv_val = val\<rparr> in
          bindE (dbKv_put_store env L t next lease epoch key) (\<lambda>t1. Inr (t1, kv_zero, next, False))
        else if upper (krec_rev krec) = rv \<and> \<not> PCB_TXN_MULTI_WRITE_ENABLED env
        then Inl ErrGRPCDuplicateKey
        else
          bindE (mdb_Get L t DBI_value (keyrev_key (krec_rev krec))) (\<lambda>v.
          bindE (kv_FromBytes env kv_zero (keyrev_key (krec_rev krec)) v None False) (\<lambda>(prev, err).
          case err of Some e \<Rightarrow> Inl e | None \<Rightarrow>
          let next = \<lparr>kv_rev = newkeyrev rv subrev False, kv_version = kv_version prev + 1,
                kv_created = kv_created prev, kv_lease = lease, kv_flags = 0, kv_key = key,
                kv_val = val\<rparr>;
              next1 = (if ignoreValue then next\<lparr>kv_val := kv_val prev\<rparr> else next);
              next2 = (if ignoreLease then next1\<lparr>kv_lease := kv_lease prev\<rparr> else next1) in
          bindE (dbKv_repatch env L t krec prev v val) (\<lambda>(t1, patched).
          bindE (dbKv_put_store env L t1 next2 lease epoch key) (\<lambda>t2.
          Inr (t2, prev, next2, patched))))))))"

section \<open>Reading a revision\<close>

text \<open>The walk from the newest record of a key down to the revision asked for, collecting the
  revisions since the last deletion. The flag is \<open>False\<close> when the key has no record that old.\<close>

fun dbKv_revs :: "'t lmdb \<Rightarrow> nat \<Rightarrow> 't \<Rightarrow> u64 \<Rightarrow> bool \<Rightarrow> entry \<Rightarrow> keyrecord \<Rightarrow> keyrev list
    \<Rightarrow> (entry \<times> keyrecord \<times> keyrev list \<times> bool) result" where
  "dbKv_revs L 0 t revision countOnly cur krec nx = Inl NoReturn"
| "dbKv_revs L (Suc n) t revision countOnly cur krec nx =
     (if 0 < revision \<and> upper (krec_rev krec) > revision then
        let nx1 = (if isdel (krec_rev krec) then []
                   else if \<not> countOnly then nx @ [krec_rev krec] else nx) in
        (case cur_NextDup L t DBI_revision cur of
           Inl err \<Rightarrow> if IsNotFound err then Inr (cur, krec, nx1, False) else Inl err
         | Inr cur1 \<Rightarrow>
             (case keyrecord_FromBytes krec (fst cur1) (snd cur1) of
                (krec1, Some err) \<Rightarrow> Inl err
              | (krec1, None) \<Rightarrow> dbKv_revs L n t revision countOnly cur1 krec1 nx1))
      else Inr (cur, krec, nx, True))"

text \<open>The values of the collected revisions, each decoded with the one before it as its next.\<close>

fun dbKv_vals :: "'x env_scheme \<Rightarrow> 't lmdb \<Rightarrow> 't \<Rightarrow> keyrev list \<Rightarrow> kv \<Rightarrow> bool
    \<Rightarrow> (kv \<times> error option) result" where
  "dbKv_vals env L t [] item noval = Inr (item, None)"
| "dbKv_vals env L t (r # rs) item noval =
     (case mdb_Get L t DBI_value (keyrev_key r) of
        Inl err \<Rightarrow> Inr (item, Some err)
      | Inr v \<Rightarrow>
          bindE (kv_FromBytes env item (keyrev_key r) v (kv_val item) noval) (\<lambda>(item1, err).
          case err of Some e \<Rightarrow> Inr (item1, Some e) | None \<Rightarrow> dbKv_vals env L t rs item1 noval))"

definition dbKv_prev :: "'x env_scheme \<Rightarrow> 't lmdb \<Rightarrow> 't \<Rightarrow> entry \<Rightarrow> kv \<Rightarrow> (kv \<times> error option) result" where
  "dbKv_prev env L t cur item =
     (case cur_NextDup L t DBI_revision cur of
        Inl err \<Rightarrow> Inr (kv_zero, Some err)
      | Inr (k, v) \<Rightarrow>
          (case keyrecord_FromBytes krec_zero k v of
             (_, Some err) \<Rightarrow> Inr (kv_zero, Some err)
           | (prec, None) \<Rightarrow>
               (case mdb_Get L t DBI_value (keyrev_key (krec_rev prec)) of
                  Inl err \<Rightarrow> Inr (kv_zero, Some err)
                | Inr v1 \<Rightarrow> kv_FromBytes env kv_zero (keyrev_key (krec_rev prec)) v1 (kv_val item) False)))"

text \<open>The deferred function of \<open>getRev\<close>: not found is no error.\<close>

definition clearNotFound :: "error option \<Rightarrow> error option" where
  "clearNotFound err = (case err of Some e \<Rightarrow> if IsNotFound e then None else Some e | None \<Rightarrow> None)"

definition dbKv_getRev_body ::
    "'x env_scheme \<Rightarrow> 't lmdb \<Rightarrow> 't \<Rightarrow> bytes \<Rightarrow> u64 \<Rightarrow> bool \<Rightarrow> (kv \<times> kv \<times> error option) result" where
  "dbKv_getRev_body env L t key revision withPrev =
     (case mdb_OpenCursor L t DBI_revision of Inl err \<Rightarrow> Inr (kv_zero, kv_zero, Some err) | Inr _ \<Rightarrow>
      case cur_SetRange L t DBI_revision key of Inl err \<Rightarrow> Inr (kv_zero, kv_zero, Some err) | Inr (k, v) \<Rightarrow>
      if k \<noteq> key then Inr (kv_zero, kv_zero, None) else
      case keyrecord_FromBytes krec_zero k v of
        (_, Some err) \<Rightarrow> Inr (kv_zero, kv_zero, Some err)
      | (krec, None) \<Rightarrow>
          (case dbKv_revs L (Suc (mdb_Entries L t DBI_revision)) t revision False (k, v) krec [] of
             Inl NoReturn \<Rightarrow> Inl NoReturn
           | Inl err \<Rightarrow> Inr (kv_zero, kv_zero, Some err)
           | Inr (cur, krec1, nx, found) \<Rightarrow>
               if \<not> found then Inr (kv_zero, kv_zero, Some ErrMdbNotFound)
               else if isdel (krec_rev krec1) then
                 (if withPrev then
                    bindE (dbKv_prev env L t cur kv_zero) (\<lambda>(prev, err). Inr (kv_zero, prev, err))
                  else Inr (kv_zero, kv_zero, None))
               else
                 bindE (dbKv_vals env L t (nx @ [krec_rev krec1]) kv_zero False) (\<lambda>(item, err).
                 if err \<noteq> None then Inr (item, kv_zero, err)
                 else if withPrev then
                   bindE (dbKv_prev env L t cur item) (\<lambda>(prev, err). Inr (item, prev, err))
                 else Inr (item, kv_zero, None))))"

definition dbKv_getRev ::
    "'x env_scheme \<Rightarrow> 't lmdb \<Rightarrow> 't \<Rightarrow> bytes \<Rightarrow> u64 \<Rightarrow> bool \<Rightarrow> (kv \<times> kv \<times> error option) result" where
  "dbKv_getRev env L t key revision withPrev =
     bindE (dbKv_getRev_body env L t key revision withPrev) (\<lambda>(item, prev, err).
     Inr (item, prev, clearNotFound err))"

definition dbKv_get :: "'x env_scheme \<Rightarrow> 't lmdb \<Rightarrow> 't \<Rightarrow> bytes \<Rightarrow> (kv \<times> error option) result" where
  "dbKv_get env L t key =
     bindE (dbKv_getRev env L t key 0 False) (\<lambda>(item, _, err). Inr (item, err))"

section \<open>getRange\<close>

text \<open>The variables of the loop. \<open>rs_countOnly\<close> starts as the argument and is set once the limit
  is reached; \<open>rs_item\<close> and \<open>rs_krec\<close> are the receivers the decoders reuse.\<close>

record range_state =
  rs_items :: "kv list"
  rs_count :: int
  rs_more :: bool
  rs_countOnly :: bool
  rs_item :: kv
  rs_krec :: keyrecord

record range_args =
  ra_key :: bytes
  ra_end :: bytes
  ra_revision :: u64
  ra_minMod :: u64
  ra_maxMod :: u64
  ra_minCreated :: u64
  ra_maxCreated :: u64
  ra_limit :: u64
  ra_keysOnly :: bool

definition isFullScan :: "range_args \<Rightarrow> bool" where
  "isFullScan a \<longleftrightarrow> ra_key a = [0] \<and> ra_end a = [0]"

text \<open>What the loop does with the record it settled on: the filters, the count and the item. The
  flag is \<open>True\<close> when the loop ends here.\<close>

definition dbKv_range_item :: "'x env_scheme \<Rightarrow> 't lmdb \<Rightarrow> 't \<Rightarrow> range_args \<Rightarrow> keyrev \<Rightarrow> keyrev list
    \<Rightarrow> range_state \<Rightarrow> (bool \<times> range_state) result" where
  "dbKv_range_item env L t a rv nx st =
     (if 0 < ra_minMod a \<and> upper rv < ra_minMod a then Inr (False, st)
      else if 0 < ra_maxMod a \<and> upper rv > ra_maxMod a then Inr (False, st)
      else if \<not> isdel rv then
        (let st1 = st\<lparr>rs_count := rs_count st + 1\<rparr> in
         if \<not> rs_countOnly st1 then
           bindE (dbKv_vals env L t (nx @ [rv]) ((rs_item st1)\<lparr>kv_val := None\<rparr>) (ra_keysOnly a)) (\<lambda>(item, err).
           case err of Some e \<Rightarrow> Inl e | None \<Rightarrow>
           let st2 = st1\<lparr>rs_item := item\<rparr> in
           if 0 < ra_minCreated a \<and> kv_created item < ra_minCreated a
           then Inr (False, st2\<lparr>rs_count := rs_count st2 - 1\<rparr>)
           else if 0 < ra_maxCreated a \<and> kv_created item > ra_maxCreated a
           then Inr (False, st2\<lparr>rs_count := rs_count st2 - 1\<rparr>)
           else Inr (False, st2\<lparr>rs_items := rs_items st2 @ [item]\<rparr>))
         else if PCB_RANGE_COUNT_FAKE env then Inr (True, st1)
         else Inr (False, st1))
      else Inr (False, st))"

fun dbKv_getRange_loop :: "'x env_scheme \<Rightarrow> 't lmdb \<Rightarrow> nat \<Rightarrow> 't \<Rightarrow> range_args \<Rightarrow> entry result
    \<Rightarrow> range_state \<Rightarrow> range_state result" where
  "dbKv_getRange_loop env L 0 t a cur st = Inl NoReturn"
| "dbKv_getRange_loop env L (Suc n) t a cur st =
     (case cur of
        Inl err \<Rightarrow> if IsNotFound err then Inr st else Inl err
      | Inr (k, b) \<Rightarrow>
          if \<not> isFullScan a \<and> ra_end a = [] \<and> k \<noteq> ra_key a then Inr st
          else if \<not> isFullScan a \<and> ra_end a \<noteq> [] \<and> k \<ge> ra_end a then Inr st
          else
            (case keyrecord_FromBytes (rs_krec st) k b of
               (_, Some err) \<Rightarrow> Inl err
             | (krec, None) \<Rightarrow>
                 let st1 = st\<lparr>rs_krec := krec\<rparr>;
                     full = (\<not> rs_countOnly st1 \<and> 0 < ra_limit a
                             \<and> int (length (rs_items st1)) = sint (ra_limit a)) in
                 if full \<and> \<not> PCB_RANGE_COUNT_FULL env \<and> \<not> PCB_RANGE_COUNT_FAKE env
                 then Inr (st1\<lparr>rs_more := True\<rparr>)
                 else
                   let st2 = (if full then st1\<lparr>rs_more := True, rs_countOnly := True\<rparr> else st1) in
                   bindE (dbKv_revs L (Suc (mdb_Entries L t DBI_revision)) t (ra_revision a)
                            (rs_countOnly st2) (k, b) krec []) (\<lambda>(cur1, krec1, nx, found).
                   let st3 = st2\<lparr>rs_krec := krec1\<rparr> in
                   bindE (if found then dbKv_range_item env L t a (krec_rev krec1) nx st3
                          else Inr (False, st3)) (\<lambda>(stop, st4).
                   if stop then Inr st4
                   else if ra_end a = [] then Inr st4
                   else dbKv_getRange_loop env L n t a (cur_NextNoDup L t DBI_revision cur1) st4))))"

definition dbKv_getRange :: "'x env_scheme \<Rightarrow> 't lmdb \<Rightarrow> 't \<Rightarrow> range_args \<Rightarrow> bool
    \<Rightarrow> (kv list \<times> int \<times> bool) result" where
  "dbKv_getRange env L t a countOnly =
     bindE (mdb_OpenCursor L t DBI_revision) (\<lambda>_.
     bindE (dbKv_getRange_loop env L (Suc (mdb_Entries L t DBI_revision)) t a
              (cur_SetRange L t DBI_revision (ra_key a))
              \<lparr>rs_items = [], rs_count = 0, rs_more = False, rs_countOnly = countOnly,
               rs_item = kv_zero, rs_krec = krec_zero\<rparr>) (\<lambda>st.
     Inr (rs_items st, rs_count st, rs_more st)))"

section \<open>deleteRange and deleteBatch\<close>

text \<open>A tombstone: the key record and the event of a deletion.\<close>

definition dbKv_tombstone :: "'t lmdb \<Rightarrow> 't \<Rightarrow> keyrev \<Rightarrow> u64 \<Rightarrow> bytes \<Rightarrow> 't result" where
  "dbKv_tombstone L t tombstone epoch k =
     bindE (mdb_Put L t DBI_revision k
              (keyrecord_Bytes \<lparr>krec_key = k, krec_rev = tombstone, krec_lease = 0\<rparr> [])) (\<lambda>t1.
     mdb_Put L t1 DBI_event (keyrev_key tombstone) (event_bytes tombstone epoch k))"

text \<open>The error of \<open>prev.FromBytes\<close> is overwritten before it is read: a record that does not decode
  leaves \<open>prev\<close> as it was.\<close>

fun dbKv_deleteRange_loop :: "'x env_scheme \<Rightarrow> 't lmdb \<Rightarrow> nat \<Rightarrow> u64 \<Rightarrow> u64 \<Rightarrow> u64 \<Rightarrow> bytes \<Rightarrow> bytes
    \<Rightarrow> entry result \<Rightarrow> 't \<Rightarrow> keyrecord \<Rightarrow> keyrecord list \<Rightarrow> i64 \<Rightarrow> ('t \<times> keyrecord list \<times> i64) result" where
  "dbKv_deleteRange_loop env L 0 rv subrev epoch key fin cur t prev items cnt = Inl NoReturn"
| "dbKv_deleteRange_loop env L (Suc n) rv subrev epoch key fin cur t prev items cnt =
     (case cur of
        Inl err \<Rightarrow> if IsNotFound err then Inr (t, items, cnt) else Inl err
      | Inr (k, v) \<Rightarrow>
          if length v < 12 then Inl ErrValueInvalid
          else if fin = [] \<and> k \<noteq> key then Inr (t, items, cnt)
          else if fin \<noteq> [] \<and> k > fin then Inr (t, items, cnt)
          else
            let (prev1, _) = keyrecord_FromBytes prev k v in
            bindE
              (if \<not> isdel (krec_rev prev1) then
                 (if upper (krec_rev prev1) = rv \<and> \<not> PCB_TXN_MULTI_WRITE_ENABLED env
                  then Inl ErrGRPCDuplicateKey
                  else bindE (dbKv_tombstone L t (newkeyrev rv subrev True) epoch k) (\<lambda>t1.
                       Inr (t1, items @ [prev1], cnt + 1)))
               else Inr (t, items, cnt))
              (\<lambda>(t1, items1, count1).
               if fin = [] then Inr (t1, items1, count1)
               else dbKv_deleteRange_loop env L n rv subrev epoch key fin
                      (cur_NextNoDup L t1 DBI_revision (k, v)) t1 prev1 items1 count1))"

definition dbKv_deleteRange :: "'x env_scheme \<Rightarrow> 't lmdb \<Rightarrow> 't \<Rightarrow> u64 \<Rightarrow> u64 \<Rightarrow> u64 \<Rightarrow> bytes \<Rightarrow> bytes
    \<Rightarrow> ('t \<times> keyrecord list \<times> i64) result" where
  "dbKv_deleteRange env L t rv subrev epoch key fin =
     bindE (mdb_OpenCursor L t DBI_revision) (\<lambda>_.
     dbKv_deleteRange_loop env L (Suc (mdb_Entries L t DBI_revision)) rv subrev epoch key fin
       (cur_SetRange L t DBI_revision key) t krec_zero [] 0)"

fun dbKv_deleteBatch_loop :: "'t lmdb \<Rightarrow> u64 \<Rightarrow> u64 \<Rightarrow> u64 \<Rightarrow> bytes list \<Rightarrow> 't \<Rightarrow> keyrecord \<Rightarrow> 't result" where
  "dbKv_deleteBatch_loop L rv subrev epoch [] t prev = Inr t"
| "dbKv_deleteBatch_loop L rv subrev epoch (key # keys) t prev =
     (case cur_SetRange L t DBI_revision key of
        Inl err \<Rightarrow> if IsNotFound err then Inl ErrNotFound else Inl err
      | Inr (k, v) \<Rightarrow>
          if length v < 12 then Inl ErrValueInvalid
          else if k \<noteq> key then Inl ErrNotFound
          else
            let (prev1, err) = keyrecord_FromBytes prev k v in
            if \<not> isdel (krec_rev prev1) then
              bindE (dbKv_tombstone L t (newkeyrev rv subrev True) epoch key) (\<lambda>t1.
              dbKv_deleteBatch_loop L rv subrev epoch keys t1 prev1)
            else if keys = [] \<and> err \<noteq> None then Inl (the err)
            else dbKv_deleteBatch_loop L rv subrev epoch keys t prev1)"

definition dbKv_deleteBatch :: "'t lmdb \<Rightarrow> 't \<Rightarrow> u64 \<Rightarrow> u64 \<Rightarrow> u64 \<Rightarrow> bytes list \<Rightarrow> 't result" where
  "dbKv_deleteBatch L t rv subrev epoch keys =
     bindE (mdb_OpenCursor L t DBI_revision) (\<lambda>_.
     dbKv_deleteBatch_loop L rv subrev epoch keys t krec_zero)"

section \<open>compact\<close>

text \<open>The first inner loop consumes events. Its variables: the key and value the event cursor
  returned last (empty after an error), the error, the revision, the keys seen, the last revision.
  The flag is \<open>done\<close>.\<close>

record compact_state =
  cs_k :: bytes
  cs_v :: bytes
  cs_err :: "error option"
  cs_rev :: keyrev
  cs_keys :: "(bytes \<times> keyrev) list"
  cs_last :: u64

text \<open>The event after the one just deleted: the next duplicate, else the next key; then its
  revision.\<close>

definition compact_advance :: "'t lmdb \<Rightarrow> 't \<Rightarrow> compact_state \<Rightarrow> compact_state result" where
  "compact_advance L t st =
     (let q = (cs_k st, cs_v st);
          r1 = cur_NextDup L t DBI_event q;
          r2 = (case r1 of Inl err \<Rightarrow> if IsNotFound err then cur_Next L t DBI_event (Some q) else r1
                | Inr _ \<Rightarrow> r1) in
      case r2 of
        Inl err \<Rightarrow> Inr (st\<lparr>cs_k := [], cs_v := [], cs_err := Some err\<rparr>)
      | Inr (k, v) \<Rightarrow>
          bindE (keyrev_FromKey (cs_rev st) k v) (\<lambda>(rv, err).
          Inr (st\<lparr>cs_k := k, cs_v := v, cs_err := err, cs_rev := rv\<rparr>)))"

fun compact_events :: "'t lmdb \<Rightarrow> nat \<Rightarrow> u64 \<Rightarrow> 't \<Rightarrow> compact_state \<Rightarrow> ('t \<times> compact_state \<times> bool) result" where
  "compact_events L 0 mx t st = Inl NoReturn"
| "compact_events L (Suc n) mx t st =
     (if cs_err st = Some ErrMdbNotFound then Inr (t, st, False)
      else if cs_err st \<noteq> None then Inr (t, st, True)
      else if 0 < mx \<and> upper (cs_rev st) \<ge> mx then Inr (t, st, True)
      else if length (cs_keys st) \<ge> limitCompactionMaxKeys then Inr (t, st, False)
      else
        bindE (trimChecksum (cs_k st) (cs_v st)) (\<lambda>v.
        let (_, m) = Uvarint v in
        if m < 0 then Inl GoPanic
        else
          bindE (cur_Del L t DBI_event (cs_k st, cs_v st)) (\<lambda>t1.
          bindE (compact_advance L t1 (st\<lparr>cs_last := upper (cs_rev st),
                    cs_keys := AList.update (drop (nat m) v) (cs_rev st) (cs_keys st)\<rparr>)) (\<lambda>st1.
          compact_events L n mx t1 st1))))"

text \<open>The second one removes the records of one key older than \<open>rv\<close>, and their values. It returns
  the error the loop ends with.\<close>

fun compact_key :: "'t lmdb \<Rightarrow> nat \<Rightarrow> bytes \<Rightarrow> keyrev \<Rightarrow> 't \<Rightarrow> entry result \<Rightarrow> bool
    \<Rightarrow> ('t \<times> error option) result" where
  "compact_key L 0 key rv t cur hasNewer = Inl NoReturn"
| "compact_key L (Suc n) key rv t cur hasNewer =
     (case cur of
        Inl err \<Rightarrow> if IsNotFound err then Inr (t, Some err) else Inl err
      | Inr (k, v) \<Rightarrow>
          if k \<noteq> key then Inr (t, None) else
          (case keyrecord_FromBytes krec_zero k v of
             (_, Some err) \<Rightarrow> Inl err
           | (rec, None) \<Rightarrow>
               if krec_rev rec \<ge> rv
               then compact_key L n key rv t (cur_NextDup L t DBI_revision (k, v)) True
               else
                 bindE (if hasNewer \<and> \<not> isdel (krec_rev rec)
                        then mdb_Del L t DBI_value (keyrev_key (krec_rev rec)) else Inr t) (\<lambda>t1.
                 bindE (cur_Del L t1 DBI_revision (k, v)) (\<lambda>t2.
                 compact_key L n key rv t2 (cur_NextDup L t2 DBI_revision (k, v)) True))))"

fun compact_keys :: "'t lmdb \<Rightarrow> (bytes \<times> keyrev) list \<Rightarrow> 't \<Rightarrow> error option \<Rightarrow> ('t \<times> error option) result" where
  "compact_keys L [] t err = Inr (t, err)"
| "compact_keys L ((key, rv) # keys) t err =
     bindE (compact_key L (Suc (mdb_Entries L t DBI_revision)) key rv t
              (cur_SetRange L t DBI_revision key) False) (\<lambda>(t1, err1).
     compact_keys L keys t1 err1)"

fun compact_loop :: "'t lmdb \<Rightarrow> nat \<Rightarrow> u64 \<Rightarrow> 't \<Rightarrow> compact_state \<Rightarrow> ('t \<times> u64) result" where
  "compact_loop L 0 mx t st = Inl NoReturn"
| "compact_loop L (Suc n) mx t st =
     bindE (compact_events L (Suc (Suc (mdb_Entries L t DBI_event))) mx t st) (\<lambda>(t1, st1, done).
     bindE (compact_keys L (cs_keys st1) t1 (cs_err st1)) (\<lambda>(t2, err).
     let err1 = clearNotFound err in
     if done then (case err1 of None \<Rightarrow> Inr (t2, cs_last st1) | Some e \<Rightarrow> Inl e)
     else compact_loop L n mx t2 (st1\<lparr>cs_err := err1, cs_keys := []\<rparr>)))"

definition dbKv_compact :: "'t lmdb \<Rightarrow> 't \<Rightarrow> u64 \<Rightarrow> ('t \<times> u64) result" where
  "dbKv_compact L t mx =
     bindE (mdb_OpenCursor L t DBI_revision) (\<lambda>_.
     bindE (mdb_OpenCursor L t DBI_event) (\<lambda>_.
     bindE (case cur_Next L t DBI_event None of
              Inl err \<Rightarrow> if IsNotFound err then Inr ([], []) else Inl err
            | Inr e \<Rightarrow> Inr e) (\<lambda>(k, v).
     bindE (keyrev_FromKey 0 k v) (\<lambda>(rv, err).
     case err of Some e \<Rightarrow> Inl e | None \<Rightarrow>
     compact_loop L (Suc (Suc (mdb_Entries L t DBI_event))) mx t
       \<lparr>cs_k = k, cs_v = v, cs_err = None, cs_rev = rv, cs_keys = [], cs_last = 0\<rparr>))))"

section \<open>scan\<close>

definition evtFromBytes :: "bytes \<Rightarrow> bytes \<Rightarrow> (kvEvent \<times> error option) result" where
  "evtFromBytes k v =
     (let evt = \<lparr>evt_epoch = 0, evt_key = [], evt_rev = 0\<rparr> in
      bindE (keyrev_FromKey 0 k v) (\<lambda>(rv, err).
      case err of Some e \<Rightarrow> Inr (evt\<lparr>evt_rev := rv\<rparr>, Some e) | None \<Rightarrow>
      case trimChecksum k v of
        Inl e \<Rightarrow> Inr (evt\<lparr>evt_rev := rv\<rparr>, Some e)
      | Inr v1 \<Rightarrow>
          let (epoch, n) = Uvarint v1 in
          if n < 0 then Inl GoPanic
          else Inr (\<lparr>evt_epoch = epoch, evt_key = drop (nat n) v1, evt_rev = rv\<rparr>, None)))"

text \<open>The events the iterator yields to a consumer that only reads and never stops it.\<close>

fun dbKv_scan_loop :: "'t lmdb \<Rightarrow> nat \<Rightarrow> 't \<Rightarrow> entry result \<Rightarrow> kvEvent list \<Rightarrow> kvEvent list result" where
  "dbKv_scan_loop L 0 t cur evts = Inl NoReturn"
| "dbKv_scan_loop L (Suc n) t cur evts =
     (case cur of
        Inl err \<Rightarrow> Inr evts
      | Inr (k, v) \<Rightarrow>
          bindE (evtFromBytes k v) (\<lambda>(evt, err).
          case err of Some e \<Rightarrow> Inr evts | None \<Rightarrow>
          let r1 = cur_NextDup L t DBI_event (k, v);
              r2 = (case r1 of Inl e \<Rightarrow> if IsNotFound e then cur_Next L t DBI_event (Some (k, v)) else r1
                    | Inr _ \<Rightarrow> r1) in
          dbKv_scan_loop L n t r2 (evts @ [evt])))"

definition dbKv_scan :: "'t lmdb \<Rightarrow> 't \<Rightarrow> u64 \<Rightarrow> kvEvent list result" where
  "dbKv_scan L t revision =
     (case mdb_OpenCursor L t DBI_event of
        Inl err \<Rightarrow> Inl GoPanic
      | Inr _ \<Rightarrow> dbKv_scan_loop L (Suc (mdb_Entries L t DBI_event)) t
                   (cur_SetRange L t DBI_event (be64 (push_bit 12 revision))) [])"

end
