(* ===== verification/Messages.thy ===== *)
theory Messages
  imports Kv
begin

text \<open>
  The messages of \<open>src/internal/api.proto\<close> and \<open>src/internal/internal.proto\<close> that the state machine
  and the services exchange, with the fields the code reads or writes, and the environment of the
  state machine.

  The protocol buffer runtime and the code generated for the messages are parameters: one
  \<open>unmarshal\<close> function a request type and one \<open>marshal\<close> function for the responses. The texts of the
  errors (\<open>err.Error()\<close>) are a parameter too. A header is \<open>None\<close> while the code has not set it.
\<close>

section \<open>Requests\<close>

record PutRequest =
  PutRequest_Key :: bytes
  PutRequest_Value :: slice
  PutRequest_Lease :: i64
  PutRequest_PrevKv :: bool
  PutRequest_IgnoreValue :: bool
  PutRequest_IgnoreLease :: bool

record DeleteRangeRequest =
  DeleteRangeRequest_Key :: bytes
  DeleteRangeRequest_RangeEnd :: bytes
  DeleteRangeRequest_PrevKv :: bool

record RangeRequest =
  RangeRequest_Key :: bytes
  RangeRequest_RangeEnd :: bytes
  RangeRequest_Limit :: i64
  RangeRequest_Revision :: i64
  RangeRequest_Serializable :: bool
  RangeRequest_KeysOnly :: bool
  RangeRequest_CountOnly :: bool
  RangeRequest_MinModRevision :: i64
  RangeRequest_MaxModRevision :: i64
  RangeRequest_MinCreateRevision :: i64
  RangeRequest_MaxCreateRevision :: i64

record CompactionRequest =
  CompactionRequest_Revision :: i64

text \<open>The enumerations of a comparison are open: a number without a name is the last constructor.\<close>

datatype CompareResult =
    Compare_EQUAL | Compare_GREATER | Compare_LESS | Compare_NOT_EQUAL | CompareResult_unknown

datatype CompareTarget =
    Compare_VERSION | Compare_CREATE | Compare_MOD | Compare_VALUE | Compare_LEASE
  | CompareTarget_unknown

datatype TargetUnion =
    Compare_Version i64 | Compare_CreateRevision i64 | Compare_ModRevision i64
  | Compare_Value bytes | Compare_Lease i64 | TargetUnion_nil

record Compare =
  Compare_Result :: CompareResult
  Compare_Target :: CompareTarget
  Compare_Key :: bytes
  Compare_TargetUnion :: TargetUnion

datatype RequestOp =
    RequestPut PutRequest | RequestDeleteRange DeleteRangeRequest | RequestRange RangeRequest
  | RequestOp_other

record TxnRequest =
  TxnRequest_Compare :: "Compare list"
  TxnRequest_Success :: "RequestOp list"
  TxnRequest_Failure :: "RequestOp list"

record LeaseGrantRequest =
  LeaseGrantRequest_TTL :: i64
  LeaseGrantRequest_ID :: i64

record LeaseRevokeRequest = LeaseRevokeRequest_ID :: i64
record LeaseKeepAliveRequest = LeaseKeepAliveRequest_ID :: i64
record LeaseKeepAliveBatchRequest = LeaseKeepAliveBatchRequest_IDs :: "i64 list"
record LeaseTimeToLiveRequest = LeaseTimeToLiveRequest_ID :: i64
record TickRequest = TickRequest_Term :: u64
record TermRequest = TermRequest_Term :: u64

record WatchCreateRequest =
  WatchCreateRequest_Key :: bytes
  WatchCreateRequest_RangeEnd :: bytes
  WatchCreateRequest_StartRevision :: i64
  WatchCreateRequest_ProgressNotify :: bool
  WatchCreateRequest_Filters :: "u8 list"
  WatchCreateRequest_PrevKv :: bool
  WatchCreateRequest_WatchId :: i64
  WatchCreateRequest_Fragment :: bool

section \<open>Responses\<close>

record ResponseHeader =
  Header_Revision :: i64
  Header_ClusterId :: u64
  Header_MemberId :: u64
  Header_RaftTerm :: u64

record PutResponse =
  PutResponse_Header :: "ResponseHeader option"
  PutResponse_PrevKv :: "KeyValue option"

record DeleteRangeResponse =
  DeleteRangeResponse_Header :: "ResponseHeader option"
  DeleteRangeResponse_Deleted :: i64
  DeleteRangeResponse_PrevKvs :: "KeyValue list"

record RangeResponse =
  RangeResponse_Header :: "ResponseHeader option"
  RangeResponse_Kvs :: "KeyValue list"
  RangeResponse_More :: bool
  RangeResponse_Count :: i64

record CompactionResponse = CompactionResponse_Header :: "ResponseHeader option"

datatype ResponseOp =
    ResponsePut PutResponse | ResponseDeleteRange DeleteRangeResponse | ResponseRange RangeResponse

record TxnResponse =
  TxnResponse_Header :: "ResponseHeader option"
  TxnResponse_Succeeded :: bool
  TxnResponse_Responses :: "ResponseOp list"

record LeaseGrantResponse =
  LeaseGrantResponse_Header :: "ResponseHeader option"
  LeaseGrantResponse_ID :: i64
  LeaseGrantResponse_TTL :: i64
  LeaseGrantResponse_Error :: "error option"

record LeaseRevokeResponse = LeaseRevokeResponse_Header :: "ResponseHeader option"

record LeaseKeepAliveResponse =
  LeaseKeepAliveResponse_Header :: "ResponseHeader option"
  LeaseKeepAliveResponse_ID :: i64
  LeaseKeepAliveResponse_TTL :: i64

record LeaseKeepAliveBatchResponse =
  LeaseKeepAliveBatchResponse_Header :: "ResponseHeader option"
  LeaseKeepAliveBatchResponse_TTLs :: "i64 list"

record LeaseLeasesResponse =
  LeaseLeasesResponse_Header :: "ResponseHeader option"
  LeaseLeasesResponse_Leases :: "i64 list"

record LeaseTimeToLiveResponse =
  LeaseTimeToLiveResponse_Header :: "ResponseHeader option"
  LeaseTimeToLiveResponse_TTL :: i64

record Event =
  Event_Type :: u8
  Event_Kv :: "KeyValue option"
  Event_PrevKv :: "KeyValue option"

datatype message =
    MPut PutResponse | MDeleteRange DeleteRangeResponse | MRange RangeResponse
  | MCompaction CompactionResponse | MTxn TxnResponse | MLeaseGrant LeaseGrantResponse
  | MLeaseRevoke LeaseRevokeResponse | MLeaseKeepAlive LeaseKeepAliveResponse
  | MLeaseKeepAliveBatch LeaseKeepAliveBatchResponse | MLeaseLeases LeaseLeasesResponse
  | MLeaseTimeToLive LeaseTimeToLiveResponse | MTick u64 | MTerm | MHeader ResponseHeader
  | MEvent Event

section \<open>The environment of the state machine\<close>

record sm_env = env +
  shardID :: u64
  replicaID :: u64
  marshal :: "message \<Rightarrow> bytes result"
  err_Error :: "error \<Rightarrow> bytes"
  unmarshal_PutRequest :: "bytes \<Rightarrow> PutRequest option"
  unmarshal_DeleteRangeRequest :: "bytes \<Rightarrow> DeleteRangeRequest option"
  unmarshal_RangeRequest :: "bytes \<Rightarrow> RangeRequest option"
  unmarshal_CompactionRequest :: "bytes \<Rightarrow> CompactionRequest option"
  unmarshal_TxnRequest :: "bytes \<Rightarrow> TxnRequest option"
  unmarshal_LeaseGrantRequest :: "bytes \<Rightarrow> LeaseGrantRequest option"
  unmarshal_LeaseRevokeRequest :: "bytes \<Rightarrow> LeaseRevokeRequest option"
  unmarshal_LeaseKeepAliveRequest :: "bytes \<Rightarrow> LeaseKeepAliveRequest option"
  unmarshal_LeaseKeepAliveBatchRequest :: "bytes \<Rightarrow> LeaseKeepAliveBatchRequest option"
  unmarshal_LeaseTimeToLiveRequest :: "bytes \<Rightarrow> LeaseTimeToLiveRequest option"
  unmarshal_LeaseLeasesRequest :: "bytes \<Rightarrow> unit option"
  unmarshal_TickRequest :: "bytes \<Rightarrow> TickRequest option"
  unmarshal_TermRequest :: "bytes \<Rightarrow> TermRequest option"

text \<open>An environment for the concrete runs. Nothing is unmarshalled or written out: the runs call the
  commands with messages.\<close>

definition plain_sm_env :: sm_env where
  "plain_sm_env = env.extend plain_env
     \<lparr>shardID = 1, replicaID = 1, marshal = (\<lambda>_. Inr []), err_Error = (\<lambda>_. []),
      unmarshal_PutRequest = (\<lambda>_. None), unmarshal_DeleteRangeRequest = (\<lambda>_. None),
      unmarshal_RangeRequest = (\<lambda>_. None), unmarshal_CompactionRequest = (\<lambda>_. None),
      unmarshal_TxnRequest = (\<lambda>_. None), unmarshal_LeaseGrantRequest = (\<lambda>_. None),
      unmarshal_LeaseRevokeRequest = (\<lambda>_. None), unmarshal_LeaseKeepAliveRequest = (\<lambda>_. None),
      unmarshal_LeaseKeepAliveBatchRequest = (\<lambda>_. None),
      unmarshal_LeaseTimeToLiveRequest = (\<lambda>_. None), unmarshal_LeaseLeasesRequest = (\<lambda>_. None),
      unmarshal_TickRequest = (\<lambda>_. None), unmarshal_TermRequest = (\<lambda>_. None)\<rparr>"

end
