(* ===== verification/State_Machine.thy ===== *)
theory State_Machine
  imports Db_Kv Messages
begin

text \<open>
  The replicated state machine, \<open>src/state_machine.go\<close>: \<open>Open\<close>, the commands applied by
  \<open>Update\<close>, the queries answered by \<open>Query\<close>.

  The state of the machine is the state of the LMDB environment. An \<open>Update\<close> runs in one write
  transaction: an error aborts it and panics, which is the \<open>Inl\<close> of the model. The handler of each
  command is a definition of its own over the variables of \<open>Update\<close> (\<open>upd\<close>); the \<open>switch\<close> is
  \<open>update_entry\<close>. A sub-transaction (\<open>txn.Sub\<close>) keeps the state it started from when it fails.
  Logging, the clock and the counters of the statistics are left out.
\<close>

section \<open>Open\<close>

definition sm_Open :: "'t lmdb \<Rightarrow> 't \<Rightarrow> ('t \<times> u64) result" where
  "sm_Open L t =
     bindE (newDbMeta L t) (\<lambda>(t1, index).
     bindE (newDbStats L t1) (\<lambda>t2.
     bindE (newDbKv L t2) (\<lambda>t3.
     bindE (newDbLease L t3) (\<lambda>t4.
     bindE (newDbLeaseExp L t4) (\<lambda>t5.
     bindE (newDbLeaseKey L t5) (\<lambda>t6.
     Inr (t6, index)))))))"

definition responseHeader :: "'x sm_env_scheme \<Rightarrow> u64 \<Rightarrow> ResponseHeader" where
  "responseHeader env rv = \<lparr>Header_Revision = rv, Header_ClusterId = shardID env,
     Header_MemberId = replicaID env, Header_RaftTerm = 0\<rparr>"

section \<open>Commands\<close>

definition cmdPut_lease :: "'t lmdb \<Rightarrow> 't \<Rightarrow> kv \<Rightarrow> PutRequest \<Rightarrow> 't result" where
  "cmdPut_lease L t prev req =
     (if \<not> PutRequest_IgnoreLease req \<and> kv_lease prev \<noteq> PutRequest_Lease req then
        bindE (if 0 < sint (PutRequest_Lease req)
               then dbLeaseKey_put L t (PutRequest_Lease req) (PutRequest_Key req) else Inr t) (\<lambda>t1.
        if 0 < kv_lease prev then dbLeaseKey_del L t1 (kv_lease prev) (PutRequest_Key req) else Inr t1)
      else Inr t)"

definition cmdPut :: "'x sm_env_scheme \<Rightarrow> 't lmdb \<Rightarrow> 't \<Rightarrow> u64 \<Rightarrow> u64 \<Rightarrow> u64 \<Rightarrow> PutRequest
    \<Rightarrow> ('t \<times> PutResponse \<times> u64 \<times> bytes list) result" where
  "cmdPut env L t rv subrev epoch req =
     bindE (dbKv_put env L t rv subrev (PutRequest_Lease req) epoch (PutRequest_Key req)
              (PutRequest_Value req) (PutRequest_IgnoreValue req) (PutRequest_IgnoreLease req))
       (\<lambda>(t1, prev, _, patched).
     bindE (cmdPut_lease L t1 prev req) (\<lambda>t2.
     Inr (t2, \<lparr>PutResponse_Header = None,
               PutResponse_PrevKv = (if PutRequest_PrevKv req then Some (ToProto prev) else None)\<rparr>,
          1, [PutRequest_Key req])))"

fun cmdDeleteRange_leases :: "'t lmdb \<Rightarrow> keyrecord list \<Rightarrow> 't \<Rightarrow> 't result" where
  "cmdDeleteRange_leases L [] t = Inr t"
| "cmdDeleteRange_leases L (krec # krecs) t =
     bindE (if krec_lease krec \<noteq> 0 then dbLeaseKey_del L t (krec_lease krec) (krec_key krec) else Inr t)
       (cmdDeleteRange_leases L krecs)"

text \<open>The previous values: an error is kept only until the next one is read.\<close>

fun cmdDeleteRange_prevKvs :: "'x env_scheme \<Rightarrow> 't lmdb \<Rightarrow> 't \<Rightarrow> keyrecord list \<Rightarrow> KeyValue list
    \<Rightarrow> error option \<Rightarrow> (KeyValue list \<times> error option) result" where
  "cmdDeleteRange_prevKvs env L t [] kvs err = Inr (kvs, err)"
| "cmdDeleteRange_prevKvs env L t (prec # precs) kvs err =
     bindE (dbKv_getRev env L t (krec_key prec) (upper (krec_rev prec)) False) (\<lambda>(item, _, err1).
     cmdDeleteRange_prevKvs env L t precs (kvs @ [ToProto item]) err1)"

definition cmdDeleteRange :: "'x sm_env_scheme \<Rightarrow> 't lmdb \<Rightarrow> 't \<Rightarrow> u64 \<Rightarrow> u64 \<Rightarrow> u64 \<Rightarrow> DeleteRangeRequest
    \<Rightarrow> ('t \<times> DeleteRangeResponse \<times> bytes list) result" where
  "cmdDeleteRange env L t rv subrev epoch req =
     bindE (dbKv_deleteRange env L t rv subrev epoch (DeleteRangeRequest_Key req)
              (DeleteRangeRequest_RangeEnd req)) (\<lambda>(t1, prev, n).
     let keys = replicate (length prev) [] @ map krec_key prev in
     bindE (cmdDeleteRange_leases L prev t1) (\<lambda>t2.
     let res = \<lparr>DeleteRangeResponse_Header = Some (responseHeader env rv),
                DeleteRangeResponse_Deleted = n, DeleteRangeResponse_PrevKvs = []\<rparr> in
     if DeleteRangeRequest_PrevKv req then
       bindE (cmdDeleteRange_prevKvs env L t2 prev [] None) (\<lambda>(kvs, err).
       case err of Some e \<Rightarrow> Inl e
       | None \<Rightarrow> Inr (t2, res\<lparr>DeleteRangeResponse_PrevKvs := kvs\<rparr>, keys))
     else Inr (t2, res, keys)))"

text \<open>The loop that looks for a lease id that is not in use.\<close>

fun nextLeaseID :: "'t lmdb \<Rightarrow> nat \<Rightarrow> 't \<Rightarrow> u64 \<Rightarrow> u64 result" where
  "nextLeaseID L 0 t lid = Inl NoReturn"
| "nextLeaseID L (Suc n) t lid =
     (let lid1 = lid + 1 in
      bindE (dbLease_get L t lid1) (\<lambda>found.
      if lease_id found = 0 then Inr lid1 else nextLeaseID L n t lid1))"

definition cmdLeaseGrant :: "'t lmdb \<Rightarrow> 't \<Rightarrow> u64 \<Rightarrow> LeaseGrantRequest
    \<Rightarrow> ('t \<times> LeaseGrantResponse \<times> u64) result" where
  "cmdLeaseGrant L t epoch req =
     (let res = \<lparr>LeaseGrantResponse_Header = None, LeaseGrantResponse_ID = 0,
                 LeaseGrantResponse_TTL = 0, LeaseGrantResponse_Error = None\<rparr> in
      bindE
        (if LeaseGrantRequest_ID req = 0 then
           bindE (getLeaseID L t) (\<lambda>lid.
           bindE (nextLeaseID L (Suc (mdb_Entries L t DBI_lease)) t lid) (\<lambda>lid1.
           bindE (setLeaseID L t lid1) (\<lambda>t1. Inr (t1, lease_zero\<lparr>lease_id := lid1\<rparr>))))
         else
           bindE (dbLease_get L t (LeaseGrantRequest_ID req)) (\<lambda>item.
           Inr (t, item\<lparr>lease_id := LeaseGrantRequest_ID req\<rparr>)))
        (\<lambda>(t1, item).
         if 0 < lease_expires item
         then Inr (t1, res\<lparr>LeaseGrantResponse_Error := Some ErrGRPCLeaseExist\<rparr>, 0)
         else
           let item1 = item\<lparr>lease_renewed := epoch, lease_expires := epoch + LeaseGrantRequest_TTL req\<rparr> in
           bindE (dbLease_put L t1 item1) (\<lambda>t2.
           bindE (dbLeaseExp_put L t2 item1) (\<lambda>t3.
           Inr (t3, res\<lparr>LeaseGrantResponse_ID := lease_id item1,
                        LeaseGrantResponse_TTL := LeaseGrantRequest_TTL req\<rparr>, 1)))))"

text \<open>The batches of \<open>cmdLeaseRevoke\<close>: \<open>make([][]byte, 100)\<close> fixes the capacity.\<close>

fun cmdLeaseRevoke_loop :: "'t lmdb \<Rightarrow> nat \<Rightarrow> u64 \<Rightarrow> u64 \<Rightarrow> u64 \<Rightarrow> 't \<Rightarrow> bytes list
    \<Rightarrow> ('t \<times> bytes list) result" where
  "cmdLeaseRevoke_loop L 0 rv epoch lid t keys = Inl NoReturn"
| "cmdLeaseRevoke_loop L (Suc n) rv epoch lid t keys =
     bindE (dbLeaseKey_sweep L t lid 100) (\<lambda>(t1, batch).
     if batch = [] then Inr (t1, keys)
     else
       bindE (dbKv_deleteBatch L t1 rv 0 epoch batch) (\<lambda>t2.
       cmdLeaseRevoke_loop L n rv epoch lid t2 (keys @ batch)))"

definition codes_NotFound :: u64 where "codes_NotFound = 5"

definition cmdLeaseRevoke :: "'t lmdb \<Rightarrow> 't \<Rightarrow> u64 \<Rightarrow> u64 \<Rightarrow> u64 \<Rightarrow> ('t \<times> bytes list \<times> u64) result" where
  "cmdLeaseRevoke L t rv epoch lid =
     bindE (dbLease_get L t lid) (\<lambda>item.
     if lease_id item = 0 then Inr (t, [], codes_NotFound)
     else
       bindE (cmdLeaseRevoke_loop L (Suc (mdb_Entries L t DBI_lease_key)) rv epoch (lease_id item) t [])
         (\<lambda>(t1, keys).
       bindE (dbLeaseExp_del L t1 item) (\<lambda>t2.
       bindE (dbLease_del L t2 (lease_id item)) (\<lambda>t3.
       Inr (t3, keys, 1)))))"

definition lease_renew :: "'t lmdb \<Rightarrow> 't \<Rightarrow> u64 \<Rightarrow> lease \<Rightarrow> ('t \<times> i64) result" where
  "lease_renew L t epoch item =
     (let ttl = lease_expires item - lease_renewed item;
          item1 = item\<lparr>lease_expires := epoch + ttl, lease_renewed := epoch\<rparr> in
      bindE (dbLease_put L t item1) (\<lambda>t1.
      bindE (dbLeaseExp_put L t1 item1) (\<lambda>t2. Inr (t2, ttl))))"

definition cmdLeaseKeepAlive :: "'t lmdb \<Rightarrow> 't \<Rightarrow> u64 \<Rightarrow> LeaseKeepAliveRequest
    \<Rightarrow> ('t \<times> LeaseKeepAliveResponse \<times> u64) result" where
  "cmdLeaseKeepAlive L t epoch req =
     (let res = \<lparr>LeaseKeepAliveResponse_Header = None,
                 LeaseKeepAliveResponse_ID = LeaseKeepAliveRequest_ID req,
                 LeaseKeepAliveResponse_TTL = 0\<rparr> in
      bindE (dbLease_get L t (LeaseKeepAliveRequest_ID req)) (\<lambda>item.
      if lease_id item = 0 then Inr (t, res, 1)
      else
        bindE (lease_renew L t epoch item) (\<lambda>(t1, ttl).
        Inr (t1, res\<lparr>LeaseKeepAliveResponse_TTL := ttl\<rparr>, 1))))"

fun cmdLeaseKeepAliveBatch_loop :: "'t lmdb \<Rightarrow> u64 \<Rightarrow> i64 list \<Rightarrow> 't \<Rightarrow> i64 list \<Rightarrow> ('t \<times> i64 list) result" where
  "cmdLeaseKeepAliveBatch_loop L epoch [] t ttls = Inr (t, ttls)"
| "cmdLeaseKeepAliveBatch_loop L epoch (lid # lids) t ttls =
     bindE (dbLease_get L t lid) (\<lambda>item.
     if lease_id item = 0 then cmdLeaseKeepAliveBatch_loop L epoch lids t (ttls @ [0])
     else
       bindE (lease_renew L t epoch item) (\<lambda>(t1, ttl).
       cmdLeaseKeepAliveBatch_loop L epoch lids t1 (ttls @ [ttl])))"

definition cmdLeaseKeepAliveBatch :: "'t lmdb \<Rightarrow> 't \<Rightarrow> u64 \<Rightarrow> LeaseKeepAliveBatchRequest
    \<Rightarrow> ('t \<times> LeaseKeepAliveBatchResponse \<times> u64) result" where
  "cmdLeaseKeepAliveBatch L t epoch req =
     bindE (cmdLeaseKeepAliveBatch_loop L epoch (LeaseKeepAliveBatchRequest_IDs req) t []) (\<lambda>(t1, ttls).
     Inr (t1, \<lparr>LeaseKeepAliveBatchResponse_Header = None, LeaseKeepAliveBatchResponse_TTLs = ttls\<rparr>, 1))"

section \<open>Queries over a transaction\<close>

definition queryRange :: "'x sm_env_scheme \<Rightarrow> 't lmdb \<Rightarrow> 't \<Rightarrow> u64 \<Rightarrow> RangeRequest \<Rightarrow> RangeResponse result" where
  "queryRange env L t rv req =
     bindE
       (if 0 < sint (RangeRequest_Revision req) then
          bindE (getRevisionMin L t) (\<lambda>mn.
          if sint (RangeRequest_Revision req) < sint mn then Inl ErrGRPCCompacted
          else if sint (RangeRequest_Revision req) > sint rv then Inl ErrGRPCFutureRev
          else Inr ())
        else Inr ())
       (\<lambda>_.
     bindE (dbKv_getRange env L t
              \<lparr>ra_key = RangeRequest_Key req, ra_end = RangeRequest_RangeEnd req,
               ra_revision = RangeRequest_Revision req, ra_minMod = RangeRequest_MinModRevision req,
               ra_maxMod = RangeRequest_MaxModRevision req,
               ra_minCreated = RangeRequest_MinCreateRevision req,
               ra_maxCreated = RangeRequest_MaxCreateRevision req, ra_limit = RangeRequest_Limit req,
               ra_keysOnly = RangeRequest_KeysOnly req\<rparr>
              (RangeRequest_CountOnly req)) (\<lambda>(items, cnt, more).
     Inr \<lparr>RangeResponse_Header = Some (responseHeader env rv),
          RangeResponse_Kvs = (if RangeRequest_CountOnly req then [] else map ToProto items),
          RangeResponse_More = (\<not> RangeRequest_CountOnly req \<and> more),
          RangeResponse_Count =
            (if RangeRequest_CountOnly req \<or> PCB_RANGE_COUNT_FULL env \<or> PCB_RANGE_COUNT_FAKE env
             then word_of_int cnt else 0)\<rparr>))"

definition queryLeaseLeases :: "'t lmdb \<Rightarrow> 't \<Rightarrow> LeaseLeasesResponse result" where
  "queryLeaseLeases L t =
     bindE (dbLease_all L t) (\<lambda>items.
     Inr \<lparr>LeaseLeasesResponse_Header = None, LeaseLeasesResponse_Leases = map lease_id items\<rparr>)"

definition queryLeaseTimeToLive :: "'t lmdb \<Rightarrow> 't \<Rightarrow> LeaseTimeToLiveRequest \<Rightarrow> LeaseTimeToLiveResponse result" where
  "queryLeaseTimeToLive L t req =
     bindE (getEpoch L t) (\<lambda>epoch.
     bindE (dbLease_get L t (LeaseTimeToLiveRequest_ID req)) (\<lambda>item.
     Inr \<lparr>LeaseTimeToLiveResponse_Header = None,
          LeaseTimeToLiveResponse_TTL = (if 0 < lease_expires item then lease_expires item - epoch else - 1)\<rparr>))"

section \<open>Transactions\<close>

text \<open>The operations of a transaction run in a sub-transaction. The slices \<open>res\<close> and \<open>keys\<close> are
  variables of the caller: what was appended before an error stays.\<close>

fun txnOps_loop :: "'x sm_env_scheme \<Rightarrow> 't lmdb \<Rightarrow> u64 \<Rightarrow> u64 \<Rightarrow> u64 \<Rightarrow> RequestOp list \<Rightarrow> 't
    \<Rightarrow> ResponseOp list \<Rightarrow> bytes list \<Rightarrow> 't \<times> ResponseOp list \<times> bytes list \<times> error option" where
  "txnOps_loop env L rv epoch i [] t res keys = (t, res, keys, None)"
| "txnOps_loop env L rv epoch i (op # ops) t res keys =
     (case op of
        RequestPut putReq \<Rightarrow>
          (case cmdPut env L t rv i epoch putReq of
             Inl err \<Rightarrow> (t, res, keys, Some err)
           | Inr (t1, putRes, _, affected) \<Rightarrow>
               txnOps_loop env L rv epoch (i + 1) ops t1 (res @ [ResponsePut putRes]) (keys @ affected))
      | RequestDeleteRange delReq \<Rightarrow>
          (case cmdDeleteRange env L t rv i epoch delReq of
             Inl err \<Rightarrow> (t, res, keys, Some err)
           | Inr (t1, delRes, affected) \<Rightarrow>
               txnOps_loop env L rv epoch (i + 1) ops t1 (res @ [ResponseDeleteRange delRes]) (keys @ affected))
      | RequestRange rangeReq \<Rightarrow>
          (case queryRange env L t rv rangeReq of
             Inl err \<Rightarrow> (t, res, keys, Some err)
           | Inr rangeRes \<Rightarrow>
               txnOps_loop env L rv epoch (i + 1) ops t (res @ [ResponseRange rangeRes]) keys)
      | RequestOp_other \<Rightarrow> txnOps_loop env L rv epoch (i + 1) ops t res keys)"

definition txnOps :: "'x sm_env_scheme \<Rightarrow> 't lmdb \<Rightarrow> 't \<Rightarrow> u64 \<Rightarrow> u64 \<Rightarrow> RequestOp list
    \<Rightarrow> 't \<times> ResponseOp list \<times> bytes list \<times> error option" where
  "txnOps env L t rv epoch ops =
     (case txnOps_loop env L rv epoch 0 ops t [] [] of
        (t1, res, keys, None) \<Rightarrow> (t1, res, keys, None)
      | (_, res, keys, Some err) \<Rightarrow> (t, res, keys, Some err))"

definition txnIntCompare :: "CompareResult \<Rightarrow> i64 \<Rightarrow> i64 \<Rightarrow> bool" where
  "txnIntCompare cond a b =
     (case cond of
        Compare_EQUAL \<Rightarrow> a = b
      | Compare_GREATER \<Rightarrow> sint a > sint b
      | Compare_LESS \<Rightarrow> sint a < sint b
      | Compare_NOT_EQUAL \<Rightarrow> a \<noteq> b
      | CompareResult_unknown \<Rightarrow> False)"

text \<open>One comparison against the item read. A target union of another type than the target
  panics; a result or target without a name leaves the verdict as it is, which is \<open>True\<close>.\<close>

definition txnCompare_cond :: "kv \<Rightarrow> Compare \<Rightarrow> bool result" where
  "txnCompare_cond item cond =
     (if 0 < length (kv_key item) \<and> Compare_Key cond \<noteq> kv_key item then Inr False else
      case Compare_Target cond of
        Compare_VERSION \<Rightarrow>
          (case Compare_TargetUnion cond of
             Compare_Version v \<Rightarrow> Inr (txnIntCompare (Compare_Result cond) (kv_version item) v)
           | _ \<Rightarrow> Inl GoPanic)
      | Compare_CREATE \<Rightarrow>
          (case Compare_TargetUnion cond of
             Compare_CreateRevision v \<Rightarrow> Inr (txnIntCompare (Compare_Result cond) (kv_created item) v)
           | _ \<Rightarrow> Inl GoPanic)
      | Compare_MOD \<Rightarrow>
          (case Compare_TargetUnion cond of
             Compare_ModRevision v \<Rightarrow> Inr (txnIntCompare (Compare_Result cond) (upper (kv_rev item)) v)
           | _ \<Rightarrow> Inl GoPanic)
      | Compare_LEASE \<Rightarrow>
          (case Compare_TargetUnion cond of
             Compare_Lease v \<Rightarrow> Inr (txnIntCompare (Compare_Result cond) (kv_lease item) v)
           | _ \<Rightarrow> Inl GoPanic)
      | Compare_VALUE \<Rightarrow>
          (case Compare_TargetUnion cond of
             Compare_Value v \<Rightarrow>
               Inr (case Compare_Result cond of
                      Compare_EQUAL \<Rightarrow> sl (kv_val item) = v
                    | Compare_GREATER \<Rightarrow> sl (kv_val item) > v
                    | Compare_LESS \<Rightarrow> sl (kv_val item) < v
                    | Compare_NOT_EQUAL \<Rightarrow> sl (kv_val item) \<noteq> v
                    | CompareResult_unknown \<Rightarrow> True)
           | _ \<Rightarrow> Inl GoPanic)
      | CompareTarget_unknown \<Rightarrow> Inr True)"

fun txnCompare :: "'x env_scheme \<Rightarrow> 't lmdb \<Rightarrow> 't \<Rightarrow> Compare list \<Rightarrow> bool result" where
  "txnCompare env L t [] = Inr True"
| "txnCompare env L t (cond # conds) =
     bindE (dbKv_get env L t (Compare_Key cond)) (\<lambda>(item, err).
     case err of Some e \<Rightarrow> Inl e | None \<Rightarrow>
     bindE (txnCompare_cond item cond) (\<lambda>success.
     if success then txnCompare env L t conds else Inr False))"

section \<open>Update\<close>

record Entry =
  Entry_Index :: u64
  Entry_Cmd :: bytes
  Result_Value :: u64
  Result_Data :: bytes

text \<open>The variables of \<open>Update\<close> that live across entries.\<close>

record 't upd =
  u_txn :: 't
  u_epoch :: u64
  u_newRev :: u64
  u_keys :: "bytes list"

definition cmd_body :: "Entry \<Rightarrow> bytes" where
  "cmd_body ent = butlast (Entry_Cmd ent)"

text \<open>\<open>if len(affected) > 0 { newRev++ }\<close>\<close>

definition bumpRev :: "u64 \<Rightarrow> bytes list \<Rightarrow> u64" where
  "bumpRev newRev affected = (if 0 < length affected then newRev + 1 else newRev)"

definition update_Put :: "'x sm_env_scheme \<Rightarrow> 't lmdb \<Rightarrow> 't upd \<Rightarrow> Entry \<Rightarrow> ('t upd \<times> Entry) result" where
  "update_Put env L u ent =
     (case unmarshal_PutRequest env (cmd_body ent) of
        None \<Rightarrow> Inr (u, ent)
      | Some req \<Rightarrow>
          if PutRequest_IgnoreLease req \<and> PutRequest_Lease req \<noteq> 0
          then Inr (u, ent\<lparr>Result_Data := err_Error env ErrGRPCLeaseProvided\<rparr>)
          else if PutRequest_IgnoreValue req \<and> length (sl (PutRequest_Value req)) \<noteq> 0
          then Inr (u, ent\<lparr>Result_Data := err_Error env ErrGRPCValueProvided\<rparr>)
          else
            bindE (if PutRequest_Lease req \<noteq> 0
                   then bindE (dbLease_get L (u_txn u) (PutRequest_Lease req)) (\<lambda>item. Inr (lease_id item \<noteq> 0))
                   else Inr True) (\<lambda>leased.
            if \<not> leased then Inr (u, ent\<lparr>Result_Data := err_Error env ErrGRPCLeaseNotFound\<rparr>)
            else
              (case cmdPut env L (u_txn u) (u_newRev u + 1) 0 (u_epoch u) req of
                 Inl err \<Rightarrow>
                   if err = ErrGRPCKeyTooLong \<or> err = ErrGRPCEmptyKey
                   then Inr (u, ent\<lparr>Result_Data := err_Error env err\<rparr>)
                   else Inl err
               | Inr (t1, res, val, affected) \<Rightarrow>
                   let newRev = bumpRev (u_newRev u) affected in
                   bindE (marshal env (MPut (res\<lparr>PutResponse_Header := Some (responseHeader env newRev)\<rparr>)))
                     (\<lambda>data.
                   Inr (u\<lparr>u_txn := t1, u_newRev := newRev, u_keys := u_keys u @ affected\<rparr>,
                        ent\<lparr>Result_Data := data, Result_Value := val\<rparr>)))))"

definition update_DeleteRange :: "'x sm_env_scheme \<Rightarrow> 't lmdb \<Rightarrow> 't upd \<Rightarrow> Entry \<Rightarrow> ('t upd \<times> Entry) result" where
  "update_DeleteRange env L u ent =
     (case unmarshal_DeleteRangeRequest env (cmd_body ent) of
        None \<Rightarrow> Inr (u, ent)
      | Some reqDel \<Rightarrow>
          bindE (cmdDeleteRange env L (u_txn u) (u_newRev u + 1) 0 (u_epoch u) reqDel)
            (\<lambda>(t1, resDel, affected).
          let newRev = bumpRev (u_newRev u) affected in
          bindE (marshal env (MDeleteRange (resDel\<lparr>DeleteRangeResponse_Header := Some (responseHeader env newRev)\<rparr>)))
            (\<lambda>data.
          Inr (u\<lparr>u_txn := t1, u_newRev := newRev, u_keys := u_keys u @ affected\<rparr>,
               ent\<lparr>Result_Data := data, Result_Value := 1\<rparr>))))"

definition update_Compact :: "'x sm_env_scheme \<Rightarrow> 't lmdb \<Rightarrow> 't upd \<Rightarrow> Entry \<Rightarrow> ('t upd \<times> Entry) result" where
  "update_Compact env L u ent =
     (case unmarshal_CompactionRequest env (cmd_body ent) of
        None \<Rightarrow> Inr (u, ent)
      | Some req \<Rightarrow>
          bindE (dbKv_compact L (u_txn u) (CompactionRequest_Revision req)) (\<lambda>(t1, rv).
          bindE (marshal env (MCompaction \<lparr>CompactionResponse_Header = Some (responseHeader env (u_newRev u))\<rparr>))
            (\<lambda>data.
          bindE (setRevisionMin L t1 (CompactionRequest_Revision req)) (\<lambda>t2.
          bindE (setRevisionCompacted L t2 rv) (\<lambda>t3.
          Inr (u\<lparr>u_txn := t3\<rparr>, ent\<lparr>Result_Data := data, Result_Value := 1\<rparr>))))))"

text \<open>A failure to marshal the response of a transaction is not checked: the data is then empty.\<close>

definition update_Txn :: "'x sm_env_scheme \<Rightarrow> 't lmdb \<Rightarrow> 't upd \<Rightarrow> Entry \<Rightarrow> ('t upd \<times> Entry) result" where
  "update_Txn env L u ent =
     (case unmarshal_TxnRequest env (cmd_body ent) of
        None \<Rightarrow> Inr (u, ent)
      | Some req \<Rightarrow>
          bindE (txnCompare env L (u_txn u) (TxnRequest_Compare req)) (\<lambda>success.
          let (t1, responses, affected, err) =
                txnOps env L (u_txn u) (u_newRev u + 1) (u_epoch u)
                  (if success then TxnRequest_Success req else TxnRequest_Failure req);
              newRev = bumpRev (u_newRev u) affected in
          case err of
            Some e \<Rightarrow>
              if e = ErrGRPCDuplicateKey \<or> e = ErrGRPCKeyTooLong \<or> e = ErrGRPCEmptyKey
              then Inr (u\<lparr>u_txn := t1, u_newRev := newRev\<rparr>, ent\<lparr>Result_Data := err_Error env e\<rparr>)
              else Inl e
          | None \<Rightarrow>
              let res = \<lparr>TxnResponse_Header = Some (responseHeader env newRev),
                         TxnResponse_Succeeded = success, TxnResponse_Responses = responses\<rparr>;
                  data = (case marshal env (MTxn res) of Inl _ \<Rightarrow> [] | Inr b \<Rightarrow> b) in
              Inr (u\<lparr>u_txn := t1, u_newRev := newRev, u_keys := u_keys u @ affected\<rparr>,
                   ent\<lparr>Result_Data := data, Result_Value := 1\<rparr>)))"

definition update_LeaseGrant :: "'x sm_env_scheme \<Rightarrow> 't lmdb \<Rightarrow> 't upd \<Rightarrow> Entry \<Rightarrow> ('t upd \<times> Entry) result" where
  "update_LeaseGrant env L u ent =
     (case unmarshal_LeaseGrantRequest env (cmd_body ent) of
        None \<Rightarrow> Inr (u, ent)
      | Some req \<Rightarrow>
          bindE (cmdLeaseGrant L (u_txn u) (u_epoch u) req) (\<lambda>(t1, res, val).
          bindE (marshal env (MLeaseGrant (res\<lparr>LeaseGrantResponse_Header := Some (responseHeader env (u_newRev u))\<rparr>)))
            (\<lambda>data.
          Inr (u\<lparr>u_txn := t1\<rparr>, ent\<lparr>Result_Data := data, Result_Value := val\<rparr>))))"

definition update_LeaseRevoke :: "'x sm_env_scheme \<Rightarrow> 't lmdb \<Rightarrow> 't upd \<Rightarrow> Entry \<Rightarrow> ('t upd \<times> Entry) result" where
  "update_LeaseRevoke env L u ent =
     (case unmarshal_LeaseRevokeRequest env (cmd_body ent) of
        None \<Rightarrow> Inr (u, ent)
      | Some req \<Rightarrow>
          bindE (cmdLeaseRevoke L (u_txn u) (u_newRev u + 1) (u_epoch u) (LeaseRevokeRequest_ID req))
            (\<lambda>(t1, affected, val).
          let newRev = bumpRev (u_newRev u) affected in
          bindE (marshal env (MLeaseRevoke \<lparr>LeaseRevokeResponse_Header = Some (responseHeader env newRev)\<rparr>))
            (\<lambda>data.
          Inr (u\<lparr>u_txn := t1, u_newRev := newRev, u_keys := u_keys u @ affected\<rparr>,
               ent\<lparr>Result_Data := data, Result_Value := val\<rparr>))))"

definition update_LeaseKeepAlive :: "'x sm_env_scheme \<Rightarrow> 't lmdb \<Rightarrow> 't upd \<Rightarrow> Entry \<Rightarrow> ('t upd \<times> Entry) result" where
  "update_LeaseKeepAlive env L u ent =
     (case unmarshal_LeaseKeepAliveRequest env (cmd_body ent) of
        None \<Rightarrow> Inr (u, ent)
      | Some req \<Rightarrow>
          bindE (cmdLeaseKeepAlive L (u_txn u) (u_epoch u) req) (\<lambda>(t1, res, val).
          bindE (marshal env (MLeaseKeepAlive
                   (res\<lparr>LeaseKeepAliveResponse_Header := Some (responseHeader env (u_newRev u))\<rparr>))) (\<lambda>data.
          Inr (u\<lparr>u_txn := t1\<rparr>, ent\<lparr>Result_Data := data, Result_Value := val\<rparr>))))"

definition update_LeaseKeepAliveBatch :: "'x sm_env_scheme \<Rightarrow> 't lmdb \<Rightarrow> 't upd \<Rightarrow> Entry \<Rightarrow> ('t upd \<times> Entry) result" where
  "update_LeaseKeepAliveBatch env L u ent =
     (case unmarshal_LeaseKeepAliveBatchRequest env (cmd_body ent) of
        None \<Rightarrow> Inr (u, ent)
      | Some req \<Rightarrow>
          bindE (cmdLeaseKeepAliveBatch L (u_txn u) (u_epoch u) req) (\<lambda>(t1, res, val).
          bindE (marshal env (MLeaseKeepAliveBatch
                   (res\<lparr>LeaseKeepAliveBatchResponse_Header := Some (responseHeader env (u_newRev u))\<rparr>))) (\<lambda>data.
          Inr (u\<lparr>u_txn := t1\<rparr>, ent\<lparr>Result_Data := data, Result_Value := val\<rparr>))))"

text \<open>The body of the loop over the expired leases of a tick. Its state is \<open>newRev\<close> and \<open>keys\<close>.\<close>

definition tick_expire :: "'t lmdb \<Rightarrow> u64 \<Rightarrow> u64 \<Rightarrow> 't \<times> u64 \<times> bytes list
    \<Rightarrow> ('t \<times> u64 \<times> bytes list) result" where
  "tick_expire L epoch lid st =
     (let (t, newRev, keys) = st in
      bindE (cmdLeaseRevoke L t (newRev + 1) epoch lid) (\<lambda>(t1, affected, _).
      Inr (t1, bumpRev newRev affected, keys @ affected)))"

definition update_Tick :: "'x sm_env_scheme \<Rightarrow> 't lmdb \<Rightarrow> 't upd \<Rightarrow> Entry \<Rightarrow> ('t upd \<times> Entry) result" where
  "update_Tick env L u ent =
     (case unmarshal_TickRequest env (cmd_body ent) of
        None \<Rightarrow> Inr (u, ent)
      | Some req \<Rightarrow>
          bindE (getTerm L (u_txn u)) (\<lambda>term.
          if term > TickRequest_Term req
          then Inr (u, ent\<lparr>Result_Data := err_Error env ErrTermExpired\<rparr>)
          else
            let epoch = u_epoch u + 1 in
            bindE (setEpoch L (u_txn u) epoch) (\<lambda>t1.
            bindE (dbLeaseExp_scan L epoch (tick_expire L epoch) (t1, u_newRev u, u_keys u))
              (\<lambda>(t2, newRev, keys).
            bindE (marshal env (MTick epoch)) (\<lambda>data.
            Inr (\<lparr>u_txn = t2, u_epoch = epoch, u_newRev = newRev, u_keys = keys\<rparr>,
                 ent\<lparr>Result_Data := data, Result_Value := Entry_Index ent\<rparr>))))))"

definition update_Term :: "'x sm_env_scheme \<Rightarrow> 't lmdb \<Rightarrow> 't upd \<Rightarrow> Entry \<Rightarrow> ('t upd \<times> Entry) result" where
  "update_Term env L u ent =
     (case unmarshal_TermRequest env (cmd_body ent) of
        None \<Rightarrow> Inr (u, ent)
      | Some req \<Rightarrow>
          bindE (getTerm L (u_txn u)) (\<lambda>term.
          if term > TermRequest_Term req
          then Inr (u, ent\<lparr>Result_Data := err_Error env ErrTermExpired\<rparr>)
          else
            bindE (setTerm L (u_txn u) (TermRequest_Term req)) (\<lambda>t1.
            bindE (marshal env MTerm) (\<lambda>data.
            Inr (u\<lparr>u_txn := t1\<rparr>, ent\<lparr>Result_Data := data, Result_Value := Entry_Index ent\<rparr>)))))"

text \<open>The \<open>switch\<close> on the last byte of the command. An unknown byte is ignored.\<close>

definition update_entry :: "'x sm_env_scheme \<Rightarrow> 't lmdb \<Rightarrow> 't upd \<Rightarrow> Entry \<Rightarrow> ('t upd \<times> Entry) result" where
  "update_entry env L u ent =
     (if Entry_Cmd ent = [] then Inl GoPanic else
      let c = last (Entry_Cmd ent) in
      if c = CMD_KV_PUT then update_Put env L u ent
      else if c = CMD_KV_DELETE_RANGE then update_DeleteRange env L u ent
      else if c = CMD_KV_COMPACT then update_Compact env L u ent
      else if c = CMD_KV_TXN then update_Txn env L u ent
      else if c = CMD_LEASE_GRANT then update_LeaseGrant env L u ent
      else if c = CMD_LEASE_REVOKE then update_LeaseRevoke env L u ent
      else if c = CMD_LEASE_KEEP_ALIVE then update_LeaseKeepAlive env L u ent
      else if c = CMD_LEASE_KEEP_ALIVE_BATCH then update_LeaseKeepAliveBatch env L u ent
      else if c = CMD_INTERNAL_TICK then update_Tick env L u ent
      else if c = CMD_INTERNAL_TERM then update_Term env L u ent
      else Inr (u, ent))"

fun update_entries :: "'x sm_env_scheme \<Rightarrow> 't lmdb \<Rightarrow> 't upd \<Rightarrow> Entry list \<Rightarrow> ('t upd \<times> Entry list) result" where
  "update_entries env L u [] = Inr (u, [])"
| "update_entries env L u (ent # ents) =
     bindE (update_entry env L u ent) (\<lambda>(u1, ent1).
     bindE (update_entries env L u1 ents) (\<lambda>(u2, ents2).
     Inr (u2, ent1 # ents2)))"

text \<open>The result: the new state, the entries with their results, the revision before and after,
  and the keys whose watchers are alerted. \<open>localRevision\<close> becomes the new revision when it
  changed; every watcher \<open>FindAny\<close> finds for the keys gets the new revision.\<close>

record 't update_result =
  ur_txn :: 't
  ur_entries :: "Entry list"
  ur_rev :: u64
  ur_newRev :: u64
  ur_keys :: "bytes list"

definition sm_Update :: "'x sm_env_scheme \<Rightarrow> 't lmdb \<Rightarrow> 't \<Rightarrow> Entry list \<Rightarrow> 't update_result result" where
  "sm_Update env L t entries =
     bindE (getEpoch L t) (\<lambda>epoch.
     bindE (getRevision L t) (\<lambda>rv.
     bindE (update_entries env L \<lparr>u_txn = t, u_epoch = epoch, u_newRev = rv, u_keys = []\<rparr> entries)
       (\<lambda>(u, entries1).
     if entries1 = [] then Inl GoPanic else
     bindE (setIndex L (u_txn u) (Entry_Index (last entries1))) (\<lambda>t1.
     bindE (if u_newRev u > rv then setRevision L t1 (u_newRev u) else Inr t1) (\<lambda>t2.
     Inr \<lparr>ur_txn = t2, ur_entries = entries1, ur_rev = rv, ur_newRev = u_newRev u,
          ur_keys = u_keys u\<rparr>)))))"

end
