(* ===== verification/Sm_Query.thy ===== *)
theory Sm_Query
  imports State_Machine
begin

text \<open>
  The read side of \<open>src/state_machine.go\<close>: \<open>Query\<close>, and the messages a watch sends (\<open>watch\<close>).

  A query runs in a read transaction over the state \<open>t\<close>. \<open>Query\<close> returns \<open>None\<close> where the source
  returns a nil result. A watch is split at its channel operations: the check of the start
  revision, the scan of the events since a revision, and the handling of an alert, each over the
  state of the store when it runs; the messages go out in the order of the lists.
\<close>

section \<open>Query\<close>

record sm_result =
  Res_Value :: u64
  Res_Data :: bytes

definition res_zero :: sm_result where "res_zero = \<lparr>Res_Value = 0, Res_Data = []\<rparr>"

definition query_Range :: "'x sm_env_scheme \<Rightarrow> 't lmdb \<Rightarrow> 't \<Rightarrow> bytes \<Rightarrow> sm_result option result" where
  "query_Range env L t body =
     (case unmarshal_RangeRequest env body of
        None \<Rightarrow> Inr (Some res_zero)
      | Some req \<Rightarrow>
          (case bindE (getRevision L t) (\<lambda>rv. queryRange env L t rv req) of
             Inl GoPanic \<Rightarrow> Inl GoPanic
           | Inl NoReturn \<Rightarrow> Inl NoReturn
           | Inl err \<Rightarrow> Inr (Some (res_zero\<lparr>Res_Data := err_Error env err\<rparr>))
           | Inr resp \<Rightarrow>
               (case marshal env (MRange resp) of
                  Inl _ \<Rightarrow> Inr None
                | Inr data \<Rightarrow> Inr (Some \<lparr>Res_Value = 1, Res_Data = data\<rparr>))))"

text \<open>What the lease queries and the header queries do with the marshalled response.\<close>

definition query_reply :: "'x sm_env_scheme \<Rightarrow> message \<Rightarrow> sm_result option result" where
  "query_reply env m =
     (case marshal env m of
        Inl err \<Rightarrow> Inr (Some (res_zero\<lparr>Res_Data := err_Error env err\<rparr>))
      | Inr data \<Rightarrow> Inr (Some \<lparr>Res_Value = 1, Res_Data = data\<rparr>))"

definition query_LeaseLeases :: "'x sm_env_scheme \<Rightarrow> 't lmdb \<Rightarrow> 't \<Rightarrow> bytes \<Rightarrow> sm_result option result" where
  "query_LeaseLeases env L t body =
     (case unmarshal_LeaseLeasesRequest env body of
        None \<Rightarrow> Inr (Some res_zero)
      | Some _ \<Rightarrow>
          (case bindE (getRevision L t) (\<lambda>rv. bindE (queryLeaseLeases L t) (\<lambda>resp. Inr (rv, resp))) of
             Inl GoPanic \<Rightarrow> Inl GoPanic
           | Inl NoReturn \<Rightarrow> Inl NoReturn
           | Inl err \<Rightarrow> Inr (Some (res_zero\<lparr>Res_Data := err_Error env err\<rparr>))
           | Inr (rv, resp) \<Rightarrow>
               query_reply env (MLeaseLeases (resp\<lparr>LeaseLeasesResponse_Header := Some (responseHeader env rv)\<rparr>))))"

definition query_LeaseTimeToLive :: "'x sm_env_scheme \<Rightarrow> 't lmdb \<Rightarrow> 't \<Rightarrow> bytes \<Rightarrow> sm_result option result" where
  "query_LeaseTimeToLive env L t body =
     (case unmarshal_LeaseTimeToLiveRequest env body of
        None \<Rightarrow> Inr (Some res_zero)
      | Some req \<Rightarrow>
          (case bindE (getRevision L t) (\<lambda>rv. bindE (queryLeaseTimeToLive L t req) (\<lambda>resp. Inr (rv, resp))) of
             Inl GoPanic \<Rightarrow> Inl GoPanic
           | Inl NoReturn \<Rightarrow> Inl NoReturn
           | Inl err \<Rightarrow> Inr (Some (res_zero\<lparr>Res_Data := err_Error env err\<rparr>))
           | Inr (rv, resp) \<Rightarrow>
               query_reply env (MLeaseTimeToLive
                 (resp\<lparr>LeaseTimeToLiveResponse_Header := Some (responseHeader env rv)\<rparr>))))"

text \<open>The two header queries drop the error of the read: the revision is then 0.\<close>

definition query_Header :: "'x sm_env_scheme \<Rightarrow> 't lmdb \<Rightarrow> 't \<Rightarrow> sm_result option result" where
  "query_Header env L t =
     (case getRevision L t of
        Inl GoPanic \<Rightarrow> Inl GoPanic
      | Inl _ \<Rightarrow> query_reply env (MHeader (responseHeader env 0))
      | Inr rv \<Rightarrow> query_reply env (MHeader (responseHeader env rv)))"

definition sm_Query :: "'x sm_env_scheme \<Rightarrow> 't lmdb \<Rightarrow> 't \<Rightarrow> bytes \<Rightarrow> sm_result option result" where
  "sm_Query env L t query =
     (if query = [] then Inl GoPanic else
      let q = last query; body = butlast query in
      if q = QUERY_KV_RANGE then query_Range env L t body
      else if q = QUERY_LEASE_LEASES then query_LeaseLeases env L t body
      else if q = QUERY_LEASE_TIME_TO_LIVE then query_LeaseTimeToLive env L t body
      else if q = QUERY_WATCH_PROGRESS then query_Header env L t
      else if q = QUERY_HEADER then query_Header env L t
      else Inr (Some res_zero))"

section \<open>Watch\<close>

text \<open>The events of a watch: those of its key, or of its range, that it does not filter.\<close>

definition watch_selects :: "WatchCreateRequest \<Rightarrow> kvEvent \<Rightarrow> bool" where
  "watch_selects req evt \<longleftrightarrow>
     (evt_key evt = WatchCreateRequest_Key req \<or>
      \<not> (WatchCreateRequest_RangeEnd req = [] \<or> WatchCreateRequest_Key req = WatchCreateRequest_RangeEnd req)
      \<and> \<not> evt_key evt < WatchCreateRequest_Key req
      \<and> \<not> WatchCreateRequest_RangeEnd req \<le> evt_key evt)
     \<and> etype evt \<notin> set (WatchCreateRequest_Filters req)"

text \<open>The message of an event. For a deletion the error of the lookup is overwritten.\<close>

definition watch_event :: "'x sm_env_scheme \<Rightarrow> 't lmdb \<Rightarrow> 't \<Rightarrow> WatchCreateRequest \<Rightarrow> u64 \<Rightarrow> kvEvent \<Rightarrow> sm_result result" where
  "watch_event env L t req rv evt =
     bindE
       (if isdel (evt_rev evt) then
          (let current = kv_zero\<lparr>kv_key := evt_key evt, kv_rev := evt_rev evt\<rparr> in
           if WatchCreateRequest_PrevKv req then
             bindE (dbKv_getRev env L t (evt_key evt) (upper (evt_rev evt)) (WatchCreateRequest_PrevKv req))
               (\<lambda>(_, prev, _). Inr (current, prev))
           else Inr (current, kv_zero))
        else
          bindE (dbKv_getRev env L t (evt_key evt) (upper (evt_rev evt)) (WatchCreateRequest_PrevKv req))
            (\<lambda>(current, prev, err). case err of Some e \<Rightarrow> Inl e | None \<Rightarrow> Inr (current, prev)))
       (\<lambda>(current, prev).
     let resp = \<lparr>Event_Type = etype evt,
                 Event_Kv = (if 0 < upper (kv_rev current) then Some (ToProto current) else None),
                 Event_PrevKv = (if 0 < upper (kv_rev prev) then Some (ToProto prev) else None)\<rparr> in
     bindE (marshal env (MEvent resp)) (\<lambda>data.
     Inr \<lparr>Res_Value = WatchCreateRequest_WatchId req,
          Res_Data = [WatchMessageType_EVENT] @ be64 rv @ data\<rparr>))"

text \<open>The loop over the events: the messages sent, and the error it ends with.\<close>

fun watch_events :: "'x sm_env_scheme \<Rightarrow> 't lmdb \<Rightarrow> 't \<Rightarrow> WatchCreateRequest \<Rightarrow> u64 \<Rightarrow> kvEvent list \<Rightarrow> sm_result list
    \<Rightarrow> sm_result list \<times> error option" where
  "watch_events env L t req rv [] out = (out, None)"
| "watch_events env L t req rv (evt # evts) out =
     (if \<not> watch_selects req evt then watch_events env L t req rv evts out
      else
        (case watch_event env L t req rv evt of
           Inl err \<Rightarrow> (out, Some err)
         | Inr res \<Rightarrow> watch_events env L t req rv evts (out @ [res])))"

text \<open>A message that carries a header only.\<close>

definition watch_header :: "'x sm_env_scheme \<Rightarrow> WatchCreateRequest \<Rightarrow> byte \<Rightarrow> u64 \<Rightarrow> sm_result result" where
  "watch_header env req mtype rv =
     bindE (marshal env (MHeader (responseHeader env rv))) (\<lambda>data.
     Inr \<lparr>Res_Value = WatchCreateRequest_WatchId req, Res_Data = [mtype] @ data\<rparr>)"

record scan_result =
  scan_rev :: u64
  scan_sent :: nat
  scan_out :: "sm_result list"
  scan_err :: "error option"

definition watch_scan :: "'x sm_env_scheme \<Rightarrow> 't lmdb \<Rightarrow> 't \<Rightarrow> WatchCreateRequest \<Rightarrow> u64 \<Rightarrow> scan_result" where
  "watch_scan env L t req since =
     (case getRevision L t of
        Inl err \<Rightarrow> \<lparr>scan_rev = 0, scan_sent = 0, scan_out = [], scan_err = Some err\<rparr>
      | Inr rv \<Rightarrow>
          if since = 0 then \<lparr>scan_rev = rv, scan_sent = 0, scan_out = [], scan_err = None\<rparr>
          else
            (case dbKv_scan L t since of
               Inl err \<Rightarrow> \<lparr>scan_rev = rv, scan_sent = 0, scan_out = [], scan_err = Some err\<rparr>
             | Inr evts \<Rightarrow>
                 let (out, err) = watch_events env L t req rv evts []; sent = length out in
                 if err \<noteq> None then \<lparr>scan_rev = rv, scan_sent = sent, scan_out = out, scan_err = err\<rparr>
                 else if 0 < sent then
                   (case watch_header env req WatchMessageType_SYNC rv of
                      Inl e \<Rightarrow> \<lparr>scan_rev = rv, scan_sent = sent, scan_out = out, scan_err = Some e\<rparr>
                    | Inr res \<Rightarrow> \<lparr>scan_rev = rv, scan_sent = sent, scan_out = out @ [res], scan_err = None\<rparr>)
                 else \<lparr>scan_rev = rv, scan_sent = sent, scan_out = out, scan_err = None\<rparr>))"

text \<open>The start of a watch: refused when its start revision is compacted, else \<open>INIT\<close> and the first
  scan. \<open>Inl\<close> is the end of the watch with the messages sent.\<close>

definition watch_start :: "'x sm_env_scheme \<Rightarrow> 't lmdb \<Rightarrow> 't \<Rightarrow> WatchCreateRequest
    \<Rightarrow> sm_result list + (u64 \<times> sm_result list)" where
  "watch_start env L t req =
     (let since = WatchCreateRequest_StartRevision req in
      case getRevisionMin L t of
        Inl err \<Rightarrow> Inl []
      | Inr mn \<Rightarrow>
          if 0 < since \<and> mn > since then
            (case watch_header env req WatchMessageType_ERR_COMPACTED mn of
               Inl _ \<Rightarrow> Inl [] | Inr res \<Rightarrow> Inl [res])
          else
            (case watch_header env req WatchMessageType_INIT 0 of
               Inl _ \<Rightarrow> Inl []
             | Inr res \<Rightarrow>
                 let s = watch_scan env L t req since in
                 if scan_err s \<noteq> None then Inl (res # scan_out s)
                 else Inr (scan_rev s, res # scan_out s)))"

text \<open>An alert: ignored when the events up to its revision are out already, else a scan from the
  revision after the last one scanned.\<close>

definition watch_alert :: "'x sm_env_scheme \<Rightarrow> 't lmdb \<Rightarrow> 't \<Rightarrow> WatchCreateRequest \<Rightarrow> u64 \<Rightarrow> u64
    \<Rightarrow> sm_result list + (u64 \<times> sm_result list)" where
  "watch_alert env L t req rv alertRev =
     (if alertRev \<le> rv then Inr (rv, [])
      else
        let s = watch_scan env L t req (rv + 1) in
        if scan_err s \<noteq> None then Inl (scan_out s)
        else if scan_sent s = 0 \<and> WatchCreateRequest_ProgressNotify req then
          (case watch_header env req WatchMessageType_NOTIFY (scan_rev s) of
             Inl _ \<Rightarrow> Inl (scan_out s)
           | Inr res \<Rightarrow> Inr (scan_rev s, scan_out s @ [res]))
        else Inr (scan_rev s, scan_out s))"

end
