(* ===== verification/Services.thy ===== *)
theory Services
  imports Sm_Query
begin

text \<open>
  The gRPC services over the shard client: \<open>src/service_kv.go\<close> and \<open>src/service_lease.go\<close>.

  The shard client (\<open>zongzi.ShardClient\<close>) and the protocol buffer runtime are parameters: the
  record \<open>client\<close> with the operations the services call over an unspecified state, and the record
  \<open>codec\<close>. A service returns its response or its error; a nil header is a panic, as in the source.
\<close>

section \<open>The client\<close>

record 'c client =
  client_Apply :: "'c \<Rightarrow> bytes \<Rightarrow> 'c \<times> (u64 \<times> bytes) result"
  client_Read :: "'c \<Rightarrow> bytes \<Rightarrow> bool \<Rightarrow> (u64 \<times> bytes) result"
  client_Leader :: "'c \<Rightarrow> u64 \<times> u64"
  client_localRevision :: "'c \<Rightarrow> u64"

record codec = config +
  svc_err_Error :: "error \<Rightarrow> bytes"
  marshal_PutRequest :: "PutRequest \<Rightarrow> bytes result"
  marshal_RangeRequest :: "RangeRequest \<Rightarrow> bytes result"
  marshal_DeleteRangeRequest :: "DeleteRangeRequest \<Rightarrow> bytes result"
  marshal_CompactionRequest :: "CompactionRequest \<Rightarrow> bytes result"
  marshal_TxnRequest :: "TxnRequest \<Rightarrow> bytes result"
  marshal_LeaseGrantRequest :: "LeaseGrantRequest \<Rightarrow> bytes result"
  marshal_LeaseRevokeRequest :: "LeaseRevokeRequest \<Rightarrow> bytes result"
  marshal_LeaseKeepAliveBatchRequest :: "LeaseKeepAliveBatchRequest \<Rightarrow> bytes result"
  marshal_LeaseTimeToLiveRequest :: "LeaseTimeToLiveRequest \<Rightarrow> bytes result"
  unmarshal_PutResponse :: "bytes \<Rightarrow> PutResponse \<times> error option"
  unmarshal_RangeResponse :: "bytes \<Rightarrow> RangeResponse \<times> error option"
  unmarshal_DeleteRangeResponse :: "bytes \<Rightarrow> DeleteRangeResponse \<times> error option"
  unmarshal_CompactionResponse :: "bytes \<Rightarrow> CompactionResponse \<times> error option"
  unmarshal_TxnResponse :: "bytes \<Rightarrow> TxnResponse \<times> error option"
  unmarshal_LeaseGrantResponse :: "bytes \<Rightarrow> LeaseGrantResponse \<times> error option"
  unmarshal_LeaseRevokeResponse :: "bytes \<Rightarrow> LeaseRevokeResponse \<times> error option"
  unmarshal_LeaseKeepAliveBatchResponse :: "bytes \<Rightarrow> LeaseKeepAliveBatchResponse \<times> error option"
  unmarshal_LeaseLeasesResponse :: "bytes \<Rightarrow> LeaseLeasesResponse \<times> error option"
  unmarshal_LeaseTimeToLiveResponse :: "bytes \<Rightarrow> LeaseTimeToLiveResponse \<times> error option"

text \<open>\<open>addTerm\<close> writes the leader's term into the header.\<close>

definition addTerm :: "'c client \<Rightarrow> 'c \<Rightarrow> ResponseHeader option \<Rightarrow> ResponseHeader option result" where
  "addTerm C c h = (case h of None \<Rightarrow> Inl GoPanic
     | Some h1 \<Rightarrow> Inr (Some (h1\<lparr>Header_RaftTerm := snd (client_Leader C c)\<rparr>)))"

text \<open>\<open>client.Apply(ctx, append(b, cmd))\<close> on a marshalled request.\<close>

definition svc_Apply :: "'c client \<Rightarrow> 'c \<Rightarrow> bytes result \<Rightarrow> byte \<Rightarrow> 'c \<times> (u64 \<times> bytes) result" where
  "svc_Apply C c mb cmd = (case mb of Inl e \<Rightarrow> (c, Inl e) | Inr b \<Rightarrow> client_Apply C c (b @ [cmd]))"

text \<open>\<open>if val != 1 { err = fmt.Errorf(data) }\<close>\<close>

definition val_data :: "u64 \<times> bytes \<Rightarrow> bytes result" where
  "val_data r = (if fst r \<noteq> 1 then Inl (ErrText (snd r)) else Inr (snd r))"

text \<open>\<open>err = proto.Unmarshal(data, res)\<close> leaves what it could decode in \<open>res\<close>, and the header of that gets the term before the
  error is returned: data that cannot be decoded up to the header makes \<open>addTerm\<close> panic.\<close>

definition answer :: "error option \<Rightarrow> 'a \<Rightarrow> 'a result" where
  "answer err res = (case err of None \<Rightarrow> Inr res | Some e \<Rightarrow> Inl e)"

section \<open>service_kv.go\<close>

definition Put_error :: "'x codec_scheme \<Rightarrow> bytes \<Rightarrow> error" where
  "Put_error K data =
     (if data = svc_err_Error K ErrGRPCLeaseProvided then ErrGRPCLeaseProvided
      else if data = svc_err_Error K ErrGRPCValueProvided then ErrGRPCValueProvided
      else if data = svc_err_Error K ErrGRPCKeyTooLong then ErrGRPCKeyTooLong
      else if data = svc_err_Error K ErrGRPCEmptyKey then ErrGRPCEmptyKey
      else ErrText data)"

definition svc_Put :: "'x codec_scheme \<Rightarrow> 'c client \<Rightarrow> 'c \<Rightarrow> PutRequest \<Rightarrow> 'c \<times> PutResponse result" where
  "svc_Put K C c req =
     (let (c1, r) = svc_Apply C c (marshal_PutRequest K req) CMD_KV_PUT in
      (c1, bindE r (\<lambda>(val, data).
           if val \<noteq> 1 then Inl (Put_error K data)
           else (let (res, err) = unmarshal_PutResponse K data in
                bindE (addTerm C c1 (PutResponse_Header res)) (\<lambda>h.
                answer err (res\<lparr>PutResponse_Header := h\<rparr>))))))"

text \<open>The request is marshalled before \<open>Serializable\<close> is set for a local read: the flag only
  reaches the client.\<close>

definition svc_Range :: "'x codec_scheme \<Rightarrow> 'c client \<Rightarrow> 'c \<Rightarrow> RangeRequest \<Rightarrow> RangeResponse result" where
  "svc_Range K C c req =
     bindE (marshal_RangeRequest K req) (\<lambda>b.
     let stale = (RangeRequest_Serializable req \<or>
           PCB_READ_LOCAL K \<and> 0 < sint (RangeRequest_Revision req)
           \<and> sint (RangeRequest_Revision req) \<le> sint (client_localRevision C c)) in
     bindE (client_Read C c (b @ [QUERY_KV_RANGE]) stale) (\<lambda>r.
     bindE (val_data r) (\<lambda>data.
     (let (res, err) = unmarshal_RangeResponse K data in
     bindE (addTerm C c (RangeResponse_Header res)) (\<lambda>h.
     answer err (res\<lparr>RangeResponse_Header := h\<rparr>))))))"

definition svc_DeleteRange :: "'x codec_scheme \<Rightarrow> 'c client \<Rightarrow> 'c \<Rightarrow> DeleteRangeRequest
    \<Rightarrow> 'c \<times> DeleteRangeResponse result" where
  "svc_DeleteRange K C c req =
     (let (c1, r) = svc_Apply C c (marshal_DeleteRangeRequest K req) CMD_KV_DELETE_RANGE in
      (c1, bindE r (\<lambda>vd. bindE (val_data vd) (\<lambda>data.
           (let (res, err) = unmarshal_DeleteRangeResponse K data in
           bindE (addTerm C c1 (DeleteRangeResponse_Header res)) (\<lambda>h.
           answer err (res\<lparr>DeleteRangeResponse_Header := h\<rparr>)))))))"

definition svc_Compact :: "'x codec_scheme \<Rightarrow> 'c client \<Rightarrow> 'c \<Rightarrow> CompactionRequest
    \<Rightarrow> 'c \<times> CompactionResponse result" where
  "svc_Compact K C c req =
     (let (c1, r) = svc_Apply C c (marshal_CompactionRequest K req) CMD_KV_COMPACT in
      (c1, bindE r (\<lambda>vd. bindE (val_data vd) (\<lambda>data.
           (let (res, err) = unmarshal_CompactionResponse K data in
           bindE (addTerm C c1 (CompactionResponse_Header res)) (\<lambda>h.
           answer err (res\<lparr>CompactionResponse_Header := h\<rparr>)))))))"

definition svc_Txn :: "'x codec_scheme \<Rightarrow> 'c client \<Rightarrow> 'c \<Rightarrow> TxnRequest \<Rightarrow> 'c \<times> TxnResponse result" where
  "svc_Txn K C c req =
     (let (c1, r) = svc_Apply C c (marshal_TxnRequest K req) CMD_KV_TXN in
      (c1, bindE r (\<lambda>vd. bindE (val_data vd) (\<lambda>data.
           (let (res, err) = unmarshal_TxnResponse K data in
           bindE (addTerm C c1 (TxnResponse_Header res)) (\<lambda>h.
           answer err (res\<lparr>TxnResponse_Header := h\<rparr>)))))))"

section \<open>service_lease.go\<close>

definition svc_LeaseGrant :: "'x codec_scheme \<Rightarrow> 'c client \<Rightarrow> 'c \<Rightarrow> LeaseGrantRequest
    \<Rightarrow> 'c \<times> LeaseGrantResponse result" where
  "svc_LeaseGrant K C c req =
     (let (c1, r) = svc_Apply C c (marshal_LeaseGrantRequest K req) CMD_LEASE_GRANT in
      (c1, bindE r (\<lambda>vd. bindE (val_data vd) (\<lambda>data.
           (let (res, err) = unmarshal_LeaseGrantResponse K data in
           if LeaseGrantResponse_Error res = Some ErrGRPCDuplicateKey then Inl ErrGRPCDuplicateKey
           else
             bindE (addTerm C c1 (LeaseGrantResponse_Header res)) (\<lambda>h.
             answer err (res\<lparr>LeaseGrantResponse_Header := h\<rparr>)))))))"

definition svc_LeaseRevoke :: "'x codec_scheme \<Rightarrow> 'c client \<Rightarrow> 'c \<Rightarrow> LeaseRevokeRequest
    \<Rightarrow> 'c \<times> LeaseRevokeResponse result" where
  "svc_LeaseRevoke K C c req =
     (let (c1, r) = svc_Apply C c (marshal_LeaseRevokeRequest K req) CMD_LEASE_REVOKE in
      (c1, bindE r (\<lambda>(val, data).
           if val = codes_NotFound then Inl ErrGRPCLeaseNotFound
           else
             (let (res, err) = unmarshal_LeaseRevokeResponse K data in
             bindE (addTerm C c1 (LeaseRevokeResponse_Header res)) (\<lambda>h.
             answer err (res\<lparr>LeaseRevokeResponse_Header := h\<rparr>))))))"

text \<open>The responses to one batch of renewals, in the order of the requests: fewer lifetimes than
  ids is an index out of range.\<close>

fun renewal_responses :: "i64 list \<Rightarrow> i64 list \<Rightarrow> LeaseKeepAliveResponse list result" where
  "renewal_responses [] ttls = Inr []"
| "renewal_responses (lid # lids) [] = Inl GoPanic"
| "renewal_responses (lid # lids) (ttl # ttls) =
     bindE (renewal_responses lids ttls) (\<lambda>rs.
     Inr (\<lparr>LeaseKeepAliveResponse_Header = None, LeaseKeepAliveResponse_ID = lid,
            LeaseKeepAliveResponse_TTL = ttl\<rparr> # rs))"

definition svc_LeaseKeepAlive_batch :: "'x codec_scheme \<Rightarrow> 'c client \<Rightarrow> 'c \<Rightarrow> i64 list
    \<Rightarrow> 'c \<times> LeaseKeepAliveResponse list result" where
  "svc_LeaseKeepAlive_batch K C c items =
     (case marshal_LeaseKeepAliveBatchRequest K \<lparr>LeaseKeepAliveBatchRequest_IDs = items\<rparr> of
        Inl err \<Rightarrow> (c, Inl GoPanic)
      | Inr b \<Rightarrow>
          let (c1, r) = client_Apply C c (b @ [CMD_LEASE_KEEP_ALIVE_BATCH]) in
          (c1, bindE r (\<lambda>vd. bindE (val_data vd) (\<lambda>data.
               (let (res, err) = unmarshal_LeaseKeepAliveBatchResponse K data in
               bindE (answer err res) (\<lambda>res1.
               bindE (addTerm C c1 (LeaseKeepAliveBatchResponse_Header res1)) (\<lambda>_.
               renewal_responses items (LeaseKeepAliveBatchResponse_TTLs res1))))))))"

definition svc_LeaseLeases :: "'x codec_scheme \<Rightarrow> 'c client \<Rightarrow> 'c \<Rightarrow> LeaseLeasesResponse result" where
  "svc_LeaseLeases K C c =
     bindE (client_Read C c [QUERY_LEASE_LEASES] True) (\<lambda>r.
     bindE (val_data r) (\<lambda>data.
     (let (res, err) = unmarshal_LeaseLeasesResponse K data in
     bindE (addTerm C c (LeaseLeasesResponse_Header res)) (\<lambda>h.
     answer err (res\<lparr>LeaseLeasesResponse_Header := h\<rparr>)))))"

definition svc_LeaseTimeToLive :: "'x codec_scheme \<Rightarrow> 'c client \<Rightarrow> 'c \<Rightarrow> LeaseTimeToLiveRequest
    \<Rightarrow> LeaseTimeToLiveResponse result" where
  "svc_LeaseTimeToLive K C c req =
     bindE (marshal_LeaseTimeToLiveRequest K req) (\<lambda>b.
     bindE (client_Read C c (b @ [QUERY_LEASE_TIME_TO_LIVE]) True) (\<lambda>r.
     bindE (val_data r) (\<lambda>data.
     (let (res, err) = unmarshal_LeaseTimeToLiveResponse K data in
     bindE (addTerm C c (LeaseTimeToLiveResponse_Header res)) (\<lambda>h.
     answer err (res\<lparr>LeaseTimeToLiveResponse_Header := h\<rparr>))))))"

end
