(* ===== verification/Watch_Service.thy ===== *)
theory Watch_Service
  imports Services
begin

text \<open>
  The goroutine of \<open>src/service_watch.go\<close> that turns the messages of one watch into responses:
  events are collected until a \<open>SYNC\<close>, or until the response would reach
  \<open>PCB_RESPONSE_SIZE_MAX\<close>. The messages are taken unmarshalled; every send succeeds. The term
  written by \<open>watchResp\<close> is left out.
\<close>

datatype watch_msg =
    Msg_INIT ResponseHeader
  | Msg_EVENT u64 Event
  | Msg_SYNC ResponseHeader
  | Msg_NOTIFY ResponseHeader
  | Msg_ERR_COMPACTED ResponseHeader

record WatchResponse =
  WatchResponse_Header :: ResponseHeader
  WatchResponse_WatchId :: i64
  WatchResponse_Created :: bool
  WatchResponse_Canceled :: bool
  WatchResponse_CompactRevision :: i64
  WatchResponse_Fragment :: bool
  WatchResponse_Events :: "Event list"

definition header_zero :: ResponseHeader where
  "header_zero = \<lparr>Header_Revision = 0, Header_ClusterId = 0, Header_MemberId = 0, Header_RaftTerm = 0\<rparr>"

definition watch_resp_zero :: WatchResponse where
  "watch_resp_zero = \<lparr>WatchResponse_Header = header_zero, WatchResponse_WatchId = 0,
     WatchResponse_Created = False, WatchResponse_Canceled = False, WatchResponse_CompactRevision = 0,
     WatchResponse_Fragment = False, WatchResponse_Events = []\<rparr>"

text \<open>The variables of the goroutine.\<close>

record agg =
  agg_id :: i64
  agg_clusterID :: u64
  agg_memberID :: u64
  agg_size :: int
  agg_resp :: WatchResponse

definition agg_init :: agg where
  "agg_init = \<lparr>agg_id = 0, agg_clusterID = 0, agg_memberID = 0, agg_size = 0,
     agg_resp = watch_resp_zero\<rparr>"

definition kv_size :: "KeyValue \<Rightarrow> int" where
  "kv_size kv = int (length (KeyValue_Key kv)) + int (length (KeyValue_Value kv)) + sizeMetaKeyValue"

definition event_size :: "KeyValue \<Rightarrow> Event \<Rightarrow> int" where
  "event_size kv evt = kv_size kv + sizeMetaEvent
     + (case Event_PrevKv evt of None \<Rightarrow> 0 | Some pkv \<Rightarrow> kv_size pkv)"

text \<open>The empty response that follows one that was sent.\<close>

definition agg_fresh :: "agg \<Rightarrow> WatchResponse" where
  "agg_fresh a = watch_resp_zero\<lparr>
     WatchResponse_Header := header_zero\<lparr>Header_ClusterId := agg_clusterID a, Header_MemberId := agg_memberID a\<rparr>,
     WatchResponse_WatchId := agg_id a\<rparr>"

definition set_rev :: "WatchResponse \<Rightarrow> i64 \<Rightarrow> WatchResponse" where
  "set_rev r rv = r\<lparr>WatchResponse_Header := (WatchResponse_Header r)\<lparr>Header_Revision := rv\<rparr>\<rparr>"

text \<open>An event without a key-value is a nil dereference.\<close>

definition agg_event :: "'x config_scheme \<Rightarrow> agg \<Rightarrow> u64 \<Rightarrow> Event \<Rightarrow> (agg \<times> WatchResponse list) result" where
  "agg_event cfg a rv evt =
     (case Event_Kv evt of None \<Rightarrow> Inl GoPanic | Some kv \<Rightarrow>
      let sz = event_size kv evt; r = agg_resp a in
      if agg_size a + sz < PCB_RESPONSE_SIZE_MAX cfg then
        let r1 = set_rev r (KeyValue_ModRevision kv) in
        Inr (a\<lparr>agg_resp := r1\<lparr>WatchResponse_Events := WatchResponse_Events r1 @ [evt]\<rparr>,
               agg_size := agg_size a + sz\<rparr>, [])
      else
        let r1 = (if Header_Revision (WatchResponse_Header r) = KeyValue_ModRevision kv
                  then r\<lparr>WatchResponse_Fragment := True\<rparr> else r);
            out = set_rev r1 rv;
            r2 = set_rev (agg_fresh a) (KeyValue_ModRevision kv) in
        Inr (a\<lparr>agg_resp := r2\<lparr>WatchResponse_Events := WatchResponse_Events r2 @ [evt]\<rparr>,
               agg_size := sz + sizeMetaWatchResponse + sizeMetaHeader\<rparr>, [out]))"

definition agg_step :: "'x config_scheme \<Rightarrow> i64 \<Rightarrow> agg \<Rightarrow> watch_msg \<Rightarrow> (agg \<times> WatchResponse list) result" where
  "agg_step cfg wid a m =
     (case m of
        Msg_INIT h \<Rightarrow>
          Inr (a\<lparr>agg_id := wid, agg_clusterID := Header_ClusterId h, agg_memberID := Header_MemberId h,
                 agg_resp := (agg_resp a)\<lparr>WatchResponse_Header := h, WatchResponse_WatchId := wid\<rparr>\<rparr>,
               [watch_resp_zero\<lparr>WatchResponse_Header := h, WatchResponse_WatchId := wid,
                  WatchResponse_Created := True\<rparr>])
      | Msg_EVENT rv evt \<Rightarrow> agg_event cfg a rv evt
      | Msg_SYNC h \<Rightarrow>
          let r = (agg_resp a)\<lparr>WatchResponse_Header := h\<rparr> in
          if WatchResponse_Events r \<noteq> [] then Inr (a\<lparr>agg_resp := agg_fresh a\<rparr>, [r])
          else Inr (a\<lparr>agg_resp := r\<rparr>, [])
      | Msg_NOTIFY h \<Rightarrow>
          Inr (a, [watch_resp_zero\<lparr>WatchResponse_Header := h, WatchResponse_WatchId := agg_id a\<rparr>])
      | Msg_ERR_COMPACTED h \<Rightarrow>
          Inr (a\<lparr>agg_id := wid\<rparr>,
               [watch_resp_zero\<lparr>WatchResponse_WatchId := wid, WatchResponse_Created := True\<rparr>,
                watch_resp_zero\<lparr>WatchResponse_WatchId := wid, WatchResponse_Canceled := True,
                  WatchResponse_CompactRevision := Header_Revision h\<rparr>]))"

fun agg_run :: "'x config_scheme \<Rightarrow> i64 \<Rightarrow> agg \<Rightarrow> watch_msg list \<Rightarrow> (agg \<times> WatchResponse list) result" where
  "agg_run cfg wid a [] = Inr (a, [])"
| "agg_run cfg wid a (m # ms) =
     bindE (agg_step cfg wid a m) (\<lambda>(a1, out1).
     bindE (agg_run cfg wid a1 ms) (\<lambda>(a2, out2).
     Inr (a2, out1 @ out2)))"

section \<open>Lemmas\<close>

text \<open>The events that went in, that went out, and that are still held back.\<close>

definition in_events :: "watch_msg list \<Rightarrow> Event list" where
  "in_events ms = concat (map (\<lambda>m. case m of Msg_EVENT rv e \<Rightarrow> [e] | _ \<Rightarrow> []) ms)"

definition out_events :: "WatchResponse list \<Rightarrow> Event list" where
  "out_events rs = concat (map WatchResponse_Events rs)"

definition held :: "agg \<Rightarrow> Event list" where
  "held a = WatchResponse_Events (agg_resp a)"

lemma in_events_simps [simp]:
  "in_events [] = []" "in_events (Msg_INIT h # ms) = in_events ms"
  "in_events (Msg_EVENT rv e # ms) = e # in_events ms" "in_events (Msg_SYNC h # ms) = in_events ms"
  "in_events (Msg_NOTIFY h # ms) = in_events ms" "in_events (Msg_ERR_COMPACTED h # ms) = in_events ms"
  by (simp_all add: in_events_def)

lemma in_events_Cons: "in_events (m # ms) = in_events [m] @ in_events ms"
  by (simp add: in_events_def)

lemma out_events_simps [simp]:
  "out_events [] = []" "out_events (r # rs) = WatchResponse_Events r @ out_events rs"
  "out_events (rs @ rs') = out_events rs @ out_events rs'"
  by (simp_all add: out_events_def)

lemma zero_events [simp]: "WatchResponse_Events watch_resp_zero = []"
  "WatchResponse_Events (agg_fresh a) = []" "WatchResponse_Events (set_rev r rv) = WatchResponse_Events r"
  by (simp_all add: watch_resp_zero_def agg_fresh_def set_rev_def)

lemma agg_event_conserves:
  "agg_event cfg a rv e = Inr (a', out) \<Longrightarrow> out_events out @ held a' = held a @ [e]"
  by (auto simp: agg_event_def held_def Let_def split: option.splits if_splits)

lemma agg_step_conserves:
  "agg_step cfg wid a m = Inr (a', out) \<Longrightarrow> out_events out @ held a' = held a @ in_events [m]"
  by (cases m) (auto simp: agg_step_def held_def Let_def split: if_splits
      dest: agg_event_conserves [unfolded held_def])

lemma agg_run_conserves:
  "agg_run cfg wid a ms = Inr (a', out) \<Longrightarrow> out_events out @ held a' = held a @ in_events ms"
proof (induction ms arbitrary: a out)
  case (Cons m ms)
  from Cons.prems obtain a1 out1 out2 where s: "agg_step cfg wid a m = Inr (a1, out1)"
    and r: "agg_run cfg wid a1 ms = Inr (a', out2)" and o: "out = out1 @ out2"
    by (auto simp: bindE_Inr_iff)
  from Cons.IH [OF r] agg_step_conserves [OF s] o show ?case
    by (simp add: in_events_Cons [of m ms])
qed simp

lemma agg_run_append:
  "agg_run cfg wid a (ms @ ms') = bindE (agg_run cfg wid a ms) (\<lambda>(a1, out1).
     bindE (agg_run cfg wid a1 ms') (\<lambda>(a2, out2). Inr (a2, out1 @ out2)))"
  by (induction ms arbitrary: a) (auto simp: bindE_def split: sum.splits prod.splits)

lemma agg_run_held_sync:
  assumes "agg_run cfg wid a (ms @ [Msg_SYNC h]) = Inr (a', out)"
  shows "held a' = []"
  using assms
  by (auto simp: agg_run_append bindE_Inr_iff agg_step_def held_def Let_def split: if_splits)

text \<open>The size the response under way accounts for, and the bound on it.\<close>

definition events_size :: "Event list \<Rightarrow> int" where
  "events_size es = sum_list (map (\<lambda>e. case Event_Kv e of None \<Rightarrow> 0 | Some kv \<Rightarrow> event_size kv e) es)"

lemma events_size_snoc [simp]:
  "events_size (es @ [e]) = events_size es + (case Event_Kv e of None \<Rightarrow> 0 | Some kv \<Rightarrow> event_size kv e)"
  by (simp add: events_size_def)

lemma event_size_pos: "0 < event_size kv e"
  by (auto simp: event_size_def kv_size_def sizeMetaKeyValue_def sizeMetaEvent_def split: option.splits)

definition agg_inv :: "'x config_scheme \<Rightarrow> agg \<Rightarrow> bool" where
  "agg_inv cfg a \<longleftrightarrow> events_size (held a) \<le> agg_size a \<and> 0 \<le> agg_size a \<and>
     (length (held a) \<le> 1 \<or> agg_size a < PCB_RESPONSE_SIZE_MAX cfg)"

definition resp_fits :: "'x config_scheme \<Rightarrow> WatchResponse \<Rightarrow> bool" where
  "resp_fits cfg r \<longleftrightarrow> length (WatchResponse_Events r) \<le> 1 \<or>
     events_size (WatchResponse_Events r) < PCB_RESPONSE_SIZE_MAX cfg"

lemma agg_inv_init: "agg_inv cfg agg_init"
  by (simp add: agg_inv_def agg_init_def held_def events_size_def)

lemma agg_event_fits:
  assumes "agg_event cfg a rv e = Inr (a', out)" "agg_inv cfg a"
  shows "agg_inv cfg a' \<and> (\<forall>r \<in> set out. resp_fits cfg r)"
proof -
  from assms(1) obtain kv where kv: "Event_Kv e = Some kv" by (auto simp: agg_event_def split: option.splits)
  have pos: "0 < event_size kv e" by (rule event_size_pos)
  from assms kv pos show ?thesis
    by (auto simp: agg_event_def agg_inv_def resp_fits_def held_def Let_def events_size_def
        sizeMetaWatchResponse_def sizeMetaHeader_def split: if_splits)
qed

lemma agg_step_fits:
  assumes "agg_step cfg wid a m = Inr (a', out)" "agg_inv cfg a"
  shows "agg_inv cfg a' \<and> (\<forall>r \<in> set out. resp_fits cfg r)"
proof (cases m)
  case (Msg_EVENT rv e)
  with assms agg_event_fits show ?thesis by (simp add: agg_step_def)
qed (use assms in \<open>auto simp: agg_step_def agg_inv_def resp_fits_def held_def Let_def events_size_def
      split: if_splits\<close>)

lemma agg_run_fits:
  "agg_run cfg wid a ms = Inr (a', out) \<Longrightarrow> agg_inv cfg a \<Longrightarrow>
     agg_inv cfg a' \<and> (\<forall>r \<in> set out. resp_fits cfg r)"
proof (induction ms arbitrary: a out)
  case (Cons m ms)
  from Cons.prems obtain a1 out1 out2 where s: "agg_step cfg wid a m = Inr (a1, out1)"
    and r: "agg_run cfg wid a1 ms = Inr (a', out2)" and o: "out = out1 @ out2"
    by (auto simp: bindE_Inr_iff)
  from agg_step_fits [OF s Cons.prems(2)] Cons.IH [OF r] o show ?case by auto
qed simp

text \<open>Every message is handled when every event carries its key-value.\<close>

definition msg_ok :: "watch_msg \<Rightarrow> bool" where
  "msg_ok m = (case m of Msg_EVENT rv e \<Rightarrow> Event_Kv e \<noteq> None | _ \<Rightarrow> True)"

lemma agg_step_total: "msg_ok m \<Longrightarrow> \<exists>a' out. agg_step cfg wid a m = Inr (a', out)"
  by (cases m) (auto simp: agg_step_def agg_event_def msg_ok_def Let_def)

lemma agg_run_total: "\<forall>m \<in> set ms. msg_ok m \<Longrightarrow> \<exists>a' out. agg_run cfg wid a ms = Inr (a', out)"
proof (induction ms arbitrary: a)
  case (Cons m ms)
  then obtain a1 out1 where "agg_step cfg wid a m = Inr (a1, out1)"
    using agg_step_total by (metis list.set_intros(1))
  with Cons.IH [of a1] Cons.prems show ?case by auto
qed simp

section \<open>Properties\<close>

text \<open>C33: the watch service neither loses, repeats nor reorders events. When the messages of a watch
  end with a \<open>SYNC\<close> and every event carries its key-value, the goroutine handles them all and the
  events of its responses, in order, are exactly the events it received.\<close>

theorem watch_delivers_all:
  assumes "\<forall>m \<in> set ms. msg_ok m"
  shows "\<exists>a out. agg_run cfg wid agg_init (ms @ [Msg_SYNC h]) = Inr (a, out) \<and>
     out_events out = in_events ms"
proof -
  have "\<forall>m \<in> set (ms @ [Msg_SYNC h]). msg_ok m" using assms by (simp add: msg_ok_def)
  from agg_run_total [OF this] obtain a out
    where r: "agg_run cfg wid agg_init (ms @ [Msg_SYNC h]) = Inr (a, out)" by blast
  have "in_events (ms @ [Msg_SYNC h]) = in_events ms" by (simp add: in_events_def)
  with agg_run_conserves [OF r] agg_run_held_sync [OF r] have "out_events out = in_events ms"
    by (simp add: held_def agg_init_def)
  with r show ?thesis by blast
qed

text \<open>A small run for the witnesses: one put event of an empty value.\<close>

definition wit_kv :: KeyValue where
  "wit_kv = \<lparr>KeyValue_CreateRevision = 2, KeyValue_ModRevision = 2, KeyValue_Version = 1,
     KeyValue_Lease = 0, KeyValue_Key = [97], KeyValue_Value = []\<rparr>"

definition wit_event :: Event where
  "wit_event = \<lparr>Event_Type = 0, Event_Kv = Some wit_kv, Event_PrevKv = None\<rparr>"

definition small_config :: config where
  "small_config = default_config\<lparr>PCB_RESPONSE_SIZE_MAX := 1000\<rparr>"

lemmas wit_defs = wit_kv_def wit_event_def small_config_def default_config_def

theorem watch_delivers_all_witness:
  "\<exists>a out. agg_run small_config 1 agg_init ([Msg_EVENT 2 wit_event] @ [Msg_SYNC header_zero]) = Inr (a, out)
     \<and> out_events out = [wit_event]"
  using watch_delivers_all [of "[Msg_EVENT 2 wit_event]" small_config 1 header_zero]
  by (simp add: msg_ok_def wit_event_def)

text \<open>C40: no response of a watch with more than one event reaches the configured response size.\<close>

theorem watch_response_bounded:
  assumes "agg_run cfg wid agg_init ms = Inr (a, out)" "r \<in> set out"
    and "1 < length (WatchResponse_Events r)"
  shows "events_size (WatchResponse_Events r) < PCB_RESPONSE_SIZE_MAX cfg"
proof -
  from agg_run_fits [OF assms(1) agg_inv_init] assms(2) have "resp_fits cfg r" by blast
  with assms(3) show ?thesis by (simp add: resp_fits_def)
qed

definition wit_resp :: WatchResponse where
  "wit_resp = watch_resp_zero\<lparr>WatchResponse_Events := [wit_event, wit_event]\<rparr>"

theorem watch_response_bounded_witness:
  "events_size (WatchResponse_Events wit_resp) < PCB_RESPONSE_SIZE_MAX default_config"
proof -
  have "agg_run default_config 1 agg_init
      [Msg_EVENT 2 wit_event, Msg_EVENT 2 wit_event, Msg_SYNC header_zero] =
    Inr (agg_init\<lparr>agg_size := 1026, agg_resp := agg_fresh agg_init\<rparr>, [wit_resp])"
    by (simp add: agg_step_def agg_event_def Let_def wit_defs wit_resp_def agg_init_def
        watch_resp_zero_def set_rev_def event_size_def kv_size_def sizeMetaKeyValue_def sizeMetaEvent_def
        header_zero_def agg_fresh_def)
  from watch_response_bounded [OF this, of wit_resp] show ?thesis by (simp add: wit_resp_def)
qed

text \<open>The size of the responses already sent is not reset by a \<open>SYNC\<close>. When it has grown so far
  that the next event does not fit, that event makes the service send a response without any event.\<close>

theorem watch_empty_response:
  assumes "agg_run cfg wid agg_init (ms @ [Msg_SYNC h]) = Inr (a, out)"
    and "Event_Kv e = Some kv" "PCB_RESPONSE_SIZE_MAX cfg \<le> agg_size a + event_size kv e"
  shows "\<exists>a' r. agg_run cfg wid agg_init (ms @ [Msg_SYNC h] @ [Msg_EVENT rv e]) = Inr (a', out @ [r]) \<and>
     WatchResponse_Events r = []"
  using assms agg_run_held_sync [OF assms(1)] unfolding append_assoc [symmetric] agg_run_append [of _ _ _ "ms @ [Msg_SYNC h]"]
  by (auto simp: agg_step_def agg_event_def Let_def held_def)

theorem watch_empty_response_witness:
  "\<exists>a' out r. agg_run small_config 1 agg_init ([Msg_EVENT 2 wit_event] @ [Msg_SYNC header_zero] @ [Msg_EVENT 3 wit_event])
     = Inr (a', out @ [r]) \<and> WatchResponse_Events r = []"
proof -
  have run: "agg_run small_config 1 agg_init ([Msg_EVENT 2 wit_event] @ [Msg_SYNC header_zero]) =
    Inr (agg_init\<lparr>agg_size := 513, agg_resp := agg_fresh agg_init\<rparr>,
         [watch_resp_zero\<lparr>WatchResponse_Events := [wit_event]\<rparr>])"
    by (simp add: agg_step_def agg_event_def Let_def wit_defs agg_init_def
        watch_resp_zero_def set_rev_def event_size_def kv_size_def sizeMetaKeyValue_def sizeMetaEvent_def
        header_zero_def agg_fresh_def)
  have sz: "PCB_RESPONSE_SIZE_MAX small_config \<le>
      agg_size (agg_init\<lparr>agg_size := 513, agg_resp := agg_fresh agg_init\<rparr>) + event_size wit_kv wit_event"
    by (simp add: wit_defs event_size_def kv_size_def sizeMetaKeyValue_def sizeMetaEvent_def)
  have kv: "Event_Kv wit_event = Some wit_kv" by (simp add: wit_event_def)
  from watch_empty_response [OF run kv sz] show ?thesis by blast
qed

end
