(* ===== verification/Controller.thy ===== *)
theory Controller
  imports Services
begin

text \<open>
  \<open>src/controller.go\<close>: the controller of each node, which proposes a tick every second while its
  replica leads, and announces the term of its leadership.

  The shard client is the parameter of \<open>Services\<close>. Each method holds the mutex, so each is one
  atomic step. The marshalling of the two requests is a parameter whose errors the source only
  logs.
\<close>

record controller =
  ctl_index :: u64
  ctl_isLeader :: "u64 \<Rightarrow> bool"
  ctl_shard :: u64
  ctl_term :: u64
  ctl_termSet :: bool

definition NewController :: controller where
  "NewController = \<lparr>ctl_index = 0, ctl_isLeader = (\<lambda>_. False), ctl_shard = 0, ctl_term = 0,
     ctl_termSet = False\<rparr>"

definition ctl_Start :: "controller \<Rightarrow> u64 \<Rightarrow> controller" where
  "ctl_Start c shard = c\<lparr>ctl_shard := shard\<rparr>"

definition ctl_propose_term :: "'c client \<Rightarrow> (TermRequest \<Rightarrow> bytes) \<Rightarrow> 'c \<Rightarrow> u64 \<Rightarrow> 'c" where
  "ctl_propose_term C enc s term =
     fst (client_Apply C s (enc \<lparr>TermRequest_Term = term\<rparr> @ [CMD_INTERNAL_TERM]))"

definition ctl_tick :: "'c client \<Rightarrow> (TermRequest \<Rightarrow> bytes) \<Rightarrow> (TickRequest \<Rightarrow> bytes)
    \<Rightarrow> controller \<Rightarrow> 'c \<Rightarrow> controller \<times> 'c" where
  "ctl_tick C encTerm encTick c s =
     (if ctl_isLeader c (ctl_shard c) then
        (let (c1, s1) = (if \<not> ctl_termSet c \<and> 0 < ctl_term c
                         then (c\<lparr>ctl_termSet := True\<rparr>, ctl_propose_term C encTerm s (ctl_term c))
                         else (c, s));
             (s2, r) = client_Apply C s1 (encTick \<lparr>TickRequest_Term = ctl_term c1\<rparr> @ [CMD_INTERNAL_TICK]) in
         case r of
           Inl err \<Rightarrow> (c1, s2)
         | Inr (index, _) \<Rightarrow> (if index > ctl_index c1 then c1\<lparr>ctl_index := index\<rparr> else c1, s2))
      else (c, s))"

record LeaderInfo =
  info_ShardID :: u64
  info_ReplicaID :: u64
  info_LeaderID :: u64
  info_Term :: u64

definition ctl_LeaderUpdated :: "'c client \<Rightarrow> (TermRequest \<Rightarrow> bytes) \<Rightarrow> controller \<Rightarrow> 'c \<Rightarrow> LeaderInfo
    \<Rightarrow> controller \<times> 'c" where
  "ctl_LeaderUpdated C encTerm c s info =
     (let c1 = c\<lparr>ctl_isLeader := (ctl_isLeader c)(info_ShardID info := info_LeaderID info = info_ReplicaID info)\<rparr>;
          (c2, s2) = (if ctl_shard c1 \<noteq> 0 \<and> ctl_isLeader c1 (ctl_shard c1) \<and> ctl_term c1 \<noteq> info_Term info
                      then (c1\<lparr>ctl_termSet := True\<rparr>, ctl_propose_term C encTerm s (info_Term info))
                      else (c1, s)) in
      (c2\<lparr>ctl_term := info_Term info\<rparr>, s2))"

definition ctl_Stop :: "controller \<Rightarrow> controller" where
  "ctl_Stop c = c\<lparr>ctl_index := 0\<rparr>"

end
