(* ===== verification/Watch_Machine.thy ===== *)
theory Watch_Machine
  imports Sm_Query
begin

text \<open>
  The watches of \<open>src/state_machine.go\<close> while they run: \<open>watch\<close> as the sequence of its atomic parts, the alerts
  \<open>Update\<close> sends at its end, and \<open>Stream\<close>, the loop that keeps the watches of one client.

  A watch is a goroutine of its own. What it does between two points where another goroutine can act is one
  step: the check of the start revision with the first scan (two transactions: the check reads the compacted revision
  only), the insertion into the interval tree, the second scan, and the handling of the alerts that wait in its
  channel. \<open>Update\<close> is two steps: the transaction, and the
  alerts to the watches \<open>FindAny\<close> returns for the changed keys. The interval tree
  (\<open>github.com/logbn/byteinterval\<close>) is a parameter: whether \<open>FindAny\<close> finds an interval for a list of keys.
\<close>

section \<open>A watch\<close>

datatype wphase =
    W_Start | W_Scanned u64 | W_Registered u64 | W_Sync u64 | W_Failed | W_Done

text \<open>The channel of alerts holds \<open>1e3\<close> revisions.\<close>

definition watch_capacity :: nat where "watch_capacity = 1000"

text \<open>The next step of the watch, from its phase and the alerts that wait: the new phase, the alerts that are left
  and the messages it sends. \<open>None\<close> when it waits or has ended. The inner loop on the channel keeps the last alert.\<close>

definition watch_next :: "'x sm_env_scheme \<Rightarrow> 't lmdb \<Rightarrow> 't \<Rightarrow> WatchCreateRequest \<Rightarrow> wphase \<Rightarrow> u64 list
    \<Rightarrow> (wphase \<times> u64 list \<times> sm_result list) option" where
  "watch_next env L t req phase alerts =
     (case phase of
        W_Start \<Rightarrow>
          (case watch_start env L t req of
             Inl out \<Rightarrow> Some (W_Done, alerts, out)
           | Inr (rv, out) \<Rightarrow> Some (W_Scanned rv, alerts, out))
      | W_Scanned rv \<Rightarrow> Some (W_Registered rv, [], [])
      | W_Registered rv \<Rightarrow>
          let s = watch_scan env L t req (rv + 1) in
          if scan_err s \<noteq> None then Some (W_Failed, alerts, scan_out s)
          else Some (W_Sync (scan_rev s), alerts, scan_out s)
      | W_Sync rv \<Rightarrow>
          if alerts = [] then None
          else
            (case watch_alert env L t req rv (last alerts) of
               Inl out \<Rightarrow> Some (W_Done, [], out)
             | Inr (rv1, out) \<Rightarrow> Some (W_Sync rv1, [], out))
      | W_Failed \<Rightarrow> None
      | W_Done \<Rightarrow> None)"

text \<open>The end of \<open>Update\<close>: the alert for a watch. It is in the tree from its insertion until its loop ends. When
  the second scan fails it returns before the loop, whose \<open>defer\<close> removes it: it stays in the tree for good.\<close>

definition in_tree :: "wphase \<Rightarrow> bool" where
  "in_tree phase = (case phase of W_Registered _ \<Rightarrow> True | W_Sync _ \<Rightarrow> True | W_Failed \<Rightarrow> True | _ \<Rightarrow> False)"

definition update_alert :: "(bytes list \<Rightarrow> bytes \<times> bytes \<Rightarrow> bool) \<Rightarrow> WatchCreateRequest \<Rightarrow> wphase \<Rightarrow> bytes list \<Rightarrow> u64
    \<Rightarrow> u64 list \<Rightarrow> u64 list" where
  "update_alert findAny req phase keys newRev alerts =
     (if in_tree phase \<and> findAny keys (WatchCreateRequest_Key req, WatchCreateRequest_RangeEnd req)
      then alerts @ [newRev] else alerts)"

text \<open>A watch beside the updates of its replica. An update that has committed and not yet sent its alerts is
  pending; it waits while the channel is full. \<open>wsys_cancel\<close> is the end of the context of a watch in its loop.\<close>

record 't wsys =
  ws_t :: 't
  ws_pending :: "(bytes list \<times> u64) option"
  ws_phase :: wphase
  ws_alerts :: "u64 list"
  ws_out :: "sm_result list"

definition wsys_commit :: "'t update_result \<Rightarrow> 't wsys \<Rightarrow> 't wsys" where
  "wsys_commit res s = s\<lparr>ws_t := ur_txn res, ws_pending := Some (ur_keys res, ur_newRev res)\<rparr>"

definition wsys_alert :: "(bytes list \<Rightarrow> bytes \<times> bytes \<Rightarrow> bool) \<Rightarrow> WatchCreateRequest \<Rightarrow> 't wsys \<Rightarrow> 't wsys option" where
  "wsys_alert findAny req s =
     (case ws_pending s of
        None \<Rightarrow> None
      | Some (keys, newRev) \<Rightarrow>
          let alerts = update_alert findAny req (ws_phase s) keys newRev (ws_alerts s) in
          if watch_capacity < length alerts then None
          else Some (s\<lparr>ws_pending := None, ws_alerts := alerts\<rparr>))"

definition wsys_watch :: "'x sm_env_scheme \<Rightarrow> 't lmdb \<Rightarrow> WatchCreateRequest \<Rightarrow> 't wsys \<Rightarrow> 't wsys option" where
  "wsys_watch env L req s =
     (case watch_next env L (ws_t s) req (ws_phase s) (ws_alerts s) of
        None \<Rightarrow> None
      | Some (phase, alerts, out) \<Rightarrow> Some (s\<lparr>ws_phase := phase, ws_alerts := alerts, ws_out := ws_out s @ out\<rparr>))"

definition wsys_cancel :: "'t wsys \<Rightarrow> 't wsys option" where
  "wsys_cancel s = (case ws_phase s of W_Sync _ \<Rightarrow> Some (s\<lparr>ws_phase := W_Done\<rparr>) | _ \<Rightarrow> None)"

section \<open>Stream\<close>

datatype WatchRequest =
    WatchRequest_Create WatchCreateRequest | WatchRequest_Cancel i64 | WatchRequest_Progress | WatchRequest_other

text \<open>The watches of a stream by their ids, and the last id handed out.\<close>

record stream =
  st_watches :: "i64 list"
  st_watchID :: i64

definition stream_init :: "'x config_scheme \<Rightarrow> stream" where
  "stream_init cfg = \<lparr>st_watches = [], st_watchID = (if PCB_WATCH_ID_ZERO_INDEX cfg then - 1 else 0)\<rparr>"

fun nextWatchID_loop :: "nat \<Rightarrow> i64 list \<Rightarrow> i64 \<Rightarrow> i64 result" where
  "nextWatchID_loop 0 ws i = Inl NoReturn"
| "nextWatchID_loop (Suc n) ws i = (if i + 1 \<in> set ws then nextWatchID_loop n ws (i + 1) else Inr (i + 1))"

definition nextWatchID :: "stream \<Rightarrow> (stream \<times> i64) result" where
  "nextWatchID st =
     bindE (nextWatchID_loop (Suc (length (st_watches st))) (st_watches st) (st_watchID st)) (\<lambda>i.
     Inr (st\<lparr>st_watchID := i\<rparr>, i))"

text \<open>What a request does: the messages sent at once and the watch that is started, if one is. \<open>None\<close> is the return
  from the loop. \<open>watches.Min\<close> of an empty map is 0.\<close>

definition stream_min :: "i64 list \<Rightarrow> i64" where
  "stream_min ws = foldr (\<lambda>i m. if sint i \<le> sint m then i else m) (butlast ws) (if ws = [] then 0 else last ws)"

definition stream_create :: "stream \<Rightarrow> WatchCreateRequest \<Rightarrow> (stream \<times> sm_result list \<times> WatchCreateRequest option) result" where
  "stream_create st req =
     (if WatchCreateRequest_WatchId req = 0 then
        bindE (nextWatchID st) (\<lambda>(st1, i).
        Inr (st1\<lparr>st_watches := i # filter (\<lambda>j. j \<noteq> i) (st_watches st1)\<rparr>, [], Some (req\<lparr>WatchCreateRequest_WatchId := i\<rparr>)))
      else if WatchCreateRequest_WatchId req \<in> set (st_watches st)
      then Inr (st, [\<lparr>Res_Value = 1, Res_Data = [WatchMessageType_ERR_EXISTS]\<rparr>], None)
      else Inr (st\<lparr>st_watches := WatchCreateRequest_WatchId req # st_watches st\<rparr>, [], Some req))"

definition stream_cancel :: "stream \<Rightarrow> i64 \<Rightarrow> stream \<times> sm_result list" where
  "stream_cancel st i =
     (if i \<in> set (st_watches st)
      then (st\<lparr>st_watches := filter (\<lambda>j. j \<noteq> i) (st_watches st)\<rparr>, [\<lparr>Res_Value = i, Res_Data = [WatchMessageType_CANCELED]\<rparr>])
      else (st, []))"

definition stream_progress :: "'x sm_env_scheme \<Rightarrow> 't lmdb \<Rightarrow> 't \<Rightarrow> stream \<Rightarrow> sm_result option result" where
  "stream_progress env L t st =
     (case getRevision L t of
        Inl GoPanic \<Rightarrow> Inl GoPanic
      | r \<Rightarrow>
          (case marshal env (MHeader (responseHeader env (case r of Inl _ \<Rightarrow> 0 | Inr rv \<Rightarrow> rv))) of
             Inl _ \<Rightarrow> Inr None
           | Inr data \<Rightarrow> Inr (Some \<lparr>Res_Value = stream_min (st_watches st), Res_Data = [WatchMessageType_NOTIFY] @ data\<rparr>)))"

definition stream_recv :: "'x sm_env_scheme \<Rightarrow> 't lmdb \<Rightarrow> 't \<Rightarrow> stream \<Rightarrow> WatchRequest option
    \<Rightarrow> (stream \<times> sm_result list \<times> WatchCreateRequest option) option result" where
  "stream_recv env L t st req =
     (case req of
        None \<Rightarrow> Inr None
      | Some (WatchRequest_Create r) \<Rightarrow> bindE (stream_create st r) (\<lambda>x. Inr (Some x))
      | Some (WatchRequest_Cancel i) \<Rightarrow> (case stream_cancel st i of (st1, out) \<Rightarrow> Inr (Some (st1, out, None)))
      | Some WatchRequest_Progress \<Rightarrow>
          bindE (stream_progress env L t st) (\<lambda>r. Inr (case r of None \<Rightarrow> None | Some res \<Rightarrow> Some (st, [res], None)))
      | Some WatchRequest_other \<Rightarrow> Inr None)"

text \<open>The id a watch runs under: \<open>watch\<close> asks for another one when it is 0.\<close>

definition watch_assign :: "stream \<Rightarrow> WatchCreateRequest \<Rightarrow> (stream \<times> WatchCreateRequest) result" where
  "watch_assign st req =
     (if WatchCreateRequest_WatchId req = 0
      then bindE (nextWatchID st) (\<lambda>(st1, i). Inr (st1, req\<lparr>WatchCreateRequest_WatchId := i\<rparr>))
      else Inr (st, req))"

text \<open>The callback of a watch that has ended.\<close>

definition stream_ended :: "stream \<Rightarrow> i64 \<Rightarrow> stream" where
  "stream_ended st i = (if i \<in> set (st_watches st) then st\<lparr>st_watches := filter (\<lambda>j. j \<noteq> i) (st_watches st)\<rparr> else st)"

section \<open>The ids of a stream\<close>

lemma nextWatchID_loop_ends: "nextWatchID_loop n ws i = Inl e \<Longrightarrow> k \<in> {1..n} \<Longrightarrow> i + of_nat k \<in> set ws"
proof (induction n arbitrary: i k)
  case (Suc n)
  then have m: "i + 1 \<in> set ws" "nextWatchID_loop n ws (i + 1) = Inl e" by (auto split: if_splits)
  show ?case
  proof (cases "k = 1")
    case False
    then have "k - 1 \<in> {1..n}" "k = Suc (k - 1)" using Suc.prems(2) by auto
    then show ?thesis using Suc.IH [OF m(2), of "k - 1"] by (metis add.assoc of_nat_Suc)
  qed (use m in simp)
qed simp

lemma nextWatchID_loop_fresh: "nextWatchID_loop n ws i = Inr j \<Longrightarrow> j \<notin> set ws"
  by (induction n arbitrary: i) (auto split: if_splits)

text \<open>With \<open>n\<close> watches one of the next \<open>n + 1\<close> ids is free, as long as there are fewer watches than ids.\<close>

lemma nextWatchID_loop_returns:
  assumes "length ws < 2 ^ 64"
  shows "\<exists>j. nextWatchID_loop (Suc (length ws)) ws i = Inr j"
proof (cases "nextWatchID_loop (Suc (length ws)) ws i")
  case (Inl e)
  have "inj_on (\<lambda>k. i + of_nat k :: i64) {1..Suc (length ws)}"
  proof (rule inj_onI)
    fix x y assume "x \<in> {1..Suc (length ws)}" "y \<in> {1..Suc (length ws)}" "i + of_nat x = i + (of_nat y :: i64)"
    then have "(of_nat (x - 1) :: i64) = of_nat (y - 1)" "x - 1 < 2 ^ 64" "y - 1 < 2 ^ 64" and "1 \<le> x" "1 \<le> y" using assms by (auto simp: of_nat_diff)
    moreover have "unat (of_nat k :: i64) = k" if "k < 2 ^ 64" for k using that by (simp add: unat_of_nat take_bit_eq_mod)
    ultimately have "x - 1 = y - 1" by metis
    then show "x = y" using \<open>1 \<le> x\<close> \<open>1 \<le> y\<close> by simp
  qed
  moreover have "(\<lambda>k. i + of_nat k) ` {1..Suc (length ws)} \<subseteq> set ws" using nextWatchID_loop_ends [OF Inl] by auto
  ultimately have "card {1..Suc (length ws)} \<le> card (set ws)" by (metis card_inj_on_le finite_set)
  then show ?thesis using card_length [of ws] by simp
qed auto

definition wit_create :: WatchCreateRequest where
  "wit_create = \<lparr>WatchCreateRequest_Key = [97], WatchCreateRequest_RangeEnd = [98], WatchCreateRequest_StartRevision = 0,
     WatchCreateRequest_ProgressNotify = False, WatchCreateRequest_Filters = [], WatchCreateRequest_PrevKv = False,
     WatchCreateRequest_WatchId = 0, WatchCreateRequest_Fragment = False\<rparr>"

text \<open>C32: the ids of a stream are unique. A request to create a watch ends with a watch under an id that no other
  watch of the stream has, chosen by the client or the next free one, or, when the client's id is taken, with an
  error and no change.\<close>

theorem stream_create_unique:
  assumes "distinct (st_watches st)" "length (st_watches st) < 2 ^ 64"
  shows "(\<exists>st' r. stream_create st req = Inr (st', [], Some r) \<and> WatchCreateRequest_WatchId r \<notin> set (st_watches st) \<and>
        st_watches st' = WatchCreateRequest_WatchId r # st_watches st \<and> distinct (st_watches st') \<and>
        r = req\<lparr>WatchCreateRequest_WatchId := (if WatchCreateRequest_WatchId req = 0 then st_watchID st' else WatchCreateRequest_WatchId req)\<rparr>) \<or>
     (WatchCreateRequest_WatchId req \<in> set (st_watches st) \<and> WatchCreateRequest_WatchId req \<noteq> 0 \<and>
        stream_create st req = Inr (st, [\<lparr>Res_Value = 1, Res_Data = [WatchMessageType_ERR_EXISTS]\<rparr>], None))"
proof (cases "WatchCreateRequest_WatchId req = 0")
  case True
  from nextWatchID_loop_returns [OF assms(2), of "st_watchID st"] obtain j where
    j: "nextWatchID_loop (Suc (length (st_watches st))) (st_watches st) (st_watchID st) = Inr j" ..
  have f: "j \<notin> set (st_watches st)" by (rule nextWatchID_loop_fresh [OF j])
  then have "filter (\<lambda>x. x \<noteq> j) (st_watches st) = st_watches st" by (auto simp: filter_id_conv)
  then show ?thesis using True j f assms(1) by (simp add: stream_create_def nextWatchID_def)
qed (use assms(1) in \<open>auto simp: stream_create_def\<close>)

theorem stream_create_unique_witness:
  "\<exists>st' r. stream_create \<lparr>st_watches = [1, 3], st_watchID = 0\<rparr> wit_create = Inr (st', [], Some r) \<and> st_watches st' = [2, 1, 3]"
  using stream_create_unique [of "\<lparr>st_watches = [1, 3], st_watchID = 0\<rparr>" wit_create]
  by (auto simp: stream_create_def nextWatchID_def wit_create_def)

text \<open>When the ids of a stream start at 0 the first watch cannot be removed. It is registered under 0 and then asks
  for another id to run under, so that its end finds no registration.\<close>

theorem stream_zero_id:
  assumes "PCB_WATCH_ID_ZERO_INDEX cfg" "WatchCreateRequest_WatchId req = 0"
  shows "\<exists>st1 r st2 r'. stream_create (stream_init cfg) req = Inr (st1, [], Some r) \<and> st_watches st1 = [0] \<and>
    watch_assign st1 r = Inr (st2, r') \<and> WatchCreateRequest_WatchId r' = 1 \<and> st_watches (stream_ended st2 (WatchCreateRequest_WatchId r')) = [0]"
  using assms by (simp add: stream_create_def stream_init_def nextWatchID_def watch_assign_def stream_ended_def)

theorem stream_zero_id_witness:
  "\<exists>st1 r. stream_create (stream_init (default_config\<lparr>PCB_WATCH_ID_ZERO_INDEX := True\<rparr>)) wit_create = Inr (st1, [], Some r) \<and> st_watches st1 = [0]"
  using stream_zero_id [of "default_config\<lparr>PCB_WATCH_ID_ZERO_INDEX := True\<rparr>" wit_create] by (auto simp: wit_create_def)

end
