(* ===== verification/Mvcc.thy ===== *)
theory Mvcc
  imports Db_Kv
begin

text \<open>
  The multi-version store against its specification. The specification keeps, for each key, the list
  of its versions from the newest to the oldest, tombstones included. \<open>kv_rel\<close> relates such a history
  to the three databases of \<open>src/db_kv.go\<close>: the key records are exactly the records of the versions,
  and the value of every version is stored, as it is or as a patch against the next newer version.
\<close>

section \<open>Ordered scans\<close>

lemma be64_not_Nil [simp]: "be64 r \<noteq> []"
  using length_be64 [of r] by (metis list.size(3) zero_neq_numeral)

lemma find_sorted_Some:
  assumes "ssorted xs" "e \<in> set xs" "P e" "\<And>e'. e' \<in> set xs \<Longrightarrow> P e' \<Longrightarrow> e \<le> e'"
  shows "List.find P xs = Some e"
  using assms
proof (induction xs)
  case (Cons x xs)
  show ?case
  proof (cases "P x")
    case True
    with Cons.prems(4) [of x] have "e \<le> x" by simp
    moreover have "x \<le> e" using Cons.prems(1,2) by auto
    ultimately show ?thesis using True by simp
  next
    case False
    with Cons show ?thesis by auto
  qed
qed simp

lemma first_entry_eq:
  assumes "ssorted xs" "e \<in> set xs" "P e" "\<And>e'. e' \<in> set xs \<Longrightarrow> P e' \<Longrightarrow> e \<le> e'"
  shows "first_entry P xs = Inr e"
  using find_sorted_Some [of xs e P] assms by (simp add: first_entry_def)

lemma first_entry_none: "(\<And>e. e \<in> set xs \<Longrightarrow> \<not> P e) \<Longrightarrow> first_entry P xs = Inl ErrMdbNotFound"
  using find_None_iff [of P xs] by (auto simp: first_entry_def)

lemma first_entry_InrD: "first_entry P xs = Inr e \<Longrightarrow> e \<in> set xs \<and> P e"
  by (auto simp: first_entry_def find_Some_iff split: option.splits)

lemma first_entry_Inl: "first_entry P xs = Inl err \<Longrightarrow> err = ErrMdbNotFound \<and> (\<forall>e \<in> set xs. \<not> P e)"
  by (auto simp: first_entry_def find_None_iff split: option.splits)

lemma first_entry_least:
  assumes "ssorted xs" "first_entry P xs = Inr e" "e' \<in> set xs" "P e'"
  shows "e \<le> e'"
  using assms by (induction xs) (auto simp: first_entry_def split: if_splits)

section \<open>Histories\<close>

text \<open>A version: the stored value and the lease of its key record. The value of a tombstone does not
  count.\<close>

type_synonym version = "kv \<times> u64"
type_synonym history = "bytes \<Rightarrow> version list"

abbreviation vrev :: "version \<Rightarrow> keyrev" where "vrev h \<equiv> kv_rev (fst h)"

definition krec_of :: "bytes \<Rightarrow> version \<Rightarrow> keyrecord" where
  "krec_of k h = \<lparr>krec_key = k, krec_rev = vrev h, krec_lease = snd h\<rparr>"

definition krec_bytes :: "bytes \<Rightarrow> version \<Rightarrow> bytes" where
  "krec_bytes k h = keyrecord_Bytes (krec_of k h) []"

text \<open>A version of key \<open>k\<close> the store can hold.\<close>

definition ver_ok :: "bytes \<Rightarrow> version \<Rightarrow> bool" where
  "ver_ok k h \<longleftrightarrow> vrev h \<noteq> 0 \<and> (\<not> isdel (vrev h) \<longrightarrow>
     kv_key (fst h) = k \<and> (\<exists>v. kv_val (fst h) = Some v \<and> length v < 2 ^ 62))"

text \<open>The values stored for the versions of a key: \<open>nx\<close> is the value of the next newer version, nil for
  the newest one and for the one below a tombstone.\<close>

fun vals_ok :: "'x env_scheme \<Rightarrow> (bytes \<rightharpoonup> bytes) \<Rightarrow> slice \<Rightarrow> version list \<Rightarrow> bool" where
  "vals_ok env M nx [] \<longleftrightarrow> True"
| "vals_ok env M nx (h # hs) \<longleftrightarrow>
     (if isdel (vrev h) then vals_ok env M None hs
      else (\<exists>buf nx'. (nx' = nx \<or> nx' = None) \<and> M (be64 (vrev h)) = Some buf \<and>
             kv_Bytes env (fst h) nx' [] = Inr buf) \<and> vals_ok env M (kv_val (fst h)) hs)"

definition hist_ok :: "history \<Rightarrow> bool" where
  "hist_ok H \<longleftrightarrow>
     (\<forall>k. H k \<noteq> [] \<longrightarrow> 2 \<le> length k \<and> length k \<le> PCB_LIMIT_KEY_LENGTH) \<and>
     (\<forall>k. \<forall>h \<in> set (H k). ver_ok k h) \<and>
     (\<forall>k. sorted_wrt (\<lambda>h h'. vrev h' < vrev h) (H k)) \<and>
     (\<forall>k k' h h'. h \<in> set (H k) \<and> h' \<in> set (H k') \<and> \<not> isdel (vrev h) \<and> vrev h = vrev h' \<longrightarrow> k = k')"

definition kv_rel :: "'x env_scheme \<Rightarrow> ('t \<Rightarrow> dbi \<Rightarrow> entry list) \<Rightarrow> 't \<Rightarrow> history \<Rightarrow> bool" where
  "kv_rel env view t H \<longleftrightarrow> hist_ok H \<and>
     set (view t DBI_revision) = {(k, krec_bytes k h) | k h. h \<in> set (H k)} \<and>
     (\<forall>k. vals_ok env (map_of (view t DBI_value)) None (H k)) \<and>
     (\<forall>x \<in> dom (map_of (view t DBI_value)). \<exists>r. x = be64 r \<and> \<not> isdel r)"

lemma hist_okD:
  assumes "hist_ok H"
  shows "H k \<noteq> [] \<Longrightarrow> 2 \<le> length k \<and> length k \<le> PCB_LIMIT_KEY_LENGTH"
    and "h \<in> set (H k) \<Longrightarrow> ver_ok k h"
    and "sorted_wrt (\<lambda>h h'. vrev h' < vrev h) (H k)"
    and "h \<in> set (H k) \<Longrightarrow> h' \<in> set (H k') \<Longrightarrow> \<not> isdel (vrev h) \<Longrightarrow> vrev h = vrev h' \<Longrightarrow> k = k'"
  using assms unfolding hist_ok_def by blast+

lemma kv_relD:
  assumes "kv_rel env view t H"
  shows "hist_ok H" "set (view t DBI_revision) = {(k, krec_bytes k h) | k h. h \<in> set (H k)}"
    "vals_ok env (map_of (view t DBI_value)) None (H k)"
    "map_of (view t DBI_value) x = Some y \<Longrightarrow> \<exists>r. x = be64 r \<and> \<not> isdel r"
  using assms unfolding kv_rel_def by blast+

text \<open>The order of the records of a key is the order of its versions.\<close>

lemma krec_bytes_less: "vrev h' < vrev h \<Longrightarrow> krec_bytes k h < krec_bytes k h'"
proof -
  assume "vrev h' < vrev h"
  then have "be64 (invert (vrev h)) < be64 (invert (vrev h'))" by (simp add: be64_less invert_less)
  moreover have "\<exists>r. krec_bytes k x = be64 (invert (vrev x)) @ r" for x
    by (auto simp: krec_bytes_def krec_of_def keyrecord_Bytes_def keyrev_appendbytes_def AppendUvarint_def Let_def)
  ultimately show ?thesis
    by (metis append_lexord_eqlen length_be64)
qed

lemma krec_bytes_le: "h' = h \<or> vrev h' < vrev h \<Longrightarrow> krec_bytes k h \<le> krec_bytes k h'"
  using krec_bytes_less [of h' h k] by auto

lemma krec_bytes_inj: "krec_bytes k h = krec_bytes k h' \<Longrightarrow> vrev h = vrev h'"
  using krec_bytes_less by (metis less_irrefl linorder_less_linear)

lemma krec_decode: "\<exists>l. keyrecord_FromBytes kr k (krec_bytes k h) = (\<lparr>krec_key = k, krec_rev = vrev h, krec_lease = l\<rparr>, None)"
  and krec_decode_lease: "\<not> isdel (vrev h) \<Longrightarrow> keyrecord_FromBytes kr k (krec_bytes k h) = (krec_of k h, None)"
  using keyrecord_FromBytes_Bytes [of "krec_of k h" k kr] by (auto simp: krec_bytes_def krec_of_def)

lemma length_krec_bytes: "12 \<le> length (krec_bytes k h)" "length (krec_bytes k h) \<le> 22"
  using length_uvarint_le [of "snd h"]
  by (auto simp: krec_bytes_def keyrecord_Bytes_def krec_of_def keyrev_appendbytes_def AppendUvarint_def Let_def)

context lmdb
begin

lemma rev_entry: "kv_rel env view t H \<Longrightarrow> (k, v) \<in> set (view t DBI_revision) \<longleftrightarrow> (\<exists>h \<in> set (H k). v = krec_bytes k h)"
  using kv_relD(2) by fastforce

text \<open>The cursor lands on the newest record of a key, and moves down its versions.\<close>

lemma SetRange_hit:
  assumes "kv_rel env view t H" "H k = h # hs" "k \<noteq> []"
  shows "cur_SetRange L t DBI_revision k = Inr (k, krec_bytes k h)"
  unfolding SetRange [OF assms(3)]
proof (rule first_entry_eq)
  show "(k, krec_bytes k h) \<in> set (view t DBI_revision)" using rev_entry [OF assms(1)] assms(2) by auto
  fix e' assume e': "e' \<in> set (view t DBI_revision)" "k \<le> fst e'"
  obtain k' v' where kv: "e' = (k', v')" by (rule prod.exhaust)
  show "(k, krec_bytes k h) \<le> e'"
  proof (cases "k' = k")
    case True
    with e' kv rev_entry [OF assms(1)] obtain h' where h': "h' \<in> set (H k)" "v' = krec_bytes k h'" by auto
    with assms(2) hist_okD(3) [OF kv_relD(1) [OF assms(1)], of k] have "h' = h \<or> vrev h' < vrev h" by auto
    with krec_bytes_le h' kv True show ?thesis by simp
  qed (use e' kv in auto)
qed simp_all

lemma SetRange_miss:
  assumes "kv_rel env view t H" "H k = []" "k \<noteq> []"
  shows "cur_SetRange L t DBI_revision k = Inl ErrMdbNotFound \<or>
    (\<exists>k' v. cur_SetRange L t DBI_revision k = Inr (k', v) \<and> k' \<noteq> k)"
proof (cases "cur_SetRange L t DBI_revision k")
  case (Inl e)
  with SetRange [OF assms(3)] have "first_entry (\<lambda>e. k \<le> fst e) (view t DBI_revision) = Inl e" by simp
  from first_entry_Inl [OF this] Inl show ?thesis by simp
next
  case (Inr e)
  with SetRange [OF assms(3)] have "first_entry (\<lambda>e. k \<le> fst e) (view t DBI_revision) = Inr e" by simp
  from first_entry_InrD [OF this] have "e \<in> set (view t DBI_revision)" by simp
  with rev_entry [OF assms(1)] assms(2) have "fst e \<noteq> k" by (cases e) auto
  with Inr show ?thesis by (cases e) auto
qed

lemma NextDup_hit:
  assumes "kv_rel env view t H" "H k = pre @ h # h' # hs"
  shows "cur_NextDup L t DBI_revision (k, krec_bytes k h) = Inr (k, krec_bytes k h')"
  unfolding NextDup
proof (rule first_entry_eq)
  have srt: "sorted_wrt (\<lambda>h h'. vrev h' < vrev h) (pre @ h # h' # hs)"
    using hist_okD(3) [OF kv_relD(1) [OF assms(1)], of k] assms(2) by simp
  then have lt: "vrev h' < vrev h" by (auto simp: sorted_wrt_append)
  show "(k, krec_bytes k h') \<in> set (view t DBI_revision)" using rev_entry [OF assms(1)] assms(2) by auto
  show "(k, krec_bytes k h) < (k, krec_bytes k h') \<and> fst (k, krec_bytes k h') = fst (k, krec_bytes k h)"
    using krec_bytes_less [OF lt] by simp
  fix e' assume e': "e' \<in> set (view t DBI_revision)" "(k, krec_bytes k h) < e' \<and> fst e' = fst (k, krec_bytes k h)"
  from e'(2) obtain v' where kv: "e' = (k, v')" "krec_bytes k h < v'" by (cases "e'" rule: prod.exhaust) auto
  with e' rev_entry [OF assms(1)] obtain x where x: "x \<in> set (H k)" "v' = krec_bytes k x" by auto
  with assms(2) have "x \<in> set pre \<or> x = h \<or> x = h' \<or> x \<in> set hs" by auto
  moreover have "x \<notin> set pre"
  proof
    assume "x \<in> set pre"
    with srt have "vrev h < vrev x" by (auto simp: sorted_wrt_append)
    from krec_bytes_less [OF this] x kv show False by (metis order_less_asym)
  qed
  moreover have "x \<noteq> h" using x kv by auto
  ultimately have "x = h' \<or> vrev x < vrev h'" using srt by (auto simp: sorted_wrt_append)
  with krec_bytes_le x kv show "(k, krec_bytes k h') \<le> e'" by simp
qed simp

lemma NextDup_end:
  assumes "kv_rel env view t H" "H k = pre @ [h]"
  shows "cur_NextDup L t DBI_revision (k, krec_bytes k h) = Inl ErrMdbNotFound"
  unfolding NextDup
proof (rule first_entry_none)
  fix e assume e: "e \<in> set (view t DBI_revision)"
  have srt: "sorted_wrt (\<lambda>h h'. vrev h' < vrev h) (pre @ [h])"
    using hist_okD(3) [OF kv_relD(1) [OF assms(1)], of k] assms(2) by simp
  show "\<not> ((k, krec_bytes k h) < e \<and> fst e = fst (k, krec_bytes k h))"
  proof
    assume l: "(k, krec_bytes k h) < e \<and> fst e = fst (k, krec_bytes k h)"
    then obtain v where v: "e = (k, v)" "krec_bytes k h < v" by (cases e) auto
    with e rev_entry [OF assms(1)] obtain x where x: "x \<in> set (H k)" "v = krec_bytes k x" by auto
    with assms(2) v have "x \<in> set pre" by auto
    with srt have "vrev h < vrev x" by (auto simp: sorted_wrt_append)
    from krec_bytes_less [OF this] x v show False by (metis order_less_asym)
  qed
qed

text \<open>The walk down the versions of a key, and the values it decodes on the way. \<open>decodes i0 nx item v\<close>:
  from the receiver \<open>i0\<close> the revisions collected so far decode, one against the other, to an item of
  value \<open>v\<close>; without its value when only keys are asked for.\<close>

definition decodes :: "'x env_scheme \<Rightarrow> 't \<Rightarrow> bool \<Rightarrow> kv \<Rightarrow> keyrev list \<Rightarrow> kv \<Rightarrow> slice \<Rightarrow> bool" where
  "decodes env t noval i0 nx item v \<longleftrightarrow>
     (\<forall>rs. dbKv_vals env L t (nx @ rs) i0 noval = dbKv_vals env L t rs item noval) \<and>
     kv_val item = (if noval then None else v)"

end

text \<open>The versions from the newest one visible at \<open>revision\<close> on; 0 is the latest revision.\<close>

definition newer :: "u64 \<Rightarrow> version \<Rightarrow> bool" where
  "newer revision h \<longleftrightarrow> 0 < revision \<and> upper (vrev h) > revision"

definition visible :: "u64 \<Rightarrow> version list \<Rightarrow> version list" where
  "visible revision hs = dropWhile (newer revision) hs"

definition env_ok :: "'x env_scheme \<Rightarrow> bool" where
  "env_ok env \<longleftrightarrow> pools_ok env \<and> snappy_ok env"

text \<open>What the decoder makes of a version.\<close>

definition item_of :: "bool \<Rightarrow> version \<Rightarrow> u8 \<Rightarrow> kv" where
  "item_of noval h f = (fst h)\<lparr>kv_flags := f, kv_val := if noval then None else kv_val (fst h)\<rparr>"

text \<open>A stored value decodes to its version.\<close>

lemma stored_decodes:
  assumes "env_ok env" "ver_ok k h" "\<not> isdel (vrev h)" "2 \<le> length k" "length k \<le> PCB_LIMIT_KEY_LENGTH"
    and "kv_Bytes env (fst h) nx' [] = Inr buf" "nx' = nx \<or> nx' = None" "length (sl nx) < 2 ^ 62"
  shows "\<exists>f. kv_FromBytes env kv0 (be64 (vrev h)) buf nx False = Inr ((fst h)\<lparr>kv_flags := f\<rparr>, None)"
    and "\<exists>f. kv_FromBytes env kv0 (be64 (vrev h)) buf nx0 True =
      Inr ((fst h)\<lparr>kv_flags := f, kv_val := kv_val kv0\<rparr>, None)"
proof -
  from assms(2,3) obtain v where v: "kv_key (fst h) = k" "kv_val (fst h) = Some v" "length v < 2 ^ 62"
    by (auto simp: ver_ok_def)
  have len: "11 \<le> length buf" using length_kv_Bytes [OF assms(3,6)] v(1) assms(4) by simp
  have inv: "patch_inverse env n (sl (kv_val (fst h)))" if "nx' = Some n" for n
    using patch_inverse_pools [of env n "sl (kv_val (fst h))"] assms(1,7,8) that v by (auto simp: env_ok_def)
  have "snappy_ok env" using assms(1) by (simp add: env_ok_def)
  from kv_FromBytes_Bytes [OF this assms(6,3) len _ inv, of nx kv0] assms(5,7) v
  obtain f where "kv_FromBytes env kv0 (keyrev_key (vrev h)) buf nx False =
      Inr ((fst h)\<lparr>kv_flags := f, kv_val := Some v\<rparr>, None)" by (auto simp: PCB_LIMIT_KEY_LENGTH_def)
  moreover have "(fst h)\<lparr>kv_flags := f, kv_val := Some v\<rparr> = (fst h)\<lparr>kv_flags := f\<rparr>" using v by simp
  ultimately show "\<exists>f. kv_FromBytes env kv0 (be64 (vrev h)) buf nx False = Inr ((fst h)\<lparr>kv_flags := f\<rparr>, None)" by auto
  show "\<exists>f. kv_FromBytes env kv0 (be64 (vrev h)) buf nx0 True = Inr ((fst h)\<lparr>kv_flags := f, kv_val := kv_val kv0\<rparr>, None)"
    by (rule kv_FromBytes_keys [OF assms(6,3) len]) (use v assms(5) in \<open>simp add: PCB_LIMIT_KEY_LENGTH_def\<close>)
qed

context lmdb
begin

lemma decodes_Nil: "kv_val i0 = None \<Longrightarrow> decodes env t noval i0 [] i0 None"
  by (simp add: decodes_def)

lemma decodes_snoc:
  assumes "decodes env t noval i0 nx item v0" "mdb_Get L t DBI_value (keyrev_key r) = Inr buf"
    and "kv_FromBytes env item (keyrev_key r) buf (kv_val item) noval = Inr (item', None)"
    and "kv_val item' = (if noval then None else v)"
  shows "decodes env t noval i0 (nx @ [r]) item' v"
  using assms by (simp add: decodes_def)

lemma Get_value:
  assumes "map_of (view t DBI_value) (be64 r) = Some buf"
  shows "mdb_Get L t DBI_value (be64 r) = Inr buf"
  using assms Get_map_of [of DBI_value "be64 r" t] be64_not_Nil by (simp del: map_of_eq_Some_iff)

text \<open>One version more.\<close>

lemma item_of_full: "item_of False h f = (fst h)\<lparr>kv_flags := f\<rparr>"
  by (simp add: item_of_def)

lemma decodes_vals: "decodes env t noval i0 nx item v \<Longrightarrow> dbKv_vals env L t nx i0 noval = Inr (item, None)"
  unfolding decodes_def by (metis append_Nil2 dbKv_vals.simps(1))

lemma decodes_version:
  assumes env: "env_ok env" and rel: "kv_rel env view t H" and h: "h \<in> set (H k)" "\<not> isdel (vrev h)"
    and v: "vals_ok env (map_of (view t DBI_value)) v0 (h # hs)"
    and d: "decodes env t noval i0 nx item v0" and len: "length (sl v0) < 2 ^ 62"
  shows "\<exists>f. decodes env t noval i0 (nx @ [vrev h]) (item_of noval h f) (kv_val (fst h))"
proof -
  note ok = kv_relD(1) [OF rel]
  from v h obtain buf nx' where b: "nx' = v0 \<or> nx' = None"
    "map_of (view t DBI_value) (be64 (vrev h)) = Some buf" "kv_Bytes env (fst h) nx' [] = Inr buf" by auto
  have "H k \<noteq> []" using h by auto
  note dec = stored_decodes [OF env hist_okD(2) [OF ok h(1)] h(2) _ _ b(3,1) len, of item]
  have "\<exists>f. kv_FromBytes env item (be64 (vrev h)) buf (kv_val item) noval = Inr (item_of noval h f, None)"
    using dec hist_okD(1) [OF ok \<open>H k \<noteq> []\<close>] d
    by (cases noval) (auto simp: decodes_def item_of_def)
  then obtain f where "kv_FromBytes env item (be64 (vrev h)) buf (kv_val item) noval = Inr (item_of noval h f, None)"
    by blast
  then have "decodes env t noval i0 (nx @ [vrev h]) (item_of noval h f) (kv_val (fst h))"
    by (intro decodes_snoc [OF d, of "vrev h" buf]) (use Get_value [OF b(2)] in \<open>simp_all add: item_of_def\<close>)
  then show ?thesis by blast
qed

lemma revs_walk:
  assumes env: "env_ok env" and rel: "kv_rel env view t H" and i0: "kv_val i0 = None" and hs: "H k = pre @ h # hs"
    and v: "vals_ok env (map_of (view t DBI_value)) v0 (h # hs)"
    and d: "decodes env t noval i0 nx item v0" and len: "length (sl v0) < 2 ^ 62"
    and kr: "krec_rev krec = vrev h" and n: "length hs < n"
  shows "\<exists>krec' nx' item' v' c found. dbKv_revs L n t revision False (k, krec_bytes k h) krec nx = Inr (c, krec', nx', found) \<and>
    fst c = k \<and>
    (case visible revision (h # hs) of
       [] \<Rightarrow> \<not> found
     | h' # hs' \<Rightarrow> found \<and> c = (k, krec_bytes k h') \<and> krec_rev krec' = vrev h' \<and>
         decodes env t noval i0 nx' item' v' \<and> length (sl v') < 2 ^ 62 \<and>
         vals_ok env (map_of (view t DBI_value)) v' (h' # hs'))"
  using assms(4-)
proof (induction n arbitrary: pre h hs nx item v0 krec)
  case (Suc n)
  note ok = kv_relD(1) [OF rel]
  have hin: "h \<in> set (H k)" using Suc.prems(1) by simp
  show ?case
  proof (cases "newer revision h")
    case False
    then have "dbKv_revs L (Suc n) t revision False (k, krec_bytes k h) krec nx = Inr ((k, krec_bytes k h), krec, nx, True)"
      using Suc.prems(5) by (auto simp: newer_def)
    moreover have "visible revision (h # hs) = h # hs" using False by (simp add: visible_def)
    ultimately show ?thesis using Suc.prems by (simp del: dbKv_revs.simps vals_ok.simps) blast
  next
    case True
    then have cond: "0 < revision \<and> upper (krec_rev krec) > revision" using Suc.prems(5) by (simp add: newer_def)
    have vis: "visible revision (h # hs) = visible revision hs" using True by (simp add: visible_def)
    let ?nx1 = "if isdel (vrev h) then [] else nx @ [vrev h]"
    obtain item1 v1 where i1: "decodes env t noval i0 ?nx1 item1 v1" "length (sl v1) < 2 ^ 62"
      "vals_ok env (map_of (view t DBI_value)) v1 hs"
    proof (cases "isdel (vrev h)")
      case True
      have "decodes env t noval i0 ?nx1 i0 None" using True by (simp add: decodes_Nil i0)
      then show ?thesis by (rule that) (use True Suc.prems(2) in simp_all)
    next
      case False
      from decodes_version [OF env rel hin False Suc.prems(2,3,4)] obtain f where
        f: "decodes env t noval i0 (nx @ [vrev h]) (item_of noval h f) (kv_val (fst h))" by blast
      have "length (sl (kv_val (fst h))) < 2 ^ 62" using hist_okD(2) [OF ok hin] False by (auto simp: ver_ok_def)
      then show ?thesis using f False Suc.prems(2) by (intro that [of "item_of noval h f" "kv_val (fst h)"]) simp_all
    qed
    show ?thesis
    proof (cases hs)
      case Nil
      have "cur_NextDup L t DBI_revision (k, krec_bytes k h) = Inl ErrMdbNotFound"
        by (rule NextDup_end [OF rel]) (use Suc.prems(1) Nil in simp)
      then have "dbKv_revs L (Suc n) t revision False (k, krec_bytes k h) krec nx =
          Inr ((k, krec_bytes k h), krec, ?nx1, False)" using cond Suc.prems(5) by simp
      then show ?thesis using Nil vis by (auto simp: visible_def simp del: dbKv_revs.simps)
    next
      case (Cons h1 hs1)
      have nd: "cur_NextDup L t DBI_revision (k, krec_bytes k h) = Inr (k, krec_bytes k h1)"
        by (rule NextDup_hit [OF rel]) (use Suc.prems(1) Cons in simp)
      from krec_decode [of krec k h1] obtain l where
        kd: "keyrecord_FromBytes krec k (krec_bytes k h1) = (\<lparr>krec_key = k, krec_rev = vrev h1, krec_lease = l\<rparr>, None)" by blast
      have eq: "dbKv_revs L (Suc n) t revision False (k, krec_bytes k h) krec nx =
          dbKv_revs L n t revision False (k, krec_bytes k h1) \<lparr>krec_key = k, krec_rev = vrev h1, krec_lease = l\<rparr> ?nx1"
        using cond nd kd Suc.prems(5) by (simp add: Let_def)
      have p1: "H k = (pre @ [h]) @ h1 # hs1" using Suc.prems(1) Cons by simp
      show ?thesis unfolding Cons eq vis [unfolded Cons]
        by (rule Suc.IH [OF p1 i1(3) [unfolded Cons] i1(1,2)]) (use Suc.prems(6) Cons in simp_all)
    qed
  qed
qed simp

lemma length_history:
  assumes "kv_rel env view t H"
  shows "length (H k) \<le> length (view t DBI_revision)"
proof -
  have srt: "sorted_wrt (\<lambda>h h'. vrev h' < vrev h) (H k)" by (rule hist_okD(3) [OF kv_relD(1) [OF assms]])
  then have "sorted_wrt (\<lambda>x y. x < y) (map (krec_bytes k) (H k))"
    unfolding sorted_wrt_map by (rule sorted_wrt_mono_rel [rotated]) (rule krec_bytes_less)
  then have d: "distinct (map (krec_bytes k) (H k))" by (simp add: strict_sorted_iff)
  have "set (map (Pair k) (map (krec_bytes k) (H k))) \<subseteq> set (view t DBI_revision)"
    using kv_relD(2) [OF assms] by auto
  moreover have "distinct (map (Pair k) (map (krec_bytes k) (H k)))" using d by (subst distinct_map) (auto intro: inj_onI)
  ultimately have "length (map (Pair k) (map (krec_bytes k) (H k))) \<le> card (set (view t DBI_revision))"
    by (metis card_mono distinct_card finite_set)
  then show ?thesis by (simp add: distinct_card)
qed

end

section \<open>Reading\<close>

text \<open>What a read returns, up to the flags of the stored encoding: the version visible at the revision,
  the zero record when there is none or it is a tombstone.\<close>

definition plain :: "kv \<Rightarrow> kv" where
  "plain kv = kv\<lparr>kv_flags := 0\<rparr>"

definition ver_kv :: "version \<Rightarrow> kv" where
  "ver_kv h = (if isdel (vrev h) then kv_zero else plain (fst h))"

definition spec_at :: "u64 \<Rightarrow> version list \<Rightarrow> kv" where
  "spec_at revision hs = (case visible revision hs of [] \<Rightarrow> kv_zero | h # _ \<Rightarrow> ver_kv h)"

definition spec_prev :: "u64 \<Rightarrow> version list \<Rightarrow> kv" where
  "spec_prev revision hs = (case visible revision hs of h # h' # _ \<Rightarrow> ver_kv h' | _ \<Rightarrow> kv_zero)"

lemma plain_zero [simp]: "plain kv_zero = kv_zero"
  by (simp add: plain_def kv_zero_def)

lemma plain_flags [simp]: "plain (kv\<lparr>kv_flags := f\<rparr>) = plain kv"
  by (simp add: plain_def)

lemma visible_suffix: "\<exists>pre. hs = pre @ visible revision hs"
  by (metis takeWhile_dropWhile_id visible_def)

context lmdb
begin

lemma Get_tombstone:
  assumes "kv_rel env view t H" "isdel r"
  shows "mdb_Get L t DBI_value (be64 r) = Inl ErrMdbNotFound"
proof -
  have "map_of (view t DBI_value) (be64 r) = None"
    using kv_relD(4) [OF assms(1), of "be64 r"] assms(2) by (cases "map_of (view t DBI_value) (be64 r)") auto
  then show ?thesis using Get_map_of [of DBI_value "be64 r" t] be64_not_Nil by simp
qed

lemma prev_spec:
  assumes env: "env_ok env" and rel: "kv_rel env view t H" and hs: "H k = pre @ h # hs"
    and v: "vals_ok env (map_of (view t DBI_value)) (kv_val item) hs" and len: "length (sl (kv_val item)) < 2 ^ 62"
  shows "\<exists>prev err. dbKv_prev env L t (k, krec_bytes k h) item = Inr (prev, err) \<and> clearNotFound err = None \<and>
     plain prev = (case hs of [] \<Rightarrow> kv_zero | h' # _ \<Rightarrow> ver_kv h')"
proof (cases hs)
  case Nil
  have "cur_NextDup L t DBI_revision (k, krec_bytes k h) = Inl ErrMdbNotFound"
    by (rule NextDup_end [OF rel]) (use hs Nil in simp)
  then show ?thesis using Nil by (simp add: dbKv_prev_def clearNotFound_def)
next
  case (Cons h1 hs1)
  have nd: "cur_NextDup L t DBI_revision (k, krec_bytes k h) = Inr (k, krec_bytes k h1)"
    by (rule NextDup_hit [OF rel]) (use hs Cons in simp)
  from krec_decode [of krec_zero k h1] obtain l where
    kd: "keyrecord_FromBytes krec_zero k (krec_bytes k h1) = (\<lparr>krec_key = k, krec_rev = vrev h1, krec_lease = l\<rparr>, None)" by blast
  show ?thesis
  proof (cases "isdel (vrev h1)")
    case True
    then show ?thesis using nd kd Get_tombstone [OF rel True] Cons
      by (simp add: dbKv_prev_def clearNotFound_def ver_kv_def)
  next
    case False
    have hin: "h1 \<in> set (H k)" "H k \<noteq> []" using hs Cons by simp_all
    note ok = kv_relD(1) [OF rel]
    from v Cons False obtain buf nx' where b: "nx' = kv_val item \<or> nx' = None"
      "map_of (view t DBI_value) (be64 (vrev h1)) = Some buf" "kv_Bytes env (fst h1) nx' [] = Inr buf" by auto
    from stored_decodes [OF env hist_okD(2) [OF ok hin(1)] False _ _ b(3,1) len, of kv_zero] hist_okD(1) [OF ok hin(2)]
    obtain f where "kv_FromBytes env kv_zero (be64 (vrev h1)) buf (kv_val item) False = Inr ((fst h1)\<lparr>kv_flags := f\<rparr>, None)"
      by blast
    with nd kd Get_value [OF b(2)] Cons False show ?thesis
      by (simp add: dbKv_prev_def clearNotFound_def ver_kv_def)
  qed
qed

lemma getRev_spec:
  assumes env: "env_ok env" and rel: "kv_rel env view t H" and k: "k \<noteq> []"
  shows "\<exists>item prev. dbKv_getRev env L t k revision withPrev = Inr (item, prev, None) \<and>
     plain item = spec_at revision (H k) \<and>
     plain prev = (if withPrev then spec_prev revision (H k) else kv_zero)"
proof (cases "H k")
  case Nil
  with SetRange_miss [OF rel Nil k] show ?thesis
    by (auto simp: dbKv_getRev_def dbKv_getRev_body_def OpenCursor clearNotFound_def spec_at_def spec_prev_def
        visible_def)
next
  case (Cons h hs)
  note ok = kv_relD(1) [OF rel]
  note sr = SetRange_hit [OF rel Cons k]
  from krec_decode [of krec_zero k h] obtain l where
    kd: "keyrecord_FromBytes krec_zero k (krec_bytes k h) = (\<lparr>krec_key = k, krec_rev = vrev h, krec_lease = l\<rparr>, None)" by blast
  let ?kr = "\<lparr>krec_key = k, krec_rev = vrev h, krec_lease = l\<rparr>"
  have v0: "vals_ok env (map_of (view t DBI_value)) None (h # hs)" using kv_relD(3) [OF rel, of k] Cons by simp
  have z: "kv_val kv_zero = None" by (simp add: kv_zero_def)
  have fuel: "length hs < Suc (mdb_Entries L t DBI_revision)"
    using length_history [OF rel, of k] Cons by (simp add: Entries)
  from revs_walk [OF env rel z _ v0 decodes_Nil [OF z] _ _ fuel, of k "[]" ?kr revision False] Cons obtain krec' nx' item' v' c found where
    w: "dbKv_revs L (Suc (mdb_Entries L t DBI_revision)) t revision False (k, krec_bytes k h) ?kr [] = Inr (c, krec', nx', found)"
      "case visible revision (h # hs) of [] \<Rightarrow> \<not> found
     | h' # hs' \<Rightarrow> found \<and> c = (k, krec_bytes k h') \<and> krec_rev krec' = vrev h' \<and>
         decodes env t False kv_zero nx' item' v' \<and> length (sl v') < 2 ^ 62 \<and>
         vals_ok env (map_of (view t DBI_value)) v' (h' # hs')"
    by auto
  note body = dbKv_getRev_def dbKv_getRev_body_def OpenCursor sr kd w(1)
  show ?thesis
  proof (cases "visible revision (h # hs)")
    case Nil
    with w(2) show ?thesis by (simp add: body clearNotFound_def spec_at_def spec_prev_def Cons del: dbKv_revs.simps)
  next
    case V: (Cons h' hs')
    with w(2) have found: "found" "c = (k, krec_bytes k h')" "krec_rev krec' = vrev h'" and
      d: "decodes env t False kv_zero nx' item' v'" "length (sl v') < 2 ^ 62"
      "vals_ok env (map_of (view t DBI_value)) v' (h' # hs')" by auto
    from visible_suffix [of "h # hs" revision] V Cons obtain pre where pre: "H k = pre @ h' # hs'" by auto
    have h': "h' \<in> set (H k)" using pre by simp
    have sp: "spec_at revision (H k) = ver_kv h'" "spec_prev revision (H k) = (case hs' of [] \<Rightarrow> kv_zero | h'' # _ \<Rightarrow> ver_kv h'')"
      using V Cons by (simp_all add: spec_at_def spec_prev_def split: list.splits)
    show ?thesis
    proof (cases "isdel (vrev h')")
      case True
      have v1: "vals_ok env (map_of (view t DBI_value)) (kv_val kv_zero) hs'" using d(3) True by (simp add: kv_zero_def)
      have "length (sl (kv_val kv_zero)) < 2 ^ 62" by (simp add: kv_zero_def)
      from prev_spec [OF env rel pre v1 this] show ?thesis
        unfolding sp using found True by (auto simp: body ver_kv_def clearNotFound_def simp del: dbKv_revs.simps)
    next
      case False
      from decodes_version [OF env rel h' False d(3,1,2)] obtain f where
        f: "decodes env t False kv_zero (nx' @ [vrev h']) (item_of False h' f) (kv_val (fst h'))" by blast
      let ?item = "(fst h')\<lparr>kv_flags := f\<rparr>"
      note vals = decodes_vals [OF f, unfolded item_of_full]
      have v1: "vals_ok env (map_of (view t DBI_value)) (kv_val ?item) hs'" using d(3) False by simp
      have "length (sl (kv_val ?item)) < 2 ^ 62" using hist_okD(2) [OF ok h'] False by (auto simp: ver_ok_def)
      from prev_spec [OF env rel pre v1 this] show ?thesis
        unfolding sp using found False vals by (auto simp: body ver_kv_def clearNotFound_def simp del: dbKv_revs.simps)
    qed
  qed
qed

end

end
