(* ===== verification/Lease_Store.thy ===== *)
theory Lease_Store
  imports Db_Lease Mvcc
begin

text \<open>
  The abstract state of the lease databases: a finite map \<open>M\<close> from ids to leases, the set \<open>X\<close> of pairs of
  an expiry epoch and an id, and the set \<open>K\<close> of pairs of an id and a key attached to it. The operations of
  \<open>src/db_lease.go\<close>, \<open>src/db_lease_exp.go\<close> and \<open>src/db_lease_key.go\<close> refine the updates of these.

  The expiry and the key database hold keys only (the value is a checksum): the locale \<open>key_set\<close> is their
  common contract, a set of encoded elements.
\<close>

declare split_paired_Ex [simp del] split_paired_All [simp del]

section \<open>A database as a set of keys\<close>

definition key_entry :: "bytes \<Rightarrow> entry" where
  "key_entry k = (k, addChecksum k [])"

lemma key_entry_simps [simp]: "fst (key_entry k) = k" "key_entry k = key_entry k' \<longleftrightarrow> k = k'"
  by (auto simp: key_entry_def)

definition stored :: "('t \<Rightarrow> dbi \<Rightarrow> entry list) \<Rightarrow> dbi \<Rightarrow> ('a \<Rightarrow> bytes) \<Rightarrow> 't \<Rightarrow> 'a set \<Rightarrow> bool" where
  "stored view d enc t S \<longleftrightarrow> set (view t d) = (key_entry \<circ> enc) ` S"

lemma stored_frame: "view t' d = view t d \<Longrightarrow> stored view d enc t' S \<longleftrightarrow> stored view d enc t S"
  by (simp add: stored_def)

locale key_set = lmdb L view for L :: "'t lmdb" and view +
  fixes d :: dbi and enc :: "'a \<Rightarrow> bytes"
  assumes nodup: "\<not> dupsort d" and enc_inject: "enc x = enc y \<longleftrightarrow> x = y" and enc_nonempty: "enc x \<noteq> []"
begin

lemma stored_mem: "stored view d enc t S \<Longrightarrow> key_entry (enc x) \<in> set (view t d) \<longleftrightarrow> x \<in> S"
  by (auto simp: stored_def enc_inject)

lemma stored_keys: "stored view d enc t S \<Longrightarrow> enc x \<in> fst ` set (view t d) \<longleftrightarrow> x \<in> S"
  by (force simp: stored_def enc_inject)

lemma stored_finite: "stored view d enc t S \<Longrightarrow> finite S"
proof -
  assume "stored view d enc t S"
  then have "finite ((key_entry \<circ> enc) ` S)" unfolding stored_def by (rule subst) simp
  then show ?thesis by (rule finite_imageD) (simp add: inj_on_def enc_inject)
qed

lemma stored_card: "stored view d enc t S \<Longrightarrow> card S = mdb_Entries L t d"
proof -
  assume h: "stored view d enc t S"
  have "card ((key_entry \<circ> enc) ` S) = card S" by (rule card_image) (simp add: inj_on_def enc_inject)
  then show ?thesis using h by (simp add: stored_def Entries distinct_card [symmetric])
qed

lemma put_key:
  assumes "stored view d enc t S" "length (enc x) \<le> 511"
  shows "\<exists>t'. mdb_Put L t d (enc x) (addChecksum (enc x) []) = Inr t' \<and> stored view d enc t' (insert x S) \<and>
    (\<forall>d'. d' \<noteq> d \<longrightarrow> view t' d' = view t d')"
proof -
  from Put_ok [of d "enc x" "addChecksum (enc x) []" t] assms(2) enc_nonempty nodup obtain t' where
    t': "mdb_Put L t d (enc x) (addChecksum (enc x) []) = Inr t'" by (auto simp: size_ok_def)
  have "set (view t' d) = insert (key_entry (enc x)) {e \<in> (key_entry \<circ> enc) ` S. fst e \<noteq> enc x}"
    using Put_set [OF t'] nodup assms(1) by (simp add: stored_def key_entry_def)
  also have "\<dots> = (key_entry \<circ> enc) ` insert x S" by (auto simp: enc_inject)
  finally show ?thesis using t' Put_other [OF t'] by (auto simp: stored_def)
qed

lemma del_entry:
  assumes "stored view d enc t S"
  shows "{e \<in> set (view t d). fst e \<noteq> enc x} = (key_entry \<circ> enc) ` (S - {x})"
  using assms by (auto simp: stored_def enc_inject)

lemma del_key_ok:
  assumes "stored view d enc t S" "x \<in> S"
  shows "\<exists>t'. mdb_Del L t d (enc x) = Inr t' \<and> stored view d enc t' (S - {x}) \<and> (\<forall>d'. d' \<noteq> d \<longrightarrow> view t' d' = view t d')"
proof -
  from assms obtain t' where t': "mdb_Del L t d (enc x) = Inr t'" using Del_ok [of "enc x" t d] stored_keys by blast
  show ?thesis using t' Del [OF t'] del_entry [OF assms(1)] by (auto simp: stored_def)
qed

lemma del_key_missing: "stored view d enc t S \<Longrightarrow> x \<notin> S \<Longrightarrow> mdb_Del L t d (enc x) = Inl ErrMdbNotFound"
  using Del_missing [of "enc x" t d] stored_keys enc_nonempty by blast

lemma cur_del:
  assumes "stored view d enc t S" "x \<in> S"
  shows "\<exists>t'. cur_Del L t d (key_entry (enc x)) = Inr t' \<and> stored view d enc t' (S - {x}) \<and> (\<forall>d'. d' \<noteq> d \<longrightarrow> view t' d' = view t d')"
proof -
  from assms obtain t' where t': "cur_Del L t d (key_entry (enc x)) = Inr t'"
    using CurDel_ok [of "key_entry (enc x)" t d] stored_mem by blast
  have "{e \<in> set (view t d). e \<noteq> key_entry (enc x)} = (key_entry \<circ> enc) ` (S - {x})"
    using assms(1) by (auto simp: stored_def enc_inject)
  then show ?thesis using t' CurDel [OF t'] by (auto simp: stored_def)
qed

text \<open>Where a cursor lands: on the least element whose key satisfies the condition.\<close>

lemma first_key:
  assumes "stored view d enc t S"
  shows "(first_entry P (view t d) = Inl ErrMdbNotFound \<and> (\<forall>x \<in> S. \<not> P (key_entry (enc x)))) \<or>
    (\<exists>x \<in> S. first_entry P (view t d) = Inr (key_entry (enc x)) \<and> P (key_entry (enc x)) \<and>
       (\<forall>y \<in> S. P (key_entry (enc y)) \<longrightarrow> enc x \<le> enc y))"
proof (cases "first_entry P (view t d)")
  case (Inl err)
  from first_entry_Inl [OF Inl] assms Inl show ?thesis by (auto simp: stored_def)
next
  case (Inr e)
  from first_entry_InrD [OF Inr] assms obtain x where x: "x \<in> S" "e = key_entry (enc x)" "P e" by (auto simp: stored_def)
  have "enc x \<le> enc y" if "y \<in> S" "P (key_entry (enc y))" for y
  proof -
    have "e \<le> key_entry (enc y)"
      by (rule first_entry_least [OF view_sorted Inr]) (use that assms stored_mem in auto)
    then show ?thesis unfolding x(2) key_entry_def by auto
  qed
  with x Inr show ?thesis by blast
qed

lemma key_entry_less: "key_entry k < key_entry k' \<longleftrightarrow> k < k'"
  by (auto simp: key_entry_def order_le_less)

end

section \<open>Leases\<close>

lemma lease_roundtrip_aux: "lease_FromBytes item (uvarint (lease_id l)) (lease_Bytes l []) =
    Inr (item\<lparr>lease_id := lease_id l, lease_expires := lease_expires l, lease_renewed := lease_renewed l\<rparr>)"
proof -
  have "length (lease_Bytes l []) = length (uvarint (lease_expires l)) + length (uvarint (lease_renewed l)) + 4"
    by (simp add: lease_Bytes_def AppendUvarint_def Let_def)
  then have "\<not> length (lease_Bytes l []) < 6"
    using length_uvarint_pos [of "lease_expires l"] length_uvarint_pos [of "lease_renewed l"] by linarith
  then show ?thesis by (simp add: lease_FromBytes_def lease_Bytes_def AppendUvarint_def Let_def)
qed

lemma lease_decode [simp, codec_simps]: "lease_FromBytes lease_zero (uvarint (lease_id l)) (lease_Bytes l []) = Inr l"
  unfolding lease_roundtrip_aux by (simp add: lease_zero_def)

definition lease_entry :: "lease \<Rightarrow> entry" where
  "lease_entry l = (uvarint (lease_id l), lease_Bytes l [])"

definition lease_rel :: "('t \<Rightarrow> dbi \<Rightarrow> entry list) \<Rightarrow> 't \<Rightarrow> (u64 \<rightharpoonup> lease) \<Rightarrow> bool" where
  "lease_rel view t M \<longleftrightarrow> set (view t DBI_lease) = lease_entry ` ran M \<and> (\<forall>i l. M i = Some l \<longrightarrow> lease_id l = i)"

lemma lease_rel_frame: "view t' DBI_lease = view t DBI_lease \<Longrightarrow> lease_rel view t' M \<longleftrightarrow> lease_rel view t M"
  by (simp add: lease_rel_def)

lemma ran_lease:
  assumes "\<forall>i l. M i = Some l \<longrightarrow> lease_id l = i"
  shows "ran (M(lease_id l \<mapsto> l)) = insert l {l' \<in> ran M. lease_id l' \<noteq> lease_id l}"
    and "ran (M(i := None)) = {l' \<in> ran M. lease_id l' \<noteq> i}"
  using assms by (auto simp: ran_def)

lemma lease_entry_simps [simp]: "fst (lease_entry l) = uvarint (lease_id l)" "snd (lease_entry l) = lease_Bytes l []"
  by (simp_all add: lease_entry_def)

lemma lease_entry_inject: "lease_entry l = lease_entry l' \<longleftrightarrow> l = l'"
  by (metis lease_decode lease_entry_def prod.inject sum.inject(2) uvarint_inject)

definition lease_at :: "(u64 \<rightharpoonup> lease) \<Rightarrow> u64 \<Rightarrow> lease" where
  "lease_at M i = (case M i of None \<Rightarrow> lease_zero | Some l \<Rightarrow> l)"

context lmdb
begin

lemma lease_map_of:
  assumes "lease_rel view t M"
  shows "map_of (view t DBI_lease) (uvarint i) = map_option (\<lambda>l. lease_Bytes l []) (M i)"
proof (cases "M i")
  case None
  have "uvarint i \<notin> fst ` set (view t DBI_lease)"
    using assms None by (auto simp: lease_rel_def ran_def)
  then show ?thesis using None by (simp add: map_of_eq_None_iff)
next
  case (Some l)
  then have "lease_entry l \<in> set (view t DBI_lease)" "lease_id l = i" using assms by (auto simp: lease_rel_def ranI)
  then show ?thesis using Some map_of_is_SomeI [OF view_keys_distinct [of DBI_lease t]] by (simp add: lease_entry_def)
qed

lemma dbLease_get_spec: "lease_rel view t M \<Longrightarrow> dbLease_get L t i = Inr (lease_at M i)"
proof -
  assume rel: "lease_rel view t M"
  then have "M i = Some l \<Longrightarrow> lease_id l = i" for l by (simp add: lease_rel_def)
  then show ?thesis using lease_decode
    by (auto simp: dbLease_get_def Get_map_of lease_map_of [OF rel] AppendUvarint_def lease_at_def split: option.splits)
qed

lemma dbLease_put_spec:
  assumes "lease_rel view t M"
  shows "\<exists>t'. dbLease_put L t l = Inr t' \<and> lease_rel view t' (M(lease_id l \<mapsto> l)) \<and> (\<forall>d. d \<noteq> DBI_lease \<longrightarrow> view t' d = view t d)"
proof -
  have len: "length (uvarint (lease_id l)) \<le> 511" using length_uvarint_le [of "lease_id l"] by simp
  then obtain t' where t': "mdb_Put L t DBI_lease (uvarint (lease_id l)) (lease_Bytes l []) = Inr t'"
    using Put_ok [of DBI_lease "uvarint (lease_id l)" _ t] by (auto simp: size_ok_def)
  have id: "M i = Some l' \<Longrightarrow> lease_id l' = i" for i l' using assms by (simp add: lease_rel_def)
  have "set (view t' DBI_lease) = insert (lease_entry l) {e \<in> lease_entry ` ran M. fst e \<noteq> uvarint (lease_id l)}"
    using Put_set [OF t'] assms by (simp add: lease_rel_def lease_entry_def)
  also have "\<dots> = lease_entry ` ran (M(lease_id l \<mapsto> l))" using ran_lease(1) [of M l] id by auto
  finally show ?thesis using t' Put_other [OF t'] id by (auto simp: lease_rel_def dbLease_put_def AppendUvarint_def)
qed

lemma dbLease_del_spec:
  assumes "lease_rel view t M" "M i = Some l"
  shows "\<exists>t'. dbLease_del L t i = Inr t' \<and> lease_rel view t' (M(i := None)) \<and> (\<forall>d. d \<noteq> DBI_lease \<longrightarrow> view t' d = view t d)"
proof -
  have id: "M i = Some l' \<Longrightarrow> lease_id l' = i" for i l' using assms(1) by (simp add: lease_rel_def)
  have "lease_entry l \<in> set (view t DBI_lease)" using assms by (auto simp: lease_rel_def ranI)
  then have "uvarint i \<in> fst ` set (view t DBI_lease)" using id [OF assms(2)] by (metis imageI lease_entry_simps(1))
  then obtain t' where t': "mdb_Del L t DBI_lease (uvarint i) = Inr t'" using Del_ok by blast
  have "set (view t' DBI_lease) = {e \<in> lease_entry ` ran M. fst e \<noteq> uvarint i}"
    using Del [OF t'] assms(1) by (simp add: lease_rel_def)
  also have "\<dots> = lease_entry ` ran (M(i := None))" using ran_lease(2) [of M i] id by auto
  finally show ?thesis using t' Del [OF t'] id by (auto simp: lease_rel_def dbLease_del_def AppendUvarint_def)
qed

text \<open>The list of all leases.\<close>

lemma dbLease_all_loop_spec:
  assumes "view t DBI_lease = xs @ map lease_entry ls" "length ls < n"
    and "cur = (case ls of [] \<Rightarrow> Inl ErrMdbNotFound | l # _ \<Rightarrow> Inr (lease_entry l))"
  shows "dbLease_all_loop L n t cur items = Inr (items @ ls)"
  using assms
proof (induction ls arbitrary: n cur items xs)
  case Nil
  then show ?case by (cases n) auto
next
  case (Cons l ls)
  then obtain m where n: "n = Suc m" by (cases n) auto
  have srt: "ssorted (xs @ lease_entry l # map lease_entry ls)" using Cons.prems(1) view_sorted [of t DBI_lease] by simp
  then have "\<forall>e \<in> set xs. \<not> lease_entry l < e" by (auto simp: sorted_wrt_append)
  then have "cur_Next L t DBI_lease (Some (lease_entry l)) =
      (case ls of [] \<Rightarrow> Inl ErrMdbNotFound | l # _ \<Rightarrow> Inr (lease_entry l))"
    using Cons.prems(1) srt by (cases ls)
      (auto simp: Next first_entry_def find_Some_append find_None_iff sorted_wrt_append split: option.splits dest!: find_Some_iff [THEN iffD1] nth_mem)
  moreover have "view t DBI_lease = (xs @ [lease_entry l]) @ map lease_entry ls" using Cons.prems(1) by simp
  ultimately have "dbLease_all_loop L m t (cur_Next L t DBI_lease (Some (lease_entry l))) (items @ [l]) = Inr ((items @ [l]) @ ls)"
    using Cons.IH Cons.prems(2) n by simp
  then show ?case using Cons.prems(3) n by (simp add: lease_entry_def)
qed

lemma dbLease_all_spec:
  assumes "lease_rel view t M"
  shows "\<exists>ls. dbLease_all L t = Inr ls \<and> set ls = ran M \<and> distinct ls"
proof -
  have "\<forall>e \<in> set (view t DBI_lease). \<exists>l. e = lease_entry l" using assms by (auto simp: lease_rel_def)
  then obtain ls where ls: "view t DBI_lease = map lease_entry ls" by (metis ex_map_conv)
  have "cur_Next L t DBI_lease None = (case ls of [] \<Rightarrow> Inl ErrMdbNotFound | l # _ \<Rightarrow> Inr (lease_entry l))"
    by (simp add: Next first_entry_def ls split: list.splits)
  with dbLease_all_loop_spec [of t "[]" ls "Suc (length ls)" _ "[]"] ls have "dbLease_all L t = Inr ls"
    by (cases ls) (simp_all add: dbLease_all_def OpenCursor Entries del: dbLease_all_loop.simps)
  moreover have "lease_entry ` set ls = lease_entry ` ran M" using assms ls by (simp add: lease_rel_def)
  then have "set ls = ran M" by (simp add: inj_image_eq_iff inj_def lease_entry_inject)
  moreover have "distinct ls" using view_distinct [of t DBI_lease] unfolding ls by (simp add: distinct_map)
  ultimately show ?thesis by blast
qed

lemma finite_leases: "lease_rel view t M \<Longrightarrow> finite (dom M)"
  and card_leases: "lease_rel view t M \<Longrightarrow> card (dom M) = mdb_Entries L t DBI_lease"
proof -
  assume rel: "lease_rel view t M"
  have inj: "inj_on (\<lambda>i. lease_entry (the (M i))) (dom M)"
    using rel by (auto simp: inj_on_def lease_entry_inject lease_rel_def) (metis)
  have im: "(\<lambda>i. lease_entry (the (M i))) ` dom M = set (view t DBI_lease)"
    using rel by (force simp: lease_rel_def ran_def dom_def image_def)
  show "finite (dom M)" using inj im by (metis List.finite_set finite_imageD)
  show "card (dom M) = mdb_Entries L t DBI_lease" using card_image [OF inj] im by (simp add: Entries distinct_card [OF view_distinct, symmetric])
qed

end

section \<open>Expiries and the keys of a lease\<close>

fun exp_enc :: "u64 \<times> u64 \<Rightarrow> bytes" where
  "exp_enc (e, i) = be64 e @ uvarint i"

fun lkey_enc :: "u64 \<times> bytes \<Rightarrow> bytes" where
  "lkey_enc (i, k) = uvarint i @ k"

abbreviation exp_rel :: "('t \<Rightarrow> dbi \<Rightarrow> entry list) \<Rightarrow> 't \<Rightarrow> (u64 \<times> u64) set \<Rightarrow> bool" where
  "exp_rel view \<equiv> stored view DBI_lease_exp exp_enc"

abbreviation lkey_rel :: "('t \<Rightarrow> dbi \<Rightarrow> entry list) \<Rightarrow> 't \<Rightarrow> (u64 \<times> bytes) set \<Rightarrow> bool" where
  "lkey_rel view \<equiv> stored view DBI_lease_key lkey_enc"

sublocale lmdb \<subseteq> exps: key_set L view DBI_lease_exp exp_enc
proof unfold_locales
  fix x y :: "u64 \<times> u64"
  show "exp_enc x = exp_enc y \<longleftrightarrow> x = y" by (cases x; cases y) (simp add: be64_append_inject)
  show "exp_enc x \<noteq> []" by (cases x) simp
qed simp

sublocale lmdb \<subseteq> lkeys: key_set L view DBI_lease_key lkey_enc
proof unfold_locales
  fix x y :: "u64 \<times> bytes"
  show "lkey_enc x = lkey_enc y \<longleftrightarrow> x = y" by (cases x; cases y) (simp add: uvarint_append_inject)
  show "lkey_enc x \<noteq> []" by (cases x) simp
qed simp

lemma between_prefix: "(p :: bytes) \<le> e \<Longrightarrow> e \<le> p @ k \<Longrightarrow> \<exists>s. e = p @ s"
proof (induction p arbitrary: e)
  case (Cons a p)
  then obtain b e' where e: "e = b # e'" by (cases e) auto
  with Cons.prems have "a = b" "p \<le> e'" "e' \<le> p @ k" by (auto simp: Cons_le_Cons)
  with Cons.IH [of e'] e show ?case by auto
qed simp

lemma prefix_le: "(p :: bytes) \<le> p @ s"
  by (induction p) auto

context lmdb
begin

lemma dbLeaseExp_put_spec:
  assumes "exp_rel view t X"
  shows "\<exists>t'. dbLeaseExp_put L t l = Inr t' \<and> exp_rel view t' (insert (lease_expires l, lease_id l) X) \<and>
    (\<forall>d. d \<noteq> DBI_lease_exp \<longrightarrow> view t' d = view t d)"
  using exps.put_key [OF assms, of "(lease_expires l, lease_id l)"] length_uvarint_le [of "lease_id l"]
  by (simp add: dbLeaseExp_put_def AppendUvarint_def Let_def)

lemma dbLeaseExp_del_spec:
  assumes "exp_rel view t X" "(lease_expires l, lease_id l) \<in> X"
  shows "\<exists>t'. dbLeaseExp_del L t l = Inr t' \<and> exp_rel view t' (X - {(lease_expires l, lease_id l)}) \<and>
    (\<forall>d. d \<noteq> DBI_lease_exp \<longrightarrow> view t' d = view t d)"
  using exps.del_key_ok [OF assms] by (simp add: dbLeaseExp_del_def AppendUvarint_def)

lemma dbLeaseKey_put_spec:
  assumes "lkey_rel view t K" "length k \<le> PCB_LIMIT_KEY_LENGTH"
  shows "\<exists>t'. dbLeaseKey_put L t i k = Inr t' \<and> lkey_rel view t' (insert (i, k) K) \<and> (\<forall>d. d \<noteq> DBI_lease_key \<longrightarrow> view t' d = view t d)"
  using lkeys.put_key [OF assms(1), of "(i, k)"] length_uvarint_le [of i] assms(2)
  by (simp add: dbLeaseKey_put_def AppendUvarint_def PCB_LIMIT_KEY_LENGTH_def Let_def)

lemma dbLeaseKey_del_spec:
  assumes "lkey_rel view t K" "(i, k) \<in> K"
  shows "\<exists>t'. dbLeaseKey_del L t i k = Inr t' \<and> lkey_rel view t' (K - {(i, k)}) \<and> (\<forall>d. d \<noteq> DBI_lease_key \<longrightarrow> view t' d = view t d)"
  using lkeys.del_key_ok [OF assms] by (simp add: dbLeaseKey_del_def AppendUvarint_def)

text \<open>A sweep takes keys of the lease from the database, in order, up to the capacity of the batch; a
  batch that is not full took the last ones.\<close>

lemma sweep_loop_spec:
  assumes "lkey_rel view t K" "cur = first_entry (\<lambda>e. uvarint i \<le> fst e) (view t DBI_lease_key)"
  shows "\<exists>t' ks. dbLeaseKey_sweep_loop L n i cur t batch = Inr (t', batch @ ks) \<and>
    lkey_rel view t' (K - {i} \<times> set ks) \<and> {i} \<times> set ks \<subseteq> K \<and> distinct ks \<and>
    (length ks < n \<longrightarrow> (\<forall>k. (i, k) \<in> K \<longrightarrow> k \<in> set ks)) \<and> (\<forall>d. d \<noteq> DBI_lease_key \<longrightarrow> view t' d = view t d)"
  using assms
proof (induction n arbitrary: t K cur batch)
  case (Suc n)
  let ?P = "\<lambda>e. uvarint i \<le> fst e"
  from lkeys.first_key [OF Suc.prems(1), of ?P] consider
    (none) "cur = Inl ErrMdbNotFound" "\<forall>x \<in> K. \<not> uvarint i \<le> lkey_enc x"
    | (found) x where "x \<in> K" "cur = Inr (key_entry (lkey_enc x))" "uvarint i \<le> lkey_enc x"
        "\<forall>y \<in> K. uvarint i \<le> lkey_enc y \<longrightarrow> lkey_enc x \<le> lkey_enc y" unfolding Suc.prems(2) by auto
  then show ?case
  proof cases
    case none
    then have "(i, k) \<notin> K" for k using prefix_le [of "uvarint i" k] by fastforce
    then show ?thesis using none(1) Suc.prems(1) by simp
  next
    case found
    obtain j k where x: "x = (j, k)" by (cases x)
    have run: "dbLeaseKey_sweep_loop L (Suc n) i cur t batch =
        (if j \<noteq> i then Inr (t, batch) else
         bindE (cur_Del L t DBI_lease_key (key_entry (lkey_enc x))) (\<lambda>t1.
         dbLeaseKey_sweep_loop L n i (cur_Next L t1 DBI_lease_key (Some (key_entry (lkey_enc x)))) t1 (batch @ [k])))"
      using found(2) x trim_addChecksum [of "uvarint j @ k" "[]"] by (simp add: key_entry_def del: trim_addChecksum)
    show ?thesis
    proof (cases "j = i")
      case False
      have "(i, k') \<notin> K" for k'
      proof
        assume "(i, k') \<in> K"
        then have "lkey_enc x \<le> uvarint i @ k'" using found(4) prefix_le [of "uvarint i" k'] by fastforce
        from between_prefix [OF found(3) this] x False show False by (auto simp: uvarint_append_inject)
      qed
      then show ?thesis using run False Suc.prems(1) by simp
    next
      case True
      from lkeys.cur_del [OF Suc.prems(1) found(1)] obtain t1 where
        t1: "cur_Del L t DBI_lease_key (key_entry (lkey_enc x)) = Inr t1" "lkey_rel view t1 (K - {x})"
          "\<forall>d. d \<noteq> DBI_lease_key \<longrightarrow> view t1 d = view t d" by blast
      have "cur_Next L t1 DBI_lease_key (Some (key_entry (lkey_enc x))) = first_entry ?P (view t1 DBI_lease_key)"
      proof -
        have "key_entry (lkey_enc x) < e \<longleftrightarrow> ?P e" if "e \<in> set (view t1 DBI_lease_key)" for e
        proof -
          from that t1(2) obtain y where y: "y \<in> K" "y \<noteq> x" "e = key_entry (lkey_enc y)" by (auto simp: stored_def)
          have "lkey_enc y \<noteq> lkey_enc x" using y(2) lkeys.enc_inject by blast
          then show ?thesis using found(3,4) y(1) unfolding y(3) lkeys.key_entry_less by (auto intro: order_trans)
        qed
        then have "List.find (after (Some (key_entry (lkey_enc x)))) (view t1 DBI_lease_key) = List.find ?P (view t1 DBI_lease_key)"
          by (intro find_cong) auto
        then show ?thesis by (simp add: Next first_entry_def)
      qed
      from Suc.IH [OF t1(2) this, of "batch @ [k]"] obtain t' ks where
        s: "dbLeaseKey_sweep_loop L n i (cur_Next L t1 DBI_lease_key (Some (key_entry (lkey_enc x)))) t1 (batch @ [k]) = Inr (t', batch @ k # ks)"
          "lkey_rel view t' (K - {x} - {i} \<times> set ks)" "{i} \<times> set ks \<subseteq> K - {x}" "distinct ks"
          "length ks < n \<longrightarrow> (\<forall>k'. (i, k') \<in> K - {x} \<longrightarrow> k' \<in> set ks)" "\<forall>d. d \<noteq> DBI_lease_key \<longrightarrow> view t' d = view t1 d" by auto
      have "K - {x} - {i} \<times> set ks = K - {i} \<times> set (k # ks)" using x True by auto
      then show ?thesis using run True t1 s x found(1) by (intro exI [of _ t'] exI [of _ "k # ks"]) auto
    qed
  qed
qed simp

end

end
