(* ===== verification/Mvcc_Put.thy ===== *)
theory Mvcc_Put
  imports Mvcc
begin

text \<open>
  Writing a version: \<open>put\<close> of \<open>src/db_kv.go\<close> adds one version to the history of its key, and changes
  nothing any reader of another key or of an older revision sees.
\<close>

declare split_paired_Ex [simp del] split_paired_All [simp del]

section \<open>The specification\<close>

text \<open>The version a put adds: the first of a new life of the key, or the next of the current one.\<close>

definition spec_put :: "u64 \<Rightarrow> u64 \<Rightarrow> u64 \<Rightarrow> bytes \<Rightarrow> slice \<Rightarrow> bool \<Rightarrow> bool \<Rightarrow> version list \<Rightarrow> kv" where
  "spec_put rv subrev lease key val ignoreValue ignoreLease hs =
     (let first = \<lparr>kv_rev = newkeyrev rv subrev False, kv_version = 1, kv_created = rv, kv_lease = lease,
            kv_flags = 0, kv_key = key, kv_val = Some (sl val)\<rparr> in
      case hs of
        [] \<Rightarrow> first
      | h # _ \<Rightarrow> if isdel (vrev h) then first
          else \<lparr>kv_rev = newkeyrev rv subrev False, kv_version = kv_version (fst h) + 1,
                kv_created = kv_created (fst h), kv_lease = (if ignoreLease then kv_lease (fst h) else lease),
                kv_flags = 0, kv_key = key, kv_val = (if ignoreValue then kv_val (fst h) else Some (sl val))\<rparr>)"

definition add_version :: "bytes \<Rightarrow> version \<Rightarrow> history \<Rightarrow> history" where
  "add_version k h H = H(k := h # H k)"

text \<open>A revision newer than all stored ones.\<close>

definition fresh :: "keyrev \<Rightarrow> history \<Rightarrow> bool" where
  "fresh r H \<longleftrightarrow> (\<forall>k. \<forall>h \<in> set (H k). vrev h < r)"

section \<open>Frame lemmas\<close>

lemma vals_ok_cong:
  "(\<And>h. h \<in> set hs \<Longrightarrow> \<not> isdel (vrev h) \<Longrightarrow> M' (be64 (vrev h)) = M (be64 (vrev h))) \<Longrightarrow>
     vals_ok env M' nx hs = vals_ok env M nx hs"
  by (induction hs arbitrary: nx) simp_all

lemma vals_ok_nil_next: "vals_ok env M None hs \<Longrightarrow> vals_ok env M nx hs"
proof (cases hs)
  case (Cons h hs')
  assume "vals_ok env M None hs"
  with Cons show ?thesis by (cases "isdel (vrev h)") (simp_all, blast)
qed simp

lemma kv_Bytes_slice:
  "\<not> isdel (kv_rev kv) \<Longrightarrow> kv_Bytes env (kv\<lparr>kv_val := Some (sl (kv_val kv))\<rparr>) nx [] = kv_Bytes env kv nx []"
  by (simp add: kv_Bytes_put)

lemma kv_Bytes_flags: "\<not> isdel (kv_rev kv) \<Longrightarrow> kv_Bytes env (kv\<lparr>kv_flags := f\<rparr>) nx [] = kv_Bytes env kv nx []"
  by (simp add: kv_Bytes_put)

lemma newkeyrev_nonzero: "rev_fits rv subrev \<Longrightarrow> rv \<noteq> 0 \<Longrightarrow> newkeyrev rv subrev d \<noteq> 0"
  using unat_newkeyrev [of rv subrev d] by (metis unat_0 add_is_0 mult_eq_0_iff unsigned_eq_0_iff zero_neq_numeral)

text \<open>Adding a version to a history.\<close>

lemma hist_ok_add:
  assumes ok: "hist_ok H" and v: "ver_ok k h" and len: "2 \<le> length k" "length k \<le> PCB_LIMIT_KEY_LENGTH"
    and new: "\<And>h'. h' \<in> set (H k) \<Longrightarrow> vrev h' < vrev h"
    and dist: "\<And>k' h'. h' \<in> set (H k') \<Longrightarrow> \<not> isdel (vrev h) \<Longrightarrow> vrev h' \<noteq> vrev h"
  shows "hist_ok (add_version k h H)"
proof -
  let ?H = "add_version k h H"
  have in_add: "h' \<in> set (?H k') \<longleftrightarrow> (k' = k \<and> h' = h) \<or> h' \<in> set (H k')" for k' h'
    by (auto simp: add_version_def)
  have len': "?H k' \<noteq> [] \<Longrightarrow> 2 \<le> length k' \<and> length k' \<le> PCB_LIMIT_KEY_LENGTH" for k'
    using len hist_okD(1) [OF ok, of k'] by (cases "k' = k") (simp_all add: add_version_def)
  have ver: "h' \<in> set (?H k') \<Longrightarrow> ver_ok k' h'" for k' h'
    using v hist_okD(2) [OF ok] unfolding in_add by blast
  have srt: "sorted_wrt (\<lambda>h h'. vrev h' < vrev h) (?H k')" for k'
    using new hist_okD(3) [OF ok, of k'] by (cases "k' = k") (simp_all add: add_version_def)
  have same: "k1 = k2" if "h1 \<in> set (?H k1)" "h2 \<in> set (?H k2)" "\<not> isdel (vrev h1)" "vrev h1 = vrev h2" for k1 k2 h1 h2
    using that dist hist_okD(4) [OF ok, of h1 k1 h2 k2] unfolding in_add by metis
  show ?thesis unfolding hist_ok_def using len' ver srt same by blast
qed

context lmdb
begin

text \<open>The current record of a key.\<close>

lemma current_spec:
  assumes rel: "kv_rel env view t H" and k: "k \<noteq> []"
  shows "\<exists>krec. dbKv_current L t k = Inr krec \<and> krec_rev krec = (case H k of [] \<Rightarrow> 0 | h # _ \<Rightarrow> vrev h)"
proof (cases "H k")
  case Nil
  from SetRange_miss [OF rel Nil k] show ?thesis
    by (auto simp: dbKv_current_def Nil krec_zero_def)
next
  case (Cons h hs)
  from krec_decode [of krec_zero k h] obtain l where
    "keyrecord_FromBytes krec_zero k (krec_bytes k h) = (\<lparr>krec_key = k, krec_rev = vrev h, krec_lease = l\<rparr>, None)" by blast
  then show ?thesis using SetRange_hit [OF rel Cons k] Cons by (simp add: dbKv_current_def)
qed

lemma Put_revision:
  assumes "k \<noteq> []" "length k \<le> PCB_LIMIT_KEY_LENGTH"
  shows "\<exists>t'. mdb_Put L t DBI_revision k (krec_bytes k h) = Inr t' \<and>
    set (view t' DBI_revision) = insert (k, krec_bytes k h) (set (view t DBI_revision)) \<and>
    (\<forall>d. d \<noteq> DBI_revision \<longrightarrow> view t' d = view t d)"
proof -
  have "size_ok DBI_revision k (krec_bytes k h)"
    using assms length_krec_bytes(2) [of k h] by (simp add: size_ok_def PCB_LIMIT_KEY_LENGTH_def)
  from Put_ok [OF this] obtain t' where "mdb_Put L t DBI_revision k (krec_bytes k h) = Inr t'" by blast
  with Put_set [OF this] Put_other [OF this] show ?thesis by auto
qed

lemma Put_value:
  "\<exists>t'. mdb_Put L t DBI_value (be64 r) buf = Inr t' \<and>
    map_of (view t' DBI_value) = (map_of (view t DBI_value))(be64 r \<mapsto> buf) \<and>
    (\<forall>d. d \<noteq> DBI_value \<longrightarrow> view t' d = view t d)"
proof -
  have "size_ok DBI_value (be64 r) buf" by (simp add: size_ok_def)
  from Put_ok [OF this] obtain t' where "mdb_Put L t DBI_value (be64 r) buf = Inr t'" by blast
  with Put_map_of [OF _ this] Put_other [OF this] show ?thesis by auto
qed

lemma length_event_bytes: "length (event_bytes r epoch k) \<le> length k + 14"
  using length_uvarint_le [of epoch] by (simp add: event_bytes_def AppendUvarint_def)

lemma Put_event:
  assumes "length k \<le> PCB_LIMIT_KEY_LENGTH"
  shows "\<exists>t'. mdb_Put L t DBI_event (be64 r) (event_bytes r epoch k) = Inr t' \<and>
    set (view t' DBI_event) = insert (be64 r, event_bytes r epoch k) (set (view t DBI_event)) \<and>
    (\<forall>d. d \<noteq> DBI_event \<longrightarrow> view t' d = view t d)"
proof -
  have "size_ok DBI_event (be64 r) (event_bytes r epoch k)"
    using assms length_event_bytes [of r epoch k] by (simp add: size_ok_def PCB_LIMIT_KEY_LENGTH_def)
  from Put_ok [OF this] obtain t' where "mdb_Put L t DBI_event (be64 r) (event_bytes r epoch k) = Inr t'" by blast
  with Put_set [OF this] Put_other [OF this] show ?thesis by auto
qed

lemma put_store_spec:
  assumes "k \<noteq> []" "length k \<le> PCB_LIMIT_KEY_LENGTH" "kv_Bytes env kv None [] = Inr buf" "kv_rev kv = vrev h" "snd h = lease"
  shows "\<exists>t'. dbKv_put_store env L t kv lease epoch k = Inr t' \<and>
    set (view t' DBI_revision) = insert (k, krec_bytes k h) (set (view t DBI_revision)) \<and>
    map_of (view t' DBI_value) = (map_of (view t DBI_value))(be64 (vrev h) \<mapsto> buf) \<and>
    set (view t' DBI_event) = insert (be64 (vrev h), event_bytes (vrev h) epoch k) (set (view t DBI_event)) \<and>
    (\<forall>d. d \<noteq> DBI_revision \<and> d \<noteq> DBI_value \<and> d \<noteq> DBI_event \<longrightarrow> view t' d = view t d)"
proof -
  have kb: "keyrecord_Bytes \<lparr>krec_key = k, krec_rev = vrev h, krec_lease = lease\<rparr> [] = krec_bytes k h"
    using assms(4,5) by (simp add: krec_bytes_def krec_of_def)
  from Put_revision [OF assms(1,2), of t h] obtain t1 where t1: "mdb_Put L t DBI_revision k (krec_bytes k h) = Inr t1"
    "set (view t1 DBI_revision) = insert (k, krec_bytes k h) (set (view t DBI_revision))"
    "\<forall>d. d \<noteq> DBI_revision \<longrightarrow> view t1 d = view t d" by blast
  from Put_value [of t1 "vrev h" buf] obtain t2 where t2: "mdb_Put L t1 DBI_value (be64 (vrev h)) buf = Inr t2"
    "map_of (view t2 DBI_value) = (map_of (view t1 DBI_value))(be64 (vrev h) \<mapsto> buf)"
    "\<forall>d. d \<noteq> DBI_value \<longrightarrow> view t2 d = view t1 d" by blast
  from Put_event [OF assms(2), of t2 "vrev h" epoch] obtain t3 where
    t3: "mdb_Put L t2 DBI_event (be64 (vrev h)) (event_bytes (vrev h) epoch k) = Inr t3"
    "set (view t3 DBI_event) = insert (be64 (vrev h), event_bytes (vrev h) epoch k) (set (view t2 DBI_event))"
    "\<forall>d. d \<noteq> DBI_event \<longrightarrow> view t3 d = view t2 d" by blast
  show ?thesis using t1 t2 t3 assms(3,4) by (simp add: dbKv_put_store_def Let_def kb)
qed

text \<open>Adding a version keeps the relation.\<close>

lemma kv_rel_add:
  assumes rel: "kv_rel env view t H" and ok: "hist_ok (add_version k h H)"
    and rv: "set (view t' DBI_revision) = insert (k, krec_bytes k h) (set (view t DBI_revision))"
    and vals: "vals_ok env (map_of (view t' DBI_value)) None (h # H k)"
    and other: "\<And>k' h'. k' \<noteq> k \<Longrightarrow> h' \<in> set (H k') \<Longrightarrow> \<not> isdel (vrev h') \<Longrightarrow>
       map_of (view t' DBI_value) (be64 (vrev h')) = map_of (view t DBI_value) (be64 (vrev h'))"
    and dom: "\<And>x y. map_of (view t' DBI_value) x = Some y \<Longrightarrow> \<exists>r. x = be64 r \<and> \<not> isdel r"
  shows "kv_rel env view t' (add_version k h H)"
  unfolding kv_rel_def
proof (intro conjI allI ballI)
  show "set (view t' DBI_revision) = {(ka, krec_bytes ka ha) |ka ha. ha \<in> set (add_version k h H ka)}"
    unfolding rv kv_relD(2) [OF rel] by (auto simp: add_version_def)
  fix k'
  show "vals_ok env (map_of (view t' DBI_value)) None (add_version k h H k')"
  proof (cases "k' = k")
    case False
    have "vals_ok env (map_of (view t' DBI_value)) None (H k') = vals_ok env (map_of (view t DBI_value)) None (H k')"
      by (rule vals_ok_cong) (use other [OF False] in blast)
    with False kv_relD(3) [OF rel] show ?thesis by (simp add: add_version_def)
  qed (use vals in \<open>simp add: add_version_def\<close>)
qed (use ok dom in \<open>auto simp del: map_of_eq_Some_iff\<close>)

text \<open>What both branches of \<open>put\<close> end with, over a state whose value database may already hold the
  previous value again as a patch.\<close>

lemma put_version:
  assumes rel: "kv_rel env view t H" and key: "2 \<le> length k" "length k \<le> PCB_LIMIT_KEY_LENGTH"
    and nxt: "ver_ok k h" "\<not> isdel (vrev h)" "kv_rev kv = vrev h" "snd h = lease"
      "kv_Bytes env kv None [] = Inr buf" "kv_Bytes env (fst h) None [] = Inr buf"
    and fresh: "fresh (vrev h) H"
    and t1: "\<And>d. d \<noteq> DBI_value \<Longrightarrow> view t1 d = view t d"
    and m1: "map_of (view t1 DBI_value) = (map_of (view t DBI_value)) ++ m"
    and dom: "\<And>x y. m x = Some y \<Longrightarrow> \<exists>h'. hd (H k) = h' \<and> H k \<noteq> [] \<and> \<not> isdel (vrev h') \<and> x = be64 (vrev h')"
    and vals: "vals_ok env (map_of (view t1 DBI_value)) (kv_val (fst h)) (H k)"
  shows "\<exists>t'. dbKv_put_store env L t1 kv lease epoch k = Inr t' \<and> kv_rel env view t' (add_version k h H) \<and>
    set (view t' DBI_event) = insert (be64 (vrev h), event_bytes (vrev h) epoch k) (set (view t DBI_event)) \<and>
    (\<forall>d. d \<notin> {DBI_revision, DBI_value, DBI_event} \<longrightarrow> view t' d = view t d)"
proof -
  note ok = kv_relD(1) [OF rel]
  have k: "k \<noteq> []" using key by auto
  from put_store_spec [OF k key(2) nxt(5,3,4), of t1 epoch] obtain t' where
    t': "dbKv_put_store env L t1 kv lease epoch k = Inr t'"
      "set (view t' DBI_revision) = insert (k, krec_bytes k h) (set (view t DBI_revision))"
      "map_of (view t' DBI_value) = (map_of (view t1 DBI_value))(be64 (vrev h) \<mapsto> buf)"
      "set (view t' DBI_event) = insert (be64 (vrev h), event_bytes (vrev h) epoch k) (set (view t DBI_event))"
      "\<forall>d. d \<notin> {DBI_revision, DBI_value, DBI_event} \<longrightarrow> view t' d = view t d"
    using t1 by auto
  have lt: "vrev h' < vrev h" if "h' \<in> set (H k')" for k' h' using fresh that by (auto simp: fresh_def)
  have ok': "hist_ok (add_version k h H)"
    by (rule hist_ok_add [OF ok nxt(1) key]) (use lt in \<open>fastforce+\<close>)
  have "kv_rel env view t' (add_version k h H)"
  proof (rule kv_rel_add [OF rel ok' t'(2)])
    have "vals_ok env (map_of (view t' DBI_value)) (kv_val (fst h)) (H k) =
        vals_ok env (map_of (view t1 DBI_value)) (kv_val (fst h)) (H k)"
    proof (rule vals_ok_cong)
      fix g assume "g \<in> set (H k)"
      from lt [OF this] show "map_of (view t' DBI_value) (be64 (vrev g)) = map_of (view t1 DBI_value) (be64 (vrev g))"
        unfolding t'(3) by auto
    qed
    with vals show "vals_ok env (map_of (view t' DBI_value)) None (h # H k)"
      using nxt(2,6) t'(3) by simp
  next
    fix k' h' assume o: "k' \<noteq> k" "h' \<in> set (H k')" "\<not> isdel (vrev h')"
    have "m (be64 (vrev h')) = None"
    proof (rule ccontr)
      assume "m (be64 (vrev h')) \<noteq> None"
      with dom obtain g where "H k \<noteq> []" "hd (H k) = g" "vrev h' = vrev g" by (metis be64_inject option.exhaust)
      with hist_okD(4) [OF ok o(2) _ o(3), of g k] o(1) show False by (metis hd_in_set)
    qed
    then show "map_of (view t' DBI_value) (be64 (vrev h')) = map_of (view t DBI_value) (be64 (vrev h'))"
      using lt [OF o(2)] unfolding t'(3) m1 by (auto simp: map_add_def)
  next
    fix x y assume "map_of (view t' DBI_value) x = Some y"
    then consider "x = be64 (vrev h)" | "m x = Some y" | "map_of (view t DBI_value) x = Some y"
      unfolding t'(3) m1 by (auto simp: map_add_def split: if_splits option.splits)
    then show "\<exists>r. x = be64 r \<and> \<not> isdel r" using nxt(2) dom kv_relD(4) [OF rel] by cases blast+
  qed
  with t' show ?thesis by blast
qed

text \<open>The previous value becomes a patch against the new one, or stays as it is.\<close>

lemma repatch_spec:
  assumes env: "env_ok env" and rel: "kv_rel env view t H" and h: "H k = h # hs" "\<not> isdel (vrev h)"
    and v: "map_of (view t DBI_value) (be64 (vrev h)) = Some v" "kv_Bytes env (fst h) None [] = Inr v"
    and val: "length (sl val) < 2 ^ 62" and kr: "krec_rev krec = vrev h"
    and nx: "val = None \<or> nx = val"
  shows "\<exists>t1 patched m. dbKv_repatch env L t krec ((fst h)\<lparr>kv_flags := f\<rparr>) v val = Inr (t1, patched) \<and>
    (\<forall>d. d \<noteq> DBI_value \<longrightarrow> view t1 d = view t d) \<and>
    map_of (view t1 DBI_value) = map_of (view t DBI_value) ++ m \<and> dom m \<subseteq> {be64 (vrev h)} \<and>
    vals_ok env (map_of (view t1 DBI_value)) nx (H k)"
proof -
  note ok = kv_relD(1) [OF rel]
  have hin: "h \<in> set (H k)" using h by simp
  then have "length (sl (kv_val (fst h))) < 2 ^ 62" using hist_okD(2) [OF ok hin] h(2) by (auto simp: ver_ok_def)
  with kv_Bytes_ok [of env val "fst h"] env val obtain buf where b: "kv_Bytes env (fst h) val [] = Inr buf"
    by (auto simp: env_ok_def)
  have b': "kv_Bytes env ((fst h)\<lparr>kv_flags := f\<rparr>) val [] = Inr buf" using kv_Bytes_flags [OF h(2), of env f val] b by simp
  have vh: "vals_ok env (map_of (view t DBI_value)) (kv_val (fst h)) hs"
    using kv_relD(3) [OF rel, of k] h by simp
  have stay: "vals_ok env (map_of (view t DBI_value)) nx (H k)"
    using vals_ok_nil_next kv_relD(3) [OF rel, of k] by blast
  show ?thesis
  proof (cases "PCB_PATCH_ENABLED env \<and> length buf < length v")
    case True
    have nv: "nx = val" using nx True b v(2) by auto
    from Put_value [of t "vrev h" buf] obtain t1 where t1: "mdb_Put L t DBI_value (be64 (vrev h)) buf = Inr t1"
      "map_of (view t1 DBI_value) = (map_of (view t DBI_value))(be64 (vrev h) \<mapsto> buf)"
      "\<forall>d. d \<noteq> DBI_value \<longrightarrow> view t1 d = view t d" by blast
    have "vals_ok env (map_of (view t1 DBI_value)) (kv_val (fst h)) hs = vals_ok env (map_of (view t DBI_value)) (kv_val (fst h)) hs"
      by (rule vals_ok_cong) (use hist_okD(3) [OF ok, of k] h t1(2) in auto)
    with vh have "vals_ok env (map_of (view t1 DBI_value)) nx (H k)"
      using h t1(2) b nv by simp blast
    moreover have "dbKv_repatch env L t krec ((fst h)\<lparr>kv_flags := f\<rparr>) v val = Inr (t1, True)"
      using True t1(1) b' kr h(2) by (simp add: dbKv_repatch_def)
    moreover have "map_of (view t1 DBI_value) = map_of (view t DBI_value) ++ [be64 (vrev h) \<mapsto> buf]"
      using t1(2) by simp
    ultimately show ?thesis using t1(3) by (auto intro!: exI [where x = t1] exI [where x = "[be64 (vrev h) \<mapsto> buf]"]
          split: if_splits)
  next
    case False
    then have "dbKv_repatch env L t krec ((fst h)\<lparr>kv_flags := f\<rparr>) v val = Inr (t, False)"
      using b' by (auto simp: dbKv_repatch_def)
    with stay show ?thesis by (auto intro!: exI [where x = t] exI [where x = Map.empty])
  qed
qed

end

section \<open>Put\<close>

definition put_ok :: "'x env_scheme \<Rightarrow> u64 \<Rightarrow> version list \<Rightarrow> bool" where
  "put_ok env rv hs \<longleftrightarrow> (case hs of [] \<Rightarrow> True
     | h # _ \<Rightarrow> isdel (vrev h) \<or> upper (vrev h) \<noteq> rv \<or> PCB_TXN_MULTI_WRITE_ENABLED env)"

lemma spec_put_simps:
  assumes "rev_fits rv subrev"
  shows "kv_rev (spec_put rv subrev lease k val iv il hs) = newkeyrev rv subrev False"
    "\<not> isdel (kv_rev (spec_put rv subrev lease k val iv il hs))"
    "kv_key (spec_put rv subrev lease k val iv il hs) = k"
  using assms isdel_newkeyrev [OF assms, of False] by (simp_all add: spec_put_def Let_def split: list.splits)

lemma spec_put_ver_ok:
  assumes "rev_fits rv subrev" "rv \<noteq> 0" "length (sl val) < 2 ^ 62" "\<forall>h \<in> set hs. ver_ok k h"
  shows "ver_ok k (spec_put rv subrev lease k val iv il hs, lease)"
  using assms newkeyrev_nonzero [of rv subrev False] spec_put_simps [OF assms(1), of lease k val iv il hs]
  by (auto simp: ver_ok_def) (auto simp: spec_put_def Let_def ver_ok_def split: list.splits if_splits)

context lmdb
begin

lemma put_spec:
  assumes env: "env_ok env" and rel: "kv_rel env view t H" and key: "2 \<le> length k" "length k \<le> PCB_LIMIT_KEY_LENGTH"
    and rv: "rev_fits rv subrev" "rv \<noteq> 0" and fresh: "fresh (newkeyrev rv subrev False) H"
    and dup: "put_ok env rv (H k)" and val: "length (sl val) < 2 ^ 62" "iv \<Longrightarrow> val = None"
  shows "\<exists>t' prev next patched. dbKv_put env L t rv subrev lease epoch k val iv il = Inr (t', prev, next, patched) \<and>
    kv_rel env view t' (add_version k (spec_put rv subrev lease k val iv il (H k), lease) H) \<and>
    plain prev = spec_at 0 (H k) \<and>
    next\<lparr>kv_val := Some (sl (kv_val next))\<rparr> = spec_put rv subrev lease k val iv il (H k) \<and>
    set (view t' DBI_event) = insert (be64 (newkeyrev rv subrev False), event_bytes (newkeyrev rv subrev False) epoch k)
      (set (view t DBI_event)) \<and>
    (\<forall>d. d \<notin> {DBI_revision, DBI_value, DBI_event} \<longrightarrow> view t' d = view t d)"
proof -
  note ok = kv_relD(1) [OF rel]
  let ?kv = "spec_put rv subrev lease k val iv il (H k)"
  have k: "k \<noteq> []" using key by auto
  have pre: "\<not> length k = 0" "\<not> PCB_LIMIT_KEY_LENGTH < length k" using key by auto
  from current_spec [OF rel k] obtain krec where
    krec: "dbKv_current L t k = Inr krec" "krec_rev krec = (case H k of [] \<Rightarrow> 0 | h # _ \<Rightarrow> vrev h)" by blast
  note sp = spec_put_simps [OF rv(1), of lease k val iv il "H k"]
  have vok: "ver_ok k (?kv, lease)" by (rule spec_put_ver_ok [OF rv val(1)]) (use hist_okD(2) [OF ok] in blast)
  have fr: "fresh (vrev (?kv, lease)) H" using fresh sp by simp
  have "length (sl (kv_val ?kv)) < 2 ^ 62" using vok sp(2) by (auto simp: ver_ok_def)
  with kv_Bytes_ok [of env None ?kv] env obtain buf where buf: "kv_Bytes env ?kv None [] = Inr buf"
    by (auto simp: env_ok_def)
  have nb: "kv_Bytes env kv None [] = Inr buf" if "kv\<lparr>kv_val := Some (sl (kv_val kv))\<rparr> = ?kv" for kv
  proof -
    have "\<not> isdel (kv_rev kv)" using that sp(2) by (metis kv.select_convs(1) kv.surjective kv.update_convs(7))
    with kv_Bytes_slice [OF this, of env None] buf that show ?thesis by simp
  qed
  show ?thesis
  proof (cases "krec_rev krec = 0 \<or> isdel (krec_rev krec)")
    case True
    let ?next = "\<lparr>kv_rev = newkeyrev rv subrev False, kv_version = 1, kv_created = rv,
                kv_lease = lease, kv_flags = 0, kv_key = k, kv_val = val\<rparr>"
    have new: "H k = [] \<or> (\<exists>h hs. H k = h # hs \<and> isdel (vrev h))"
      using True krec(2) hist_okD(2) [OF ok, of _ k] by (cases "H k") (auto simp: ver_ok_def)
    then have nx: "?next\<lparr>kv_val := Some (sl (kv_val ?next))\<rparr> = ?kv" by (auto simp: spec_put_def)
    have vals: "vals_ok env (map_of (view t DBI_value)) (kv_val ?kv) (H k)"
      using vals_ok_nil_next kv_relD(3) [OF rel, of k] by blast
    from put_version [OF rel key vok _ _ _ nb [OF nx] _ fr, where ?t1.0 = t and m = Map.empty and epoch = epoch] sp vals buf
    obtain t' where t': "dbKv_put_store env L t ?next lease epoch k = Inr t'"
      "kv_rel env view t' (add_version k (?kv, lease) H)"
      "set (view t' DBI_event) = insert (be64 (newkeyrev rv subrev False), event_bytes (newkeyrev rv subrev False) epoch k)
         (set (view t DBI_event))" "\<forall>d. d \<notin> {DBI_revision, DBI_value, DBI_event} \<longrightarrow> view t' d = view t d" by auto
    have "dbKv_put env L t rv subrev lease epoch k val iv il = Inr (t', kv_zero, ?next, False)"
      using pre krec(1) True t'(1) by (simp add: dbKv_put_def OpenCursor Let_def)
    moreover have "spec_at 0 (H k) = kv_zero"
      using new by (auto simp: spec_at_def visible_def newer_def ver_kv_def)
    ultimately show ?thesis using t' nx by (simp, blast)
  next
    case False
    with krec(2) obtain h hs where h: "H k = h # hs" "\<not> isdel (vrev h)" "krec_rev krec = vrev h"
      by (cases "H k") auto
    have hin: "h \<in> set (H k)" using h by simp
    have nd: "\<not> (upper (krec_rev krec) = rv \<and> \<not> PCB_TXN_MULTI_WRITE_ENABLED env)"
      using dup h by (auto simp: put_ok_def)
    from kv_relD(3) [OF rel, of k] h obtain v where v: "map_of (view t DBI_value) (be64 (vrev h)) = Some v"
      "kv_Bytes env (fst h) None [] = Inr v" by auto
    from stored_decodes [OF env hist_okD(2) [OF ok hin] h(2) key v(2), of None kv_zero] obtain f where
      f: "kv_FromBytes env kv_zero (be64 (vrev h)) v None False = Inr ((fst h)\<lparr>kv_flags := f\<rparr>, None)" by auto
    let ?prev = "(fst h)\<lparr>kv_flags := f\<rparr>"
    let ?next = "\<lparr>kv_rev = newkeyrev rv subrev False, kv_version = kv_version (fst h) + 1,
        kv_created = kv_created (fst h), kv_lease = (if il then kv_lease (fst h) else lease), kv_flags = 0,
        kv_key = k, kv_val = (if iv then kv_val (fst h) else val)\<rparr>"
    have hv: "\<exists>x. kv_val (fst h) = Some x" using hist_okD(2) [OF ok hin] h(2) by (auto simp: ver_ok_def)
    then have nx: "?next\<lparr>kv_val := Some (sl (kv_val ?next))\<rparr> = ?kv"
      using h by (auto simp: spec_put_def Let_def)
    have vn: "val = None \<or> kv_val ?kv = val" using h val(2) by (cases val) (auto simp: spec_put_def Let_def)
    from repatch_spec [OF env rel h(1,2) v val(1) h(3) vn, of f] obtain t1 patched m where
      r: "dbKv_repatch env L t krec ?prev v val = Inr (t1, patched)" "\<forall>d. d \<noteq> DBI_value \<longrightarrow> view t1 d = view t d"
        "map_of (view t1 DBI_value) = map_of (view t DBI_value) ++ m" "dom m \<subseteq> {be64 (vrev h)}"
        "vals_ok env (map_of (view t1 DBI_value)) (kv_val ?kv) (H k)" by blast
    have dm: "\<exists>h'. hd (H k) = h' \<and> H k \<noteq> [] \<and> \<not> isdel (vrev h') \<and> x = be64 (vrev h')" if "m x = Some y" for x y
      using r(4) that h by auto
    have "\<exists>t'. dbKv_put_store env L t1 ?next lease epoch k = Inr t' \<and>
      kv_rel env view t' (add_version k (?kv, lease) H) \<and>
      set (view t' DBI_event) = insert (be64 (vrev (?kv, lease)), event_bytes (vrev (?kv, lease)) epoch k)
        (set (view t DBI_event)) \<and> (\<forall>d. d \<notin> {DBI_revision, DBI_value, DBI_event} \<longrightarrow> view t' d = view t d)"
      by (rule put_version [OF rel key vok _ _ _ nb [OF nx] _ fr _ r(3)]) (use sp r(2,5) buf dm in \<open>simp_all\<close>)
    with sp(1) obtain t' where t': "dbKv_put_store env L t1 ?next lease epoch k = Inr t'"
      "kv_rel env view t' (add_version k (?kv, lease) H)"
      "set (view t' DBI_event) = insert (be64 (newkeyrev rv subrev False), event_bytes (newkeyrev rv subrev False) epoch k)
         (set (view t DBI_event))" "\<forall>d. d \<notin> {DBI_revision, DBI_value, DBI_event} \<longrightarrow> view t' d = view t d" by auto
    have "dbKv_put env L t rv subrev lease epoch k val iv il = Inr (t', ?prev, ?next, patched)"
      using pre krec(1) False nd h(3) Get_value [OF v(1)] f r(1) t'(1)
      by (cases iv; cases il) (simp_all add: dbKv_put_def OpenCursor Let_def)
    moreover have "plain ?prev = spec_at 0 (H k)"
      using h by (simp add: spec_at_def visible_def newer_def ver_kv_def)
    ultimately show ?thesis using t' nx by simp
  qed
qed

end

section \<open>Properties\<close>

lemma kv_rel_empty: "kv_rel env mem_view mem_empty (\<lambda>_. [])"
  by (simp add: kv_rel_def hist_ok_def)

lemma env_ok_plain [simp]: "env_ok plain_env"
  by (simp add: env_ok_def snappy_ok_def)

text \<open>A store with one key, for the concrete runs.\<close>

definition one_key :: history where
  "one_key = add_version [97, 98] (spec_put 2 0 0 [97, 98] (Some [1]) False False [], 0) (\<lambda>_. [])"

lemma one_key_store:
  "\<exists>t out. dbKv_put plain_env mem_lmdb mem_empty 2 0 0 1 [97, 98] (Some [1]) False False = Inr (t, out) \<and>
     kv_rel plain_env mem_view t one_key \<and>
     set (mem_view t DBI_event) = {(be64 (newkeyrev 2 0 False), event_bytes (newkeyrev 2 0 False) 1 [97, 98])}"
proof -
  have p: "2 \<le> length [97, 98 :: byte]" "length [97, 98 :: byte] \<le> PCB_LIMIT_KEY_LENGTH" "rev_fits 2 0" "(2 :: u64) \<noteq> 0"
    "fresh (newkeyrev 2 0 False) (\<lambda>_. [])" "put_ok plain_env 2 []" "length (sl (Some [1 :: byte])) < 2 ^ 62"
    by (simp_all add: PCB_LIMIT_KEY_LENGTH_def rev_fits_def fresh_def put_ok_def)
  from mem.put_spec [OF env_ok_plain kv_rel_empty p, of False 0 1 False] show ?thesis
    unfolding one_key_def by fastforce
qed

lemma one_key_simps [simp]:
  "one_key [97, 98] = [(spec_put 2 0 0 [97, 98] (Some [1]) False False [], 0)]" "k \<noteq> [97, 98] \<Longrightarrow> one_key k = []"
  by (simp_all add: one_key_def add_version_def)

lemma one_key_version [simp]:
  "kv_rev (spec_put 2 0 0 [97, 98] (Some [1]) False False []) = newkeyrev 2 0 False"
  "upper (newkeyrev 2 0 False) = 2" "\<not> isdel (newkeyrev 2 0 False)"
  using upper_newkeyrev [of 2 0 False] isdel_newkeyrev [of 2 0 False] by (simp_all add: rev_fits_def spec_put_def Let_def)

text \<open>A store with two keys.\<close>

definition two_keys :: history where
  "two_keys = add_version [97, 99] (spec_put 3 0 0 [97, 99] (Some [2]) False False [], 0) one_key"

lemma two_keys_simps [simp]:
  "two_keys [97, 98] = [(spec_put 2 0 0 [97, 98] (Some [1]) False False [], 0)]"
  "two_keys [97, 99] = [(spec_put 3 0 0 [97, 99] (Some [2]) False False [], 0)]"
  "k \<noteq> [97, 98] \<Longrightarrow> k \<noteq> [97, 99] \<Longrightarrow> two_keys k = []"
  by (simp_all add: two_keys_def add_version_def)

lemma two_keys_version [simp]:
  "kv_rev (spec_put 3 0 0 [97, 99] (Some [2]) False False []) = newkeyrev 3 0 False"
  "upper (newkeyrev 3 0 False) = 3" "\<not> isdel (newkeyrev 3 0 False)"
  using upper_newkeyrev [of 3 0 False] isdel_newkeyrev [of 3 0 False] by (simp_all add: rev_fits_def spec_put_def Let_def)

lemma two_key_store: "\<exists>t. kv_rel plain_env mem_view t two_keys"
proof -
  from one_key_store obtain t where t: "kv_rel plain_env mem_view t one_key" by blast
  have "fresh (newkeyrev 3 0 False) one_key" unfolding fresh_def
  proof (intro allI ballI)
    fix k h assume "h \<in> set (one_key k)"
    then have "vrev h = newkeyrev 2 0 False" by (cases "k = [97, 98]") auto
    then show "vrev h < newkeyrev 3 0 False" using newkeyrev_less [of 2 0 3 0 False False] by (simp add: rev_fits_def)
  qed
  then have p: "2 \<le> length [97, 99 :: byte]" "length [97, 99 :: byte] \<le> PCB_LIMIT_KEY_LENGTH" "rev_fits 3 0" "(3 :: u64) \<noteq> 0"
    "fresh (newkeyrev 3 0 False) one_key" "put_ok plain_env 3 (one_key [97, 99])" "length (sl (Some [2 :: byte])) < 2 ^ 62"
    by (simp_all add: PCB_LIMIT_KEY_LENGTH_def rev_fits_def put_ok_def)
  have "one_key [97, 99] = []" by simp
  with mem.put_spec [OF env_ok_plain t p, of False 0 1 False] show ?thesis
    unfolding two_keys_def by fastforce
qed

lemma spec_at_add:
  "spec_at r (add_version k h H k') = (if k' = k \<and> \<not> newer r h then ver_kv h else spec_at r (H k'))"
  by (simp add: spec_at_def visible_def add_version_def)

text \<open>C17: a put refines the addition of one version to the history of its key. For a key of 2 to 480
  bytes and a revision newer than every stored one it succeeds; the new version has the version
  number, the creation revision, the lease and the value the specification gives it (a first version
  after a deletion starts over), the previous version is returned, exactly one event is recorded, and
  the other databases do not change.\<close>

theorem put_refines:
  assumes "lmdb L view" "env_ok env" "kv_rel env view t H" "2 \<le> length k" "length k \<le> PCB_LIMIT_KEY_LENGTH"
    and "rev_fits rv subrev" "rv \<noteq> 0" "fresh (newkeyrev rv subrev False) H" "put_ok env rv (H k)"
    and "length (sl val) < 2 ^ 62" "\<not> (ignoreValue \<and> val \<noteq> None)"
  shows "\<exists>t' prev next patched.
    dbKv_put env L t rv subrev lease epoch k val ignoreValue ignoreLease = Inr (t', prev, next, patched) \<and>
    kv_rel env view t' (add_version k (spec_put rv subrev lease k val ignoreValue ignoreLease (H k), lease) H) \<and>
    plain prev = spec_at 0 (H k) \<and>
    next\<lparr>kv_val := Some (sl (kv_val next))\<rparr> = spec_put rv subrev lease k val ignoreValue ignoreLease (H k) \<and>
    set (view t' DBI_event) = insert (be64 (newkeyrev rv subrev False), event_bytes (newkeyrev rv subrev False) epoch k)
      (set (view t DBI_event)) \<and>
    (\<forall>d. d \<notin> {DBI_revision, DBI_value, DBI_event} \<longrightarrow> view t' d = view t d)"
  by (rule lmdb.put_spec [OF assms(1-10)]) (use assms(11) in blast)

theorem put_refines_witness:
  "\<exists>t' prev next patched.
    dbKv_put plain_env mem_lmdb mem_empty 2 0 5 1 [97, 98] (Some [1]) False False = Inr (t', prev, next, patched) \<and>
    kv_rel plain_env mem_view t'
      (add_version [97, 98] (spec_put 2 0 5 [97, 98] (Some [1]) False False [], 5) (\<lambda>_. [])) \<and>
    plain prev = spec_at 0 [] \<and>
    set (mem_view t' DBI_event) = {(be64 (newkeyrev 2 0 False), event_bytes (newkeyrev 2 0 False) 1 [97, 98])}"
  using put_refines [OF mem.lmdb_axioms env_ok_plain kv_rel_empty, of "[97, 98]" 2 0 "Some [1]" False 5 1 False]
  by (auto simp: PCB_LIMIT_KEY_LENGTH_def rev_fits_def fresh_def put_ok_def)

text \<open>C18: a read refines the lookup in the history. At any revision it finds the version that was current
  then, decoded through all the patches between it and the newest one, and the version before it on
  request; it returns the zero record, and no error, when there was none or the key was deleted.\<close>

theorem getRev_refines:
  assumes "lmdb L view" "env_ok env" "kv_rel env view t H" "k \<noteq> []"
  shows "\<exists>item prev. dbKv_getRev env L t k revision withPrev = Inr (item, prev, None) \<and>
     plain item = spec_at revision (H k) \<and>
     plain prev = (if withPrev then spec_prev revision (H k) else kv_zero)"
  by (rule lmdb.getRev_spec [OF assms])

theorem getRev_refines_witness:
  "\<exists>item prev. dbKv_getRev plain_env mem_lmdb mem_empty [97] 7 True = Inr (item, prev, None) \<and>
     plain item = kv_zero \<and> plain prev = kv_zero"
  using getRev_refines [OF mem.lmdb_axioms env_ok_plain kv_rel_empty, of "[97]" 7 True]
  by (simp add: spec_at_def spec_prev_def visible_def)

text \<open>C25: reads at past revisions are stable, and the latest read sees the write. After a put under a key of two to 480 bytes at a
  new revision \<open>rv\<close>, a read of any key at an earlier revision returns what it returned before, although the previous
  value may have been stored again as a patch; a read of the latest revision of the key returns the
  value that was put.\<close>

theorem put_then_getRev:
  assumes "lmdb L view" "env_ok env" "kv_rel env view t H" "2 \<le> length k" "length k \<le> PCB_LIMIT_KEY_LENGTH"
    and "rev_fits rv subrev" "rv \<noteq> 0" "fresh (newkeyrev rv subrev False) H" "put_ok env rv (H k)"
    and "length (sl val) < 2 ^ 62" "0 < r" "r < rv" "k' \<noteq> []"
  shows "\<exists>t' out. dbKv_put env L t rv subrev lease epoch k val False ignoreLease = Inr (t', out) \<and>
    (\<exists>old old_prev new new_prev. dbKv_getRev env L t k' r True = Inr (old, old_prev, None) \<and>
       dbKv_getRev env L t' k' r True = Inr (new, new_prev, None) \<and>
       plain new = plain old \<and> plain new_prev = plain old_prev) \<and>
    (\<exists>item prev. dbKv_getRev env L t' k 0 False = Inr (item, prev, None) \<and>
       upper (kv_rev item) = rv \<and> kv_key item = k \<and> kv_val item = Some (sl val))"
proof -
  let ?h = "(spec_put rv subrev lease k val False ignoreLease (H k), lease)"
  from lmdb.put_spec [OF assms(1-10), of False lease epoch ignoreLease] obtain t' out where
    p: "dbKv_put env L t rv subrev lease epoch k val False ignoreLease = Inr (t', out)"
    and rel': "kv_rel env view t' (add_version k ?h H)" by auto
  have k: "k \<noteq> []" using assms(4) by auto
  note sp = spec_put_simps [OF assms(6), of lease k val False ignoreLease "H k"]
  have nw: "newer r ?h" using assms(11,12) upper_newkeyrev [OF assms(6)] sp(1) by (simp add: newer_def)
  then have vis: "visible r (add_version k ?h H k') = visible r (H k')" by (simp add: visible_def add_version_def)
  have past: "spec_at r (add_version k ?h H k') = spec_at r (H k')" "spec_prev r (add_version k ?h H k') = spec_prev r (H k')"
    by (simp_all add: spec_at_def spec_prev_def vis)
  from lmdb.getRev_spec [OF assms(1-3,13), of r True] lmdb.getRev_spec [OF assms(1,2) rel' assms(13), of r True]
  have "\<exists>old old_prev new new_prev. dbKv_getRev env L t k' r True = Inr (old, old_prev, None) \<and>
       dbKv_getRev env L t' k' r True = Inr (new, new_prev, None) \<and>
       plain new = plain old \<and> plain new_prev = plain old_prev" unfolding past by (metis (full_types))
  moreover from lmdb.getRev_spec [OF assms(1,2) rel' k, of 0 False] obtain item prev where
    g: "dbKv_getRev env L t' k 0 False = Inr (item, prev, None)" "plain item = plain (fst ?h)"
    using sp(2) by (auto simp: spec_at_add newer_def ver_kv_def)
  have sel: "kv_rev item = kv_rev (fst ?h)" "kv_key item = kv_key (fst ?h)" "kv_val item = kv_val (fst ?h)"
    using arg_cong [OF g(2), of kv_rev] arg_cong [OF g(2), of kv_key] arg_cong [OF g(2), of kv_val]
    by (simp_all add: plain_def)
  have "kv_val (fst ?h) = Some (sl val)" by (simp add: spec_put_def Let_def split: list.splits)
  with g(1) sel sp upper_newkeyrev [OF assms(6)] have "\<exists>item prev. dbKv_getRev env L t' k 0 False = Inr (item, prev, None) \<and>
       upper (kv_rev item) = rv \<and> kv_key item = k \<and> kv_val item = Some (sl val)" by auto
  ultimately show ?thesis using p by blast
qed

theorem put_then_getRev_witness:
  "\<exists>t' out. dbKv_put plain_env mem_lmdb mem_empty 2 0 0 1 [97, 98] (Some [1]) False False = Inr (t', out) \<and>
    (\<exists>item prev. dbKv_getRev plain_env mem_lmdb t' [97, 98] 0 False = Inr (item, prev, None) \<and>
       upper (kv_rev item) = 2 \<and> kv_key item = [97, 98] \<and> kv_val item = Some [1])"
  using put_then_getRev [OF mem.lmdb_axioms env_ok_plain kv_rel_empty, of "[97, 98]" 2 0 "Some [1]" 1 "[99]" 0 1 False]
  by (auto simp: PCB_LIMIT_KEY_LENGTH_def rev_fits_def fresh_def put_ok_def)

end
