(* ===== verification/Mvcc_Cursor.thy ===== *)
theory Mvcc_Cursor
  imports Mvcc
begin

text \<open>
  The cursor that moves over the keys of the \<open>revision\<close> database, as \<open>getRange\<close> and \<open>deleteRange\<close> of
  \<open>src/db_kv.go\<close> move it: \<open>SetRange\<close> to the first key of a range, then \<open>NextNoDup\<close> from key to key.
  \<open>lands P cur H\<close> says that the cursor stands on the newest record of the first key that satisfies
  \<open>P\<close>, or at the end when the store has no such key.
\<close>

definition lands :: "(bytes \<Rightarrow> bool) \<Rightarrow> entry result \<Rightarrow> history \<Rightarrow> bool" where
  "lands P cur H \<longleftrightarrow>
     (case cur of
        Inl err \<Rightarrow> err = ErrMdbNotFound \<and> (\<forall>k. P k \<longrightarrow> H k = [])
      | Inr (k, v) \<Rightarrow> P k \<and> H k \<noteq> [] \<and> v = krec_bytes k (hd (H k)) \<and> (\<forall>k'. P k' \<and> k' < k \<longrightarrow> H k' = []))"

lemma landsE:
  assumes "lands P cur H"
  obtains (eof) "cur = Inl ErrMdbNotFound" "\<And>k. P k \<Longrightarrow> H k = []"
  | (key) k h hs where "cur = Inr (k, krec_bytes k h)" "P k" "H k = h # hs" "\<And>k'. P k' \<Longrightarrow> k' < k \<Longrightarrow> H k' = []"
proof (cases cur)
  case (Inl e)
  with assms eof show ?thesis by (simp add: lands_def)
next
  case (Inr e)
  obtain k v where e: "e = (k, v)" by (rule prod.exhaust)
  with assms Inr have "P k" "H k \<noteq> []" "v = krec_bytes k (hd (H k))" "\<And>k'. P k' \<Longrightarrow> k' < k \<Longrightarrow> H k' = []"
    by (auto simp: lands_def)
  with key [of k "hd (H k)" "tl (H k)"] Inr e show ?thesis by simp
qed

text \<open>The keys a scan still has to visit.\<close>

definition keys_in :: "(bytes \<Rightarrow> bool) \<Rightarrow> history \<Rightarrow> bytes set" where
  "keys_in P H = {k. P k \<and> H k \<noteq> []}"

text \<open>The keys of a range in the order of a scan.\<close>

definition key_list :: "(bytes \<Rightarrow> bool) \<Rightarrow> history \<Rightarrow> bytes list" where
  "key_list P H = sorted_list_of_set (keys_in P H)"

context lmdb
begin

lemma newest_entry:
  assumes "kv_rel env view t H" "H k \<noteq> []"
  shows "(k, krec_bytes k (hd (H k))) \<in> set (view t DBI_revision)"
  using rev_entry [OF assms(1)] hd_in_set [OF assms(2)] by blast

lemma finite_keys: "kv_rel env view t H \<Longrightarrow> finite (keys_in P H)"
proof -
  assume rel: "kv_rel env view t H"
  have "keys_in P H \<subseteq> fst ` set (view t DBI_revision)"
    using newest_entry [OF rel] by (force simp: keys_in_def)
  then show ?thesis by (rule finite_subset) simp
qed

lemma card_keys:
  assumes rel: "kv_rel env view t H"
  shows "card (keys_in P H) \<le> mdb_Entries L t DBI_revision"
proof -
  let ?f = "\<lambda>k. (k, krec_bytes k (hd (H k)))"
  have "?f ` keys_in P H \<subseteq> set (view t DBI_revision)"
    using newest_entry [OF rel] by (auto simp: keys_in_def)
  then have "card (keys_in P H) \<le> card (set (view t DBI_revision))"
    by (rule card_inj_on_le [rotated]) (auto intro: inj_onI)
  also have "\<dots> \<le> length (view t DBI_revision)" by (rule card_length)
  finally show ?thesis by (simp add: Entries)
qed

lemma lands_first:
  assumes rel: "kv_rel env view t H"
  shows "lands P (first_entry (\<lambda>e. P (fst e)) (view t DBI_revision)) H"
proof (cases "first_entry (\<lambda>e. P (fst e)) (view t DBI_revision)")
  case (Inl err)
  have none: "H k = []" if "P k" for k
    using first_entry_Inl [OF Inl] newest_entry [OF rel, of k] that by (metis fst_conv)
  with first_entry_Inl [OF Inl] Inl show ?thesis by (simp add: lands_def)
next
  case (Inr e)
  obtain k v where e: "e = (k, v)" by (rule prod.exhaust)
  have entry: "(k', krec_bytes k' h) \<in> set (view t DBI_revision)" if "h \<in> set (H k')" for k' h
    using that kv_relD(2) [OF rel] by blast
  from first_entry_InrD [OF Inr] e have k: "(k, v) \<in> set (view t DBI_revision)" "P k" by auto
  with rev_entry [OF rel] obtain h where h: "h \<in> set (H k)" "v = krec_bytes k h" by auto
  then have ne: "H k \<noteq> []" by auto
  have least: "(k, v) \<le> (k', krec_bytes k' h')" if "P k'" "h' \<in> set (H k')" for k' h'
    using first_entry_least [OF view_sorted Inr entry [OF that(2)]] that(1) e by simp
  have "krec_bytes k h \<le> krec_bytes k (hd (H k))" using least [of k "hd (H k)"] k ne h by simp
  moreover have "hd (H k) = h \<or> vrev h < vrev (hd (H k))"
    using h(1) hist_okD(3) [OF kv_relD(1) [OF rel], of k] by (cases "H k") auto
  ultimately have "v = krec_bytes k (hd (H k))" using h(2) krec_bytes_less [of h "hd (H k)" k] by auto
  moreover have "H k' = []" if "P k'" "k' < k" for k'
  proof (rule ccontr)
    assume "H k' \<noteq> []"
    then have "hd (H k') \<in> set (H k')" by simp
    from least [OF that(1) this] that(2) show False by auto
  qed
  ultimately show ?thesis using Inr e k ne by (simp add: lands_def)
qed

lemma lands_SetRange:
  assumes "kv_rel env view t H" "key \<noteq> []"
  shows "lands (\<lambda>k. key \<le> k) (cur_SetRange L t DBI_revision key) H"
  unfolding SetRange [OF assms(2)] by (rule lands_first [OF assms(1)])

lemma lands_NextNoDup:
  assumes "kv_rel env view t H"
  shows "lands (\<lambda>k'. k < k') (cur_NextNoDup L t DBI_revision (k, v)) H"
  using lands_first [OF assms, of "\<lambda>k'. k < k'"] by (simp add: NextNoDup)

text \<open>A step of the scan leaves the keys behind the one it stood on.\<close>

lemma keys_in_step:
  assumes "H k = h # hs" "P k" "\<And>k'. P k' \<Longrightarrow> k' < k \<Longrightarrow> H k' = []" "\<And>k'. k < k' \<Longrightarrow> P k'"
  shows "keys_in P H = insert k (keys_in (\<lambda>k'. k < k') H)" "k \<notin> keys_in (\<lambda>k'. k < k') H"
  using assms by (auto simp: keys_in_def) (metis linorder_less_linear)

lemma card_step:
  assumes "kv_rel env view t H" "H k = h # hs" "P k" "\<And>k'. P k' \<Longrightarrow> k' < k \<Longrightarrow> H k' = []" "\<And>k'. k < k' \<Longrightarrow> P k'"
  shows "card (keys_in P H) = Suc (card (keys_in (\<lambda>k'. k < k') H))"
  using keys_in_step [of H k h hs P, OF assms(2-5)] finite_keys [OF assms(1), of "\<lambda>k'. k < k'"] by simp

lemma key_list_step:
  assumes "kv_rel env view t H" "H k = h # hs" "P k" "\<And>k'. P k' \<Longrightarrow> k' < k \<Longrightarrow> H k' = []" "\<And>k'. k < k' \<Longrightarrow> P k'"
  shows "key_list P H = k # key_list (\<lambda>k'. k < k') H"
proof -
  have "Min (insert k (keys_in (\<lambda>k'. k < k') H)) = k"
    using finite_keys [OF assms(1), of "\<lambda>k'. k < k'"] by (auto intro!: Min_eqI simp: keys_in_def)
  then show ?thesis
    using keys_in_step [of H k h hs P, OF assms(2-5)] finite_keys [OF assms(1), of "\<lambda>k'. k < k'"]
    by (simp add: key_list_def sorted_list_of_set_insert_remove insort_is_Cons less_imp_le keys_in_def)
qed

end

end
