(* ===== verification/Mvcc_Delete.thy ===== *)
theory Mvcc_Delete
  imports Mvcc_Put Mvcc_Cursor
begin

text \<open>
  Deletion: \<open>deleteRange\<close> and \<open>deleteBatch\<close> of \<open>src/db_kv.go\<close> put one tombstone on top of the history of
  every live key of the range, and nothing else.
\<close>

section \<open>The specification\<close>

definition tomb :: "keyrev \<Rightarrow> version" where
  "tomb r = (kv_zero\<lparr>kv_rev := r\<rparr>, 0)"

definition live :: "version list \<Rightarrow> bool" where
  "live hs \<longleftrightarrow> (case hs of [] \<Rightarrow> False | h # _ \<Rightarrow> \<not> isdel (vrev h))"

definition delete_keys :: "keyrev \<Rightarrow> bytes set \<Rightarrow> history \<Rightarrow> history" where
  "delete_keys r D H = (\<lambda>k. if k \<in> D then tomb r # H k else H k)"

text \<open>The range of a deletion. Its end belongs to it, unlike the end of the range of a read.\<close>

definition in_delete :: "bytes \<Rightarrow> bytes \<Rightarrow> bytes \<Rightarrow> bool" where
  "in_delete key fin k \<longleftrightarrow> (if fin = [] then k = key else key \<le> k \<and> k \<le> fin)"

definition deleted_keys :: "bytes \<Rightarrow> bytes \<Rightarrow> history \<Rightarrow> bytes list" where
  "deleted_keys key fin H = filter (\<lambda>k. live (H k)) (key_list (in_delete key fin) H)"

text \<open>The newest versions that may be deleted at revision \<open>rv\<close>.\<close>

definition delete_ok :: "'x env_scheme \<Rightarrow> u64 \<Rightarrow> u64 \<Rightarrow> version list \<Rightarrow> bool" where
  "delete_ok env rv subrev hs \<longleftrightarrow> (\<forall>h \<in> set hs. vrev h < newkeyrev rv subrev True) \<and>
     (live hs \<longrightarrow> upper (vrev (hd hs)) \<noteq> rv \<or> PCB_TXN_MULTI_WRITE_ENABLED env)"

lemma vrev_tomb [simp]: "vrev (tomb r) = r" "snd (tomb r) = 0"
  by (simp_all add: tomb_def)

lemma live_simps [simp]: "\<not> live []" "live (h # hs) = (\<not> isdel (vrev h))"
  by (simp_all add: live_def)

lemma add_tomb: "delete_keys r D (add_version k (tomb r) H) = delete_keys r (insert k D) H" if "k \<notin> D"
  using that by (auto simp: delete_keys_def add_version_def fun_eq_iff)

lemma delete_keys_empty [simp]: "delete_keys r {} H = H"
  by (simp add: delete_keys_def)

lemma keys_in_mono_eq: "(\<And>k. P k \<Longrightarrow> (H k = []) = (H' k = [])) \<Longrightarrow> keys_in P H = keys_in P H'"
  by (auto simp: keys_in_def)

section \<open>One tombstone\<close>

context lmdb
begin

lemma tombstone_spec:
  assumes rel: "kv_rel env view t H" and k: "H k \<noteq> []" and r: "isdel r" "r \<noteq> 0"
    and new: "\<And>h. h \<in> set (H k) \<Longrightarrow> vrev h < r"
  shows "\<exists>t'. dbKv_tombstone L t r epoch k = Inr t' \<and> kv_rel env view t' (add_version k (tomb r) H) \<and>
    set (view t' DBI_event) = insert (be64 r, event_bytes r epoch k) (set (view t DBI_event)) \<and>
    (\<forall>d. d \<notin> {DBI_revision, DBI_event} \<longrightarrow> view t' d = view t d)"
proof -
  note ok = kv_relD(1) [OF rel]
  note len = hist_okD(1) [OF ok k]
  have kne: "k \<noteq> []" using len by auto
  have kb: "keyrecord_Bytes \<lparr>krec_key = k, krec_rev = r, krec_lease = 0\<rparr> [] = krec_bytes k (tomb r)"
    by (simp add: krec_bytes_def krec_of_def)
  from Put_revision [OF kne, of t "tomb r"] len obtain t1 where
    t1: "mdb_Put L t DBI_revision k (krec_bytes k (tomb r)) = Inr t1"
      "set (view t1 DBI_revision) = insert (k, krec_bytes k (tomb r)) (set (view t DBI_revision))"
      "\<forall>d. d \<noteq> DBI_revision \<longrightarrow> view t1 d = view t d" by blast
  from Put_event [of k t1 r epoch] len obtain t' where
    t': "mdb_Put L t1 DBI_event (be64 r) (event_bytes r epoch k) = Inr t'"
      "set (view t' DBI_event) = insert (be64 r, event_bytes r epoch k) (set (view t1 DBI_event))"
      "\<forall>d. d \<noteq> DBI_event \<longrightarrow> view t' d = view t1 d" by blast
  have ok': "hist_ok (add_version k (tomb r) H)"
    by (rule hist_ok_add [OF ok]) (use r new len in \<open>auto simp: ver_ok_def\<close>)
  have val: "view t' DBI_value = view t DBI_value" using t1(3) t'(3) by simp
  have "kv_rel env view t' (add_version k (tomb r) H)"
    by (rule kv_rel_add [OF rel ok'])
      (use t1 t' val r kv_relD(3) [OF rel, of k] kv_relD(4) [OF rel] in \<open>simp_all del: map_of_eq_Some_iff\<close>)
  then show ?thesis using t1 t' by (auto simp: dbKv_tombstone_def kb)
qed

section \<open>deleteRange\<close>

lemma key_list_cong: "(\<And>k. P k \<Longrightarrow> (H k = []) = (H' k = [])) \<Longrightarrow> key_list P H = key_list P H'"
  unfolding key_list_def by (simp add: keys_in_mono_eq [of P H H'])

lemma set_key_list: "kv_rel env view t H \<Longrightarrow> set (key_list P H) = keys_in P H"
  unfolding key_list_def by (simp add: finite_keys)

lemma key_list_filter:
  assumes "kv_rel env view t H"
  shows "filter Q (key_list P H) = key_list (\<lambda>k. P k \<and> Q k) H"
proof (rule sorted_distinct_set_unique)
  show "set (filter Q (key_list P H)) = set (key_list (\<lambda>k. P k \<and> Q k) H)"
    by (auto simp: set_key_list [OF assms] keys_in_def)
qed (simp_all add: key_list_def sorted_filter [of id, simplified])

text \<open>What a tombstone of the key under the cursor changes for the rest of the scan: nothing.\<close>

lemma scan_after_tomb:
  fixes k r H
  defines "H' \<equiv> add_version k (tomb r) H"
  assumes rel: "kv_rel env view t H"
  shows "keys_in (\<lambda>k'. k < k') H' = keys_in (\<lambda>k'. k < k') H"
    and "filter (\<lambda>k. k \<le> fin \<and> live (H' k)) (key_list (\<lambda>k'. k < k') H') =
      filter (\<lambda>k. k \<le> fin \<and> live (H k)) (key_list (\<lambda>k'. k < k') H)"
    and "map (\<lambda>k. krec_of k (hd (H' k))) (filter Q (key_list (\<lambda>k'. k < k') H)) =
      map (\<lambda>k. krec_of k (hd (H k))) (filter Q (key_list (\<lambda>k'. k < k') H))"
    and "k \<notin> set (filter Q (key_list (\<lambda>k'. k < k') H))"
proof -
  have same: "H' k' = H k'" if "k < k'" for k' using that by (auto simp: H'_def add_version_def)
  have gt: "k < k'" if "k' \<in> set (key_list (\<lambda>k'. k < k') H)" for k'
    using that by (auto simp: set_key_list [OF rel] keys_in_def)
  show "keys_in (\<lambda>k'. k < k') H' = keys_in (\<lambda>k'. k < k') H" by (rule keys_in_mono_eq) (simp add: same)
  have kl: "key_list (\<lambda>k'. k < k') H' = key_list (\<lambda>k'. k < k') H" by (rule key_list_cong) (simp add: same)
  show "filter (\<lambda>k. k \<le> fin \<and> live (H' k)) (key_list (\<lambda>k'. k < k') H') =
      filter (\<lambda>k. k \<le> fin \<and> live (H k)) (key_list (\<lambda>k'. k < k') H)"
    unfolding kl by (rule filter_cong) (simp_all add: same gt)
  show "map (\<lambda>k. krec_of k (hd (H' k))) (filter Q (key_list (\<lambda>k'. k < k') H)) =
      map (\<lambda>k. krec_of k (hd (H k))) (filter Q (key_list (\<lambda>k'. k < k') H))" using gt by (auto simp: same)
  show "k \<notin> set (filter Q (key_list (\<lambda>k'. k < k') H))" using gt by fastforce
qed

text \<open>One round of the loop, on a dead and on a live key.\<close>

lemma deleteRange_dead:
  assumes "isdel (vrev h)" "k \<le> fin" "fin \<noteq> []"
  shows "\<exists>prev'. dbKv_deleteRange_loop env L (Suc n) rv subrev epoch key fin (Inr (k, krec_bytes k h)) t prev items cnt =
    dbKv_deleteRange_loop env L n rv subrev epoch key fin (cur_NextNoDup L t DBI_revision (k, krec_bytes k h)) t prev' items cnt"
proof -
  from krec_decode [of prev k h] obtain l where
    "keyrecord_FromBytes prev k (krec_bytes k h) = (\<lparr>krec_key = k, krec_rev = vrev h, krec_lease = l\<rparr>, None)" by blast
  then show ?thesis using assms(1,3) leD [OF assms(2)] length_krec_bytes(1) [of k h] by auto
qed

lemma deleteRange_live:
  assumes rel: "kv_rel env view t H" and h: "H k = h # hs" "\<not> isdel (vrev h)" and k: "k \<le> fin" "fin \<noteq> []"
    and ok: "delete_ok env rv subrev (H k)" and rv: "rev_fits rv subrev" "rv \<noteq> 0"
  shows "\<exists>t1. dbKv_deleteRange_loop env L (Suc n) rv subrev epoch key fin (Inr (k, krec_bytes k h)) t prev items cnt =
      dbKv_deleteRange_loop env L n rv subrev epoch key fin (cur_NextNoDup L t1 DBI_revision (k, krec_bytes k h)) t1
        (krec_of k h) (items @ [krec_of k h]) (cnt + 1) \<and>
    kv_rel env view t1 (add_version k (tomb (newkeyrev rv subrev True)) H) \<and>
    set (view t1 DBI_event) = insert (be64 (newkeyrev rv subrev True), event_bytes (newkeyrev rv subrev True) epoch k)
      (set (view t DBI_event)) \<and>
    (\<forall>d. d \<notin> {DBI_revision, DBI_event} \<longrightarrow> view t1 d = view t d)"
proof -
  let ?r = "newkeyrev rv subrev True"
  have r: "isdel ?r" "?r \<noteq> 0" using isdel_newkeyrev [OF rv(1)] newkeyrev_nonzero [OF rv] by simp_all
  have nw: "\<And>h. h \<in> set (H k) \<Longrightarrow> vrev h < ?r" using ok by (auto simp: delete_ok_def)
  from tombstone_spec [OF rel _ r nw, of k epoch] h obtain t1 where
    t1: "dbKv_tombstone L t ?r epoch k = Inr t1" "kv_rel env view t1 (add_version k (tomb ?r) H)"
      "set (view t1 DBI_event) = insert (be64 ?r, event_bytes ?r epoch k) (set (view t DBI_event))"
      "\<forall>d. d \<notin> {DBI_revision, DBI_event} \<longrightarrow> view t1 d = view t d" by auto
  have "\<not> (upper (vrev h) = rv \<and> \<not> PCB_TXN_MULTI_WRITE_ENABLED env)"
    using ok h by (auto simp: delete_ok_def)
  with t1 krec_decode_lease [OF h(2), of prev k] h k length_krec_bytes(1) [of k h] leD [OF k(1)] show ?thesis
    by (auto simp: krec_of_def)
qed

lemma deleteRange_loop_spec:
  assumes "kv_rel env view t H" "lands P cur H" "card (keys_in P H) < n" "\<forall>k k'. P k \<and> k < k' \<longrightarrow> P k'"
    and "\<forall>k. P k \<and> k \<le> fin \<longrightarrow> delete_ok env rv subrev (H k)" and "rev_fits rv subrev" "rv \<noteq> 0" "fin \<noteq> []"
  shows "\<exists>t'. let ks = filter (\<lambda>k. k \<le> fin \<and> live (H k)) (key_list P H); r = newkeyrev rv subrev True in
    dbKv_deleteRange_loop env L n rv subrev epoch key fin cur t prev items cnt =
      Inr (t', items @ map (\<lambda>k. krec_of k (hd (H k))) ks, cnt + of_nat (length ks)) \<and>
    kv_rel env view t' (delete_keys r (set ks) H) \<and>
    set (view t' DBI_event) = set (view t DBI_event) \<union> {(be64 r, event_bytes r epoch k) | k. k \<in> set ks} \<and>
    (\<forall>d. d \<notin> {DBI_revision, DBI_event} \<longrightarrow> view t' d = view t d)"
  using assms
proof (induction n arbitrary: t H P cur prev items cnt)
  case (Suc n)
  note rel = Suc.prems(1)
  let ?r = "newkeyrev rv subrev True"
  from Suc.prems(2) show ?case
  proof (cases rule: landsE)
    case eof
    then have "keys_in P H = {}" by (auto simp: keys_in_def)
    then show ?thesis using eof(1) rel by (auto simp: key_list_def Let_def)
  next
    case (key k h hs)
    have kl: "key_list P H = k # key_list (\<lambda>k'. k < k') H"
      by (rule key_list_step [OF rel key(3)]) (use key(2,4) Suc.prems(4) in blast)+
    have "card (keys_in P H) = Suc (card (keys_in (\<lambda>k'. k < k') H))"
      by (rule card_step [OF rel key(3)]) (use key(2,4) Suc.prems(4) in blast)+
    with Suc.prems(3) have cd: "card (keys_in (\<lambda>k'. k < k') H) < n" by simp
    let ?ks = "filter (\<lambda>k. k \<le> fin \<and> live (H k)) (key_list (\<lambda>k'. k < k') H)"
    consider "\<not> k \<le> fin" | "k \<le> fin" "isdel (vrev h)" | "k \<le> fin" "\<not> isdel (vrev h)" by blast
    then show ?thesis
    proof cases
      case 1
      have "\<not> k' \<le> fin" if "k' \<in> set (key_list (\<lambda>k'. k < k') H)" for k'
        using that 1 by (auto simp: set_key_list [OF rel] keys_in_def)
      then have "filter (\<lambda>k. k \<le> fin \<and> live (H k)) (key_list P H) = []"
        using 1 unfolding kl by (simp add: filter_empty_conv)
      with 1 key(1) length_krec_bytes(1) [of k h] Suc.prems(8) rel show ?thesis by (simp add: Let_def not_le)
    next
      case 2
      have ks: "filter (\<lambda>k. k \<le> fin \<and> live (H k)) (key_list P H) = ?ks" unfolding kl using key(3) 2 by simp
      from deleteRange_dead [OF 2(2,1) Suc.prems(8)] obtain prev' where
        eq: "dbKv_deleteRange_loop env L (Suc n) rv subrev epoch key fin cur t prev items cnt =
          dbKv_deleteRange_loop env L n rv subrev epoch key fin (cur_NextNoDup L t DBI_revision (k, krec_bytes k h)) t prev' items cnt"
        unfolding key(1) by blast
      show ?thesis unfolding eq ks
        by (rule Suc.IH [OF rel lands_NextNoDup [OF rel] cd])
          (use key(2) Suc.prems(4-8) in auto)
    next
      case 3
      let ?H = "add_version k (tomb ?r) H"
      have ok0: "delete_ok env rv subrev (H k)" using Suc.prems(5) key(2) 3(1) by blast
      from deleteRange_live [OF rel key(3) 3(2,1) Suc.prems(8) ok0 Suc.prems(6,7)] obtain t1 where
        t1: "dbKv_deleteRange_loop env L (Suc n) rv subrev epoch key fin cur t prev items cnt =
            dbKv_deleteRange_loop env L n rv subrev epoch key fin (cur_NextNoDup L t1 DBI_revision (k, krec_bytes k h)) t1
              (krec_of k h) (items @ [krec_of k h]) (cnt + 1)"
          "kv_rel env view t1 ?H" "set (view t1 DBI_event) = insert (be64 ?r, event_bytes ?r epoch k) (set (view t DBI_event))"
          "\<forall>d. d \<notin> {DBI_revision, DBI_event} \<longrightarrow> view t1 d = view t d" unfolding key(1) by blast
      note after_k = scan_after_tomb(1-3) [OF rel, where k = k and r = ?r] scan_after_tomb(4) [OF rel, where k = k]
      have ks: "filter (\<lambda>k. k \<le> fin \<and> live (H k)) (key_list P H) = k # ?ks" unfolding kl using key(3) 3 by simp
      have cd1: "card (keys_in (\<lambda>k'. k < k') ?H) < n" using cd after_k(1) by simp
      have ok1: "\<forall>k'. k < k' \<and> k' \<le> fin \<longrightarrow> delete_ok env rv subrev (?H k')"
        using Suc.prems(4,5) key(2) by (auto simp: add_version_def)
      have up1: "\<forall>k1 k2. k < k1 \<and> k1 < k2 \<longrightarrow> k < k2" by auto
      from Suc.IH [of t1 ?H "\<lambda>k'. k < k'" "cur_NextNoDup L t1 DBI_revision (k, krec_bytes k h)" "krec_of k h"
          "items @ [krec_of k h]" "cnt + 1", OF t1(2) lands_NextNoDup [OF t1(2)] cd1 up1 ok1 Suc.prems(6-8)]
      obtain t' where t': "dbKv_deleteRange_loop env L (Suc n) rv subrev epoch key fin cur t prev items cnt =
          Inr (t', (items @ [krec_of k h]) @ map (\<lambda>k. krec_of k (hd (H k))) ?ks, cnt + 1 + of_nat (length ?ks))"
        "kv_rel env view t' (delete_keys ?r (set ?ks) ?H)"
        "set (view t' DBI_event) = set (view t1 DBI_event) \<union> {(be64 ?r, event_bytes ?r epoch k) | k. k \<in> set ?ks}"
        "\<forall>d. d \<notin> {DBI_revision, DBI_event} \<longrightarrow> view t' d = view t1 d"
        unfolding t1(1) Let_def after_k(2,3) by blast
      from add_tomb [OF after_k(4)] t'(2) have "kv_rel env view t' (delete_keys ?r (set (k # ?ks)) H)" by simp
      then show ?thesis unfolding ks Let_def t'(1)
        using t'(3,4) t1(3,4) key(3) by (intro exI [of _ t']) (auto simp: algebra_simps)
    qed
  qed
qed simp

lemma deleted_keys_range:
  assumes "kv_rel env view t H" "fin \<noteq> []"
  shows "filter (\<lambda>k. k \<le> fin \<and> live (H k)) (key_list (\<lambda>k. key \<le> k) H) = deleted_keys key fin H"
proof -
  have "in_delete key fin = (\<lambda>k. key \<le> k \<and> k \<le> fin)" using assms(2) by (simp add: in_delete_def fun_eq_iff)
  then show ?thesis
    unfolding deleted_keys_def
    using key_list_filter [OF assms(1), of "\<lambda>k. k \<le> fin" "\<lambda>k. key \<le> k"] by (simp flip: filter_filter)
qed

lemma deleted_keys_single: "deleted_keys key [] H = (if live (H key) then [key] else [])"
proof -
  have "keys_in (in_delete key []) H = (if H key = [] then {} else {key})"
    by (auto simp: keys_in_def in_delete_def)
  then show ?thesis by (auto simp: deleted_keys_def key_list_def)
qed

lemma deleteRange_spec:
  assumes rel: "kv_rel env view t H" and key: "key \<noteq> []" and rv: "rev_fits rv subrev" "rv \<noteq> 0"
    and ok: "\<forall>k. in_delete key fin k \<longrightarrow> delete_ok env rv subrev (H k)"
  shows "\<exists>t'. let ks = deleted_keys key fin H; r = newkeyrev rv subrev True in
    dbKv_deleteRange env L t rv subrev epoch key fin = Inr (t', map (\<lambda>k. krec_of k (hd (H k))) ks, of_nat (length ks)) \<and>
    kv_rel env view t' (delete_keys r (set ks) H) \<and>
    set (view t' DBI_event) = set (view t DBI_event) \<union> {(be64 r, event_bytes r epoch k) | k. k \<in> set ks} \<and>
    (\<forall>d. d \<notin> {DBI_revision, DBI_event} \<longrightarrow> view t' d = view t d)"
proof (cases "fin = []")
  case False
  have ok1: "\<forall>k. key \<le> k \<and> k \<le> fin \<longrightarrow> delete_ok env rv subrev (H k)" using ok False by (simp add: in_delete_def)
  have up: "\<forall>k k'. key \<le> k \<and> k < k' \<longrightarrow> key \<le> k'" by auto
  from deleteRange_loop_spec [OF rel lands_SetRange [OF rel key] _ up ok1 rv False,
      of "Suc (mdb_Entries L t DBI_revision)" epoch key krec_zero "[]" 0]
  show ?thesis using card_keys [OF rel, of "\<lambda>k. key \<le> k"]
    unfolding dbKv_deleteRange_def deleted_keys_range [OF rel False]
    by (simp add: OpenCursor le_imp_less_Suc del: dbKv_deleteRange_loop.simps)
next
  case True
  let ?r = "newkeyrev rv subrev True"
  show ?thesis
  proof (cases "live (H key)")
    case False
    have "dbKv_deleteRange env L t rv subrev epoch key fin = Inr (t, [], 0)"
    proof (cases "H key")
      case Nil
      from lands_SetRange [OF rel key] show ?thesis
      proof (cases rule: landsE)
        case (key k h hs)
        then show ?thesis using Nil True length_krec_bytes(1) [of k h] by (auto simp: dbKv_deleteRange_def OpenCursor)
      qed (use True in \<open>simp add: dbKv_deleteRange_def OpenCursor\<close>)
    next
      case (Cons h hs)
      from krec_decode [of krec_zero key h] obtain l where
        "keyrecord_FromBytes krec_zero key (krec_bytes key h) = (\<lparr>krec_key = key, krec_rev = vrev h, krec_lease = l\<rparr>, None)" by blast
      then show ?thesis using False Cons True SetRange_hit [OF rel Cons key] length_krec_bytes(1) [of key h]
        by (simp add: dbKv_deleteRange_def OpenCursor)
    qed
    then show ?thesis using False True rel by (auto simp: deleted_keys_single)
  next
    case live: True
    then obtain h hs where h: "H key = h # hs" "\<not> isdel (vrev h)" by (cases "H key") auto
    have r: "isdel ?r" "?r \<noteq> 0" using isdel_newkeyrev [OF rv(1)] newkeyrev_nonzero [OF rv] by simp_all
    have dok: "delete_ok env rv subrev (H key)" using ok True by (simp add: in_delete_def)
    then have nw: "\<And>h. h \<in> set (H key) \<Longrightarrow> vrev h < ?r" by (auto simp: delete_ok_def)
    have nd: "\<not> (upper (vrev h) = rv \<and> \<not> PCB_TXN_MULTI_WRITE_ENABLED env)" using dok h by (auto simp: delete_ok_def)
    from tombstone_spec [OF rel _ r nw, of key epoch] h obtain t' where
      t': "dbKv_tombstone L t ?r epoch key = Inr t'" "kv_rel env view t' (add_version key (tomb ?r) H)"
        "set (view t' DBI_event) = insert (be64 ?r, event_bytes ?r epoch key) (set (view t DBI_event))"
        "\<forall>d. d \<notin> {DBI_revision, DBI_event} \<longrightarrow> view t' d = view t d" by auto
    have "dbKv_deleteRange env L t rv subrev epoch key fin = Inr (t', [krec_of key h], 1)"
      using True SetRange_hit [OF rel h(1) key] length_krec_bytes(1) [of key h] krec_decode_lease [OF h(2), of krec_zero key]
        h nd t'(1) by (auto simp: dbKv_deleteRange_def OpenCursor krec_of_def)
    with t' h add_tomb [of key "{}" ?r H] live True show ?thesis by (auto simp: deleted_keys_single Let_def)
  qed
qed

section \<open>deleteBatch\<close>

text \<open>A deletion that meets a live version of its own revision is refused, whatever it deleted before.\<close>

lemma deleteRange_dup:
  assumes h: "\<not> isdel (vrev h)" "k \<le> fin \<or> fin = []" "fin = [] \<longrightarrow> k = key" and no: "\<not> delete_ok env rv subrev (h # hs)"
    and lt: "\<forall>h \<in> set (h # hs). vrev h < newkeyrev rv subrev True"
  shows "dbKv_deleteRange_loop env L (Suc n) rv subrev epoch key fin (Inr (k, krec_bytes k h)) t prev items cnt = Inl ErrGRPCDuplicateKey"
proof -
  have "upper (vrev h) = rv" "\<not> PCB_TXN_MULTI_WRITE_ENABLED env" using no lt by (auto simp: delete_ok_def)
  then show ?thesis
    using krec_decode_lease [OF h(1), of prev k] h length_krec_bytes(1) [of k h] by (auto simp: krec_of_def)
qed

lemma deleteRange_loop_dup:
  assumes "kv_rel env view t H" "lands P cur H" "card (keys_in P H) < n" "\<forall>k k'. P k \<and> k < k' \<longrightarrow> P k'"
    and "\<forall>k. P k \<longrightarrow> (\<forall>h \<in> set (H k). vrev h < newkeyrev rv subrev True)"
    and "\<exists>k. P k \<and> k \<le> fin \<and> \<not> delete_ok env rv subrev (H k)" and "rev_fits rv subrev" "rv \<noteq> 0" "fin \<noteq> []"
  shows "dbKv_deleteRange_loop env L n rv subrev epoch key fin cur t prev items cnt = Inl ErrGRPCDuplicateKey"
  using assms
proof (induction n arbitrary: t H P cur prev items cnt)
  case (Suc n)
  note rel = Suc.prems(1)
  let ?r = "newkeyrev rv subrev True"
  from Suc.prems(6) obtain bad where bad: "P bad" "bad \<le> fin" "\<not> delete_ok env rv subrev (H bad)" by blast
  from bad(3) have "H bad \<noteq> []" by (auto simp: delete_ok_def)
  with Suc.prems(2) bad(1) obtain k h hs where
    key: "cur = Inr (k, krec_bytes k h)" "P k" "H k = h # hs" "\<And>k'. P k' \<Longrightarrow> k' < k \<Longrightarrow> H k' = []"
    by (cases rule: landsE) auto
  have kb: "k \<le> bad" using key(4) [OF bad(1)] \<open>H bad \<noteq> []\<close> by (metis not_le)
  have kf: "k \<le> fin" using kb bad(2) by simp
  have "card (keys_in P H) = Suc (card (keys_in (\<lambda>k'. k < k') H))"
    by (rule card_step [OF rel key(3)]) (use key(2,4) Suc.prems(4) in blast)+
  with Suc.prems(3) have cd: "card (keys_in (\<lambda>k'. k < k') H) < n" by simp
  have lt: "\<forall>k'. k < k' \<longrightarrow> (\<forall>h \<in> set (H k'). vrev h < ?r)" using Suc.prems(4,5) key(2) by blast
  have up: "\<forall>k1 k2. k < k1 \<and> k1 < k2 \<longrightarrow> k < k2" by auto
  show ?case
  proof (cases "delete_ok env rv subrev (H k)")
    case False
    have "live (H k)" using False Suc.prems(5) key(2) by (auto simp: delete_ok_def)
    then have "\<not> isdel (vrev h)" using key(3) by simp
    then show ?thesis unfolding key(1)
      by (rule deleteRange_dup [where hs = hs]) (use False key(2,3) kf Suc.prems(5,9) in auto)
  next
    case True
    then have "k < bad" using bad(3) kb by (metis order_le_less)
    then have ex: "\<exists>k'. k < k' \<and> k' \<le> fin \<and> \<not> delete_ok env rv subrev (H k')" using bad by blast
    show ?thesis
    proof (cases "isdel (vrev h)")
      case dead: True
      from deleteRange_dead [OF dead kf Suc.prems(9)] obtain prev' where
        eq: "dbKv_deleteRange_loop env L (Suc n) rv subrev epoch key fin cur t prev items cnt =
          dbKv_deleteRange_loop env L n rv subrev epoch key fin (cur_NextNoDup L t DBI_revision (k, krec_bytes k h)) t prev' items cnt"
        unfolding key(1) by blast
      show ?thesis unfolding eq by (rule Suc.IH [OF rel lands_NextNoDup [OF rel] cd up lt ex Suc.prems(7-9)])
    next
      case alive: False
      let ?H = "add_version k (tomb ?r) H"
      from deleteRange_live [OF rel key(3) alive kf Suc.prems(9) True Suc.prems(7,8)] obtain t1 where
        t1: "dbKv_deleteRange_loop env L (Suc n) rv subrev epoch key fin cur t prev items cnt =
            dbKv_deleteRange_loop env L n rv subrev epoch key fin (cur_NextNoDup L t1 DBI_revision (k, krec_bytes k h)) t1
              (krec_of k h) (items @ [krec_of k h]) (cnt + 1)" "kv_rel env view t1 ?H" unfolding key(1) by blast
      have same: "?H k' = H k'" if "k < k'" for k' using that by (auto simp: add_version_def)
      have cd1: "card (keys_in (\<lambda>k'. k < k') ?H) < n" using cd scan_after_tomb(1) [OF rel, of k ?r] by simp
      have lt1: "\<forall>k'. k < k' \<longrightarrow> (\<forall>h \<in> set (?H k'). vrev h < ?r)" using lt same by metis
      have ex1: "\<exists>k'. k < k' \<and> k' \<le> fin \<and> \<not> delete_ok env rv subrev (?H k')" using ex same by metis
      show ?thesis unfolding t1(1)
        by (rule Suc.IH [OF t1(2) lands_NextNoDup [OF t1(2)] cd1 up lt1 ex1 Suc.prems(7-9)])
    qed
  qed
qed simp

lemma deleteRange_refused:
  assumes rel: "kv_rel env view t H" and key: "key \<noteq> []" and rv: "rev_fits rv subrev" "rv \<noteq> 0"
    and lt: "\<forall>k. \<forall>h \<in> set (H k). vrev h < newkeyrev rv subrev True"
    and bad: "in_delete key fin k" "\<not> delete_ok env rv subrev (H k)"
  shows "dbKv_deleteRange env L t rv subrev epoch key fin = Inl ErrGRPCDuplicateKey"
proof (cases "fin = []")
  case False
  have up: "\<forall>k k'. key \<le> k \<and> k < k' \<longrightarrow> key \<le> k'" by auto
  have ex: "\<exists>k. key \<le> k \<and> k \<le> fin \<and> \<not> delete_ok env rv subrev (H k)" using bad False by (auto simp: in_delete_def)
  have lt': "\<forall>k. key \<le> k \<longrightarrow> (\<forall>h \<in> set (H k). vrev h < newkeyrev rv subrev True)" using lt by blast
  have cd: "card (keys_in (\<lambda>k. key \<le> k) H) < Suc (mdb_Entries L t DBI_revision)" using card_keys [OF rel] by (simp add: le_imp_less_Suc)
  show ?thesis unfolding dbKv_deleteRange_def
    using deleteRange_loop_dup [OF rel lands_SetRange [OF rel key] cd up lt' ex rv False]
    by (simp add: OpenCursor del: dbKv_deleteRange_loop.simps)
next
  case True
  then have k: "k = key" using bad(1) by (simp add: in_delete_def)
  have "live (H key)" using bad(2) lt k by (auto simp: delete_ok_def)
  then obtain h hs where h: "H key = h # hs" "\<not> isdel (vrev h)" by (cases "H key") auto
  have "dbKv_deleteRange_loop env L (Suc (mdb_Entries L t DBI_revision)) rv subrev epoch key fin (Inr (key, krec_bytes key h)) t
      krec_zero [] 0 = Inl ErrGRPCDuplicateKey"
    by (rule deleteRange_dup [OF h(2), where hs = hs]) (use bad(2) spec [OF lt, of key] True k h(1) in auto)
  then show ?thesis unfolding dbKv_deleteRange_def SetRange_hit [OF rel h(1) key]
    by (simp add: OpenCursor del: dbKv_deleteRange_loop.simps)
qed


lemma deleteBatch_spec:
  assumes "kv_rel env view t H" "rev_fits rv subrev" "rv \<noteq> 0" "\<forall>k \<in> set keys. H k \<noteq> []"
    and "\<forall>k \<in> set keys. live (H k) \<longrightarrow> (\<forall>h \<in> set (H k). vrev h < newkeyrev rv subrev True)"
  shows "\<exists>t'. let D = {k \<in> set keys. live (H k)}; r = newkeyrev rv subrev True in
    dbKv_deleteBatch_loop L rv subrev epoch keys t prev = Inr t' \<and> kv_rel env view t' (delete_keys r D H) \<and>
    set (view t' DBI_event) = set (view t DBI_event) \<union> {(be64 r, event_bytes r epoch k) | k. k \<in> D} \<and>
    (\<forall>d. d \<notin> {DBI_revision, DBI_event} \<longrightarrow> view t' d = view t d)"
  using assms
proof (induction keys arbitrary: t H prev)
  case (Cons k keys)
  let ?r = "newkeyrev rv subrev True"
  have r: "isdel ?r" "?r \<noteq> 0"
    using isdel_newkeyrev [OF Cons.prems(2)] newkeyrev_nonzero [OF Cons.prems(2,3)] by simp_all
  note rel = Cons.prems(1)
  from Cons.prems(4) obtain h hs where h: "H k = h # hs" by (cases "H k") auto
  have k: "k \<noteq> []" using hist_okD(1) [OF kv_relD(1) [OF rel], of k] h by auto
  note sr = SetRange_hit [OF rel h k]
  from krec_decode [of prev k h] obtain l where
    kd: "keyrecord_FromBytes prev k (krec_bytes k h) = (\<lparr>krec_key = k, krec_rev = vrev h, krec_lease = l\<rparr>, None)" by blast
  have v12: "\<not> length (krec_bytes k h) < 12" using length_krec_bytes(1) [of k h] by simp
  show ?case
  proof (cases "isdel (vrev h)")
    case True
    then have D: "{x \<in> set (k # keys). live (H x)} = {x \<in> set keys. live (H x)}" using h by auto
    from Cons.IH [OF rel Cons.prems(2,3), of "\<lparr>krec_key = k, krec_rev = vrev h, krec_lease = l\<rparr>"] Cons.prems(4,5)
    show ?thesis unfolding D using sr kd v12 True by simp
  next
    case False
    let ?H = "add_version k (tomb ?r) H"
    have nw: "\<And>h. h \<in> set (H k) \<Longrightarrow> vrev h < ?r" using Cons.prems(5) h False by auto
    from tombstone_spec [OF rel _ r nw, of k epoch] h obtain t1 where
      t1: "dbKv_tombstone L t ?r epoch k = Inr t1" "kv_rel env view t1 ?H"
        "set (view t1 DBI_event) = insert (be64 ?r, event_bytes ?r epoch k) (set (view t DBI_event))"
        "\<forall>d. d \<notin> {DBI_revision, DBI_event} \<longrightarrow> view t1 d = view t d" by auto
    have D: "{x \<in> set (k # keys). live (H x)} = insert k {x \<in> set keys. live (?H x)}"
      using h False r(1) by (auto simp: add_version_def)
    have kD: "k \<notin> {x \<in> set keys. live (?H x)}" using r(1) by (simp add: add_version_def)
    have p4: "\<forall>x \<in> set keys. ?H x \<noteq> []" using Cons.prems(4) by (simp add: add_version_def)
    have p5: "\<forall>x \<in> set keys. live (?H x) \<longrightarrow> (\<forall>h \<in> set (?H x). vrev h < ?r)"
      using Cons.prems(5) r(1) by (auto simp: add_version_def)
    from Cons.IH [OF t1(2) Cons.prems(2,3) p4 p5, of "\<lparr>krec_key = k, krec_rev = vrev h, krec_lease = l\<rparr>"] obtain t' where
      t': "dbKv_deleteBatch_loop L rv subrev epoch keys t1 \<lparr>krec_key = k, krec_rev = vrev h, krec_lease = l\<rparr> = Inr t'"
        "kv_rel env view t' (delete_keys ?r {x \<in> set keys. live (?H x)} ?H)"
        "set (view t' DBI_event) = set (view t1 DBI_event) \<union>
           {(be64 ?r, event_bytes ?r epoch x) | x. x \<in> {x \<in> set keys. live (?H x)}}"
        "\<forall>d. d \<notin> {DBI_revision, DBI_event} \<longrightarrow> view t' d = view t1 d" unfolding Let_def by blast
    have "dbKv_deleteBatch_loop L rv subrev epoch (k # keys) t prev = Inr t'"
      using sr kd v12 False t1(1) t'(1) by simp
    with t'(2-4) t1(3,4) show ?thesis unfolding D Let_def add_tomb [OF kD] by (intro exI [of _ t']) auto
  qed
qed auto

end

section \<open>Properties\<close>

lemma one_key_delete_ok: "\<forall>k. in_delete [97] [98] k \<longrightarrow> delete_ok plain_env 3 0 (one_key k)"
proof (intro allI impI)
  fix k :: bytes
  show "delete_ok plain_env 3 0 (one_key k)"
  proof (cases "k = [97, 98]")
    case True
    then show ?thesis using newkeyrev_less [of 2 0 3 0 False True] by (simp add: delete_ok_def rev_fits_def)
  qed (simp add: delete_ok_def)
qed

lemma one_key_deleted: "deleted_keys [97] [98] one_key = [[97, 98]]"
proof -
  have "keys_in (in_delete [97] [98]) one_key = {[97, 98]}"
    by (auto simp: keys_in_def in_delete_def intro: ccontr)
  then show ?thesis by (simp add: deleted_keys_def key_list_def)
qed

text \<open>C20: a range deletion refines the addition of one tombstone to every live key from \<open>key\<close> to \<open>fin\<close>
  (only \<open>key\<close> when \<open>fin\<close> is empty), the end \<open>fin\<close> included. It ends, returns the records of the deleted
  keys in order and their number, records one event for each, and changes no other key and no
  stored value.\<close>

theorem deleteRange_refines:
  assumes "lmdb L view" "kv_rel env view t H" "key \<noteq> []" "rev_fits rv subrev" "rv \<noteq> 0"
    and "\<forall>k. in_delete key fin k \<longrightarrow> delete_ok env rv subrev (H k)"
  shows "\<exists>t'. let ks = deleted_keys key fin H; r = newkeyrev rv subrev True in
    dbKv_deleteRange env L t rv subrev epoch key fin = Inr (t', map (\<lambda>k. krec_of k (hd (H k))) ks, of_nat (length ks)) \<and>
    kv_rel env view t' (delete_keys r (set ks) H) \<and>
    set (view t' DBI_event) = set (view t DBI_event) \<union> {(be64 r, event_bytes r epoch k) | k. k \<in> set ks} \<and>
    (\<forall>d. d \<notin> {DBI_revision, DBI_event} \<longrightarrow> view t' d = view t d)"
  by (rule lmdb.deleteRange_spec [OF assms])

theorem deleteRange_refines_witness:
  "\<exists>t out t'. dbKv_put plain_env mem_lmdb mem_empty 2 0 0 1 [97, 98] (Some [1]) False False = Inr (t, out) \<and>
     dbKv_deleteRange plain_env mem_lmdb t 3 0 1 [97] [98] = Inr (t', [krec_of [97, 98] (hd (one_key [97, 98]))], 1) \<and>
     kv_rel plain_env mem_view t' (delete_keys (newkeyrev 3 0 True) {[97, 98]} one_key)"
proof -
  from one_key_store obtain t out where
    t: "dbKv_put plain_env mem_lmdb mem_empty 2 0 0 1 [97, 98] (Some [1]) False False = Inr (t, out)"
      "kv_rel plain_env mem_view t one_key" by blast
  have "rev_fits 3 0" "[97 :: byte] \<noteq> []" "(3 :: u64) \<noteq> 0" by (simp_all add: rev_fits_def)
  from deleteRange_refines [OF mem.lmdb_axioms t(2) this(2,1,3) one_key_delete_ok, of 1] obtain t' where
    "dbKv_deleteRange plain_env mem_lmdb t 3 0 1 [97] [98] =
      Inr (t', map (\<lambda>k. krec_of k (hd (one_key k))) [[97, 98]], of_nat (length [[97, 98 :: byte]]))"
    "kv_rel plain_env mem_view t' (delete_keys (newkeyrev 3 0 True) (set [[97, 98]]) one_key)"
    unfolding one_key_deleted Let_def by (elim exE conjE)
  then show ?thesis using t(1) by (intro exI conjI) simp_all
qed

text \<open>A deletion hides a key from its revision on and from no earlier reader. After a range deletion
  at revision \<open>rv\<close> a read of the latest revision of a key of the range returns nothing, and a read of any
  key at an earlier revision returns what it returned before.\<close>

theorem delete_then_getRev:
  assumes "lmdb L view" "env_ok env" "kv_rel env view t H" "key \<noteq> []" "rev_fits rv subrev" "rv \<noteq> 0"
    and "\<forall>k. in_delete key fin k \<longrightarrow> delete_ok env rv subrev (H k)" "0 < r" "r < rv" "k \<noteq> []"
  shows "\<exists>t' prevs cnt. dbKv_deleteRange env L t rv subrev epoch key fin = Inr (t', prevs, cnt) \<and>
    (\<exists>old old_prev new new_prev. dbKv_getRev env L t k r True = Inr (old, old_prev, None) \<and>
       dbKv_getRev env L t' k r True = Inr (new, new_prev, None) \<and>
       plain new = plain old \<and> plain new_prev = plain old_prev) \<and>
    (\<exists>item prev. dbKv_getRev env L t' k 0 False = Inr (item, prev, None) \<and>
       plain item = (if in_delete key fin k then kv_zero else spec_at 0 (H k)))"
proof -
  let ?r = "newkeyrev rv subrev True" and ?ks = "deleted_keys key fin H"
  let ?H = "delete_keys ?r (set ?ks) H"
  from lmdb.deleteRange_spec [OF assms(1,3-7), of epoch] obtain t' prevs cnt where
    d: "dbKv_deleteRange env L t rv subrev epoch key fin = Inr (t', prevs, cnt)" "kv_rel env view t' ?H"
    unfolding Let_def by blast
  have nw: "newer r (tomb ?r)" using assms(8,9) upper_newkeyrev [OF assms(5)] by (simp add: newer_def)
  have vis: "visible r (?H k) = visible r (H k)" using nw by (simp add: visible_def delete_keys_def)
  then have past: "spec_at r (?H k) = spec_at r (H k)" "spec_prev r (?H k) = spec_prev r (H k)"
    by (simp_all add: spec_at_def spec_prev_def)
  have kset: "k \<in> set ?ks \<longleftrightarrow> in_delete key fin k \<and> live (H k)"
    using lmdb.finite_keys [OF assms(1,3)] by (auto simp: deleted_keys_def key_list_def keys_in_def)
  have dead: "spec_at 0 (H k) = kv_zero" if "\<not> live (H k)"
    using that by (cases "H k") (auto simp: spec_at_def visible_def newer_def ver_kv_def)
  have now: "spec_at 0 (?H k) = (if in_delete key fin k then kv_zero else spec_at 0 (H k))"
  proof (cases "k \<in> set ?ks")
    case True
    then show ?thesis using kset isdel_newkeyrev [OF assms(5), of True]
      by (simp add: delete_keys_def spec_at_def visible_def newer_def ver_kv_def)
  next
    case False
    then show ?thesis using kset dead by (auto simp: delete_keys_def)
  qed
  from lmdb.getRev_spec [OF assms(1-3,10), of r True] lmdb.getRev_spec [OF assms(1,2) d(2) assms(10), of r True]
    lmdb.getRev_spec [OF assms(1,2) d(2) assms(10), of 0 False] show ?thesis
    unfolding past now using d(1) by (metis (full_types))
qed

theorem delete_then_getRev_witness:
  "\<exists>t out t' prevs cnt. dbKv_put plain_env mem_lmdb mem_empty 2 0 0 1 [97, 98] (Some [1]) False False = Inr (t, out) \<and>
    dbKv_deleteRange plain_env mem_lmdb t 3 0 1 [97] [98] = Inr (t', prevs, cnt) \<and>
    (\<exists>item prev. dbKv_getRev plain_env mem_lmdb t' [97, 98] 0 False = Inr (item, prev, None) \<and> plain item = kv_zero)"
proof -
  from one_key_store obtain t out where
    t: "dbKv_put plain_env mem_lmdb mem_empty 2 0 0 1 [97, 98] (Some [1]) False False = Inr (t, out)"
      "kv_rel plain_env mem_view t one_key" by blast
  from delete_then_getRev [OF mem.lmdb_axioms env_ok_plain t(2) _ _ _ one_key_delete_ok, of 1 "[97, 98]" 1] t(1) show ?thesis
    by (fastforce simp: rev_fits_def in_delete_def)
qed

end
