(* ===== verification/Mvcc_Range.thy ===== *)
theory Mvcc_Range
  imports Mvcc_Delete
begin

text \<open>
  Range reads: \<open>getRange\<close> of \<open>src/db_kv.go\<close> against the history. \<open>range_spec\<close> is the scan over the
  histories of the keys of the range; \<open>candidates\<close> is its closed form.
\<close>

declare split_paired_Ex [simp del] split_paired_All [simp del]

section \<open>The specification\<close>

definition in_range :: "range_args \<Rightarrow> bytes \<Rightarrow> bool" where
  "in_range a k \<longleftrightarrow> isFullScan a \<or> (if ra_end a = [] then k = ra_key a else ra_key a \<le> k \<and> k < ra_end a)"

text \<open>The version of a key a range read selects, before the filters on the creation revision.\<close>

definition range_cand :: "range_args \<Rightarrow> version list \<Rightarrow> version option" where
  "range_cand a hs =
     (case visible (ra_revision a) hs of
        [] \<Rightarrow> None
      | h # _ \<Rightarrow>
          if isdel (vrev h) \<or> (0 < ra_minMod a \<and> upper (vrev h) < ra_minMod a)
             \<or> (0 < ra_maxMod a \<and> upper (vrev h) > ra_maxMod a) then None else Some h)"

definition created_ok :: "range_args \<Rightarrow> version \<Rightarrow> bool" where
  "created_ok a h \<longleftrightarrow> \<not> (0 < ra_minCreated a \<and> kv_created (fst h) < ra_minCreated a)
     \<and> \<not> (0 < ra_maxCreated a \<and> kv_created (fst h) > ra_maxCreated a)"

definition range_kv :: "bool \<Rightarrow> version \<Rightarrow> kv" where
  "range_kv keysOnly h = (if keysOnly then (plain (fst h))\<lparr>kv_val := None\<rparr> else plain (fst h))"

definition range_full :: "range_args \<Rightarrow> kv list \<Rightarrow> bool \<Rightarrow> bool" where
  "range_full a items co \<longleftrightarrow> \<not> co \<and> 0 < ra_limit a \<and> int (length items) = sint (ra_limit a)"

type_synonym range_abs = "kv list \<times> int \<times> bool \<times> bool"

definition range_step :: "range_args \<Rightarrow> version list \<Rightarrow> range_abs \<Rightarrow> range_abs" where
  "range_step a hs s =
     (let (items, cnt, mr, co) = s; full = range_full a items co; mr1 = (mr \<or> full); co1 = (co \<or> full) in
      case range_cand a hs of
        None \<Rightarrow> (items, cnt, mr1, co1)
      | Some h \<Rightarrow>
          if co1 then (items, cnt + 1, mr1, co1)
          else if created_ok a h then (items @ [range_kv (ra_keysOnly a) h], cnt + 1, mr1, co1)
          else (items, cnt, mr1, co1))"

fun range_spec :: "'x env_scheme \<Rightarrow> range_args \<Rightarrow> history \<Rightarrow> bytes list \<Rightarrow> range_abs \<Rightarrow> range_abs" where
  "range_spec env a H [] s = s"
| "range_spec env a H (k # ks) (items, cnt, mr, co) =
     (if range_full a items co \<and> \<not> PCB_RANGE_COUNT_FULL env then (items, cnt, True, co)
      else range_spec env a H ks (range_step a (H k) (items, cnt, mr, co)))"

definition range_abs :: "range_state \<Rightarrow> range_abs" where
  "range_abs st = (map plain (rs_items st), rs_count st, rs_more st, rs_countOnly st)"

section \<open>Simulation\<close>

lemma plain_item_of: "plain (item_of noval h f) = range_kv noval h"
  by (simp add: plain_def item_of_def range_kv_def)

lemma kv_created_item_of [simp]: "kv_created (item_of noval h f) = kv_created (fst h)"
  by (simp add: item_of_def)

context lmdb
begin

text \<open>The walk when only a count is asked for is the walk of a read.\<close>

lemma revs_countOnly:
  "dbKv_revs L n t revision False cur krec nx = Inr (c, krec', nx1, found) \<Longrightarrow>
     \<exists>nx2. dbKv_revs L n t revision True cur krec nx' = Inr (c, krec', nx2, found)"
proof (induction n arbitrary: cur krec nx nx')
  case (Suc n)
  then show ?case
    by (auto simp: Let_def split: sum.splits prod.splits option.splits if_splits)
qed simp

lemma range_revs:
  assumes env: "env_ok env" and rel: "kv_rel env view t H" and h: "H k = h # hs" and kr: "krec_rev krec = vrev h"
    and i0: "kv_val i0 = None"
  shows "\<exists>krec' nx' c found. dbKv_revs L (Suc (mdb_Entries L t DBI_revision)) t revision co (k, krec_bytes k h) krec [] =
      Inr (c, krec', nx', found) \<and> fst c = k \<and>
    (case visible revision (h # hs) of
       [] \<Rightarrow> \<not> found
     | h' # hs' \<Rightarrow> found \<and> krec_rev krec' = vrev h' \<and>
         (\<not> co \<and> \<not> isdel (vrev h') \<longrightarrow> (\<exists>f. dbKv_vals env L t (nx' @ [vrev h']) i0 noval = Inr (item_of noval h' f, None))))"
proof -
  have v0: "vals_ok env (map_of (view t DBI_value)) None (h # hs)" using kv_relD(3) [OF rel, of k] h by simp
  have fuel: "length hs < Suc (mdb_Entries L t DBI_revision)"
    using length_history [OF rel, of k] h by (simp add: Entries)
  from revs_walk [OF env rel i0 _ v0 decodes_Nil [OF i0] _ kr fuel, of k "[]" revision noval] h
  obtain krec' nx' item' v' c found where
    w: "dbKv_revs L (Suc (mdb_Entries L t DBI_revision)) t revision False (k, krec_bytes k h) krec [] = Inr (c, krec', nx', found)"
      "fst c = k" "case visible revision (h # hs) of [] \<Rightarrow> \<not> found
     | h' # hs' \<Rightarrow> found \<and> c = (k, krec_bytes k h') \<and> krec_rev krec' = vrev h' \<and>
         decodes env t noval i0 nx' item' v' \<and> length (sl v') < 2 ^ 62 \<and>
         vals_ok env (map_of (view t DBI_value)) v' (h' # hs')" by auto
  show ?thesis
  proof (cases co)
    case True
    from revs_countOnly [OF w(1), of "[]"] w(2,3) True show ?thesis
      by (auto split: list.splits simp del: dbKv_revs.simps)
  next
    case False
    have "\<exists>f. dbKv_vals env L t (nx' @ [vrev h']) i0 noval = Inr (item_of noval h' f, None)"
      if "visible revision (h # hs) = h' # hs'" "\<not> isdel (vrev h')" for h' hs'
    proof -
      from visible_suffix [of "h # hs" revision] that(1) h have "h' \<in> set (H k)"
        by (metis in_set_conv_decomp)
      from decodes_version [OF env rel this that(2)] w(3) that(1) show ?thesis using decodes_vals by fastforce
    qed
    with w False show ?thesis by (auto split: list.splits simp del: dbKv_revs.simps)
  qed
qed

text \<open>What a scan does with one key of the range.\<close>

lemma range_item_spec:
  assumes "\<not> PCB_RANGE_COUNT_FAKE env" "visible (ra_revision a) hs = h' # hs'" "rv = vrev h'"
    and "\<not> rs_countOnly st \<and> \<not> isdel (vrev h') \<Longrightarrow> \<exists>f. dbKv_vals env L t (nx @ [vrev h']) ((rs_item st)\<lparr>kv_val := None\<rparr>) (ra_keysOnly a) =
      Inr (item_of (ra_keysOnly a) h' f, None)"
  shows "\<exists>st'. dbKv_range_item env L t a rv nx st = Inr (False, st') \<and>
    range_abs st' =
      (case range_cand a hs of
         None \<Rightarrow> range_abs st
       | Some h \<Rightarrow>
           if rs_countOnly st then (map plain (rs_items st), rs_count st + 1, rs_more st, rs_countOnly st)
           else if created_ok a h
           then (map plain (rs_items st) @ [range_kv (ra_keysOnly a) h], rs_count st + 1, rs_more st, rs_countOnly st)
           else range_abs st)"
proof (cases "range_cand a hs")
  case None
  then have "dbKv_range_item env L t a rv nx st = Inr (False, st)"
    using assms(2,3) by (auto simp: dbKv_range_item_def range_cand_def split: if_splits)
  with None show ?thesis by simp
next
  case (Some h)
  with assms(2) have h: "h = h'" "\<not> isdel (vrev h')" "\<not> (0 < ra_minMod a \<and> upper (vrev h') < ra_minMod a)"
    "\<not> (0 < ra_maxMod a \<and> upper (vrev h') > ra_maxMod a)"
    by (auto simp: range_cand_def split: if_splits)
  have head: "dbKv_range_item env L t a rv nx st =
    (let st1 = st\<lparr>rs_count := rs_count st + 1\<rparr> in
         if \<not> rs_countOnly st1 then
           bindE (dbKv_vals env L t (nx @ [rv]) ((rs_item st1)\<lparr>kv_val := None\<rparr>) (ra_keysOnly a)) (\<lambda>(item, err).
           case err of Some e \<Rightarrow> Inl e | None \<Rightarrow>
           let st2 = st1\<lparr>rs_item := item\<rparr> in
           if 0 < ra_minCreated a \<and> kv_created item < ra_minCreated a
           then Inr (False, st2\<lparr>rs_count := rs_count st2 - 1\<rparr>)
           else if 0 < ra_maxCreated a \<and> kv_created item > ra_maxCreated a
           then Inr (False, st2\<lparr>rs_count := rs_count st2 - 1\<rparr>)
           else Inr (False, st2\<lparr>rs_items := rs_items st2 @ [item]\<rparr>))
         else Inr (False, st1))"
    using h assms(1,3) by (simp only: dbKv_range_item_def if_False if_True simp_thms Let_def)
  show ?thesis
  proof (cases "rs_countOnly st")
    case True
    then show ?thesis using Some head by (simp add: range_abs_def)
  next
    case False
    from assms(4) False h(2) obtain f where
      v: "dbKv_vals env L t (nx @ [rv]) ((rs_item st)\<lparr>kv_val := None\<rparr>) (ra_keysOnly a) = Inr (item_of (ra_keysOnly a) h' f, None)"
      using assms(3) by blast
    show ?thesis unfolding head using Some False v h(1)
      by (auto simp: range_abs_def Let_def created_ok_def plain_item_of)
  qed
qed

lemma NextNoDup_key: "fst q = fst q' \<Longrightarrow> cur_NextNoDup L t DBI_revision q = cur_NextNoDup L t DBI_revision q'"
  by (simp add: NextNoDup)

lemma range_key:
  assumes env: "env_ok env" and rel: "kv_rel env view t H" and h: "H k = h # hs" and fake: "\<not> PCB_RANGE_COUNT_FAKE env"
    and rng: "in_range a k"
  shows "\<exists>st'. range_abs st' =
      (if range_full a (map plain (rs_items st)) (rs_countOnly st) \<and> \<not> PCB_RANGE_COUNT_FULL env
       then (map plain (rs_items st), rs_count st, True, rs_countOnly st) else range_step a (H k) (range_abs st)) \<and>
    dbKv_getRange_loop env L (Suc n) t a (Inr (k, krec_bytes k h)) st =
      (if (range_full a (map plain (rs_items st)) (rs_countOnly st) \<and> \<not> PCB_RANGE_COUNT_FULL env) \<or> ra_end a = [] then Inr st'
       else dbKv_getRange_loop env L n t a (cur_NextNoDup L t DBI_revision (k, krec_bytes k h)) st')"
proof -
  from krec_decode [of "rs_krec st" k h] obtain l where
    kd: "keyrecord_FromBytes (rs_krec st) k (krec_bytes k h) = (\<lparr>krec_key = k, krec_rev = vrev h, krec_lease = l\<rparr>, None)" by blast
  let ?kr = "\<lparr>krec_key = k, krec_rev = vrev h, krec_lease = l\<rparr>"
  let ?full = "range_full a (map plain (rs_items st)) (rs_countOnly st)"
  let ?st1 = "st\<lparr>rs_krec := ?kr\<rparr>"
  have in1: "(\<not> isFullScan a \<and> ra_end a = [] \<and> k \<noteq> ra_key a) = False"
    and in2: "(\<not> isFullScan a \<and> ra_end a \<noteq> [] \<and> k \<ge> ra_end a) = False" using rng by (auto simp: in_range_def not_le split: if_splits)
  have full: "(\<not> rs_countOnly ?st1 \<and> 0 < ra_limit a \<and> int (length (rs_items ?st1)) = sint (ra_limit a)) = ?full"
    by (simp add: range_full_def)
  note body = dbKv_getRange_loop.simps(2) sum.case prod.case in1 in2 kd if_False if_True option.case full
  show ?thesis
  proof (cases "?full \<and> \<not> PCB_RANGE_COUNT_FULL env")
    case True
    have "dbKv_getRange_loop env L (Suc n) t a (Inr (k, krec_bytes k h)) st = Inr (?st1\<lparr>rs_more := True\<rparr>)"
      unfolding body Let_def using True fake by simp
    then show ?thesis using True by (intro exI [of _ "?st1\<lparr>rs_more := True\<rparr>"]) (simp add: range_abs_def)
  next
    case False
    let ?st2 = "if ?full then ?st1\<lparr>rs_more := True, rs_countOnly := True\<rparr> else ?st1"
    have c: "(?full \<and> \<not> PCB_RANGE_COUNT_FULL env \<and> \<not> PCB_RANGE_COUNT_FAKE env) = False" using False by blast
    have i0: "kv_val ((rs_item st)\<lparr>kv_val := None\<rparr>) = None" by simp
    from range_revs [OF env rel h _ i0, of ?kr "ra_revision a" "rs_countOnly ?st2" "ra_keysOnly a"] obtain krec' nx' cu found where
      w: "dbKv_revs L (Suc (mdb_Entries L t DBI_revision)) t (ra_revision a) (rs_countOnly ?st2) (k, krec_bytes k h) ?kr [] =
        Inr (cu, krec', nx', found)" "fst cu = k"
      "case visible (ra_revision a) (h # hs) of [] \<Rightarrow> \<not> found
       | h' # hs' \<Rightarrow> found \<and> krec_rev krec' = vrev h' \<and> (\<not> rs_countOnly ?st2 \<and> \<not> isdel (vrev h') \<longrightarrow>
          (\<exists>f. dbKv_vals env L t (nx' @ [vrev h']) ((rs_item st)\<lparr>kv_val := None\<rparr>) (ra_keysOnly a) =
             Inr (item_of (ra_keysOnly a) h' f, None)))" by auto
    let ?st3 = "?st2\<lparr>rs_krec := krec'\<rparr>"
    have abs3: "range_abs ?st3 = (map plain (rs_items st), rs_count st, rs_more st \<or> ?full, rs_countOnly st \<or> ?full)"
      "rs_items ?st3 = rs_items st" "rs_countOnly ?st3 = (rs_countOnly st \<or> ?full)" "rs_item ?st3 = rs_item st"
      "rs_count ?st3 = rs_count st" "rs_more ?st3 = (rs_more st \<or> ?full)" by (simp_all add: range_abs_def)
    have "\<exists>st'. (if found then dbKv_range_item env L t a (krec_rev krec') nx' ?st3 else Inr (False, ?st3)) = Inr (False, st') \<and>
      range_abs st' = range_step a (H k) (range_abs st)"
    proof (cases "visible (ra_revision a) (h # hs)")
      case Nil
      with w(3) abs3 show ?thesis using h by (simp add: range_step_def range_abs_def range_cand_def Let_def)
    next
      case (Cons h' hs')
      with w(3) have f: "found" "krec_rev krec' = vrev h'" by auto
      have "\<exists>f. dbKv_vals env L t (nx' @ [vrev h']) ((rs_item ?st3)\<lparr>kv_val := None\<rparr>) (ra_keysOnly a) =
           Inr (item_of (ra_keysOnly a) h' f, None)" if "\<not> rs_countOnly ?st3 \<and> \<not> isdel (vrev h')"
        using w(3) Cons that by simp
      from range_item_spec [OF fake Cons f(2) this] abs3 f(1) show ?thesis unfolding h range_step_def
        by (auto simp: range_abs_def Let_def split: option.splits)
    qed
    then obtain st' where st': "(if found then dbKv_range_item env L t a (krec_rev krec') nx' ?st3 else Inr (False, ?st3)) = Inr (False, st')"
      "range_abs st' = range_step a (H k) (range_abs st)" by blast
    have "dbKv_getRange_loop env L (Suc n) t a (Inr (k, krec_bytes k h)) st =
      (if ra_end a = [] then Inr st' else dbKv_getRange_loop env L n t a (cur_NextNoDup L t DBI_revision (k, krec_bytes k h)) st')"
      unfolding body Let_def c w(1) bindE_simps prod.case if_False st'(1) using NextNoDup_key [of cu "(k, krec_bytes k h)" t] w(2) by simp
    moreover have "(?full \<and> \<not> PCB_RANGE_COUNT_FULL env) = False" using False by blast
    ultimately show ?thesis unfolding if_False simp_thms using st'(2) by (intro exI [of _ st'] conjI) (simp_all only: if_False simp_thms)
  qed
qed

lemma range_spec_Cons:
  "range_spec env a H (k # ks) (range_abs st) =
     (if range_full a (map plain (rs_items st)) (rs_countOnly st) \<and> \<not> PCB_RANGE_COUNT_FULL env
      then (map plain (rs_items st), rs_count st, True, rs_countOnly st)
      else range_spec env a H ks (range_step a (H k) (range_abs st)))"
  by (simp add: range_abs_def)

lemma getRange_loop_spec:
  assumes env: "env_ok env" and rel: "kv_rel env view t H" and fake: "\<not> PCB_RANGE_COUNT_FAKE env" and fin: "ra_end a \<noteq> []"
    and "lands P cur H" "card (keys_in P H) < n" "\<forall>k k'. P k \<and> k < k' \<longrightarrow> P k'" "\<forall>k. P k \<longrightarrow> ra_key a \<le> k"
  shows "\<exists>st'. dbKv_getRange_loop env L n t a cur st = Inr st' \<and>
    range_abs st' = range_spec env a H (filter (in_range a) (key_list P H)) (range_abs st)"
  using assms(5-)
proof (induction n arbitrary: P cur st)
  case (Suc n)
  from Suc.prems(1) show ?case
  proof (cases rule: landsE)
    case eof
    then have "keys_in P H = {}" by (auto simp: keys_in_def)
    then show ?thesis using eof(1) by (simp add: key_list_def)
  next
    case (key k h hs)
    have kl: "key_list P H = k # key_list (\<lambda>k'. k < k') H"
      by (rule key_list_step [OF rel key(3)]) (use key(2,4) Suc.prems(3) in blast)+
    have "card (keys_in P H) = Suc (card (keys_in (\<lambda>k'. k < k') H))"
      by (rule card_step [OF rel key(3)]) (use key(2,4) Suc.prems(3) in blast)+
    with Suc.prems(2) have cd: "card (keys_in (\<lambda>k'. k < k') H) < n" by simp
    have ge: "ra_key a \<le> k" using Suc.prems(4) key(2) by blast
    show ?thesis
    proof (cases "in_range a k")
      case False
      then have out: "\<not> isFullScan a" "ra_end a \<le> k" using fin ge by (auto simp: in_range_def not_le split: if_splits)
      have "\<not> in_range a k'" if "k' \<in> set (key_list (\<lambda>k'. k < k') H)" for k'
        using that out fin by (auto simp: set_key_list [OF rel] keys_in_def in_range_def)
      then have "filter (in_range a) (key_list P H) = []" using False unfolding kl by (simp add: filter_empty_conv)
      then show ?thesis using out fin by (simp add: key(1))
    next
      case True
      let ?stop = "range_full a (map plain (rs_items st)) (rs_countOnly st) \<and> \<not> PCB_RANGE_COUNT_FULL env"
      have fl: "filter (in_range a) (key_list P H) = k # filter (in_range a) (key_list (\<lambda>k'. k < k') H)"
        using True unfolding kl by simp
      from range_key [OF env rel key(3) fake True, of st n] fin obtain st' where
        st': "range_abs st' = (if ?stop then (map plain (rs_items st), rs_count st, True, rs_countOnly st)
               else range_step a (H k) (range_abs st))"
          "dbKv_getRange_loop env L (Suc n) t a cur st = (if ?stop then Inr st'
             else dbKv_getRange_loop env L n t a (cur_NextNoDup L t DBI_revision (k, krec_bytes k h)) st')"
        unfolding key(1) by (simp only: simp_thms) blast
      have up: "\<forall>k1 k2. k < k1 \<and> k1 < k2 \<longrightarrow> k < k2" and lo: "\<forall>k'. k < k' \<longrightarrow> ra_key a \<le> k'" using ge by auto
      show ?thesis
      proof (cases "?stop")
        case True
        with st' show ?thesis unfolding fl range_spec_Cons by (intro exI [of _ st']) (simp only: if_True simp_thms)
      next
        case False
        then have F: "?stop = False" by (rule iffD2 [OF eq_False])
        from Suc.IH [OF lands_NextNoDup [OF rel] cd up lo] show ?thesis
          unfolding fl range_spec_Cons st'(2) F if_False st'(1) [unfolded F if_False, symmetric] .
      qed
    qed
  qed
qed simp

lemma fullscan_least: "isFullScan a \<Longrightarrow> k \<noteq> [] \<Longrightarrow> ra_key a \<le> k"
proof (cases k)
  case (Cons x xs)
  assume "isFullScan a"
  then show ?thesis using Cons by (cases xs) (auto simp: isFullScan_def le_less word_greater_zero_iff)
qed simp

lemma getRange_sim:
  assumes env: "env_ok env" and rel: "kv_rel env view t H" and fake: "\<not> PCB_RANGE_COUNT_FAKE env" and key: "ra_key a \<noteq> []"
  shows "\<exists>items cnt mr co. dbKv_getRange env L t a countOnly = Inr (items, cnt, mr) \<and>
    (map plain items, cnt, mr, co) = range_spec env a H (key_list (in_range a) H) ([], 0, False, countOnly)"
proof -
  let ?st = "\<lparr>rs_items = [], rs_count = 0, rs_more = False, rs_countOnly = countOnly, rs_item = kv_zero, rs_krec = krec_zero\<rparr>"
  have st: "range_abs ?st = ([], 0, False, countOnly)" by (simp add: range_abs_def)
  have "\<exists>st'. dbKv_getRange_loop env L (Suc (mdb_Entries L t DBI_revision)) t a (cur_SetRange L t DBI_revision (ra_key a)) ?st = Inr st' \<and>
    range_abs st' = range_spec env a H (key_list (in_range a) H) (range_abs ?st)"
  proof (cases "ra_end a = []")
    case False
    have kl: "key_list (in_range a) H = filter (in_range a) (key_list (\<lambda>k. ra_key a \<le> k) H)"
    proof -
      have "ra_key a \<le> k" if "H k \<noteq> []" "isFullScan a" for k
        by (rule fullscan_least [OF that(2)]) (use hist_okD(1) [OF kv_relD(1) [OF rel] that(1)] in auto)
      then have "keys_in (in_range a) H = keys_in (\<lambda>k. ra_key a \<le> k \<and> in_range a k) H"
        using False by (auto simp: keys_in_def in_range_def)
      then show ?thesis unfolding key_list_filter [OF rel] by (simp add: key_list_def)
    qed
    have up: "\<forall>k k'. ra_key a \<le> k \<and> k < k' \<longrightarrow> ra_key a \<le> k'" by auto
    have cd: "card (keys_in (\<lambda>k. ra_key a \<le> k) H) < Suc (mdb_Entries L t DBI_revision)"
      using card_keys [OF rel] by (simp add: le_imp_less_Suc)
    show ?thesis unfolding kl by (rule getRange_loop_spec [OF env rel fake False lands_SetRange [OF rel key] cd up]) simp
  next
    case True
    then have rng: "in_range a k \<longleftrightarrow> k = ra_key a" for k by (simp add: in_range_def isFullScan_def)
    then have ki: "keys_in (in_range a) H = (if H (ra_key a) = [] then {} else {ra_key a})" by (auto simp: keys_in_def)
    from lands_SetRange [OF rel key] show ?thesis
    proof (cases rule: landsE)
      case eof
      then show ?thesis using ki by (simp add: key_list_def)
    next
      case (key k h hs)
      show ?thesis
      proof (cases "k = ra_key a")
        case False
        then have "H (ra_key a) = []" using key by (metis order.not_eq_order_implies_strict order_refl)
        then show ?thesis using ki False key(1) True by (simp add: key_list_def isFullScan_def)
      next
        case k: True
        have nofull: "\<not> range_full a [] countOnly" by (auto simp: range_full_def signed_eq_0_iff)
        from range_key [OF env rel key(3) fake, of a ?st "mdb_Entries L t DBI_revision"] rng k True obtain st' where
          "dbKv_getRange_loop env L (Suc (mdb_Entries L t DBI_revision)) t a (Inr (k, krec_bytes k h)) ?st = Inr st'"
          "range_abs st' = range_step a (H k) (range_abs ?st)" using nofull by (auto simp del: dbKv_getRange_loop.simps)
        then show ?thesis using key(1,3) ki k nofull by (simp add: key_list_def st del: dbKv_getRange_loop.simps)
      qed
    qed
  qed
  then show ?thesis unfolding dbKv_getRange_def st by (auto simp: OpenCursor range_abs_def simp del: dbKv_getRange_loop.simps)
qed

end

section \<open>Closed form\<close>

definition candidates :: "range_args \<Rightarrow> history \<Rightarrow> bytes list \<Rightarrow> version list" where
  "candidates a H ks = filter (created_ok a) (List.map_filter (\<lambda>k. range_cand a (H k)) ks)"

definition limited :: "range_args \<Rightarrow> bool" where
  "limited a \<longleftrightarrow> 0 < sint (ra_limit a)"

text \<open>There is another key of the range in the store once \<open>n\<close> items are collected.\<close>

fun more_keys :: "range_args \<Rightarrow> history \<Rightarrow> nat \<Rightarrow> bytes list \<Rightarrow> bool" where
  "more_keys a H n [] = False"
| "more_keys a H 0 (k # ks) = True"
| "more_keys a H (Suc n) (k # ks) = (case range_cand a (H k) of None \<Rightarrow> more_keys a H (Suc n) ks | Some _ \<Rightarrow> more_keys a H n ks)"

lemma candidates_simps [simp]:
  "candidates a H [] = []"
  "candidates a H (k # ks) = (case range_cand a (H k) of None \<Rightarrow> candidates a H ks
     | Some h \<Rightarrow> if created_ok a h then h # candidates a H ks else candidates a H ks)"
  by (simp_all add: candidates_def List.map_filter_simps split: option.splits)


lemma range_full_limit: "limited a \<Longrightarrow> range_full a items False \<longleftrightarrow> length items = nat (sint (ra_limit a))"
  by (auto simp: range_full_def limited_def word_greater_zero_iff)


lemma range_spec_count:
  assumes "\<forall>h. created_ok a h"
  shows "range_spec env a H ks (items, cnt, mr, True) = (items, cnt + int (length (candidates a H ks)), mr, True)"
  using assms by (induction ks arbitrary: cnt) (auto simp: range_step_def range_full_def split: option.splits)

lemma range_spec_limited:
  assumes "limited a" "\<forall>h. created_ok a h" "length items \<le> nat (sint (ra_limit a))" "PCB_RANGE_COUNT_FULL env"
  shows "\<exists>co. range_spec env a H ks (items, cnt, mr, False) =
    (items @ take (nat (sint (ra_limit a)) - length items) (map (range_kv (ra_keysOnly a)) (candidates a H ks)),
     cnt + int (length (candidates a H ks)), mr \<or> more_keys a H (nat (sint (ra_limit a)) - length items) ks, co)"
  using assms(3)
proof (induction ks arbitrary: items cnt mr)
  case (Cons k ks)
  show ?case
  proof (cases "length items = nat (sint (ra_limit a))")
    case True
    then have "range_full a items False" using range_full_limit [OF assms(1)] by simp
    then show ?thesis using True assms(2,4)
      by (cases "range_cand a (H k)") (auto simp: range_step_def range_spec_count [OF assms(2)])
  next
    case False
    then obtain n where n: "nat (sint (ra_limit a)) - length items = Suc n" using Cons.prems by (cases "nat (sint (ra_limit a)) - length items") auto
    have nf: "\<not> range_full a items False" using range_full_limit [OF assms(1)] False by simp
    show ?thesis
    proof (cases "range_cand a (H k)")
      case None
      then show ?thesis using Cons.IH [OF Cons.prems] nf n by (simp add: range_step_def)
    next
      case (Some h)
      have "length (items @ [range_kv (ra_keysOnly a) h]) \<le> nat (sint (ra_limit a))" using n by simp
      moreover have "nat (sint (ra_limit a)) - length (items @ [range_kv (ra_keysOnly a) h]) = n" using n by simp
      ultimately show ?thesis using Cons.IH [of "items @ [range_kv (ra_keysOnly a) h]" "cnt + 1" mr] Some nf n assms(2) by (simp add: range_step_def) (simp add: algebra_simps)
    qed
  qed
qed auto



lemma range_cand_in: "range_cand a hs = Some h \<Longrightarrow> h \<in> set hs"
proof (cases "visible (ra_revision a) hs")
  case (Cons h' hs')
  then have "h' \<in> set hs" by (metis list.set_intros(1) set_dropWhileD visible_def)
  then show "range_cand a hs = Some h \<Longrightarrow> h \<in> set hs" using Cons by (simp add: range_cand_def split: if_splits)
qed (simp add: range_cand_def)

lemma range_spec_from:
  assumes "range_spec env a H ks (items, cnt, mr, co) = (items', cnt', mr', co')" "x \<in> set items'"
  shows "x \<in> set items \<or> (\<exists>k \<in> set ks. \<exists>h \<in> set (H k). x = range_kv (ra_keysOnly a) h)"
  using assms(1)
proof (induction ks arbitrary: items cnt mr co)
  case (Cons k ks)
  show ?case
  proof (cases "range_full a items co \<and> \<not> PCB_RANGE_COUNT_FULL env")
    case False
    obtain i c m o' where s: "range_step a (H k) (items, cnt, mr, co) = (i, c, m, o')" by (rule prod_cases4)
    have "range_spec env a H ks (i, c, m, o') = (items', cnt', mr', co')" using Cons.prems False s by simp
    moreover have "i = items \<or> (\<exists>h \<in> set (H k). i = items @ [range_kv (ra_keysOnly a) h])"
      using s range_cand_in [of a "H k"] by (auto simp: range_step_def Let_def split: option.splits if_splits)
    ultimately show ?thesis using Cons.IH by fastforce
  qed (use Cons.prems assms(2) in simp)
qed (use assms(2) in simp)

lemma more_keys_complete: "n < length (candidates a H ks) \<Longrightarrow> more_keys a H n ks"
proof (induction ks arbitrary: n)
  case (Cons k ks)
  then show ?case by (cases n) (auto split: option.splits if_splits)
qed simp

section \<open>Properties\<close>


definition wit_range :: "u64 \<Rightarrow> range_args" where
  "wit_range n = \<lparr>ra_key = [97], ra_end = [98], ra_revision = 0, ra_minMod = 0, ra_maxMod = 0, ra_minCreated = 0,
     ra_maxCreated = 0, ra_limit = n, ra_keysOnly = False\<rparr>"

lemma wit_range_keys:
  "key_list (in_range (wit_range l)) one_key = [[97, 98]]"
  "key_list (in_range (wit_range l)) two_keys = [[97, 98], [97, 99]]"
proof -
  have "keys_in (in_range (wit_range l)) one_key = {[97, 98]}"
    by (auto simp: keys_in_def in_range_def wit_range_def isFullScan_def intro: ccontr)
  then show "key_list (in_range (wit_range l)) one_key = [[97, 98]]" by (simp add: key_list_def)
  have "k = [97, 98] \<or> k = [97, 99]" if "two_keys k \<noteq> []" for k using that two_keys_simps(3) by blast
  then have "keys_in (in_range (wit_range l)) two_keys = {[97, 98], [97, 99]}"
    by (auto simp: keys_in_def in_range_def wit_range_def isFullScan_def)
  then show "key_list (in_range (wit_range l)) two_keys = [[97, 98], [97, 99]]" by (simp add: key_list_def)
qed

lemma range_cand_wit: "\<not> isdel (vrev h) \<Longrightarrow> range_cand (wit_range l) [h] = Some h" "created_ok (wit_range l) h"
  by (simp_all add: range_cand_def wit_range_def visible_def newer_def created_ok_def)


text \<open>C35: a limited range read never hides that there is more: when more versions are selected than the
  limit allows, it says so.\<close>

theorem range_more_complete:
  assumes "lmdb L view" "env_ok env" "kv_rel env view t H" "ra_key a \<noteq> []"
    and "\<not> PCB_RANGE_COUNT_FAKE env" "PCB_RANGE_COUNT_FULL env" "ra_minCreated a = 0" "ra_maxCreated a = 0" "limited a"
    and "nat (sint (ra_limit a)) < length (candidates a H (key_list (in_range a) H))"
  shows "\<exists>items cnt. dbKv_getRange env L t a False = Inr (items, cnt, True) \<and>
    int (length items) = sint (ra_limit a) \<and> int (length items) < cnt"
proof -
  have ok: "\<forall>h. created_ok a h" using assms(7,8) by (simp add: created_ok_def)
  from lmdb.getRange_sim [OF assms(1-3,5,4), of False] obtain items cnt mr co where
    r: "dbKv_getRange env L t a False = Inr (items, cnt, mr)"
      "range_spec env a H (key_list (in_range a) H) ([], 0, False, False) = (map plain items, cnt, mr, co)" by metis
  from range_spec_limited [OF assms(9) ok, of "[]" env H "key_list (in_range a) H" 0 False] assms(6) r(2)
  have i: "map plain items = take (nat (sint (ra_limit a))) (map (range_kv (ra_keysOnly a)) (candidates a H (key_list (in_range a) H)))"
    "cnt = int (length (candidates a H (key_list (in_range a) H)))"
    "mr = more_keys a H (nat (sint (ra_limit a))) (key_list (in_range a) H)" by auto
  have "length items = nat (sint (ra_limit a))" using arg_cong [OF i(1), of length] assms(10) by simp
  moreover have "0 < sint (ra_limit a)" using assms(9) by (simp add: limited_def)
  ultimately show ?thesis using r(1) i(2,3) more_keys_complete [OF assms(10)] assms(10) by auto
qed

theorem range_more_complete_witness:
  "\<exists>t items cnt. kv_rel plain_env mem_view t two_keys \<and>
     dbKv_getRange plain_env mem_lmdb t (wit_range 1) False = Inr (items, cnt, True) \<and> int (length items) < cnt"
proof -
  from two_key_store obtain t where t: "kv_rel plain_env mem_view t two_keys" by blast
  have "ra_key (wit_range 1) \<noteq> []" "limited (wit_range 1)" "ra_limit (wit_range 1) = 1" "ra_minCreated (wit_range 1) = 0"
    "ra_maxCreated (wit_range 1) = 0" by (simp_all add: wit_range_def limited_def)
  with range_more_complete [OF mem.lmdb_axioms env_ok_plain t, of "wit_range 1"] t show ?thesis
    by (fastforce simp: wit_range_keys range_cand_wit)
qed

text \<open>A limited range read says that there is more whenever the store has another record in the range,
  deleted or not yet visible keys included: the versions it selects are all returned and \<open>More\<close> is set.\<close>

theorem range_more_overestimates:
  assumes "lmdb L view" "env_ok env" "kv_rel env view t H" "ra_key a \<noteq> []"
    and "\<not> PCB_RANGE_COUNT_FAKE env" "PCB_RANGE_COUNT_FULL env" "ra_minCreated a = 0" "ra_maxCreated a = 0" "limited a"
    and "key_list (in_range a) H = ks @ [k]" "\<not> live (H k)" "length (candidates a H ks) = nat (sint (ra_limit a))" "ra_revision a = 0"
  shows "\<exists>items. dbKv_getRange env L t a False = Inr (items, int (length items), True)"
proof -
  have ok: "\<forall>h. created_ok a h" using assms(7,8) by (simp add: created_ok_def)
  have dead: "range_cand a (H k) = None"
    using assms(11,13) by (cases "H k") (auto simp: range_cand_def visible_def newer_def)
  have app: "candidates a H (xs @ ys) = candidates a H xs @ candidates a H ys" for xs ys
    by (induction xs) (auto split: option.splits)
  have mk: "more_keys a H (length (candidates a H xs)) (xs @ [k])" for xs
  proof (induction xs)
    case (Cons x xs)
    then show ?case using ok by (cases "length (candidates a H xs)") (auto split: option.splits)
  qed simp
  from lmdb.getRange_sim [OF assms(1-3,5,4), of False] obtain items cnt mr co where
    r: "dbKv_getRange env L t a False = Inr (items, cnt, mr)"
      "range_spec env a H (ks @ [k]) ([], 0, False, False) = (map plain items, cnt, mr, co)" unfolding assms(10) by metis
  from range_spec_limited [OF assms(9) ok, of "[]" env H "ks @ [k]" 0 False] assms(6) r(2) mk [of ks]
  have i: "map plain items = take (length (candidates a H ks)) (map (range_kv (ra_keysOnly a)) (candidates a H ks))"
    "cnt = int (length (candidates a H ks))" "mr" using dead app assms(12) by auto
  have "length items = length (candidates a H ks)" using arg_cong [OF i(1), of length] by simp
  with i(2,3) r(1) show ?thesis by auto
qed

theorem range_more_overestimates_witness:
  "\<exists>t items. kv_rel plain_env mem_view t (delete_keys (newkeyrev 4 0 True) {[97, 99]} two_keys) \<and>
     dbKv_getRange plain_env mem_lmdb t (wit_range 1) False = Inr (items, int (length items), True)"
proof -
  let ?r = "newkeyrev 4 0 True" and ?H = "delete_keys (newkeyrev 4 0 True) {[97, 99]} two_keys"
  from two_key_store obtain t0 where t0: "kv_rel plain_env mem_view t0 two_keys" by blast
  have r: "isdel ?r" "?r \<noteq> 0" using isdel_newkeyrev [of 4 0 True] newkeyrev_nonzero [of 4 0 True] by (simp_all add: rev_fits_def)
  have "vrev h < ?r" if "h \<in> set (two_keys [97, 99])" for h
    using that newkeyrev_less [of 3 0 4 0 False True] by (simp add: rev_fits_def)
  from mem.tombstone_spec [OF t0 _ r this, of "[97, 99]" 1] obtain t where
    "kv_rel plain_env mem_view t (add_version [97, 99] (tomb ?r) two_keys)" by auto
  then have t: "kv_rel plain_env mem_view t ?H" using add_tomb [of "[97, 99]" "{}" ?r two_keys] by simp
  have "keys_in P ?H = keys_in P two_keys" for P by (rule keys_in_mono_eq) (simp add: delete_keys_def)
  then have ks: "key_list (in_range (wit_range 1)) ?H = [[97, 98]] @ [[97, 99]]"
    using wit_range_keys(2) [of 1] by (simp add: key_list_def)
  have "\<not> live (?H [97, 99])" "length (candidates (wit_range 1) ?H [[97, 98]]) = 1"
    using r by (simp_all add: delete_keys_def range_cand_wit)
  moreover have "ra_key (wit_range 1) \<noteq> []" "limited (wit_range 1)" "ra_limit (wit_range 1) = 1" "ra_minCreated (wit_range 1) = 0"
    "ra_maxCreated (wit_range 1) = 0" "ra_revision (wit_range 1) = 0" by (simp_all add: wit_range_def limited_def)
  ultimately show ?thesis
    using range_more_overestimates [OF mem.lmdb_axioms env_ok_plain t, of "wit_range 1" "[[97, 98]]" "[97, 99]"] ks t by auto
qed

end
