(* ===== verification/Mvcc_Scan.thy ===== *)
theory Mvcc_Scan
  imports Mvcc_Delete
begin

text \<open>
  The event log: \<open>scan\<close> and \<open>evtFromBytes\<close> of \<open>src/db_kv.go\<close>. \<open>ev_rel\<close> relates the \<open>event\<close> database to a
  set of events; a scan from a revision returns exactly the events of that revision and later, each
  once, in the order of their revisions.
\<close>

declare split_paired_Ex [simp del] split_paired_All [simp del]

section \<open>Events\<close>

type_synonym event = "keyrev \<times> u64 \<times> bytes"

definition evt_of :: "event \<Rightarrow> kvEvent" where
  "evt_of x = \<lparr>evt_epoch = fst (snd x), evt_key = snd (snd x), evt_rev = fst x\<rparr>"

definition evt_entry :: "event \<Rightarrow> entry" where
  "evt_entry x = (be64 (fst x), event_bytes (fst x) (fst (snd x)) (snd (snd x)))"

definition ev_rel :: "('t \<Rightarrow> dbi \<Rightarrow> entry list) \<Rightarrow> 't \<Rightarrow> event set \<Rightarrow> bool" where
  "ev_rel view t E \<longleftrightarrow> set (view t DBI_event) = evt_entry ` E"

lemma evtFromBytes_entry: "evtFromBytes (fst (evt_entry x)) (snd (evt_entry x)) = Inr (evt_of x, None)"
proof -
  have "checkSum 4 (be64 r) (event_bytes r ep k) = None" for r ep k
    unfolding event_bytes_def addChecksum_def keyrev_key_eq by (rule checkSum_append) simp
  then have "keyrev_FromKey 0 (be64 r) (event_bytes r ep k) = Inr (r, None)" for r ep k
    by (simp add: keyrev_FromKey_def)
  then show ?thesis by (simp add: evtFromBytes_def evt_entry_def evt_of_def event_bytes_def AppendUvarint_def Let_def)
qed

lemma evt_of_inject [simp]: "evt_of x = evt_of y \<longleftrightarrow> x = y"
  by (cases x; cases y) (auto simp: evt_of_def)

lemma evt_entry_inject [simp]: "evt_entry x = evt_entry y \<longleftrightarrow> x = y"
  using evtFromBytes_entry by (metis evt_of_inject sum.inject(2) prod.inject)

lemma evt_rev_of [simp]: "evt_rev (evt_of x) = fst x" by (simp add: evt_of_def)

lemma fst_evt_entry [simp]: "fst (evt_entry x) = be64 (fst x)" by (simp add: evt_entry_def)

definition evt_dec :: "entry \<Rightarrow> kvEvent" where
  "evt_dec e = (case evtFromBytes (fst e) (snd e) of Inr (evt, _) \<Rightarrow> evt | Inl _ \<Rightarrow> evt_of (0, 0, []))"

lemma evt_dec_entry [simp]: "evt_dec (evt_entry x) = evt_of x"
  using evtFromBytes_entry [of x] by (simp add: evt_dec_def)

section \<open>The cursor over a sorted list\<close>

definition head_entry :: "entry list \<Rightarrow> entry result" where
  "head_entry xs = (case xs of [] \<Rightarrow> Inl ErrMdbNotFound | e # _ \<Rightarrow> Inr e)"

lemma head_entry_simps [simp]: "head_entry [] = Inl ErrMdbNotFound" "head_entry (e # xs) = Inr e"
  by (simp_all add: head_entry_def)

lemma first_entry_append: "(\<And>e. e \<in> set xs \<Longrightarrow> \<not> P e) \<Longrightarrow> first_entry P (xs @ ys) = first_entry P ys"
  by (induction xs) (simp_all add: first_entry_def)

lemma first_entry_all: "(\<And>e. e \<in> set xs \<Longrightarrow> P e) \<Longrightarrow> first_entry P xs = head_entry xs"
  by (cases xs) (simp_all add: first_entry_def)

lemma first_entry_after:
  assumes "ssorted (xs @ ys)" "\<And>e. e \<in> set xs \<Longrightarrow> e \<le> q" "\<And>e. e \<in> set ys \<Longrightarrow> q < e"
  shows "first_entry (after (Some q)) (xs @ ys) = head_entry ys"
  using assms first_entry_append [of xs "after (Some q)" ys] first_entry_all [of ys "after (Some q)"]
  by (simp add: leD)

lemma first_entry_ge:
  fixes k :: bytes
  assumes "ssorted xs"
  shows "first_entry (\<lambda>e. k \<le> fst e) xs = head_entry (filter (\<lambda>e. k \<le> fst e) xs)"
  using assms by (induction xs) (auto simp: first_entry_def)

context lmdb
begin

text \<open>\<open>NextDup\<close>, then \<open>Next\<close> when there is no further duplicate, is the next entry in the order.\<close>

definition advance :: "'t \<Rightarrow> dbi \<Rightarrow> entry \<Rightarrow> entry result" where
  "advance t d q = (case cur_NextDup L t d q of
     Inl e \<Rightarrow> if IsNotFound e then cur_Next L t d (Some q) else cur_NextDup L t d q | Inr _ \<Rightarrow> cur_NextDup L t d q)"

lemma advance_eq: "advance t d q = first_entry (after (Some q)) (view t d)"
proof (cases "cur_NextDup L t d q")
  case (Inl e)
  then have "first_entry (\<lambda>e. q < e \<and> fst e = fst q) (view t d) = Inl e" by (simp add: NextDup)
  then have "e = ErrMdbNotFound" by (rule first_entry_Inl [THEN conjunct1])
  then show ?thesis using Inl by (simp add: advance_def Next)
next
  case (Inr e)
  then have f: "first_entry (\<lambda>e. q < e \<and> fst e = fst q) (view t d) = Inr e" by (simp add: NextDup)
  from first_entry_InrD [OF f] have e: "e \<in> set (view t d)" "q < e" "fst e = fst q" by auto
  have "first_entry (after (Some q)) (view t d) = Inr e"
  proof (rule first_entry_eq)
    fix e' assume e': "e' \<in> set (view t d)" "after (Some q) e'"
    show "e \<le> e'"
    proof (cases "fst e' = fst q")
      case True
      then show ?thesis using first_entry_least [OF view_sorted f e'(1)] e' by simp
    next
      case False
      then show ?thesis using e' e(3) by (cases e; cases e'; cases q) auto
    qed
  qed (use e in simp_all)
  then show ?thesis using Inr by (simp add: advance_def)
qed

lemma advance_suffix:
  assumes "view t d = xs @ ys" "\<And>e. e \<in> set xs \<Longrightarrow> e \<le> q" "\<And>e. e \<in> set ys \<Longrightarrow> q < e"
  shows "advance t d q = head_entry ys"
  unfolding advance_eq assms(1)
  by (rule first_entry_after) (use assms view_sorted [of t d] in simp_all)

section \<open>scan\<close>

lemma scan_loop_spec:
  assumes "view t DBI_event = xs @ ys" "set ys \<subseteq> evt_entry ` E" "length ys < n"
  shows "dbKv_scan_loop L n t (head_entry ys) evts = Inr (evts @ map evt_dec ys)"
  using assms
proof (induction n arbitrary: xs ys evts)
  case (Suc n)
  show ?case
  proof (cases ys)
    case (Cons e ys')
    with Suc.prems obtain x where x: "e = evt_entry x" by auto
    obtain k v where kv: "e = (k, v)" by (rule prod.exhaust)
    have srt: "ssorted (xs @ e # ys')" using view_sorted [of t DBI_event] Suc.prems(1) Cons by simp
    have le: "e' \<le> e" if "e' \<in> set (xs @ [e])" for e' using that srt by (auto simp: sorted_wrt_append intro: less_imp_le)
    have gt: "e < e'" if "e' \<in> set ys'" for e' using that srt by (simp add: sorted_wrt_append)
    have nxt: "advance t DBI_event e = head_entry ys'"
      by (rule advance_suffix [OF _ le gt]) (use Suc.prems(1) Cons in simp)
    have "evtFromBytes k v = Inr (evt_of x, None)" using evtFromBytes_entry [of x] unfolding x [symmetric] kv by simp
    moreover have "evt_dec e = evt_of x" using x by simp
    ultimately have "dbKv_scan_loop L (Suc n) t (head_entry ys) evts = dbKv_scan_loop L n t (head_entry ys') (evts @ [evt_dec e])"
      using Cons kv nxt by (simp add: advance_def Let_def)
    also have "\<dots> = Inr ((evts @ [evt_dec e]) @ map evt_dec ys')"
      by (rule Suc.IH [of "xs @ [e]"]) (use Suc.prems Cons in auto)
    finally show ?thesis using Cons by simp
  qed simp
qed simp

definition scan_entries :: "'t \<Rightarrow> u64 \<Rightarrow> entry list" where
  "scan_entries t revision = filter (\<lambda>e. be64 (push_bit 12 revision) \<le> fst e) (view t DBI_event)"

lemma ssorted_split_ge:
  "ssorted zs \<Longrightarrow> zs = filter (\<lambda>e. \<not> k \<le> fst e) zs @ filter (\<lambda>e. k \<le> fst e) zs"
proof (induction zs)
  case (Cons e zs)
  show ?case
  proof (cases "k \<le> fst e")
    case True
    have "k \<le> fst e'" if "e' \<in> set zs" for e'
    proof -
      have "e < e'" using Cons.prems that by simp
      then have "fst e \<le> fst e'" by (cases e; cases e') auto
      with True show ?thesis by simp
    qed
    then show ?thesis using True by (simp add: filter_id_conv filter_empty_conv)
  qed (use Cons in simp)
qed simp

lemma scan_run:
  assumes "ev_rel view t E"
  shows "dbKv_scan L t revision = Inr (map evt_dec (scan_entries t revision))"
proof -
  let ?k = "be64 (push_bit 12 revision)"
  have sub: "set (scan_entries t revision) \<subseteq> evt_entry ` E" using assms by (auto simp: ev_rel_def scan_entries_def)
  have sr: "cur_SetRange L t DBI_event ?k = head_entry (scan_entries t revision)"
    unfolding SetRange [OF be64_not_Nil] scan_entries_def by (rule first_entry_ge) simp
  have split: "view t DBI_event = filter (\<lambda>e. \<not> ?k \<le> fst e) (view t DBI_event) @ scan_entries t revision"
    unfolding scan_entries_def by (rule ssorted_split_ge) simp
  have "length (scan_entries t revision) < Suc (mdb_Entries L t DBI_event)"
    by (simp add: scan_entries_def Entries le_imp_less_Suc)
  from scan_loop_spec [OF split sub this, of "[]"] show ?thesis
    by (simp add: dbKv_scan_def OpenCursor sr del: dbKv_scan_loop.simps)
qed

lemma scan_spec:
  assumes ev: "ev_rel view t E"
  shows "\<exists>evts. dbKv_scan L t revision = Inr evts \<and> set evts = evt_of ` {x \<in> E. push_bit 12 revision \<le> fst x} \<and>
    distinct evts \<and> sorted (map evt_rev evts)"
proof -
  have set: "set (scan_entries t revision) = evt_entry ` {x \<in> E. push_bit 12 revision \<le> fst x}"
    using ev by (auto simp: ev_rel_def scan_entries_def be64_le)
  have "inj_on evt_dec (evt_entry ` E)" by (rule inj_onI) (elim imageE, simp)
  then have "inj_on evt_dec (set (scan_entries t revision))" by (rule inj_on_subset) (auto simp: set)
  moreover have srt: "sorted (map evt_rev (map evt_dec zs))" if "ssorted zs" "set zs \<subseteq> evt_entry ` E" for zs
    using that
  proof (induction zs)
    case (Cons e zs)
    moreover have "evt_rev (evt_dec e) \<le> evt_rev (evt_dec e')" if e': "e' \<in> set zs" for e'
    proof -
      from Cons.prems e' obtain x x' where x: "e = evt_entry x" "e' = evt_entry x'" by auto
      have "e < e'" using Cons.prems e' by simp
      then have "fst e \<le> fst e'" by (cases e; cases e') auto
      then show ?thesis using x by (simp add: be64_le)
    qed
    ultimately show ?case by auto
  qed simp
  moreover have "ssorted (scan_entries t revision)" "distinct (scan_entries t revision)"
    by (simp_all add: scan_entries_def sorted_wrt_filter)
  moreover have "sorted (map evt_rev (map evt_dec (scan_entries t revision)))"
    by (rule srt) (use set calculation in auto)
  ultimately show ?thesis
    using scan_run [OF ev, of revision] set by (auto simp: distinct_map image_image)
qed

text \<open>An event newer than all others is at the end of the log.\<close>

lemma scan_add:
  assumes ev: "ev_rel view t E" and ev': "set (view t' DBI_event) = insert (evt_entry x) (set (view t DBI_event))"
    and new: "\<forall>y \<in> E. fst y < fst x" and r: "push_bit 12 revision \<le> fst x"
  shows "ev_rel view t' (insert x E)"
    and "dbKv_scan L t' revision = Inr (map evt_dec (scan_entries t revision) @ [evt_of x])"
proof -
  show rel: "ev_rel view t' (insert x E)" using ev ev' by (simp add: ev_rel_def)
  have lt: "e < evt_entry x" if "e \<in> set (view t DBI_event)" for e
  proof -
    from that ev obtain y where y: "y \<in> E" "e = evt_entry y" by (auto simp: ev_rel_def)
    then have "fst e < fst (evt_entry x)" using new by (simp add: be64_less)
    then show ?thesis by (cases e; cases "evt_entry x") auto
  qed
  have "view t' DBI_event = view t DBI_event @ [evt_entry x]"
    by (subst ssorted_eq_iff_set) (use ev' lt in \<open>auto simp: sorted_wrt_append\<close>)
  then have "scan_entries t' revision = scan_entries t revision @ [evt_entry x]"
    using r by (simp add: scan_entries_def be64_le)
  then show "dbKv_scan L t' revision = Inr (map evt_dec (scan_entries t revision) @ [evt_of x])"
    using scan_run [OF rel] by simp
qed

end

lemma push_bit_le_upper:
  assumes "unat revision < 2 ^ 52"
  shows "push_bit 12 revision \<le> r \<longleftrightarrow> revision \<le> upper r"
proof -
  have "unat (push_bit 12 revision) = unat revision * 4096"
    using assms unat_mult_lem [of revision "4096 :: u64"] by (simp add: push_bit_eq_mult)
  then show ?thesis
    by (simp add: word_le_nat_alt unat_upper less_eq_div_iff_mult_less_eq)
qed

section \<open>Properties\<close>

text \<open>C26: a scan of the event log from a revision returns exactly the events of that revision and of later
  ones, each once, in the order of their revisions, with the key and the epoch they were recorded with.\<close>

theorem scan_exact:
  assumes "lmdb L view" "ev_rel view t E" "unat revision < 2 ^ 52"
  shows "\<exists>evts. dbKv_scan L t revision = Inr evts \<and>
    set evts = {\<lparr>evt_epoch = epoch, evt_key = k, evt_rev = r\<rparr> | r epoch k. (r, epoch, k) \<in> E \<and> revision \<le> upper r} \<and>
    distinct evts \<and> sorted (map evt_rev evts)"
proof -
  have "evt_of ` {x \<in> E. push_bit 12 revision \<le> fst x} =
      {\<lparr>evt_epoch = epoch, evt_key = k, evt_rev = r\<rparr> | r epoch k. (r, epoch, k) \<in> E \<and> revision \<le> upper r}"
    by (force simp: evt_of_def push_bit_le_upper [OF assms(3)] image_iff)
  with lmdb.scan_spec [OF assms(1,2), of revision] show ?thesis by simp
qed

lemma one_key_events:
  "\<exists>t out. dbKv_put plain_env mem_lmdb mem_empty 2 0 0 1 [97, 98] (Some [1]) False False = Inr (t, out) \<and>
     kv_rel plain_env mem_view t one_key \<and> ev_rel mem_view t {(newkeyrev 2 0 False, 1, [97, 98])}"
  using one_key_store by (simp add: ev_rel_def evt_entry_def)

theorem scan_exact_witness:
  "\<exists>t out evts. dbKv_put plain_env mem_lmdb mem_empty 2 0 0 1 [97, 98] (Some [1]) False False = Inr (t, out) \<and>
     dbKv_scan mem_lmdb t 1 = Inr evts \<and>
     set evts = {\<lparr>evt_epoch = 1, evt_key = [97, 98], evt_rev = newkeyrev 2 0 False\<rparr>}"
proof -
  from one_key_events obtain t out where
    t: "dbKv_put plain_env mem_lmdb mem_empty 2 0 0 1 [97, 98] (Some [1]) False False = Inr (t, out)"
      "ev_rel mem_view t {(newkeyrev 2 0 False, 1, [97, 98])}" by blast
  from scan_exact [OF mem.lmdb_axioms t(2), of 1] t(1) show ?thesis by auto
qed

text \<open>C27: the log records every write. After a put under a key of two to 480 bytes at a new revision \<open>rv\<close>, a scan from any revision up to
  \<open>rv\<close> returns what it returned before, followed by the one event of the put.\<close>

theorem put_then_scan:
  assumes "lmdb L view" "env_ok env" "kv_rel env view t H" "2 \<le> length k" "length k \<le> PCB_LIMIT_KEY_LENGTH"
    and "rev_fits rv subrev" "rv \<noteq> 0" "fresh (newkeyrev rv subrev False) H" "put_ok env rv (H k)"
    and "length (sl val) < 2 ^ 62" "\<not> (ignoreValue \<and> val \<noteq> None)"
    and "ev_rel view t E" "\<forall>x \<in> E. fst x < newkeyrev rv subrev False" "r \<le> rv"
  shows "\<exists>t' out evts. dbKv_put env L t rv subrev lease epoch k val ignoreValue ignoreLease = Inr (t', out) \<and>
    dbKv_scan L t r = Inr evts \<and>
    dbKv_scan L t' r = Inr (evts @ [\<lparr>evt_epoch = epoch, evt_key = k, evt_rev = newkeyrev rv subrev False\<rparr>])"
proof -
  let ?x = "(newkeyrev rv subrev False, epoch, k)"
  have iv: "ignoreValue \<longrightarrow> val = None" using assms(11) by blast
  from lmdb.put_spec [OF assms(1-10), of ignoreValue lease epoch ignoreLease] iv obtain t' out where
    p: "dbKv_put env L t rv subrev lease epoch k val ignoreValue ignoreLease = Inr (t', out)"
      "set (view t' DBI_event) = insert (evt_entry ?x) (set (view t DBI_event))" by (auto simp: evt_entry_def)
  have "unat r < 2 ^ 52" using assms(6,14) by (auto simp: rev_fits_def word_le_nat_alt)
  then have le: "push_bit 12 r \<le> fst ?x" using push_bit_le_upper assms(14) upper_newkeyrev [OF assms(6)] by simp
  have new: "\<forall>y \<in> E. fst y < fst ?x" using assms(13) by simp
  from lmdb.scan_add(2) [OF assms(1,12) p(2) new le] lmdb.scan_run [OF assms(1,12), of r] p(1)
  show ?thesis by (auto simp: evt_of_def)
qed

theorem put_then_scan_witness:
  "\<exists>t' out. dbKv_put plain_env mem_lmdb mem_empty 2 0 0 1 [97, 98] (Some [1]) False False = Inr (t', out) \<and>
    dbKv_scan mem_lmdb t' 1 = Inr [\<lparr>evt_epoch = 1, evt_key = [97, 98], evt_rev = newkeyrev 2 0 False\<rparr>]"
proof -
  have "ev_rel mem_view mem_empty {}" by (simp add: ev_rel_def)
  from put_then_scan [OF mem.lmdb_axioms env_ok_plain kv_rel_empty, of "[97, 98]" 2 0 "Some [1]" False "{}" 1 0 1 False]
    this mem.scan_spec [OF this, of 1] show ?thesis
    by (auto simp: PCB_LIMIT_KEY_LENGTH_def rev_fits_def fresh_def put_ok_def)
qed

end
