(* ===== verification/Mvcc_Compact.thy ===== *)
theory Mvcc_Compact
  imports Mvcc_Scan
begin

text \<open>
  Compaction: \<open>compact\<close> of \<open>src/db_kv.go\<close>. It consumes the events before the compaction revision in
  batches and removes, for each key they name, the versions older than the last of them. The history
  after it reads the same at the compaction revision and later.
\<close>

declare split_paired_Ex [simp del] split_paired_All [simp del]

section \<open>The specification\<close>

definition trim :: "keyrev \<Rightarrow> version list \<Rightarrow> version list" where
  "trim r hs = filter (\<lambda>h. r \<le> vrev h) hs"

definition desc :: "version list \<Rightarrow> bool" where
  "desc hs \<longleftrightarrow> sorted_wrt (\<lambda>h h'. vrev h' < vrev h) hs"

lemma desc_append: "desc (xs @ ys) \<longleftrightarrow> desc xs \<and> desc ys \<and> (\<forall>x \<in> set xs. \<forall>y \<in> set ys. vrev y < vrev x)"
  by (auto simp: desc_def sorted_wrt_append)

lemma desc_Cons [simp]: "desc (x # ys) \<longleftrightarrow> (\<forall>y \<in> set ys. vrev y < vrev x) \<and> desc ys"
  by (simp add: desc_def)

lemma desc_inj: "desc hs \<Longrightarrow> h \<in> set hs \<Longrightarrow> h' \<in> set hs \<Longrightarrow> vrev h = vrev h' \<Longrightarrow> h = h'"
  by (induction hs) auto

lemma desc_trim: "desc hs \<Longrightarrow> hs = trim r hs @ filter (\<lambda>h. \<not> r \<le> vrev h) hs"
proof (induction hs)
  case (Cons h hs)
  show ?case
  proof (cases "r \<le> vrev h")
    case False
    then have "\<not> r \<le> vrev h'" if "h' \<in> set hs" for h' using Cons.prems that by auto
    then have "filter (\<lambda>h. r \<le> vrev h) hs = []" "filter (\<lambda>h. \<not> r \<le> vrev h) hs = hs"
      by (auto simp: filter_empty_conv filter_id_conv)
    with False show ?thesis by (simp add: trim_def)
  qed (use Cons in \<open>simp add: trim_def\<close>)
qed (simp add: trim_def)

section \<open>The records of one key\<close>

lemma vals_ok_prefix: "vals_ok env M nx (xs @ ys) \<Longrightarrow> vals_ok env M nx xs"
  by (induction xs arbitrary: nx) auto

lemma vals_ok_stored: "vals_ok env M nx hs \<Longrightarrow> h \<in> set hs \<Longrightarrow> \<not> isdel (vrev h) \<Longrightarrow> \<exists>buf. M (be64 (vrev h)) = Some buf"
  by (induction hs arbitrary: nx) (auto split: if_splits)

definition key_records :: "entry list \<Rightarrow> bytes \<Rightarrow> version list \<Rightarrow> bool" where
  "key_records es k hs \<longleftrightarrow> (\<forall>v. (k, v) \<in> set es \<longleftrightarrow> v \<in> krec_bytes k ` set hs)"

context lmdb
begin

lemma NextDup_from:
  assumes e: "key_records (view t DBI_revision) k (pre @ post)" and d: "desc (pre @ post)"
    and pre: "\<And>x. x \<in> set pre \<Longrightarrow> x = h \<or> vrev h < vrev x" and post: "\<And>x. x \<in> set post \<Longrightarrow> vrev x < vrev h"
  shows "cur_NextDup L t DBI_revision (k, krec_bytes k h) =
    (case post of [] \<Rightarrow> Inl ErrMdbNotFound | h' # _ \<Rightarrow> Inr (k, krec_bytes k h'))"
proof -
  have mem: "e' \<in> set (view t DBI_revision) \<and> (k, krec_bytes k h) < e' \<and> fst e' = k \<Longrightarrow> \<exists>x \<in> set post. e' = (k, krec_bytes k x)" for e'
  proof -
    assume e': "e' \<in> set (view t DBI_revision) \<and> (k, krec_bytes k h) < e' \<and> fst e' = k"
    then obtain v where v: "e' = (k, v)" "krec_bytes k h < v" by (cases e') auto
    with e e' obtain x where x: "x \<in> set (pre @ post)" "v = krec_bytes k x" by (auto simp: key_records_def)
    have "x \<notin> set pre" using pre [of x] krec_bytes_less [of h x k] v(2) x(2) by (auto dest: order_less_asym)
    with x v show ?thesis by auto
  qed
  show ?thesis
  proof (cases post)
    case Nil
    have "first_entry (\<lambda>e. (k, krec_bytes k h) < e \<and> fst e = fst (k, krec_bytes k h)) (view t DBI_revision) = Inl ErrMdbNotFound"
      by (rule first_entry_none) (use mem Nil in auto)
    then show ?thesis using Nil by (simp add: NextDup)
  next
    case (Cons h' hs)
    have "first_entry (\<lambda>e. (k, krec_bytes k h) < e \<and> fst e = fst (k, krec_bytes k h)) (view t DBI_revision) = Inr (k, krec_bytes k h')"
    proof (rule first_entry_eq)
      show "(k, krec_bytes k h') \<in> set (view t DBI_revision)" using e Cons by (simp add: key_records_def)
      show "(k, krec_bytes k h) < (k, krec_bytes k h') \<and> fst (k, krec_bytes k h') = fst (k, krec_bytes k h)"
        using post Cons krec_bytes_less by simp
      fix e' assume "e' \<in> set (view t DBI_revision)" "(k, krec_bytes k h) < e' \<and> fst e' = fst (k, krec_bytes k h)"
      with mem [of e'] obtain x where x: "x \<in> set post" "e' = (k, krec_bytes k x)" by (metis fst_conv)
      have "x = h' \<or> vrev x < vrev h'" using x(1) Cons d by (auto simp: desc_append)
      then show "(k, krec_bytes k h') \<le> e'" using x(2) krec_bytes_le by simp
    qed simp
    then show ?thesis using Cons by (simp add: NextDup)
  qed
qed

text \<open>The second inner loop of \<open>compact\<close>: after the records that stay, it removes the rest one by one.
  \<open>R\<close> holds the revisions whose values are gone.\<close>

lemma compact_key_remove:
  assumes "key_records (view t DBI_revision) k (kept @ rest)" "desc (kept @ rest)" "\<forall>h \<in> set rest. vrev h < rv"
    and "\<forall>h \<in> set rest. \<not> isdel (vrev h) \<longrightarrow> map_of (view t DBI_value) (be64 (vrev h)) \<noteq> None" "length rest < n"
    and "cur = (case rest of [] \<Rightarrow> Inl ErrMdbNotFound | h # _ \<Rightarrow> Inr (k, krec_bytes k h))"
  shows "\<exists>t'. compact_key L n k rv t cur True = Inr (t', Some ErrMdbNotFound) \<and>
    set (view t' DBI_revision) = set (view t DBI_revision) - {(k, krec_bytes k h) | h. h \<in> set rest} \<and>
    map_of (view t' DBI_value) = map_of (view t DBI_value) |` (- {be64 (vrev h) | h. h \<in> set rest \<and> \<not> isdel (vrev h)}) \<and>
    (\<forall>d. d \<notin> {DBI_revision, DBI_value} \<longrightarrow> view t' d = view t d)"
  using assms
proof (induction n arbitrary: t rest cur)
  case (Suc n)
  show ?case
  proof (cases rest)
    case Nil
    then show ?thesis using Suc.prems(6) by auto
  next
    case (Cons h hs)
    from krec_decode [of krec_zero k h] obtain l where
      kd: "keyrecord_FromBytes krec_zero k (krec_bytes k h) = (\<lparr>krec_key = k, krec_rev = vrev h, krec_lease = l\<rparr>, None)" by blast
    have old: "\<not> rv \<le> vrev h" using Suc.prems(3) Cons by auto
    obtain t1 where t1: "(if True \<and> \<not> isdel (vrev h) then mdb_Del L t DBI_value (keyrev_key (vrev h)) else Inr t) = Inr t1"
      "map_of (view t1 DBI_value) = map_of (view t DBI_value) |` (- (if isdel (vrev h) then {} else {be64 (vrev h)}))"
      "\<forall>d. d \<noteq> DBI_value \<longrightarrow> view t1 d = view t d"
    proof (cases "isdel (vrev h)")
      case True
      then show ?thesis by (intro that [of t]) (simp_all add: restrict_map_def)
    next
      case False
      then have "be64 (vrev h) \<in> fst ` set (view t DBI_value)" using Suc.prems(4) Cons by (simp add: map_of_eq_None_iff)
      from Del_ok [OF this] obtain t1 where t1: "mdb_Del L t DBI_value (be64 (vrev h)) = Inr t1" by blast
      have "map_of (view t1 DBI_value) = map_of (view t DBI_value) |` (- {be64 (vrev h)})"
        using Del [OF t1] by (simp add: map_of_del_key restrict_map_def fun_eq_iff)
      then show ?thesis using False t1 Del [OF t1] by (intro that [of t1]) simp_all
    qed
    have hin: "(k, krec_bytes k h) \<in> set (view t1 DBI_revision)"
      using Suc.prems(1) Cons t1(3) by (simp add: key_records_def)
    from CurDel_ok [OF hin] obtain t2 where t2: "cur_Del L t1 DBI_revision (k, krec_bytes k h) = Inr t2" by blast
    have r2: "set (view t2 DBI_revision) = set (view t DBI_revision) - {(k, krec_bytes k h)}"
      using CurDel [OF t2] t1(3) by auto
    have v2: "d \<noteq> DBI_revision \<Longrightarrow> view t2 d = view t1 d" for d using CurDel [OF t2] by simp
    have inj: "krec_bytes k x = krec_bytes k h \<Longrightarrow> x \<notin> set (kept @ hs)" for x
      using krec_bytes_inj [of k x h] Suc.prems(2) Cons by (auto simp: desc_append)
    have p1: "key_records (view t2 DBI_revision) k (kept @ hs)"
      using Suc.prems(1) Cons inj unfolding key_records_def r2 by (auto simp: image_iff)
    have p2: "desc (kept @ hs)" using Suc.prems(2) Cons by (simp add: desc_append)
    have p3: "\<forall>h \<in> set hs. vrev h < rv" "length hs < n" using Suc.prems(3,5) Cons by auto
    have p4: "\<forall>x \<in> set hs. \<not> isdel (vrev x) \<longrightarrow> map_of (view t2 DBI_value) (be64 (vrev x)) \<noteq> None"
      using Suc.prems(2,4) Cons t1(2) v2 by (auto simp: restrict_map_def desc_append)
    have nd: "cur_NextDup L t2 DBI_revision (k, krec_bytes k h) =
        (case hs of [] \<Rightarrow> Inl ErrMdbNotFound | h' # _ \<Rightarrow> Inr (k, krec_bytes k h'))"
      by (rule NextDup_from [OF p1 p2]) (use Suc.prems(2) Cons in \<open>auto simp: desc_append\<close>)
    from Suc.IH [OF p1 p2 p3(1) p4 p3(2) refl] obtain t' where
      t': "compact_key L n k rv t2 (cur_NextDup L t2 DBI_revision (k, krec_bytes k h)) True = Inr (t', Some ErrMdbNotFound)"
        "set (view t' DBI_revision) = set (view t2 DBI_revision) - {(k, krec_bytes k h) | h. h \<in> set hs}"
        "map_of (view t' DBI_value) = map_of (view t2 DBI_value) |` (- {be64 (vrev h) | h. h \<in> set hs \<and> \<not> isdel (vrev h)})"
        "\<forall>d. d \<notin> {DBI_revision, DBI_value} \<longrightarrow> view t' d = view t2 d" unfolding nd by blast
    have run: "compact_key L (Suc n) k rv t cur True = Inr (t', Some ErrMdbNotFound)"
      using Suc.prems(6) Cons kd old t1(1) t2 t'(1) by (cases "isdel (vrev h)") simp_all
    have "map_of (view t' DBI_value) = map_of (view t DBI_value) |` (- {be64 (vrev h) | h. h \<in> set rest \<and> \<not> isdel (vrev h)})"
      unfolding t'(3) v2 [of DBI_value, simplified] t1(2) restrict_restrict Cons
      by (rule arg_cong [where f = "restrict_map (map_of (view t DBI_value))"]) auto
    moreover have "set (view t' DBI_revision) = set (view t DBI_revision) - {(k, krec_bytes k h) | h. h \<in> set rest}"
      unfolding t'(2) r2 Cons by auto
    moreover have "\<forall>d. d \<notin> {DBI_revision, DBI_value} \<longrightarrow> view t' d = view t d" using t'(4) v2 t1(3) by simp
    ultimately show ?thesis using run by blast
  qed
qed simp

text \<open>The records at or above the last compacted event stay.\<close>

lemma compact_key_walk:
  assumes "key_records (view t DBI_revision) k (pre @ keep @ rest)" "desc (pre @ keep @ rest)"
    and "\<forall>h \<in> set keep. rv \<le> vrev h" "\<forall>h \<in> set rest. vrev h < rv"
    and "\<forall>h \<in> set rest. \<not> isdel (vrev h) \<longrightarrow> map_of (view t DBI_value) (be64 (vrev h)) \<noteq> None"
    and "length keep + length rest < n" "hasNewer \<or> keep \<noteq> []"
    and "cur = (case keep @ rest of [] \<Rightarrow> Inl ErrMdbNotFound | h # _ \<Rightarrow> Inr (k, krec_bytes k h))"
  shows "\<exists>t'. compact_key L n k rv t cur hasNewer = Inr (t', Some ErrMdbNotFound) \<and>
    set (view t' DBI_revision) = set (view t DBI_revision) - {(k, krec_bytes k h) | h. h \<in> set rest} \<and>
    map_of (view t' DBI_value) = map_of (view t DBI_value) |` (- {be64 (vrev h) | h. h \<in> set rest \<and> \<not> isdel (vrev h)}) \<and>
    (\<forall>d. d \<notin> {DBI_revision, DBI_value} \<longrightarrow> view t' d = view t d)"
  using assms
proof (induction keep arbitrary: n pre cur hasNewer)
  case Nil
  have p: "key_records (view t DBI_revision) k (pre @ rest)" "desc (pre @ rest)" "length rest < n"
    "cur = (case rest of [] \<Rightarrow> Inl ErrMdbNotFound | h # _ \<Rightarrow> Inr (k, krec_bytes k h))" "hasNewer" using Nil.prems by simp_all
  from compact_key_remove [OF p(1,2) Nil.prems(4,5) p(3,4)] p(5) show ?case by simp
next
  case (Cons h keep)
  from Cons.prems(6) obtain m where n: "n = Suc m" by (cases n) auto
  from krec_decode [of krec_zero k h] obtain l where
    kd: "keyrecord_FromBytes krec_zero k (krec_bytes k h) = (\<lparr>krec_key = k, krec_rev = vrev h, krec_lease = l\<rparr>, None)" by blast
  have a: "pre @ (h # keep) @ rest = (pre @ [h]) @ keep @ rest" by simp
  note p = Cons.prems(1,2) [unfolded a]
  have nd: "cur_NextDup L t DBI_revision (k, krec_bytes k h) =
      (case keep @ rest of [] \<Rightarrow> Inl ErrMdbNotFound | h' # _ \<Rightarrow> Inr (k, krec_bytes k h'))"
    by (rule NextDup_from [OF p]) (use Cons.prems(2) in \<open>auto simp: desc_append\<close>)
  have "compact_key L n k rv t cur hasNewer = compact_key L m k rv t (cur_NextDup L t DBI_revision (k, krec_bytes k h)) True"
    using Cons.prems(3,8) n kd by simp
  moreover have "\<forall>h \<in> set keep. rv \<le> vrev h" "length keep + length rest < m" using Cons.prems(3,6) n by auto
  ultimately show ?case using Cons.IH [OF p _ Cons.prems(4,5) _ _ nd, of m True] by simp
qed

end

text \<open>A history without old versions of a key.\<close>

lemma hist_ok_filter:
  assumes "hist_ok H"
  shows "hist_ok (H(k := filter P (H k)))"
proof -
  have sub: "h \<in> set ((H(k := filter P (H k))) k') \<Longrightarrow> h \<in> set (H k')" for h k' by (auto split: if_splits)
  have "sorted_wrt (\<lambda>h h'. vrev h' < vrev h) ((H(k := filter P (H k))) k')" for k'
    using hist_okD(3) [OF assms, of k'] by (auto simp: sorted_wrt_filter)
  moreover have "(H(k := filter P (H k))) k' \<noteq> [] \<Longrightarrow> H k' \<noteq> []" for k' by (auto split: if_splits)
  ultimately show ?thesis using sub hist_okD [OF assms] unfolding hist_ok_def by (metis (no_types, lifting))
qed

lemma kv_rel_trim:
  fixes rv H k
  defines "old \<equiv> filter (\<lambda>h. \<not> rv \<le> vrev h) (H k)"
  assumes rel: "kv_rel env view t H"
    and r: "set (view t' DBI_revision) = set (view t DBI_revision) - {(k, krec_bytes k h) | h. h \<in> set old}"
    and v: "map_of (view t' DBI_value) = map_of (view t DBI_value) |` (- {be64 (vrev h) | h. h \<in> set old \<and> \<not> isdel (vrev h)})"
  shows "kv_rel env view t' (H(k := trim rv (H k)))"
proof -
  note ok = kv_relD(1) [OF rel]
  have d: "desc (H k)" using hist_okD(3) [OF ok] by (simp add: desc_def)
  note sp = desc_trim [OF d, of rv, folded old_def]
  have trim: "h \<in> set (trim rv (H k)) \<longleftrightarrow> h \<in> set (H k) \<and> h \<notin> set old" for h by (auto simp: trim_def old_def)
  have ok': "hist_ok (H(k := trim rv (H k)))" unfolding trim_def by (rule hist_ok_filter [OF ok])
  have gone: "vrev h' \<noteq> vrev h" if "h \<in> set old" "\<not> isdel (vrev h)" "h' \<in> set ((H(k := trim rv (H k))) k')" for h h' k'
  proof
    assume eq: "vrev h' = vrev h"
    have h: "h \<in> set (H k)" "\<not> rv \<le> vrev h" using that(1) by (auto simp: old_def)
    have h': "h' \<in> set (H k')" "k' = k \<Longrightarrow> rv \<le> vrev h'" using that(3) by (auto simp: trim_def split: if_splits)
    have "k = k'" by (rule hist_okD(4) [OF ok h(1) h'(1) that(2)]) (simp add: eq)
    with h h' eq show False by simp
  qed
  have rec: "set (view t' DBI_revision) = {(k', krec_bytes k' h) | k' h. h \<in> set ((H(k := trim rv (H k))) k')}"
  proof -
    have inj: "h = h'" if "h \<in> set (H k)" "h' \<in> set (H k)" "krec_bytes k h = krec_bytes k h'" for h h'
      by (rule desc_inj [OF d that(1,2) krec_bytes_inj [OF that(3)]])
    have sub: "set old \<subseteq> set (H k)" by (auto simp: old_def)
    have all: "(k', w) \<in> set (view t DBI_revision) \<longleftrightarrow> (\<exists>h \<in> set (H k'). w = krec_bytes k' h)" for k' w
      unfolding kv_relD(2) [OF rel] by blast
    have "(k', w) \<in> set (view t' DBI_revision) \<longleftrightarrow> (\<exists>h \<in> set ((H(k := trim rv (H k))) k'). w = krec_bytes k' h)" for k' w
    proof (cases "k' = k")
      case True
      have "(k, w) \<in> set (view t' DBI_revision) \<longleftrightarrow>
          (\<exists>h \<in> set (H k). w = krec_bytes k h) \<and> \<not> (\<exists>h \<in> set old. w = krec_bytes k h)"
        unfolding r Diff_iff all by blast
      also have "\<dots> \<longleftrightarrow> (\<exists>h \<in> set (trim rv (H k)). w = krec_bytes k h)"
      proof safe
        fix h assume h: "h \<in> set (H k)" "\<not> (\<exists>x \<in> set old. krec_bytes k h = krec_bytes k x)"
        then have "h \<in> set (trim rv (H k))" using trim by blast
        then show "\<exists>x \<in> set (trim rv (H k)). krec_bytes k h = krec_bytes k x" by blast
      next
        fix h assume h: "h \<in> set (trim rv (H k))"
        then show "\<exists>x \<in> set (H k). krec_bytes k h = krec_bytes k x" using trim by blast
        fix x assume x: "x \<in> set old" "krec_bytes k h = krec_bytes k x"
        have "h = x" by (rule inj) (use h x trim sub in blast)+
        then show False using h x trim by blast
      qed
      finally show ?thesis using True by simp
    qed (use all [of k' w] in \<open>simp add: r\<close>)
    then show ?thesis by (intro set_eqI) (case_tac x, simp, blast)
  qed
  have vals: "vals_ok env (map_of (view t' DBI_value)) None ((H(k := trim rv (H k))) k')" for k'
  proof -
    have "vals_ok env (map_of (view t DBI_value)) None ((H(k := trim rv (H k))) k')"
    proof (cases "k' = k")
      case True
      from kv_relD(3) [OF rel, of k] sp have "vals_ok env (map_of (view t DBI_value)) None (trim rv (H k) @ old)" by simp
      from vals_ok_prefix [OF this] show ?thesis using True by simp
    qed (use kv_relD(3) [OF rel] in simp)
    moreover have "vals_ok env (map_of (view t' DBI_value)) None ((H(k := trim rv (H k))) k') =
        vals_ok env (map_of (view t DBI_value)) None ((H(k := trim rv (H k))) k')"
    proof (rule vals_ok_cong)
      fix h assume h: "h \<in> set ((H(k := trim rv (H k))) k')" "\<not> isdel (vrev h)"
      from gone [OF _ _ h(1)] show "map_of (view t' DBI_value) (be64 (vrev h)) = map_of (view t DBI_value) (be64 (vrev h))"
        unfolding v by (auto simp: restrict_map_def)
    qed
    ultimately show ?thesis by simp
  qed
  have dom: "\<exists>r. x = be64 r \<and> \<not> isdel r" if "map_of (view t' DBI_value) x = Some y" for x y
    using that kv_relD(4) [OF rel] unfolding v by (auto simp: restrict_map_def split: if_splits simp del: map_of_eq_Some_iff)
  show ?thesis unfolding kv_rel_def using ok' rec vals dom by (auto simp del: map_of_eq_Some_iff fun_upd_apply)
qed

context lmdb
begin

lemma compact_key_spec:
  assumes rel: "kv_rel env view t H" and h0: "h0 \<in> set (H k)" "vrev h0 = rv"
  shows "\<exists>t'. compact_key L (Suc (mdb_Entries L t DBI_revision)) k rv t (cur_SetRange L t DBI_revision k) False =
      Inr (t', Some ErrMdbNotFound) \<and>
    kv_rel env view t' (H(k := trim rv (H k))) \<and> (\<forall>d. d \<notin> {DBI_revision, DBI_value} \<longrightarrow> view t' d = view t d)"
proof -
  note ok = kv_relD(1) [OF rel]
  let ?rest = "filter (\<lambda>h. \<not> rv \<le> vrev h) (H k)"
  have d: "desc (H k)" using hist_okD(3) [OF ok] by (simp add: desc_def)
  note sp = desc_trim [OF d, of rv]
  have d2: "desc (trim rv (H k) @ ?rest)" using d by (simp flip: sp)
  have ne: "trim rv (H k) \<noteq> []" using h0 by (auto simp: trim_def filter_empty_conv)
  have "H k \<noteq> []" using h0 by auto
  then have k: "k \<noteq> []" using hist_okD(1) [OF ok] by fastforce
  have kr: "key_records (view t DBI_revision) k ([] @ trim rv (H k) @ ?rest)"
    using rev_entry [OF rel, of k] sp by (auto simp: key_records_def)
  obtain h hs where h: "H k = h # hs" using \<open>H k \<noteq> []\<close> by (cases "H k") auto
  have cur: "cur_SetRange L t DBI_revision k =
      (case trim rv (H k) @ ?rest of [] \<Rightarrow> Inl ErrMdbNotFound | h # _ \<Rightarrow> Inr (k, krec_bytes k h))"
    using SetRange_hit [OF rel h k] h unfolding sp [symmetric] by simp
  have stored: "\<forall>h \<in> set ?rest. \<not> isdel (vrev h) \<longrightarrow> map_of (view t DBI_value) (be64 (vrev h)) \<noteq> None"
    using vals_ok_stored [OF kv_relD(3) [OF rel, of k]] by fastforce
  have fuel: "length (trim rv (H k)) + length ?rest < Suc (mdb_Entries L t DBI_revision)"
    using arg_cong [OF sp, of length] length_history [OF rel, of k] by (simp add: Entries)
  have old: "\<forall>h \<in> set ?rest. vrev h < rv" and new: "\<forall>h \<in> set (trim rv (H k)). rv \<le> vrev h" by (auto simp: trim_def)
  from compact_key_walk [OF kr _ new old stored fuel _ cur, of False] d2 ne obtain t' where
    t': "compact_key L (Suc (mdb_Entries L t DBI_revision)) k rv t (cur_SetRange L t DBI_revision k) False = Inr (t', Some ErrMdbNotFound)"
      "set (view t' DBI_revision) = set (view t DBI_revision) - {(k, krec_bytes k h) | h. h \<in> set ?rest}"
      "map_of (view t' DBI_value) = map_of (view t DBI_value) |` (- {be64 (vrev h) | h. h \<in> set ?rest \<and> \<not> isdel (vrev h)})"
      "\<forall>d. d \<notin> {DBI_revision, DBI_value} \<longrightarrow> view t' d = view t d" by auto
  have "kv_rel env view t' (H(k := trim rv (H k)))"
    by (rule kv_rel_trim [OF rel t'(2,3)])
  with t' show ?thesis by blast
qed

text \<open>All the keys of a batch.\<close>

lemma compact_keys_spec:
  assumes "kv_rel env view t H" "distinct (map fst ks)" "\<forall>(k, r) \<in> set ks. \<exists>h \<in> set (H k). vrev h = r"
  shows "\<exists>t' err'. compact_keys L ks t err = Inr (t', err') \<and> (err' = err \<or> err' = Some ErrMdbNotFound) \<and>
    kv_rel env view t' (\<lambda>k. case map_of ks k of None \<Rightarrow> H k | Some r \<Rightarrow> trim r (H k)) \<and>
    (\<forall>d. d \<notin> {DBI_revision, DBI_value} \<longrightarrow> view t' d = view t d)"
  using assms
proof (induction ks arbitrary: t H err)
  case Nil
  then show ?case by simp
next
  case (Cons x ks)
  obtain k r where x: "x = (k, r)" by (rule prod.exhaust)
  from Cons.prems(3) x obtain h where h: "h \<in> set (H k)" "vrev h = r" by auto
  from compact_key_spec [OF Cons.prems(1) h] obtain t1 where
    t1: "compact_key L (Suc (mdb_Entries L t DBI_revision)) k r t (cur_SetRange L t DBI_revision k) False = Inr (t1, Some ErrMdbNotFound)"
      "kv_rel env view t1 (H(k := trim r (H k)))" "\<forall>d. d \<notin> {DBI_revision, DBI_value} \<longrightarrow> view t1 d = view t d" by blast
  have k: "k \<notin> fst ` set ks" "distinct (map fst ks)" using Cons.prems(2) x by simp_all
  have ks: "\<forall>(k', r') \<in> set ks. \<exists>h \<in> set ((H(k := trim r (H k))) k'). vrev h = r'"
    using Cons.prems(3) k(1) by (force simp: image_iff)
  from Cons.IH [OF t1(2) k(2) ks, of "Some ErrMdbNotFound"] obtain t' err' where
    t': "compact_keys L ks t1 (Some ErrMdbNotFound) = Inr (t', err')" "err' = Some ErrMdbNotFound"
      "kv_rel env view t' (\<lambda>k'. case map_of ks k' of None \<Rightarrow> (H(k := trim r (H k))) k' | Some r' \<Rightarrow> trim r' ((H(k := trim r (H k))) k'))"
      "\<forall>d. d \<notin> {DBI_revision, DBI_value} \<longrightarrow> view t' d = view t1 d" by auto
  have "map_of ks k = None" using k(1) by (simp add: map_of_eq_None_iff)
  then have "(\<lambda>k'. case map_of ks k' of None \<Rightarrow> (H(k := trim r (H k))) k' | Some r' \<Rightarrow> trim r' ((H(k := trim r (H k))) k')) =
      (\<lambda>k'. case map_of (x # ks) k' of None \<Rightarrow> H k' | Some r' \<Rightarrow> trim r' (H k'))"
    using x by (auto simp: fun_eq_iff split: option.splits)
  with t'(3) have "kv_rel env view t' (\<lambda>k'. case map_of (x # ks) k' of None \<Rightarrow> H k' | Some r' \<Rightarrow> trim r' (H k'))" by simp
  moreover have "compact_keys L (x # ks) t err = Inr (t', err')" using x t1(1) t'(1) by simp
  ultimately show ?case using t'(2,4) t1(3) by auto
qed

end

section \<open>The events\<close>

abbreviation ev_rev :: "event \<Rightarrow> keyrev" where "ev_rev x \<equiv> fst x"
abbreviation ev_key :: "event \<Rightarrow> bytes" where "ev_key x \<equiv> snd (snd x)"

text \<open>The keys of the events consumed, each with its last revision.\<close>

definition ev_keys :: "(bytes \<times> keyrev) list \<Rightarrow> event list \<Rightarrow> (bytes \<times> keyrev) list" where
  "ev_keys = foldl (\<lambda>ks x. AList.update (ev_key x) (ev_rev x) ks)"

lemma length_update_le: "length (AList.update k v ks) \<le> Suc (length ks)"
  by (induction ks) auto

definition on_event :: "event list \<Rightarrow> compact_state \<Rightarrow> bool" where
  "on_event xs st \<longleftrightarrow> (case xs of [] \<Rightarrow> False | x # _ \<Rightarrow>
     (cs_k st, cs_v st) = evt_entry x \<and> cs_err st = None \<and> cs_rev st = ev_rev x)"

definition at_event :: "event list \<Rightarrow> compact_state \<Rightarrow> bool" where
  "at_event xs st \<longleftrightarrow> (case xs of [] \<Rightarrow> cs_k st = [] \<and> cs_v st = [] \<and> cs_err st = Some ErrMdbNotFound
     | x # _ \<Rightarrow> on_event xs st)"

lemma event_payload:
  "\<exists>m. trimChecksum (be64 r) (event_bytes r ep k) = Inr (uvarint ep @ k) \<and>
     Uvarint (uvarint ep @ k) = (ep, m) \<and> 0 \<le> m \<and> drop (nat m) (uvarint ep @ k) = k"
  by (simp add: event_bytes_def AppendUvarint_def)

lemma FromKey_entry: "keyrev_FromKey r0 (be64 r) (event_bytes r ep k) = Inr (r, None)"
proof -
  have "checkSum 4 (be64 r) (event_bytes r ep k) = None"
    unfolding event_bytes_def addChecksum_def keyrev_key_eq by (rule checkSum_append) simp
  then show ?thesis by (simp add: keyrev_FromKey_def)
qed

context lmdb
begin

text \<open>One event is consumed and the cursor moves to the next, or to the end.\<close>

lemma consume_event:
  assumes ev: "view t DBI_event = map evt_entry (x # ys)" and on: "on_event (x # ys) st"
  shows "\<exists>v ep m t1 st1. trimChecksum (cs_k st) (cs_v st) = Inr v \<and> Uvarint v = (ep, m) \<and> 0 \<le> m \<and> drop (nat m) v = ev_key x \<and>
    cs_err st = None \<and> cs_rev st = ev_rev x \<and> cur_Del L t DBI_event (cs_k st, cs_v st) = Inr t1 \<and>
    compact_advance L t1 (st\<lparr>cs_last := upper (ev_rev x), cs_keys := AList.update (ev_key x) (ev_rev x) (cs_keys st)\<rparr>) = Inr st1 \<and>
    view t1 DBI_event = map evt_entry ys \<and> at_event ys st1 \<and>
    cs_keys st1 = AList.update (ev_key x) (ev_rev x) (cs_keys st) \<and> cs_last st1 = upper (ev_rev x) \<and>
    (ys = [] \<longrightarrow> cs_rev st1 = ev_rev x) \<and> (\<forall>d. d \<noteq> DBI_event \<longrightarrow> view t1 d = view t d)"
proof -
  obtain r ep k where x: "x = (r, ep, k)" by (rule prod_cases3)
  have cur: "cs_k st = be64 r" "cs_v st = event_bytes r ep k" "cs_err st = None" "cs_rev st = r"
    using on x by (auto simp: on_event_def evt_entry_def)
  let ?e = "(be64 r, event_bytes r ep k)"
  have e: "?e = evt_entry x" using x by (simp add: evt_entry_def)
  have srt: "ssorted (map evt_entry (x # ys))" using view_sorted [of t DBI_event] unfolding ev .
  have "?e \<in> set (view t DBI_event)" unfolding ev e by simp
  from CurDel_ok [OF this] obtain t1 where t1: "cur_Del L t DBI_event ?e = Inr t1" by blast
  have v1: "view t1 DBI_event = map evt_entry ys"
    using CurDel [OF t1, of DBI_event] srt unfolding ev e by (auto simp: filter_id_conv)
  have adv: "advance t1 DBI_event ?e = head_entry (map evt_entry ys)"
    by (rule advance_suffix [where xs = "[]"]) (use v1 srt in \<open>auto simp: e\<close>)
  from event_payload [of r ep k] obtain m where
    m: "trimChecksum (be64 r) (event_bytes r ep k) = Inr (uvarint ep @ k)" "Uvarint (uvarint ep @ k) = (ep, m)"
      "0 \<le> m" "drop (nat m) (uvarint ep @ k) = k" by blast
  let ?st = "st\<lparr>cs_last := upper r, cs_keys := AList.update k r (cs_keys st)\<rparr>"
  have "\<exists>st1. compact_advance L t1 ?st = Inr st1 \<and> at_event ys st1 \<and> cs_keys st1 = cs_keys ?st \<and> cs_last st1 = upper r \<and>
    (ys = [] \<longrightarrow> cs_rev st1 = r)"
  proof (cases ys)
    case Nil
    with adv cur show ?thesis
      by (simp add: compact_advance_def advance_def at_event_def Let_def split: sum.splits if_splits)
  next
    case (Cons y zs)
    obtain r' ep' k' where y: "y = (r', ep', k')" by (rule prod_cases3)
    show ?thesis using adv FromKey_entry [of r r' ep' k'] cur Cons y
      by (simp add: compact_advance_def advance_def at_event_def on_event_def evt_entry_def Let_def split: sum.splits if_splits)
  qed
  then obtain st1 where a1: "compact_advance L t1 ?st = Inr st1" "at_event ys st1" "cs_keys st1 = cs_keys ?st"
    "cs_last st1 = upper r" "ys = [] \<longrightarrow> cs_rev st1 = r" by blast
  show ?thesis
    by (intro exI [of _ "uvarint ep @ k"] exI [of _ ep] exI [of _ m] exI [of _ t1] exI [of _ st1]) (use x cur m t1 a1 v1 CurDel [OF t1] in simp)
qed

lemma compact_events_step:
  assumes ev: "view t DBI_event = map evt_entry (x # ys)" and on: "on_event (x # ys) st"
    and lo: "\<not> (0 < mx \<and> mx \<le> upper (ev_rev x))" "length (cs_keys st) < limitCompactionMaxKeys"
  shows "\<exists>t1 st1. compact_events L (Suc n) mx t st = compact_events L n mx t1 st1 \<and>
    view t1 DBI_event = map evt_entry ys \<and> at_event ys st1 \<and>
    cs_keys st1 = AList.update (ev_key x) (ev_rev x) (cs_keys st) \<and> cs_last st1 = upper (ev_rev x) \<and>
    (ys = [] \<longrightarrow> cs_rev st1 = ev_rev x) \<and> (\<forall>d. d \<noteq> DBI_event \<longrightarrow> view t1 d = view t d)"
proof -
  from consume_event [OF ev on] obtain v ep m t1 st1 where
    c: "trimChecksum (cs_k st) (cs_v st) = Inr v" "Uvarint v = (ep, m)" "0 \<le> m" "drop (nat m) v = ev_key x" "cs_err st = None"
      "cs_rev st = ev_rev x" "cur_Del L t DBI_event (cs_k st, cs_v st) = Inr t1"
      "compact_advance L t1 (st\<lparr>cs_last := upper (ev_rev x), cs_keys := AList.update (ev_key x) (ev_rev x) (cs_keys st)\<rparr>) = Inr st1"
      "view t1 DBI_event = map evt_entry ys" "at_event ys st1" "cs_keys st1 = AList.update (ev_key x) (ev_rev x) (cs_keys st)"
      "cs_last st1 = upper (ev_rev x)" "ys = [] \<longrightarrow> cs_rev st1 = ev_rev x" "\<forall>d. d \<noteq> DBI_event \<longrightarrow> view t1 d = view t d" by (elim exE conjE)
  have "compact_events L (Suc n) mx t st = compact_events L n mx t1 st1" using lo c(1-8) by auto
  then show ?thesis using c(9-14) by blast
qed

lemma compact_events_spec:
  assumes "view t DBI_event = map evt_entry xs" "on_event xs st" "\<exists>x \<in> set xs. mx \<le> upper (ev_rev x)"
    and "0 < mx" "length xs < n"
  shows "\<exists>pre post t1 st1 dn. compact_events L n mx t st = Inr (t1, st1, dn) \<and> xs = pre @ post \<and>
    view t1 DBI_event = map evt_entry post \<and> on_event post st1 \<and> cs_keys st1 = ev_keys (cs_keys st) pre \<and>
    (\<forall>x \<in> set pre. upper (ev_rev x) < mx) \<and> dn = (mx \<le> upper (ev_rev (hd post))) \<and>
    (\<not> dn \<longrightarrow> limitCompactionMaxKeys \<le> length (cs_keys st1)) \<and> (cs_last st < mx \<longrightarrow> cs_last st1 < mx) \<and>
    (\<forall>d. d \<noteq> DBI_event \<longrightarrow> view t1 d = view t d)"
  using assms
proof (induction xs arbitrary: t st n)
  case (Cons x xs)
  from Cons.prems(5) obtain m where n: "n = Suc m" by (cases n) auto
  have st: "cs_err st = None" "cs_rev st = ev_rev x" using Cons.prems(2) by (auto simp: on_event_def)
  consider "mx \<le> upper (ev_rev x)" | "\<not> mx \<le> upper (ev_rev x)" "limitCompactionMaxKeys \<le> length (cs_keys st)"
    | "\<not> mx \<le> upper (ev_rev x)" "\<not> limitCompactionMaxKeys \<le> length (cs_keys st)" by blast
  then show ?case
  proof cases
    case 1
    then have "compact_events L n mx t st = Inr (t, st, True)" using n st Cons.prems(4) by simp
    then show ?thesis using 1 Cons.prems
      by (intro exI [of _ "[]"] exI [of _ "x # xs"] exI [of _ t] exI [of _ st] exI [of _ True]) (simp add: ev_keys_def)
  next
    case 2
    then have "compact_events L n mx t st = Inr (t, st, False)" using n st by simp
    then show ?thesis using 2 Cons.prems
      by (intro exI [of _ "[]"] exI [of _ "x # xs"] exI [of _ t] exI [of _ st] exI [of _ False]) (simp add: ev_keys_def)
  next
    case 3
    then have ex: "\<exists>x \<in> set xs. mx \<le> upper (ev_rev x)" using Cons.prems(3) by auto
    then obtain y ys where xs: "xs = y # ys" by (cases xs) auto
    from compact_events_step [OF Cons.prems(1,2), of mx m] 3 obtain t1 st1 where
      t1: "compact_events L n mx t st = compact_events L m mx t1 st1" "view t1 DBI_event = map evt_entry xs"
        "on_event xs st1" "cs_keys st1 = AList.update (ev_key x) (ev_rev x) (cs_keys st)" "cs_last st1 = upper (ev_rev x)"
        "\<forall>d. d \<noteq> DBI_event \<longrightarrow> view t1 d = view t d" unfolding n xs by (auto simp: at_event_def)
    have "length xs < m" using Cons.prems(5) n by simp
    from Cons.IH [OF t1(2,3) ex Cons.prems(4) this] obtain pre post t2 st2 dn where
      t2: "compact_events L m mx t1 st1 = Inr (t2, st2, dn)" "xs = pre @ post" "view t2 DBI_event = map evt_entry post"
        "on_event post st2" "cs_keys st2 = ev_keys (cs_keys st1) pre" "\<forall>x \<in> set pre. upper (ev_rev x) < mx"
        "dn = (mx \<le> upper (ev_rev (hd post)))" "\<not> dn \<longrightarrow> limitCompactionMaxKeys \<le> length (cs_keys st2)"
        "cs_last st1 < mx \<longrightarrow> cs_last st2 < mx" "\<forall>d. d \<noteq> DBI_event \<longrightarrow> view t2 d = view t1 d" by blast
    have lt: "upper (ev_rev x) < mx" using 3(1) by (simp add: not_le)
    show ?thesis
    proof (intro exI conjI)
      show "compact_events L n mx t st = Inr (t2, st2, dn)" using t1(1) t2(1) by simp
      show "x # xs = (x # pre) @ post" using t2(2) by simp
      show "cs_keys st2 = ev_keys (cs_keys st) (x # pre)" using t2(5) t1(4) by (simp add: ev_keys_def)
      show "\<forall>y \<in> set (x # pre). upper (ev_rev y) < mx" using t2(6) lt by simp
      show "cs_last st < mx \<longrightarrow> cs_last st2 < mx" using t2(9) t1(5) lt by simp
      show "\<forall>d. d \<noteq> DBI_event \<longrightarrow> view t2 d = view t d" using t2(10) t1(6) by simp
    qed (fact t2)+
  qed
qed simp

text \<open>When the log ends before the compaction revision all of it is consumed.\<close>

lemma compact_events_all:
  assumes "view t DBI_event = map evt_entry xs" "at_event xs st" "\<forall>x \<in> set xs. \<not> (0 < mx \<and> mx \<le> upper (ev_rev x))"
    and "length (cs_keys st) + length xs \<le> limitCompactionMaxKeys" "length xs < n"
    and "xs = [] \<longrightarrow> \<not> (0 < mx \<and> mx \<le> upper (cs_rev st))"
  shows "\<exists>t1 st1. compact_events L n mx t st = Inr (t1, st1, False) \<and> cs_k st1 = [] \<and> cs_v st1 = [] \<and>
    cs_err st1 = Some ErrMdbNotFound \<and> \<not> (0 < mx \<and> mx \<le> upper (cs_rev st1)) \<and>
    cs_keys st1 = ev_keys (cs_keys st) xs \<and> (\<forall>d. d \<noteq> DBI_event \<longrightarrow> view t1 d = view t d)"
  using assms
proof (induction xs arbitrary: t st n)
  case Nil
  then obtain m where n: "n = Suc m" by (cases n) auto
  have "compact_events L n mx t st = Inr (t, st, False)" using Nil.prems(2) n by (simp add: at_event_def)
  then show ?case using Nil.prems(2,6) by (intro exI [of _ t] exI [of _ st]) (simp add: at_event_def ev_keys_def)
next
  case (Cons x xs)
  from Cons.prems(5) obtain m where n: "n = Suc m" "length xs < m" by (cases n) auto
  have on: "on_event (x # xs) st" using Cons.prems(2) by (simp add: at_event_def)
  have lo: "\<not> (0 < mx \<and> mx \<le> upper (ev_rev x))" "length (cs_keys st) < limitCompactionMaxKeys"
    using Cons.prems(3,4) by auto
  from compact_events_step [OF Cons.prems(1) on lo, of m] obtain t1 st1 where
    t1: "compact_events L n mx t st = compact_events L m mx t1 st1" "view t1 DBI_event = map evt_entry xs" "at_event xs st1"
      "cs_keys st1 = AList.update (ev_key x) (ev_rev x) (cs_keys st)" "xs = [] \<longrightarrow> cs_rev st1 = ev_rev x"
      "\<forall>d. d \<noteq> DBI_event \<longrightarrow> view t1 d = view t d" unfolding n(1) by blast
  have "length (cs_keys st1) \<le> Suc (length (cs_keys st))" unfolding t1(4) by (rule length_update_le)
  with Cons.prems(4) have "length (cs_keys st1) + length xs \<le> limitCompactionMaxKeys" by simp
  from Cons.IH [OF t1(2,3) _ this n(2)] Cons.prems(3) t1(5) lo(1) obtain t2 st2 where
    "compact_events L m mx t1 st1 = Inr (t2, st2, False)" "cs_k st2 = []" "cs_v st2 = []" "cs_err st2 = Some ErrMdbNotFound"
    "\<not> (0 < mx \<and> mx \<le> upper (cs_rev st2))" "cs_keys st2 = ev_keys (cs_keys st1) xs"
    "\<forall>d. d \<noteq> DBI_event \<longrightarrow> view t2 d = view t1 d" by auto
  then show ?case using t1(1,4,6) by (intro exI [of _ t2] exI [of _ st2]) (simp add: ev_keys_def)
qed

end

lemma ev_keys_snoc: "ev_keys ks (xs @ [x]) = AList.update (ev_key x) (ev_rev x) (ev_keys ks xs)"
  by (simp add: ev_keys_def)

lemma distinct_ev_keys: "distinct (map fst (ev_keys [] xs))"
  by (induction xs rule: rev_induct) (simp_all add: ev_keys_snoc distinct_update, simp add: ev_keys_def)

lemma ev_keys_None: "map_of (ev_keys [] xs) k = None \<longleftrightarrow> (\<forall>x \<in> set xs. ev_key x \<noteq> k)"
  by (induction xs rule: rev_induct) (auto simp: ev_keys_snoc update_conv', simp add: ev_keys_def)

lemma ev_keys_Some:
  "sorted (map ev_rev xs) \<Longrightarrow> map_of (ev_keys [] xs) k = Some r \<Longrightarrow>
     (\<exists>x \<in> set xs. ev_key x = k \<and> ev_rev x = r) \<and> (\<forall>x \<in> set xs. ev_key x = k \<longrightarrow> ev_rev x \<le> r)"
proof (induction xs rule: rev_induct)
  case (snoc x xs)
  then show ?case
    by (cases "ev_key x = k") (auto simp: ev_keys_snoc update_conv' sorted_append)
qed (simp add: ev_keys_def)

section \<open>The whole compaction\<close>

text \<open>Every event of the log is the event of a stored version.\<close>

definition logged :: "history \<Rightarrow> event set \<Rightarrow> bool" where
  "logged H E \<longleftrightarrow> (\<forall>x \<in> E. \<exists>h \<in> set (H (ev_key x)). vrev h = ev_rev x)"

text \<open>The same reads from a revision on, and the same newest version of every key.\<close>

definition same_from :: "u64 \<Rightarrow> history \<Rightarrow> history \<Rightarrow> bool" where
  "same_from mx H H' \<longleftrightarrow> (\<forall>k. take 1 (H' k) = take 1 (H k)) \<and>
     (\<forall>k r. r = 0 \<or> mx \<le> r \<longrightarrow> spec_at r (H' k) = spec_at r (H k))"

definition trim_all :: "event list \<Rightarrow> history \<Rightarrow> history" where
  "trim_all xs H = (\<lambda>k. case map_of (ev_keys [] xs) k of None \<Rightarrow> H k | Some r \<Rightarrow> trim r (H k))"

lemma upper_mono: "a \<le> b \<Longrightarrow> upper a \<le> upper b"
  by (simp add: word_le_nat_alt unat_upper div_le_mono)

lemma trim_spec_at:
  assumes "desc hs" "h0 \<in> set hs" "vrev h0 = r0" "\<not> newer r h0"
  shows "spec_at r (trim r0 hs) = spec_at r hs"
proof -
  have t: "h0 \<in> set (trim r0 hs)" using assms(2,3) by (simp add: trim_def)
  have "visible r hs = visible r (trim r0 hs) @ filter (\<lambda>h. \<not> r0 \<le> vrev h) hs"
    using dropWhile_append1 [where P = "newer r", OF t assms(4)] desc_trim [OF assms(1), of r0] by (metis visible_def)
  moreover have "visible r (trim r0 hs) \<noteq> []" using t assms(4) by (auto simp: visible_def dropWhile_eq_Nil_conv)
  ultimately show ?thesis by (simp add: spec_at_def split: list.splits)
qed

lemma trim_newest:
  assumes "desc hs" "h0 \<in> set hs" "vrev h0 = r0"
  shows "take 1 (trim r0 hs) = take 1 hs"
proof -
  have "h0 \<in> set (trim r0 hs)" using assms(2,3) by (simp add: trim_def)
  then have "trim r0 hs \<noteq> []" by auto
  with desc_trim [OF assms(1), of r0] show ?thesis by (cases "trim r0 hs") (metis, metis One_nat_def append_Cons take0 take_Suc_Cons)
qed

lemma not_newer_old: "upper (vrev h) < mx \<Longrightarrow> r = 0 \<or> mx \<le> r \<Longrightarrow> \<not> newer r h"
  by (auto simp: newer_def)

lemma ev_keys_logged:
  assumes "sorted (map ev_rev xs)" "logged H (set xs)"
  shows "\<forall>(k, r) \<in> set (ev_keys [] xs). \<exists>h \<in> set (H k). vrev h = r"
proof (rule ballI, rule case_prodI2)
  fix kr k r assume "kr \<in> set (ev_keys [] xs)" "kr = (k, r)"
  then have "map_of (ev_keys [] xs) k = Some r" by (simp add: map_of_is_SomeI [OF distinct_ev_keys])
  from ev_keys_Some [OF assms(1) this] obtain x where "x \<in> set xs" "ev_key x = k" "ev_rev x = r" by blast
  with assms(2) show "\<exists>h \<in> set (H k). vrev h = r" by (auto simp: logged_def)
qed

lemma trim_all_facts:
  assumes ok: "hist_ok H" and lg: "logged H (set (pre @ post))" and srt: "sorted (map ev_rev (pre @ post))"
    and lo: "\<forall>x \<in> set pre. upper (ev_rev x) < mx"
  shows "\<forall>(k, r) \<in> set (ev_keys [] pre). \<exists>h \<in> set (H k). vrev h = r"
    and "logged (trim_all pre H) (set post)" and "same_from mx H (trim_all pre H)"
    and "\<forall>x \<in> set pre. \<forall>h \<in> set (trim_all pre H (ev_key x)). ev_rev x \<le> vrev h"
proof -
  have sp: "sorted (map ev_rev pre)" and le: "x \<in> set pre \<Longrightarrow> y \<in> set post \<Longrightarrow> ev_rev x \<le> ev_rev y" for x y
    using srt by (auto simp: sorted_append)
  have lgd: "\<exists>h \<in> set (H (ev_key x)). vrev h = ev_rev x" if "x \<in> set pre \<or> x \<in> set post" for x
    using lg that by (auto simp: logged_def)
  have rec: "\<exists>x \<in> set pre. ev_key x = k \<and> ev_rev x = r" "\<forall>x \<in> set pre. ev_key x = k \<longrightarrow> ev_rev x \<le> r"
    if "map_of (ev_keys [] pre) k = Some r" for k r using ev_keys_Some [OF sp that] by auto
  show "\<forall>(k, r) \<in> set (ev_keys [] pre). \<exists>h \<in> set (H k). vrev h = r"
    by (rule ev_keys_logged [OF sp]) (use lg in \<open>simp add: logged_def\<close>)
  show "logged (trim_all pre H) (set post)"
    unfolding logged_def
  proof
    fix y assume y: "y \<in> set post"
    then obtain h where h: "h \<in> set (H (ev_key y))" "vrev h = ev_rev y" using lgd by blast
    have "h \<in> set (trim_all pre H (ev_key y))"
    proof (cases "map_of (ev_keys [] pre) (ev_key y)")
      case (Some r)
      from rec(1) [OF Some] obtain x where x: "x \<in> set pre" "ev_rev x = r" by blast
      with le [OF x(1) y] h Some show ?thesis by (auto simp: trim_all_def trim_def)
    qed (simp add: trim_all_def h)
    with h(2) show "\<exists>h \<in> set (trim_all pre H (ev_key y)). vrev h = ev_rev y" by blast
  qed
  show "same_from mx H (trim_all pre H)"
    unfolding same_from_def
  proof (intro conjI allI impI)
    show "take 1 (trim_all pre H k) = take 1 (H k)" for k
    proof (cases "map_of (ev_keys [] pre) k")
      case (Some r0)
      from rec(1) [OF Some] lgd obtain h where "h \<in> set (H k)" "vrev h = r0" by blast
      from trim_newest [OF _ this] hist_okD(3) [OF ok, of k] Some show ?thesis by (simp add: trim_all_def desc_def)
    qed (simp add: trim_all_def)
  next
    fix k r assume r: "r = 0 \<or> mx \<le> r"
    show "spec_at r (trim_all pre H k) = spec_at r (H k)"
    proof (cases "map_of (ev_keys [] pre) k")
      case (Some r0)
      from rec(1) [OF Some] obtain x where x: "x \<in> set pre" "ev_key x = k" "ev_rev x = r0" by blast
      with lgd obtain h where h: "h \<in> set (H k)" "vrev h = r0" by blast
      have "\<not> newer r h" using not_newer_old [OF _ r] lo x h by metis
      from trim_spec_at [OF _ h this] hist_okD(3) [OF ok, of k] Some show ?thesis by (simp add: trim_all_def desc_def)
    qed (simp add: trim_all_def)
  qed
  show "\<forall>x \<in> set pre. \<forall>h \<in> set (trim_all pre H (ev_key x)). ev_rev x \<le> vrev h"
  proof (intro ballI)
    fix x h assume x: "x \<in> set pre" and h: "h \<in> set (trim_all pre H (ev_key x))"
    from x have "map_of (ev_keys [] pre) (ev_key x) \<noteq> None" by (auto simp: ev_keys_None)
    then obtain r where r: "map_of (ev_keys [] pre) (ev_key x) = Some r" by blast
    with rec(2) [OF r] x h show "ev_rev x \<le> vrev h" by (auto simp: trim_all_def trim_def)
  qed
qed

lemma sorted_events: "ssorted (map evt_entry xs) \<Longrightarrow> sorted (map ev_rev xs)"
proof (induction xs)
  case (Cons x xs)
  have "ev_rev x \<le> ev_rev y" if "y \<in> set xs" for y
  proof -
    have "evt_entry x < evt_entry y" using Cons.prems that by simp
    then have "fst (evt_entry x) \<le> fst (evt_entry y)" by (cases "evt_entry x"; cases "evt_entry y") auto
    then show ?thesis by (simp add: be64_le)
  qed
  then show ?case using Cons by simp
qed simp

lemma trim_all_sub: "set (trim_all xs H k) \<subseteq> set (H k)"
  by (auto simp: trim_all_def trim_def split: option.splits)

lemma same_from_trans: "same_from mx H H1 \<Longrightarrow> same_from mx H1 H2 \<Longrightarrow> same_from mx H H2"
  by (simp add: same_from_def)

context lmdb
begin

text \<open>One round: a batch of events, then the records of its keys.\<close>

lemma compact_round:
  assumes rel: "kv_rel env view t H" and ev: "view t DBI_event = map evt_entry xs" and on: "on_event xs st"
    and ks: "cs_keys st = []" and last: "cs_last st < mx" and lg: "logged H (set xs)"
    and ex: "\<exists>x \<in> set xs. mx \<le> upper (ev_rev x)" and mx: "0 < mx"
  shows "\<exists>pre post t2 st1 dn. xs = pre @ post \<and> dn = (mx \<le> upper (ev_rev (hd post))) \<and> (\<not> dn \<longrightarrow> pre \<noteq> []) \<and>
    compact_loop L (Suc n) mx t st = (if dn then Inr (t2, cs_last st1) else compact_loop L n mx t2 (st1\<lparr>cs_err := None, cs_keys := []\<rparr>)) \<and>
    kv_rel env view t2 (trim_all pre H) \<and> view t2 DBI_event = map evt_entry post \<and>
    on_event post (st1\<lparr>cs_err := None, cs_keys := []\<rparr>) \<and> cs_last st1 < mx \<and> (\<forall>x \<in> set pre. upper (ev_rev x) < mx) \<and>
    (\<forall>d. d \<notin> {DBI_revision, DBI_value, DBI_event} \<longrightarrow> view t2 d = view t d)"
proof -
  have fuel: "length xs < Suc (Suc (mdb_Entries L t DBI_event))" by (simp add: Entries ev)
  from compact_events_spec [OF ev on ex mx fuel] obtain pre post t1 st1 dn where
    e: "compact_events L (Suc (Suc (mdb_Entries L t DBI_event))) mx t st = Inr (t1, st1, dn)" "xs = pre @ post"
      "view t1 DBI_event = map evt_entry post" "on_event post st1" "cs_keys st1 = ev_keys [] pre"
      "\<forall>x \<in> set pre. upper (ev_rev x) < mx" "dn = (mx \<le> upper (ev_rev (hd post)))"
      "\<not> dn \<longrightarrow> limitCompactionMaxKeys \<le> length (cs_keys st1)" "cs_last st1 < mx"
      "\<forall>d. d \<noteq> DBI_event \<longrightarrow> view t1 d = view t d" using last unfolding ks by blast
  have "ssorted (map evt_entry xs)" using view_sorted [of t DBI_event] unfolding ev .
  then have srt: "sorted (map ev_rev (pre @ post))" unfolding e(2) [symmetric] by (rule sorted_events)
  have lg': "logged H (set (pre @ post))" using lg e(2) by simp
  note facts = trim_all_facts [OF kv_relD(1) [OF rel] lg' srt e(6)]
  have rel1: "kv_rel env view t1 H" using rel e(10) by (simp add: kv_rel_def)
  from compact_keys_spec [OF rel1 distinct_ev_keys facts(1), of "cs_err st1"] obtain t2 err where
    k: "compact_keys L (ev_keys [] pre) t1 (cs_err st1) = Inr (t2, err)" "err = cs_err st1 \<or> err = Some ErrMdbNotFound"
      "kv_rel env view t2 (trim_all pre H)" "\<forall>d. d \<notin> {DBI_revision, DBI_value} \<longrightarrow> view t2 d = view t1 d"
    unfolding trim_all_def by blast
  have "cs_err st1 = None" using e(4) by (auto simp: on_event_def split: list.splits)
  then have err: "clearNotFound err = None" using k(2) by (auto simp: clearNotFound_def)
  have "pre \<noteq> []" if "\<not> dn" using e(5,8) that by (auto simp: ev_keys_def limitCompactionMaxKeys_def)
  moreover have "on_event post (st1\<lparr>cs_err := None, cs_keys := []\<rparr>)"
    using e(4) by (auto simp: on_event_def split: list.splits)
  moreover have "compact_loop L (Suc n) mx t st =
      (if dn then Inr (t2, cs_last st1) else compact_loop L n mx t2 (st1\<lparr>cs_err := None, cs_keys := []\<rparr>))"
    using e(1,5) k(1) err by simp
  moreover have "view t2 DBI_event = map evt_entry post" using k(4) e(3) by simp
  moreover have "\<forall>d. d \<notin> {DBI_revision, DBI_value, DBI_event} \<longrightarrow> view t2 d = view t d" using k(4) e(10) by simp
  ultimately show ?thesis using e(2,6,7,9) k(3) by blast
qed

lemma compact_loop_spec:
  assumes "kv_rel env view t H" "view t DBI_event = map evt_entry xs" "on_event xs st" "cs_keys st = []" "cs_last st < mx"
    and "logged H (set xs)" "\<exists>x \<in> set xs. mx \<le> upper (ev_rev x)" "0 < mx" "length xs < n"
  shows "\<exists>t' lst H'. compact_loop L n mx t st = Inr (t', lst) \<and> lst < mx \<and> kv_rel env view t' H' \<and>
    ev_rel view t' {x \<in> set xs. mx \<le> upper (ev_rev x)} \<and> logged H' {x \<in> set xs. mx \<le> upper (ev_rev x)} \<and>
    same_from mx H H' \<and> (\<forall>k. set (H' k) \<subseteq> set (H k)) \<and>
    (\<forall>x \<in> set xs. upper (ev_rev x) < mx \<longrightarrow> (\<forall>h \<in> set (H' (ev_key x)). ev_rev x \<le> vrev h)) \<and>
    (\<forall>d. d \<notin> {DBI_revision, DBI_value, DBI_event} \<longrightarrow> view t' d = view t d)"
  using assms
proof (induction n arbitrary: t H xs st)
  case (Suc n)
  from compact_round [OF Suc.prems(1-8), of n] obtain pre post t2 st1 dn where
    r: "xs = pre @ post" "dn = (mx \<le> upper (ev_rev (hd post)))" "\<not> dn \<longrightarrow> pre \<noteq> []"
      "compact_loop L (Suc n) mx t st = (if dn then Inr (t2, cs_last st1) else compact_loop L n mx t2 (st1\<lparr>cs_err := None, cs_keys := []\<rparr>))"
      "kv_rel env view t2 (trim_all pre H)" "view t2 DBI_event = map evt_entry post"
      "on_event post (st1\<lparr>cs_err := None, cs_keys := []\<rparr>)" "cs_last st1 < mx" "\<forall>x \<in> set pre. upper (ev_rev x) < mx"
      "\<forall>d. d \<notin> {DBI_revision, DBI_value, DBI_event} \<longrightarrow> view t2 d = view t d" by blast
  have "ssorted (map evt_entry xs)" using view_sorted [of t DBI_event] unfolding Suc.prems(2) .
  then have srt: "sorted (map ev_rev (pre @ post))" unfolding r(1) [symmetric] by (rule sorted_events)
  have lg: "logged H (set (pre @ post))" using Suc.prems(6) r(1) by simp
  note facts = trim_all_facts [OF kv_relD(1) [OF Suc.prems(1)] lg srt r(9)]
  have pne: "post \<noteq> []" using r(7) by (auto simp: on_event_def)
  have split: "{x \<in> set xs. mx \<le> upper (ev_rev x)} = {x \<in> set post. mx \<le> upper (ev_rev x)}"
    using r(1,9) by (auto simp: not_le)
  show ?case
  proof (cases dn)
    case True
    have "mx \<le> upper (ev_rev x)" if "x \<in> set post" for x
    proof -
      have "ev_rev (hd post) \<le> ev_rev x" using srt that pne by (cases post) (auto simp: sorted_append)
      from order_trans [OF True [unfolded r(2)] upper_mono [OF this]] show ?thesis .
    qed
    then have S: "{x \<in> set xs. mx \<le> upper (ev_rev x)} = set post" unfolding split by blast
    have low: "\<forall>x \<in> set xs. upper (ev_rev x) < mx \<longrightarrow> (\<forall>h \<in> set (trim_all pre H (ev_key x)). ev_rev x \<le> vrev h)"
      using facts(4) S r(1) by (auto simp: not_le [symmetric])
    have "ev_rel view t2 (set post)" using r(6) by (simp add: ev_rel_def)
    moreover have "compact_loop L (Suc n) mx t st = Inr (t2, cs_last st1)" using True r(4) by simp
    moreover have "\<forall>k. set (trim_all pre H k) \<subseteq> set (H k)" using trim_all_sub by blast
    ultimately show ?thesis unfolding S using r(5,8,10) facts(2,3) low by blast
  next
    case False
    have ex: "\<exists>x \<in> set post. mx \<le> upper (ev_rev x)" using Suc.prems(7) r(1,9) by (auto simp: not_le [symmetric])
    have len: "length post < n" using Suc.prems(9) r(1,3) False by (cases pre) auto
    from Suc.IH [OF r(5,6,7) _ _ facts(2) ex Suc.prems(8) len] r(8) obtain t' lst H' where
      l: "compact_loop L n mx t2 (st1\<lparr>cs_err := None, cs_keys := []\<rparr>) = Inr (t', lst)" "lst < mx" "kv_rel env view t' H'"
        "ev_rel view t' {x \<in> set post. mx \<le> upper (ev_rev x)}" "logged H' {x \<in> set post. mx \<le> upper (ev_rev x)}"
        "same_from mx (trim_all pre H) H'" "\<forall>k. set (H' k) \<subseteq> set (trim_all pre H k)"
        "\<forall>x \<in> set post. upper (ev_rev x) < mx \<longrightarrow> (\<forall>h \<in> set (H' (ev_key x)). ev_rev x \<le> vrev h)"
        "\<forall>d. d \<notin> {DBI_revision, DBI_value, DBI_event} \<longrightarrow> view t' d = view t2 d" by auto
    have low: "\<forall>x \<in> set xs. upper (ev_rev x) < mx \<longrightarrow> (\<forall>h \<in> set (H' (ev_key x)). ev_rev x \<le> vrev h)"
    proof (intro ballI impI)
      fix x h assume x: "x \<in> set xs" "upper (ev_rev x) < mx" and h: "h \<in> set (H' (ev_key x))"
      from x(1) r(1) consider "x \<in> set pre" | "x \<in> set post" by auto
      then show "ev_rev x \<le> vrev h"
      proof cases
        case 1
        have "h \<in> set (trim_all pre H (ev_key x))" using l(7) h by blast
        with facts(4) 1 show ?thesis by blast
      qed (use l(8) x(2) h in blast)
    qed
    have sub: "\<forall>k. set (H' k) \<subseteq> set (H k)" using l(7) trim_all_sub [of pre H] by (meson order_trans)
    have frame: "\<forall>d. d \<notin> {DBI_revision, DBI_value, DBI_event} \<longrightarrow> view t' d = view t d" using l(9) r(10) by simp
    have run: "compact_loop L (Suc n) mx t st = Inr (t', lst)" using r(4) False l(1) by simp
    show ?thesis unfolding split
      using run l(2,3,4,5) same_from_trans [OF facts(3) l(6)] sub low frame by blast
  qed
qed simp

lemma compact_start:
  assumes ev: "ev_rel view t E" and ne: "E \<noteq> {}"
  shows "\<exists>xs st. view t DBI_event = map evt_entry xs \<and> set xs = E \<and> distinct xs \<and> on_event xs st \<and> cs_keys st = [] \<and> cs_last st = 0 \<and>
    dbKv_compact L t mx = compact_loop L (Suc (Suc (mdb_Entries L t DBI_event))) mx t st"
proof -
  from ev have "\<forall>e \<in> set (view t DBI_event). \<exists>x. e = evt_entry x" by (auto simp: ev_rel_def)
  then obtain xs where xs: "view t DBI_event = map evt_entry xs" by (metis ex_map_conv)
  have E: "set xs = E" using ev xs inj_image_eq_iff [of evt_entry "set xs" E] by (simp add: ev_rel_def inj_def)
  have d: "distinct xs" using view_distinct [of t DBI_event] unfolding xs by (simp add: distinct_map)
  from ne E obtain x ys where x: "xs = x # ys" by (cases xs) auto
  obtain r ep k where rx: "x = (r, ep, k)" by (rule prod_cases3)
  have nx: "cur_Next L t DBI_event None = Inr (be64 r, event_bytes r ep k)"
    using xs x rx by (simp add: Next first_entry_def evt_entry_def)
  let ?st = "\<lparr>cs_k = be64 r, cs_v = event_bytes r ep k, cs_err = None, cs_rev = r, cs_keys = [], cs_last = 0\<rparr>"
  have run: "dbKv_compact L t mx = compact_loop L (Suc (Suc (mdb_Entries L t DBI_event))) mx t ?st"
    using nx FromKey_entry [of 0 r ep k] by (simp add: dbKv_compact_def OpenCursor del: compact_loop.simps)
  have "on_event xs ?st" using x rx by (simp add: on_event_def evt_entry_def)
  with xs E d run show ?thesis by (intro exI [of _ xs] exI [of _ ?st]) simp
qed

lemma compact_spec:
  assumes rel: "kv_rel env view t H" and ev: "ev_rel view t E" and lg: "logged H E"
    and ex: "\<exists>x \<in> E. mx \<le> upper (ev_rev x)" and mx: "0 < mx"
  shows "\<exists>t' lst H'. dbKv_compact L t mx = Inr (t', lst) \<and> lst < mx \<and> kv_rel env view t' H' \<and>
    ev_rel view t' {x \<in> E. mx \<le> upper (ev_rev x)} \<and> logged H' {x \<in> E. mx \<le> upper (ev_rev x)} \<and>
    same_from mx H H' \<and> (\<forall>k. set (H' k) \<subseteq> set (H k)) \<and>
    (\<forall>x \<in> E. upper (ev_rev x) < mx \<longrightarrow> (\<forall>h \<in> set (H' (ev_key x)). ev_rev x \<le> vrev h)) \<and>
    (\<forall>d. d \<notin> {DBI_revision, DBI_value, DBI_event} \<longrightarrow> view t' d = view t d)"
proof -
  have "E \<noteq> {}" using ex by auto
  from compact_start [OF ev this, of mx] obtain xs st where
    s: "view t DBI_event = map evt_entry xs" "set xs = E" "distinct xs" "on_event xs st" "cs_keys st = []" "cs_last st = 0"
      "dbKv_compact L t mx = compact_loop L (Suc (Suc (mdb_Entries L t DBI_event))) mx t st" by blast
  have fuel: "length xs < Suc (Suc (mdb_Entries L t DBI_event))" using s(1) by (simp add: Entries)
  from compact_loop_spec [OF rel s(1,4,5) _ _ _ mx fuel] mx lg ex show ?thesis unfolding s(7,2,6) by simp
qed

text \<open>A compaction revision after the last event: the log is consumed, and the next round reads it
  past its end.\<close>

lemma compact_beyond_spec:
  assumes rel: "kv_rel env view t H" and ev: "ev_rel view t E" and lg: "logged H E" and ne: "E \<noteq> {}"
    and hi: "\<forall>x \<in> E. \<not> (0 < mx \<and> mx \<le> upper (ev_rev x))" and card: "card E \<le> limitCompactionMaxKeys"
  shows "dbKv_compact L t mx = Inl ErrChecksumInvalid"
proof -
  from compact_start [OF ev ne, of mx] obtain xs st where
    s: "view t DBI_event = map evt_entry xs" "set xs = E" "distinct xs" "on_event xs st" "cs_keys st = []"
      "dbKv_compact L t mx = compact_loop L (Suc (Suc (mdb_Entries L t DBI_event))) mx t st" by blast
  have at: "at_event xs st" and xne: "xs \<noteq> []" using s(4) by (auto simp: at_event_def on_event_def split: list.splits)
  have len: "length (cs_keys st) + length xs \<le> limitCompactionMaxKeys"
    using card s(5) distinct_card [OF s(3)] s(2) by simp
  have fuel: "length xs < Suc (Suc (mdb_Entries L t DBI_event))" using s(1) by (simp add: Entries)
  from compact_events_all [OF s(1) at _ len fuel, of mx] hi s(2) xne obtain t1 st1 where
    e: "compact_events L (Suc (Suc (mdb_Entries L t DBI_event))) mx t st = Inr (t1, st1, False)" "cs_k st1 = []" "cs_v st1 = []"
      "cs_err st1 = Some ErrMdbNotFound" "\<not> (0 < mx \<and> mx \<le> upper (cs_rev st1))" "cs_keys st1 = ev_keys [] xs"
      "\<forall>d. d \<noteq> DBI_event \<longrightarrow> view t1 d = view t d" unfolding s(5) by auto
  have srt: "sorted (map ev_rev xs)" using sorted_events view_sorted [of t DBI_event] unfolding s(1) .
  have rel1: "kv_rel env view t1 H" using rel e(7) by (simp add: kv_rel_def)
  have "\<forall>(k, r) \<in> set (ev_keys [] xs). \<exists>h \<in> set (H k). vrev h = r"
    by (rule ev_keys_logged [OF srt]) (use lg s(2) in simp)
  from compact_keys_spec [OF rel1 distinct_ev_keys this, of "cs_err st1"] obtain t2 err where
    k: "compact_keys L (ev_keys [] xs) t1 (cs_err st1) = Inr (t2, err)" "err = Some ErrMdbNotFound" unfolding e(4) by auto
  have "trimChecksum [] [] = Inl ErrChecksumInvalid" by (simp add: trimChecksum_def)
  then have "compact_events L (Suc n) mx t2 (st1\<lparr>cs_err := None, cs_keys := []\<rparr>) = Inl ErrChecksumInvalid" for n
    using e(2,3,5) by (simp add: limitCompactionMaxKeys_def)
  then show ?thesis unfolding s(6) using e(1,6) k by (simp add: clearNotFound_def)
qed

end

section \<open>Properties\<close>

text \<open>C19: compaction keeps every read it promises to keep. With at least one event at or after the
  compaction revision \<open>mx\<close>, \<open>compact\<close> ends without an error; a read of any key at the latest revision, or at a
  revision from \<open>mx\<close> on, returns what it returned before, and the scan of the events from \<open>mx\<close> on as well.\<close>

theorem compact_keeps_reads:
  assumes "lmdb L view" "env_ok env" "kv_rel env view t H" "ev_rel view t E" "logged H E"
    and "\<exists>x \<in> E. mx \<le> upper (fst x)" "0 < mx" "r = 0 \<or> mx \<le> r" "k \<noteq> []"
  shows "\<exists>t' lst. dbKv_compact L t mx = Inr (t', lst) \<and> lst < mx \<and>
    (\<exists>old prev new prev'. dbKv_getRev env L t k r False = Inr (old, prev, None) \<and>
       dbKv_getRev env L t' k r False = Inr (new, prev', None) \<and> plain new = plain old) \<and>
    ev_rel view t' {x \<in> E. mx \<le> upper (fst x)}"
proof -
  from lmdb.compact_spec [OF assms(1,3-7)] obtain t' lst H' where
    c: "dbKv_compact L t mx = Inr (t', lst)" "lst < mx" "kv_rel env view t' H'"
      "ev_rel view t' {x \<in> E. mx \<le> upper (fst x)}" "same_from mx H H'" by blast
  have same: "spec_at r (H' k) = spec_at r (H k)" using c(5) assms(8) by (auto simp: same_from_def)
  from lmdb.getRev_spec [OF assms(1-3,9), of r False] obtain old prev where
    o: "dbKv_getRev env L t k r False = Inr (old, prev, None)" "plain old = spec_at r (H k)" by blast
  from lmdb.getRev_spec [OF assms(1,2) c(3) assms(9), of r False] obtain new prev' where
    n: "dbKv_getRev env L t' k r False = Inr (new, prev', None)" "plain new = spec_at r (H k)" unfolding same by blast
  have "plain new = plain old" using o(2) n(2) by simp
  then show ?thesis using c(1,2,4) o(1) n(1) by blast
qed

text \<open>C28: compaction reclaims what is superseded. Afterwards the store relates to a history whose
  versions are all versions it had before, in which no key has a version older than any of its
  compacted events, and every event that is left is that of a stored version.\<close>

theorem compact_reclaims:
  assumes "lmdb L view" "kv_rel env view t H" "ev_rel view t E" "logged H E"
    and "\<exists>x \<in> E. mx \<le> upper (fst x)" "0 < mx"
  shows "\<exists>t' lst H'. dbKv_compact L t mx = Inr (t', lst) \<and> kv_rel env view t' H' \<and>
    (\<forall>k. set (H' k) \<subseteq> set (H k)) \<and>
    (\<forall>x \<in> E. upper (fst x) < mx \<longrightarrow> (\<forall>h \<in> set (H' (snd (snd x))). fst x \<le> vrev h)) \<and>
    logged H' {x \<in> E. mx \<le> upper (fst x)} \<and>
    (\<forall>d. d \<notin> {DBI_revision, DBI_value, DBI_event} \<longrightarrow> view t' d = view t d)"
  using lmdb.compact_spec [OF assms] by blast

lemma one_key_logged: "logged one_key {(newkeyrev 2 0 False, 1, [97, 98])}"
  by (simp add: logged_def)

theorem compact_keeps_reads_witness:
  "\<exists>t out t' lst. dbKv_put plain_env mem_lmdb mem_empty 2 0 0 1 [97, 98] (Some [1]) False False = Inr (t, out) \<and>
     dbKv_compact mem_lmdb t 2 = Inr (t', lst) \<and> lst < 2 \<and>
     (\<exists>new prev'. dbKv_getRev plain_env mem_lmdb t' [97, 98] 0 False = Inr (new, prev', None))"
proof -
  from one_key_events obtain t out where
    t: "dbKv_put plain_env mem_lmdb mem_empty 2 0 0 1 [97, 98] (Some [1]) False False = Inr (t, out)"
      "kv_rel plain_env mem_view t one_key" "ev_rel mem_view t {(newkeyrev 2 0 False, 1, [97, 98])}" by blast
  from compact_keeps_reads [OF mem.lmdb_axioms env_ok_plain t(2,3) one_key_logged, of 2 0 "[97, 98]"] t(1) show ?thesis
    by auto
qed

theorem compact_reclaims_witness:
  "\<exists>t out t' lst H'. dbKv_put plain_env mem_lmdb mem_empty 2 0 0 1 [97, 98] (Some [1]) False False = Inr (t, out) \<and>
     dbKv_compact mem_lmdb t 2 = Inr (t', lst) \<and> kv_rel plain_env mem_view t' H' \<and> set (H' [97, 98]) \<subseteq> set (one_key [97, 98])"
proof -
  from one_key_events obtain t out where
    t: "dbKv_put plain_env mem_lmdb mem_empty 2 0 0 1 [97, 98] (Some [1]) False False = Inr (t, out)"
      "kv_rel plain_env mem_view t one_key" "ev_rel mem_view t {(newkeyrev 2 0 False, 1, [97, 98])}" by blast
  have p: "\<exists>x \<in> {(newkeyrev 2 0 False, 1 :: u64, [97, 98 :: byte])}. 2 \<le> upper (fst x)" "(0 :: u64) < 2" by simp_all
  from compact_reclaims [OF mem.lmdb_axioms t(2,3) one_key_logged p] t(1) show ?thesis by blast
qed

text \<open>Compaction of a store without events fails: \<open>FromKey\<close> finds no checksum in the nil value of the
  empty log, and \<open>Update\<close> panics on the error.\<close>

theorem compact_empty_log:
  assumes "lmdb L view" "view t DBI_event = []"
  shows "dbKv_compact L t mx = Inl ErrChecksumMissing"
  using assms lmdb.Next [OF assms(1), of t DBI_event None] lmdb.OpenCursor [OF assms(1)]
  by (simp add: dbKv_compact_def first_entry_def keyrev_FromKey_def checkSum_def)

theorem compact_empty_log_witness: "dbKv_compact mem_lmdb mem_empty 5 = Inl ErrChecksumMissing"
  by (rule compact_empty_log [OF mem.lmdb_axioms]) simp

text \<open>Compaction at a revision after the last event of the log fails, and so does compaction at
  revision 0, whenever the log is not empty (and has at most one batch of events): the whole log is
  consumed, the next round reads past its end and finds no checksum. \<open>Update\<close> panics on the error; no
  check of the requested revision comes before it.\<close>

theorem compact_beyond_log:
  assumes "lmdb L view" "kv_rel env view t H" "ev_rel view t E" "logged H E" "E \<noteq> {}"
    and "mx = 0 \<or> (\<forall>x \<in> E. upper (fst x) < mx)" "card E \<le> limitCompactionMaxKeys"
  shows "dbKv_compact L t mx = Inl ErrChecksumInvalid"
  by (rule lmdb.compact_beyond_spec [OF assms(1-5) _ assms(7)]) (use assms(6) in \<open>auto simp: not_le\<close>)

theorem compact_beyond_log_witness:
  "\<exists>t out. dbKv_put plain_env mem_lmdb mem_empty 2 0 0 1 [97, 98] (Some [1]) False False = Inr (t, out) \<and>
     dbKv_compact mem_lmdb t 3 = Inl ErrChecksumInvalid"
proof -
  from one_key_events obtain t out where
    t: "dbKv_put plain_env mem_lmdb mem_empty 2 0 0 1 [97, 98] (Some [1]) False False = Inr (t, out)"
      "kv_rel plain_env mem_view t one_key" "ev_rel mem_view t {(newkeyrev 2 0 False, 1, [97, 98])}" by blast
  from compact_beyond_log [OF mem.lmdb_axioms t(2,3) one_key_logged, of 3] t(1) show ?thesis
    by (auto simp: limitCompactionMaxKeys_def)
qed

end
