(* ===== verification/Mvcc_Reach.thy ===== *)
theory Mvcc_Reach
  imports Mvcc_Range Mvcc_Compact
begin

text \<open>
  The stores the commands can produce. \<open>kv_reach\<close> is the closure of the empty store under the writing
  operations of \<open>src/db_kv.go\<close> and under changes of the other databases; its index \<open>b\<close> bounds the
  revisions used so far. Every such store satisfies the invariant \<open>kv_inv\<close>, by rule induction, so no read
  of it fails.
\<close>

declare split_paired_Ex [simp del] split_paired_All [simp del]

inductive kv_reach :: "'x env_scheme \<Rightarrow> 't lmdb \<Rightarrow> ('t \<Rightarrow> dbi \<Rightarrow> entry list) \<Rightarrow> 't \<Rightarrow> keyrev \<Rightarrow> bool"
  for env L view where
  reach_init: "view t DBI_revision = [] \<Longrightarrow> view t DBI_value = [] \<Longrightarrow> view t DBI_event = [] \<Longrightarrow> kv_reach env L view t 0"
| reach_put: "kv_reach env L view t b \<Longrightarrow> dbKv_put env L t rv subrev lease epoch k val iv il = Inr (t', out) \<Longrightarrow>
    rev_fits rv subrev \<Longrightarrow> rv \<noteq> 0 \<Longrightarrow> b < newkeyrev rv subrev False \<Longrightarrow> 2 \<le> length k \<Longrightarrow> length (sl val) < 2 ^ 62 \<Longrightarrow>
    \<not> (iv \<and> val \<noteq> None) \<Longrightarrow> kv_reach env L view t' (newkeyrev rv subrev False)"
| reach_delete: "kv_reach env L view t b \<Longrightarrow> dbKv_deleteRange env L t rv subrev epoch key fin = Inr (t', items, cnt) \<Longrightarrow>
    rev_fits rv subrev \<Longrightarrow> upper b < rv \<Longrightarrow> key \<noteq> [] \<Longrightarrow> kv_reach env L view t' (newkeyrev rv subrev True)"
| reach_compact: "kv_reach env L view t b \<Longrightarrow> dbKv_compact L t mx = Inr (t', lst) \<Longrightarrow>
    0 < mx \<Longrightarrow> unat mx < 2 ^ 52 \<Longrightarrow> \<exists>e \<in> set (view t DBI_event). be64 (push_bit 12 mx) \<le> fst e \<Longrightarrow> kv_reach env L view t' b"
| reach_frame: "kv_reach env L view t b \<Longrightarrow> view t' DBI_revision = view t DBI_revision \<Longrightarrow>
    view t' DBI_value = view t DBI_value \<Longrightarrow> view t' DBI_event = view t DBI_event \<Longrightarrow> kv_reach env L view t' b"

section \<open>The invariant\<close>

definition kv_inv :: "'x env_scheme \<Rightarrow> ('t \<Rightarrow> dbi \<Rightarrow> entry list) \<Rightarrow> 't \<Rightarrow> keyrev \<Rightarrow> history \<Rightarrow> event set \<Rightarrow> bool" where
  "kv_inv env view t b H E \<longleftrightarrow> kv_rel env view t H \<and> ev_rel view t E \<and> logged H E \<and>
     (\<forall>k. \<forall>h \<in> set (H k). vrev h \<le> b) \<and> (\<forall>x \<in> E. fst x \<le> b)"

lemma kv_invD:
  assumes "kv_inv env view t b H E"
  shows "kv_rel env view t H" "ev_rel view t E" "logged H E" "h \<in> set (H k) \<Longrightarrow> vrev h \<le> b" "x \<in> E \<Longrightarrow> fst x \<le> b"
  using assms by (auto simp: kv_inv_def)

lemma inv_frame:
  assumes "view t' DBI_revision = view t DBI_revision" "view t' DBI_value = view t DBI_value" "view t' DBI_event = view t DBI_event"
  shows "kv_inv env view t' b H E \<longleftrightarrow> kv_inv env view t b H E"
  unfolding kv_inv_def kv_rel_def ev_rel_def assms ..

lemma inv_weaken: "kv_inv env view t b H E \<Longrightarrow> b \<le> b' \<Longrightarrow> kv_inv env view t b' H E"
  unfolding kv_inv_def by (meson order_trans)

lemma upper_less_newkeyrev: "rev_fits rv subrev \<Longrightarrow> upper b < rv \<Longrightarrow> b < newkeyrev rv subrev d"
  using upper_mono [of "newkeyrev rv subrev d" b] upper_newkeyrev [of rv subrev d] by (auto simp: not_less [symmetric])

lemma word_gt_0_if: "a < b \<Longrightarrow> (b :: u64) \<noteq> 0"
  by auto

context lmdb
begin

text \<open>A put that succeeds was not a second write of the key at its revision.\<close>

lemma put_dup:
  assumes rel: "kv_rel env view t H" and key: "2 \<le> length k" "length k \<le> PCB_LIMIT_KEY_LENGTH" and no: "\<not> put_ok env rv (H k)"
  shows "dbKv_put env L t rv subrev lease epoch k val iv il = Inl ErrGRPCDuplicateKey"
proof -
  have k: "k \<noteq> []" using key by auto
  from no obtain h hs where h: "H k = h # hs" "\<not> isdel (vrev h)" "upper (vrev h) = rv" "\<not> PCB_TXN_MULTI_WRITE_ENABLED env"
    by (cases "H k") (auto simp: put_ok_def)
  from current_spec [OF rel k] h obtain krec where krec: "dbKv_current L t k = Inr krec" "krec_rev krec = vrev h" by auto
  have "vrev h \<noteq> 0" using hist_okD(2) [OF kv_relD(1) [OF rel], of h k] h by (simp add: ver_ok_def)
  then show ?thesis using key k krec h by (simp add: dbKv_put_def OpenCursor)
qed

lemma put_too_long: "PCB_LIMIT_KEY_LENGTH < length k \<Longrightarrow> dbKv_put env L t rv subrev lease epoch k val iv il = Inl ErrGRPCKeyTooLong"
  by (auto simp: dbKv_put_def PCB_LIMIT_KEY_LENGTH_def)

lemma inv_put:
  assumes env: "env_ok env" and inv: "kv_inv env view t b H E"
    and run: "dbKv_put env L t rv subrev lease epoch k val iv il = Inr (t', out)"
    and a: "rev_fits rv subrev" "rv \<noteq> 0" "b < newkeyrev rv subrev False" "2 \<le> length k" "length (sl val) < 2 ^ 62" "\<not> (iv \<and> val \<noteq> None)"
  shows "kv_inv env view t' (newkeyrev rv subrev False)
    (add_version k (spec_put rv subrev lease k val iv il (H k), lease) H) (insert (newkeyrev rv subrev False, epoch, k) E)"
proof -
  note i = kv_invD [OF inv]
  let ?r = "newkeyrev rv subrev False" and ?h = "(spec_put rv subrev lease k val iv il (H k), lease)"
  have len: "length k \<le> PCB_LIMIT_KEY_LENGTH" using run put_too_long [of k] by (metis not_le sum.distinct(1))
  have fr: "fresh ?r H" unfolding fresh_def using i(4) a(3) by (meson order_le_less_trans)
  have ok: "put_ok env rv (H k)" using put_dup [OF i(1) a(4) len] run by (metis sum.distinct(1))
  have iv: "iv \<longrightarrow> val = None" using a(6) by blast
  from put_spec [OF env i(1) a(4) len a(1,2) fr ok a(5), of iv lease epoch il] iv run have
    p: "kv_rel env view t' (add_version k ?h H)"
      "set (view t' DBI_event) = insert (be64 ?r, event_bytes ?r epoch k) (set (view t DBI_event))" by auto
  have "ev_rel view t' (insert (?r, epoch, k) E)" using p(2) i(2) by (simp add: ev_rel_def evt_entry_def)
  moreover have "logged (add_version k ?h H) (insert (?r, epoch, k) E)"
    using i(3) spec_put_simps(1) [OF a(1), of lease k val iv il "H k"] by (fastforce simp: logged_def add_version_def)
  moreover have "\<forall>k'. \<forall>h \<in> set (add_version k ?h H k'). vrev h \<le> ?r"
  proof (intro allI ballI)
    fix k' h assume "h \<in> set (add_version k ?h H k')"
    then consider "h = ?h" | "h \<in> set (H k')" by (auto simp: add_version_def split: if_splits)
    then show "vrev h \<le> ?r"
    proof cases
      case 2
      from i(4) [OF this] a(3) show ?thesis by simp
    qed (simp add: spec_put_simps(1) [OF a(1)])
  qed
  moreover have "\<forall>x \<in> insert (?r, epoch, k) E. fst x \<le> ?r" using i(5) less_imp_le [OF a(3)] by (auto intro: order_trans)
  ultimately show ?thesis using p(1) by (simp add: kv_inv_def)
qed

text \<open>Tombstones on top of a set of keys, whatever operation put them.\<close>

lemma inv_tombs:
  assumes inv: "kv_inv env view t b H E" and b: "b < r" and rel: "kv_rel env view t' (delete_keys r D H)"
    and ev: "set (view t' DBI_event) = set (view t DBI_event) \<union> {(be64 r, event_bytes r epoch k) | k. k \<in> D}"
  shows "kv_inv env view t' (if D = {} then b else r) (delete_keys r D H) (E \<union> {(r, epoch, k) | k. k \<in> D})"
proof (cases "D = {}")
  case True
  then show ?thesis using inv rel ev by (simp add: kv_inv_def ev_rel_def)
next
  case False
  note i = kv_invD [OF inv]
  let ?E = "E \<union> {(r, epoch, k) | k. k \<in> D}"
  have "evt_entry ` ?E = set (view t' DBI_event)" unfolding ev
    using i(2) by (simp add: ev_rel_def image_Un setcompr_eq_image image_image) (simp add: evt_entry_def)
  then have "ev_rel view t' ?E" by (simp add: ev_rel_def)
  moreover have "logged (delete_keys r D H) ?E" using i(3) by (fastforce simp: logged_def delete_keys_def)
  moreover have "\<forall>k. \<forall>h \<in> set (delete_keys r D H k). vrev h \<le> r"
  proof (intro allI ballI)
    fix k h assume "h \<in> set (delete_keys r D H k)"
    then consider "h = tomb r" | "h \<in> set (H k)" by (auto simp: delete_keys_def split: if_splits)
    then show "vrev h \<le> r"
    proof cases
      case 2
      from i(4) [OF this] b show ?thesis by simp
    qed simp
  qed
  moreover have "\<forall>x \<in> ?E. fst x \<le> r" using i(5) less_imp_le [OF b] by (auto intro: order_trans)
  ultimately show ?thesis using rel False unfolding kv_inv_def by simp
qed

lemma inv_delete:
  assumes inv: "kv_inv env view t b H E"
    and run: "dbKv_deleteRange env L t rv subrev epoch key fin = Inr (t', items, cnt)"
    and a: "rev_fits rv subrev" "upper b < rv" "key \<noteq> []"
  shows "\<exists>H' E'. kv_inv env view t' (newkeyrev rv subrev True) H' E'"
proof -
  note i = kv_invD [OF inv]
  let ?r = "newkeyrev rv subrev True" and ?ks = "deleted_keys key fin H"
  have b: "b < ?r" by (rule upper_less_newkeyrev [OF a(1,2)])
  have rv: "rv \<noteq> 0" using a(2) by auto
  have ok: "\<forall>k. in_delete key fin k \<longrightarrow> delete_ok env rv subrev (H k)"
  proof (intro allI impI)
    fix k
    have "upper (vrev h) < rv" if "h \<in> set (H k)" for h using upper_mono [OF i(4) [OF that]] a(2) by auto
    moreover have "vrev h < ?r" if "h \<in> set (H k)" for h using i(4) [OF that] b by auto
    ultimately show "delete_ok env rv subrev (H k)" by (cases "H k") (auto simp: delete_ok_def)
  qed
  from deleteRange_spec [OF i(1) a(3,1) rv ok, of epoch] run have
    d: "kv_rel env view t' (delete_keys ?r (set ?ks) H)"
      "set (view t' DBI_event) = set (view t DBI_event) \<union> {(be64 ?r, event_bytes ?r epoch k) | k. k \<in> set ?ks}"
    by (auto simp: Let_def)
  have "(if set ?ks = {} then b else ?r) \<le> ?r" using less_imp_le [OF b] by simp
  from inv_weaken [OF inv_tombs [OF inv b d] this] show ?thesis by blast
qed

lemma inv_compact:
  assumes inv: "kv_inv env view t b H E" and run: "dbKv_compact L t mx = Inr (t', lst)" and mx: "0 < mx" "unat mx < 2 ^ 52"
    and ex: "\<exists>e \<in> set (view t DBI_event). be64 (push_bit 12 mx) \<le> fst e"
  shows "\<exists>H' E'. kv_inv env view t' b H' E'"
proof -
  note i = kv_invD [OF inv]
  from ex i(2) obtain x where "x \<in> E" "push_bit 12 mx \<le> fst x" by (auto simp: ev_rel_def be64_le)
  then have "\<exists>x \<in> E. mx \<le> upper (fst x)" using push_bit_le_upper [OF mx(2)] by blast
  from compact_spec [OF i(1-3) this mx(1)] run obtain H' where
    c: "kv_rel env view t' H'" "ev_rel view t' {x \<in> E. mx \<le> upper (fst x)}" "logged H' {x \<in> E. mx \<le> upper (fst x)}"
      "\<forall>k. set (H' k) \<subseteq> set (H k)" by auto
  then have "kv_inv env view t' b H' {x \<in> E. mx \<le> upper (fst x)}"
    using i(4,5) unfolding kv_inv_def by blast
  then show ?thesis by blast
qed

lemma reach_inv:
  assumes "kv_reach env L view t b" "env_ok env"
  shows "\<exists>H E. kv_inv env view t b H E"
  using assms
proof (induction rule: kv_reach.induct)
  case (reach_init t)
  then have "kv_inv env view t 0 (\<lambda>_. []) {}"
    by (simp add: kv_inv_def kv_rel_def hist_ok_def ev_rel_def logged_def)
  then show ?case by blast
next
  case (reach_put t b rv subrev lease epoch k val iv il t' out)
  then obtain H E where inv: "kv_inv env view t b H E" by blast
  from inv_put [OF reach_put.prems inv reach_put.hyps(2-8)] show ?case by blast
next
  case (reach_delete t b rv subrev epoch key fin t' items cnt)
  then show ?case using inv_delete by blast
next
  case (reach_compact t b mx t' lst)
  then show ?case using inv_compact by blast
next
  case (reach_frame t b t')
  then obtain H E where "kv_inv env view t b H E" by blast
  then have "kv_inv env view t' b H E" using reach_frame.hyps by (simp add: kv_inv_def kv_rel_def ev_rel_def)
  then show ?case by blast
qed

end

section \<open>The store as its clients see it\<close>

text \<open>The contract of a versioned store: writes at growing revisions succeed or fail as a whole, and a
  write never changes what is read at a revision up to the last one used. \<open>ok s b\<close>: \<open>s\<close> is a store in
  which no revision after \<open>b\<close> is used.\<close>

locale versioned_store =
  fixes ok :: "'s \<Rightarrow> keyrev \<Rightarrow> bool" and rd :: "'s \<Rightarrow> bytes \<Rightarrow> u64 \<Rightarrow> kv" and wr :: "'w \<Rightarrow> 's \<Rightarrow> 's result"
    and valid :: "'w \<Rightarrow> bool" and stamp :: "'w \<Rightarrow> keyrev"
  assumes write_ok: "ok s b \<Longrightarrow> valid w \<Longrightarrow> upper b < upper (stamp w) \<Longrightarrow> wr w s = Inr s' \<Longrightarrow> ok s' (stamp w)"
    and write_past: "ok s b \<Longrightarrow> valid w \<Longrightarrow> upper b < upper (stamp w) \<Longrightarrow> wr w s = Inr s' \<Longrightarrow> k \<noteq> [] \<Longrightarrow>
      0 < r \<Longrightarrow> r < upper (stamp w) \<Longrightarrow> rd s' k r = rd s k r"
    and write_total: "ok s b \<Longrightarrow> valid w \<Longrightarrow> upper b < upper (stamp w) \<Longrightarrow> \<exists>s'. wr w s = Inr s'"

primrec run_all :: "('w \<Rightarrow> 's \<Rightarrow> 's result) \<Rightarrow> 'w list \<Rightarrow> 's \<Rightarrow> 's result" where
  "run_all f [] s = Inr s"
| "run_all f (w # ws) s = bindE (f w s) (run_all f ws)"

fun rising :: "('w \<Rightarrow> bool) \<Rightarrow> ('w \<Rightarrow> keyrev) \<Rightarrow> keyrev \<Rightarrow> 'w list \<Rightarrow> bool" where
  "rising valid stamp b [] \<longleftrightarrow> True"
| "rising valid stamp b (w # ws) \<longleftrightarrow> valid w \<and> upper b < upper (stamp w) \<and> rising valid stamp (stamp w) ws"

context versioned_store
begin

text \<open>Any sequence of writes at growing revisions runs to its end, and keeps every read of the past.\<close>

lemma run_all_total:
  "ok s b \<Longrightarrow> rising valid stamp b ws \<Longrightarrow> \<exists>s' b'. run_all wr ws s = Inr s' \<and> ok s' b'"
proof (induction ws arbitrary: s b)
  case (Cons w ws)
  then obtain s1 where s1: "wr w s = Inr s1" using write_total [of s b w] by auto
  with Cons.prems write_ok have "ok s1 (stamp w)" by auto
  with Cons.IH [of s1 "stamp w"] Cons.prems s1 show ?case by simp
qed auto

lemma run_all_past:
  "ok s b \<Longrightarrow> rising valid stamp b ws \<Longrightarrow> run_all wr ws s = Inr s' \<Longrightarrow> k \<noteq> [] \<Longrightarrow> 0 < r \<Longrightarrow> r \<le> upper b \<Longrightarrow>
     rd s' k r = rd s k r"
proof (induction ws arbitrary: s b)
  case (Cons w ws)
  then obtain s1 where s1: "wr w s = Inr s1" "run_all wr ws s1 = Inr s'" by (auto elim: bindE_InrE)
  have up: "upper b < upper (stamp w)" and valid: "valid w" using Cons.prems(2) by auto
  have "rd s' k r = rd s1 k r"
    by (rule Cons.IH [OF write_ok [OF Cons.prems(1) valid up s1(1)] _ s1(2) Cons.prems(4,5)])
      (use Cons.prems(2,6) up in auto)
  also have "\<dots> = rd s k r"
    by (rule write_past [OF Cons.prems(1) valid up s1(1) Cons.prems(4,5)]) (use Cons.prems(6) up in auto)
  finally show ?case .
qed simp

end

section \<open>The key-value store satisfies it\<close>

datatype kv_op =
    WPut u64 u64 u64 u64 bytes slice bool bool
  | WDelete u64 u64 u64 bytes bytes

fun kv_write :: "'x env_scheme \<Rightarrow> 't lmdb \<Rightarrow> kv_op \<Rightarrow> 't \<Rightarrow> 't result" where
  "kv_write env L (WPut rv subrev lease epoch k val iv il) t =
     bindE (dbKv_put env L t rv subrev lease epoch k val iv il) (\<lambda>(t', _). Inr t')"
| "kv_write env L (WDelete rv subrev epoch key fin) t =
     bindE (dbKv_deleteRange env L t rv subrev epoch key fin) (\<lambda>(t', _). Inr t')"

fun kv_write_wf :: "kv_op \<Rightarrow> bool" where
  "kv_write_wf (WPut rv subrev lease epoch k val iv il) \<longleftrightarrow> rev_fits rv subrev \<and> 2 \<le> length k \<and>
     length k \<le> PCB_LIMIT_KEY_LENGTH \<and> length (sl val) < 2 ^ 62 \<and> \<not> (iv \<and> val \<noteq> None)"
| "kv_write_wf (WDelete rv subrev epoch key fin) \<longleftrightarrow> rev_fits rv subrev \<and> key \<noteq> []"

fun kv_stamp :: "kv_op \<Rightarrow> keyrev" where
  "kv_stamp (WPut rv subrev lease epoch k val iv il) = newkeyrev rv subrev False"
| "kv_stamp (WDelete rv subrev epoch key fin) = newkeyrev rv subrev True"

definition kv_read :: "'x env_scheme \<Rightarrow> 't lmdb \<Rightarrow> 't \<Rightarrow> bytes \<Rightarrow> u64 \<Rightarrow> kv" where
  "kv_read env L t k r = (case dbKv_getRev env L t k r False of Inr (item, _, None) \<Rightarrow> plain item | _ \<Rightarrow> kv_zero)"

locale kv_db = lmdb L view for L :: "'t lmdb" and view +
  fixes env :: "'x env_scheme"
  assumes env: "env_ok env"
begin

lemma kv_read_spec: "kv_rel env view t H \<Longrightarrow> k \<noteq> [] \<Longrightarrow> kv_read env L t k r = spec_at r (H k)"
  using getRev_spec [OF env, of t H k r False] by (auto simp: kv_read_def)

lemma put_after:
  assumes inv: "kv_inv env view t b H E" and up: "upper b < rv" and fits: "rev_fits rv subrev"
  shows "fresh (newkeyrev rv subrev False) H" "put_ok env rv (H k)" "rv \<noteq> 0"
proof -
  have lt: "upper (vrev h) < rv" if "h \<in> set (H k)" for h k using upper_mono [OF kv_invD(4) [OF inv that]] up by auto
  show "fresh (newkeyrev rv subrev False) H" unfolding fresh_def
    using upper_less_newkeyrev [OF fits lt] by blast
  show "put_ok env rv (H k)" using lt [of "hd (H k)" k] by (cases "H k") (auto simp: put_ok_def)
  show "rv \<noteq> 0" using up by auto
qed

lemma delete_after:
  assumes inv: "kv_inv env view t b H E" and up: "upper b < rv" and fits: "rev_fits rv subrev"
  shows "\<forall>k. in_delete key fin k \<longrightarrow> delete_ok env rv subrev (H k)"
proof (intro allI impI)
  fix k
  have lt: "upper (vrev h) < rv" if "h \<in> set (H k)" for h using upper_mono [OF kv_invD(4) [OF inv that]] up by auto
  then show "delete_ok env rv subrev (H k)"
    using upper_less_newkeyrev [OF fits lt, of _ True] by (cases "H k") (auto simp: delete_ok_def)
qed

text \<open>What a write does to the history.\<close>

lemma write_spec:
  assumes inv: "kv_inv env view t b H E" and wf: "kv_write_wf w" and up: "upper b < upper (kv_stamp w)"
  shows "\<exists>t' H'. kv_write env L w t = Inr t' \<and> kv_rel env view t' H' \<and>
    (\<forall>k r. 0 < r \<and> r < upper (kv_stamp w) \<longrightarrow> spec_at r (H' k) = spec_at r (H k))"
proof (cases w)
  case (WPut rv subrev lease epoch k val iv il)
  with wf have a: "rev_fits rv subrev" "2 \<le> length k" "length k \<le> PCB_LIMIT_KEY_LENGTH" "length (sl val) < 2 ^ 62"
    "\<not> (iv \<and> val \<noteq> None)" by auto
  have st: "upper (kv_stamp w) = rv" using WPut upper_newkeyrev [OF a(1)] by simp
  have iv: "iv \<longrightarrow> val = None" using a(5) by blast
  let ?h = "(spec_put rv subrev lease k val iv il (H k), lease)"
  from put_spec [OF env kv_invD(1) [OF inv] a(2,3,1) put_after(3,1,2) [OF inv _ a(1)] a(4), of iv lease epoch il] iv up st
  obtain t' out where p: "dbKv_put env L t rv subrev lease epoch k val iv il = Inr (t', out)" "kv_rel env view t' (add_version k ?h H)"
    by auto
  have "newer r ?h" if "0 < r" "r < rv" for r
    using that upper_newkeyrev [OF a(1)] spec_put_simps(1) [OF a(1), of lease k val iv il "H k"] by (simp add: newer_def)
  then have "\<forall>k' r. 0 < r \<and> r < upper (kv_stamp w) \<longrightarrow> spec_at r (add_version k ?h H k') = spec_at r (H k')"
    unfolding st by (auto simp: spec_at_add)
  then show ?thesis using p WPut by auto
next
  case (WDelete rv subrev epoch key fin)
  with wf have a: "rev_fits rv subrev" "key \<noteq> []" by auto
  have st: "upper (kv_stamp w) = rv" using WDelete upper_newkeyrev [OF a(1)] by simp
  have rv: "upper b < rv" "rv \<noteq> 0" using up st by auto
  let ?r = "newkeyrev rv subrev True" and ?ks = "deleted_keys key fin H"
  from deleteRange_spec [OF kv_invD(1) [OF inv] a(2,1) rv(2) delete_after [OF inv rv(1) a(1)], of fin epoch]
  obtain t' out where d: "dbKv_deleteRange env L t rv subrev epoch key fin = Inr (t', out)"
    "kv_rel env view t' (delete_keys ?r (set ?ks) H)" unfolding Let_def by blast
  have "newer r (tomb ?r)" if "0 < r" "r < rv" for r using that upper_newkeyrev [OF a(1)] by (simp add: newer_def)
  then have "\<forall>k' r. 0 < r \<and> r < upper (kv_stamp w) \<longrightarrow> spec_at r (delete_keys ?r (set ?ks) H k') = spec_at r (H k')"
    unfolding st by (simp add: delete_keys_def spec_at_def visible_def)
  then show ?thesis using d WDelete by auto
qed

lemma write_reach:
  assumes "kv_reach env L view t b" "kv_write_wf w" "upper b < upper (kv_stamp w)" "kv_write env L w t = Inr t'"
  shows "kv_reach env L view t' (kv_stamp w)"
proof (cases w)
  case (WPut rv subrev lease epoch k val iv il)
  with assms obtain out where "dbKv_put env L t rv subrev lease epoch k val iv il = Inr (t', out)"
    by (auto elim!: bindE_InrE split: prod.splits)
  from reach_put [OF assms(1) this] assms(2,3) WPut word_gt_0_if [of "upper b" rv] upper_less_newkeyrev [of rv subrev b False] upper_newkeyrev [of rv subrev False]
  show ?thesis by auto
next
  case (WDelete rv subrev epoch key fin)
  with assms obtain items cnt where "dbKv_deleteRange env L t rv subrev epoch key fin = Inr (t', items, cnt)"
    by (auto elim!: bindE_InrE split: prod.splits)
  from reach_delete [OF assms(1) this] assms(2,3) WDelete upper_newkeyrev [of rv subrev True] show ?thesis by auto
qed

end

sublocale kv_db \<subseteq> store: versioned_store "kv_reach env L view" "kv_read env L" "kv_write env L" kv_write_wf kv_stamp
proof unfold_locales
  fix s b w s' assume a: "kv_reach env L view s b" "kv_write_wf w" "upper b < upper (kv_stamp w)"
  from reach_inv [OF a(1) env] obtain H E where inv: "kv_inv env view s b H E" by blast
  from write_spec [OF inv a(2,3)] show "\<exists>s'. kv_write env L w s = Inr s'" by blast
  assume w: "kv_write env L w s = Inr s'"
  show "kv_reach env L view s' (kv_stamp w)" by (rule write_reach [OF a w])
  fix k :: bytes and r assume k: "k \<noteq> []" and r: "0 < r" "r < upper (kv_stamp w)"
  from write_spec [OF inv a(2,3)] w obtain H' where
    h: "kv_rel env view s' H'" "\<forall>k r. 0 < r \<and> r < upper (kv_stamp w) \<longrightarrow> spec_at r (H' k) = spec_at r (H k)" by auto
  show "kv_read env L s' k r = kv_read env L s k r"
    using kv_read_spec [OF h(1) k] kv_read_spec [OF kv_invD(1) [OF inv] k] h(2) r by simp
qed

interpretation plain_db: kv_db mem_lmdb mem_view plain_env
  by unfold_locales simp

context kv_db
begin

lemma run_all_keeps_past:
  assumes "kv_reach env L view t b" "rising kv_write_wf kv_stamp b ws"
  shows "\<exists>t'. run_all (kv_write env L) ws t = Inr t' \<and>
    (\<forall>k r. k \<noteq> [] \<and> 0 < r \<and> r \<le> upper b \<longrightarrow> kv_read env L t' k r = kv_read env L t k r)"
  using store.run_all_total [OF assms] store.run_all_past [OF assms] by blast

end

section \<open>Properties\<close>

lemma spec_at_cases: "spec_at r hs = kv_zero \<or> (\<exists>h \<in> set hs. \<not> isdel (vrev h) \<and> spec_at r hs = plain (fst h))"
proof (cases "visible r hs")
  case (Cons h hs')
  then have "h \<in> set hs" by (metis list.set_intros(1) set_dropWhileD visible_def)
  with Cons show ?thesis by (auto simp: spec_at_def ver_kv_def)
qed (simp add: spec_at_def)

lemma reach_one:
  "\<exists>t out. dbKv_put plain_env mem_lmdb mem_empty 2 0 0 1 [97, 98] (Some [1]) False False = Inr (t, out) \<and>
     kv_reach plain_env mem_lmdb mem_view t (newkeyrev 2 0 False)"
proof -
  from one_key_store obtain t out where
    t: "dbKv_put plain_env mem_lmdb mem_empty 2 0 0 1 [97, 98] (Some [1]) False False = Inr (t, out)" by blast
  have "kv_reach plain_env mem_lmdb mem_view mem_empty 0" by (rule reach_init) simp_all
  moreover have "(0 :: u64) < newkeyrev 2 0 False" using newkeyrev_nonzero [of 2 0 False] by (simp add: rev_fits_def word_gt_0)
  ultimately have "kv_reach plain_env mem_lmdb mem_view t (newkeyrev 2 0 False)"
    using reach_put [OF _ t] by (simp add: rev_fits_def)
  with t show ?thesis by blast
qed

text \<open>C15: in every store that puts under keys of at least two bytes, deletions and compactions can produce, in any order
  and at growing revisions, no read fails: a read of a key at a revision finds an intact record and decodes it through
  all its patches, a range read (unless its counts are faked) and a scan of the event log return, and no revision a read, a
  range read or a scan shows is later than the last one written.\<close>

theorem reachable_reads:
  assumes "lmdb L view" "env_ok env" "\<not> PCB_RANGE_COUNT_FAKE env" "kv_reach env L view t b" "k \<noteq> []" "ra_key a \<noteq> []"
  shows "\<exists>item prev items cnt mr evts. dbKv_getRev env L t k r False = Inr (item, prev, None) \<and>
    dbKv_getRange env L t a countOnly = Inr (items, cnt, mr) \<and> dbKv_scan L t revision = Inr evts \<and>
    kv_rev item \<le> b \<and> (kv_rev item \<noteq> 0 \<longrightarrow> kv_key item = k) \<and> list_all (\<lambda>x. kv_rev x \<le> b) items \<and>
    list_all (\<lambda>e. evt_rev e \<le> b) evts"
proof -
  from lmdb.reach_inv [OF assms(1,4,2)] obtain H E where inv: "kv_inv env view t b H E" by blast
  note i = kv_invD [OF inv]
  from lmdb.getRev_spec [OF assms(1,2) i(1) assms(5), of r False] obtain item prev where
    g: "dbKv_getRev env L t k r False = Inr (item, prev, None)" "plain item = spec_at r (H k)" by auto
  have pl: "kv_rev (plain x) = kv_rev x" "kv_key (plain x) = kv_key x" for x by (simp_all add: plain_def)
  from spec_at_cases [of r "H k"] consider "plain item = kv_zero"
    | h where "h \<in> set (H k)" "\<not> isdel (vrev h)" "plain item = plain (fst h)" unfolding g(2) by blast
  then have "kv_rev item \<le> b \<and> (kv_rev item \<noteq> 0 \<longrightarrow> kv_key item = k)"
  proof cases
    case 1
    then have "kv_rev item = 0" using pl(1) [of item] by (simp add: kv_zero_def)
    then show ?thesis by simp
  next
    case 2
    with hist_okD(2) [OF kv_relD(1) [OF i(1)] 2(1)] i(4) [OF 2(1)] show ?thesis
      using pl [of item] pl [of "fst h"] by (simp add: ver_ok_def)
  qed
  moreover from lmdb.getRange_sim [OF assms(1,2) i(1) assms(3,6), of countOnly] obtain items cnt mr co where
    q: "dbKv_getRange env L t a countOnly = Inr (items, cnt, mr)"
      "range_spec env a H (key_list (in_range a) H) ([], 0, False, countOnly) = (map plain items, cnt, mr, co)" by metis
  moreover have "kv_rev x \<le> b" if x: "x \<in> set items" for x
  proof -
    have "plain x \<in> set (map plain items)" using x by simp
    from range_spec_from [OF q(2) this] obtain k h where h: "h \<in> set (H k)" "plain x = range_kv (ra_keysOnly a) h" by auto
    then have "kv_rev x = vrev h" using pl(1) [of x] pl(1) [of "fst h"] by (simp add: range_kv_def split: if_splits)
    then show ?thesis using i(4) [OF h(1)] by simp
  qed
  moreover from lmdb.scan_spec [OF assms(1) i(2), of revision] obtain evts where
    "dbKv_scan L t revision = Inr evts" "set evts = evt_of ` {x \<in> E. push_bit 12 revision \<le> fst x}" by blast
  ultimately show ?thesis using g(1) i(5)
    by (intro exI [of _ item] exI [of _ prev] exI [of _ items] exI [of _ cnt] exI [of _ mr] exI [of _ evts]) (auto simp: list_all_iff evt_of_def split: prod.splits)
qed

theorem reachable_reads_witness:
  "\<exists>t out item prev evts. dbKv_put plain_env mem_lmdb mem_empty 2 0 0 1 [97, 98] (Some [1]) False False = Inr (t, out) \<and>
     dbKv_getRev plain_env mem_lmdb t [97, 98] 0 False = Inr (item, prev, None) \<and> dbKv_scan mem_lmdb t 1 = Inr evts"
proof -
  from reach_one obtain t out where
    t: "dbKv_put plain_env mem_lmdb mem_empty 2 0 0 1 [97, 98] (Some [1]) False False = Inr (t, out)"
      "kv_reach plain_env mem_lmdb mem_view t (newkeyrev 2 0 False)" by blast
  have "\<not> PCB_RANGE_COUNT_FAKE plain_env" "ra_key (wit_range 0) \<noteq> []" by (simp_all add: wit_range_def)
  from reachable_reads [OF mem.lmdb_axioms env_ok_plain this(1) t(2) _ this(2), of "[97, 98]" 0 False 1] t(1)
  show ?thesis by blast
qed

text \<open>C16: writes at growing revisions always go through, and they never change the past. From a store in
  which no revision after \<open>b\<close> is used, any sequence of well-formed puts and deletions, each at a later
  revision than the one before, runs to its end without an error, and every read at a revision up to that of
  \<open>b\<close> returns after it what it returned before it.\<close>

theorem writes_keep_past:
  assumes "lmdb L view" "env_ok env" "kv_reach env L view t b" "rising kv_write_wf kv_stamp b ws"
  shows "\<exists>t'. run_all (kv_write env L) ws t = Inr t' \<and>
    (\<forall>k r. k \<noteq> [] \<and> 0 < r \<and> r \<le> upper b \<longrightarrow> kv_read env L t' k r = kv_read env L t k r)"
proof -
  have db: "kv_db L view env" using assms(1,2) by (simp add: kv_db_def kv_db_axioms_def)
  then show ?thesis using assms(3,4) by (rule kv_db.run_all_keeps_past)
qed

theorem writes_keep_past_witness:
  "\<exists>t out t'. dbKv_put plain_env mem_lmdb mem_empty 2 0 0 1 [97, 98] (Some [1]) False False = Inr (t, out) \<and>
     run_all (kv_write plain_env mem_lmdb)
       [WPut 3 0 0 1 [97, 98] (Some [7]) False False, WDelete 4 0 1 [97, 98] [], WPut 5 0 0 1 [97, 98] (Some [8]) False False] t = Inr t' \<and>
     kv_read plain_env mem_lmdb t' [97, 98] 2 = kv_read plain_env mem_lmdb t [97, 98] 2"
proof -
  from reach_one obtain t out where
    t: "dbKv_put plain_env mem_lmdb mem_empty 2 0 0 1 [97, 98] (Some [1]) False False = Inr (t, out)"
      "kv_reach plain_env mem_lmdb mem_view t (newkeyrev 2 0 False)" by blast
  have up: "upper (newkeyrev 3 0 d) = 3" "upper (newkeyrev 4 0 d) = 4" "upper (newkeyrev 5 0 d) = 5" for d
    using upper_newkeyrev [of 3 0 d] upper_newkeyrev [of 4 0 d] upper_newkeyrev [of 5 0 d] by (simp_all add: rev_fits_def)
  have "rising kv_write_wf kv_stamp (newkeyrev 2 0 False)
    [WPut 3 0 0 1 [97, 98] (Some [7]) False False, WDelete 4 0 1 [97, 98] [], WPut 5 0 0 1 [97, 98] (Some [8]) False False]"
    by (simp add: up rev_fits_def PCB_LIMIT_KEY_LENGTH_def)
  from writes_keep_past [OF mem.lmdb_axioms env_ok_plain t(2) this] t(1) show ?thesis by fastforce
qed

text \<open>Without \<open>PCB_TXN_MULTI_WRITE_ENABLED\<close> a key is written at most once in a transaction. In a
  reachable store, if the newest version of a key is live and was written at revision \<open>rv\<close>, another put of the
  key at \<open>rv\<close>, whatever its subrevision, is refused with \<open>ErrGRPCDuplicateKey\<close>.\<close>

theorem put_twice_refused:
  assumes "lmdb L view" "env_ok env" "kv_reach env L view t b" "\<not> PCB_TXN_MULTI_WRITE_ENABLED env"
    and "dbKv_getRev env L t k 0 False = Inr (item, prev, None)" "kv_rev item \<noteq> 0" "upper (kv_rev item) = rv"
    and "2 \<le> length k" "length k \<le> PCB_LIMIT_KEY_LENGTH"
  shows "dbKv_put env L t rv subrev lease epoch k val iv il = Inl ErrGRPCDuplicateKey"
proof -
  from lmdb.reach_inv [OF assms(1,3,2)] obtain H E where inv: "kv_inv env view t b H E" by blast
  note rel = kv_invD(1) [OF inv]
  have k: "k \<noteq> []" using assms(8) by auto
  from lmdb.getRev_spec [OF assms(1,2) rel k, of 0 False] assms(5) have it: "plain item = spec_at 0 (H k)" by auto
  have "kv_rev (plain item) = kv_rev item" by (simp add: plain_def)
  with it assms(6) obtain h hs where h: "H k = h # hs" "vrev h = kv_rev item" "\<not> isdel (vrev h)"
    by (cases "H k") (auto simp: spec_at_def visible_def newer_def kv_zero_def ver_kv_def plain_def split: if_splits)
  then have "\<not> put_ok env rv (H k)" using assms(4,7) by (simp add: put_ok_def)
  then show ?thesis by (rule lmdb.put_dup [OF assms(1) rel assms(8,9)])
qed

theorem put_twice_refused_witness:
  "\<exists>t out. dbKv_put plain_env mem_lmdb mem_empty 2 0 0 1 [97, 98] (Some [1]) False False = Inr (t, out) \<and>
     dbKv_put plain_env mem_lmdb t 2 1 0 1 [97, 98] (Some [7]) False False = Inl ErrGRPCDuplicateKey"
proof -
  from reach_one obtain t out where
    t: "dbKv_put plain_env mem_lmdb mem_empty 2 0 0 1 [97, 98] (Some [1]) False False = Inr (t, out)"
      "kv_reach plain_env mem_lmdb mem_view t (newkeyrev 2 0 False)" by blast
  from one_key_store t(1) have rel: "kv_rel plain_env mem_view t one_key" by auto
  from mem.getRev_spec [OF env_ok_plain rel, of "[97, 98]" 0 False] obtain item prev where
    g: "dbKv_getRev plain_env mem_lmdb t [97, 98] 0 False = Inr (item, prev, None)" "plain item = spec_at 0 (one_key [97, 98])" by auto
  have "kv_rev (plain item) = newkeyrev 2 0 False" using g(2) by (simp add: spec_at_def visible_def newer_def ver_kv_def) (simp add: plain_def)
  then have "kv_rev item = newkeyrev 2 0 False" by (simp add: plain_def)
  with put_twice_refused [OF mem.lmdb_axioms env_ok_plain t(2) _ g(1)] t(1) newkeyrev_nonzero [of 2 0 False] show ?thesis
    by (simp add: PCB_LIMIT_KEY_LENGTH_def rev_fits_def)
qed

end
