(* ===== verification/Sm_Inv.thy ===== *)
theory Sm_Inv
  imports State_Machine Lease_Store Mvcc_Reach
begin

text \<open>
  The invariant of the replicated state machine (\<open>src/state_machine.go\<close>) and the commands on keys.

  The abstract state of the machine is a record: the histories and the events of the multi-version store,
  the leases, their expiries, and the keys attached to them. \<open>sm_rel\<close> says that a state of the databases
  holds it and that the parts are linked: a lease has an entry under its expiry, an attached key exists, and
  a live key with a lease is attached to it. Each command keeps it; none fails for a reason other than the
  ones its caller reports.
\<close>

declare split_paired_Ex [simp del] split_paired_All [simp del]

record abs_state =
  a_hist :: history
  a_events :: "event set"
  a_leases :: "u64 \<rightharpoonup> lease"
  a_exps :: "(u64 \<times> u64) set"
  a_keys :: "(u64 \<times> bytes) set"

definition attached :: "(u64 \<times> bytes) set \<Rightarrow> bytes \<Rightarrow> version \<Rightarrow> bool" where
  "attached K k h \<longleftrightarrow> (snd h = 0 \<or> snd h = kv_lease (fst h)) \<and> (kv_lease (fst h) \<noteq> 0 \<longrightarrow> (kv_lease (fst h), k) \<in> K)"

definition linked :: "abs_state \<Rightarrow> bool" where
  "linked A \<longleftrightarrow> (\<forall>i l. a_leases A i = Some l \<longrightarrow> (lease_expires l, i) \<in> a_exps A) \<and>
     (\<forall>i k. (i, k) \<in> a_keys A \<longrightarrow> a_hist A k \<noteq> []) \<and>
     (\<forall>k. live (a_hist A k) \<longrightarrow> attached (a_keys A) k (hd (a_hist A k)))"

definition sm_rel :: "'x env_scheme \<Rightarrow> ('t \<Rightarrow> dbi \<Rightarrow> entry list) \<Rightarrow> 't \<Rightarrow> keyrev \<Rightarrow> abs_state \<Rightarrow> bool" where
  "sm_rel env view t b A \<longleftrightarrow> kv_inv env view t b (a_hist A) (a_events A) \<and> lease_rel view t (a_leases A) \<and>
     exp_rel view t (a_exps A) \<and> lkey_rel view t (a_keys A) \<and> linked A"

lemma sm_relD:
  assumes "sm_rel env view t b A"
  shows "kv_inv env view t b (a_hist A) (a_events A)" "lease_rel view t (a_leases A)" "exp_rel view t (a_exps A)"
    "lkey_rel view t (a_keys A)" "linked A" "kv_rel env view t (a_hist A)" "ev_rel view t (a_events A)"
    "logged (a_hist A) (a_events A)"
  using assms by (auto simp: sm_rel_def kv_inv_def)

lemma sm_rel_weaken: "sm_rel env view t b A \<Longrightarrow> b \<le> b' \<Longrightarrow> sm_rel env view t b' A"
  by (auto simp: sm_rel_def intro: inv_weaken)

lemma sm_rel_meta:
  "(\<forall>d. d \<noteq> DBI_meta \<longrightarrow> view t' d = view t d) \<Longrightarrow> sm_rel env view t b A \<Longrightarrow> sm_rel env view t' b A"
  by (auto simp: sm_rel_def kv_inv_def kv_rel_def ev_rel_def lease_rel_def stored_def)

text \<open>What the commands on keys leave alone: the leases, their expiries and the counters.\<close>

definition kv_only :: "('t \<Rightarrow> dbi \<Rightarrow> entry list) \<Rightarrow> 't \<Rightarrow> abs_state \<Rightarrow> 't \<Rightarrow> abs_state \<Rightarrow> bool" where
  "kv_only view t A t' A' \<longleftrightarrow> a_leases A' = a_leases A \<and> a_exps A' = a_exps A \<and> view t' DBI_meta = view t DBI_meta"

lemma kv_only_refl [simp]: "kv_only view t A t A"
  by (simp add: kv_only_def)

lemma kv_only_trans: "kv_only view t A t1 A1 \<Longrightarrow> kv_only view t1 A1 t2 A2 \<Longrightarrow> kv_only view t A t2 A2"
  by (simp add: kv_only_def)

text \<open>The event log grows: the new events are of revision \<open>m\<close> or later, and of keys in \<open>K\<close>.\<close>

definition ev_new :: "('t \<Rightarrow> dbi \<Rightarrow> entry list) \<Rightarrow> 't \<Rightarrow> 't \<Rightarrow> u64 \<Rightarrow> bytes set \<Rightarrow> bool" where
  "ev_new view t t' m K \<longleftrightarrow> (\<exists>N. set (view t' DBI_event) = set (view t DBI_event) \<union> evt_entry ` N \<and>
     (\<forall>x \<in> N. m \<le> upper (fst x) \<and> snd (snd x) \<in> K))"

lemma ev_new_same: "view t' DBI_event = view t DBI_event \<Longrightarrow> ev_new view t t' m K"
  unfolding ev_new_def by (rule exI [of _ "{}"]) simp

lemma ev_new_refl [simp]: "ev_new view t t m K"
  by (simp add: ev_new_same)

lemma ev_new_mono: "ev_new view t t' m K \<Longrightarrow> m' \<le> m \<Longrightarrow> K \<subseteq> K' \<Longrightarrow> ev_new view t t' m' K'"
  unfolding ev_new_def by (meson order_trans subsetD)

lemma ev_new_trans:
  assumes "ev_new view t t1 m K" "ev_new view t1 t2 m' K'" "m \<le> m'"
  shows "ev_new view t t2 m (K \<union> K')"
proof -
  from assms(1,2) obtain N N' where
    "set (view t1 DBI_event) = set (view t DBI_event) \<union> evt_entry ` N" "\<forall>x \<in> N. m \<le> upper (fst x) \<and> snd (snd x) \<in> K"
    "set (view t2 DBI_event) = set (view t1 DBI_event) \<union> evt_entry ` N'" "\<forall>x \<in> N'. m' \<le> upper (fst x) \<and> snd (snd x) \<in> K'"
    unfolding ev_new_def by blast
  then show ?thesis unfolding ev_new_def using assms(3) by (intro exI [of _ "N \<union> N'"]) (auto intro: order_trans)
qed

lemma ev_new_frame: "ev_new view t t1 m K \<Longrightarrow> view t2 DBI_event = view t1 DBI_event \<Longrightarrow> ev_new view t t2 m K"
  by (simp add: ev_new_def)

lemma ev_new_tombs:
  assumes "set (view t' DBI_event) = set (view t DBI_event) \<union> {(be64 r, event_bytes r epoch k) | k. k \<in> D}" "m \<le> upper r" "D \<subseteq> K"
  shows "ev_new view t t' m K"
  unfolding ev_new_def by (rule exI [of _ "(\<lambda>k. (r, epoch, k)) ` D"]) (use assms in \<open>auto simp: evt_entry_def Setcompr_eq_image image_image\<close>)

section \<open>Put\<close>

definition put_wf :: "PutRequest \<Rightarrow> bool" where
  "put_wf req \<longleftrightarrow> length (PutRequest_Key req) \<noteq> 1 \<and> length (sl (PutRequest_Value req)) < 2 ^ 62 \<and>
     (PutRequest_IgnoreValue req \<longrightarrow> PutRequest_Value req = None) \<and> 0 \<le> sint (PutRequest_Lease req) \<and>
     (PutRequest_IgnoreLease req \<longrightarrow> PutRequest_Lease req = 0)"

definition put_keys :: "PutRequest \<Rightarrow> u64 \<Rightarrow> (u64 \<times> bytes) set \<Rightarrow> (u64 \<times> bytes) set" where
  "put_keys req p K =
     (if \<not> PutRequest_IgnoreLease req \<and> p \<noteq> PutRequest_Lease req
      then (if PutRequest_Lease req \<noteq> 0 then insert (PutRequest_Lease req, PutRequest_Key req) K else K) -
           (if p \<noteq> 0 then {(p, PutRequest_Key req)} else {})
      else K)"

lemma sint_pos_iff: "0 \<le> sint (x :: u64) \<Longrightarrow> 0 < sint x \<longleftrightarrow> x \<noteq> 0"
  by (metis less_le signed_0 signed_word_eqI)

context lmdb
begin

lemma cmdPut_lease_spec:
  assumes rel: "lkey_rel view t K" and len: "length (PutRequest_Key req) \<le> PCB_LIMIT_KEY_LENGTH"
    and wf: "0 \<le> sint (PutRequest_Lease req)" and mem: "kv_lease prev \<noteq> 0 \<longrightarrow> (kv_lease prev, PutRequest_Key req) \<in> K"
  shows "\<exists>t'. cmdPut_lease L t prev req = Inr t' \<and> lkey_rel view t' (put_keys req (kv_lease prev) K) \<and>
    (\<forall>d. d \<noteq> DBI_lease_key \<longrightarrow> view t' d = view t d)"
proof (cases "\<not> PutRequest_IgnoreLease req \<and> kv_lease prev \<noteq> PutRequest_Lease req")
  case True
  let ?i = "PutRequest_Lease req" and ?k = "PutRequest_Key req" and ?p = "kv_lease prev"
  let ?K = "if ?i \<noteq> 0 then insert (?i, ?k) K else K"
  from dbLeaseKey_put_spec [OF rel len, of ?i] obtain t1 where
    t1: "(if 0 < sint ?i then dbLeaseKey_put L t ?i ?k else Inr t) = Inr t1" "lkey_rel view t1 ?K"
      "\<forall>d. d \<noteq> DBI_lease_key \<longrightarrow> view t1 d = view t d"
    using rel unfolding sint_pos_iff [OF wf] by (cases "?i \<noteq> 0") auto
  have run: "cmdPut_lease L t prev req = (if 0 < ?p then dbLeaseKey_del L t1 ?p ?k else Inr t1)"
    using True t1(1) by (simp add: cmdPut_lease_def)
  show ?thesis
  proof (cases "?p = 0")
    case p: True
    then show ?thesis using run t1 True by (auto simp: put_keys_def)
  next
    case False
    then have "(?p, ?k) \<in> ?K" using mem by simp
    from dbLeaseKey_del_spec [OF t1(2) this] obtain t2 where
      t2: "dbLeaseKey_del L t1 ?p ?k = Inr t2" "lkey_rel view t2 (?K - {(?p, ?k)})"
        "\<forall>d. d \<noteq> DBI_lease_key \<longrightarrow> view t2 d = view t1 d" by auto
    then show ?thesis using run t1(3) True False by (auto simp: put_keys_def word_gt_0)
  qed
qed (use rel in \<open>auto simp: cmdPut_lease_def put_keys_def\<close>)

end

lemma spec_put_lease:
  "kv_lease (spec_put rv subrev lease k val iv il hs) = (if il \<and> live hs then kv_lease (fst (hd hs)) else lease)"
  by (auto simp: spec_put_def Let_def split: list.splits)

lemma spec_at_lease: "kv_lease (spec_at 0 hs) = (if live hs then kv_lease (fst (hd hs)) else 0)"
  by (cases hs) (auto simp: spec_at_def visible_def newer_def ver_kv_def plain_def kv_zero_def)

text \<open>The links survive a put.\<close>

lemma linked_put:
  fixes req rv subrev
  defines "k \<equiv> PutRequest_Key req"
  defines "h \<equiv> \<lambda>hs. (spec_put rv subrev (PutRequest_Lease req) k (PutRequest_Value req) (PutRequest_IgnoreValue req)
      (PutRequest_IgnoreLease req) hs, PutRequest_Lease req)"
  assumes lk: "linked A" and wf: "put_wf req" and fits: "rev_fits rv subrev"
    and p: "p = kv_lease (spec_at 0 (a_hist A k))"
  shows "linked (A\<lparr>a_hist := add_version k (h (a_hist A k)) (a_hist A), a_events := E, a_keys := put_keys req p (a_keys A)\<rparr>)"
proof -
  let ?K = "put_keys req p (a_keys A)" and ?h = "h (a_hist A k)" and ?i = "PutRequest_Lease req"
  have sub: "(i, k') \<in> ?K \<Longrightarrow> (i, k') \<in> a_keys A \<or> k' = k" for i k' by (auto simp: put_keys_def k_def split: if_splits)
  have keep: "(i, k') \<in> a_keys A \<Longrightarrow> k' \<noteq> k \<Longrightarrow> (i, k') \<in> ?K" for i k' by (auto simp: put_keys_def k_def)
  have att: "live (a_hist A k') \<Longrightarrow> attached (a_keys A) k' (hd (a_hist A k'))" for k' using lk by (simp add: linked_def)
  have pmem: "p \<noteq> 0 \<longrightarrow> (p, k) \<in> a_keys A" using att [of k] unfolding p spec_at_lease by (simp add: attached_def)
  have hl: "kv_lease (fst ?h) = (if PutRequest_IgnoreLease req \<and> live (a_hist A k) then p else ?i)" "snd ?h = ?i"
    unfolding h_def p spec_at_lease by (simp_all add: spec_put_lease)
  have "attached ?K k ?h"
  proof (cases "PutRequest_IgnoreLease req")
    case True
    then have "?i = 0" "?K = a_keys A" using wf by (auto simp: put_wf_def put_keys_def)
    then show ?thesis using hl pmem True by (auto simp: attached_def)
  next
    case False
    then show ?thesis using hl pmem by (auto simp: attached_def put_keys_def k_def)
  qed
  moreover have "attached ?K k' (hd (a_hist A k'))" if "live (a_hist A k')" "k' \<noteq> k" for k'
    using att [OF that(1)] keep that(2) by (auto simp: attached_def)
  moreover have "k' = k \<or> a_hist A k' \<noteq> []" if "(i, k') \<in> ?K" for i k' using lk sub [OF that] by (auto simp: linked_def)
  ultimately show ?thesis using lk by (auto simp: linked_def add_version_def)
qed

context lmdb
begin

lemma cmdPut_spec:
  assumes env: "env_ok env" and rel: "sm_rel env view t b A" and rv: "rev_fits rv subrev" "rv \<noteq> 0" "b < newkeyrev rv subrev False"
    and wf: "put_wf req"
  shows "(\<exists>e. cmdPut env L t rv subrev epoch req = Inl e \<and>
      (e = ErrGRPCEmptyKey \<or> e = ErrGRPCKeyTooLong \<or> e = ErrGRPCDuplicateKey \<and> rv \<le> upper b)) \<or>
    (\<exists>t' resp A'. cmdPut env L t rv subrev epoch req = Inr (t', resp, 1, [PutRequest_Key req]) \<and>
       sm_rel env view t' (newkeyrev rv subrev False) A' \<and> kv_only view t A t' A' \<and> ev_new view t t' rv {PutRequest_Key req})"
proof -
  let ?k = "PutRequest_Key req" and ?r = "newkeyrev rv subrev False"
  let ?run = "dbKv_put env L t rv subrev (PutRequest_Lease req) epoch ?k (PutRequest_Value req) (PutRequest_IgnoreValue req)
    (PutRequest_IgnoreLease req)"
  note d = sm_relD [OF rel]
  have w: "length ?k \<noteq> 1" "length (sl (PutRequest_Value req)) < 2 ^ 62" "PutRequest_IgnoreValue req \<longrightarrow> PutRequest_Value req = None"
    "0 \<le> sint (PutRequest_Lease req)" using wf by (auto simp: put_wf_def)
  consider "?k = []" | "PCB_LIMIT_KEY_LENGTH < length ?k" | "2 \<le> length ?k" "length ?k \<le> PCB_LIMIT_KEY_LENGTH"
    using w(1) by (metis One_nat_def Suc_leI le_SucE length_0_conv not_le numeral_2_eq_2 zero_less_iff_neq_zero)
  then show ?thesis
  proof cases
    case 1
    then show ?thesis by (simp add: cmdPut_def dbKv_put_def)
  next
    case 2
    then show ?thesis by (simp add: cmdPut_def put_too_long)
  next
    case 3
    show ?thesis
    proof (cases "put_ok env rv (a_hist A ?k)")
      case False
      then obtain h hs where "a_hist A ?k = h # hs" "upper (vrev h) = rv" by (auto simp: put_ok_def split: list.splits)
      then have "rv \<le> upper b" using upper_mono [OF kv_invD(4) [OF d(1)], of h ?k] by auto
      then show ?thesis using put_dup [OF d(6) 3 False] by (simp add: cmdPut_def)
    next
      case True
      have fr: "fresh ?r (a_hist A)" unfolding fresh_def using kv_invD(4) [OF d(1)] rv(3) by (meson order_le_less_trans)
      from put_spec [OF env d(6) 3 rv(1,2) fr True w(2), of "PutRequest_IgnoreValue req" "PutRequest_Lease req" epoch "PutRequest_IgnoreLease req"] w(3)
      obtain t1 prev nxt patched where p: "?run = Inr (t1, prev, nxt, patched)" "plain prev = spec_at 0 (a_hist A ?k)"
        "\<forall>d. d \<notin> {DBI_revision, DBI_value, DBI_event} \<longrightarrow> view t1 d = view t d"
        "set (view t1 DBI_event) = insert (evt_entry (?r, epoch, ?k)) (set (view t DBI_event))" by (auto simp: evt_entry_def)
      have iv: "\<not> (PutRequest_IgnoreValue req \<and> PutRequest_Value req \<noteq> None)" using w(3) by simp
      note inv1 = inv_put [OF env d(1) p(1) rv(1,2,3) 3(1) w(2) iv]
      have pl: "kv_lease prev = kv_lease (spec_at 0 (a_hist A ?k))" unfolding p(2) [symmetric] by (simp add: plain_def)
      have mem: "kv_lease prev \<noteq> 0 \<longrightarrow> (kv_lease prev, ?k) \<in> a_keys A"
        using d(5) unfolding pl spec_at_lease by (simp add: linked_def attached_def)
      have lk1: "lkey_rel view t1 (a_keys A)" using d(4) p(3) by (simp add: stored_def)
      from cmdPut_lease_spec [OF lk1 3(2) w(4) mem] obtain t2 where
        t2: "cmdPut_lease L t1 prev req = Inr t2" "lkey_rel view t2 (put_keys req (kv_lease prev) (a_keys A))"
          "\<forall>d. d \<noteq> DBI_lease_key \<longrightarrow> view t2 d = view t1 d" by blast
      let ?A = "A\<lparr>a_hist := add_version ?k (spec_put rv subrev (PutRequest_Lease req) ?k (PutRequest_Value req) (PutRequest_IgnoreValue req)
          (PutRequest_IgnoreLease req) (a_hist A ?k), PutRequest_Lease req) (a_hist A),
        a_events := insert (?r, epoch, ?k) (a_events A), a_keys := put_keys req (kv_lease prev) (a_keys A)\<rparr>"
      have "sm_rel env view t2 ?r ?A"
        using inv1 t2(2,3) p(3) d(2,3) linked_put [OF d(5) wf rv(1) pl, of "insert (?r, epoch, ?k) (a_events A)"]
        by (simp add: sm_rel_def kv_inv_def kv_rel_def ev_rel_def lease_rel_def stored_def)
      moreover have "kv_only view t A t2 ?A" using t2(3) p(3) by (simp add: kv_only_def)
      moreover have "ev_new view t t2 rv {?k}"
        unfolding ev_new_def by (rule exI [of _ "{(?r, epoch, ?k)}"]) (use p(4) t2(3) upper_newkeyrev [OF rv(1), of False] in simp)
      ultimately show ?thesis using p(1) t2(1) by (auto simp: cmdPut_def)
    qed
  qed
qed

end

section \<open>Deletion\<close>

text \<open>The links survive tombstones, as long as the keys that stay live stay attached.\<close>

lemma linked_tombs:
  assumes lk: "linked A" and sub: "K \<subseteq> a_keys A" and r: "isdel r"
    and keep: "\<And>i k. live (a_hist A k) \<Longrightarrow> k \<notin> D \<Longrightarrow> (i, k) \<in> a_keys A \<Longrightarrow> (i, k) \<in> K"
  shows "linked (A\<lparr>a_hist := delete_keys r D (a_hist A), a_events := E, a_keys := K\<rparr>)"
proof -
  have "attached K k (hd (a_hist A k))" if "live (a_hist A k)" "k \<notin> D" for k
    using lk that keep [OF that] by (auto simp: linked_def attached_def)
  moreover have "a_hist A k \<noteq> []" if "(i, k) \<in> K" for i k using lk sub that by (auto simp: linked_def)
  ultimately show ?thesis using lk r by (auto simp: linked_def delete_keys_def)
qed

context lmdb
begin

lemma cmdDeleteRange_leases_spec:
  assumes "lkey_rel view t K" "distinct ks" "\<forall>k \<in> set ks. f k \<noteq> 0 \<longrightarrow> (f k, k) \<in> K"
    and "\<forall>k. krec_key (g k) = k \<and> krec_lease (g k) = f k"
  shows "\<exists>t'. cmdDeleteRange_leases L (map g ks) t = Inr t' \<and>
    lkey_rel view t' (K - {(f k, k) | k. k \<in> set ks \<and> f k \<noteq> 0}) \<and> (\<forall>d. d \<noteq> DBI_lease_key \<longrightarrow> view t' d = view t d)"
  using assms(1-3)
proof (induction ks arbitrary: t K)
  case (Cons k ks)
  have g: "krec_key (g k) = k" "krec_lease (g k) = f k" using assms(4) by blast+
  have "\<exists>t1. (if f k \<noteq> 0 then dbLeaseKey_del L t (f k) k else Inr t) = Inr t1 \<and>
    lkey_rel view t1 (K - (if f k \<noteq> 0 then {(f k, k)} else {})) \<and> (\<forall>d. d \<noteq> DBI_lease_key \<longrightarrow> view t1 d = view t d)"
    using dbLeaseKey_del_spec [OF Cons.prems(1), of "f k" k] Cons.prems(1,3) by simp
  then obtain t1 where
    t1: "(if f k \<noteq> 0 then dbLeaseKey_del L t (f k) k else Inr t) = Inr t1"
      "lkey_rel view t1 (K - (if f k \<noteq> 0 then {(f k, k)} else {}))" "\<forall>d. d \<noteq> DBI_lease_key \<longrightarrow> view t1 d = view t d" by blast
  have mem: "\<forall>k' \<in> set ks. f k' \<noteq> 0 \<longrightarrow> (f k', k') \<in> K - (if f k \<noteq> 0 then {(f k, k)} else {})" using Cons.prems(2,3) by auto
  from Cons.IH [OF t1(2) _ mem] Cons.prems(2) obtain t' where
    t': "cmdDeleteRange_leases L (map g ks) t1 = Inr t'"
      "lkey_rel view t' (K - (if f k \<noteq> 0 then {(f k, k)} else {}) - {(f k, k) | k. k \<in> set ks \<and> f k \<noteq> 0})"
      "\<forall>d. d \<noteq> DBI_lease_key \<longrightarrow> view t' d = view t1 d" by auto
  have "K - (if f k \<noteq> 0 then {(f k, k)} else {}) - {(f k, k) | k. k \<in> set ks \<and> f k \<noteq> 0} =
      K - {(f k', k') | k'. k' \<in> set (k # ks) \<and> f k' \<noteq> 0}" by auto
  then show ?case using t1(1,3) t' g by (auto split: if_splits)
qed simp

lemma cmdDeleteRange_prevKvs_spec:
  assumes "env_ok env" "kv_rel env view t H" "\<forall>p \<in> set ps. krec_key p \<noteq> []"
  shows "\<exists>kvs'. cmdDeleteRange_prevKvs env L t ps kvs None = Inr (kvs', None)"
  using assms(3)
proof (induction ps arbitrary: kvs)
  case (Cons p ps)
  from getRev_spec [OF assms(1,2), of "krec_key p" "upper (krec_rev p)" False] Cons.prems obtain item prev where
    "dbKv_getRev env L t (krec_key p) (upper (krec_rev p)) False = Inr (item, prev, None)" by auto
  with Cons.IH [of "kvs @ [ToProto item]"] Cons.prems show ?case by simp
qed simp

lemma cmdDeleteRange_spec:
  assumes env: "env_ok env" and rel: "sm_rel env view t b A" and rv: "rev_fits rv subrev" "rv \<noteq> 0" "b < newkeyrev rv subrev True"
    and key: "DeleteRangeRequest_Key req \<noteq> []"
  shows "cmdDeleteRange env L t rv subrev epoch req = Inl ErrGRPCDuplicateKey \<and> rv \<le> upper b \<or>
    (\<exists>t' resp keys A'. cmdDeleteRange env L t rv subrev epoch req = Inr (t', resp, keys) \<and>
       sm_rel env view t' (if keys = [] then b else newkeyrev rv subrev True) A' \<and> kv_only view t A t' A' \<and> ev_new view t t' rv (set keys))"
proof -
  let ?r = "newkeyrev rv subrev True" and ?H = "a_hist A" and ?key = "DeleteRangeRequest_Key req" and ?fin = "DeleteRangeRequest_RangeEnd req"
  note d = sm_relD [OF rel]
  have lt: "\<forall>k. \<forall>h \<in> set (?H k). vrev h < ?r" using kv_invD(4) [OF d(1)] rv(3) by (meson order_le_less_trans)
  show ?thesis
  proof (cases "\<exists>k. in_delete ?key ?fin k \<and> \<not> delete_ok env rv subrev (?H k)")
    case True
    then obtain k where k: "in_delete ?key ?fin k" "\<not> delete_ok env rv subrev (?H k)" by blast
    then have "live (?H k)" "upper (vrev (hd (?H k))) = rv" using lt by (auto simp: delete_ok_def)
    then have "rv \<le> upper b" using upper_mono [OF kv_invD(4) [OF d(1)], of "hd (?H k)" k] by (cases "?H k") auto
    then show ?thesis using deleteRange_refused [OF d(6) key rv(1,2) lt k] by (simp add: cmdDeleteRange_def)
  next
    case False
    then have ok: "\<forall>k. in_delete ?key ?fin k \<longrightarrow> delete_ok env rv subrev (?H k)" by blast
    let ?ks = "deleted_keys ?key ?fin ?H" and ?f = "\<lambda>k. snd (hd (?H k))" and ?g = "\<lambda>k. krec_of k (hd (?H k))"
    from deleteRange_spec [OF d(6) key rv(1,2) ok, of epoch] obtain t1 where
      t1: "dbKv_deleteRange env L t rv subrev epoch ?key ?fin = Inr (t1, map ?g ?ks, of_nat (length ?ks))"
        "kv_rel env view t1 (delete_keys ?r (set ?ks) ?H)"
        "set (view t1 DBI_event) = set (view t DBI_event) \<union> {(be64 ?r, event_bytes ?r epoch k) | k. k \<in> set ?ks}"
        "\<forall>d. d \<notin> {DBI_revision, DBI_event} \<longrightarrow> view t1 d = view t d" unfolding Let_def by blast
    have lv: "live (?H k)" if "k \<in> set ?ks" for k using that by (simp add: deleted_keys_def)
    then have att: "attached (a_keys A) k (hd (?H k))" if "k \<in> set ?ks" for k using that d(5) by (simp add: linked_def)
    have dist: "distinct ?ks" by (simp add: deleted_keys_def key_list_def)
    have mem: "\<forall>k \<in> set ?ks. ?f k \<noteq> 0 \<longrightarrow> (?f k, k) \<in> a_keys A" using att by (metis attached_def)
    have lk1: "lkey_rel view t1 (a_keys A)" using d(4) t1(4) by (simp add: stored_def)
    from cmdDeleteRange_leases_spec [OF lk1 dist mem, of ?g] obtain t2 where
      t2: "cmdDeleteRange_leases L (map ?g ?ks) t1 = Inr t2"
        "lkey_rel view t2 (a_keys A - {(?f k, k) | k. k \<in> set ?ks \<and> ?f k \<noteq> 0})"
        "\<forall>d. d \<noteq> DBI_lease_key \<longrightarrow> view t2 d = view t1 d" by (auto simp: krec_of_def)
    let ?E = "a_events A \<union> {(?r, epoch, k) | k. k \<in> set ?ks}"
    let ?A = "A\<lparr>a_hist := delete_keys ?r (set ?ks) ?H, a_events := ?E,
      a_keys := a_keys A - {(?f k, k) | k. k \<in> set ?ks \<and> ?f k \<noteq> 0}\<rparr>"
    have "linked ?A" by (rule linked_tombs [OF d(5)]) (use isdel_newkeyrev [OF rv(1), of True] in auto)
    moreover have "kv_inv env view t2 (if ?ks = [] then b else ?r) (delete_keys ?r (set ?ks) ?H) ?E"
      using inv_tombs [OF d(1) rv(3) t1(2,3)] t2(3) by (simp add: kv_inv_def kv_rel_def ev_rel_def)
    ultimately have rel2: "sm_rel env view t2 (if ?ks = [] then b else ?r) ?A"
      using t2(2,3) t1(4) d(2,3) by (simp add: sm_rel_def lease_rel_def stored_def)
    have only: "kv_only view t A t2 ?A" using t2(3) t1(4) by (simp add: kv_only_def)
    have new: "ev_new view t t2 rv (set ?ks)"
      by (rule ev_new_frame [OF ev_new_tombs [where view = view and t = t and t' = t1, OF t1(3)]]) (use t2(3) upper_newkeyrev [OF rv(1), of True] in simp_all)
    have "\<forall>p \<in> set (map ?g ?ks). krec_key p \<noteq> []"
    proof
      fix p assume "p \<in> set (map ?g ?ks)"
      then obtain k where k: "k \<in> set ?ks" "krec_key p = k" by (auto simp: krec_of_def)
      then have "?H k \<noteq> []" using lv by (metis live_simps(1))
      then show "krec_key p \<noteq> []" using hist_okD(1) [OF kv_relD(1) [OF d(6)]] k(2) by fastforce
    qed
    from cmdDeleteRange_prevKvs_spec [OF env sm_relD(6) [OF rel2] this, of "[]"] obtain kvs where
      kvs: "cmdDeleteRange_prevKvs env L t2 (map ?g ?ks) [] None = Inr (kvs, None)" by blast
    have "\<exists>resp. cmdDeleteRange env L t rv subrev epoch req = Inr (t2, resp, replicate (length ?ks) [] @ map krec_key (map ?g ?ks))"
      using t1(1) t2(1) kvs by (simp add: cmdDeleteRange_def Let_def)
    moreover have "replicate (length ?ks) [] @ map krec_key (map ?g ?ks) = [] \<longleftrightarrow> ?ks = []" by simp
    moreover have "ev_new view t t2 rv (set (replicate (length ?ks) [] @ map krec_key (map ?g ?ks)))"
      by (rule ev_new_mono [OF new]) (auto simp: krec_of_def)
    ultimately show ?thesis using rel2 only by fastforce
  qed
qed

end

section \<open>Transactions\<close>

definition range_wf :: "RangeRequest \<Rightarrow> bool" where
  "range_wf req \<longleftrightarrow> RangeRequest_Key req \<noteq> [] \<and> sint (RangeRequest_Revision req) \<le> 0"

fun op_wf :: "RequestOp \<Rightarrow> bool" where
  "op_wf (RequestPut req) \<longleftrightarrow> put_wf req"
| "op_wf (RequestDeleteRange req) \<longleftrightarrow> DeleteRangeRequest_Key req \<noteq> []"
| "op_wf (RequestRange req) \<longleftrightarrow> range_wf req"
| "op_wf RequestOp_other \<longleftrightarrow> True"

text \<open>A comparison whose operand has the type of its target.\<close>

definition cond_wf :: "Compare \<Rightarrow> bool" where
  "cond_wf c \<longleftrightarrow> Compare_Key c \<noteq> [] \<and>
     (case Compare_Target c of
        Compare_VERSION \<Rightarrow> (case Compare_TargetUnion c of Compare_Version _ \<Rightarrow> True | _ \<Rightarrow> False)
      | Compare_CREATE \<Rightarrow> (case Compare_TargetUnion c of Compare_CreateRevision _ \<Rightarrow> True | _ \<Rightarrow> False)
      | Compare_MOD \<Rightarrow> (case Compare_TargetUnion c of Compare_ModRevision _ \<Rightarrow> True | _ \<Rightarrow> False)
      | Compare_LEASE \<Rightarrow> (case Compare_TargetUnion c of Compare_Lease _ \<Rightarrow> True | _ \<Rightarrow> False)
      | Compare_VALUE \<Rightarrow> (case Compare_TargetUnion c of Compare_Value _ \<Rightarrow> True | _ \<Rightarrow> False)
      | CompareTarget_unknown \<Rightarrow> True)"

definition client_error :: "error \<Rightarrow> bool" where
  "client_error e \<longleftrightarrow> e = ErrGRPCDuplicateKey \<or> e = ErrGRPCKeyTooLong \<or> e = ErrGRPCEmptyKey"

text \<open>The specification of a comparison, by the three outcomes of comparing two members of an order: the
  outcomes a result asks for, and the attribute of the version the operand is compared with. Numbers are
  compared as signed numbers, values as byte strings; the version is \<open>kv_zero\<close> when the key does not exist.
  A result without a name is met by no number and by every value, a target without a name by every version.\<close>

datatype outcome = Below | Same | Above

definition outcome_of :: "'a :: linorder \<Rightarrow> 'a \<Rightarrow> outcome" where
  "outcome_of x y = (if x < y then Below else if y < x then Above else Same)"

fun asked :: "CompareResult \<Rightarrow> outcome set" where
  "asked Compare_EQUAL = {Same}"
| "asked Compare_NOT_EQUAL = {Below, Above}"
| "asked Compare_LESS = {Below}"
| "asked Compare_GREATER = {Above}"
| "asked CompareResult_unknown = {}"

definition cond_holds :: "kv \<Rightarrow> Compare \<Rightarrow> bool" where
  "cond_holds item c \<longleftrightarrow> Compare_Target c = CompareTarget_unknown \<or>
     (case Compare_TargetUnion c of
        Compare_Version v \<Rightarrow> outcome_of (sint (kv_version item)) (sint v) \<in> asked (Compare_Result c)
      | Compare_CreateRevision v \<Rightarrow> outcome_of (sint (kv_created item)) (sint v) \<in> asked (Compare_Result c)
      | Compare_ModRevision v \<Rightarrow> outcome_of (sint (upper (kv_rev item))) (sint v) \<in> asked (Compare_Result c)
      | Compare_Lease v \<Rightarrow> outcome_of (sint (kv_lease item)) (sint v) \<in> asked (Compare_Result c)
      | Compare_Value v \<Rightarrow> Compare_Result c = CompareResult_unknown \<or> outcome_of (sl (kv_val item)) v \<in> asked (Compare_Result c)
      | TargetUnion_nil \<Rightarrow> False)"

lemma txnIntCompare_outcome: "txnIntCompare r a b \<longleftrightarrow> outcome_of (sint a) (sint b) \<in> asked r"
  by (cases r) (auto simp: txnIntCompare_def outcome_of_def signed_word_eqI)

lemma cond_total:
  assumes "cond_wf c" "kv_key item = [] \<or> kv_key item = Compare_Key c"
  shows "txnCompare_cond item c = Inr (cond_holds item c)"
proof -
  have "(case r of Compare_EQUAL \<Rightarrow> x = v | Compare_GREATER \<Rightarrow> v < x | Compare_LESS \<Rightarrow> x < v | Compare_NOT_EQUAL \<Rightarrow> x \<noteq> v
      | CompareResult_unknown \<Rightarrow> True) \<longleftrightarrow> r = CompareResult_unknown \<or> outcome_of x v \<in> asked r" for r and x v :: bytes
    by (cases r) (auto simp: outcome_of_def)
  then show ?thesis using assms
    by (auto simp: cond_wf_def cond_holds_def txnCompare_cond_def txnIntCompare_outcome split: CompareTarget.splits TargetUnion.splits)
qed

text \<open>The version of a key bears the key.\<close>

lemma spec_at_key:
  assumes "hist_ok H"
  shows "kv_key (spec_at r (H k)) = [] \<or> kv_key (spec_at r (H k)) = k"
proof (cases "visible r (H k)")
  case (Cons h hs)
  then have "h \<in> set (H k)" by (metis list.set_intros(1) set_dropWhileD visible_def)
  then show ?thesis using assms Cons by (auto simp: hist_ok_def ver_ok_def spec_at_def ver_kv_def kv_zero_def plain_def)
qed (simp add: spec_at_def kv_zero_def)

lemma plain_fields:
  "kv_rev (plain x) = kv_rev x" "kv_key (plain x) = kv_key x" "kv_version (plain x) = kv_version x"
  "kv_created (plain x) = kv_created x" "kv_lease (plain x) = kv_lease x" "kv_val (plain x) = kv_val x"
  by (simp_all add: plain_def)

lemma cond_plain: "txnCompare_cond item c = txnCompare_cond (plain item) c"
  unfolding txnCompare_cond_def plain_fields ..

lemma newkeyrev_succ:
  assumes "rev_fits rv (i + 1)" "i + 1 \<noteq> 0"
  shows "newkeyrev rv i d < newkeyrev rv (i + 1) d'" "rev_fits rv i"
proof -
  have n: "unat (i + 1) = unat i + 1" using assms(2) by (metis Suc_eq_plus1 add.commute unatSuc)
  then show f: "rev_fits rv i" using assms(1) by (simp add: rev_fits_def)
  show "newkeyrev rv i d < newkeyrev rv (i + 1) d'" 
    unfolding newkeyrev_less [OF f assms(1)] using n by (simp add: word_less_nat_alt)
qed

context lmdb
begin

lemma txnCompare_spec:
  assumes "env_ok env" "kv_rel env view t H" "\<forall>c \<in> set conds. cond_wf c"
  shows "txnCompare env L t conds = Inr (\<forall>c \<in> set conds. cond_holds (spec_at 0 (H (Compare_Key c))) c)"
  using assms(3)
proof (induction conds)
  case (Cons c conds)
  have c: "cond_wf c" "Compare_Key c \<noteq> []" using Cons.prems by (auto simp: cond_wf_def)
  from getRev_spec [OF assms(1,2) c(2), of 0 False] obtain item prev where
    g: "dbKv_getRev env L t (Compare_Key c) 0 False = Inr (item, prev, None)" "plain item = spec_at 0 (H (Compare_Key c))" by auto
  have "txnCompare_cond item c = Inr (cond_holds (spec_at 0 (H (Compare_Key c))) c)"
    unfolding cond_plain [of item] g(2) by (rule cond_total [OF c(1) spec_at_key]) (use assms(2) in \<open>simp add: kv_rel_def\<close>)
  then show ?case using g(1) Cons by (simp add: dbKv_get_def)
qed simp

lemma queryRange_wf:
  assumes "env_ok env" "kv_rel env view t H" "\<not> PCB_RANGE_COUNT_FAKE env" "range_wf req"
  shows "\<exists>resp. queryRange env L t rv req = Inr resp"
proof -
  let ?a = "\<lparr>ra_key = RangeRequest_Key req, ra_end = RangeRequest_RangeEnd req,
               ra_revision = RangeRequest_Revision req, ra_minMod = RangeRequest_MinModRevision req,
               ra_maxMod = RangeRequest_MaxModRevision req,
               ra_minCreated = RangeRequest_MinCreateRevision req,
               ra_maxCreated = RangeRequest_MaxCreateRevision req, ra_limit = RangeRequest_Limit req,
               ra_keysOnly = RangeRequest_KeysOnly req\<rparr>"
  have "ra_key ?a \<noteq> []" using assms(4) by (simp add: range_wf_def)
  from getRange_sim [OF assms(1-3) this, of "RangeRequest_CountOnly req"] obtain items cnt mr where
    "dbKv_getRange env L t ?a (RangeRequest_CountOnly req) = Inr (items, cnt, mr)" by blast
  then show ?thesis using assms(4) by (simp add: queryRange_def range_wf_def)
qed

text \<open>The operations of a transaction. The bound \<open>b\<close> stays below the revision of the operation that is
  next; the state changes only with the keys it reports.\<close>

lemma txnOps_loop_spec:
  assumes "env_ok env" "\<not> PCB_RANGE_COUNT_FAKE env" "rv \<noteq> 0"
    and "sm_rel env view t b A" "b < newkeyrev rv i False" "upper b \<le> rv" "rev_fits rv (i + of_nat (length ops))" "unat i + length ops < 2 ^ 10"
    and "\<forall>op \<in> set ops. op_wf op"
  shows "\<exists>t' res' keys' err. txnOps_loop env L rv epoch i ops t res keys = (t', res', keys @ keys', err) \<and>
    (case err of
       Some e \<Rightarrow> client_error e
     | None \<Rightarrow> \<exists>b' A'. sm_rel env view t' b' A' \<and> upper b' \<le> rv \<and> (keys' = [] \<longrightarrow> b' = b) \<and> kv_only view t A t' A' \<and>
         ev_new view t t' rv (set keys'))"
  using assms(4-9)
proof (induction ops arbitrary: t b A i res keys)
  case Nil
  then show ?case by (auto intro!: exI [of _ b] exI [of _ A])
next
  case (Cons op ops)
  have i1: "unat (i + 1) = unat i + 1" using Cons.prems(5) by (simp add: unat_plus_if' )
  have f1: "rev_fits rv (i + 1)" "rev_fits rv i" "i + 1 \<noteq> 0"
    using Cons.prems(4,5) i1 by (auto simp: rev_fits_def dest: arg_cong [of _ _ unat])
  have lt: "newkeyrev rv i d < newkeyrev rv (i + 1) False" for d by (rule newkeyrev_succ(1) [OF f1(1,3)])
  have up: "upper (newkeyrev rv i d) = rv" for d by (rule upper_newkeyrev [OF f1(2)])
  have fl: "rev_fits rv (i + 1 + of_nat (length ops))" "unat (i + 1) + length ops < 2 ^ 10"
    using Cons.prems(4,5) i1 by (simp_all add: ac_simps)
  have ops: "\<forall>op \<in> set ops. op_wf op" using Cons.prems(6) by simp
  have bt: "b < newkeyrev rv i True" using Cons.prems(2) newkeyrev_less [OF f1(2) f1(2), of False True] by (metis order_less_trans)
  show ?case
  proof (cases op)
    case (RequestPut req)
    then have "put_wf req" using Cons.prems(6) by simp
    from cmdPut_spec [OF assms(1) Cons.prems(1) f1(2) assms(3) Cons.prems(2) this, of epoch] show ?thesis
    proof (elim disjE exE conjE)
      fix e assume "cmdPut env L t rv i epoch req = Inl e" "e = ErrGRPCEmptyKey"
      then show ?thesis using RequestPut by (auto simp: client_error_def)
    next
      fix e assume "cmdPut env L t rv i epoch req = Inl e" "e = ErrGRPCKeyTooLong"
      then show ?thesis using RequestPut by (auto simp: client_error_def)
    next
      fix e assume "cmdPut env L t rv i epoch req = Inl e" "e = ErrGRPCDuplicateKey"
      then show ?thesis using RequestPut by (auto simp: client_error_def)
    next
      fix t1 resp A1 assume p: "cmdPut env L t rv i epoch req = Inr (t1, resp, 1, [PutRequest_Key req])"
        "sm_rel env view t1 (newkeyrev rv i False) A1" "kv_only view t A t1 A1" "ev_new view t t1 rv {PutRequest_Key req}"
      from Cons.IH [OF p(2) lt _ fl ops, of "res @ [ResponsePut resp]" "keys @ [PutRequest_Key req]"] up obtain t' res' keys' err where
        l: "txnOps_loop env L rv epoch (i + 1) ops t1 (res @ [ResponsePut resp]) (keys @ [PutRequest_Key req]) =
            (t', res', (keys @ [PutRequest_Key req]) @ keys', err)"
          "case err of Some e \<Rightarrow> client_error e
           | None \<Rightarrow> \<exists>b' A'. sm_rel env view t' b' A' \<and> upper b' \<le> rv \<and> (keys' = [] \<longrightarrow> b' = newkeyrev rv i False) \<and>
               kv_only view t1 A1 t' A' \<and> ev_new view t1 t' rv (set keys')" by auto
      show ?thesis
        by (rule exI [of _ t'], rule exI [of _ res'], rule exI [of _ "PutRequest_Key req # keys'"], rule exI [of _ err])
          (use RequestPut p(1) l kv_only_trans [OF p(3)] ev_new_trans [OF p(4)] in \<open>fastforce split: option.splits\<close>)
    qed
  next
    case (RequestDeleteRange req)
    then have "DeleteRangeRequest_Key req \<noteq> []" using Cons.prems(6) by simp
    from cmdDeleteRange_spec [OF assms(1) Cons.prems(1) f1(2) assms(3) bt this, of epoch] show ?thesis
    proof (elim disjE exE conjE)
      assume "cmdDeleteRange env L t rv i epoch req = Inl ErrGRPCDuplicateKey"
      then show ?thesis using RequestDeleteRange by (auto simp: client_error_def)
    next
      fix t1 resp ks A1 assume p: "cmdDeleteRange env L t rv i epoch req = Inr (t1, resp, ks)"
        "sm_rel env view t1 (if ks = [] then b else newkeyrev rv i True) A1" "kv_only view t A t1 A1" "ev_new view t t1 rv (set ks)"
      let ?b = "if ks = [] then b else newkeyrev rv i True"
      have "?b < newkeyrev rv (i + 1) False" "upper ?b \<le> rv" using lt Cons.prems(2,3) up by (auto intro: order_less_trans)
      from Cons.IH [OF p(2) this fl ops, of "res @ [ResponseDeleteRange resp]" "keys @ ks"] obtain t' res' keys' err where
        l: "txnOps_loop env L rv epoch (i + 1) ops t1 (res @ [ResponseDeleteRange resp]) (keys @ ks) = (t', res', (keys @ ks) @ keys', err)"
          "case err of Some e \<Rightarrow> client_error e
           | None \<Rightarrow> \<exists>b' A'. sm_rel env view t' b' A' \<and> upper b' \<le> rv \<and> (keys' = [] \<longrightarrow> b' = ?b) \<and>
               kv_only view t1 A1 t' A' \<and> ev_new view t1 t' rv (set keys')" by auto
      show ?thesis
        by (rule exI [of _ t'], rule exI [of _ res'], rule exI [of _ "ks @ keys'"], rule exI [of _ err])
          (use RequestDeleteRange p(1) l kv_only_trans [OF p(3)] ev_new_trans [OF p(4)] in \<open>fastforce split: option.splits\<close>)
    qed
  next
    case (RequestRange req)
    then have "range_wf req" using Cons.prems(6) by simp
    from queryRange_wf [OF assms(1) sm_relD(6) [OF Cons.prems(1)] assms(2) this, of rv] obtain resp where
      q: "queryRange env L t rv req = Inr resp" by blast
    have "b < newkeyrev rv (i + 1) False" using lt Cons.prems(2) by (rule order_less_trans [rotated])
    from Cons.IH [OF Cons.prems(1) this Cons.prems(3) fl ops, of "res @ [ResponseRange resp]" keys] show ?thesis
      using RequestRange q by simp
  next
    case RequestOp_other
    have "b < newkeyrev rv (i + 1) False" using lt Cons.prems(2) by (rule order_less_trans [rotated])
    from Cons.IH [OF Cons.prems(1) this Cons.prems(3) fl ops, of res keys] show ?thesis using RequestOp_other by simp
  qed
qed

end

end
