(* ===== verification/Sm_Lease.thy ===== *)
theory Sm_Lease
  imports Sm_Inv
begin

text \<open>
  The lease commands of \<open>src/state_machine.go\<close> over the abstract state: grant, renewal, revocation and the
  expiry of leases by a tick. Each keeps the invariant of \<open>Sm_Inv\<close>; the search for a free id, the batches of
  a revocation and the scan of a tick end.
\<close>

declare split_paired_Ex [simp del] split_paired_All [simp del]

section \<open>Grant and renewal\<close>

definition with_lease :: "lease \<Rightarrow> abs_state \<Rightarrow> abs_state" where
  "with_lease l A = A\<lparr>a_leases := (a_leases A)(lease_id l \<mapsto> l), a_exps := insert (lease_expires l, lease_id l) (a_exps A)\<rparr>"

text \<open>The part of \<open>cmdLeaseGrant\<close> that finds the item.\<close>

definition grant_item :: "'t lmdb \<Rightarrow> 't \<Rightarrow> u64 \<Rightarrow> ('t \<times> lease) result" where
  "grant_item L t i =
     (if i = 0 then bindE (getLeaseID L t) (\<lambda>lid. bindE (nextLeaseID L (Suc (mdb_Entries L t DBI_lease)) t lid) (\<lambda>lid1.
        bindE (setLeaseID L t lid1) (\<lambda>t1. Inr (t1, lease_zero\<lparr>lease_id := lid1\<rparr>))))
      else bindE (dbLease_get L t i) (\<lambda>item. Inr (t, item\<lparr>lease_id := i\<rparr>)))"

lemma linked_with_lease: "linked A \<Longrightarrow> linked (with_lease l A)"
  by (auto simp: linked_def with_lease_def)

context lmdb
begin

text \<open>A free id is found within one step more than there are leases.\<close>

lemma nextLeaseID_spec:
  assumes "lease_rel view t M" "\<exists>j. 0 < j \<and> j \<le> n \<and> lease_id (lease_at M (lid + of_nat j)) = 0"
  shows "\<exists>i. nextLeaseID L n t lid = Inr i \<and> lease_id (lease_at M i) = 0"
  using assms(2)
proof (induction n arbitrary: lid)
  case (Suc n)
  then obtain j where j: "0 < j" "j \<le> Suc n" "lease_id (lease_at M (lid + of_nat j)) = 0" by blast
  show ?case
  proof (cases "lease_id (lease_at M (lid + 1)) = 0")
    case False
    then have "j \<noteq> 1" using j(3) by auto
    with j have "0 < j - 1 \<and> j - 1 \<le> n \<and> lease_id (lease_at M (lid + 1 + of_nat (j - 1))) = 0"
      by (simp add: of_nat_diff)
    then have "\<exists>j. 0 < j \<and> j \<le> n \<and> lease_id (lease_at M (lid + 1 + of_nat j)) = 0" by blast
    from Suc.IH [OF this] False show ?thesis by (simp add: dbLease_get_spec [OF assms(1)])
  qed (simp add: dbLease_get_spec [OF assms(1)])
qed simp

lemma free_id:
  assumes rel: "lease_rel view t M" and few: "card (dom M) + 1 < 2 ^ 64"
  shows "\<exists>j. 0 < j \<and> j \<le> Suc (card (dom M)) \<and> lease_id (lease_at M (lid + of_nat j)) = 0"
proof (rule ccontr)
  assume no: "\<not> ?thesis"
  let ?f = "\<lambda>j. lid + of_nat j :: u64" and ?J = "{1..Suc (card (dom M))}"
  have "inj_on ?f ?J"
  proof (rule inj_onI)
    fix x y assume xy: "x \<in> ?J" "y \<in> ?J" "?f x = ?f y"
    then have "(of_nat x :: u64) = of_nat y" by simp
    then have "unat (of_nat x :: u64) = unat (of_nat y :: u64)" by simp
    then show "x = y" using xy few by (simp add: unat_of_nat take_bit_nat_eq_self)
  qed
  moreover have "?f ` ?J \<subseteq> dom M"
  proof
    fix i assume "i \<in> ?f ` ?J"
    then have "lease_id (lease_at M i) \<noteq> 0" using no by auto
    then show "i \<in> dom M" by (auto simp: lease_at_def lease_zero_def split: option.splits)
  qed
  ultimately have "card ?J \<le> card (dom M)" using card_inj_on_le finite_leases [OF rel] by blast
  then show False by simp
qed

lemma store_lease:
  assumes "sm_rel env view t b A"
  shows "\<exists>t1 t2. dbLease_put L t l = Inr t1 \<and> dbLeaseExp_put L t1 l = Inr t2 \<and> sm_rel env view t2 b (with_lease l A) \<and>
    view t2 DBI_meta = view t DBI_meta \<and> view t2 DBI_event = view t DBI_event"
proof -
  note d = sm_relD [OF assms]
  from dbLease_put_spec [OF d(2), of l] obtain t1 where
    t1: "dbLease_put L t l = Inr t1" "lease_rel view t1 ((a_leases A)(lease_id l \<mapsto> l))"
      "\<forall>d. d \<noteq> DBI_lease \<longrightarrow> view t1 d = view t d" by blast
  have x1: "exp_rel view t1 (a_exps A)" using d(3) t1(3) by (simp add: stored_def)
  from dbLeaseExp_put_spec [OF x1, of l] obtain t2 where
    t2: "dbLeaseExp_put L t1 l = Inr t2" "exp_rel view t2 (insert (lease_expires l, lease_id l) (a_exps A))"
      "\<forall>d. d \<noteq> DBI_lease_exp \<longrightarrow> view t2 d = view t1 d" by blast
  have "sm_rel env view t2 b (with_lease l A)"
    unfolding sm_rel_def
  proof (intro conjI)
    show "kv_inv env view t2 b (a_hist (with_lease l A)) (a_events (with_lease l A))"
      using d(1) inv_frame [of view t2 t env b "a_hist A" "a_events A"] t1(3) t2(3) by (simp add: with_lease_def)
    show "lease_rel view t2 (a_leases (with_lease l A))" using lease_rel_frame [of view t2 t1] t1(2) t2(3) by (simp add: with_lease_def)
    show "lkey_rel view t2 (a_keys (with_lease l A))" using d(4) t1(3) t2(3) by (simp add: with_lease_def stored_def)
  qed (use t2(2) linked_with_lease [OF d(5), of l] in \<open>simp_all add: with_lease_def\<close>)
  then show ?thesis using t1 t2 by simp
qed

lemma card_leases_exps: "sm_rel env view t b A \<Longrightarrow> card (dom (a_leases A)) \<le> mdb_Entries L t DBI_lease_exp"
proof -
  assume rel: "sm_rel env view t b A"
  note d = sm_relD [OF rel]
  let ?f = "\<lambda>i. (lease_expires (the (a_leases A i)), i)"
  have "?f ` dom (a_leases A) \<subseteq> a_exps A" using d(5) by (auto simp: linked_def)
  then have "card (dom (a_leases A)) \<le> card (a_exps A)"
    using card_inj_on_le [of ?f "dom (a_leases A)" "a_exps A"] exps.stored_finite [OF d(3)] by (simp add: inj_on_def)
  then show ?thesis using exps.stored_card [OF d(3)] by simp
qed

lemma lease_renew_spec:
  assumes "sm_rel env view t b A"
  shows "\<exists>t' A'. lease_renew L t epoch item = Inr (t', lease_expires item - lease_renewed item) \<and> sm_rel env view t' b A' \<and>
    view t' DBI_meta = view t DBI_meta \<and> view t' DBI_event = view t DBI_event \<and>
    A' = with_lease (item\<lparr>lease_expires := epoch + (lease_expires item - lease_renewed item), lease_renewed := epoch\<rparr>) A"
  using store_lease [OF assms, of "item\<lparr>lease_expires := epoch + (lease_expires item - lease_renewed item), lease_renewed := epoch\<rparr>"]
  by (auto simp: lease_renew_def Let_def)

lemma cmdLeaseKeepAlive_spec:
  assumes "sm_rel env view t b A"
  shows "\<exists>t' resp A'. cmdLeaseKeepAlive L t epoch req = Inr (t', resp, 1) \<and> sm_rel env view t' b A' \<and>
    view t' DBI_meta = view t DBI_meta \<and> view t' DBI_event = view t DBI_event"
proof (cases "lease_id (lease_at (a_leases A) (LeaseKeepAliveRequest_ID req)) = 0")
  case True
  then show ?thesis using assms by (auto simp: cmdLeaseKeepAlive_def dbLease_get_spec [OF sm_relD(2) [OF assms]])
next
  case False
  from lease_renew_spec [OF assms, of epoch "lease_at (a_leases A) (LeaseKeepAliveRequest_ID req)"] obtain t' A' where
    "lease_renew L t epoch (lease_at (a_leases A) (LeaseKeepAliveRequest_ID req)) = Inr (t', lease_expires
       (lease_at (a_leases A) (LeaseKeepAliveRequest_ID req)) - lease_renewed (lease_at (a_leases A) (LeaseKeepAliveRequest_ID req)))"
    "sm_rel env view t' b A'" "view t' DBI_meta = view t DBI_meta" "view t' DBI_event = view t DBI_event" by blast
  then show ?thesis using False by (auto simp: cmdLeaseKeepAlive_def dbLease_get_spec [OF sm_relD(2) [OF assms]])
qed

lemma cmdLeaseKeepAliveBatch_spec:
  assumes "sm_rel env view t b A"
  shows "\<exists>t' ttls' A'. cmdLeaseKeepAliveBatch_loop L epoch ids t ttls = Inr (t', ttls @ ttls') \<and> length ttls' = length ids \<and>
    sm_rel env view t' b A' \<and> view t' DBI_meta = view t DBI_meta \<and> view t' DBI_event = view t DBI_event"
  using assms
proof (induction ids arbitrary: t A ttls)
  case (Cons i ids)
  note get = dbLease_get_spec [OF sm_relD(2) [OF Cons.prems]]
  let ?l = "lease_at (a_leases A) i"
  show ?case
  proof (cases "lease_id ?l = 0")
    case True
    from Cons.IH [OF Cons.prems, of "ttls @ [0]"] obtain t' ttls' A' where
      "cmdLeaseKeepAliveBatch_loop L epoch ids t (ttls @ [0]) = Inr (t', ttls @ 0 # ttls')" "length ttls' = length ids"
      "sm_rel env view t' b A'" "view t' DBI_meta = view t DBI_meta" "view t' DBI_event = view t DBI_event" by auto
    then show ?thesis using True get by (intro exI [of _ t'] exI [of _ "0 # ttls'"] exI [of _ A']) simp
  next
    case False
    from lease_renew_spec [OF Cons.prems, of epoch ?l] obtain t1 A1 where
      t1: "lease_renew L t epoch ?l = Inr (t1, lease_expires ?l - lease_renewed ?l)" "sm_rel env view t1 b A1"
        "view t1 DBI_meta = view t DBI_meta" "view t1 DBI_event = view t DBI_event" by blast
    from Cons.IH [OF t1(2), of "ttls @ [lease_expires ?l - lease_renewed ?l]"] obtain t' ttls' A' where
      "cmdLeaseKeepAliveBatch_loop L epoch ids t1 (ttls @ [lease_expires ?l - lease_renewed ?l]) =
         Inr (t', ttls @ (lease_expires ?l - lease_renewed ?l) # ttls')" "length ttls' = length ids"
      "sm_rel env view t' b A'" "view t' DBI_meta = view t1 DBI_meta" "view t' DBI_event = view t1 DBI_event" by auto
    then show ?thesis using False get t1
      by (intro exI [of _ t'] exI [of _ "(lease_expires ?l - lease_renewed ?l) # ttls'"] exI [of _ A']) simp
  qed
qed auto

text \<open>A grant: the counters other than the last lease id stay. Without an id in the request the lease gets
  a free one.\<close>

lemma grant_item_spec:
  assumes rel: "sm_rel env view t b A" and few: "mdb_Entries L t DBI_lease_exp + 1 < 2 ^ 64"
    and cnt: "counter view t metaKeyLeaseID = Inr lid"
  shows "\<exists>t1 item. grant_item L t i = Inr (t1, item) \<and> sm_rel env view t1 b A \<and> view t1 DBI_event = view t DBI_event \<and>
    (i = 0 \<longrightarrow> item = lease_zero\<lparr>lease_id := lease_id item\<rparr> \<and> lease_id (lease_at (a_leases A) (lease_id item)) = 0) \<and>
    (\<exists>v. counter view t1 metaKeyLeaseID = Inr v) \<and> (\<forall>key. key \<noteq> metaKeyLeaseID \<longrightarrow> counter view t1 key = counter view t key)"
proof (cases "i = 0")
  case True
  have "card (dom (a_leases A)) + 1 < 2 ^ 64" using card_leases_exps [OF rel] few by simp
  from nextLeaseID_spec [OF sm_relD(2) [OF rel] free_id [OF sm_relD(2) [OF rel] this, of lid]] obtain j where
    j: "nextLeaseID L (Suc (mdb_Entries L t DBI_lease)) t lid = Inr j" "lease_id (lease_at (a_leases A) j) = 0"
    using card_leases [OF sm_relD(2) [OF rel]] by auto
  obtain t1 where t1: "putUint64 L t DBI_meta metaKeyLeaseID j = Inr t1" using putUint64_ok [of DBI_meta metaKeyLeaseID t j] by auto
  have "sm_rel env view t1 b A" by (rule sm_rel_meta [OF _ rel]) (use putUint64_other [OF t1] in auto)
  then show ?thesis using True j t1 cnt putUint64_counter [OF t1] putUint64_other [OF t1, of DBI_event]
    by (simp add: grant_item_def getLeaseID_def setLeaseID_def getUint64_counter lease_zero_def del: nextLeaseID.simps)
next
  case False
  then show ?thesis using rel cnt by (simp add: grant_item_def dbLease_get_spec [OF sm_relD(2) [OF rel]])
qed

lemma cmdLeaseGrant_spec:
  assumes rel: "sm_rel env view t b A" and few: "mdb_Entries L t DBI_lease_exp + 1 < 2 ^ 64"
    and cnt: "counter view t metaKeyLeaseID = Inr lid"
  shows "\<exists>t' resp val A'. cmdLeaseGrant L t epoch req = Inr (t', resp, val) \<and> sm_rel env view t' b A' \<and> view t' DBI_event = view t DBI_event \<and>
    (LeaseGrantRequest_ID req = 0 \<longrightarrow> val = 1 \<and> lease_id (lease_at (a_leases A) (LeaseGrantResponse_ID resp)) = 0 \<and>
       A' = with_lease \<lparr>lease_id = LeaseGrantResponse_ID resp, lease_expires = epoch + LeaseGrantRequest_TTL req, lease_renewed = epoch\<rparr> A) \<and>
    (\<exists>v. counter view t' metaKeyLeaseID = Inr v) \<and> (\<forall>key. key \<noteq> metaKeyLeaseID \<longrightarrow> counter view t' key = counter view t key)"
proof -
  let ?i = "LeaseGrantRequest_ID req"
  from grant_item_spec [OF rel few cnt, of ?i] obtain t1 item where
    t1: "grant_item L t ?i = Inr (t1, item)" "sm_rel env view t1 b A" "view t1 DBI_event = view t DBI_event"
      "?i = 0 \<longrightarrow> item = lease_zero\<lparr>lease_id := lease_id item\<rparr> \<and> lease_id (lease_at (a_leases A) (lease_id item)) = 0"
      "\<exists>v. counter view t1 metaKeyLeaseID = Inr v" "\<forall>key. key \<noteq> metaKeyLeaseID \<longrightarrow> counter view t1 key = counter view t key" by blast
  let ?l = "item\<lparr>lease_renewed := epoch, lease_expires := epoch + LeaseGrantRequest_TTL req\<rparr>"
  from store_lease [OF t1(2), of ?l] obtain t2 t3 where
    s: "dbLease_put L t1 ?l = Inr t2" "dbLeaseExp_put L t2 ?l = Inr t3" "sm_rel env view t3 b (with_lease ?l A)"
      "view t3 DBI_meta = view t1 DBI_meta" "view t3 DBI_event = view t1 DBI_event" by blast
  note run = cmdLeaseGrant_def [of L t epoch req, folded grant_item_def, unfolded t1(1) Let_def]
  show ?thesis
  proof (cases "0 < lease_expires item")
    case True
    then have "?i \<noteq> 0" using t1(4) by (metis lease.select_convs(2) lease.update_convs(1) lease_zero_def word_less_1 word_neq_0_conv)
    then show ?thesis using True t1 by (auto simp: run)
  next
    case False
    let ?resp = "\<lparr>LeaseGrantResponse_Header = None, LeaseGrantResponse_ID = lease_id item,
        LeaseGrantResponse_TTL = LeaseGrantRequest_TTL req, LeaseGrantResponse_Error = None\<rparr>"
    have l: "?l = \<lparr>lease_id = lease_id item, lease_expires = epoch + LeaseGrantRequest_TTL req, lease_renewed = epoch\<rparr>"
      by (cases item) simp
    have "cmdLeaseGrant L t epoch req = Inr (t3, ?resp, 1)" using False s(1,2) by (simp add: run)
    then show ?thesis using t1(3-6) s(3,5) counter_other [OF s(4)] unfolding l
      by (intro exI [of _ t3] exI [of _ ?resp] exI [of _ 1] exI [of _ "with_lease \<lparr>lease_id = lease_id item,
          lease_expires = epoch + LeaseGrantRequest_TTL req, lease_renewed = epoch\<rparr> A"]) simp
  qed
qed

end

section \<open>Revocation\<close>

definition lease_keys :: "abs_state \<Rightarrow> u64 \<Rightarrow> bytes set" where
  "lease_keys A i = {k. (i, k) \<in> a_keys A}"

definition revoked :: "keyrev \<Rightarrow> u64 \<Rightarrow> u64 \<Rightarrow> abs_state \<Rightarrow> abs_state" where
  "revoked r epoch i A =
     (let D = {k \<in> lease_keys A i. live (a_hist A k)} in
      A\<lparr>a_hist := delete_keys r D (a_hist A), a_events := a_events A \<union> {(r, epoch, k) | k. k \<in> D},
        a_leases := (a_leases A)(i := None), a_exps := a_exps A - {(lease_expires (lease_at (a_leases A) i), i)},
        a_keys := a_keys A - {i} \<times> UNIV\<rparr>)"

lemma linked_revoked:
  assumes "linked A" "isdel r"
  shows "linked (revoked r epoch i A)"
proof -
  let ?D = "{k \<in> lease_keys A i. live (a_hist A k)}"
  have "linked (A\<lparr>a_hist := delete_keys r ?D (a_hist A), a_events := a_events A \<union> {(r, epoch, k) | k. k \<in> ?D},
      a_keys := a_keys A - {i} \<times> UNIV\<rparr>)"
    by (rule linked_tombs [OF assms(1)]) (use assms(2) in \<open>auto simp: lease_keys_def\<close>)
  then show ?thesis by (auto simp: linked_def revoked_def Let_def)
qed

lemma delete_keys_union:
  assumes "D \<inter> D' = {}"
  shows "delete_keys r D' (delete_keys r D H) = delete_keys r (D \<union> D') H"
  using assms by (auto simp: delete_keys_def fun_eq_iff)

context lmdb
begin

text \<open>The batches of a revocation: \<open>D\<close> are the keys swept so far.\<close>

lemma revoke_loop_spec:
  fixes A rv epoch i t0
  defines "r \<equiv> newkeyrev rv 0 True" and "tombs \<equiv> \<lambda>D. {k \<in> D. live (a_hist A k)}"
  assumes lk: "linked A" and rv: "rev_fits rv 0" "rv \<noteq> 0" and lt: "\<forall>k. \<forall>h \<in> set (a_hist A k). vrev h < r"
    and rel: "kv_rel env view t (delete_keys r (tombs D) (a_hist A))" "lkey_rel view t (a_keys A - {i} \<times> D)"
    and ev: "set (view t DBI_event) = set (view t0 DBI_event) \<union> {(be64 r, event_bytes r epoch k) | k. k \<in> tombs D}"
    and frame: "\<forall>d. d \<notin> {DBI_revision, DBI_event, DBI_lease_key} \<longrightarrow> view t d = view t0 d"
    and sub: "D \<subseteq> lease_keys A i" and fuel: "card (lease_keys A i - D) < n" and fin: "finite (lease_keys A i)"
  shows "\<exists>t' ks. cmdLeaseRevoke_loop L n rv epoch i t keys = Inr (t', keys @ ks) \<and> set ks = lease_keys A i - D \<and>
    kv_rel env view t' (delete_keys r (tombs (lease_keys A i)) (a_hist A)) \<and> lkey_rel view t' (a_keys A - {i} \<times> UNIV) \<and>
    set (view t' DBI_event) = set (view t0 DBI_event) \<union> {(be64 r, event_bytes r epoch k) | k. k \<in> tombs (lease_keys A i)} \<and>
    (\<forall>d. d \<notin> {DBI_revision, DBI_event, DBI_lease_key} \<longrightarrow> view t' d = view t0 d)"
  using rel ev frame sub fuel
proof (induction n arbitrary: t D keys)
  case (Suc n)
  let ?K = "a_keys A - {i} \<times> D"
  have cur: "cur_SetRange L t DBI_lease_key (uvarint i) = first_entry (\<lambda>e. uvarint i \<le> fst e) (view t DBI_lease_key)" by (simp add: SetRange)
  from sweep_loop_spec [OF Suc.prems(2) cur, of 100 "[]"] obtain t1 ks where
    s: "dbLeaseKey_sweep L t i 100 = Inr (t1, ks)" "lkey_rel view t1 (?K - {i} \<times> set ks)" "{i} \<times> set ks \<subseteq> ?K" "distinct ks"
      "length ks < 100 \<longrightarrow> (\<forall>k. (i, k) \<in> ?K \<longrightarrow> k \<in> set ks)" "\<forall>d. d \<noteq> DBI_lease_key \<longrightarrow> view t1 d = view t d"
    by (auto simp: dbLeaseKey_sweep_def OpenCursor AppendUvarint_def simp del: dbLeaseKey_sweep_loop.simps)
  have ks: "set ks \<subseteq> lease_keys A i" "set ks \<inter> D = {}" using s(3) by (auto simp: lease_keys_def)
  have rel1: "kv_rel env view t1 (delete_keys r (tombs D) (a_hist A))" using Suc.prems(1) s(6) by (simp add: kv_rel_def)
  show ?case
  proof (cases "ks = []")
    case True
    then have all: "lease_keys A i \<subseteq> D" using s(5) by (auto simp: lease_keys_def)
    then have D: "D = lease_keys A i" using Suc.prems(5) by blast
    have "a_keys A - {i} \<times> D = a_keys A - {i} \<times> UNIV" unfolding D by (auto simp: lease_keys_def)
    then show ?thesis using True s(1,2,6) rel1 Suc.prems(3,4) unfolding D by (intro exI [of _ t1] exI [of _ "[]"]) simp
  next
    case False
    let ?H = "delete_keys r (tombs D) (a_hist A)"
    have same: "?H k = a_hist A k" if "k \<in> set ks" for k using that ks(2) by (auto simp: delete_keys_def tombs_def)
    have ne: "\<forall>k \<in> set ks. ?H k \<noteq> []" using same lk ks(1) by (auto simp: linked_def lease_keys_def)
    have lt1: "\<forall>k \<in> set ks. live (?H k) \<longrightarrow> (\<forall>h \<in> set (?H k). vrev h < newkeyrev rv 0 True)" using same lt by (simp add: r_def)
    from deleteBatch_spec [OF rel1 rv ne lt1, of epoch krec_zero] obtain t2 where
      t2: "dbKv_deleteBatch L t1 rv 0 epoch ks = Inr t2" "kv_rel env view t2 (delete_keys r {k \<in> set ks. live (?H k)} ?H)"
        "set (view t2 DBI_event) = set (view t1 DBI_event) \<union> {(be64 r, event_bytes r epoch k) | k. k \<in> {k \<in> set ks. live (?H k)}}"
        "\<forall>d. d \<notin> {DBI_revision, DBI_event} \<longrightarrow> view t2 d = view t1 d"
      by (auto simp: dbKv_deleteBatch_def OpenCursor Let_def r_def)
    let ?D = "D \<union> set ks"
    have tk: "{k \<in> set ks. live (?H k)} = tombs (set ks)" using same by (auto simp: tombs_def)
    have tu: "tombs ?D = tombs D \<union> tombs (set ks)" by (auto simp: tombs_def)
    have dis: "tombs D \<inter> tombs (set ks) = {}" using ks(2) by (auto simp: tombs_def)
    have a: "kv_rel env view t2 (delete_keys r (tombs ?D) (a_hist A))"
      using t2(2) unfolding tk tu delete_keys_union [OF dis] .
    have "?K - {i} \<times> set ks = a_keys A - {i} \<times> ?D" by auto
    then have bb: "lkey_rel view t2 (a_keys A - {i} \<times> ?D)" using s(2) t2(4) by (simp add: stored_def)
    have c: "set (view t2 DBI_event) = set (view t0 DBI_event) \<union> {(be64 r, event_bytes r epoch k) | k. k \<in> tombs ?D}"
      unfolding t2(3) tk tu using Suc.prems(3) s(6) by auto
    have dd: "\<forall>d. d \<notin> {DBI_revision, DBI_event, DBI_lease_key} \<longrightarrow> view t2 d = view t0 d" using t2(4) s(6) Suc.prems(4) by simp
    have e: "?D \<subseteq> lease_keys A i" using Suc.prems(5) ks(1) by blast
    obtain k where k: "k \<in> set ks" using False by (cases ks) auto
    have "lease_keys A i - ?D \<subset> lease_keys A i - D" using k ks by blast
    then have "card (lease_keys A i - ?D) < card (lease_keys A i - D)" by (rule psubset_card_mono [rotated]) (simp add: fin)
    then have f: "card (lease_keys A i - ?D) < n" using Suc.prems(6) by simp
    from Suc.IH [OF a bb c dd e f, of "keys @ ks"] obtain t' ks' where
      w: "cmdLeaseRevoke_loop L n rv epoch i t2 (keys @ ks) = Inr (t', (keys @ ks) @ ks')" "set ks' = lease_keys A i - ?D"
        "kv_rel env view t' (delete_keys r (tombs (lease_keys A i)) (a_hist A))" "lkey_rel view t' (a_keys A - {i} \<times> UNIV)"
        "set (view t' DBI_event) = set (view t0 DBI_event) \<union> {(be64 r, event_bytes r epoch k) | k. k \<in> tombs (lease_keys A i)}"
        "\<forall>d. d \<notin> {DBI_revision, DBI_event, DBI_lease_key} \<longrightarrow> view t' d = view t0 d" by blast
    have "set (ks @ ks') = lease_keys A i - D" using w(2) ks by auto
    then show ?thesis using False s(1) t2(1) w by (intro exI [of _ t'] exI [of _ "ks @ ks'"]) simp
  qed
qed simp

lemma cmdLeaseRevoke_missing:
  assumes "sm_rel env view t b A" "lease_id (lease_at (a_leases A) i) = 0"
  shows "cmdLeaseRevoke L t rv epoch i = Inr (t, [], codes_NotFound)"
  using assms(2) by (simp add: cmdLeaseRevoke_def dbLease_get_spec [OF sm_relD(2) [OF assms(1)]])

lemma cmdLeaseRevoke_spec:
  assumes rel: "sm_rel env view t b A" and rv: "rev_fits rv 0" "rv \<noteq> 0" "b < newkeyrev rv 0 True"
    and l: "a_leases A i = Some l" "i \<noteq> 0"
  shows "\<exists>t' keys. cmdLeaseRevoke L t rv epoch i = Inr (t', keys, 1) \<and> set keys = lease_keys A i \<and>
    sm_rel env view t' (if keys = [] then b else newkeyrev rv 0 True) (revoked (newkeyrev rv 0 True) epoch i A) \<and>
    view t' DBI_meta = view t DBI_meta \<and> ev_new view t t' rv (set keys)"
proof -
  let ?r = "newkeyrev rv 0 True" and ?D = "{k \<in> lease_keys A i. live (a_hist A k)}"
  note d = sm_relD [OF rel]
  have id: "lease_id l = i" and at: "lease_at (a_leases A) i = l" using d(2) l(1) by (auto simp: lease_rel_def lease_at_def)
  have lt: "\<forall>k. \<forall>h \<in> set (a_hist A k). vrev h < ?r" using kv_invD(4) [OF d(1)] rv(3) by (meson order_le_less_trans)
  have fk: "finite (a_keys A)" by (rule lkeys.stored_finite [OF d(4)])
  have im: "lease_keys A i \<subseteq> snd ` a_keys A" by (force simp: lease_keys_def)
  have fin: "finite (lease_keys A i)" using finite_subset [OF im] fk by blast
  have "card (lease_keys A i) \<le> card (a_keys A)" using card_mono [OF finite_imageI [OF fk] im] card_image_le [OF fk, of snd] by linarith
  then have fuel: "card (lease_keys A i - {}) < Suc (mdb_Entries L t DBI_lease_key)" using lkeys.stored_card [OF d(4)] by simp
  from revoke_loop_spec [OF d(5) rv(1,2) lt, of env t "{}" i t epoch, OF _ _ _ _ _ fuel fin, of "[]"] d(4,6) obtain t1 ks where
    t1: "cmdLeaseRevoke_loop L (Suc (mdb_Entries L t DBI_lease_key)) rv epoch i t [] = Inr (t1, ks)" "set ks = lease_keys A i"
      "kv_rel env view t1 (delete_keys ?r ?D (a_hist A))" "lkey_rel view t1 (a_keys A - {i} \<times> UNIV)"
      "set (view t1 DBI_event) = set (view t DBI_event) \<union> {(be64 ?r, event_bytes ?r epoch k) | k. k \<in> ?D}"
      "\<forall>d. d \<notin> {DBI_revision, DBI_event, DBI_lease_key} \<longrightarrow> view t1 d = view t d" by (auto simp del: cmdLeaseRevoke_loop.simps)
  have x: "exp_rel view t1 (a_exps A)" "(lease_expires l, lease_id l) \<in> a_exps A"
    using d(3,5) t1(6) l(1) id by (simp_all add: stored_def linked_def)
  from dbLeaseExp_del_spec [OF x] obtain t2 where
    t2: "dbLeaseExp_del L t1 l = Inr t2" "exp_rel view t2 (a_exps A - {(lease_expires l, i)})"
      "\<forall>d. d \<noteq> DBI_lease_exp \<longrightarrow> view t2 d = view t1 d" using id by auto
  have m: "lease_rel view t2 (a_leases A)" using d(2) t1(6) t2(3) by (simp add: lease_rel_def)
  from dbLease_del_spec [OF m l(1)] obtain t3 where
    t3: "dbLease_del L t2 i = Inr t3" "lease_rel view t3 ((a_leases A)(i := None))" "\<forall>d. d \<noteq> DBI_lease \<longrightarrow> view t3 d = view t2 d" by blast
  let ?A = "revoked ?r epoch i A"
  have "kv_inv env view t1 (if ?D = {} then b else ?r) (delete_keys ?r ?D (a_hist A)) (a_events A \<union> {(?r, epoch, k) | k. k \<in> ?D})"
    by (rule inv_tombs [OF d(1) rv(3) t1(3,5)])
  then have "kv_inv env view t1 (if ks = [] then b else ?r) (a_hist ?A) (a_events ?A)"
    using t1(2) less_imp_le [OF rv(3)] by (auto simp: revoked_def Let_def intro: inv_weaken split: if_splits)
  then have inv: "kv_inv env view t3 (if ks = [] then b else ?r) (a_hist ?A) (a_events ?A)"
    using inv_frame [of view t3 t1 env] t2(3) t3(3) by simp
  have "sm_rel env view t3 (if ks = [] then b else ?r) ?A"
    unfolding sm_rel_def
  proof (intro conjI)
    show "linked ?A" by (rule linked_revoked [OF d(5)]) (use isdel_newkeyrev [OF rv(1), of True] in simp)
    show "lkey_rel view t3 (a_keys ?A)" using t1(4) t2(3) t3(3) by (simp add: stored_def revoked_def Let_def)
    show "exp_rel view t3 (a_exps ?A)" using t2(2) t3(3) at by (simp add: stored_def revoked_def Let_def)
    show "lease_rel view t3 (a_leases ?A)" using t3(2) by (simp add: revoked_def Let_def)
  qed (rule inv)
  moreover have "cmdLeaseRevoke L t rv epoch i = Inr (t3, ks, 1)"
    using at id l(2) t1(1) t2(1) t3(1)
    by (simp add: cmdLeaseRevoke_def dbLease_get_spec [OF d(2)] del: cmdLeaseRevoke_loop.simps)
  moreover have "view t3 DBI_meta = view t DBI_meta" using t1(6) t2(3) t3(3) by simp
  moreover have "ev_new view t t3 rv (set ks)"
    by (rule ev_new_frame [OF ev_new_tombs [where view = view and t = t and t' = t1, OF t1(5)]])
      (use t1(2) t2(3) t3(3) upper_newkeyrev [OF rv(1), of True] in auto)
  ultimately show ?thesis using t1(2) by blast
qed

end

section \<open>Expiry\<close>

lemma exp_enc_le: "exp_enc x \<le> exp_enc y \<Longrightarrow> fst x \<le> fst y"
  by (cases x; cases y) (metis append_lexord_eqlen be64_le exp_enc.simps fst_conv leD length_be64 not_le_imp_less)

lemma exp_enc_dec:
  "trimChecksum (exp_enc x) (addChecksum (exp_enc x) []) = Inr []" "\<not> length (exp_enc x) < 9"
  "Uint64 (take 8 (exp_enc x)) = fst x" "Uvarint (drop 8 (exp_enc x)) = (snd x, int (length (uvarint (snd x))))"
proof -
  have "1 \<le> length (uvarint (snd x))" using length_uvarint_pos [of "snd x"] by linarith
  then show "\<not> length (exp_enc x) < 9" by (cases x) simp
qed (cases x, simp)+

text \<open>The ids a tick still has to revoke: those of the entries after the cursor that are due.\<close>

definition due :: "u64 \<Rightarrow> (u64 \<times> u64) set \<Rightarrow> u64 set" where
  "due epoch X = {i. i \<noteq> 0 \<and> (\<exists>e. (e, i) \<in> X \<and> e \<le> epoch)}"

definition rest :: "bytes option \<Rightarrow> (u64 \<times> u64) set \<Rightarrow> (u64 \<times> u64) set" where
  "rest p X = {x \<in> X. case p of None \<Rightarrow> True | Some k \<Rightarrow> k < exp_enc x}"

context lmdb
begin

lemma cur_Next_exp:
  assumes "exp_rel view t X"
  shows "(cur_Next L t DBI_lease_exp (map_option key_entry p) = Inl ErrMdbNotFound \<and> rest p X = {}) \<or>
    (\<exists>x \<in> rest p X. cur_Next L t DBI_lease_exp (map_option key_entry p) = Inr (key_entry (exp_enc x)) \<and>
       (\<forall>y \<in> rest p X. exp_enc x \<le> exp_enc y))"
  using exps.first_key [OF assms, of "after (map_option key_entry p)"]
  by (cases p) (auto simp: Next rest_def exps.key_entry_less)

lemma tick_expire_spec:
  assumes rel: "sm_rel env view t b A" and b: "upper b \<le> newRev" and room: "unat newRev + 1 < 2 ^ 52"
  shows "\<exists>t' ks b' A'. tick_expire L epoch i (t, newRev, keys) = Inr (t', bumpRev newRev ks, keys @ ks) \<and>
    sm_rel env view t' b' A' \<and> upper b' \<le> bumpRev newRev ks \<and> view t' DBI_meta = view t DBI_meta \<and> ev_new view t t' (newRev + 1) (set ks) \<and>
    a_leases A' = (a_leases A)(i := if i = 0 then a_leases A 0 else None) \<and>
    a_exps A - {(lease_expires (lease_at (a_leases A) i), i)} \<subseteq> a_exps A' \<and> a_exps A' \<subseteq> a_exps A"
proof (cases "i = 0 \<or> a_leases A i = None")
  case True
  then have "lease_id (lease_at (a_leases A) i) = 0"
    using sm_relD(2) [OF rel] by (cases "a_leases A i") (auto simp: lease_at_def lease_zero_def lease_rel_def)
  from cmdLeaseRevoke_missing [OF rel this] have "tick_expire L epoch i (t, newRev, keys) = Inr (t, bumpRev newRev [], keys @ [])"
    by (simp add: tick_expire_def)
  moreover have "a_leases A = (a_leases A)(i := if i = 0 then a_leases A 0 else None)" using True by auto
  ultimately show ?thesis using rel b by (intro exI [of _ t] exI [of _ "[]"] exI [of _ b] exI [of _ A]) (auto simp: bumpRev_def)
next
  case False
  then obtain l where l: "a_leases A i = Some l" "i \<noteq> 0" by auto
  have n1: "unat (newRev + 1) = unat newRev + 1" using room by (simp add: unat_plus_if')
  then have fits: "rev_fits (newRev + 1) 0" "newRev + 1 \<noteq> 0" "upper b < newRev + 1"
    using room b by (auto simp: rev_fits_def word_less_nat_alt word_le_nat_alt dest: arg_cong [of _ _ unat])
  from cmdLeaseRevoke_spec [OF rel fits(1,2) upper_less_newkeyrev [OF fits(1,3)] l, of epoch] obtain t' ks where
    t': "cmdLeaseRevoke L t (newRev + 1) epoch i = Inr (t', ks, 1)"
      "sm_rel env view t' (if ks = [] then b else newkeyrev (newRev + 1) 0 True) (revoked (newkeyrev (newRev + 1) 0 True) epoch i A)"
      "view t' DBI_meta = view t DBI_meta" "ev_new view t t' (newRev + 1) (set ks)" by blast
  have "upper (if ks = [] then b else newkeyrev (newRev + 1) 0 True) \<le> bumpRev newRev ks"
    using b upper_newkeyrev [OF fits(1), of True] by (simp add: bumpRev_def)
  then show ?thesis using t' l by (fastforce simp: tick_expire_def revoked_def Let_def)
qed

lemma due_rest_step:
  assumes "x \<in> rest p X" "\<forall>y \<in> rest p X. exp_enc x \<le> exp_enc y" "X - {(e, snd x)} \<subseteq> X'" "X' \<subseteq> X"
  shows "rest (Some (exp_enc x)) X' \<subseteq> rest p X - {x}"
    and "fst x \<le> epoch \<Longrightarrow> due epoch (rest p X) - {snd x} = due epoch (rest (Some (exp_enc x)) X') - {snd x}"
proof -
  have gt: "k < exp_enc y" if "p = Some k" "exp_enc x < exp_enc y" for k y
    using assms(1) that by (auto simp: rest_def intro: order_less_trans)
  then show sub: "rest (Some (exp_enc x)) X' \<subseteq> rest p X - {x}" using assms(4) by (auto simp: rest_def split: option.splits)
  assume "fst x \<le> epoch"
  have "y \<in> rest (Some (exp_enc x)) X'" if "y \<in> rest p X" "snd y \<noteq> snd x" for y
  proof -
    have "exp_enc x \<noteq> exp_enc y" using that(2) exps.enc_inject by metis
    then have "exp_enc x < exp_enc y" using assms(2) that(1) by (simp add: order_less_le)
    moreover have "y \<in> X'" using that assms(3) by (cases y) (auto simp: rest_def)
    ultimately show ?thesis by (simp add: rest_def)
  qed
  then show "due epoch (rest p X) - {snd x} = due epoch (rest (Some (exp_enc x)) X') - {snd x}"
    using sub by (fastforce simp: due_def)
qed

lemma tick_scan_spec:
  assumes "sm_rel env view t b A" "upper b \<le> newRev" "card (rest p (a_exps A)) < n" "unat newRev + card (rest p (a_exps A)) < 2 ^ 52"
    and "cur = cur_Next L t DBI_lease_exp (map_option key_entry p)"
  shows "\<exists>t' newRev' keys' b' A'. dbLeaseExp_scan_loop L n epoch (tick_expire L epoch) cur (t, newRev, keys) = Inr (t', newRev', keys @ keys') \<and>
    sm_rel env view t' b' A' \<and> upper b' \<le> newRev' \<and> newRev \<le> newRev' \<and> unat newRev' \<le> unat newRev + card (rest p (a_exps A)) \<and>
    view t' DBI_meta = view t DBI_meta \<and> a_leases A' = a_leases A |` (- due epoch (rest p (a_exps A))) \<and>
    ev_new view t t' (newRev + 1) (set keys')"
  using assms
proof (induction n arbitrary: t b A newRev p cur keys)
  case (Suc n)
  note d = sm_relD [OF Suc.prems(1)]
  let ?R = "rest p (a_exps A)"
  have stop: ?case if "dbLeaseExp_scan_loop L (Suc n) epoch (tick_expire L epoch) cur (t, newRev, keys) = Inr (t, newRev, keys)" "due epoch ?R = {}"
    using Suc.prems(1,2) that by (intro exI [of _ t] exI [of _ newRev] exI [of _ "[]"] exI [of _ b] exI [of _ A]) simp
  from cur_Next_exp [OF d(3), of p] show ?case
  proof (elim disjE bexE conjE)
    assume "cur_Next L t DBI_lease_exp (map_option key_entry p) = Inl ErrMdbNotFound" "?R = {}"
    then show ?thesis using Suc.prems(5) by (intro stop) (auto simp: due_def)
  next
    fix x assume x: "x \<in> ?R" "cur_Next L t DBI_lease_exp (map_option key_entry p) = Inr (key_entry (exp_enc x))"
      "\<forall>y \<in> ?R. exp_enc x \<le> exp_enc y"
    have cur: "cur = Inr (exp_enc x, addChecksum (exp_enc x) [])" unfolding Suc.prems(5) x(2) by (simp add: key_entry_def)
    have fin: "finite ?R" using exps.stored_finite [OF d(3)] by (simp add: rest_def)
    show ?thesis
    proof (cases "fst x \<le> epoch")
      case False
      have "due epoch ?R = {}"
      proof -
        have "\<not> fst y \<le> epoch" if "y \<in> ?R" for y using exp_enc_le [OF bspec [OF x(3) that]] False by auto
        then show ?thesis by (auto simp: due_def)
      qed
      then show ?thesis using False by (intro stop) (simp add: cur exp_enc_dec not_le)
    next
      case True
      have pos: "0 < card ?R" using x(1) fin by (metis card_gt_0_iff empty_iff)
      have room: "unat newRev + 1 < 2 ^ 52" using Suc.prems(4) pos by linarith
      from tick_expire_spec [OF Suc.prems(1,2) room, of epoch "snd x" keys] obtain t1 ks b1 A1 where
        t1: "tick_expire L epoch (snd x) (t, newRev, keys) = Inr (t1, bumpRev newRev ks, keys @ ks)" "sm_rel env view t1 b1 A1"
          "upper b1 \<le> bumpRev newRev ks" "view t1 DBI_meta = view t DBI_meta"
          "a_leases A1 = (a_leases A)(snd x := if snd x = 0 then a_leases A 0 else None)"
          "a_exps A - {(lease_expires (lease_at (a_leases A) (snd x)), snd x)} \<subseteq> a_exps A1" "a_exps A1 \<subseteq> a_exps A"
          "ev_new view t t1 (newRev + 1) (set ks)" by blast
      let ?n1 = "bumpRev newRev ks" and ?p1 = "Some (exp_enc x)" and ?R1 = "rest (Some (exp_enc x)) (a_exps A1)"
      note step = due_rest_step [OF x(1,3) t1(6,7)]
      have "card ?R1 \<le> card (?R - {x})" by (rule card_mono [OF _ step(1)]) (simp add: fin)
      then have c: "card ?R1 + 1 \<le> card ?R" using x(1) fin pos by simp
      have n1: "newRev \<le> ?n1" "unat ?n1 \<le> unat newRev + 1"
        using room by (auto simp: bumpRev_def unat_plus_if' word_le_nat_alt)
      have c1: "card ?R1 < n" "unat ?n1 + card ?R1 < 2 ^ 52" using c n1(2) Suc.prems(3,4) by linarith+
      have nx: "cur_Next L t1 DBI_lease_exp (Some (exp_enc x, addChecksum (exp_enc x) [])) = cur_Next L t1 DBI_lease_exp (map_option key_entry ?p1)"
        by (simp add: key_entry_def)
      from Suc.IH [OF t1(2,3) c1 nx, of "keys @ ks"] obtain t' newRev' keys' b' A' where
        w: "dbLeaseExp_scan_loop L n epoch (tick_expire L epoch) (cur_Next L t1 DBI_lease_exp (Some (exp_enc x, addChecksum (exp_enc x) [])))
            (t1, ?n1, keys @ ks) = Inr (t', newRev', (keys @ ks) @ keys')" "sm_rel env view t' b' A'" "upper b' \<le> newRev'" "?n1 \<le> newRev'"
          "unat newRev' \<le> unat ?n1 + card ?R1" "view t' DBI_meta = view t1 DBI_meta" "a_leases A' = a_leases A1 |` (- due epoch ?R1)"
          "ev_new view t1 t' (?n1 + 1) (set keys')" by blast
      have run: "dbLeaseExp_scan_loop L (Suc n) epoch (tick_expire L epoch) cur (t, newRev, keys) = Inr (t', newRev', keys @ ks @ keys')"
        using w(1) t1(1) leD [OF True] by (simp add: cur exp_enc_dec)
      have inx: "snd x \<noteq> 0 \<Longrightarrow> snd x \<in> due epoch ?R" using x(1) True by (cases x) (auto simp: due_def)
      have "a_leases A' = a_leases A |` (- due epoch ?R)"
      proof
        fix j
        show "a_leases A' j = (a_leases A |` (- due epoch ?R)) j"
        proof (cases "j = snd x")
          case False
          then have "j \<in> due epoch ?R \<longleftrightarrow> j \<in> due epoch ?R1" using step(2) [OF True] by blast
          then show ?thesis using False by (simp add: w(7) t1(5) restrict_map_def)
        next
          case j: True
          show ?thesis
          proof (cases "snd x = 0")
            case True
            then show ?thesis using j by (simp add: w(7) t1(5) restrict_map_def due_def)
          next
            case False
            then show ?thesis using j inx by (simp add: w(7) t1(5) restrict_map_def)
          qed
        qed
      qed
      moreover have "newRev \<le> newRev'" "unat newRev' \<le> unat newRev + card ?R" using n1 w(4,5) c by (auto intro: order_trans)
      moreover have "view t' DBI_meta = view t DBI_meta" using w(6) t1(4) by simp
      moreover have "newRev + 1 \<le> ?n1 + 1" using n1 room by (simp add: word_le_nat_alt unat_plus_if')
      then have "ev_new view t t' (newRev + 1) (set (ks @ keys'))" using ev_new_trans [OF t1(8) w(8)] by simp
      ultimately show ?thesis using run w(2,3) by blast
    qed
  qed
qed simp

end

end
