(* ===== verification/Sm_Update.thy ===== *)
theory Sm_Update
  imports Sm_Lease Sm_Query
begin

text \<open>
  \<open>Update\<close> of \<open>src/state_machine.go\<close> as a whole: every entry of the log is applied without a panic, keeps the
  invariant, and never lowers the revision or the term; at the end the counters name the last entry and the
  last revision. \<open>Open\<close> establishes the invariant, and no query of a state that has it fails.

  \<open>entry_ok\<close> says what an entry must not contain: the inputs on which the code panics (they are findings of
  the development) and the exhaustion of the 52 bits of a revision.
\<close>

declare split_paired_Ex [simp del] split_paired_All [simp del]

section \<open>The invariant of a run\<close>

definition metaKeys :: "bytes list" where
  "metaKeys = [metaKeyEpoch, metaKeyIndex, metaKeyLeaseID, metaKeyRevision, metaKeyRevisionCompacted, metaKeyRevisionMin, metaKeyTerm]"

definition counters_ok :: "('t \<Rightarrow> dbi \<Rightarrow> entry list) \<Rightarrow> 't \<Rightarrow> bool" where
  "counters_ok view t \<longleftrightarrow> (\<forall>key \<in> set metaKeys. \<exists>v. counter view t key = Inr v)"

definition upd_inv :: "'x env_scheme \<Rightarrow> ('t \<Rightarrow> dbi \<Rightarrow> entry list) \<Rightarrow> 't upd \<Rightarrow> bool" where
  "upd_inv env view u \<longleftrightarrow> (\<exists>b A. sm_rel env view (u_txn u) b A \<and> upper b \<le> u_newRev u) \<and> counters_ok view (u_txn u) \<and>
     counter view (u_txn u) metaKeyEpoch = Inr (u_epoch u)"

definition u_step :: "('t \<Rightarrow> dbi \<Rightarrow> entry list) \<Rightarrow> 't upd \<Rightarrow> 't upd \<Rightarrow> bool" where
  "u_step view u u' \<longleftrightarrow> u_newRev u \<le> u_newRev u' \<and>
     counter view (u_txn u') metaKeyIndex = counter view (u_txn u) metaKeyIndex \<and>
     counter view (u_txn u') metaKeyRevision = counter view (u_txn u) metaKeyRevision \<and>
     (\<exists>a c. counter view (u_txn u) metaKeyTerm = Inr a \<and> counter view (u_txn u') metaKeyTerm = Inr c \<and> a \<le> c)"

text \<open>The event log under an entry other than a compaction: the new events are later than the revision before, and
  their keys are among the ones whose watchers are alerted.\<close>

definition log_grows :: "('t \<Rightarrow> dbi \<Rightarrow> entry list) \<Rightarrow> 't \<Rightarrow> 't \<Rightarrow> u64 \<Rightarrow> bytes set \<Rightarrow> bool" where
  "log_grows view t t' n K \<longleftrightarrow> (\<exists>N. set (view t' DBI_event) = set (view t DBI_event) \<union> evt_entry ` N \<and>
     (\<forall>x \<in> N. n < upper (fst x) \<and> snd (snd x) \<in> K))"

definition log_step :: "('t \<Rightarrow> dbi \<Rightarrow> entry list) \<Rightarrow> 't upd \<Rightarrow> 't upd \<Rightarrow> bool" where
  "log_step view u u' \<longleftrightarrow> (\<exists>ks. u_keys u' = u_keys u @ ks \<and> log_grows view (u_txn u) (u_txn u') (u_newRev u) (set ks))"

lemma log_stepI:
  assumes "ev_new view (u_txn u) (u_txn u') m (set ks)" "u_newRev u < m" "u_keys u' = u_keys u @ ks"
  shows "log_step view u u'"
proof -
  from assms(1) obtain N where N: "set (view (u_txn u') DBI_event) = set (view (u_txn u) DBI_event) \<union> evt_entry ` N"
    "\<forall>x \<in> N. m \<le> upper (fst x) \<and> snd (snd x) \<in> set ks" unfolding ev_new_def by (elim exE conjE)
  then have "\<forall>x \<in> N. u_newRev u < upper (fst x) \<and> snd (snd x) \<in> set ks" using assms(2) order_less_le_trans by blast
  then show ?thesis using N(1) assms(3) unfolding log_step_def log_grows_def by (intro exI [of _ ks] conjI exI [of _ N]) simp_all
qed

lemma log_step_same: "view (u_txn u') DBI_event = view (u_txn u) DBI_event \<Longrightarrow> u_keys u' = u_keys u \<Longrightarrow> log_step view u u'"
  unfolding log_step_def log_grows_def by (intro exI [of _ "[]"] conjI exI [of _ "{}"]) simp_all

lemma log_step_trans:
  assumes "log_step view u u1" "log_step view u1 u2" "u_newRev u \<le> u_newRev u1"
  shows "log_step view u u2"
proof -
  from assms(1) obtain ks N where
    a: "u_keys u1 = u_keys u @ ks" "set (view (u_txn u1) DBI_event) = set (view (u_txn u) DBI_event) \<union> evt_entry ` N"
      "\<forall>x \<in> N. u_newRev u < upper (fst x) \<and> snd (snd x) \<in> set ks" unfolding log_step_def log_grows_def by (elim exE conjE)
  from assms(2) obtain ks' N' where
    "u_keys u2 = u_keys u1 @ ks'" "set (view (u_txn u2) DBI_event) = set (view (u_txn u1) DBI_event) \<union> evt_entry ` N'"
    "\<forall>x \<in> N'. u_newRev u1 < upper (fst x) \<and> snd (snd x) \<in> set ks'" unfolding log_step_def log_grows_def by (elim exE conjE)
  with a show ?thesis unfolding log_step_def log_grows_def using assms(3)
    by (intro exI [of _ "ks @ ks'"] conjI exI [of _ "N \<union> N'"]) (auto intro: order_le_less_trans)
qed

definition compacts :: "Entry \<Rightarrow> bool" where
  "compacts ent \<longleftrightarrow> last (Entry_Cmd ent) = CMD_KV_COMPACT"

definition good :: "'x env_scheme \<Rightarrow> ('t \<Rightarrow> dbi \<Rightarrow> entry list) \<Rightarrow> 't upd \<Rightarrow> Entry \<Rightarrow> ('t upd \<times> Entry) result \<Rightarrow> bool" where
  "good env view u ent res \<longleftrightarrow> (\<exists>u' ent'. res = Inr (u', ent') \<and> upd_inv env view u' \<and> u_step view u u' \<and> Entry_Index ent' = Entry_Index ent \<and>
     (\<not> compacts ent \<longrightarrow> log_step view u u'))"

lemma goodI:
  "res = Inr (u', ent') \<Longrightarrow> upd_inv env view u' \<Longrightarrow> u_step view u u' \<Longrightarrow> Entry_Index ent' = Entry_Index ent \<Longrightarrow> log_step view u u' \<Longrightarrow>
   good env view u ent res"
  unfolding good_def by blast

lemma counters_okD: "counters_ok view t \<Longrightarrow> key \<in> set metaKeys \<Longrightarrow> \<exists>v. counter view t key = Inr v"
  by (simp add: counters_ok_def)

lemma u_step_same:
  assumes "counters_ok view (u_txn u)" "u_newRev u \<le> u_newRev u'" "\<forall>key. key \<noteq> metaKeyLeaseID \<longrightarrow> key \<noteq> metaKeyRevisionMin \<longrightarrow>
      key \<noteq> metaKeyRevisionCompacted \<longrightarrow> key \<noteq> metaKeyEpoch \<longrightarrow> counter view (u_txn u') key = counter view (u_txn u) key"
  shows "u_step view u u'"
proof -
  from counters_okD [OF assms(1), of metaKeyTerm] obtain a where "counter view (u_txn u) metaKeyTerm = Inr a" by (auto simp: metaKeys_def)
  moreover have "key \<in> {metaKeyIndex, metaKeyRevision, metaKeyTerm} \<Longrightarrow> counter view (u_txn u') key = counter view (u_txn u) key" for key
    using assms(3) metaKeys_distinct by auto
  ultimately show ?thesis using assms(2) by (auto simp: u_step_def)
qed

text \<open>A step that leaves the counters alone.\<close>

lemma good_frame:
  assumes inv: "upd_inv env view u" and res: "res = Inr (u\<lparr>u_txn := t', u_newRev := n, u_keys := ks\<rparr>, ent')"
    and rel: "sm_rel env view t' b A" "upper b \<le> n" "u_newRev u \<le> n" and meta: "view t' DBI_meta = view (u_txn u) DBI_meta"
    and ix: "Entry_Index ent' = Entry_Index ent" and lg: "log_step view u (u\<lparr>u_txn := t', u_newRev := n, u_keys := ks\<rparr>)"
  shows "good env view u ent res"
proof -
  let ?u = "u\<lparr>u_txn := t', u_newRev := n, u_keys := ks\<rparr>"
  have c: "counter view t' key = counter view (u_txn u) key" for key using meta by (simp add: counter_def)
  have ok: "counters_ok view (u_txn u)" using inv by (simp add: upd_inv_def)
  have "upd_inv env view ?u" using inv rel c by (auto simp: upd_inv_def counters_ok_def)
  moreover have "u_step view u ?u" by (rule u_step_same [OF ok]) (use rel(3) c in auto)
  ultimately show ?thesis using res ix lg unfolding good_def by blast
qed

lemma good_idle:
  assumes inv: "upd_inv env view u" and res: "res = Inr (u, ent')" and ix: "Entry_Index ent' = Entry_Index ent"
  shows "good env view u ent res"
proof -
  from inv obtain b A where "sm_rel env view (u_txn u) b A" "upper b \<le> u_newRev u" by (auto simp: upd_inv_def)
  then show ?thesis by (intro good_frame [OF inv, where t' = "u_txn u" and n = "u_newRev u" and ks = "u_keys u" and ent' = ent']) (simp_all add: res ix log_step_same)
qed

section \<open>The entries that are applied\<close>

definition sm_env_ok :: "'x sm_env_scheme \<Rightarrow> bool" where
  "sm_env_ok env \<longleftrightarrow> env_ok env \<and> \<not> PCB_RANGE_COUNT_FAKE env \<and> (\<forall>m. \<exists>data. marshal env m = Inr data)"

definition put_req_ok :: "PutRequest \<Rightarrow> bool" where
  "put_req_ok req \<longleftrightarrow> length (PutRequest_Key req) \<noteq> 1 \<and> length (sl (PutRequest_Value req)) < 2 ^ 62 \<and>
     0 \<le> sint (PutRequest_Lease req) \<and> \<not> (PutRequest_IgnoreValue req \<and> PutRequest_Value req = Some [])"

definition txn_req_ok :: "TxnRequest \<Rightarrow> bool" where
  "txn_req_ok req \<longleftrightarrow> list_all cond_wf (TxnRequest_Compare req) \<and> list_all op_wf (TxnRequest_Success req) \<and>
     list_all op_wf (TxnRequest_Failure req) \<and> length (TxnRequest_Success req) < 1024 \<and> length (TxnRequest_Failure req) < 1024"

definition compact_ok :: "entry list \<Rightarrow> u64 \<Rightarrow> bool" where
  "compact_ok events mx \<longleftrightarrow> 0 < mx \<and> unat mx < 2 ^ 52 \<and> list_ex (\<lambda>e. be64 (push_bit 12 mx) \<le> fst e) events"

definition body_ok :: "'x sm_env_scheme \<Rightarrow> entry list \<Rightarrow> Entry \<Rightarrow> bool" where
  "body_ok env events ent =
     (let c = last (Entry_Cmd ent); body = cmd_body ent in
      if c = CMD_KV_PUT then (case unmarshal_PutRequest env body of None \<Rightarrow> True | Some req \<Rightarrow> put_req_ok req)
      else if c = CMD_KV_DELETE_RANGE then (case unmarshal_DeleteRangeRequest env body of None \<Rightarrow> True | Some req \<Rightarrow> DeleteRangeRequest_Key req \<noteq> [])
      else if c = CMD_KV_COMPACT then (case unmarshal_CompactionRequest env body of None \<Rightarrow> True | Some req \<Rightarrow> compact_ok events (CompactionRequest_Revision req))
      else if c = CMD_KV_TXN then (case unmarshal_TxnRequest env body of None \<Rightarrow> True | Some req \<Rightarrow> txn_req_ok req)
      else True)"

definition entry_ok :: "'x sm_env_scheme \<Rightarrow> 't lmdb \<Rightarrow> ('t \<Rightarrow> dbi \<Rightarrow> entry list) \<Rightarrow> 't upd \<Rightarrow> Entry \<Rightarrow> bool" where
  "entry_ok env L view u ent \<longleftrightarrow> Entry_Cmd ent \<noteq> [] \<and> body_ok env (view (u_txn u) DBI_event) ent \<and>
     unat (u_newRev u) + mdb_Entries L (u_txn u) DBI_lease_exp + 1 < 2 ^ 52"

lemma bumpRev_bounds:
  assumes "unat n + 1 < 2 ^ 52"
  shows "n \<le> bumpRev n ks" "ks \<noteq> [] \<Longrightarrow> bumpRev n ks = n + 1" "bumpRev n [] = n" "rev_fits (n + 1) 0" "n + 1 \<noteq> 0" "n < n + 1"
proof -
  have "unat (n + 1) = unat n + 1" using assms by (simp add: unat_plus_if')
  then show "n \<le> bumpRev n ks" "rev_fits (n + 1) 0" "n + 1 \<noteq> 0" "n < n + 1"
    using assms by (auto simp: bumpRev_def rev_fits_def word_le_nat_alt word_less_nat_alt dest: arg_cong [of _ _ unat])
qed (simp_all add: bumpRev_def)

context lmdb
begin

lemma update_Put_good:
  assumes env: "sm_env_ok env" and inv: "upd_inv env view u" and room: "unat (u_newRev u) + 1 < 2 ^ 52"
    and ok: "\<forall>req. unmarshal_PutRequest env (cmd_body ent) = Some req \<longrightarrow> put_req_ok req"
  shows "good env view u ent (update_Put env L u ent)"
proof (cases "unmarshal_PutRequest env (cmd_body ent)")
  case None
  then have "update_Put env L u ent = Inr (u, ent)" by (simp add: update_Put_def)
  then show ?thesis by (rule good_idle [OF inv]) simp
next
  case (Some req)
  from inv obtain b A where rel: "sm_rel env view (u_txn u) b A" "upper b \<le> u_newRev u" by (auto simp: upd_inv_def)
  note get = dbLease_get_spec [OF sm_relD(2) [OF rel(1)]] and rb = bumpRev_bounds [OF room]
  let ?bad = "PutRequest_IgnoreLease req \<and> PutRequest_Lease req \<noteq> 0 \<or>
    PutRequest_IgnoreValue req \<and> length (sl (PutRequest_Value req)) \<noteq> 0 \<or>
    PutRequest_Lease req \<noteq> 0 \<and> lease_id (lease_at (a_leases A) (PutRequest_Lease req)) = 0"
  show ?thesis
  proof (cases ?bad)
    case True
    let ?a = "PutRequest_IgnoreLease req \<and> PutRequest_Lease req \<noteq> 0" and ?b = "PutRequest_IgnoreValue req \<and> length (sl (PutRequest_Value req)) \<noteq> 0"
    from True consider ?a | "\<not> ?a" ?b | "\<not> ?a" "\<not> ?b" "PutRequest_Lease req \<noteq> 0" "lease_id (lease_at (a_leases A) (PutRequest_Lease req)) = 0" by blast
    then have "\<exists>e. update_Put env L u ent = Inr (u, ent\<lparr>Result_Data := err_Error env e\<rparr>)"
      by cases (auto simp: update_Put_def Some get)
    then obtain e where e: "update_Put env L u ent = Inr (u, ent\<lparr>Result_Data := err_Error env e\<rparr>)" ..
    show ?thesis by (rule good_idle [OF inv e]) simp
  next
    case False
    have "put_wf req"
    proof -
      have "PutRequest_IgnoreValue req \<longrightarrow> PutRequest_Value req = None"
        using False ok Some by (cases "PutRequest_Value req") (auto simp: put_req_ok_def)
      then show ?thesis using False ok Some by (auto simp: put_wf_def put_req_ok_def)
    qed
    have eq: "update_Put env L u ent = (case cmdPut env L (u_txn u) (u_newRev u + 1) 0 (u_epoch u) req of
        Inl err \<Rightarrow> if err = ErrGRPCKeyTooLong \<or> err = ErrGRPCEmptyKey then Inr (u, ent\<lparr>Result_Data := err_Error env err\<rparr>) else Inl err
      | Inr (t1, res, val, affected) \<Rightarrow>
          let newRev = bumpRev (u_newRev u) affected in
          bindE (marshal env (MPut (res\<lparr>PutResponse_Header := Some (responseHeader env newRev)\<rparr>))) (\<lambda>data.
          Inr (u\<lparr>u_txn := t1, u_newRev := newRev, u_keys := u_keys u @ affected\<rparr>, ent\<lparr>Result_Data := data, Result_Value := val\<rparr>)))"
      using Some False get by (auto simp: update_Put_def)
    have up: "upper b < u_newRev u + 1" using rel(2) rb(6) by (rule order_le_less_trans)
    from cmdPut_spec [OF _ rel(1) rb(4,5) upper_less_newkeyrev [OF rb(4) up] \<open>put_wf req\<close>, of "u_epoch u"] env up
    consider (err) e where "cmdPut env L (u_txn u) (u_newRev u + 1) 0 (u_epoch u) req = Inl e" "e = ErrGRPCEmptyKey \<or> e = ErrGRPCKeyTooLong"
      | (fine) t' resp A' where "cmdPut env L (u_txn u) (u_newRev u + 1) 0 (u_epoch u) req = Inr (t', resp, 1, [PutRequest_Key req])"
        "sm_rel env view t' (newkeyrev (u_newRev u + 1) 0 False) A'" "kv_only view (u_txn u) A t' A'" "ev_new view (u_txn u) t' (u_newRev u + 1) {PutRequest_Key req}"
      by (auto simp: sm_env_ok_def)
    then show ?thesis
    proof cases
      case err
      then have "update_Put env L u ent = Inr (u, ent\<lparr>Result_Data := err_Error env e\<rparr>)" by (auto simp: eq)
      then show ?thesis by (rule good_idle [OF inv]) simp
    next
      case fine
      obtain data where "marshal env (MPut (resp\<lparr>PutResponse_Header := Some (responseHeader env (u_newRev u + 1))\<rparr>)) = Inr data"
        using env by (auto simp: sm_env_ok_def)
      then have "update_Put env L u ent = Inr (u\<lparr>u_txn := t', u_newRev := u_newRev u + 1, u_keys := u_keys u @ [PutRequest_Key req]\<rparr>,
          ent\<lparr>Result_Data := data, Result_Value := 1\<rparr>)" using fine(1) rb(2) by (simp add: eq)
      from good_frame [OF inv this fine(2)] show ?thesis
        using upper_newkeyrev [OF rb(4), of False] rb(6) fine(3) log_stepI [of view u _ "u_newRev u + 1" "[PutRequest_Key req]"] fine(4)
        by (simp add: kv_only_def less_imp_le)
    qed
  qed
qed

lemma update_DeleteRange_good:
  assumes env: "sm_env_ok env" and inv: "upd_inv env view u" and room: "unat (u_newRev u) + 1 < 2 ^ 52"
    and ok: "\<forall>req. unmarshal_DeleteRangeRequest env (cmd_body ent) = Some req \<longrightarrow> DeleteRangeRequest_Key req \<noteq> []"
  shows "good env view u ent (update_DeleteRange env L u ent)"
proof (cases "unmarshal_DeleteRangeRequest env (cmd_body ent)")
  case None
  then have "update_DeleteRange env L u ent = Inr (u, ent)" by (simp add: update_DeleteRange_def)
  then show ?thesis by (rule good_idle [OF inv]) simp
next
  case (Some req)
  from inv obtain b A where rel: "sm_rel env view (u_txn u) b A" "upper b \<le> u_newRev u" by (auto simp: upd_inv_def)
  note rb = bumpRev_bounds [OF room]
  have up: "upper b < u_newRev u + 1" using rel(2) rb(6) by (rule order_le_less_trans)
  from cmdDeleteRange_spec [OF _ rel(1) rb(4,5) upper_less_newkeyrev [OF rb(4) up], of req "u_epoch u"] env ok Some up
  obtain t' resp keys A' where
    d: "cmdDeleteRange env L (u_txn u) (u_newRev u + 1) 0 (u_epoch u) req = Inr (t', resp, keys)"
      "sm_rel env view t' (if keys = [] then b else newkeyrev (u_newRev u + 1) 0 True) A'" "kv_only view (u_txn u) A t' A'"
      "ev_new view (u_txn u) t' (u_newRev u + 1) (set keys)"
    by (auto simp: sm_env_ok_def)
  let ?n = "bumpRev (u_newRev u) keys"
  obtain data where "marshal env (MDeleteRange (resp\<lparr>DeleteRangeResponse_Header := Some (responseHeader env ?n)\<rparr>)) = Inr data"
    using env by (auto simp: sm_env_ok_def)
  then have eq: "update_DeleteRange env L u ent = Inr (u\<lparr>u_txn := t', u_newRev := ?n, u_keys := u_keys u @ keys\<rparr>,
      ent\<lparr>Result_Data := data, Result_Value := 1\<rparr>)" using Some d(1) by (simp add: update_DeleteRange_def)
  show ?thesis
  proof (rule good_frame [OF inv eq d(2)])
    show "upper (if keys = [] then b else newkeyrev (u_newRev u + 1) 0 True) \<le> ?n"
      using rel(2) rb(2,3) upper_newkeyrev [OF rb(4), of True] by (cases "keys = []") auto
    show "log_step view u (u\<lparr>u_txn := t', u_newRev := ?n, u_keys := u_keys u @ keys\<rparr>)"
      by (rule log_stepI [OF _ rb(6)]) (use d(4) in simp_all)
  qed (use rb(1) d(3) in \<open>simp_all add: kv_only_def\<close>)
qed

lemma update_Txn_good:
  assumes env: "sm_env_ok env" and inv: "upd_inv env view u" and room: "unat (u_newRev u) + 1 < 2 ^ 52"
    and ok: "\<forall>req. unmarshal_TxnRequest env (cmd_body ent) = Some req \<longrightarrow> txn_req_ok req"
  shows "good env view u ent (update_Txn env L u ent)"
proof (cases "unmarshal_TxnRequest env (cmd_body ent)")
  case None
  then have "update_Txn env L u ent = Inr (u, ent)" by (simp add: update_Txn_def)
  then show ?thesis by (rule good_idle [OF inv]) simp
next
  case (Some req)
  from inv obtain b A where rel: "sm_rel env view (u_txn u) b A" "upper b \<le> u_newRev u" by (auto simp: upd_inv_def)
  note rb = bumpRev_bounds [OF room]
  have e: "env_ok env" "\<not> PCB_RANGE_COUNT_FAKE env" using env by (auto simp: sm_env_ok_def)
  have t: "txn_req_ok req" using ok Some by blast
  then have conds: "\<forall>c \<in> set (TxnRequest_Compare req). cond_wf c" by (simp add: txn_req_ok_def list_all_iff)
  let ?s = "\<forall>c \<in> set (TxnRequest_Compare req). cond_holds (spec_at 0 (a_hist A (Compare_Key c))) c"
  let ?ops = "if ?s then TxnRequest_Success req else TxnRequest_Failure req" and ?rv = "u_newRev u + 1"
  have ops: "\<forall>op \<in> set ?ops. op_wf op" "length ?ops < 1024" using t by (auto simp: txn_req_ok_def list_all_iff)
  have up: "upper b < ?rv" using rel(2) rb(6) by (rule order_le_less_trans)
  have fits: "rev_fits ?rv (0 + of_nat (length ?ops))" "unat (0 :: u64) + length ?ops < 2 ^ 10"
    using rb(4) ops(2) by (simp_all add: rev_fits_def unat_of_nat take_bit_nat_eq_self)
  from txnOps_loop_spec [OF e rb(5) rel(1) upper_less_newkeyrev [OF rb(4) up] less_imp_le [OF up] fits ops(1), of "u_epoch u" "[]" "[]"]
  obtain t' res' keys' err where
    l: "txnOps_loop env L ?rv (u_epoch u) 0 ?ops (u_txn u) [] [] = (t', res', keys', err)"
      "case err of Some e \<Rightarrow> client_error e
       | None \<Rightarrow> \<exists>b' A'. sm_rel env view t' b' A' \<and> upper b' \<le> ?rv \<and> (keys' = [] \<longrightarrow> b' = b) \<and> kv_only view (u_txn u) A t' A' \<and>
           ev_new view (u_txn u) t' ?rv (set keys')" by auto
  let ?n = "bumpRev (u_newRev u) keys'"
  have cmp: "txnCompare env L (u_txn u) (TxnRequest_Compare req) = Inr ?s" by (rule txnCompare_spec [OF e(1) sm_relD(6) [OF rel(1)] conds])
  show ?thesis
  proof (cases err)
    case (Some x)
    then have "update_Txn env L u ent = Inr (u\<lparr>u_txn := u_txn u, u_newRev := ?n, u_keys := u_keys u\<rparr>, ent\<lparr>Result_Data := err_Error env x\<rparr>)"
      using \<open>unmarshal_TxnRequest env (cmd_body ent) = Some req\<close> cmp l by (auto simp: update_Txn_def txnOps_def client_error_def Let_def)
    then show ?thesis by (rule good_frame [OF inv _ rel(1)]) (use rb(1) rel(2) in \<open>auto intro: order_trans log_step_same\<close>)
  next
    case None
    then obtain b' A' where a: "sm_rel env view t' b' A'" "upper b' \<le> ?rv" "keys' = [] \<longrightarrow> b' = b" "kv_only view (u_txn u) A t' A'"
      "ev_new view (u_txn u) t' ?rv (set keys')" using l(2) by auto
    obtain data where "update_Txn env L u ent = Inr (u\<lparr>u_txn := t', u_newRev := ?n, u_keys := u_keys u @ keys'\<rparr>,
        ent\<lparr>Result_Data := data, Result_Value := 1\<rparr>)"
      using \<open>unmarshal_TxnRequest env (cmd_body ent) = Some req\<close> cmp l(1) None by (simp add: update_Txn_def txnOps_def Let_def)
    then show ?thesis
    proof (rule good_frame [OF inv _ a(1)])
      show "upper b' \<le> ?n" using a(2,3) rel(2) rb(2,3) by (cases "keys' = []") auto
      show "log_step view u (u\<lparr>u_txn := t', u_newRev := ?n, u_keys := u_keys u @ keys'\<rparr>)"
        by (rule log_stepI [OF _ rb(6)]) (use a(5) in simp_all)
    qed (use rb(1) a(4) in \<open>simp_all add: kv_only_def\<close>)
  qed
qed

text \<open>The lease commands change the counter of lease ids at most.\<close>

lemma good_counters:
  assumes inv: "upd_inv env view u" and res: "res = Inr (u\<lparr>u_txn := t', u_newRev := n, u_keys := ks\<rparr>, ent')"
    and rel: "sm_rel env view t' b A" "upper b \<le> n" "u_newRev u \<le> n"
    and cnt: "\<forall>key. key \<notin> {metaKeyLeaseID, metaKeyRevisionMin, metaKeyRevisionCompacted} \<longrightarrow> counter view t' key = counter view (u_txn u) key"
      "\<forall>key \<in> {metaKeyLeaseID, metaKeyRevisionMin, metaKeyRevisionCompacted}. \<exists>v. counter view t' key = Inr v"
    and ix: "Entry_Index ent' = Entry_Index ent" and lg: "\<not> compacts ent \<longrightarrow> log_step view u (u\<lparr>u_txn := t', u_newRev := n, u_keys := ks\<rparr>)"
  shows "good env view u ent res"
proof -
  let ?u = "u\<lparr>u_txn := t', u_newRev := n, u_keys := ks\<rparr>"
  have ok: "counters_ok view (u_txn u)" using inv by (simp add: upd_inv_def)
  have "counters_ok view t'" using ok cnt unfolding counters_ok_def by (metis insertCI)
  moreover have "counter view t' metaKeyEpoch = Inr (u_epoch u)" using inv cnt(1) metaKeys_distinct by (simp add: upd_inv_def)
  ultimately have "upd_inv env view ?u" using rel by (auto simp: upd_inv_def)
  moreover have "u_step view u ?u" by (rule u_step_same [OF ok]) (use rel(3) cnt(1) in auto)
  ultimately show ?thesis using res ix lg unfolding good_def by blast
qed

lemma update_LeaseGrant_good:
  assumes env: "sm_env_ok env" and inv: "upd_inv env view u" and room: "mdb_Entries L (u_txn u) DBI_lease_exp + 1 < 2 ^ 64"
  shows "good env view u ent (update_LeaseGrant env L u ent)"
proof (cases "unmarshal_LeaseGrantRequest env (cmd_body ent)")
  case None
  then have "update_LeaseGrant env L u ent = Inr (u, ent)" by (simp add: update_LeaseGrant_def)
  then show ?thesis by (rule good_idle [OF inv]) simp
next
  case (Some req)
  from inv obtain b A where rel: "sm_rel env view (u_txn u) b A" "upper b \<le> u_newRev u" by (auto simp: upd_inv_def)
  have ok: "counters_ok view (u_txn u)" using inv by (simp add: upd_inv_def)
  from counters_okD [OF ok, of metaKeyLeaseID] obtain lid where lid: "counter view (u_txn u) metaKeyLeaseID = Inr lid" by (auto simp: metaKeys_def)
  from cmdLeaseGrant_spec [OF rel(1) room lid, of "u_epoch u" req] obtain t' resp val A' where
    g: "cmdLeaseGrant L (u_txn u) (u_epoch u) req = Inr (t', resp, val)" "sm_rel env view t' b A'"
      "\<exists>v. counter view t' metaKeyLeaseID = Inr v" "\<forall>key. key \<noteq> metaKeyLeaseID \<longrightarrow> counter view t' key = counter view (u_txn u) key"
      "view t' DBI_event = view (u_txn u) DBI_event" by blast
  obtain data where "marshal env (MLeaseGrant (resp\<lparr>LeaseGrantResponse_Header := Some (responseHeader env (u_newRev u))\<rparr>)) = Inr data"
    using env by (auto simp: sm_env_ok_def)
  then have "update_LeaseGrant env L u ent = Inr (u\<lparr>u_txn := t', u_newRev := u_newRev u, u_keys := u_keys u\<rparr>,
      ent\<lparr>Result_Data := data, Result_Value := val\<rparr>)" using Some g(1) by (simp add: update_LeaseGrant_def)
  then show ?thesis
  proof (rule good_counters [OF inv _ g(2)])
    show "\<forall>key \<in> {metaKeyLeaseID, metaKeyRevisionMin, metaKeyRevisionCompacted}. \<exists>v. counter view t' key = Inr v"
      using g(3,4) counters_okD [OF ok] by (auto simp: metaKeys_def) metis+
  qed (use rel(2) g(4,5) in \<open>auto intro: log_step_same\<close>)
qed

lemma update_LeaseKeepAlive_good:
  assumes env: "sm_env_ok env" and inv: "upd_inv env view u"
  shows "good env view u ent (update_LeaseKeepAlive env L u ent)"
proof (cases "unmarshal_LeaseKeepAliveRequest env (cmd_body ent)")
  case None
  then have "update_LeaseKeepAlive env L u ent = Inr (u, ent)" by (simp add: update_LeaseKeepAlive_def)
  then show ?thesis by (rule good_idle [OF inv]) simp
next
  case (Some req)
  from inv obtain b A where rel: "sm_rel env view (u_txn u) b A" "upper b \<le> u_newRev u" by (auto simp: upd_inv_def)
  from cmdLeaseKeepAlive_spec [OF rel(1), of "u_epoch u" req] obtain t' resp A' where
    g: "cmdLeaseKeepAlive L (u_txn u) (u_epoch u) req = Inr (t', resp, 1)" "sm_rel env view t' b A'" "view t' DBI_meta = view (u_txn u) DBI_meta"
      "view t' DBI_event = view (u_txn u) DBI_event" by blast
  obtain data where "marshal env (MLeaseKeepAlive (resp\<lparr>LeaseKeepAliveResponse_Header := Some (responseHeader env (u_newRev u))\<rparr>)) = Inr data"
    using env by (auto simp: sm_env_ok_def)
  then have "update_LeaseKeepAlive env L u ent = Inr (u\<lparr>u_txn := t', u_newRev := u_newRev u, u_keys := u_keys u\<rparr>,
      ent\<lparr>Result_Data := data, Result_Value := 1\<rparr>)" using Some g(1) by (simp add: update_LeaseKeepAlive_def)
  then show ?thesis by (rule good_frame [OF inv _ g(2) rel(2) _ g(3)]) (simp_all add: log_step_same g(4))
qed

lemma update_LeaseKeepAliveBatch_good:
  assumes env: "sm_env_ok env" and inv: "upd_inv env view u"
  shows "good env view u ent (update_LeaseKeepAliveBatch env L u ent)"
proof (cases "unmarshal_LeaseKeepAliveBatchRequest env (cmd_body ent)")
  case None
  then have "update_LeaseKeepAliveBatch env L u ent = Inr (u, ent)" by (simp add: update_LeaseKeepAliveBatch_def)
  then show ?thesis by (rule good_idle [OF inv]) simp
next
  case (Some req)
  from inv obtain b A where rel: "sm_rel env view (u_txn u) b A" "upper b \<le> u_newRev u" by (auto simp: upd_inv_def)
  from cmdLeaseKeepAliveBatch_spec [OF rel(1), of "u_epoch u" "LeaseKeepAliveBatchRequest_IDs req" "[]"] obtain t' ttls A' where
    g: "cmdLeaseKeepAliveBatch_loop L (u_epoch u) (LeaseKeepAliveBatchRequest_IDs req) (u_txn u) [] = Inr (t', ttls)"
      "sm_rel env view t' b A'" "view t' DBI_meta = view (u_txn u) DBI_meta" "view t' DBI_event = view (u_txn u) DBI_event" by auto
  obtain data where "marshal env (MLeaseKeepAliveBatch \<lparr>LeaseKeepAliveBatchResponse_Header = Some (responseHeader env (u_newRev u)),
      LeaseKeepAliveBatchResponse_TTLs = ttls\<rparr>) = Inr data" using env by (auto simp: sm_env_ok_def)
  then have "update_LeaseKeepAliveBatch env L u ent = Inr (u\<lparr>u_txn := t', u_newRev := u_newRev u, u_keys := u_keys u\<rparr>,
      ent\<lparr>Result_Data := data, Result_Value := 1\<rparr>)" using Some g(1) by (simp add: update_LeaseKeepAliveBatch_def cmdLeaseKeepAliveBatch_def)
  then show ?thesis by (rule good_frame [OF inv _ g(2) rel(2) _ g(3)]) (simp_all add: log_step_same g(4))
qed

lemma update_LeaseRevoke_good:
  assumes env: "sm_env_ok env" and inv: "upd_inv env view u" and room: "unat (u_newRev u) + 1 < 2 ^ 52"
  shows "good env view u ent (update_LeaseRevoke env L u ent)"
proof (cases "unmarshal_LeaseRevokeRequest env (cmd_body ent)")
  case None
  then have "update_LeaseRevoke env L u ent = Inr (u, ent)" by (simp add: update_LeaseRevoke_def)
  then show ?thesis by (rule good_idle [OF inv]) simp
next
  case (Some req)
  from inv obtain b A where rel: "sm_rel env view (u_txn u) b A" "upper b \<le> u_newRev u" by (auto simp: upd_inv_def)
  from tick_expire_spec [OF rel room, of "u_epoch u" "LeaseRevokeRequest_ID req" "[]"] obtain t' ks b' A' where
    g: "tick_expire L (u_epoch u) (LeaseRevokeRequest_ID req) (u_txn u, u_newRev u, []) = Inr (t', bumpRev (u_newRev u) ks, ks)"
      "sm_rel env view t' b' A'" "upper b' \<le> bumpRev (u_newRev u) ks" "view t' DBI_meta = view (u_txn u) DBI_meta"
      "ev_new view (u_txn u) t' (u_newRev u + 1) (set ks)" by auto
  then obtain val where v: "cmdLeaseRevoke L (u_txn u) (u_newRev u + 1) (u_epoch u) (LeaseRevokeRequest_ID req) = Inr (t', ks, val)"
    by (auto simp: tick_expire_def elim!: bindE_InrE)
  obtain data where "marshal env (MLeaseRevoke \<lparr>LeaseRevokeResponse_Header = Some (responseHeader env (bumpRev (u_newRev u) ks))\<rparr>) = Inr data"
    using env by (auto simp: sm_env_ok_def)
  then have "update_LeaseRevoke env L u ent = Inr (u\<lparr>u_txn := t', u_newRev := bumpRev (u_newRev u) ks, u_keys := u_keys u @ ks\<rparr>,
      ent\<lparr>Result_Data := data, Result_Value := val\<rparr>)" using Some v by (simp add: update_LeaseRevoke_def)
  then show ?thesis
    by (rule good_frame [OF inv _ g(2,3) _ g(4)])
      (use bumpRev_bounds(1) [OF room] log_stepI [OF _ bumpRev_bounds(6) [OF room]] g(5) in simp_all)
qed

lemma linked_compact:
  assumes "linked A" "\<forall>k. take 1 (H k) = take 1 (a_hist A k)"
  shows "linked (A\<lparr>a_hist := H, a_events := E\<rparr>)"
proof -
  have "H k = [] \<longleftrightarrow> a_hist A k = []" "live (H k) \<longleftrightarrow> live (a_hist A k)" "live (H k) \<Longrightarrow> hd (H k) = hd (a_hist A k)" for k
    using spec [OF assms(2), of k] by (cases "H k"; cases "a_hist A k"; simp)+
  then show ?thesis using assms(1) by (auto simp: linked_def)
qed

lemma putUint64_step:
  assumes "sm_rel env view t b A" "key \<noteq> []" "length key \<le> 511"
  shows "\<exists>t'. putUint64 L t DBI_meta key v = Inr t' \<and> sm_rel env view t' b A \<and>
    (\<forall>key'. counter view t' key' = (if key' = key then Inr v else counter view t key')) \<and> view t' DBI_event = view t DBI_event"
proof -
  from putUint64_ok [of DBI_meta key t v] assms(2,3) obtain t' where t': "putUint64 L t DBI_meta key v = Inr t'" by auto
  have "sm_rel env view t' b A" by (rule sm_rel_meta [OF _ assms(1)]) (use putUint64_other [OF t'] in auto)
  then show ?thesis using t' putUint64_counter [OF t'] putUint64_other [OF t', of DBI_event] by auto
qed

lemma update_Compact_good:
  assumes env: "sm_env_ok env" and inv: "upd_inv env view u"
    and ok: "\<forall>req. unmarshal_CompactionRequest env (cmd_body ent) = Some req \<longrightarrow> compact_ok (view (u_txn u) DBI_event) (CompactionRequest_Revision req)"
    and cmd: "compacts ent"
  shows "good env view u ent (update_Compact env L u ent)"
proof (cases "unmarshal_CompactionRequest env (cmd_body ent)")
  case None
  then have "update_Compact env L u ent = Inr (u, ent)" by (simp add: update_Compact_def)
  then show ?thesis by (rule good_idle [OF inv]) simp
next
  case (Some req)
  let ?mx = "CompactionRequest_Revision req"
  from inv obtain b A where rel: "sm_rel env view (u_txn u) b A" "upper b \<le> u_newRev u" by (auto simp: upd_inv_def)
  note d = sm_relD [OF rel(1)]
  have c: "0 < ?mx" "unat ?mx < 2 ^ 52" "\<exists>e \<in> set (view (u_txn u) DBI_event). be64 (push_bit 12 ?mx) \<le> fst e"
    using ok Some by (auto simp: compact_ok_def list_ex_iff)
  from c(3) d(7) obtain x where "x \<in> a_events A" "push_bit 12 ?mx \<le> fst x" by (auto simp: ev_rel_def be64_le)
  then have ex: "\<exists>x \<in> a_events A. ?mx \<le> upper (fst x)" using push_bit_le_upper [OF c(2)] by blast
  let ?E = "{x \<in> a_events A. ?mx \<le> upper (fst x)}"
  from compact_spec [OF d(6,7,8) ex c(1)] obtain t1 lst H' where
    k: "dbKv_compact L (u_txn u) ?mx = Inr (t1, lst)" "kv_rel env view t1 H'" "ev_rel view t1 ?E" "logged H' ?E"
      "same_from ?mx (a_hist A) H'" "\<forall>k. set (H' k) \<subseteq> set (a_hist A k)"
      "\<forall>d. d \<notin> {DBI_revision, DBI_value, DBI_event} \<longrightarrow> view t1 d = view (u_txn u) d" by blast
  let ?A = "A\<lparr>a_hist := H', a_events := ?E\<rparr>"
  have "kv_inv env view t1 b H' ?E" using k(2-4,6) kv_invD(4,5) [OF d(1)] unfolding kv_inv_def by blast
  moreover have "linked ?A" by (rule linked_compact [OF d(5)]) (use k(5) in \<open>simp add: same_from_def\<close>)
  ultimately have r1: "sm_rel env view t1 b ?A" using d(2-4) k(7) by (simp add: sm_rel_def lease_rel_def stored_def)
  from putUint64_step [OF r1, of metaKeyRevisionMin ?mx] obtain t2 where
    t2: "setRevisionMin L t1 ?mx = Inr t2" "sm_rel env view t2 b ?A"
      "\<forall>key. counter view t2 key = (if key = metaKeyRevisionMin then Inr ?mx else counter view t1 key)" by (auto simp: setRevisionMin_def)
  from putUint64_step [OF t2(2), of metaKeyRevisionCompacted lst] obtain t3 where
    t3: "setRevisionCompacted L t2 lst = Inr t3" "sm_rel env view t3 b ?A"
      "\<forall>key. counter view t3 key = (if key = metaKeyRevisionCompacted then Inr lst else counter view t2 key)" by (auto simp: setRevisionCompacted_def)
  have c1: "counter view t1 key = counter view (u_txn u) key" for key using k(7) by (simp add: counter_def)
  have okc: "counters_ok view (u_txn u)" using inv by (simp add: upd_inv_def)
  obtain data where "marshal env (MCompaction \<lparr>CompactionResponse_Header = Some (responseHeader env (u_newRev u))\<rparr>) = Inr data"
    using env by (auto simp: sm_env_ok_def)
  then have "update_Compact env L u ent = Inr (u\<lparr>u_txn := t3, u_newRev := u_newRev u, u_keys := u_keys u\<rparr>,
      ent\<lparr>Result_Data := data, Result_Value := 1\<rparr>)" using Some k(1) t2(1) t3(1) by (simp add: update_Compact_def)
  then show ?thesis
  proof (rule good_counters [OF inv _ t3(2) rel(2)])
    show "\<forall>key \<in> {metaKeyLeaseID, metaKeyRevisionMin, metaKeyRevisionCompacted}. \<exists>v. counter view t3 key = Inr v"
      using t3(3) t2(3) c1 counters_okD [OF okc, of metaKeyLeaseID] by (simp add: metaKeys_def)
  qed (use t3(3) t2(3) c1 cmd in auto)
qed

lemma update_Term_good:
  assumes env: "sm_env_ok env" and inv: "upd_inv env view u"
  shows "good env view u ent (update_Term env L u ent)"
proof (cases "unmarshal_TermRequest env (cmd_body ent)")
  case None
  then have "update_Term env L u ent = Inr (u, ent)" by (simp add: update_Term_def)
  then show ?thesis by (rule good_idle [OF inv]) simp
next
  case (Some req)
  from inv obtain b A where rel: "sm_rel env view (u_txn u) b A" "upper b \<le> u_newRev u" by (auto simp: upd_inv_def)
  have okc: "counters_ok view (u_txn u)" using inv by (simp add: upd_inv_def)
  from counters_okD [OF okc, of metaKeyTerm] obtain a where a: "counter view (u_txn u) metaKeyTerm = Inr a" by (auto simp: metaKeys_def)
  have g: "getTerm L (u_txn u) = Inr a" using a by (simp add: getTerm_def getUint64_counter)
  show ?thesis
  proof (cases "a > TermRequest_Term req")
    case True
    then have "update_Term env L u ent = Inr (u, ent\<lparr>Result_Data := err_Error env ErrTermExpired\<rparr>)" using Some g by (simp add: update_Term_def)
    then show ?thesis by (rule good_idle [OF inv]) simp
  next
    case False
    from putUint64_step [OF rel(1), of metaKeyTerm "TermRequest_Term req"] obtain t1 where
      t1: "setTerm L (u_txn u) (TermRequest_Term req) = Inr t1" "sm_rel env view t1 b A"
        "\<forall>key. counter view t1 key = (if key = metaKeyTerm then Inr (TermRequest_Term req) else counter view (u_txn u) key)"
        "view t1 DBI_event = view (u_txn u) DBI_event"
      by (auto simp: setTerm_def)
    obtain data where "marshal env MTerm = Inr data" using env by (auto simp: sm_env_ok_def)
    then have run: "update_Term env L u ent = Inr (u\<lparr>u_txn := t1\<rparr>, ent\<lparr>Result_Data := data, Result_Value := Entry_Index ent\<rparr>)"
      using Some g False t1(1) by (simp add: update_Term_def)
    have "counters_ok view t1" using okc t1(3) by (simp add: counters_ok_def)
    moreover have "counter view t1 metaKeyEpoch = Inr (u_epoch u)" using inv t1(3) metaKeys_distinct by (simp add: upd_inv_def)
    ultimately have "upd_inv env view (u\<lparr>u_txn := t1\<rparr>)" using t1(2) rel(2) by (auto simp: upd_inv_def)
    moreover have "u_step view u (u\<lparr>u_txn := t1\<rparr>)" using t1(3) a False metaKeys_distinct by (simp add: u_step_def not_less)
    ultimately show ?thesis by (rule goodI [OF run]) (simp_all add: log_step_same t1(4))
  qed
qed

lemma rest_None [simp]: "rest None X = X"
  by (simp add: rest_def)

text \<open>The work of a tick: the epoch is stored, then the leases that are due are revoked.\<close>

lemma tick_run:
  assumes rel: "sm_rel env view t b A" "upper b \<le> n" and room: "unat n + mdb_Entries L t DBI_lease_exp < 2 ^ 52"
  shows "\<exists>t1 t2 n' ks' b' A'. setEpoch L t e = Inr t1 \<and> dbLeaseExp_scan L e (tick_expire L e) (t1, n, ks) = Inr (t2, n', ks @ ks') \<and> ev_new view t t2 (n + 1) (set ks') \<and>
    sm_rel env view t2 b' A' \<and> upper b' \<le> n' \<and> n \<le> n' \<and> a_leases A' = a_leases A |` (- due e (a_exps A)) \<and>
    (\<forall>key. counter view t2 key = (if key = metaKeyEpoch then Inr e else counter view t key))"
proof -
  from putUint64_step [OF rel(1), of metaKeyEpoch e] obtain t1 where
    t1: "setEpoch L t e = Inr t1" "sm_rel env view t1 b A"
      "\<forall>key. counter view t1 key = (if key = metaKeyEpoch then Inr e else counter view t key)"
      "view t1 DBI_event = view t DBI_event" by (auto simp: setEpoch_def)
  have cardX: "card (a_exps A) = mdb_Entries L t1 DBI_lease_exp" "card (a_exps A) = mdb_Entries L t DBI_lease_exp"
    using exps.stored_card [OF sm_relD(3) [OF t1(2)]] exps.stored_card [OF sm_relD(3) [OF rel(1)]] by simp_all
  from tick_scan_spec [OF t1(2) rel(2), of None "Suc (mdb_Entries L t1 DBI_lease_exp)" _ e ks] cardX room
  obtain t2 n' ks' b' A' where
    s: "dbLeaseExp_scan L e (tick_expire L e) (t1, n, ks) = Inr (t2, n', ks @ ks')" "sm_rel env view t2 b' A'"
      "upper b' \<le> n'" "n \<le> n'" "view t2 DBI_meta = view t1 DBI_meta" "a_leases A' = a_leases A |` (- due e (a_exps A))"
      "ev_new view t1 t2 (n + 1) (set ks')"
    by (auto simp: dbLeaseExp_scan_def OpenCursor simp del: dbLeaseExp_scan_loop.simps)
  have "\<forall>key. counter view t2 key = (if key = metaKeyEpoch then Inr e else counter view t key)" using t1(3) s(5) by (simp add: counter_def)
  moreover have "ev_new view t t2 (n + 1) (set ks')" using s(7) t1(4) by (simp add: ev_new_def)
  ultimately show ?thesis using t1(1) s by blast
qed

lemma update_Tick_good:
  assumes env: "sm_env_ok env" and inv: "upd_inv env view u"
    and room: "unat (u_newRev u) + mdb_Entries L (u_txn u) DBI_lease_exp < 2 ^ 52" and room1: "unat (u_newRev u) + 1 < 2 ^ 52"
  shows "good env view u ent (update_Tick env L u ent)"
proof (cases "unmarshal_TickRequest env (cmd_body ent)")
  case None
  then have "update_Tick env L u ent = Inr (u, ent)" by (simp add: update_Tick_def)
  then show ?thesis by (rule good_idle [OF inv]) simp
next
  case (Some req)
  from inv obtain b A where rel: "sm_rel env view (u_txn u) b A" "upper b \<le> u_newRev u" by (auto simp: upd_inv_def)
  have okc: "counters_ok view (u_txn u)" using inv by (simp add: upd_inv_def)
  from counters_okD [OF okc, of metaKeyTerm] obtain a where a: "counter view (u_txn u) metaKeyTerm = Inr a" by (auto simp: metaKeys_def)
  have g: "getTerm L (u_txn u) = Inr a" using a by (simp add: getTerm_def getUint64_counter)
  show ?thesis
  proof (cases "a > TickRequest_Term req")
    case True
    then have "update_Tick env L u ent = Inr (u, ent\<lparr>Result_Data := err_Error env ErrTermExpired\<rparr>)" using Some g by (simp add: update_Tick_def)
    then show ?thesis by (rule good_idle [OF inv]) simp
  next
    case False
    let ?e = "u_epoch u + 1"
    from tick_run [OF rel room, of ?e "u_keys u"] obtain t1 t2 n ks b2 A2 where
      t1: "setEpoch L (u_txn u) ?e = Inr t1" and
      s: "dbLeaseExp_scan L ?e (tick_expire L ?e) (t1, u_newRev u, u_keys u) = Inr (t2, n, u_keys u @ ks)" "sm_rel env view t2 b2 A2"
        "upper b2 \<le> n" "u_newRev u \<le> n" "ev_new view (u_txn u) t2 (u_newRev u + 1) (set ks)" and
      c: "\<And>key. counter view t2 key = (if key = metaKeyEpoch then Inr ?e else counter view (u_txn u) key)" by blast
    obtain data where "marshal env (MTick ?e) = Inr data" using env by (auto simp: sm_env_ok_def)
    then have run: "update_Tick env L u ent = Inr (\<lparr>u_txn = t2, u_epoch = ?e, u_newRev = n, u_keys = u_keys u @ ks\<rparr>,
        ent\<lparr>Result_Data := data, Result_Value := Entry_Index ent\<rparr>)" using Some g False t1 s(1) by (simp add: update_Tick_def Let_def)
    have "upd_inv env view \<lparr>u_txn = t2, u_epoch = ?e, u_newRev = n, u_keys = u_keys u @ ks\<rparr>"
      using s(2,3) okc c by (auto simp: upd_inv_def counters_ok_def)
    moreover have "u_step view u \<lparr>u_txn = t2, u_epoch = ?e, u_newRev = n, u_keys = u_keys u @ ks\<rparr>"
      by (rule u_step_same [OF okc]) (use s(4) c in auto)
    moreover have "u_newRev u < u_newRev u + 1" using bumpRev_bounds(6) [of "u_newRev u"] room1 by simp
    then have "log_step view u \<lparr>u_txn = t2, u_epoch = ?e, u_newRev = n, u_keys = u_keys u @ ks\<rparr>"
      by (rule log_stepI [rotated]) (use s(5) in simp_all)
    ultimately show ?thesis using run unfolding good_def by simp
  qed
qed

lemma update_entry_good:
  assumes env: "sm_env_ok env" and inv: "upd_inv env view u" and ok: "entry_ok env L view u ent"
  shows "good env view u ent (update_entry env L u ent)"
proof -
  let ?c = "last (Entry_Cmd ent)"
  have ne: "Entry_Cmd ent \<noteq> []" and body: "body_ok env (view (u_txn u) DBI_event) ent" using ok by (auto simp: entry_ok_def)
  have room: "unat (u_newRev u) + 1 < 2 ^ 52" "unat (u_newRev u) + mdb_Entries L (u_txn u) DBI_lease_exp < 2 ^ 52"
    "mdb_Entries L (u_txn u) DBI_lease_exp + 1 < 2 ^ 64" using ok by (auto simp: entry_ok_def)
  note run = update_entry_def [of env L u ent] and b = body [unfolded body_ok_def Let_def]
  consider "?c = CMD_KV_PUT" | "?c = CMD_KV_DELETE_RANGE" | "?c = CMD_KV_COMPACT" | "?c = CMD_KV_TXN"
    | "?c \<notin> {CMD_KV_PUT, CMD_KV_DELETE_RANGE, CMD_KV_COMPACT, CMD_KV_TXN}" by blast
  then show ?thesis
  proof cases
    case 1
    with update_Put_good [OF env inv room(1), of ent] b ne show ?thesis by (simp add: run split: option.splits)
  next
    case 2
    with update_DeleteRange_good [OF env inv room(1), of ent] b ne show ?thesis by (simp add: run CMD_defs split: option.splits)
  next
    case 3
    then have "compacts ent" by (simp add: compacts_def)
    with 3 update_Compact_good [OF env inv, of ent] b ne show ?thesis by (simp add: run CMD_defs split: option.splits)
  next
    case 4
    with update_Txn_good [OF env inv room(1), of ent] b ne show ?thesis by (simp add: run CMD_defs split: option.splits)
  next
    case 5
    have "good env view u ent (Inr (u, ent))" by (rule good_idle [OF inv]) simp_all
    then show ?thesis
      using 5 ne update_LeaseGrant_good [OF env inv room(3), of ent] update_LeaseRevoke_good [OF env inv room(1), of ent]
        update_LeaseKeepAlive_good [OF env inv, of ent] update_LeaseKeepAliveBatch_good [OF env inv, of ent]
        update_Tick_good [OF env inv room(2,1), of ent] update_Term_good [OF env inv, of ent]
      by (simp add: run Let_def)
  qed
qed

end

section \<open>A batch of entries\<close>

primrec entries_ok :: "'x sm_env_scheme \<Rightarrow> 't lmdb \<Rightarrow> ('t \<Rightarrow> dbi \<Rightarrow> entry list) \<Rightarrow> Entry list \<Rightarrow> 't upd \<Rightarrow> bool" where
  "entries_ok env L view [] u \<longleftrightarrow> True"
| "entries_ok env L view (ent # ents) u \<longleftrightarrow> entry_ok env L view u ent \<and>
     (case update_entry env L u ent of Inl _ \<Rightarrow> True | Inr (u1, _) \<Rightarrow> entries_ok env L view ents u1)"

definition sm_ok :: "'x env_scheme \<Rightarrow> ('t \<Rightarrow> dbi \<Rightarrow> entry list) \<Rightarrow> 't \<Rightarrow> bool" where
  "sm_ok env view t \<longleftrightarrow> counters_ok view t \<and>
     (\<exists>n b A. counter view t metaKeyRevision = Inr n \<and> sm_rel env view t b A \<and> upper b \<le> n)"

lemma u_step_refl: "counters_ok view (u_txn u) \<Longrightarrow> u_step view u u"
  by (rule u_step_same) auto

lemma u_step_trans: "u_step view u u1 \<Longrightarrow> u_step view u1 u2 \<Longrightarrow> u_step view u u2"
  by (auto simp: u_step_def intro: order_trans)

context lmdb
begin

lemma update_entries_good:
  assumes "sm_env_ok env" "upd_inv env view u" "entries_ok env L view ents u"
  shows "\<exists>u' ents'. update_entries env L u ents = Inr (u', ents') \<and> upd_inv env view u' \<and> u_step view u u' \<and>
    map Entry_Index ents' = map Entry_Index ents \<and> (list_all (\<lambda>ent. \<not> compacts ent) ents \<longrightarrow> log_step view u u')"
  using assms(2,3)
proof (induction ents arbitrary: u)
  case Nil
  then show ?case by (auto simp: upd_inv_def intro: u_step_refl log_step_same)
next
  case (Cons ent ents)
  have "entry_ok env L view u ent" using Cons.prems(2) by simp
  from update_entry_good [OF assms(1) Cons.prems(1) this] obtain u1 ent1 where
    e: "update_entry env L u ent = Inr (u1, ent1)" "upd_inv env view u1" "u_step view u u1" "Entry_Index ent1 = Entry_Index ent"
      "\<not> compacts ent \<longrightarrow> log_step view u u1" by (auto simp: good_def)
  from Cons.IH [OF e(2)] Cons.prems(2) e(1) obtain u2 ents2 where
    "update_entries env L u1 ents = Inr (u2, ents2)" "upd_inv env view u2" "u_step view u1 u2" "map Entry_Index ents2 = map Entry_Index ents"
    "list_all (\<lambda>ent. \<not> compacts ent) ents \<longrightarrow> log_step view u1 u2" by auto
  moreover have "u_newRev u \<le> u_newRev u1" using e(3) by (simp add: u_step_def)
  ultimately show ?case using e u_step_trans [OF e(3)] log_step_trans [of view u u1 u2] by auto
qed

lemma update_spec:
  assumes env: "sm_env_ok env" and ok: "sm_ok env view t" and ne: "entries \<noteq> []"
    and c: "getEpoch L t = Inr e" "getRevision L t = Inr n" "getTerm L t = Inr a"
    and ents: "entries_ok env L view entries \<lparr>u_txn = t, u_epoch = e, u_newRev = n, u_keys = []\<rparr>"
  shows "\<exists>res c. sm_Update env L t entries = Inr res \<and> sm_ok env view (ur_txn res) \<and> n \<le> ur_newRev res \<and>
    getRevision L (ur_txn res) = Inr (ur_newRev res) \<and> getIndex L (ur_txn res) = Inr (Entry_Index (last entries)) \<and>
    getTerm L (ur_txn res) = Inr c \<and> a \<le> c \<and>
    (list_all (\<lambda>ent. \<not> compacts ent) entries \<longrightarrow> log_grows view t (ur_txn res) n (set (ur_keys res)))"
proof -
  let ?u = "\<lparr>u_txn = t, u_epoch = e, u_newRev = n, u_keys = []\<rparr>"
  have get: "getUint64 L t' DBI_meta key = counter view t' key" if "key \<in> set metaKeys" for t' key
    using that metaKeys_nonempty by (intro getUint64_counter) (auto simp: metaKeys_def simp del: metaKeys_nonempty)
  have cs: "counter view t metaKeyEpoch = Inr e" "counter view t metaKeyRevision = Inr n" "counter view t metaKeyTerm = Inr a"
    using c get [of metaKeyEpoch t] get [of metaKeyRevision t] get [of metaKeyTerm t] by (simp_all add: meta_defs metaKeys_def)
  have inv: "upd_inv env view ?u" using ok cs by (auto simp: upd_inv_def sm_ok_def)
  from update_entries_good [OF env inv ents] obtain u' ents' where
    u: "update_entries env L ?u entries = Inr (u', ents')" "upd_inv env view u'" "u_step view ?u u'" "map Entry_Index ents' = map Entry_Index entries"
    "list_all (\<lambda>ent. \<not> compacts ent) entries \<longrightarrow> log_step view ?u u'" by blast
  from u(2) obtain b A where rel: "sm_rel env view (u_txn u') b A" "upper b \<le> u_newRev u'" by (auto simp: upd_inv_def)
  have ne': "ents' \<noteq> []" using u(4) ne by auto
  have lst: "Entry_Index (last ents') = Entry_Index (last entries)" using u(4) ne ne' by (metis last_map)
  from putUint64_step [OF rel(1), of metaKeyIndex "Entry_Index (last ents')"] obtain t1 where
    t1: "setIndex L (u_txn u') (Entry_Index (last ents')) = Inr t1" "sm_rel env view t1 b A"
      "\<forall>key. counter view t1 key = (if key = metaKeyIndex then Inr (Entry_Index (last ents')) else counter view (u_txn u') key)"
      "view t1 DBI_event = view (u_txn u') DBI_event"
    by (auto simp: setIndex_def)
  from u(3) cs obtain c where us: "n \<le> u_newRev u'" "counter view (u_txn u') metaKeyRevision = Inr n"
    "counter view (u_txn u') metaKeyTerm = Inr c" "a \<le> c" by (auto simp: u_step_def)
  have "\<exists>t2. (if u_newRev u' > n then setRevision L t1 (u_newRev u') else Inr t1) = Inr t2 \<and> sm_rel env view t2 b A \<and>
    (\<forall>key. counter view t2 key = (if key = metaKeyRevision then Inr (u_newRev u') else counter view t1 key)) \<and>
    view t2 DBI_event = view t1 DBI_event"
  proof (cases "u_newRev u' > n")
    case True
    then show ?thesis using putUint64_step [OF t1(2), of metaKeyRevision "u_newRev u'"] by (auto simp: setRevision_def)
  next
    case False
    then have "u_newRev u' = n" using us(1) by simp
    moreover have "counter view t1 metaKeyRevision = Inr n" using t1(3) us(2) metaKeys_distinct by auto
    ultimately show ?thesis using t1(2) by auto
  qed
  then obtain t2 where t2: "(if u_newRev u' > n then setRevision L t1 (u_newRev u') else Inr t1) = Inr t2" "sm_rel env view t2 b A"
    "\<forall>key. counter view t2 key = (if key = metaKeyRevision then Inr (u_newRev u') else counter view t1 key)"
    "view t2 DBI_event = view t1 DBI_event" by blast
  have run: "sm_Update env L t entries = Inr \<lparr>ur_txn = t2, ur_entries = ents', ur_rev = n, ur_newRev = u_newRev u', ur_keys = u_keys u'\<rparr>"
    using c(1,2) u(1) ne' t1(1) t2(1) by (simp add: sm_Update_def)
  have fin: "counter view t2 metaKeyRevision = Inr (u_newRev u')" "counter view t2 metaKeyIndex = Inr (Entry_Index (last entries))"
    "counter view t2 metaKeyTerm = Inr c" using t2(3) t1(3) us(3) lst metaKeys_distinct by auto
  have "counters_ok view t2" using u(2) t1(3) t2(3) by (simp add: upd_inv_def counters_ok_def)
  then have "sm_ok env view t2" using fin(1) t2(2) rel(2) by (auto simp: sm_ok_def)
  moreover have "getRevision L t2 = Inr (u_newRev u')" "getIndex L t2 = Inr (Entry_Index (last entries))" "getTerm L t2 = Inr c"
    using fin get [of metaKeyRevision t2] get [of metaKeyIndex t2] get [of metaKeyTerm t2] by (simp_all add: meta_defs metaKeys_def)
  moreover have "log_grows view t t2 n (set (u_keys u'))" if "log_step view ?u u'"
    using that t1(4) t2(4) by (auto simp: log_step_def log_grows_def)
  ultimately show ?thesis using run us(1,4) u(5) by auto
qed

text \<open>\<open>Open\<close>: every database is opened, the counters that are missing are set.\<close>

lemma sm_Open_spec:
  assumes "\<forall>key \<in> set metaKeys. counter view t key = Inl ErrMdbNotFound \<or> (\<exists>v. counter view t key = Inr v)"
  shows "\<exists>t' i. sm_Open L t = Inr (t', i) \<and> counters_ok view t' \<and> counter view t' metaKeyIndex = Inr i \<and>
    (\<forall>d. d \<noteq> DBI_meta \<longrightarrow> view t' d = view t d) \<and> (\<forall>key v. counter view t key = Inr v \<longrightarrow> counter view t' key = Inr v) \<and>
    (counter view t metaKeyRevision = Inl ErrMdbNotFound \<longrightarrow> counter view t' metaKeyRevision = Inr 1) \<and>
    (\<forall>key \<in> {metaKeyEpoch, metaKeyIndex, metaKeyLeaseID, metaKeyRevisionCompacted, metaKeyTerm}.
       counter view t key = Inl ErrMdbNotFound \<longrightarrow> counter view t' key = Inr 0)"
proof -
  have od: "\<exists>t'. mdb_OpenDBI L t d = Inr t' \<and> (\<forall>d'. view t' d' = view t d')" for t d using OpenDBI_ok [of t d] OpenDBI by blast
  from od [of t DBI_meta] obtain t1 where t1: "mdb_OpenDBI L t DBI_meta = Inr t1" "\<forall>d. view t1 d = view t d" by blast
  have c1: "counter view t1 key = counter view t key" for key using t1(2) by (simp add: counter_def)
  let ?a = "[metaKeyEpoch, metaKeyIndex, metaKeyLeaseID, metaKeyRevisionCompacted, metaKeyTerm]" and ?b = "[metaKeyRevision, metaKeyRevisionMin]"
  have k: "\<forall>k \<in> set ?a. k \<noteq> [] \<and> length k \<le> 511" "\<forall>k \<in> set ?b. k \<noteq> [] \<and> length k \<le> 511" by simp_all
  have "\<forall>k \<in> set ?a. counter view t1 k = Inl ErrMdbNotFound \<or> (\<exists>v. counter view t1 k = Inr v)" using assms c1 by (simp add: metaKeys_def)
  from meta_init_counter [OF k(1) this, of 0] obtain t2 where
    t2: "meta_init L 0 ?a t1 = Inr t2" "\<forall>k. counter view t2 k = (if k \<in> set ?a \<and> counter view t1 k = Inl ErrMdbNotFound then Inr 0 else counter view t1 k)"
      "\<forall>d. d \<noteq> DBI_meta \<longrightarrow> view t2 d = view t1 d" by blast
  have "\<forall>k \<in> set ?b. counter view t2 k = Inl ErrMdbNotFound \<or> (\<exists>v. counter view t2 k = Inr v)" using assms c1 t2(2) by (simp add: metaKeys_def)
  from meta_init_counter [OF k(2) this, of 1] obtain t3 where
    t3: "meta_init L 1 ?b t2 = Inr t3" "\<forall>k. counter view t3 k = (if k \<in> set ?b \<and> counter view t2 k = Inl ErrMdbNotFound then Inr 1 else counter view t2 k)"
      "\<forall>d. d \<noteq> DBI_meta \<longrightarrow> view t3 d = view t2 d" by blast
  have ok: "\<exists>v. counter view t3 key = Inr v" if "key \<in> set metaKeys" for key
  proof -
    have "\<exists>v. counter view t2 key = Inr v \<or> key \<in> set ?b \<and> counter view t2 key = Inl ErrMdbNotFound"
    proof (cases "key \<in> set ?a")
      case True
      then show ?thesis using bspec [OF assms that] c1 t2(2) by auto
    next
      case False
      then have "key \<in> set ?b" using that unfolding metaKeys_def by simp
      then show ?thesis using bspec [OF assms that] c1 t2(2) False by auto
    qed
    then show ?thesis using t3(2) by auto
  qed
  from ok [of metaKeyIndex] obtain i where i: "counter view t3 metaKeyIndex = Inr i" by (auto simp: metaKeys_def)
  have m: "newDbMeta L t = Inr (t3, i)" using t1(1) t2(1) t3(1) i by (simp add: newDbMeta_def getIndex_def getUint64_counter)
  from od [of t3 DBI_stats] obtain t4 where t4: "mdb_OpenDBI L t3 DBI_stats = Inr t4" "\<forall>d. view t4 d = view t3 d" by blast
  have "\<exists>t'. newDbKv L t4 = Inr t' \<and> (\<forall>d'. view t' d' = view t4 d')"
    using od unfolding newDbKv_def by (metis bindE_simps(2))
  then obtain t5 where t5: "newDbKv L t4 = Inr t5" "\<forall>d. view t5 d = view t4 d" by blast
  from od [of t5 DBI_lease] obtain t6 where t6: "mdb_OpenDBI L t5 DBI_lease = Inr t6" "\<forall>d. view t6 d = view t5 d" by blast
  from od [of t6 DBI_lease_exp] obtain t7 where t7: "mdb_OpenDBI L t6 DBI_lease_exp = Inr t7" "\<forall>d. view t7 d = view t6 d" by blast
  from od [of t7 DBI_lease_key] obtain t8 where t8: "mdb_OpenDBI L t7 DBI_lease_key = Inr t8" "\<forall>d. view t8 d = view t7 d" by blast
  have run: "sm_Open L t = Inr (t8, i)" using m t4(1) t5(1) t6(1) t7(1) t8(1)
    by (simp add: sm_Open_def newDbStats_def newDbLease_def newDbLeaseExp_def newDbLeaseKey_def)
  have v: "view t8 d = view t3 d" for d using t4(2) t5(2) t6(2) t7(2) t8(2) by simp
  then have c8: "counter view t8 key = counter view t3 key" for key by (simp add: counter_def)
  have keep: "counter view t3 key = Inr v" if "counter view t key = Inr v" for key v using that c1 t2(2) t3(2) by simp
  have new: "counter view t3 metaKeyRevision = Inr 1" if "counter view t metaKeyRevision = Inl ErrMdbNotFound"
    using that c1 t2(2) t3(2) metaKeys_distinct by auto
  have zero: "counter view t3 key = Inr 0" if "key \<in> set ?a" "counter view t key = Inl ErrMdbNotFound" for key
    using that c1 t2(2) t3(2) by simp
  show ?thesis
    by (rule exI [of _ t8], rule exI [of _ i]) (use run ok i v t1(2) t2(3) t3(3) keep new zero in \<open>auto simp: c8 counters_ok_def\<close>)
qed

lemma open_empty:
  assumes "\<forall>d. view t d = []"
  shows "\<exists>t'. sm_Open L t = Inr (t', 0) \<and> sm_ok env view t' \<and> counter view t' metaKeyRevision = Inr 1 \<and> (\<forall>d. d \<noteq> DBI_meta \<longrightarrow> view t' d = []) \<and>
    (\<forall>key \<in> {metaKeyEpoch, metaKeyIndex, metaKeyLeaseID, metaKeyRevisionCompacted, metaKeyTerm}. counter view t' key = Inr 0)"
proof -
  have nf: "counter view t key = Inl ErrMdbNotFound" for key using assms by (simp add: counter_def)
  from sm_Open_spec [of t] nf obtain t' where
    t': "sm_Open L t = Inr (t', 0)" "counters_ok view t'" "\<forall>d. d \<noteq> DBI_meta \<longrightarrow> view t' d = view t d" "counter view t' metaKeyRevision = Inr 1"
      "\<forall>key \<in> {metaKeyEpoch, metaKeyIndex, metaKeyLeaseID, metaKeyRevisionCompacted, metaKeyTerm}. counter view t' key = Inr 0" by auto
  let ?A = "\<lparr>a_hist = (\<lambda>_. []), a_events = {}, a_leases = Map.empty, a_exps = {}, a_keys = {}\<rparr>"
  have "sm_rel env view t' 0 ?A" using t'(3) assms
    by (simp add: sm_rel_def kv_inv_def kv_rel_def hist_ok_def ev_rel_def logged_def lease_rel_def stored_def linked_def)
  moreover have "upper 0 \<le> 1" by (simp add: upper_def)
  ultimately have "sm_ok env view t'" using t'(2,4) unfolding sm_ok_def by blast
  then show ?thesis using t' assms by auto
qed

lemma reopen:
  assumes "sm_ok env view t" "getIndex L t = Inr i"
  shows "\<exists>t'. sm_Open L t = Inr (t', i) \<and> sm_ok env view t' \<and> (\<forall>key v. counter view t key = Inr v \<longrightarrow> counter view t' key = Inr v) \<and>
    (\<forall>d. d \<noteq> DBI_meta \<longrightarrow> view t' d = view t d)"
proof -
  from assms(1) obtain n b A where ok: "counters_ok view t" "counter view t metaKeyRevision = Inr n" "sm_rel env view t b A" "upper b \<le> n"
    by (auto simp: sm_ok_def)
  have ix: "counter view t metaKeyIndex = Inr i" using assms(2) by (simp add: getIndex_def getUint64_counter)
  from sm_Open_spec [of t] ok(1) obtain t' j where
    t': "sm_Open L t = Inr (t', j)" "counters_ok view t'" "counter view t' metaKeyIndex = Inr j" "\<forall>d. d \<noteq> DBI_meta \<longrightarrow> view t' d = view t d"
      "\<forall>key v. counter view t key = Inr v \<longrightarrow> counter view t' key = Inr v" by (auto simp: counters_ok_def)
  have "j = i" using t'(3,5) ix by simp
  moreover have "sm_ok env view t'" using t'(2,5) ok sm_rel_meta [OF t'(4) ok(3)] by (auto simp: sm_ok_def)
  ultimately show ?thesis using t' by blast
qed

section \<open>Queries\<close>

lemma queryRange_spec:
  assumes env: "env_ok env" "\<not> PCB_RANGE_COUNT_FAKE env" and rel: "sm_rel env view t b A" and key: "RangeRequest_Key req \<noteq> []"
    and c: "counters_ok view t"
  shows "queryRange env L t rv req \<in> {Inl ErrGRPCCompacted, Inl ErrGRPCFutureRev} \<or> (\<exists>resp. queryRange env L t rv req = Inr resp)"
proof -
  let ?a = "\<lparr>ra_key = RangeRequest_Key req, ra_end = RangeRequest_RangeEnd req,
               ra_revision = RangeRequest_Revision req, ra_minMod = RangeRequest_MinModRevision req,
               ra_maxMod = RangeRequest_MaxModRevision req,
               ra_minCreated = RangeRequest_MinCreateRevision req,
               ra_maxCreated = RangeRequest_MaxCreateRevision req, ra_limit = RangeRequest_Limit req,
               ra_keysOnly = RangeRequest_KeysOnly req\<rparr>"
  have "ra_key ?a \<noteq> []" using key by simp
  from getRange_sim [OF env(1) sm_relD(6) [OF rel] env(2) this, of "RangeRequest_CountOnly req"] obtain items cnt mr where
    g: "dbKv_getRange env L t ?a (RangeRequest_CountOnly req) = Inr (items, cnt, mr)" by blast
  from counters_okD [OF c, of metaKeyRevisionMin] obtain mn where "getRevisionMin L t = Inr mn"
    by (auto simp: metaKeys_def getRevisionMin_def getUint64_counter)
  then show ?thesis using g by (auto simp: queryRange_def)
qed

lemma sm_Query_spec:
  assumes env: "sm_env_ok env" and ok: "sm_ok env view t" and q: "query \<noteq> []"
    and range: "\<forall>req. last query = QUERY_KV_RANGE \<and> unmarshal_RangeRequest env (butlast query) = Some req \<longrightarrow> RangeRequest_Key req \<noteq> []"
  shows "\<exists>res. sm_Query env L t query = Inr (Some res)"
proof -
  from ok obtain n b A where o: "counters_ok view t" "counter view t metaKeyRevision = Inr n" "sm_rel env view t b A" by (auto simp: sm_ok_def)
  have rev: "getRevision L t = Inr n" using o(2) by (simp add: getRevision_def getUint64_counter)
  obtain e where ep: "getEpoch L t = Inr e" using counters_okD [OF o(1), of metaKeyEpoch] by (auto simp: metaKeys_def getEpoch_def getUint64_counter)
  have m: "\<exists>d. marshal env x = Inr d" for x using env by (simp add: sm_env_ok_def)
  have reply: "\<exists>r. query_reply env x = Inr (Some r)" for x using m [of x] by (auto simp: query_reply_def)
  have "\<exists>r. query_Range env L t (butlast query) = Inr (Some r)" if kind: "last query = QUERY_KV_RANGE"
  proof (cases "unmarshal_RangeRequest env (butlast query)")
    case (Some req)
    from queryRange_spec [OF _ _ o(3) _ o(1), of req n] env range kind Some
    show ?thesis using m rev Some by (auto simp: query_Range_def sm_env_ok_def) (metis sum.simps(6))
  qed (simp add: query_Range_def)
  moreover have "\<exists>r. query_LeaseLeases env L t (butlast query) = Inr (Some r)"
    using dbLease_all_spec [OF sm_relD(2) [OF o(3)]] rev reply by (auto simp: query_LeaseLeases_def queryLeaseLeases_def split: option.splits)
  moreover have "\<exists>r. query_LeaseTimeToLive env L t (butlast query) = Inr (Some r)"
    using rev reply ep by (auto simp: query_LeaseTimeToLive_def queryLeaseTimeToLive_def dbLease_get_spec [OF sm_relD(2) [OF o(3)]] split: option.splits)
  moreover have "\<exists>r. query_Header env L t = Inr (Some r)" using rev reply by (simp add: query_Header_def)
  ultimately show ?thesis using q by (simp add: sm_Query_def Let_def)
qed

end

end
