(* ===== verification/Sm_Reach.thy ===== *)
theory Sm_Reach
  imports Sm_Update
begin

text \<open>
  The states of the machine: what \<open>Open\<close> makes of an empty environment, closed under \<open>Update\<close> with batches
  of entries it can apply and under closing and opening again. All of them satisfy the invariant, by rule
  induction. The properties of the commands are stated over them, or over the states the invariant holds of.
\<close>

declare split_paired_Ex [simp del] split_paired_All [simp del]

section \<open>Reachable states\<close>

definition batch_ok :: "'x sm_env_scheme \<Rightarrow> 't lmdb \<Rightarrow> ('t \<Rightarrow> dbi \<Rightarrow> entry list) \<Rightarrow> 't \<Rightarrow> Entry list \<Rightarrow> bool" where
  "batch_ok env L view t entries \<longleftrightarrow> entries \<noteq> [] \<and>
     (case (getEpoch L t, getRevision L t) of
        (Inr e, Inr n) \<Rightarrow> entries_ok env L view entries \<lparr>u_txn = t, u_epoch = e, u_newRev = n, u_keys = []\<rparr>
      | _ \<Rightarrow> True)"

inductive sm_reach :: "'x sm_env_scheme \<Rightarrow> 't lmdb \<Rightarrow> ('t \<Rightarrow> dbi \<Rightarrow> entry list) \<Rightarrow> 't \<Rightarrow> bool"
  for env L view where
  sm_start: "\<forall>d. view t0 d = [] \<Longrightarrow> sm_Open L t0 = Inr (t, i) \<Longrightarrow> sm_reach env L view t"
| sm_update: "sm_reach env L view t \<Longrightarrow> batch_ok env L view t entries \<Longrightarrow> sm_Update env L t entries = Inr res \<Longrightarrow>
    sm_reach env L view (ur_txn res)"
| sm_reopen: "sm_reach env L view t \<Longrightarrow> sm_Open L t = Inr (t', i) \<Longrightarrow> sm_reach env L view t'"

context lmdb
begin

lemma counter_get:
  assumes "counters_ok view t"
  shows "\<exists>v. getEpoch L t = Inr v" "\<exists>v. getRevision L t = Inr v" "\<exists>v. getTerm L t = Inr v" "\<exists>v. getIndex L t = Inr v"
    "\<exists>v. getLeaseID L t = Inr v" "\<exists>v. getRevisionMin L t = Inr v"
  using counters_okD [OF assms] by (simp_all add: metaKeys_def meta_defs getUint64_counter)

lemma update_batch:
  assumes env: "sm_env_ok env" and ok: "sm_ok env view t" and batch: "batch_ok env L view t entries"
  shows "\<exists>res n a c. sm_Update env L t entries = Inr res \<and> sm_ok env view (ur_txn res) \<and> getRevision L t = Inr n \<and> n \<le> ur_newRev res \<and>
    getRevision L (ur_txn res) = Inr (ur_newRev res) \<and> getIndex L (ur_txn res) = Inr (Entry_Index (last entries)) \<and>
    getTerm L t = Inr a \<and> getTerm L (ur_txn res) = Inr c \<and> a \<le> c \<and>
    (list_all (\<lambda>ent. \<not> compacts ent) entries \<longrightarrow> log_grows view t (ur_txn res) n (set (ur_keys res)))"
proof -
  have co: "counters_ok view t" using ok by (simp add: sm_ok_def)
  from counter_get [OF co] obtain e n a where c: "getEpoch L t = Inr e" "getRevision L t = Inr n" "getTerm L t = Inr a" by blast
  have "entries \<noteq> []" "entries_ok env L view entries \<lparr>u_txn = t, u_epoch = e, u_newRev = n, u_keys = []\<rparr>"
    using batch c by (auto simp: batch_ok_def)
  from update_spec [OF env ok this(1) c this(2)] obtain res c' where
    "sm_Update env L t entries = Inr res" "sm_ok env view (ur_txn res)" "n \<le> ur_newRev res" "getRevision L (ur_txn res) = Inr (ur_newRev res)"
    "getIndex L (ur_txn res) = Inr (Entry_Index (last entries))" "getTerm L (ur_txn res) = Inr c'" "a \<le> c'"
    "list_all (\<lambda>ent. \<not> compacts ent) entries \<longrightarrow> log_grows view t (ur_txn res) n (set (ur_keys res))" by (elim exE conjE)
  with c show ?thesis by (intro exI [of _ res] exI [of _ n] exI [of _ a] exI [of _ c']) simp
qed

lemma reach_ok:
  assumes "sm_reach env L view t" "sm_env_ok env"
  shows "sm_ok env view t"
  using assms
proof (induction rule: sm_reach.induct)
  case (sm_start t0 t i)
  then show ?case using open_empty [of t0 env] by auto
next
  case (sm_update t entries res)
  then show ?case using update_batch [of env t entries] by auto
next
  case (sm_reopen t t' i)
  then have ok: "sm_ok env view t" by simp
  then obtain j where "getIndex L t = Inr j" using counter_get(4) [of t] by (auto simp: sm_ok_def)
  from reopen [OF ok this] sm_reopen.hyps(2) show ?case by auto
qed

lemma entries_exps: "sm_rel env view t b A \<Longrightarrow> finite (a_exps A) \<and> mdb_Entries L t DBI_lease_exp = card (a_exps A)"
  using exps.stored_finite exps.stored_card sm_relD(3) by metis

text \<open>What a tick does to the leases, and what a renewal does not do.\<close>

lemma tick_effect:
  assumes "sm_env_ok env" "sm_rel env view (u_txn u) b A" "upper b \<le> u_newRev u"
    and "unat (u_newRev u) + mdb_Entries L (u_txn u) DBI_lease_exp < 2 ^ 52"
    and "unmarshal_TickRequest env (cmd_body ent) = Some req" "getTerm L (u_txn u) = Inr a" "a \<le> TickRequest_Term req"
  shows "\<exists>u' ent'. update_Tick env L u ent = Inr (u', ent') \<and> u_epoch u' = u_epoch u + 1 \<and> getEpoch L (u_txn u') = Inr (u_epoch u + 1) \<and>
    dbLease_get L (u_txn u') i =
      (if i \<in> due (u_epoch u + 1) (a_exps A) then Inr lease_zero else dbLease_get L (u_txn u) i)"
proof -
  let ?e = "u_epoch u + 1"
  from tick_run [OF assms(2-4), of ?e "u_keys u"] obtain t1 t2 n ks b' A' where
    t: "setEpoch L (u_txn u) ?e = Inr t1" "dbLeaseExp_scan L ?e (tick_expire L ?e) (t1, u_newRev u, u_keys u) = Inr (t2, n, ks)"
      "sm_rel env view t2 b' A'" "a_leases A' = a_leases A |` (- due ?e (a_exps A))"
      "\<forall>key. counter view t2 key = (if key = metaKeyEpoch then Inr ?e else counter view (u_txn u) key)" by blast
  obtain data where "marshal env (MTick ?e) = Inr data" using assms(1) by (auto simp: sm_env_ok_def)
  then have run: "update_Tick env L u ent = Inr (\<lparr>u_txn = t2, u_epoch = ?e, u_newRev = n, u_keys = ks\<rparr>,
      ent\<lparr>Result_Data := data, Result_Value := Entry_Index ent\<rparr>)" using assms(5-7) t(1,2) leD [OF assms(7)] by (simp add: update_Tick_def Let_def)
  have "getEpoch L t2 = Inr ?e" using t(5) by (simp add: getEpoch_def getUint64_counter)
  moreover have "dbLease_get L t2 i = (if i \<in> due ?e (a_exps A) then Inr lease_zero else dbLease_get L (u_txn u) i)"
    unfolding dbLease_get_spec [OF sm_relD(2) [OF t(3)]] dbLease_get_spec [OF sm_relD(2) [OF assms(2)]] t(4)
    by (simp add: lease_at_def restrict_map_def)
  ultimately show ?thesis using run by simp
qed

lemma keepalive_effect:
  assumes "sm_env_ok env" "sm_rel env view t b A" "upper b \<le> n"
    and "unat n + mdb_Entries L t DBI_lease_exp + 1 < 2 ^ 52"
    and "a_leases A (LeaseKeepAliveRequest_ID req) = Some l" "LeaseKeepAliveRequest_ID req \<noteq> 0" "lease_expires l \<le> e + 1"
    and "unmarshal_TickRequest env (cmd_body ent) = Some tick" "getTerm L t = Inr a" "a \<le> TickRequest_Term tick"
  shows "\<exists>t1 resp u' ent'. cmdLeaseKeepAlive L t epoch req = Inr (t1, resp, 1) \<and>
    dbLease_get L t1 (LeaseKeepAliveRequest_ID req) =
      Inr (l\<lparr>lease_expires := epoch + (lease_expires l - lease_renewed l), lease_renewed := epoch\<rparr>) \<and>
    update_Tick env L \<lparr>u_txn = t1, u_epoch = e, u_newRev = n, u_keys = []\<rparr> ent = Inr (u', ent') \<and>
    dbLease_get L (u_txn u') (LeaseKeepAliveRequest_ID req) = Inr lease_zero"
proof -
  let ?i = "LeaseKeepAliveRequest_ID req" and ?l = "l\<lparr>lease_expires := epoch + (lease_expires l - lease_renewed l), lease_renewed := epoch\<rparr>"
  note d = sm_relD [OF assms(2)]
  have id: "lease_id l = ?i" "lease_at (a_leases A) ?i = l" using d(2) assms(5) by (auto simp: lease_rel_def lease_at_def)
  from lease_renew_spec [OF assms(2), of epoch l] obtain t1 where
    t1: "lease_renew L t epoch l = Inr (t1, lease_expires l - lease_renewed l)" "sm_rel env view t1 b (with_lease ?l A)"
      "view t1 DBI_meta = view t DBI_meta" by blast
  obtain resp where run: "cmdLeaseKeepAlive L t epoch req = Inr (t1, resp, 1)"
    using t1(1) id assms(6) by (simp add: cmdLeaseKeepAlive_def dbLease_get_spec [OF d(2)])
  have get: "dbLease_get L t1 ?i = Inr ?l"
    using id by (simp add: dbLease_get_spec [OF sm_relD(2) [OF t1(2)]] with_lease_def lease_at_def)
  let ?u = "\<lparr>u_txn = t1, u_epoch = e, u_newRev = n, u_keys = []\<rparr>"
  have trm: "getTerm L (u_txn ?u) = Inr a" using assms(9) t1(3) by (simp add: getTerm_def getUint64_counter counter_def)
  have due: "?i \<in> due (u_epoch ?u + 1) (a_exps (with_lease ?l A))"
    using d(5) assms(5-7) by (auto simp: due_def with_lease_def linked_def)
  have "card (a_exps (with_lease ?l A)) \<le> card (a_exps A) + 1"
    using exps.stored_finite [OF d(3)] by (simp add: with_lease_def card_insert_if)
  then have room: "unat (u_newRev ?u) + mdb_Entries L (u_txn ?u) DBI_lease_exp < 2 ^ 52"
    using assms(4) exps.stored_card [OF d(3)] exps.stored_card [OF sm_relD(3) [OF t1(2)]] by simp
  have rel: "sm_rel env view (u_txn ?u) b (with_lease ?l A)" "upper b \<le> u_newRev ?u" using t1(2) assms(3) by simp_all
  from tick_effect [OF assms(1) rel room assms(8) trm assms(10), of ?i] due run get show ?thesis by auto
qed

end

section \<open>Environments for the concrete runs\<close>

definition wit_put :: PutRequest where
  "wit_put = \<lparr>PutRequest_Key = [97, 98], PutRequest_Value = Some [1], PutRequest_Lease = 0, PutRequest_PrevKv = False,
     PutRequest_IgnoreValue = False, PutRequest_IgnoreLease = False\<rparr>"

definition wit_env :: sm_env where
  "wit_env = plain_sm_env\<lparr>unmarshal_PutRequest := (\<lambda>_. Some wit_put), unmarshal_TickRequest := (\<lambda>_. Some \<lparr>TickRequest_Term = 0\<rparr>)\<rparr>"

definition wit_entry :: "byte \<Rightarrow> u64 \<Rightarrow> Entry" where
  "wit_entry c i = \<lparr>Entry_Index = i, Entry_Cmd = [c], Result_Value = 0, Result_Data = []\<rparr>"

lemma wit_env_simps [simp]:
  "unmarshal_PutRequest wit_env b = Some wit_put" "unmarshal_TickRequest wit_env b = Some \<lparr>TickRequest_Term = 0\<rparr>"
  "marshal wit_env m = Inr []" "\<not> PCB_RANGE_COUNT_FAKE wit_env" "pool_f wit_env = []" "pool_b wit_env = []"
  "snappy_Encode wit_env c = c" "snappy_Decode wit_env c = Some c"
  using plain_env_simps by (simp_all add: wit_env_def plain_sm_env_def env.defs)

lemma wit_env_ok [simp]: "sm_env_ok wit_env"
  by (simp add: sm_env_ok_def env_ok_def snappy_ok_def pools_ok_def label_ok_def)

text \<open>An environment that reads the body of a range request as its key, so that the empty body decodes to a
  request without a key, as it does in the wire format.\<close>

definition query_env :: sm_env where
  "query_env = wit_env\<lparr>unmarshal_RangeRequest := (\<lambda>b. Some \<lparr>RangeRequest_Key = b, RangeRequest_RangeEnd = [], RangeRequest_Limit = 0,
     RangeRequest_Revision = 0, RangeRequest_Serializable = False, RangeRequest_KeysOnly = False, RangeRequest_CountOnly = False,
     RangeRequest_MinModRevision = 0, RangeRequest_MaxModRevision = 0, RangeRequest_MinCreateRevision = 0,
     RangeRequest_MaxCreateRevision = 0\<rparr>)\<rparr>"

lemma query_env_ok [simp]: "sm_env_ok query_env"
  using wit_env_ok by (simp add: query_env_def sm_env_ok_def env_ok_def pools_ok_def snappy_ok_def)

lemma wit_batch:
  assumes "sm_Open mem_lmdb mem_empty = Inr (t, i)"
  shows "sm_reach wit_env mem_lmdb mem_view t \<and> getRevision mem_lmdb t = Inr 1 \<and>
    batch_ok wit_env mem_lmdb mem_view t [wit_entry CMD_KV_PUT 7]"
proof -
  from mem.open_empty [of mem_empty wit_env] assms have
    t: "counter mem_view t metaKeyRevision = Inr 1" "\<forall>d. d \<noteq> DBI_meta \<longrightarrow> mem_view t d = []" by auto
  have r: "getRevision mem_lmdb t = Inr 1" using t(1) by (simp add: getRevision_def mem.getUint64_counter)
  have "mdb_Entries mem_lmdb t DBI_lease_exp = 0" using t(2) by (simp add: mem.Entries)
  then have "entry_ok wit_env mem_lmdb mem_view \<lparr>u_txn = t, u_epoch = e, u_newRev = 1, u_keys = []\<rparr> (wit_entry CMD_KV_PUT 7)" for e
    by (simp add: entry_ok_def body_ok_def wit_entry_def put_req_ok_def wit_put_def)
  then show ?thesis using r sm_start [OF _ assms, of mem_view wit_env]
    by (auto simp: batch_ok_def split: sum.splits)
qed

end
