(* ===== verification/Watch_Exact.thy ===== *)
theory Watch_Exact
  imports Watch_Machine Sm_Reach
begin

text \<open>
  What a watch delivers. A watch and the updates of its replica run interleaved (\<open>Watch_Machine\<close>); by rule
  induction over the states they can reach, the event messages a watch has sent are those of the events it
  selects, from its start up to the revision it has scanned, in the order of the log and each once. When no
  update is under way and no alert waits, nothing is left out. The updates here do not compact: a compaction can
  remove events a watch has not read yet, which the code does not notice.
\<close>

declare split_paired_Ex [simp del] split_paired_All [simp del]

section \<open>The log\<close>

lemma evt_rev_dec: "e \<in> evt_entry ` E \<Longrightarrow> \<exists>x \<in> E. e = evt_entry x \<and> evt_dec e = evt_of x"
  by auto

definition late :: "u64 \<Rightarrow> kvEvent \<Rightarrow> bool" where
  "late n e \<longleftrightarrow> n < upper (evt_rev e)"

context lmdb
begin

lemma log_append:
  assumes rel: "ev_rel view t E" and old: "\<forall>x \<in> E. upper (fst x) \<le> n" and g: "log_grows view t t' n K" and r: "unat r < 2 ^ 52"
  shows "\<exists>evts new. dbKv_scan L t r = Inr evts \<and> dbKv_scan L t' r = Inr (evts @ new) \<and>
    (\<forall>e \<in> set new. late n e \<and> evt_key e \<in> K)"
proof -
  from g obtain N where N: "set (view t' DBI_event) = set (view t DBI_event) \<union> evt_entry ` N"
    "\<forall>x \<in> N. n < upper (fst x) \<and> snd (snd x) \<in> K" unfolding log_grows_def by blast
  let ?ys = "filter (\<lambda>e. e \<notin> set (view t DBI_event)) (view t' DBI_event)"
  have lt: "e < e'" if "e \<in> set (view t DBI_event)" "e' \<in> set ?ys" for e e'
  proof -
    from that rel N obtain x y where xy: "x \<in> E" "e = evt_entry x" "y \<in> N" "e' = evt_entry y" by (auto simp: ev_rel_def)
    then have "upper (fst x) < upper (fst y)" using old N(2) order_le_less_trans by blast
    then have "fst x < fst y" using upper_mono [of "fst y" "fst x"] by (meson leD not_le_imp_less)
    then have "fst e < fst e'" using xy by (simp add: be64_less)
    then show ?thesis by (cases e; cases e') auto
  qed
  have "ssorted (view t DBI_event @ ?ys)" unfolding sorted_wrt_append using lt by (simp add: sorted_wrt_filter)
  moreover have "set (view t' DBI_event) = set (view t DBI_event @ ?ys)" using N(1) by auto
  ultimately have eq: "view t' DBI_event = view t DBI_event @ ?ys" using ssorted_eq_iff_set [OF view_sorted] by blast
  have rel': "ev_rel view t' (E \<union> N)" using rel N(1) by (auto simp: ev_rel_def)
  let ?P = "\<lambda>e. be64 (push_bit 12 r) \<le> fst e"
  have "scan_entries t' r = scan_entries t r @ filter ?P ?ys" unfolding scan_entries_def by (subst eq) simp
  then have run: "dbKv_scan L t' r = Inr (map evt_dec (scan_entries t r) @ map evt_dec (filter ?P ?ys))"
    using scan_run [OF rel'] by simp
  have "late n e \<and> evt_key e \<in> K" if "e \<in> set (map evt_dec (filter ?P ?ys))" for e
  proof -
    from that N(1) obtain x where "x \<in> N" "e = evt_of x" by auto
    then show ?thesis using N(2) by (auto simp: late_def evt_of_def)
  qed
  then show ?thesis using run scan_run [OF rel] by blast
qed

text \<open>The events of a revision and later, of a log read from an earlier one.\<close>

lemma scan_from:
  assumes rel: "ev_rel view t E" and r: "unat r < 2 ^ 52" "unat n + 1 < 2 ^ 52" "r \<le> n + 1"
    and s: "dbKv_scan L t r = Inr evts"
  shows "dbKv_scan L t (n + 1) = Inr (filter (late n) evts)"
proof -
  have n1: "unat (n + 1) = unat n + 1" using r(2) by (simp add: unat_plus_if')
  have "map evt_dec (filter (\<lambda>e. be64 (push_bit 12 (n + 1)) \<le> fst e) xs) =
    filter (late n) (map evt_dec (filter (\<lambda>e. be64 (push_bit 12 r) \<le> fst e) xs))" if "set xs \<subseteq> evt_entry ` E" for xs
    using that
  proof (induction xs)
    case (Cons e xs)
    then obtain x where x: "e = evt_entry x" by auto
    have a: "push_bit 12 (n + 1) \<le> fst x \<longleftrightarrow> n < upper (fst x)"
      using push_bit_le_upper [of "n + 1" "fst x"] n1 r(2) by (simp add: word_le_nat_alt word_less_nat_alt Suc_le_eq)
    have b: "push_bit 12 r \<le> fst x \<longleftrightarrow> r \<le> upper (fst x)" by (rule push_bit_le_upper [OF r(1)])
    have "n < upper (fst x) \<longrightarrow> r \<le> upper (fst x)" using r(3) n1 by (simp add: word_le_nat_alt word_less_nat_alt)
    then show ?case using Cons x a b by (auto simp: be64_le late_def)
  qed simp
  moreover have "set (view t DBI_event) \<subseteq> evt_entry ` E" using rel by (simp add: ev_rel_def)
  ultimately show ?thesis using scan_run [OF rel] s by (simp add: scan_entries_def)
qed

end

section \<open>One scan\<close>

definition event_msgs :: "sm_result list \<Rightarrow> sm_result list" where
  "event_msgs out = filter (\<lambda>m. take 1 (Res_Data m) = [WatchMessageType_EVENT]) out"

lemma event_msgs_append [simp]: "event_msgs (xs @ ys) = event_msgs xs @ event_msgs ys"
  by (simp add: event_msgs_def)

text \<open>The stores of one run: those that updates without compactions lead to.\<close>

inductive upd_run :: "'x sm_env_scheme \<Rightarrow> 't lmdb \<Rightarrow> ('t \<Rightarrow> dbi \<Rightarrow> entry list) \<Rightarrow> 't \<Rightarrow> 't \<Rightarrow> bool" for env L view t0 where
  upd_refl: "upd_run env L view t0 t0"
| upd_step: "upd_run env L view t0 t \<Longrightarrow> batch_ok env L view t entries \<Longrightarrow> list_all (\<lambda>ent. \<not> compacts ent) entries \<Longrightarrow>
    sm_Update env L t entries = Inr res \<Longrightarrow> upd_run env L view t0 (ur_txn res)"

definition in_log :: "'t lmdb \<Rightarrow> 't \<Rightarrow> kvEvent \<Rightarrow> bool" where
  "in_log L t e \<longleftrightarrow> (\<exists>evts. dbKv_scan L t 0 = Inr evts \<and> e \<in> set evts)"

text \<open>A message sent for an event in the run from \<open>t0\<close> to \<open>tn\<close>: what \<open>watch_event\<close> makes of the event in a store of this run
  that has the event in its log, with the revision of that store.\<close>

definition watch_sent :: "'x sm_env_scheme \<Rightarrow> 't lmdb \<Rightarrow> ('t \<Rightarrow> dbi \<Rightarrow> entry list) \<Rightarrow> WatchCreateRequest \<Rightarrow> 't \<Rightarrow> 't \<Rightarrow> sm_result \<Rightarrow> kvEvent \<Rightarrow> bool" where
  "watch_sent env L view req t0 tn m e \<longleftrightarrow>
     (\<exists>t rv. upd_run env L view t0 t \<and> upd_run env L view t tn \<and> getRevision L t = Inr rv \<and> in_log L t e \<and> watch_event env L t req rv e = Inr m)"

lemma watch_sent_later:
  assumes "batch_ok env L view t entries" "list_all (\<lambda>ent. \<not> compacts ent) entries" "sm_Update env L t entries = Inr res" "list_all2 (watch_sent env L view req t0 t) ms es"
  shows "list_all2 (watch_sent env L view req t0 (ur_txn res)) ms es"
  using assms(4) by (rule list_all2_mono) (auto simp: watch_sent_def intro: upd_step [OF _ assms(1-3)])

lemma watch_event_type: "watch_event env L t req rv e = Inr m \<Longrightarrow> take 1 (Res_Data m) = [WatchMessageType_EVENT]"
  by (auto simp: watch_event_def Let_def elim!: bindE_InrE)

context lmdb
begin

lemma sm_ok_log:
  assumes "sm_ok env view t" "getRevision L t = Inr n"
  obtains E where "ev_rel view t E" "\<forall>x \<in> E. upper (fst x) \<le> n \<and> snd (snd x) \<noteq> []"
proof -
  from assms obtain b A where A: "sm_rel env view t b A" "upper b \<le> n"
    by (auto simp: sm_ok_def getRevision_def getUint64_counter)
  note d = sm_relD [OF A(1)]
  have "upper (fst x) \<le> n \<and> snd (snd x) \<noteq> []" if x: "x \<in> a_events A" for x
  proof
    show "upper (fst x) \<le> n" using upper_mono [OF kv_invD(5) [OF d(1) x]] A(2) by simp
    from d(8) x obtain h where "h \<in> set (a_hist A (snd (snd x)))" by (auto simp: logged_def)
    then show "snd (snd x) \<noteq> []" using hist_okD(1) [OF kv_relD(1) [OF d(6)], of "snd (snd x)"] by fastforce
  qed
  then show thesis using d(7) that by blast
qed

lemma watch_event_ok:
  assumes "sm_env_ok env" "sm_ok env view t" "evt_key e \<noteq> []"
  shows "\<exists>m. watch_event env L t req rv e = Inr m"
proof -
  from assms(2) obtain b A where A: "sm_rel env view t b A" by (auto simp: sm_ok_def)
  have e: "env_ok env" using assms(1) by (simp add: sm_env_ok_def)
  from getRev_spec [OF e sm_relD(6) [OF A] assms(3), of "upper (evt_rev e)" "WatchCreateRequest_PrevKv req"] obtain item prev where
    g: "dbKv_getRev env L t (evt_key e) (upper (evt_rev e)) (WatchCreateRequest_PrevKv req) = Inr (item, prev, None)" by blast
  have m: "\<exists>data. marshal env x = Inr data" for x using assms(1) by (simp add: sm_env_ok_def)
  have "bindE (marshal env x) (\<lambda>data. Inr (f data)) = Inr (f (projr (marshal env x)))" for x and f :: "bytes \<Rightarrow> sm_result"
    using m [of x] by auto
  then show ?thesis using g by (auto simp: watch_event_def Let_def)
qed

lemma watch_events_spec:
  assumes env: "sm_env_ok env" and t: "sm_reach env L view t" "getRevision L t = Inr rv" and run: "upd_run env L view t0 t"
    and ks: "\<forall>e \<in> set evts. evt_key e \<noteq> [] \<and> in_log L t e"
  shows "\<exists>ms. watch_events env L t req rv evts out = (out @ ms, None) \<and> event_msgs ms = ms \<and>
    list_all2 (watch_sent env L view req t0 t) ms (filter (watch_selects req) evts)"
  using ks
proof (induction evts arbitrary: out)
  case (Cons e evts)
  have ok: "sm_ok env view t" by (rule reach_ok [OF t(1) env])
  show ?case
  proof (cases "watch_selects req e")
    case True
    from Cons.prems watch_event_ok [OF env ok] obtain m where m: "watch_event env L t req rv e = Inr m" by fastforce
    from Cons.IH [of "out @ [m]"] Cons.prems obtain ms where
      "watch_events env L t req rv evts (out @ [m]) = ((out @ [m]) @ ms, None)" "event_msgs ms = ms"
      "list_all2 (watch_sent env L view req t0 t) ms (filter (watch_selects req) evts)" by auto
    moreover have "watch_sent env L view req t0 t m e" unfolding watch_sent_def using t(2) run upd_refl m Cons.prems by fastforce
    ultimately show ?thesis using True m watch_event_type [OF m] by (intro exI [of _ "m # ms"]) (simp add: event_msgs_def)
  next
    case False
    then show ?thesis using Cons by simp
  qed
qed (simp add: event_msgs_def)

lemma watch_header_ok:
  "sm_env_ok env \<Longrightarrow> \<exists>data. watch_header env req ty rv = Inr \<lparr>Res_Value = WatchCreateRequest_WatchId req, Res_Data = ty # data\<rparr>"
  by (auto simp: watch_header_def sm_env_ok_def) (metis bindE_simps(2))

lemma watch_scan_spec:
  assumes env: "sm_env_ok env" and t: "sm_reach env L view t" "getRevision L t = Inr n" and run: "upd_run env L view t0 t"
    and s: "since \<noteq> 0" "dbKv_scan L t since = Inr evts"
  shows "\<exists>out. watch_scan env L t req since = \<lparr>scan_rev = n, scan_sent = length (filter (watch_selects req) evts), scan_out = out, scan_err = None\<rparr> \<and>
    list_all2 (watch_sent env L view req t0 t) (event_msgs out) (filter (watch_selects req) evts)"
proof -
  have ok: "sm_ok env view t" by (rule reach_ok [OF t(1) env])
  from sm_ok_log [OF ok t(2)] obtain E where E: "ev_rel view t E" "\<forall>x \<in> E. upper (fst x) \<le> n \<and> snd (snd x) \<noteq> []" .
  from scan_spec [OF E(1), of since] s(2) have "set evts \<subseteq> evt_of ` E" by auto
  moreover from scan_spec [OF E(1), of 0] have "in_log L t (evt_of x)" if "x \<in> E" for x using that by (auto simp: in_log_def)
  ultimately have ks: "\<forall>e \<in> set evts. evt_key e \<noteq> [] \<and> in_log L t e" using E(2) by (fastforce simp: evt_of_def)
  from watch_events_spec [OF env t run ks, of req "[]"] obtain ms where
    ms: "watch_events env L t req n evts [] = (ms, None)" "event_msgs ms = ms"
      "list_all2 (watch_sent env L view req t0 t) ms (filter (watch_selects req) evts)" by auto
  have len: "length ms = length (filter (watch_selects req) evts)" by (rule list_all2_lengthD [OF ms(3)])
  show ?thesis
  proof (cases "ms = []")
    case True
    then show ?thesis using t(2) s ms len by (simp add: watch_scan_def event_msgs_def)
  next
    case False
    from watch_header_ok [OF env, of req WatchMessageType_SYNC n] obtain data where
      h: "watch_header env req WatchMessageType_SYNC n = Inr \<lparr>Res_Value = WatchCreateRequest_WatchId req, Res_Data = WatchMessageType_SYNC # data\<rparr>" ..
    have "event_msgs [\<lparr>Res_Value = WatchCreateRequest_WatchId req, Res_Data = WatchMessageType_SYNC # data\<rparr>] = []"
      by (simp add: event_msgs_def WatchMessageType_SYNC_def WatchMessageType_EVENT_def)
    moreover have "filter (watch_selects req) evts \<noteq> []" using len False by force
    ultimately show ?thesis using t(2) s ms len False h by (simp add: watch_scan_def Let_def)
  qed
qed

end

section \<open>What has been delivered\<close>

text \<open>The revision a watch starts from. A start revision in the future is not kept: the second scan starts after the
  current revision.\<close>

definition watch_from :: "u64 \<Rightarrow> u64 \<Rightarrow> u64" where
  "watch_from since rv0 = (if since = 0 \<or> rv0 < since then rv0 + 1 else since)"

definition delivered :: "'x sm_env_scheme \<Rightarrow> 't lmdb \<Rightarrow> ('t \<Rightarrow> dbi \<Rightarrow> entry list) \<Rightarrow> WatchCreateRequest \<Rightarrow> 't \<Rightarrow> 't \<Rightarrow> u64 \<Rightarrow> u64
    \<Rightarrow> sm_result list \<Rightarrow> bool" where
  "delivered env L view req t0 t start rv out \<longleftrightarrow> (\<exists>evts. dbKv_scan L t start = Inr evts \<and>
     list_all2 (watch_sent env L view req t0 t) (event_msgs out) (filter (watch_selects req) (filter (\<lambda>e. \<not> late rv e) evts)))"

lemma sorted_late_split:
  "sorted (map evt_rev evts) \<Longrightarrow> filter (\<lambda>e. \<not> late n e) evts @ filter (late n) evts = evts"
proof (induction evts)
  case (Cons e evts)
  have "late n e'" if "late n e" "e' \<in> set evts" for e'
    using that Cons.prems upper_mono [of "evt_rev e" "evt_rev e'"] by (auto simp: late_def intro: order_less_le_trans)
  then show ?case using Cons by (cases "late n e") (auto simp: filter_id_conv filter_empty_conv)
qed simp

lemma filter_not_late: "\<forall>e \<in> set evts. \<not> late n e \<Longrightarrow> filter (\<lambda>e. \<not> late n e) evts = evts" "\<forall>e \<in> set evts. \<not> late n e \<Longrightarrow> filter (late n) evts = []"
  by (simp_all add: filter_id_conv filter_empty_conv)

context lmdb
begin

lemma scan_bounds:
  assumes "sm_ok env view t" "getRevision L t = Inr n"
  shows "\<exists>evts. dbKv_scan L t r = Inr evts \<and> sorted (map evt_rev evts) \<and> (\<forall>e \<in> set evts. \<not> late n e) \<and>
    (unat r < 2 ^ 52 \<longrightarrow> (\<forall>e \<in> set evts. r \<le> upper (evt_rev e)))"
proof -
  from sm_ok_log [OF assms] obtain E where E: "ev_rel view t E" "\<forall>x \<in> E. upper (fst x) \<le> n \<and> snd (snd x) \<noteq> []" .
  from scan_spec [OF E(1), of r] obtain evts where
    s: "dbKv_scan L t r = Inr evts" "set evts = evt_of ` {x \<in> E. push_bit 12 r \<le> fst x}" "sorted (map evt_rev evts)" by blast
  have "\<not> late n e" if "e \<in> set evts" for e using that s(2) E(2) by (auto simp: late_def not_less)
  moreover have "r \<le> upper (evt_rev e)" if "e \<in> set evts" "unat r < 2 ^ 52" for e
    using that s(2) push_bit_le_upper [OF that(2)] by auto
  ultimately show ?thesis using s(1,3) by blast
qed

lemma scan_past:
  assumes "sm_ok env view t" "getRevision L t = Inr n" "n < r" "unat r < 2 ^ 52"
  shows "dbKv_scan L t r = Inr []"
proof -
  from scan_bounds [OF assms(1,2), of r] assms(4) obtain evts where
    "dbKv_scan L t r = Inr evts" "\<forall>e \<in> set evts. \<not> late n e \<and> r \<le> upper (evt_rev e)" by auto
  moreover have "evts = []"
  proof (rule ccontr)
    assume "evts \<noteq> []"
    then obtain e where "e \<in> set evts" by (cases evts) auto
    then have "upper (evt_rev e) \<le> n" "r \<le> upper (evt_rev e)" using calculation(2) by (auto simp: late_def not_less)
    then show False using assms(3) by simp
  qed
  ultimately show ?thesis by simp
qed

lemma delivered_start:
  assumes env: "sm_env_ok env" and t: "sm_reach env L view t" "getRevision L t = Inr n" and room: "unat n + 1 < 2 ^ 52"
    and since: "unat (WatchCreateRequest_StartRevision req) < 2 ^ 52"
    and w: "watch_start env L t req = Inr (rv, out)"
  shows "rv = n \<and> delivered env L view req t t (watch_from (WatchCreateRequest_StartRevision req) n) n out"
proof -
  let ?s = "WatchCreateRequest_StartRevision req"
  have ok: "sm_ok env view t" by (rule reach_ok [OF t(1) env])
  have n1: "unat (n + 1) = unat n + 1" "n < n + 1" using room by (simp_all add: unat_plus_if' word_less_nat_alt)
  from watch_header_ok [OF env, of req WatchMessageType_INIT 0] obtain data where
    h: "watch_header env req WatchMessageType_INIT 0 = Inr \<lparr>Res_Value = WatchCreateRequest_WatchId req, Res_Data = WatchMessageType_INIT # data\<rparr>" ..
  let ?m = "\<lparr>Res_Value = WatchCreateRequest_WatchId req, Res_Data = WatchMessageType_INIT # data\<rparr>"
  from w h have o: "rv = scan_rev (watch_scan env L t req ?s)" "out = ?m # scan_out (watch_scan env L t req ?s)"
    by (auto simp: watch_start_def Let_def split: sum.splits if_splits)
  have m: "event_msgs (?m # xs) = event_msgs xs" for xs
    by (simp add: event_msgs_def WatchMessageType_INIT_def WatchMessageType_EVENT_def)
  show ?thesis
  proof (cases "?s = 0")
    case True
    then have "watch_scan env L t req ?s = \<lparr>scan_rev = n, scan_sent = 0, scan_out = [], scan_err = None\<rparr>" using t(2) by (simp add: watch_scan_def)
    moreover have "dbKv_scan L t (n + 1) = Inr []" by (rule scan_past [OF ok t(2) n1(2)]) (use n1 room in simp)
    ultimately show ?thesis using o True m by (simp add: delivered_def watch_from_def event_msgs_def)
  next
    case False
    from scan_bounds [OF ok t(2), of ?s] obtain evts where s: "dbKv_scan L t ?s = Inr evts" "\<forall>e \<in> set evts. \<not> late n e" by blast
    from watch_scan_spec [OF env t upd_refl False s(1), of req] obtain out' where
      w': "scan_rev (watch_scan env L t req ?s) = n" "scan_out (watch_scan env L t req ?s) = out'"
        "list_all2 (watch_sent env L view req t t) (event_msgs out') (filter (watch_selects req) evts)" by auto
    show ?thesis
    proof (cases "n < ?s")
      case True
      have "evts = []" "dbKv_scan L t (n + 1) = Inr []"
        using scan_past [OF ok t(2) True since] scan_past [OF ok t(2) n1(2)] s(1) n1 room by auto
      then show ?thesis using o w' True m by (simp add: delivered_def watch_from_def)
    next
      case no: False
      then show ?thesis using o w' False m s filter_not_late [OF s(2)] by (simp add: delivered_def watch_from_def del: filter_filter)
    qed
  qed
qed

lemma delivered_scan:
  assumes env: "sm_env_ok env" and t: "sm_reach env L view t" "getRevision L t = Inr n" and run: "upd_run env L view t0 t" and room: "unat n + 1 < 2 ^ 52"
    and rv: "rv \<le> n" "start \<le> rv + 1" "unat start < 2 ^ 52" and d: "delivered env L view req t0 t start rv out"
  shows "\<exists>sent out'. watch_scan env L t req (rv + 1) = \<lparr>scan_rev = n, scan_sent = sent, scan_out = out', scan_err = None\<rparr> \<and>
    delivered env L view req t0 t start n (out @ out')"
proof -
  have ok: "sm_ok env view t" by (rule reach_ok [OF t(1) env])
  have r1: "unat rv + 1 < 2 ^ 52" using rv(1) room by (simp add: word_le_nat_alt)
  then have ne: "rv + 1 \<noteq> 0" by (rule bumpRev_bounds(5))
  from d obtain evts where e: "dbKv_scan L t start = Inr evts"
    "list_all2 (watch_sent env L view req t0 t) (event_msgs out) (filter (watch_selects req) (filter (\<lambda>e. \<not> late rv e) evts))"
    by (auto simp: delivered_def)
  from scan_bounds [OF ok t(2), of start] e(1) have b: "sorted (map evt_rev evts)" "\<forall>e \<in> set evts. \<not> late n e" by auto
  from sm_ok_log [OF ok t(2)] obtain E where E: "ev_rel view t E" by blast
  have "dbKv_scan L t (rv + 1) = Inr (filter (late rv) evts)" by (rule scan_from [OF E rv(3) r1 rv(2) e(1)])
  from watch_scan_spec [OF env t run ne this, of req] obtain out' where
    w: "watch_scan env L t req (rv + 1) = \<lparr>scan_rev = n, scan_sent = length (filter (watch_selects req) (filter (late rv) evts)), scan_out = out', scan_err = None\<rparr>"
      "list_all2 (watch_sent env L view req t0 t) (event_msgs out') (filter (watch_selects req) (filter (late rv) evts))" by blast
  have "list_all2 (watch_sent env L view req t0 t) (event_msgs (out @ out'))
      (filter (watch_selects req) (filter (\<lambda>e. \<not> late rv e) evts @ filter (late rv) evts))"
    using list_all2_appendI [OF e(2) w(2)] by simp
  then have "delivered env L view req t0 t start n (out @ out')"
    unfolding delivered_def sorted_late_split [OF b(1)] using e(1) filter_not_late(1) [OF b(2)] by (auto simp del: filter_filter)
  then show ?thesis using w(1) by blast
qed

lemma delivered_commit:
  assumes ok: "sm_ok env view t" "getRevision L t = Inr n" and rv: "rv \<le> n" "unat start < 2 ^ 52" and g: "log_grows view t t' n K"
    and later: "\<And>ms es. list_all2 (watch_sent env L view req t0 t) ms es \<Longrightarrow> list_all2 (watch_sent env L view req t0 t') ms es"
    and d: "delivered env L view req t0 t start rv out"
  shows "delivered env L view req t0 t' start rv out"
proof -
  from sm_ok_log [OF ok] obtain E where E: "ev_rel view t E" "\<forall>x \<in> E. upper (fst x) \<le> n \<and> snd (snd x) \<noteq> []" .
  then have "\<forall>x \<in> E. upper (fst x) \<le> n" by blast
  from log_append [OF E(1) this g rv(2)] obtain evts new where
    s: "dbKv_scan L t start = Inr evts" "dbKv_scan L t' start = Inr (evts @ new)" "\<forall>e \<in> set new. late n e" by blast
  have "filter (\<lambda>e. \<not> late rv e) new = []" using s(3) rv(1) by (auto simp: filter_empty_conv late_def intro: order_le_less_trans)
  then show ?thesis using d s(1,2) later by (simp add: delivered_def del: filter_filter)
qed

end

section \<open>The states of a watch\<close>

text \<open>\<open>t0\<close> is the state of the store when the watch starts. The revisions do not reach the end of their 52 bits.\<close>

inductive wreach :: "'x sm_env_scheme \<Rightarrow> 't lmdb \<Rightarrow> ('t \<Rightarrow> dbi \<Rightarrow> entry list) \<Rightarrow> (bytes list \<Rightarrow> bytes \<times> bytes \<Rightarrow> bool)
    \<Rightarrow> WatchCreateRequest \<Rightarrow> 't \<Rightarrow> 't wsys \<Rightarrow> bool"
  for env L view findAny req t0 where
  w_start: "sm_reach env L view t0 \<Longrightarrow> getRevision L t0 = Inr n \<Longrightarrow> unat n + 1 < 2 ^ 52 \<Longrightarrow>
    wsys_watch env L req \<lparr>ws_t = t0, ws_pending = None, ws_phase = W_Start, ws_alerts = [], ws_out = []\<rparr> = Some s \<Longrightarrow>
    wreach env L view findAny req t0 s"
| w_commit: "wreach env L view findAny req t0 s \<Longrightarrow> ws_pending s = None \<Longrightarrow> batch_ok env L view (ws_t s) entries \<Longrightarrow>
    list_all (\<lambda>ent. \<not> compacts ent) entries \<Longrightarrow> sm_Update env L (ws_t s) entries = Inr res \<Longrightarrow> unat (ur_newRev res) + 1 < 2 ^ 52 \<Longrightarrow>
    wreach env L view findAny req t0 (wsys_commit res s)"
| w_alert: "wreach env L view findAny req t0 s \<Longrightarrow> wsys_alert findAny req s = Some s' \<Longrightarrow> wreach env L view findAny req t0 s'"
| w_watch: "wreach env L view findAny req t0 s \<Longrightarrow> wsys_watch env L req s = Some s' \<Longrightarrow> wreach env L view findAny req t0 s'"
| w_cancel: "wreach env L view findAny req t0 s \<Longrightarrow> wsys_cancel s = Some s' \<Longrightarrow> wreach env L view findAny req t0 s'"

text \<open>The keys of a watch, and what it relies on of \<open>FindAny\<close>: it finds a watch when one of the keys is the watch's.\<close>

definition in_watch :: "WatchCreateRequest \<Rightarrow> bytes \<Rightarrow> bool" where
  "in_watch req k \<longleftrightarrow> k = WatchCreateRequest_Key req \<or>
     WatchCreateRequest_RangeEnd req \<noteq> [] \<and> WatchCreateRequest_Key req \<le> k \<and> k < WatchCreateRequest_RangeEnd req"

definition find_ok :: "(bytes list \<Rightarrow> bytes \<times> bytes \<Rightarrow> bool) \<Rightarrow> WatchCreateRequest \<Rightarrow> bool" where
  "find_ok findAny req \<longleftrightarrow> (\<forall>keys. (\<exists>k \<in> set keys. in_watch req k) \<longrightarrow> findAny keys (WatchCreateRequest_Key req, WatchCreateRequest_RangeEnd req))"

lemma selects_in_watch: "watch_selects req e \<Longrightarrow> in_watch req (evt_key e)"
  by (auto simp: watch_selects_def in_watch_def)

text \<open>Every selected event that is not delivered is announced: its update is about to send the alert, or an alert for
  it waits.\<close>

definition alerted :: "'t lmdb \<Rightarrow> WatchCreateRequest \<Rightarrow> 't wsys \<Rightarrow> u64 \<Rightarrow> bool" where
  "alerted L req s rv \<longleftrightarrow> (\<forall>evts. dbKv_scan L (ws_t s) (rv + 1) = Inr evts \<longrightarrow> (\<forall>e \<in> set evts. watch_selects req e \<longrightarrow>
     (\<exists>keys nr. ws_pending s = Some (keys, nr) \<and> evt_key e \<in> set keys) \<or>
     ws_alerts s \<noteq> [] \<and> upper (evt_rev e) \<le> last (ws_alerts s)))"

definition phase_rev :: "wphase \<Rightarrow> u64 option" where
  "phase_rev p = (case p of W_Scanned rv \<Rightarrow> Some rv | W_Registered rv \<Rightarrow> Some rv | W_Sync rv \<Rightarrow> Some rv | _ \<Rightarrow> None)"

lemma phase_rev_simps [simp]:
  "phase_rev W_Start = None" "phase_rev W_Failed = None" "phase_rev W_Done = None" "phase_rev (W_Scanned rv) = Some rv" "phase_rev (W_Registered rv) = Some rv"
  "phase_rev (W_Sync rv) = Some rv"
  by (simp_all add: phase_rev_def)

definition winv :: "'x sm_env_scheme \<Rightarrow> 't lmdb \<Rightarrow> ('t \<Rightarrow> dbi \<Rightarrow> entry list) \<Rightarrow> bool \<Rightarrow> WatchCreateRequest \<Rightarrow> 't \<Rightarrow> u64 \<Rightarrow> 't wsys \<Rightarrow> bool" where
  "winv env L view fo req t0 rv0 s \<longleftrightarrow> sm_reach env L view (ws_t s) \<and> upd_run env L view t0 (ws_t s) \<and> ws_phase s \<noteq> W_Start \<and>
     (\<exists>n. getRevision L (ws_t s) = Inr n \<and> unat n + 1 < 2 ^ 52 \<and> rv0 \<le> n \<and>
       (\<forall>keys nr. ws_pending s = Some (keys, nr) \<longrightarrow> nr = n) \<and>
       (\<forall>rv. phase_rev (ws_phase s) = Some rv \<longrightarrow> rv0 \<le> rv \<and> rv \<le> n \<and>
          delivered env L view req t0 (ws_t s) (watch_from (WatchCreateRequest_StartRevision req) rv0) rv (ws_out s)) \<and>
       (\<forall>rv. fo \<and> ws_phase s = W_Sync rv \<longrightarrow> alerted L req s rv))"

lemma watch_from_le:
  assumes "unat n + 1 < 2 ^ 52" "rv0 \<le> n" "unat since < 2 ^ 52" "rv0 \<le> rv" "rv \<le> n"
  shows "watch_from since rv0 \<le> rv + 1" "unat (watch_from since rv0) < 2 ^ 52"
  using assms by (auto simp: watch_from_def word_le_nat_alt word_less_nat_alt unat_plus_if')

context lmdb
begin

lemma winv_start:
  assumes env: "sm_env_ok env" and t: "sm_reach env L view t0" "getRevision L t0 = Inr n" and room: "unat n + 1 < 2 ^ 52"
    and since: "unat (WatchCreateRequest_StartRevision req) < 2 ^ 52"
    and w: "wsys_watch env L req \<lparr>ws_t = t0, ws_pending = None, ws_phase = W_Start, ws_alerts = [], ws_out = []\<rparr> = Some s"
  shows "winv env L view fo req t0 n s"
proof (cases "watch_start env L t0 req")
  case (Inl out)
  then have "s = \<lparr>ws_t = t0, ws_pending = None, ws_phase = W_Done, ws_alerts = [], ws_out = out\<rparr>"
    using w by (simp add: wsys_watch_def watch_next_def)
  then show ?thesis using t room upd_refl [of env L view t0] by (simp add: winv_def)
next
  case (Inr r)
  then obtain rv out where r: "watch_start env L t0 req = Inr (rv, out)" by (cases r) auto
  then have "s = \<lparr>ws_t = t0, ws_pending = None, ws_phase = W_Scanned rv, ws_alerts = [], ws_out = out\<rparr>"
    using w by (simp add: wsys_watch_def watch_next_def)
  then show ?thesis using t room delivered_start [OF env t room since r] upd_refl [of env L view t0] by (simp add: winv_def)
qed

lemma winv_commit:
  assumes env: "sm_env_ok env" and inv: "winv env L view fo req t0 rv0 s" and p: "ws_pending s = None"
    and b: "batch_ok env L view (ws_t s) entries" "list_all (\<lambda>ent. \<not> compacts ent) entries" "sm_Update env L (ws_t s) entries = Inr res"
    and room: "unat (ur_newRev res) + 1 < 2 ^ 52" and since: "unat (WatchCreateRequest_StartRevision req) < 2 ^ 52"
  shows "winv env L view fo req t0 rv0 (wsys_commit res s)"
proof -
  let ?t = "ws_t s" and ?t' = "ur_txn res" and ?from = "watch_from (WatchCreateRequest_StartRevision req) rv0"
  from inv obtain n where n: "sm_reach env L view ?t" "getRevision L ?t = Inr n" "unat n + 1 < 2 ^ 52" "rv0 \<le> n"
    "\<And>rv. phase_rev (ws_phase s) = Some rv \<Longrightarrow> rv0 \<le> rv \<and> rv \<le> n \<and> delivered env L view req t0 ?t ?from rv (ws_out s)"
    "\<And>rv. fo \<Longrightarrow> ws_phase s = W_Sync rv \<Longrightarrow> alerted L req s rv" by (auto simp: winv_def)
  have ok: "sm_ok env view ?t" by (rule reach_ok [OF n(1) env])
  from update_batch [OF env ok b(1)] b(2,3) n(2) have u: "n \<le> ur_newRev res" "getRevision L ?t' = Inr (ur_newRev res)"
    "log_grows view ?t ?t' n (set (ur_keys res))" by auto
  have r': "sm_reach env L view ?t'" by (rule sm_update [OF n(1) b(1,3)])
  have ru: "upd_run env L view t0 ?t'" by (rule upd_step [OF _ b]) (use inv in \<open>simp add: winv_def\<close>)
  have del: "delivered env L view req t0 ?t' ?from rv (ws_out s)" if "phase_rev (ws_phase s) = Some rv" for rv
    using n(5) [OF that] watch_from_le(2) [OF n(3,4) since, of rv] delivered_commit [OF ok n(2) _ _ u(3) watch_sent_later [OF b]] by blast
  have al: "alerted L req (wsys_commit res s) rv" if ph: fo "ws_phase s = W_Sync rv" for rv
  proof -
    have rv: "rv \<le> n" using n(5) ph(2) by simp
    then have r1: "unat (rv + 1) < 2 ^ 52" using n(3) by (simp add: word_le_nat_alt unat_plus_if')
    from sm_ok_log [OF ok n(2)] obtain E where E: "ev_rel view ?t E" "\<forall>x \<in> E. upper (fst x) \<le> n \<and> snd (snd x) \<noteq> []" .
    then have "\<forall>x \<in> E. upper (fst x) \<le> n" by blast
    from log_append [OF E(1) this u(3) r1] obtain evts new where
      "dbKv_scan L ?t (rv + 1) = Inr evts" "dbKv_scan L ?t' (rv + 1) = Inr (evts @ new)" "\<forall>e \<in> set new. evt_key e \<in> set (ur_keys res)" by blast
    then show ?thesis using n(6) [OF ph] p by (auto simp: alerted_def wsys_commit_def)
  qed
  show ?thesis unfolding winv_def
  proof (intro conjI exI [of _ "ur_newRev res"] allI impI)
    fix rv assume "phase_rev (ws_phase (wsys_commit res s)) = Some rv"
    then have "phase_rev (ws_phase s) = Some rv" by (simp add: wsys_commit_def)
    with n(5) [OF this] del [OF this] u(1) show "rv0 \<le> rv" "rv \<le> ur_newRev res"
      "delivered env L view req t0 (ws_t (wsys_commit res s)) ?from rv (ws_out (wsys_commit res s))" by (auto simp: wsys_commit_def)
  qed (use r' ru u n(4) room al inv in \<open>auto simp: wsys_commit_def winv_def\<close>)
qed

lemma winv_alert:
  assumes inv: "winv env L view fo req t0 rv0 s" and fo: "fo \<longrightarrow> find_ok findAny req" and w: "wsys_alert findAny req s = Some s'"
    and env: "sm_env_ok env"
  shows "winv env L view fo req t0 rv0 s'"
proof -
  from w obtain keys nr where p: "ws_pending s = Some (keys, nr)"
    and s': "s' = s\<lparr>ws_pending := None, ws_alerts := update_alert findAny req (ws_phase s) keys nr (ws_alerts s)\<rparr>"
    by (auto simp: wsys_alert_def Let_def split: option.splits if_splits)
  from inv p obtain n where n: "getRevision L (ws_t s) = Inr n" "nr = n" "sm_reach env L view (ws_t s)" by (auto simp: winv_def)
  have ok: "sm_ok env view (ws_t s)" by (rule reach_ok [OF n(3) env])
  have al: "alerted L req s' rv" if ph: fo "ws_phase s = W_Sync rv" for rv
  proof -
    have a: "alerted L req s rv" using inv ph by (auto simp: winv_def)
    have late: "upper (evt_rev e) \<le> nr" if "dbKv_scan L (ws_t s) (rv + 1) = Inr evts" "e \<in> set evts" for evts e
      using scan_bounds [OF ok n(1), of "rv + 1"] that n(2) by (auto simp: late_def)
    have found: "findAny keys (WatchCreateRequest_Key req, WatchCreateRequest_RangeEnd req)" if "watch_selects req e" "evt_key e \<in> set keys" for e
      using fo ph(1) selects_in_watch [OF that(1)] that(2) by (auto simp: find_ok_def)
    show ?thesis
    proof (cases "findAny keys (WatchCreateRequest_Key req, WatchCreateRequest_RangeEnd req)")
      case True
      then show ?thesis using s' ph(2) late by (auto simp: alerted_def update_alert_def in_tree_def)
    next
      case False
      then have "evt_key e \<notin> set keys" if "watch_selects req e" for e using found that by blast
      then show ?thesis using a p s' False unfolding alerted_def update_alert_def by auto
    qed
  qed
  then show ?thesis using inv unfolding winv_def s' by auto
qed

lemma winv_sync:
  assumes env: "sm_env_ok env" and inv: "winv env L view fo req t0 rv0 s" and since: "unat (WatchCreateRequest_StartRevision req) < 2 ^ 52"
    and n: "getRevision L (ws_t s) = Inr n" and ph: "phase_rev (ws_phase s) = Some rv"
  shows "\<exists>sent out. watch_scan env L (ws_t s) req (rv + 1) = \<lparr>scan_rev = n, scan_sent = sent, scan_out = out, scan_err = None\<rparr> \<and>
    (\<forall>out'. event_msgs out' = [] \<longrightarrow> winv env L view fo req t0 rv0 (s\<lparr>ws_phase := W_Sync n, ws_alerts := al, ws_out := ws_out s @ out @ out'\<rparr>))"
proof -
  let ?from = "watch_from (WatchCreateRequest_StartRevision req) rv0"
  from inv n ph have i: "sm_reach env L view (ws_t s)" "upd_run env L view t0 (ws_t s)" "unat n + 1 < 2 ^ 52" "rv0 \<le> n" "rv0 \<le> rv" "rv \<le> n"
    "delivered env L view req t0 (ws_t s) ?from rv (ws_out s)" by (auto simp: winv_def)
  have ok: "sm_ok env view (ws_t s)" by (rule reach_ok [OF i(1) env])
  note f = watch_from_le [OF i(3,4) since i(5,6)]
  from delivered_scan [OF env i(1) n i(2,3,6) f i(7)] obtain sent out where
    o: "watch_scan env L (ws_t s) req (rv + 1) = \<lparr>scan_rev = n, scan_sent = sent, scan_out = out, scan_err = None\<rparr>"
      "delivered env L view req t0 (ws_t s) ?from n (ws_out s @ out)" by blast
  have n1: "n < n + 1" "unat (n + 1) < 2 ^ 52" using i(3) by (simp_all add: unat_plus_if' word_less_nat_alt)
  have "dbKv_scan L (ws_t s) (n + 1) = Inr []" by (rule scan_past [OF ok n n1])
  then show ?thesis using o inv n i(3,4) by (auto simp: winv_def alerted_def delivered_def)
qed

lemma winv_skip:
  assumes env: "sm_env_ok env" and inv: "winv env L view fo req t0 rv0 s" and ph: "ws_phase s = W_Sync rv" and le: "last (ws_alerts s) \<le> rv"
  shows "winv env L view fo req t0 rv0 (s\<lparr>ws_alerts := []\<rparr>)"
proof -
  from inv ph obtain n where n: "getRevision L (ws_t s) = Inr n" "sm_reach env L view (ws_t s)" "unat n + 1 < 2 ^ 52" "rv \<le> n" by (auto simp: winv_def)
  have ok: "sm_ok env view (ws_t s)" by (rule reach_ok [OF n(2) env])
  have r1: "unat (rv + 1) < 2 ^ 52" "rv < rv + 1" using n(3,4) by (simp_all add: word_le_nat_alt word_less_nat_alt unat_plus_if')
  have "\<not> upper (evt_rev e) \<le> last (ws_alerts s)" if "dbKv_scan L (ws_t s) (rv + 1) = Inr evts" "e \<in> set evts" for evts e
  proof -
    have "rv + 1 \<le> upper (evt_rev e)" using scan_bounds [OF ok n(1), of "rv + 1"] that r1 by auto
    then show ?thesis using le r1(2) by (meson leD order_less_le_trans order_trans)
  qed
  then show ?thesis using inv ph unfolding winv_def alerted_def by auto
qed

lemma winv_watch:
  assumes env: "sm_env_ok env" and inv: "winv env L view fo req t0 rv0 s" and since: "unat (WatchCreateRequest_StartRevision req) < 2 ^ 52"
    and w: "wsys_watch env L req s = Some s'"
  shows "winv env L view fo req t0 rv0 s' \<and> (\<exists>rv. phase_rev (ws_phase s') = Some rv)"
proof -
  from inv obtain n where n: "getRevision L (ws_t s) = Inr n" by (auto simp: winv_def)
  note sync = winv_sync [OF env inv since n]
  show ?thesis
  proof (cases "ws_phase s")
    case (W_Scanned rv)
    then have "s' = s\<lparr>ws_phase := W_Registered rv, ws_alerts := []\<rparr>" using w by (simp add: wsys_watch_def watch_next_def)
    then show ?thesis using inv W_Scanned by (auto simp: winv_def)
  next
    case (W_Registered rv)
    then have "phase_rev (ws_phase s) = Some rv" by simp
    from sync [OF this, of "ws_alerts s"] obtain sent out where
      o: "watch_scan env L (ws_t s) req (rv + 1) = \<lparr>scan_rev = n, scan_sent = sent, scan_out = out, scan_err = None\<rparr>"
        "\<forall>out'. event_msgs out' = [] \<longrightarrow> winv env L view fo req t0 rv0 (s\<lparr>ws_phase := W_Sync n, ws_alerts := ws_alerts s, ws_out := ws_out s @ out @ out'\<rparr>)" by blast
    have "s' = s\<lparr>ws_phase := W_Sync n, ws_alerts := ws_alerts s, ws_out := ws_out s @ out @ []\<rparr>"
      using w W_Registered o(1) by (simp add: wsys_watch_def watch_next_def)
    then show ?thesis using o(2) [rule_format, of "[]"] by (simp add: event_msgs_def)
  next
    case (W_Sync rv)
    show ?thesis
    proof (cases "last (ws_alerts s) \<le> rv")
      case True
      then have "s' = s\<lparr>ws_alerts := []\<rparr>"
        using w W_Sync by (auto simp: wsys_watch_def watch_next_def watch_alert_def split: if_splits)
      then show ?thesis using winv_skip [OF env inv W_Sync True] W_Sync by simp
    next
      case False
      have "phase_rev (ws_phase s) = Some rv" using W_Sync by simp
      from sync [OF this, of "[]"] obtain sent out where
        o: "watch_scan env L (ws_t s) req (rv + 1) = \<lparr>scan_rev = n, scan_sent = sent, scan_out = out, scan_err = None\<rparr>"
          "\<forall>out'. event_msgs out' = [] \<longrightarrow> winv env L view fo req t0 rv0 (s\<lparr>ws_phase := W_Sync n, ws_alerts := [], ws_out := ws_out s @ out @ out'\<rparr>)" by blast
      from watch_header_ok [OF env, of req WatchMessageType_NOTIFY n] obtain data where
        h: "watch_header env req WatchMessageType_NOTIFY n = Inr \<lparr>Res_Value = WatchCreateRequest_WatchId req, Res_Data = WatchMessageType_NOTIFY # data\<rparr>" ..
      let ?m = "[\<lparr>Res_Value = WatchCreateRequest_WatchId req, Res_Data = WatchMessageType_NOTIFY # data\<rparr>]"
      have "event_msgs ?m = []" by (simp add: event_msgs_def WatchMessageType_NOTIFY_def WatchMessageType_EVENT_def)
      moreover have "event_msgs [] = []" by (simp add: event_msgs_def)
      moreover have "s' = s\<lparr>ws_phase := W_Sync n, ws_alerts := [], ws_out := ws_out s @ out @ (if sent = 0 \<and> WatchCreateRequest_ProgressNotify req then ?m else [])\<rparr>"
        using w W_Sync False o(1) h by (auto simp: wsys_watch_def watch_next_def watch_alert_def Let_def split: if_splits)
      ultimately show ?thesis using o(2) by auto
    qed
  next
    case W_Start
    then show ?thesis using inv by (simp add: winv_def)
  next
    case W_Failed
    then show ?thesis using w by (simp add: wsys_watch_def watch_next_def)
  next
    case W_Done
    then show ?thesis using w by (simp add: wsys_watch_def watch_next_def)
  qed
qed

lemma wreach_inv:
  assumes "wreach env L view findAny req t0 s" "sm_env_ok env" "getRevision L t0 = Inr rv0"
    "unat (WatchCreateRequest_StartRevision req) < 2 ^ 52" "fo \<longrightarrow> find_ok findAny req"
  shows "winv env L view fo req t0 rv0 s"
  using assms
proof (induction rule: wreach.induct)
  case (w_start n s)
  then show ?case using winv_start [of env t0 n req s fo] by simp
next
  case (w_commit s entries res)
  then show ?case using winv_commit [of env fo req t0 rv0 s entries res] by blast
next
  case (w_alert s s')
  then show ?case using winv_alert [of env fo req t0 rv0 s findAny s'] by blast
next
  case (w_watch s s')
  then show ?case using winv_watch [of env fo req t0 rv0 s s'] by blast
next
  case (w_cancel s s')
  then show ?case by (auto simp: winv_def wsys_cancel_def split: wphase.splits)
qed

lemma winv_complete:
  assumes env: "sm_env_ok env" and inv: "winv env L view True req t0 rv0 s" and since: "unat (WatchCreateRequest_StartRevision req) < 2 ^ 52"
    and ph: "ws_phase s = W_Sync rv" and idle: "ws_pending s = None" "ws_alerts s = []"
  shows "\<exists>evts. dbKv_scan L (ws_t s) (watch_from (WatchCreateRequest_StartRevision req) rv0) = Inr evts \<and>
    list_all2 (watch_sent env L view req t0 (ws_t s)) (event_msgs (ws_out s)) (filter (watch_selects req) evts)"
proof -
  let ?from = "watch_from (WatchCreateRequest_StartRevision req) rv0"
  from inv ph obtain n where n: "sm_reach env L view (ws_t s)" "getRevision L (ws_t s) = Inr n" "unat n + 1 < 2 ^ 52" "rv0 \<le> n"
    "rv0 \<le> rv" "rv \<le> n" "delivered env L view req t0 (ws_t s) ?from rv (ws_out s)" "alerted L req s rv" by (auto simp: winv_def)
  have ok: "sm_ok env view (ws_t s)" by (rule reach_ok [OF n(1) env])
  note f = watch_from_le [OF n(3,4) since n(5,6)]
  from n(7) obtain evts where e: "dbKv_scan L (ws_t s) ?from = Inr evts"
    "list_all2 (watch_sent env L view req t0 (ws_t s)) (event_msgs (ws_out s)) (filter (watch_selects req) (filter (\<lambda>e. \<not> late rv e) evts))"
    by (auto simp: delivered_def simp del: filter_filter)
  from sm_ok_log [OF ok n(2)] obtain E where E: "ev_rel view (ws_t s) E" by blast
  have r1: "unat rv + 1 < 2 ^ 52" using n(3,6) by (simp add: word_le_nat_alt)
  have "dbKv_scan L (ws_t s) (rv + 1) = Inr (filter (late rv) evts)" by (rule scan_from [OF E f(2) r1 f(1) e(1)])
  then have "\<not> (late rv e \<and> watch_selects req e)" if "e \<in> set evts" for e using n(8) idle that by (auto simp: alerted_def)
  then have "filter (watch_selects req) (filter (\<lambda>e. \<not> late rv e) evts) = filter (watch_selects req) evts"
    by (auto intro!: filter_cong)
  then show ?thesis using e by metis
qed

text \<open>A watch gets to its loop, and after an update and its alert one step takes it to the revision of the update.\<close>

lemma watch_runs:
  assumes env: "sm_env_ok env" and t: "sm_reach env L view t0" "getRevision L t0 = Inr n" and room: "unat n + 1 < 2 ^ 52"
    and req: "WatchCreateRequest_StartRevision req = 0"
  shows "\<exists>s. wreach env L view findAny req t0 s \<and> ws_t s = t0 \<and> ws_phase s = W_Sync n \<and> ws_pending s = None \<and> ws_alerts s = []"
proof -
  let ?i = "\<lparr>ws_t = t0, ws_pending = None, ws_phase = W_Start, ws_alerts = [], ws_out = []\<rparr> :: 't wsys"
  obtain m where m: "getRevisionMin L t0 = Inr m" using counter_get(6) reach_ok [OF t(1) env] by (auto simp: sm_ok_def)
  from watch_header_ok [OF env, of req WatchMessageType_INIT 0] obtain data where
    h: "watch_header env req WatchMessageType_INIT 0 = Inr \<lparr>Res_Value = WatchCreateRequest_WatchId req, Res_Data = WatchMessageType_INIT # data\<rparr>" ..
  have "watch_scan env L t0 req 0 = \<lparr>scan_rev = n, scan_sent = 0, scan_out = [], scan_err = None\<rparr>" using t(2) by (simp add: watch_scan_def)
  then have "\<exists>out. watch_start env L t0 req = Inr (n, out)" using req m h by (auto simp: watch_start_def Let_def)
  then obtain out where "wsys_watch env L req ?i = Some (?i\<lparr>ws_phase := W_Scanned n, ws_out := out\<rparr>)"
    by (auto simp: wsys_watch_def watch_next_def)
  then have r1: "wreach env L view findAny req t0 (?i\<lparr>ws_phase := W_Scanned n, ws_out := out\<rparr>)" by (rule w_start [OF t room])
  have "wsys_watch env L req (?i\<lparr>ws_phase := W_Scanned n, ws_out := out\<rparr>) = Some (?i\<lparr>ws_phase := W_Registered n, ws_out := out\<rparr>)"
    by (simp add: wsys_watch_def watch_next_def)
  from w_watch [OF r1 this] have r2: "wreach env L view findAny req t0 (?i\<lparr>ws_phase := W_Registered n, ws_out := out\<rparr>)" .
  have "unat (WatchCreateRequest_StartRevision req) < 2 ^ 52" using req by simp
  from winv_sync [OF env wreach_inv [OF r2 env t(2) this, of False] this, of n n "[]"] t(2) obtain sent out' where
    "watch_scan env L t0 req (n + 1) = \<lparr>scan_rev = n, scan_sent = sent, scan_out = out', scan_err = None\<rparr>" by auto
  then have "wsys_watch env L req (?i\<lparr>ws_phase := W_Registered n, ws_out := out\<rparr>) = Some (?i\<lparr>ws_phase := W_Sync n, ws_out := out @ out'\<rparr>)"
    by (simp add: wsys_watch_def watch_next_def)
  from w_watch [OF r2 this] show ?thesis by auto
qed

lemma watch_follows:
  assumes env: "sm_env_ok env" and s: "wreach env L view findAny req t0 s" "ws_phase s = W_Sync n" "ws_pending s = None" "ws_alerts s = []"
    and rv: "getRevision L t0 = Inr rv0" "unat (WatchCreateRequest_StartRevision req) < 2 ^ 52"
    and u: "batch_ok env L view (ws_t s) entries" "list_all (\<lambda>ent. \<not> compacts ent) entries" "sm_Update env L (ws_t s) entries = Inr res"
      "unat (ur_newRev res) + 1 < 2 ^ 52" and f: "findAny (ur_keys res) (WatchCreateRequest_Key req, WatchCreateRequest_RangeEnd req)"
  shows "\<exists>s'. wreach env L view findAny req t0 s' \<and> ws_t s' = ur_txn res \<and> ws_phase s' = W_Sync (ur_newRev res) \<and> ws_pending s' = None \<and> ws_alerts s' = []"
proof -
  have c: "wreach env L view findAny req t0 (wsys_commit res s)" by (rule w_commit [OF s(1,3) u])
  define s1 where "s1 = (wsys_commit res s)\<lparr>ws_pending := None, ws_alerts := [ur_newRev res]\<rparr>"
  have "wsys_alert findAny req (wsys_commit res s) = Some s1"
    using s f by (simp add: s1_def wsys_alert_def wsys_commit_def watch_capacity_def update_alert_def in_tree_def)
  from w_alert [OF c this] have r1: "wreach env L view findAny req t0 s1" .
  note inv = wreach_inv [OF r1 env rv, of False, simplified]
  have p1: "ws_t s1 = ur_txn res" "ws_phase s1 = W_Sync n" "ws_pending s1 = None" "ws_alerts s1 = [ur_newRev res]"
    using s(2) by (simp_all add: s1_def wsys_commit_def)
  have ok: "sm_ok env view (ws_t s)" using wreach_inv [OF s(1) env rv, of False] reach_ok env by (auto simp: winv_def)
  have g: "getRevision L (ws_t s1) = Inr (ur_newRev res)" using update_batch [OF env ok u(1)] u(3) p1(1) by auto
  then have le: "n \<le> ur_newRev res" using inv p1(2) by (auto simp: winv_def)
  show ?thesis
  proof (cases "ur_newRev res \<le> n")
    case True
    then have "wsys_watch env L req s1 = Some (s1\<lparr>ws_alerts := []\<rparr>)"
      using p1 by (simp add: wsys_watch_def watch_next_def watch_alert_def)
    from w_watch [OF r1 this] p1 True le show ?thesis by auto
  next
    case False
    from winv_sync [OF env inv rv(2) g, of n "[]"] p1(2) obtain sent out where
      o: "watch_scan env L (ws_t s1) req (n + 1) = \<lparr>scan_rev = ur_newRev res, scan_sent = sent, scan_out = out, scan_err = None\<rparr>" by auto
    from watch_header_ok [OF env, of req WatchMessageType_NOTIFY "ur_newRev res"] obtain data where
      "watch_header env req WatchMessageType_NOTIFY (ur_newRev res) = Inr \<lparr>Res_Value = WatchCreateRequest_WatchId req, Res_Data = WatchMessageType_NOTIFY # data\<rparr>" ..
    then have "\<exists>out'. watch_alert env L (ws_t s1) req n (ur_newRev res) = Inr (ur_newRev res, out')"
      using o False by (auto simp: watch_alert_def Let_def)
    then obtain out' where "wsys_watch env L req s1 = Some (s1\<lparr>ws_phase := W_Sync (ur_newRev res), ws_alerts := [], ws_out := ws_out s1 @ out'\<rparr>)"
      using p1 by (auto simp: wsys_watch_def watch_next_def)
    from w_watch [OF r1 this] p1 show ?thesis by auto
  qed
qed

end

section \<open>A concrete run\<close>

text \<open>A watch of one key on the in-memory environment: it starts, a put is applied, and it reads it.\<close>

definition wit_watch :: WatchCreateRequest where
  "wit_watch = \<lparr>WatchCreateRequest_Key = [97, 98], WatchCreateRequest_RangeEnd = [], WatchCreateRequest_StartRevision = 0,
     WatchCreateRequest_ProgressNotify = False, WatchCreateRequest_Filters = [], WatchCreateRequest_PrevKv = False,
     WatchCreateRequest_WatchId = 7, WatchCreateRequest_Fragment = False\<rparr>"

lemma wit_put_rev:
  assumes "sm_Update wit_env mem_lmdb t [wit_entry CMD_KV_PUT 7] = Inr res" "getRevision mem_lmdb t = Inr 1"
  shows "ur_newRev res \<in> {1, 2}"
  using assms
  by (auto simp: sm_Update_def update_entry_def update_Put_def wit_entry_def wit_put_def bumpRev_def Let_def elim!: bindE_InrE split: sum.splits if_splits)

text \<open>The log after the put: its one event, at revision 2.\<close>

lemma wit_put_event:
  assumes "sm_Open mem_lmdb mem_empty = Inr (t, 0)" "sm_Update wit_env mem_lmdb t [wit_entry CMD_KV_PUT 7] = Inr res"
  shows "ur_newRev res = 2 \<and> ev_rel mem_view (ur_txn res) {(newkeyrev 2 0 False, 0, [97, 98])}"
proof -
  from mem.open_empty [of mem_empty wit_env] assms(1) have
    t: "counter mem_view t metaKeyRevision = Inr 1" "counter mem_view t metaKeyEpoch = Inr 0" "\<forall>d. d \<noteq> DBI_meta \<longrightarrow> mem_view t d = []" by auto
  have rel: "kv_rel wit_env mem_view t (\<lambda>_. [])" using t(3) by (simp add: kv_rel_def hist_ok_def)
  have p: "env_ok wit_env" "2 \<le> length [97, 98 :: byte]" "length [97, 98 :: byte] \<le> PCB_LIMIT_KEY_LENGTH" "rev_fits 2 0" "(2 :: u64) \<noteq> 0"
    "fresh (newkeyrev 2 0 False) (\<lambda>_. [])" "put_ok wit_env 2 []" "length (sl (Some [1 :: byte])) < 2 ^ 62"
    using wit_env_ok by (simp_all add: sm_env_ok_def PCB_LIMIT_KEY_LENGTH_def rev_fits_def fresh_def put_ok_def)
  from mem.put_spec [OF p(1) rel p(2-8), of False 0 0 False] obtain t1 prev nx pt where
    q: "dbKv_put wit_env mem_lmdb t 2 0 0 0 [97, 98] (Some [1]) False False = Inr (t1, prev, nx, pt)" "plain prev = spec_at 0 []"
      "set (mem_view t1 DBI_event) = {(be64 (newkeyrev 2 0 False), event_bytes (newkeyrev 2 0 False) 0 [97, 98])}" using t(3) by auto
  have "kv_lease prev = 0" using arg_cong [OF q(2), of kv_lease] by (simp add: plain_def spec_at_def visible_def kv_zero_def)
  then have c: "cmdPut wit_env mem_lmdb t 2 0 0 wit_put = Inr (t1, \<lparr>PutResponse_Header = None, PutResponse_PrevKv = None\<rparr>, 1, [[97, 98]])"
    using q(1) by (simp add: cmdPut_def cmdPut_lease_def wit_put_def)
  have g: "getEpoch mem_lmdb t = Inr 0" "getRevision mem_lmdb t = Inr 1" using t(1,2) by (simp_all add: getEpoch_def getRevision_def mem.getUint64_counter)
  have "PutRequest_Lease wit_put = 0" "\<not> PutRequest_IgnoreValue wit_put" "\<not> PutRequest_IgnoreLease wit_put"
    by (simp_all add: wit_put_def)
  then have "update_entries wit_env mem_lmdb \<lparr>u_txn = t, u_epoch = 0, u_newRev = 1, u_keys = []\<rparr> [wit_entry CMD_KV_PUT 7] =
      Inr (\<lparr>u_txn = t1, u_epoch = 0, u_newRev = 2, u_keys = [[97, 98]]\<rparr>, [(wit_entry CMD_KV_PUT 7)\<lparr>Result_Data := [], Result_Value := 1\<rparr>])"
    using c by (simp add: update_entry_def update_Put_def wit_entry_def bumpRev_def Let_def)
  with assms(2) g obtain t2 where u: "setIndex mem_lmdb t1 7 = Inr t2" "setRevision mem_lmdb t2 2 = Inr (ur_txn res)" "ur_newRev res = 2"
    by (auto simp: sm_Update_def wit_entry_def elim!: bindE_InrE)
  have "mem_view (ur_txn res) DBI_event = mem_view t1 DBI_event"
    using u(1,2) mem.putUint64_other [of t1 DBI_meta metaKeyIndex 7 t2 DBI_event] mem.putUint64_other [of t2 DBI_meta metaKeyRevision 2 "ur_txn res" DBI_event]
    by (simp add: setIndex_def setRevision_def)
  then show ?thesis using q(3) u(3) by (simp add: ev_rel_def evt_entry_def)
qed

lemma wit_put_scan:
  assumes "sm_Open mem_lmdb mem_empty = Inr (t, 0)" "sm_Update wit_env mem_lmdb t [wit_entry CMD_KV_PUT 7] = Inr res"
  shows "dbKv_scan mem_lmdb (ur_txn res) 2 = Inr [evt_of (newkeyrev 2 0 False, 0, [97, 98])]"
    and "watch_selects wit_watch (evt_of (newkeyrev 2 0 False, 0, [97, 98]))" and "upper (evt_rev (evt_of (newkeyrev 2 0 False, 0, [97, 98]))) = 2"
proof -
  let ?x = "(newkeyrev 2 0 False, 0 :: u64, [97, 98 :: byte])"
  have u: "upper (newkeyrev 2 0 False) = 2" by (rule upper_newkeyrev) (simp add: rev_fits_def)
  have "push_bit 12 2 \<le> newkeyrev 2 0 False" using push_bit_le_upper [of 2 "newkeyrev 2 0 False"] u by simp
  then have "{x \<in> {?x}. push_bit 12 2 \<le> fst x} = {?x}" by auto
  with mem.scan_spec [OF conjunct2 [OF wit_put_event [OF assms]], of 2] obtain evts where
    e: "dbKv_scan mem_lmdb (ur_txn res) 2 = Inr evts" "set evts = {evt_of ?x}" "distinct evts" by auto
  have "evts = [evt_of ?x]" using e(2,3) by (cases evts; cases "tl evts") auto
  then show "dbKv_scan mem_lmdb (ur_txn res) 2 = Inr [evt_of ?x]" using e(1) by simp
  show "watch_selects wit_watch (evt_of ?x)" by (simp add: watch_selects_def wit_watch_def evt_of_def)
  show "upper (evt_rev (evt_of ?x)) = 2" using u by (simp add: evt_of_def)
qed

lemma wit_watch_run:
  "\<exists>t res s rv. sm_Open mem_lmdb mem_empty = Inr (t, 0) \<and> getRevision mem_lmdb t = Inr 1 \<and>
     sm_Update wit_env mem_lmdb t [wit_entry CMD_KV_PUT 7] = Inr res \<and> wreach wit_env mem_lmdb mem_view (\<lambda>_ _. True) wit_watch t s \<and>
     ws_t s = ur_txn res \<and> ws_phase s = W_Sync rv \<and> rv = 2 \<and> ws_pending s = None \<and> ws_alerts s = []"
proof -
  from mem.open_empty [of mem_empty wit_env] obtain t where t: "sm_Open mem_lmdb mem_empty = Inr (t, 0)" by auto
  note w = wit_batch [OF t]
  from mem.watch_runs [OF wit_env_ok, of t 1 wit_watch "\<lambda>_ _. True"] w obtain s where
    s: "wreach wit_env mem_lmdb mem_view (\<lambda>_ _. True) wit_watch t s" "ws_t s = t" "ws_phase s = W_Sync 1" "ws_pending s = None" "ws_alerts s = []"
    by (auto simp: wit_watch_def)
  from mem.update_batch [OF wit_env_ok mem.reach_ok, of t "[wit_entry CMD_KV_PUT 7]"] w obtain res where
    u: "sm_Update wit_env mem_lmdb t [wit_entry CMD_KV_PUT 7] = Inr res" by auto
  have "\<not> compacts (wit_entry CMD_KV_PUT 7)" by (simp add: compacts_def wit_entry_def CMD_KV_PUT_def CMD_KV_COMPACT_def)
  moreover have "unat (ur_newRev res) + 1 < 2 ^ 52" using wit_put_rev [OF u] w by auto
  ultimately have "\<exists>s'. wreach wit_env mem_lmdb mem_view (\<lambda>_ _. True) wit_watch t s' \<and> ws_t s' = ur_txn res \<and>
      ws_phase s' = W_Sync (ur_newRev res) \<and> ws_pending s' = None \<and> ws_alerts s' = []"
    using mem.watch_follows [OF wit_env_ok s(1,3,4,5), of 1 "[wit_entry CMD_KV_PUT 7]" res] w s(2) u by (simp add: wit_watch_def)
  moreover have "ur_newRev res = 2" using wit_put_event [OF t u] by blast
  ultimately show ?thesis using t w u by blast
qed

section \<open>Properties\<close>

text \<open>C9: a watch delivers each event once and in order, as long as no update compacts. In every state a watch and the updates
  beside it can reach by updates that do not compact, alerts and steps of the watch, in any order, the event messages sent are
  those of the events it selects, from its start to the revision it has scanned: each made of the event in a store of this
  run that has it in its log.\<close>

theorem watch_exactly_once:
  assumes "lmdb L view" "sm_env_ok env" "wreach env L view findAny req t0 s" "getRevision L t0 = Inr rv0"
    and "unat (WatchCreateRequest_StartRevision req) < 2 ^ 52" "ws_phase s = W_Sync rv"
  shows "\<exists>evts. dbKv_scan L (ws_t s) (watch_from (WatchCreateRequest_StartRevision req) rv0) = Inr evts \<and>
    list_all2 (watch_sent env L view req t0 (ws_t s)) (event_msgs (ws_out s)) (filter (\<lambda>e. upper (evt_rev e) \<le> rv \<and> watch_selects req e) evts)"
  using lmdb.wreach_inv [OF assms(1,3,2,4,5), of False] assms(6) unfolding winv_def delivered_def late_def not_less
  by (auto simp: conj_commute)

theorem watch_exactly_once_witness:
  "\<exists>t res s m. sm_Open mem_lmdb mem_empty = Inr (t, 0) \<and> sm_Update wit_env mem_lmdb t [wit_entry CMD_KV_PUT 7] = Inr res \<and>
     wreach wit_env mem_lmdb mem_view (\<lambda>_ _. True) wit_watch t s \<and> ws_phase s = W_Sync 2 \<and> event_msgs (ws_out s) = [m] \<and>
     watch_sent wit_env mem_lmdb mem_view wit_watch t (ur_txn res) m (evt_of (newkeyrev 2 0 False, 0, [97, 98]))"
proof -
  from wit_watch_run obtain t res s where
    s: "sm_Open mem_lmdb mem_empty = Inr (t, 0)" "getRevision mem_lmdb t = Inr 1" "sm_Update wit_env mem_lmdb t [wit_entry CMD_KV_PUT 7] = Inr res"
      "wreach wit_env mem_lmdb mem_view (\<lambda>_ _. True) wit_watch t s" "ws_t s = ur_txn res" "ws_phase s = W_Sync 2" by blast
  note e = wit_put_scan [OF s(1,3)]
  have z: "WatchCreateRequest_StartRevision wit_watch = 0" by (simp add: wit_watch_def)
  from watch_exactly_once [OF mem.lmdb_axioms wit_env_ok s(4,2) _ s(6)] s(5) z e have
    "list_all2 (watch_sent wit_env mem_lmdb mem_view wit_watch t (ur_txn res)) (event_msgs (ws_out s)) [evt_of (newkeyrev 2 0 False, 0, [97, 98])]"
    by (auto simp: watch_from_def)
  then show ?thesis using s(1,3,4,6) by (auto simp: list_all2_Cons2)
qed

text \<open>C10: a watch misses nothing, as long as no update compacts. When no update is about to send its alerts and no alert waits in
  the channel of a watch that is in its loop, all events it selects are delivered, whatever the order in which the updates, none
  of them a compaction, the alerts and the steps of the watch happened.\<close>

theorem watch_complete:
  assumes "lmdb L view" "sm_env_ok env" "wreach env L view findAny req t0 s" "getRevision L t0 = Inr rv0"
    and "unat (WatchCreateRequest_StartRevision req) < 2 ^ 52" "find_ok findAny req"
    and "ws_phase s = W_Sync rv" "ws_pending s = None" "ws_alerts s = []"
  shows "\<exists>evts. dbKv_scan L (ws_t s) (watch_from (WatchCreateRequest_StartRevision req) rv0) = Inr evts \<and>
    list_all2 (watch_sent env L view req t0 (ws_t s)) (event_msgs (ws_out s)) (filter (watch_selects req) evts)"
  using lmdb.winv_complete [OF assms(1,2) lmdb.wreach_inv [OF assms(1,3,2,4,5)] assms(5,7,8,9)] assms(6) by blast

theorem watch_complete_witness:
  "\<exists>t res s m. sm_Open mem_lmdb mem_empty = Inr (t, 0) \<and> sm_Update wit_env mem_lmdb t [wit_entry CMD_KV_PUT 7] = Inr res \<and>
     wreach wit_env mem_lmdb mem_view (\<lambda>_ _. True) wit_watch t s \<and> ws_pending s = None \<and> ws_alerts s = [] \<and> event_msgs (ws_out s) = [m] \<and>
     watch_sent wit_env mem_lmdb mem_view wit_watch t (ur_txn res) m (evt_of (newkeyrev 2 0 False, 0, [97, 98]))"
proof -
  from wit_watch_run obtain t res s where
    s: "sm_Open mem_lmdb mem_empty = Inr (t, 0)" "getRevision mem_lmdb t = Inr 1" "sm_Update wit_env mem_lmdb t [wit_entry CMD_KV_PUT 7] = Inr res"
      "wreach wit_env mem_lmdb mem_view (\<lambda>_ _. True) wit_watch t s" "ws_t s = ur_txn res" "ws_phase s = W_Sync 2"
      "ws_pending s = None" "ws_alerts s = []" by blast
  note e = wit_put_scan [OF s(1,3)]
  have z: "WatchCreateRequest_StartRevision wit_watch = 0" "find_ok (\<lambda>_ _. True) wit_watch" by (simp_all add: wit_watch_def find_ok_def)
  from watch_complete [OF mem.lmdb_axioms wit_env_ok s(4,2) _ z(2) s(6-8)] s(5) z e have
    "list_all2 (watch_sent wit_env mem_lmdb mem_view wit_watch t (ur_txn res)) (event_msgs (ws_out s)) [evt_of (newkeyrev 2 0 False, 0, [97, 98])]"
    by (auto simp: watch_from_def)
  then show ?thesis using s(1,3,4,7,8) by (auto simp: list_all2_Cons2)
qed

end
