(* ===== verification/Module_Store.thy ===== *)
theory Module_Store
  imports Mvcc_Compact
begin

text \<open>
  The store of the WebAssembly module, \<open>src/module/storage-kv/kv_store.go\<close>: what differs from \<open>src/db_kv.go\<close>.

  \<open>put\<close>, \<open>getRange\<close>, \<open>deleteRange\<close>, \<open>deleteBatch\<close>, \<open>get\<close>, \<open>getRev\<close>, \<open>prev\<close> and \<open>evtFromBytes\<close> are the same code as in the
  native store, over the \<open>mdb\<close> SDK of the host in place of \<open>lmdb-go\<close>: the definitions of \<open>Db_Kv\<close> stand for both. The
  buffers the module passes to the cursor are left out: what a cursor returns is taken to be memory of its own.
  \<open>compact\<close> stops after 1024 events, \<open>scan\<close> panics where the native one returns, and \<open>revScan\<close> is new.

  An error of \<open>compact\<close> does not abort the transaction of the module. Its failures carry the state they leave:
  \<open>Inl (t, err)\<close>.
\<close>

declare split_paired_Ex [simp del] split_paired_All [simp del]

section \<open>compact\<close>

definition mod_limitCompactionMaxKeys :: nat where "mod_limitCompactionMaxKeys = 1024"

text \<open>The loop over the events, with the number of those consumed. The flag is \<open>done\<close>.\<close>

fun mod_compact_events :: "'t lmdb \<Rightarrow> nat \<Rightarrow> u64 \<Rightarrow> nat \<Rightarrow> 't \<Rightarrow> compact_state \<Rightarrow> 't \<times> error + 't \<times> compact_state \<times> nat \<times> bool" where
  "mod_compact_events L 0 mx scanned t st = Inl (t, NoReturn)"
| "mod_compact_events L (Suc n) mx scanned t st =
     (if cs_err st = Some ErrMdbNotFound then Inr (t, st, scanned, False)
      else if cs_err st \<noteq> None then Inr (t, st, scanned, True)
      else if 0 < mx \<and> upper (cs_rev st) \<ge> mx then Inr (t, st, scanned, True)
      else if scanned \<ge> mod_limitCompactionMaxKeys then Inr (t, st, scanned, True)
      else
        (case trimChecksum (cs_k st) (cs_v st) of Inl err \<Rightarrow> Inl (t, err) | Inr v \<Rightarrow>
         let (_, m) = Uvarint v in
         if m < 0 then Inl (t, GoPanic)
         else
           (case cur_Del L t DBI_event (cs_k st, cs_v st) of Inl err \<Rightarrow> Inl (t, err) | Inr t1 \<Rightarrow>
            (case compact_advance L t1 (st\<lparr>cs_last := upper (cs_rev st),
                      cs_keys := AList.update (drop (nat m) v) (cs_rev st) (cs_keys st)\<rparr>) of
               Inl err \<Rightarrow> Inl (t1, err)
             | Inr st1 \<Rightarrow> mod_compact_events L n mx (Suc scanned) t1 st1))))"

text \<open>The records of one key that are older than \<open>rv\<close>.\<close>

fun mod_compact_key :: "'t lmdb \<Rightarrow> nat \<Rightarrow> bytes \<Rightarrow> keyrev \<Rightarrow> 't \<Rightarrow> entry result \<Rightarrow> bool \<Rightarrow> 't \<times> error + 't \<times> error option" where
  "mod_compact_key L 0 key rv t cur hasNewer = Inl (t, NoReturn)"
| "mod_compact_key L (Suc n) key rv t cur hasNewer =
     (case cur of
        Inl err \<Rightarrow> if IsNotFound err then Inr (t, Some err) else Inl (t, err)
      | Inr (k, v) \<Rightarrow>
          if k \<noteq> key then Inr (t, None) else
          (case keyrecord_FromBytes krec_zero k v of
             (_, Some err) \<Rightarrow> Inl (t, err)
           | (rec, None) \<Rightarrow>
               if krec_rev rec \<ge> rv
               then mod_compact_key L n key rv t (cur_NextDup L t DBI_revision (k, v)) True
               else
                 (case (if hasNewer \<and> \<not> isdel (krec_rev rec)
                        then mdb_Del L t DBI_value (keyrev_key (krec_rev rec)) else Inr t) of
                    Inl err \<Rightarrow> Inl (t, err)
                  | Inr t1 \<Rightarrow>
                      (case cur_Del L t1 DBI_revision (k, v) of
                         Inl err \<Rightarrow> Inl (t1, err)
                       | Inr t2 \<Rightarrow> mod_compact_key L n key rv t2 (cur_NextDup L t2 DBI_revision (k, v)) True))))"

fun mod_compact_keys :: "'t lmdb \<Rightarrow> (bytes \<times> keyrev) list \<Rightarrow> 't \<Rightarrow> error option \<Rightarrow> 't \<times> error + 't \<times> error option" where
  "mod_compact_keys L [] t err = Inr (t, err)"
| "mod_compact_keys L ((key, rv) # keys) t err =
     bindE (mod_compact_key L (Suc (mdb_Entries L t DBI_revision)) key rv t
              (cur_SetRange L t DBI_revision key) False) (\<lambda>(t1, err1).
     mod_compact_keys L keys t1 err1)"

fun mod_compact_loop :: "'t lmdb \<Rightarrow> nat \<Rightarrow> u64 \<Rightarrow> nat \<Rightarrow> 't \<Rightarrow> compact_state \<Rightarrow> 't \<times> error + 't \<times> u64" where
  "mod_compact_loop L 0 mx scanned t st = Inl (t, NoReturn)"
| "mod_compact_loop L (Suc n) mx scanned t st =
     bindE (mod_compact_events L (Suc (Suc (mdb_Entries L t DBI_event))) mx scanned t st) (\<lambda>(t1, st1, scanned1, done).
     bindE (mod_compact_keys L (cs_keys st1) t1 (cs_err st1)) (\<lambda>(t2, err).
     let err1 = clearNotFound err in
     if done then (case err1 of None \<Rightarrow> Inr (t2, cs_last st1) | Some e \<Rightarrow> Inl (t2, e))
     else mod_compact_loop L n mx scanned1 t2 (st1\<lparr>cs_err := err1, cs_keys := []\<rparr>)))"

definition mod_compact :: "'t lmdb \<Rightarrow> 't \<Rightarrow> u64 \<Rightarrow> 't \<times> error + 't \<times> u64" where
  "mod_compact L t mx =
     (case mdb_OpenCursor L t DBI_revision of Inl err \<Rightarrow> Inl (t, err) | Inr _ \<Rightarrow>
      case mdb_OpenCursor L t DBI_event of Inl err \<Rightarrow> Inl (t, err) | Inr _ \<Rightarrow>
      case (case cur_Next L t DBI_event None of
              Inl err \<Rightarrow> if IsNotFound err then Inr ([], []) else Inl err
            | Inr e \<Rightarrow> Inr e) of Inl err \<Rightarrow> Inl (t, err) | Inr (k, v) \<Rightarrow>
      case keyrev_FromKey 0 k v of Inl err \<Rightarrow> Inl (t, err) | Inr (rv, err) \<Rightarrow>
      case err of Some e \<Rightarrow> Inl (t, e) | None \<Rightarrow>
      mod_compact_loop L 2 mx 0 t
        \<lparr>cs_k = k, cs_v = v, cs_err = None, cs_rev = rv, cs_keys = [], cs_last = 0\<rparr>)"

section \<open>scan and revScan\<close>

text \<open>An error, or a record that does not decode, panics.\<close>

fun mod_scan_loop :: "'t lmdb \<Rightarrow> nat \<Rightarrow> 't \<Rightarrow> entry result \<Rightarrow> kvEvent list \<Rightarrow> kvEvent list result" where
  "mod_scan_loop L 0 t cur evts = Inl NoReturn"
| "mod_scan_loop L (Suc n) t cur evts =
     (case cur of
        Inl err \<Rightarrow> if IsNotFound err then Inr evts else Inl GoPanic
      | Inr (k, v) \<Rightarrow>
          bindE (evtFromBytes k v) (\<lambda>(evt, err).
          case err of Some e \<Rightarrow> Inl GoPanic | None \<Rightarrow>
          let r1 = cur_NextDup L t DBI_event (k, v);
              r2 = (case r1 of Inl e \<Rightarrow> if IsNotFound e then cur_Next L t DBI_event (Some (k, v)) else r1
                    | Inr _ \<Rightarrow> r1) in
          mod_scan_loop L n t r2 (evts @ [evt])))"

definition mod_scan :: "'t lmdb \<Rightarrow> 't \<Rightarrow> u64 \<Rightarrow> kvEvent list result" where
  "mod_scan L t revision =
     (case mdb_OpenCursor L t DBI_event of
        Inl err \<Rightarrow> Inl GoPanic
      | Inr _ \<Rightarrow> mod_scan_loop L (Suc (mdb_Entries L t DBI_event)) t
                   (cur_SetRange L t DBI_event (be64 (push_bit 12 revision))) [])"

text \<open>The events of the first key at or after a revision: \<open>NextDup\<close> stays on the key.\<close>

fun revScan_dups :: "'t lmdb \<Rightarrow> nat \<Rightarrow> 't \<Rightarrow> entry result \<Rightarrow> kvEvent list \<Rightarrow> kvEvent list result" where
  "revScan_dups L 0 t cur evts = Inl NoReturn"
| "revScan_dups L (Suc n) t cur evts =
     (case cur of
        Inl err \<Rightarrow> if IsNotFound err then Inr evts else Inl GoPanic
      | Inr (k, v) \<Rightarrow>
          bindE (evtFromBytes k v) (\<lambda>(evt, err).
          case err of Some e \<Rightarrow> Inl GoPanic | None \<Rightarrow>
          revScan_dups L n t (cur_NextDup L t DBI_event (k, v)) (evts @ [evt])))"

text \<open>A revision without an event at or after it panics.\<close>

fun revScan :: "'t lmdb \<Rightarrow> 't \<Rightarrow> u64 list \<Rightarrow> kvEvent list \<Rightarrow> kvEvent list result" where
  "revScan L t [] evts = Inr evts"
| "revScan L t (rv # revisions) evts =
     (case mdb_OpenCursor L t DBI_event of Inl err \<Rightarrow> Inl GoPanic | Inr _ \<Rightarrow>
      case cur_SetRange L t DBI_event (be64 (push_bit 12 rv)) of
        Inl err \<Rightarrow> Inl GoPanic
      | Inr e \<Rightarrow>
          bindE (revScan_dups L (Suc (mdb_Entries L t DBI_event)) t (Inr e) evts) (revScan L t revisions))"

section \<open>Compaction\<close>

text \<open>Without an error the module does what the native code does to the records.\<close>

lemma mod_compact_key_Inr: "compact_key L n key rv t cur b = Inr r \<Longrightarrow> mod_compact_key L n key rv t cur b = Inr r"
proof (induction n arbitrary: t cur b)
  case (Suc n)
  show ?case
  proof (cases cur)
    case (Inr e)
    obtain k v where e: "e = (k, v)" by (rule prod.exhaust)
    obtain rec err where f: "keyrecord_FromBytes krec_zero k v = (rec, err)" by (rule prod.exhaust)
    show ?thesis
    proof (cases "k = key \<and> err = None \<and> \<not> rv \<le> krec_rev rec")
      case True
      let ?d = "if b \<and> \<not> isdel (krec_rev rec) then mdb_Del L t DBI_value (keyrev_key (krec_rev rec)) else Inr t"
      have "bindE ?d (\<lambda>t1. bindE (cur_Del L t1 DBI_revision (k, v)) (\<lambda>t2. compact_key L n key rv t2 (cur_NextDup L t2 DBI_revision (k, v)) True)) = Inr r"
        using Suc.prems Inr e f True by simp
      then obtain t1 t2 where "?d = Inr t1" "cur_Del L t1 DBI_revision (k, v) = Inr t2"
        "compact_key L n key rv t2 (cur_NextDup L t2 DBI_revision (k, v)) True = Inr r" by (elim bindE_InrE)
      with Suc.IH Inr e f True show ?thesis by simp
    qed (use Suc Inr e f in \<open>auto split: option.splits if_splits\<close>)
  qed (use Suc.prems in \<open>simp split: if_splits\<close>)
qed simp

lemma mod_compact_keys_Inr: "compact_keys L ks t err = Inr r \<Longrightarrow> mod_compact_keys L ks t err = Inr r"
proof (induction ks arbitrary: t err)
  case (Cons kr keys)
  obtain key rv where kr: "kr = (key, rv)" by (rule prod.exhaust)
  from Cons.prems obtain t1 err1 where
    k: "compact_key L (Suc (mdb_Entries L t DBI_revision)) key rv t (cur_SetRange L t DBI_revision key) False = Inr (t1, err1)"
      "compact_keys L keys t1 err1 = Inr r" unfolding kr compact_keys.simps by (auto simp del: compact_key.simps elim!: bindE_InrE)
  from Cons.IH [OF k(2)] mod_compact_key_Inr [OF k(1)] show ?case by (simp add: kr del: mod_compact_key.simps)
qed simp

context lmdb
begin

lemma mod_compact_events_spec:
  assumes "view t DBI_event = map evt_entry xs" "at_event xs st" "length xs < n" "scanned \<le> mod_limitCompactionMaxKeys"
    and "xs = [] \<longrightarrow> \<not> (0 < mx \<and> mx \<le> upper (cs_rev st))"
  shows "\<exists>pre post t1 st1. mod_compact_events L n mx scanned t st = Inr (t1, st1, scanned + length pre, post \<noteq> []) \<and> xs = pre @ post \<and>
    view t1 DBI_event = map evt_entry post \<and> at_event post st1 \<and> cs_keys st1 = ev_keys (cs_keys st) pre \<and>
    (\<forall>x \<in> set pre. \<not> (0 < mx \<and> mx \<le> upper (ev_rev x))) \<and> scanned + length pre \<le> mod_limitCompactionMaxKeys \<and>
    (post = [] \<longrightarrow> \<not> (0 < mx \<and> mx \<le> upper (cs_rev st1))) \<and>
    (post \<noteq> [] \<longrightarrow> 0 < mx \<and> mx \<le> upper (ev_rev (hd post)) \<or> scanned + length pre = mod_limitCompactionMaxKeys) \<and>
    (\<forall>d. d \<noteq> DBI_event \<longrightarrow> view t1 d = view t d)"
  using assms
proof (induction xs arbitrary: t st n scanned)
  case Nil
  then obtain m where n: "n = Suc m" by (cases n) auto
  have "mod_compact_events L n mx scanned t st = Inr (t, st, scanned, False)" using Nil.prems(2) n by (simp add: at_event_def)
  then show ?case using Nil.prems by (intro exI [of _ "[]"] exI [of _ "[]"] exI [of _ t] exI [of _ st]) (simp add: ev_keys_def)
next
  case (Cons x xs)
  from Cons.prems(3) obtain m where n: "n = Suc m" "length xs < m" by (cases n) auto
  have on: "on_event (x # xs) st" using Cons.prems(2) by (simp add: at_event_def)
  from consume_event [OF Cons.prems(1) on] obtain v ep p t1 st1 where
    c: "trimChecksum (cs_k st) (cs_v st) = Inr v" "Uvarint v = (ep, p)" "0 \<le> p" "drop (nat p) v = ev_key x" "cs_err st = None"
      "cs_rev st = ev_rev x" "cur_Del L t DBI_event (cs_k st, cs_v st) = Inr t1"
      "compact_advance L t1 (st\<lparr>cs_last := upper (ev_rev x), cs_keys := AList.update (ev_key x) (ev_rev x) (cs_keys st)\<rparr>) = Inr st1"
      "view t1 DBI_event = map evt_entry xs" "at_event xs st1" "cs_keys st1 = AList.update (ev_key x) (ev_rev x) (cs_keys st)"
      "cs_last st1 = upper (ev_rev x)" "xs = [] \<longrightarrow> cs_rev st1 = ev_rev x" "\<forall>d. d \<noteq> DBI_event \<longrightarrow> view t1 d = view t d" by (elim exE conjE)
  show ?case
  proof (cases "0 < mx \<and> mx \<le> upper (ev_rev x) \<or> scanned = mod_limitCompactionMaxKeys")
    case True
    then have "mod_compact_events L n mx scanned t st = Inr (t, st, scanned, True)" using n(1) c(5,6) by auto
    then show ?thesis using True Cons.prems
      by (intro exI [of _ "[]"] exI [of _ "x # xs"] exI [of _ t] exI [of _ st]) (simp add: ev_keys_def)
  next
    case False
    then have run: "mod_compact_events L n mx scanned t st = mod_compact_events L m mx (Suc scanned) t1 st1"
      using n(1) c(1-8) Cons.prems(4) by auto
    from Cons.IH [OF c(9,10) n(2), of "Suc scanned"] c(13) False Cons.prems(4) obtain pre post t2 st2 where
      i: "mod_compact_events L m mx (Suc scanned) t1 st1 = Inr (t2, st2, Suc scanned + length pre, post \<noteq> [])" "xs = pre @ post"
        "view t2 DBI_event = map evt_entry post" "at_event post st2" "cs_keys st2 = ev_keys (cs_keys st1) pre"
        "\<forall>x \<in> set pre. \<not> (0 < mx \<and> mx \<le> upper (ev_rev x))" "Suc scanned + length pre \<le> mod_limitCompactionMaxKeys"
        "post = [] \<longrightarrow> \<not> (0 < mx \<and> mx \<le> upper (cs_rev st2))"
        "post \<noteq> [] \<longrightarrow> 0 < mx \<and> mx \<le> upper (ev_rev (hd post)) \<or> Suc scanned + length pre = mod_limitCompactionMaxKeys"
        "\<forall>d. d \<noteq> DBI_event \<longrightarrow> view t2 d = view t1 d" by auto
    show ?thesis
      by (rule exI [of _ "x # pre"], rule exI [of _ post], rule exI [of _ t2], rule exI [of _ st2])
        (use run i c(11,14) False in \<open>auto simp: ev_keys_def\<close>)
  qed
qed

text \<open>The whole compaction: a first part of the log is consumed and its keys are trimmed, at most 1024 events and none from
  the compaction revision on. When that is the whole log the next round fails, unless the limit is reached as well.\<close>

lemma mod_compact_spec:
  assumes rel: "kv_rel env view t H" and ev: "ev_rel view t E" and lg: "logged H E" and ne: "E \<noteq> {}"
  shows "\<exists>pre post t'. view t DBI_event = map evt_entry (pre @ post) \<and> set (pre @ post) = E \<and>
    (if post = [] \<and> length pre < mod_limitCompactionMaxKeys then mod_compact L t mx = Inl (t', ErrChecksumInvalid)
     else \<exists>lst. mod_compact L t mx = Inr (t', lst)) \<and>
    kv_rel env view t' (trim_all pre H) \<and> view t' DBI_event = map evt_entry post \<and> length pre \<le> mod_limitCompactionMaxKeys \<and>
    (\<forall>x \<in> set pre. \<not> (0 < mx \<and> mx \<le> upper (ev_rev x))) \<and>
    (post \<noteq> [] \<longrightarrow> 0 < mx \<and> mx \<le> upper (ev_rev (hd post)) \<or> length pre = mod_limitCompactionMaxKeys) \<and>
    (\<forall>d. d \<notin> {DBI_revision, DBI_value, DBI_event} \<longrightarrow> view t' d = view t d)"
proof -
  from ev have "\<forall>e \<in> set (view t DBI_event). \<exists>x. e = evt_entry x" by (auto simp: ev_rel_def)
  then obtain xs where xs: "view t DBI_event = map evt_entry xs" by (metis ex_map_conv)
  have E: "set xs = E" using ev xs inj_image_eq_iff [of evt_entry "set xs" E] by (simp add: ev_rel_def inj_def)
  from ne E obtain x ys where x: "xs = x # ys" by (cases xs) auto
  obtain r ep k where rx: "x = (r, ep, k)" by (rule prod_cases3)
  have nx: "cur_Next L t DBI_event None = Inr (be64 r, event_bytes r ep k)"
    using xs x rx by (simp add: Next first_entry_def evt_entry_def)
  let ?st = "\<lparr>cs_k = be64 r, cs_v = event_bytes r ep k, cs_err = None, cs_rev = r, cs_keys = [], cs_last = 0\<rparr>"
  have run: "mod_compact L t mx = mod_compact_loop L (Suc (Suc 0)) mx 0 t ?st"
    using nx FromKey_entry [of 0 r ep k] by (simp add: mod_compact_def OpenCursor numeral_2_eq_2 del: mod_compact_loop.simps)
  have at: "at_event xs ?st" using x rx by (simp add: at_event_def on_event_def evt_entry_def)
  have fuel: "length xs < Suc (Suc (mdb_Entries L t DBI_event))" by (simp add: Entries xs)
  from mod_compact_events_spec [OF xs at fuel, of 0 mx] x obtain pre post t1 st1 where
    e: "mod_compact_events L (Suc (Suc (mdb_Entries L t DBI_event))) mx 0 t ?st = Inr (t1, st1, length pre, post \<noteq> [])" "xs = pre @ post"
      "view t1 DBI_event = map evt_entry post" "at_event post st1" "cs_keys st1 = ev_keys [] pre"
      "\<forall>x \<in> set pre. \<not> (0 < mx \<and> mx \<le> upper (ev_rev x))" "length pre \<le> mod_limitCompactionMaxKeys"
      "post = [] \<longrightarrow> \<not> (0 < mx \<and> mx \<le> upper (cs_rev st1))"
      "post \<noteq> [] \<longrightarrow> 0 < mx \<and> mx \<le> upper (ev_rev (hd post)) \<or> length pre = mod_limitCompactionMaxKeys"
      "\<forall>d. d \<noteq> DBI_event \<longrightarrow> view t1 d = view t d" by auto
  have "sorted (map ev_rev xs)" using sorted_events view_sorted [of t DBI_event] unfolding xs .
  then have srt: "sorted (map ev_rev pre)" unfolding e(2) by (simp add: sorted_append)
  have "\<forall>(k, r) \<in> set (ev_keys [] pre). \<exists>h \<in> set (H k). vrev h = r"
    by (rule ev_keys_logged [OF srt]) (use lg E e(2) in \<open>auto simp: logged_def\<close>)
  moreover have rel1: "kv_rel env view t1 H" using rel e(10) by (simp add: kv_rel_def)
  ultimately obtain t2 err where
    k: "compact_keys L (ev_keys [] pre) t1 (cs_err st1) = Inr (t2, err)" "err = cs_err st1 \<or> err = Some ErrMdbNotFound"
      "kv_rel env view t2 (trim_all pre H)" "\<forall>d. d \<notin> {DBI_revision, DBI_value} \<longrightarrow> view t2 d = view t1 d"
    using compact_keys_spec [OF rel1 distinct_ev_keys, of pre "cs_err st1"] unfolding trim_all_def by blast
  have err: "clearNotFound err = None"
    using k(2) e(4) by (auto simp: clearNotFound_def at_event_def on_event_def split: list.splits)
  let ?st1 = "st1\<lparr>cs_err := None, cs_keys := []\<rparr>"
  have one: "mod_compact L t mx = (if post \<noteq> [] then Inr (t2, cs_last st1) else mod_compact_loop L (Suc 0) mx (length pre) t2 ?st1)"
    unfolding run using e(1,5) mod_compact_keys_Inr [OF k(1)] err by (simp del: mod_compact_events.simps)
  have two: "mod_compact_loop L (Suc 0) mx (length pre) t2 ?st1 =
      (if length pre < mod_limitCompactionMaxKeys then Inl (t2, ErrChecksumInvalid) else Inr (t2, cs_last st1))" if "post = []"
    using that e(4,7,8) by (auto simp: at_event_def trimChecksum_def clearNotFound_def)
  have v: "view t2 DBI_event = map evt_entry post" "\<forall>d. d \<notin> {DBI_revision, DBI_value, DBI_event} \<longrightarrow> view t2 d = view t d"
    using k(4) e(3,10) by simp_all
  show ?thesis
    by (rule exI [of _ pre], rule exI [of _ post], rule exI [of _ t2])
      (use xs E e(2,6,7,9) k(3) v one two in \<open>auto simp del: mod_compact_loop.simps\<close>)
qed

lemma mod_compact_empty:
  assumes "view t DBI_event = []"
  shows "mod_compact L t mx = Inl (t, ErrChecksumMissing)"
  using assms Next [of t DBI_event None] by (simp add: mod_compact_def OpenCursor first_entry_def keyrev_FromKey_def checkSum_def)

text \<open>The state a compaction leaves, whether it fails or not.\<close>

lemma mod_compact_keeps:
  assumes rel: "kv_rel env view t H" and ev: "ev_rel view t E" and lg: "logged H E"
  shows "\<exists>t' H' E'. (mod_compact L t mx \<in> {Inl (t', ErrChecksumMissing), Inl (t', ErrChecksumInvalid)} \<or> (\<exists>lst. mod_compact L t mx = Inr (t', lst))) \<and>
    kv_rel env view t' H' \<and> ev_rel view t' E' \<and> E' \<subseteq> E \<and> logged H' E' \<and> (\<forall>k. set (H' k) \<subseteq> set (H k)) \<and>
    (\<forall>k. take 1 (H' k) = take 1 (H k)) \<and>
    (0 < mx \<longrightarrow> same_from mx H H' \<and> {x \<in> E. mx \<le> upper (ev_rev x)} \<subseteq> E') \<and> card E \<le> card E' + mod_limitCompactionMaxKeys \<and>
    (\<forall>d. d \<notin> {DBI_revision, DBI_value, DBI_event} \<longrightarrow> view t' d = view t d)"
proof (cases "E = {}")
  case True
  then have "view t DBI_event = []" using ev by (simp add: ev_rel_def)
  from mod_compact_empty [OF this, of mx] show ?thesis using rel ev lg True
    by (intro exI [of _ t] exI [of _ H] exI [of _ E]) (simp add: same_from_def)
next
  case False
  from mod_compact_spec [OF rel ev lg False, of mx] obtain pre post t' where
    c: "view t DBI_event = map evt_entry (pre @ post)" "set (pre @ post) = E"
      "if post = [] \<and> length pre < mod_limitCompactionMaxKeys then mod_compact L t mx = Inl (t', ErrChecksumInvalid)
       else \<exists>lst. mod_compact L t mx = Inr (t', lst)"
      "kv_rel env view t' (trim_all pre H)" "view t' DBI_event = map evt_entry post" "length pre \<le> mod_limitCompactionMaxKeys"
      "\<forall>x \<in> set pre. \<not> (0 < mx \<and> mx \<le> upper (ev_rev x))"
      "\<forall>d. d \<notin> {DBI_revision, DBI_value, DBI_event} \<longrightarrow> view t' d = view t d" by (elim exE conjE)
  have srt: "sorted (map ev_rev (pre @ post))" using sorted_events view_sorted [of t DBI_event] unfolding c(1) by blast
  have lg': "logged H (set (pre @ post))" using lg c(2) by simp
  note ok = kv_relD(1) [OF rel]
  obtain top where top: "\<forall>x \<in> set pre. upper (ev_rev x) < top"
  proof (rule that [of "push_bit 52 1"], rule ballI)
    fix x show "upper (ev_rev x) < push_bit 52 1"
      using unsigned_less [of "ev_rev x", where ?'a = nat] by (simp add: word_less_nat_alt unat_upper less_mult_imp_div_less)
  qed
  have lo: "\<forall>x \<in> set pre. upper (ev_rev x) < mx" if "0 < mx" using c(7) that by (auto simp: not_le)
  note facts = trim_all_facts [OF ok lg' srt]
  have "card E \<le> card (set pre) + card (set post)" unfolding c(2) [symmetric] set_append by (rule card_Un_le)
  also have "\<dots> \<le> mod_limitCompactionMaxKeys + card (set post)" using c(6) card_length [of pre] by (meson add_le_mono1 order_trans)
  finally have card: "card E \<le> card (set post) + mod_limitCompactionMaxKeys" by simp
  have keep: "{x \<in> E. mx \<le> upper (ev_rev x)} \<subseteq> set post" if "0 < mx" using c(2) lo [OF that] by (auto simp: not_le [symmetric])
  show ?thesis
    by (rule exI [of _ t'], rule exI [of _ "trim_all pre H"], rule exI [of _ "set post"])
      (use c(2-5,8) facts(2) [OF top] facts(3) [OF top] facts(3) [OF lo] card keep trim_all_sub [of pre H] in
        \<open>auto simp: ev_rel_def same_from_def split: if_splits\<close>)
qed

section \<open>The events of a list of revisions\<close>

lemma mod_scan_loop_spec:
  assumes "view t DBI_event = xs @ ys" "set ys \<subseteq> evt_entry ` E" "length ys < n"
  shows "mod_scan_loop L n t (head_entry ys) evts = Inr (evts @ map evt_dec ys)"
  using assms
proof (induction n arbitrary: xs ys evts)
  case (Suc n)
  show ?case
  proof (cases ys)
    case (Cons e ys')
    with Suc.prems obtain x where x: "e = evt_entry x" by auto
    obtain k v where kv: "e = (k, v)" by (rule prod.exhaust)
    have srt: "ssorted (xs @ e # ys')" using view_sorted [of t DBI_event] Suc.prems(1) Cons by simp
    have le: "e' \<le> e" if "e' \<in> set (xs @ [e])" for e' using that srt by (auto simp: sorted_wrt_append intro: less_imp_le)
    have gt: "e < e'" if "e' \<in> set ys'" for e' using that srt by (simp add: sorted_wrt_append)
    have nxt: "advance t DBI_event e = head_entry ys'"
      by (rule advance_suffix [OF _ le gt]) (use Suc.prems(1) Cons in simp)
    have "evtFromBytes k v = Inr (evt_of x, None)" using evtFromBytes_entry [of x] unfolding x [symmetric] kv by simp
    moreover have "evt_dec e = evt_of x" using x by simp
    ultimately have "mod_scan_loop L (Suc n) t (head_entry ys) evts = mod_scan_loop L n t (head_entry ys') (evts @ [evt_dec e])"
      using Cons kv nxt by (simp add: advance_def Let_def)
    also have "\<dots> = Inr ((evts @ [evt_dec e]) @ map evt_dec ys')"
      by (rule Suc.IH [of "xs @ [e]"]) (use Suc.prems Cons in auto)
    finally show ?thesis using Cons by simp
  qed simp
qed simp

lemma SetRange_event: "cur_SetRange L t DBI_event (be64 (push_bit 12 r)) = head_entry (scan_entries t r)"
  unfolding SetRange [OF be64_not_Nil] scan_entries_def by (rule first_entry_ge) simp

text \<open>On a log of events the scans of the module and of the native code agree.\<close>

lemma mod_scan_eq:
  assumes "ev_rel view t E"
  shows "mod_scan L t revision = dbKv_scan L t revision"
proof -
  let ?k = "be64 (push_bit 12 revision)"
  have sub: "set (scan_entries t revision) \<subseteq> evt_entry ` E" using assms by (auto simp: ev_rel_def scan_entries_def)
  have split: "view t DBI_event = filter (\<lambda>e. \<not> ?k \<le> fst e) (view t DBI_event) @ scan_entries t revision"
    unfolding scan_entries_def by (rule ssorted_split_ge) simp
  have "length (scan_entries t revision) < Suc (mdb_Entries L t DBI_event)" by (simp add: scan_entries_def Entries le_imp_less_Suc)
  from mod_scan_loop_spec [OF split sub this, of "[]"] show ?thesis
    by (simp add: mod_scan_def OpenCursor SetRange_event scan_run [OF assms] del: mod_scan_loop.simps)
qed

lemma revScan_dups_spec:
  assumes "view t DBI_event = xs @ ds @ zs" "set ds \<subseteq> evt_entry ` E" "\<forall>e \<in> set ds. fst e = k" "\<forall>e \<in> set zs. fst e \<noteq> k" "length ds < n"
  shows "revScan_dups L n t (head_entry ds) evts = Inr (evts @ map evt_dec ds)"
  using assms
proof (induction n arbitrary: xs ds evts)
  case (Suc n)
  show ?case
  proof (cases ds)
    case (Cons e ds')
    with Suc.prems(2) obtain x where x: "e = evt_entry x" by auto
    obtain k0 v where kv: "e = (k0, v)" by (rule prod.exhaust)
    have k0: "k0 = k" using Suc.prems(3) Cons kv by simp
    have srt: "ssorted (xs @ e # ds' @ zs)" using view_sorted [of t DBI_event] Suc.prems(1) Cons by simp
    have le: "\<not> (e < e' \<and> fst e' = fst e)" if "e' \<in> set (xs @ [e])" for e' using that srt by (auto simp: sorted_wrt_append dest: less_asym)
    have "cur_NextDup L t DBI_event e = first_entry (\<lambda>e'. e < e' \<and> fst e' = fst e) ((xs @ [e]) @ ds' @ zs)"
      using Suc.prems(1) Cons by (simp add: NextDup)
    also have "\<dots> = first_entry (\<lambda>e'. e < e' \<and> fst e' = fst e) (ds' @ zs)" by (rule first_entry_append) (rule le)
    also have "\<dots> = head_entry ds'"
    proof (cases ds')
      case Nil
      have "first_entry (\<lambda>e'. e < e' \<and> fst e' = fst e) (zs @ []) = head_entry []"
        by (subst first_entry_append) (use Suc.prems(4) k0 kv in \<open>auto simp: first_entry_def\<close>)
      then show ?thesis using Nil by simp
    next
      case (Cons e1 ds1)
      then have "e < e1" "fst e1 = fst e" using srt Suc.prems(3) \<open>ds = e # ds'\<close> by (simp_all add: sorted_wrt_append)
      then show ?thesis using Cons by (simp add: first_entry_def)
    qed
    finally have nxt: "cur_NextDup L t DBI_event e = head_entry ds'" .
    have "evtFromBytes k0 v = Inr (evt_of x, None)" using evtFromBytes_entry [of x] unfolding x [symmetric] kv by simp
    moreover have "evt_dec e = evt_of x" using x by simp
    ultimately have "revScan_dups L (Suc n) t (head_entry ds) evts = revScan_dups L n t (head_entry ds') (evts @ [evt_dec e])"
      using Cons kv nxt by simp
    also have "\<dots> = Inr ((evts @ [evt_dec e]) @ map evt_dec ds')"
      by (rule Suc.IH [of "xs @ [e]"]) (use Suc.prems Cons in auto)
    finally show ?thesis using Cons by simp
  qed simp
qed simp

text \<open>What \<open>revScan\<close> reads for a revision: the events under the first key at or after it.\<close>

definition first_key :: "'t \<Rightarrow> u64 \<Rightarrow> entry list" where
  "first_key t r = (case scan_entries t r of [] \<Rightarrow> [] | e # es \<Rightarrow> filter (\<lambda>e'. fst e' = fst e) (e # es))"

lemma filter_same_key: "ssorted (e # es) \<Longrightarrow> e # es = filter (\<lambda>e'. fst e' = fst e) (e # es) @ filter (\<lambda>e'. fst e' \<noteq> fst e) (e # es)"
proof (induction es rule: rev_induct)
  case (snoc e1 es)
  have s: "ssorted (e # es)" "e < e1" "\<forall>e' \<in> set es. e' < e1 \<and> e < e'" using snoc.prems by (auto simp: sorted_wrt_append)
  show ?case
  proof (cases "fst e1 = fst e")
    case True
    have "fst e' = fst e" if "e' \<in> set es" for e'
      using s(3) that True by (cases e; cases e1; cases e') (force simp: less_prod_def')
    then show ?thesis using True by (simp add: filter_id_conv filter_empty_conv)
  next
    case False
    then show ?thesis using snoc.IH [OF s(1)] by simp
  qed
qed simp

lemma revScan_step:
  assumes ev: "ev_rel view t E" and ne: "scan_entries t r \<noteq> []"
  shows "revScan L t (r # rs) evts = revScan L t rs (evts @ map evt_dec (first_key t r))"
proof -
  let ?k = "be64 (push_bit 12 r)"
  from ne obtain e es where e: "scan_entries t r = e # es" by (cases "scan_entries t r") auto
  let ?zs = "filter (\<lambda>e'. fst e' \<noteq> fst e) (e # es)"
  have k: "first_key t r = filter (\<lambda>e'. fst e' = fst e) (e # es)" by (simp add: first_key_def e)
  have "set (scan_entries t r) \<subseteq> evt_entry ` E" using ev by (auto simp: ev_rel_def scan_entries_def)
  then have sub: "set (first_key t r) \<subseteq> evt_entry ` E" unfolding k e by auto
  have "ssorted (e # es)" unfolding e [symmetric] scan_entries_def by (simp add: sorted_wrt_filter)
  from filter_same_key [OF this] have es: "scan_entries t r = first_key t r @ ?zs" unfolding k e .
  have "view t DBI_event = filter (\<lambda>e. \<not> ?k \<le> fst e) (view t DBI_event) @ scan_entries t r"
    unfolding scan_entries_def by (rule ssorted_split_ge) simp
  then have split: "view t DBI_event = filter (\<lambda>e. \<not> ?k \<le> fst e) (view t DBI_event) @ first_key t r @ ?zs" unfolding es .
  have "length (first_key t r) \<le> length (scan_entries t r)" unfolding es by simp
  also have "\<dots> \<le> mdb_Entries L t DBI_event" by (simp add: scan_entries_def Entries)
  finally have len: "length (first_key t r) < Suc (mdb_Entries L t DBI_event)" by simp
  have "revScan_dups L (Suc (mdb_Entries L t DBI_event)) t (head_entry (first_key t r)) evts = Inr (evts @ map evt_dec (first_key t r))"
    by (rule revScan_dups_spec [OF split sub _ _ len, of "fst e"]) (auto simp: k)
  moreover have "head_entry (first_key t r) = Inr e" by (simp add: k)
  ultimately show ?thesis by (simp add: OpenCursor SetRange_event e del: revScan_dups.simps)
qed

lemma revScan_missing: "scan_entries t r = [] \<Longrightarrow> revScan L t (r # rs) evts = Inl GoPanic"
  by (simp add: OpenCursor SetRange_event)

end

end
