(* ===== verification/Module_Machine.thy ===== *)
theory Module_Machine
  imports Sm_Reach Module_Store
begin

text \<open>
  The state machine of the WebAssembly module, \<open>src/module/storage-kv/main.go\<close>: \<open>open\<close>, \<open>update\<close>, \<open>finish\<close>, \<open>read\<close>.

  The host calls \<open>update\<close> once for every entry and \<open>finish\<close> at the end of a batch. The transaction, the epoch and the
  revisions are global variables: the record \<open>mstate\<close>, with the committed state of the environment beside the open
  transaction. \<open>range_watch.Queue\<close> and \<open>Flush\<close> are calls of the host: the model records what is queued, and what is
  flushed to the watches.

  The commands under a transaction (\<open>cmdPut\<close>, \<open>cmdDeleteRange\<close>, \<open>cmdLeaseGrant\<close>, \<open>cmdLeaseRevoke\<close>, \<open>cmdLeaseKeepAlive\<close>,
  \<open>cmdLeaseKeepAliveBatch\<close>, \<open>txnOps\<close>, \<open>txnCompare\<close>) and the queries (\<open>queryRange\<close>, \<open>queryLeaseLeases\<close>, \<open>queryLeaseTimeToLive\<close>) are the
  same code as in \<open>src/state_machine.go\<close> and share the definitions of \<open>State_Machine\<close>. What \<open>update\<close> makes of their results
  differs: the command numbers, the errors that are answered instead of raised, the compaction, which a command only
  requests and the next tick carries out, and the revisions queued for the watches.
\<close>

declare split_paired_Ex [simp del] split_paired_All [simp del]

section \<open>Numbers\<close>

definition MOD_CMD_INTERNAL_TERM :: byte where "MOD_CMD_INTERNAL_TERM = 0"
definition MOD_CMD_INTERNAL_TICK :: byte where "MOD_CMD_INTERNAL_TICK = 1"
definition MOD_CMD_KV_COMPACT :: byte where "MOD_CMD_KV_COMPACT = 2"
definition MOD_CMD_KV_DELETE_RANGE :: byte where "MOD_CMD_KV_DELETE_RANGE = 3"
definition MOD_CMD_KV_PUT :: byte where "MOD_CMD_KV_PUT = 4"
definition MOD_CMD_KV_TXN :: byte where "MOD_CMD_KV_TXN = 5"
definition MOD_CMD_LEASE_GRANT :: byte where "MOD_CMD_LEASE_GRANT = 6"
definition MOD_CMD_LEASE_KEEP_ALIVE :: byte where "MOD_CMD_LEASE_KEEP_ALIVE = 7"
definition MOD_CMD_LEASE_KEEP_ALIVE_BATCH :: byte where "MOD_CMD_LEASE_KEEP_ALIVE_BATCH = 8"
definition MOD_CMD_LEASE_REVOKE :: byte where "MOD_CMD_LEASE_REVOKE = 9"

lemmas MOD_CMD_defs = MOD_CMD_INTERNAL_TERM_def MOD_CMD_INTERNAL_TICK_def MOD_CMD_KV_COMPACT_def MOD_CMD_KV_DELETE_RANGE_def
  MOD_CMD_KV_PUT_def MOD_CMD_KV_TXN_def MOD_CMD_LEASE_GRANT_def MOD_CMD_LEASE_KEEP_ALIVE_def MOD_CMD_LEASE_KEEP_ALIVE_BATCH_def
  MOD_CMD_LEASE_REVOKE_def

definition MOD_QUERY_HEADER :: byte where "MOD_QUERY_HEADER = 0"
definition MOD_QUERY_KV_RANGE :: byte where "MOD_QUERY_KV_RANGE = 1"
definition MOD_QUERY_LEASE_LEASES :: byte where "MOD_QUERY_LEASE_LEASES = 2"
definition MOD_QUERY_LEASE_TIME_TO_LIVE :: byte where "MOD_QUERY_LEASE_TIME_TO_LIVE = 3"
definition MOD_QUERY_WATCH_PROGRESS :: byte where "MOD_QUERY_WATCH_PROGRESS = 4"

section \<open>Errors\<close>

definition stuck :: "error \<Rightarrow> bool" where
  "stuck e \<longleftrightarrow> e = GoPanic \<or> e = NoReturn"

text \<open>\<open>if err != nil { panic(...) }\<close>, and \<open>if err != nil { return }\<close> with the results as they are.\<close>

definition orPanic :: "'a result \<Rightarrow> ('a \<Rightarrow> 'b result) \<Rightarrow> 'b result" where
  "orPanic m f = (case m of Inl e \<Rightarrow> Inl (if e = NoReturn then NoReturn else GoPanic) | Inr a \<Rightarrow> f a)"

definition orReturn :: "(error \<Rightarrow> 'b) \<Rightarrow> 'a result \<Rightarrow> ('a \<Rightarrow> 'b result) \<Rightarrow> 'b result" where
  "orReturn r m f = (case m of Inl e \<Rightarrow> if stuck e then Inl e else Inr (r e) | Inr a \<Rightarrow> f a)"

lemma orPanic_Inr [simp]: "orPanic (Inr a) f = f a"
  by (simp add: orPanic_def)

lemma orReturn_Inr [simp]: "orReturn r (Inr a) f = f a"
  by (simp add: orReturn_def)

definition text_bytes :: "string \<Rightarrow> bytes" where
  "text_bytes s = map of_char s"

definition invalid_command :: "bytes \<Rightarrow> bytes" where
  "invalid_command cmd = text_bytes ''Invalid command: '' @ cmd"

definition invalid_query :: "bytes \<Rightarrow> bytes" where
  "invalid_query query = text_bytes ''Invalid query: '' @ query"

section \<open>open\<close>

text \<open>The second loop of \<open>dbMeta.init\<close> returns at an error where the first one panics.\<close>

fun mod_meta_init :: "'t lmdb \<Rightarrow> u64 \<Rightarrow> bytes list \<Rightarrow> 't \<Rightarrow> 't \<times> bool" where
  "mod_meta_init L val [] t = (t, True)"
| "mod_meta_init L val (k # ks) t =
     (case getUint64 L t DBI_meta k of
        Inr _ \<Rightarrow> mod_meta_init L val ks t
      | Inl err \<Rightarrow>
          if IsNotFound err
          then (case putUint64 L t DBI_meta k val of Inl _ \<Rightarrow> (t, False) | Inr t1 \<Rightarrow> mod_meta_init L val ks t1)
          else (t, False))"

definition mod_dbMeta_init :: "'t lmdb \<Rightarrow> 't \<Rightarrow> ('t \<times> u64) result" where
  "mod_dbMeta_init L t =
     orPanic (mdb_OpenDBI L t DBI_meta) (\<lambda>t1.
     orPanic (meta_init L 0 [metaKeyEpoch, metaKeyIndex, metaKeyLeaseID, metaKeyRevisionCompacted, metaKeyTerm] t1) (\<lambda>t2.
     let (t3, ok) = mod_meta_init L 1 [metaKeyRevision, metaKeyRevisionMin] t2 in
     if ok then orPanic (getIndex L t3) (\<lambda>index. Inr (t3, index)) else Inr (t3, 0)))"

definition mod_open :: "'t lmdb \<Rightarrow> 't \<Rightarrow> ('t \<times> u64) result" where
  "mod_open L t =
     bindE (mod_dbMeta_init L t) (\<lambda>(t1, index).
     orPanic (mdb_OpenDBI L t1 DBI_stats) (\<lambda>t2.
     orPanic (mdb_OpenDBI L t2 DBI_revision) (\<lambda>t3.
     orPanic (mdb_OpenDBI L t3 DBI_event) (\<lambda>t4.
     orPanic (mdb_OpenDBI L t4 DBI_value) (\<lambda>t5.
     orPanic (mdb_OpenDBI L t5 DBI_lease) (\<lambda>t6.
     orPanic (mdb_OpenDBI L t6 DBI_lease_exp) (\<lambda>t7.
     orPanic (mdb_OpenDBI L t7 DBI_lease_key) (\<lambda>t8. Inr (t8, index)))))))))"

section \<open>update\<close>

text \<open>The variables a command works on. \<open>x_queue\<close>: the revisions queued for the watches, with the keys they changed.\<close>

record 't mtx =
  x_txn :: 't
  x_epoch :: u64
  x_newRev :: u64
  x_queue :: "(u64 \<times> bytes list) list"

type_synonym 't reply = "'t mtx \<times> u64 \<times> bytes"

text \<open>\<open>if len(affected) > 0 { newRev++; range_watch.Queue(newRev, affected) }\<close>\<close>

definition queueRev :: "'t mtx \<Rightarrow> bytes list \<Rightarrow> 't mtx" where
  "queueRev x affected =
     (if 0 < length affected
      then x\<lparr>x_newRev := x_newRev x + 1, x_queue := x_queue x @ [(x_newRev x + 1, affected)]\<rparr> else x)"

definition mod_Put :: "'x sm_env_scheme \<Rightarrow> 't lmdb \<Rightarrow> bytes \<Rightarrow> 't mtx \<Rightarrow> 't reply result" where
  "mod_Put env L cmd x =
     (case unmarshal_PutRequest env (butlast cmd) of
        None \<Rightarrow> Inr (x, 0, invalid_command cmd)
      | Some req \<Rightarrow>
          if PutRequest_IgnoreLease req \<and> PutRequest_Lease req \<noteq> 0
          then Inr (x, 0, err_Error env ErrGRPCLeaseProvided)
          else if PutRequest_IgnoreValue req \<and> length (sl (PutRequest_Value req)) \<noteq> 0
          then Inr (x, 0, err_Error env ErrGRPCValueProvided)
          else
            orReturn (\<lambda>_. (x, 0, []))
              (if PutRequest_Lease req \<noteq> 0
               then bindE (dbLease_get L (x_txn x) (PutRequest_Lease req)) (\<lambda>item. Inr (lease_id item \<noteq> 0))
               else Inr True) (\<lambda>leased.
            if \<not> leased then Inr (x, 0, err_Error env ErrGRPCLeaseNotFound)
            else
              (case cmdPut env L (x_txn x) (x_newRev x + 1) 0 (x_epoch x) req of
                 Inl err \<Rightarrow>
                   if err = ErrGRPCKeyTooLong \<or> err = ErrGRPCEmptyKey
                   then Inr (x, 0, err_Error env err)
                   else Inl (if err = NoReturn then NoReturn else GoPanic)
               | Inr (t1, res, val, affected) \<Rightarrow>
                   let x1 = queueRev (x\<lparr>x_txn := t1\<rparr>) affected in
                   orPanic (marshal env (MPut (res\<lparr>PutResponse_Header := Some (responseHeader env (x_newRev x1))\<rparr>)))
                     (\<lambda>data. Inr (x1, val, data)))))"

definition mod_DeleteRange :: "'x sm_env_scheme \<Rightarrow> 't lmdb \<Rightarrow> bytes \<Rightarrow> 't mtx \<Rightarrow> 't reply result" where
  "mod_DeleteRange env L cmd x =
     (case unmarshal_DeleteRangeRequest env (butlast cmd) of
        None \<Rightarrow> Inr (x, 0, invalid_command cmd)
      | Some req \<Rightarrow>
          orPanic (cmdDeleteRange env L (x_txn x) (x_newRev x + 1) 0 (x_epoch x) req) (\<lambda>(t1, resDel, affected).
          let x1 = queueRev (x\<lparr>x_txn := t1\<rparr>) affected in
          orPanic (marshal env (MDeleteRange (resDel\<lparr>DeleteRangeResponse_Header := Some (responseHeader env (x_newRev x1))\<rparr>)))
            (\<lambda>data. Inr (x1, 1, data))))"

text \<open>A compaction is only requested: the tick carries it out.\<close>

definition mod_Compact :: "'x sm_env_scheme \<Rightarrow> 't lmdb \<Rightarrow> bytes \<Rightarrow> 't mtx \<Rightarrow> 't reply result" where
  "mod_Compact env L cmd x =
     (case unmarshal_CompactionRequest env (butlast cmd) of
        None \<Rightarrow> Inr (x, 0, invalid_command cmd)
      | Some req \<Rightarrow>
          orReturn (\<lambda>e. (x, 0, err_Error env e))
            (marshal env (MCompaction \<lparr>CompactionResponse_Header = Some (responseHeader env (x_newRev x))\<rparr>)) (\<lambda>data.
          orReturn (\<lambda>e. (x, 0, err_Error env e))
            (setRevisionMin L (x_txn x) (CompactionRequest_Revision req)) (\<lambda>t1.
          Inr (x\<lparr>x_txn := t1\<rparr>, 1, data))))"

text \<open>The revision is advanced and queued before the error of the operations is looked at.\<close>

definition mod_Txn :: "'x sm_env_scheme \<Rightarrow> 't lmdb \<Rightarrow> bytes \<Rightarrow> 't mtx \<Rightarrow> 't reply result" where
  "mod_Txn env L cmd x =
     (case unmarshal_TxnRequest env (butlast cmd) of
        None \<Rightarrow> Inr (x, 0, invalid_command cmd)
      | Some req \<Rightarrow>
          orReturn (\<lambda>_. (x, 0, [])) (txnCompare env L (x_txn x) (TxnRequest_Compare req)) (\<lambda>success.
          let (t1, responses, affected, err) =
                txnOps env L (x_txn x) (x_newRev x + 1) (x_epoch x)
                  (if success then TxnRequest_Success req else TxnRequest_Failure req);
              x1 = queueRev (x\<lparr>x_txn := t1\<rparr>) affected in
          case err of
            Some e \<Rightarrow>
              if e = ErrGRPCDuplicateKey \<or> e = ErrGRPCKeyTooLong \<or> e = ErrGRPCEmptyKey
              then Inr (x1, 0, err_Error env e)
              else if stuck e then Inl e else Inr (x1, 0, [])
          | None \<Rightarrow>
              orPanic (marshal env (MTxn \<lparr>TxnResponse_Header = Some (responseHeader env (x_newRev x1)),
                         TxnResponse_Succeeded = success, TxnResponse_Responses = responses\<rparr>))
                (\<lambda>data. Inr (x1, 1, data))))"

definition mod_LeaseGrant :: "'x sm_env_scheme \<Rightarrow> 't lmdb \<Rightarrow> bytes \<Rightarrow> 't mtx \<Rightarrow> 't reply result" where
  "mod_LeaseGrant env L cmd x =
     (case unmarshal_LeaseGrantRequest env (butlast cmd) of
        None \<Rightarrow> Inr (x, 0, invalid_command cmd)
      | Some req \<Rightarrow>
          orPanic (cmdLeaseGrant L (x_txn x) (x_epoch x) req) (\<lambda>(t1, res, val).
          orPanic (marshal env (MLeaseGrant (res\<lparr>LeaseGrantResponse_Header := Some (responseHeader env (x_newRev x))\<rparr>)))
            (\<lambda>data. Inr (x\<lparr>x_txn := t1\<rparr>, val, data))))"

definition mod_LeaseRevoke :: "'x sm_env_scheme \<Rightarrow> 't lmdb \<Rightarrow> bytes \<Rightarrow> 't mtx \<Rightarrow> 't reply result" where
  "mod_LeaseRevoke env L cmd x =
     (case unmarshal_LeaseRevokeRequest env (butlast cmd) of
        None \<Rightarrow> Inr (x, 0, invalid_command cmd)
      | Some req \<Rightarrow>
          orPanic (cmdLeaseRevoke L (x_txn x) (x_newRev x + 1) (x_epoch x) (LeaseRevokeRequest_ID req)) (\<lambda>(t1, affected, val).
          let x1 = queueRev (x\<lparr>x_txn := t1\<rparr>) affected in
          orPanic (marshal env (MLeaseRevoke \<lparr>LeaseRevokeResponse_Header = Some (responseHeader env (x_newRev x1))\<rparr>))
            (\<lambda>data. Inr (x1, val, data))))"

definition mod_LeaseKeepAlive :: "'x sm_env_scheme \<Rightarrow> 't lmdb \<Rightarrow> bytes \<Rightarrow> 't mtx \<Rightarrow> 't reply result" where
  "mod_LeaseKeepAlive env L cmd x =
     (case unmarshal_LeaseKeepAliveRequest env (butlast cmd) of
        None \<Rightarrow> Inr (x, 0, invalid_command cmd)
      | Some req \<Rightarrow>
          orPanic (cmdLeaseKeepAlive L (x_txn x) (x_epoch x) req) (\<lambda>(t1, res, val).
          orPanic (marshal env (MLeaseKeepAlive (res\<lparr>LeaseKeepAliveResponse_Header := Some (responseHeader env (x_newRev x))\<rparr>)))
            (\<lambda>data. Inr (x\<lparr>x_txn := t1\<rparr>, val, data))))"

definition mod_LeaseKeepAliveBatch :: "'x sm_env_scheme \<Rightarrow> 't lmdb \<Rightarrow> bytes \<Rightarrow> 't mtx \<Rightarrow> 't reply result" where
  "mod_LeaseKeepAliveBatch env L cmd x =
     (case unmarshal_LeaseKeepAliveBatchRequest env (butlast cmd) of
        None \<Rightarrow> Inr (x, 0, invalid_command cmd)
      | Some req \<Rightarrow>
          orPanic (cmdLeaseKeepAliveBatch L (x_txn x) (x_epoch x) req) (\<lambda>(t1, res, val).
          orPanic (marshal env (MLeaseKeepAliveBatch
                    (res\<lparr>LeaseKeepAliveBatchResponse_Header := Some (responseHeader env (x_newRev x))\<rparr>)))
            (\<lambda>data. Inr (x\<lparr>x_txn := t1\<rparr>, val, data))))"

text \<open>The body of the loop over the leases that are due.\<close>

definition mod_expire :: "'t lmdb \<Rightarrow> u64 \<Rightarrow> u64 \<Rightarrow> 't \<times> 't mtx \<Rightarrow> ('t \<times> 't mtx) result" where
  "mod_expire L epoch lid st =
     (let (t, x) = st in
      orPanic (cmdLeaseRevoke L t (x_newRev x + 1) epoch lid) (\<lambda>(t1, affected, _).
      Inr (t1, queueRev x affected)))"

text \<open>The compaction at the end of a tick. Its errors are answered, and what it has done so far stays.\<close>

definition mod_tick_compact :: "'x sm_env_scheme \<Rightarrow> 't lmdb \<Rightarrow> u64 \<Rightarrow> 't mtx \<Rightarrow> 't reply result" where
  "mod_tick_compact env L index x =
     orReturn (\<lambda>e. (x, 0, err_Error env e)) (getRevisionMin L (x_txn x)) (\<lambda>mn.
     case mod_compact L (x_txn x) mn of
       Inl (t1, e) \<Rightarrow> if stuck e then Inl e else Inr (x\<lparr>x_txn := t1\<rparr>, 0, err_Error env e)
     | Inr (t1, rv) \<Rightarrow>
         orReturn (\<lambda>e. (x\<lparr>x_txn := t1\<rparr>, 0, err_Error env e)) (setRevisionCompacted L t1 rv) (\<lambda>t2.
         orPanic (marshal env (MTick (x_epoch x))) (\<lambda>data.
         Inr (x\<lparr>x_txn := t2\<rparr>, index, data))))"

definition mod_Tick :: "'x sm_env_scheme \<Rightarrow> 't lmdb \<Rightarrow> u64 \<Rightarrow> bytes \<Rightarrow> 't mtx \<Rightarrow> 't reply result" where
  "mod_Tick env L index cmd x =
     (case unmarshal_TickRequest env (butlast cmd) of
        None \<Rightarrow> Inr (x, 0, invalid_command cmd)
      | Some req \<Rightarrow>
          orPanic (getTerm L (x_txn x)) (\<lambda>term.
          if term > TickRequest_Term req
          then Inr (x, 0, err_Error env ErrTermExpired)
          else
            let epoch = x_epoch x + 1 in
            orPanic (setEpoch L (x_txn x) epoch) (\<lambda>t1.
            bindE (dbLeaseExp_scan L epoch (mod_expire L epoch) (t1, x\<lparr>x_epoch := epoch\<rparr>)) (\<lambda>(t2, x2).
            mod_tick_compact env L index (x2\<lparr>x_txn := t2\<rparr>)))))"

definition mod_Term :: "'x sm_env_scheme \<Rightarrow> 't lmdb \<Rightarrow> u64 \<Rightarrow> bytes \<Rightarrow> 't mtx \<Rightarrow> 't reply result" where
  "mod_Term env L index cmd x =
     (case unmarshal_TermRequest env (butlast cmd) of
        None \<Rightarrow> Inr (x, 0, invalid_command cmd)
      | Some req \<Rightarrow>
          orPanic (getTerm L (x_txn x)) (\<lambda>term.
          if term > TermRequest_Term req
          then Inr (x, 0, err_Error env ErrTermExpired)
          else
            orPanic (setTerm L (x_txn x) (TermRequest_Term req)) (\<lambda>t1.
            orPanic (marshal env MTerm) (\<lambda>data. Inr (x\<lparr>x_txn := t1\<rparr>, index, data)))))"

definition mod_command :: "'x sm_env_scheme \<Rightarrow> 't lmdb \<Rightarrow> u64 \<Rightarrow> bytes \<Rightarrow> 't mtx \<Rightarrow> 't reply result" where
  "mod_command env L index cmd x =
     (if cmd = [] then Inl GoPanic else
      let c = last cmd in
      if c = MOD_CMD_KV_PUT then mod_Put env L cmd x
      else if c = MOD_CMD_KV_DELETE_RANGE then mod_DeleteRange env L cmd x
      else if c = MOD_CMD_KV_COMPACT then mod_Compact env L cmd x
      else if c = MOD_CMD_KV_TXN then mod_Txn env L cmd x
      else if c = MOD_CMD_LEASE_GRANT then mod_LeaseGrant env L cmd x
      else if c = MOD_CMD_LEASE_REVOKE then mod_LeaseRevoke env L cmd x
      else if c = MOD_CMD_LEASE_KEEP_ALIVE then mod_LeaseKeepAlive env L cmd x
      else if c = MOD_CMD_LEASE_KEEP_ALIVE_BATCH then mod_LeaseKeepAliveBatch env L cmd x
      else if c = MOD_CMD_INTERNAL_TICK then mod_Tick env L index cmd x
      else if c = MOD_CMD_INTERNAL_TERM then mod_Term env L index cmd x
      else Inr (x, 0, []))"

text \<open>The global variables, the committed state and what the host has been told to deliver.\<close>

record 't mstate =
  m_db :: 't
  m_txn :: "'t option"
  m_epoch :: u64
  m_newIndex :: u64
  m_newRev :: u64
  m_oldRev :: u64
  m_queue :: "(u64 \<times> bytes list) list"
  m_flushed :: "(u64 \<times> bytes list) list"

text \<open>The first entry of a batch begins the transaction.\<close>

definition mod_begin :: "'t lmdb \<Rightarrow> 't mstate \<Rightarrow> ('t \<times> 't mstate) result" where
  "mod_begin L s =
     (case m_txn s of
        Some t \<Rightarrow> Inr (t, s)
      | None \<Rightarrow>
          orPanic (getEpoch L (m_db s)) (\<lambda>epoch.
          orPanic (getRevision L (m_db s)) (\<lambda>rv.
          Inr (m_db s, s\<lparr>m_txn := Some (m_db s), m_epoch := epoch, m_newRev := rv, m_oldRev := rv\<rparr>))))"

definition mod_update :: "'x sm_env_scheme \<Rightarrow> 't lmdb \<Rightarrow> u64 \<Rightarrow> bytes \<Rightarrow> 't mstate \<Rightarrow> ('t mstate \<times> u64 \<times> bytes) result" where
  "mod_update env L index cmd s =
     bindE (mod_begin L (s\<lparr>m_newIndex := index\<rparr>)) (\<lambda>(t, s1).
     bindE (mod_command env L index cmd \<lparr>x_txn = t, x_epoch = m_epoch s1, x_newRev = m_newRev s1, x_queue = m_queue s1\<rparr>)
       (\<lambda>(x, val, data).
     Inr (s1\<lparr>m_txn := Some (x_txn x), m_epoch := x_epoch x, m_newRev := x_newRev x, m_queue := x_queue x\<rparr>, val, data)))"

definition mod_finish :: "'t lmdb \<Rightarrow> 't mstate \<Rightarrow> 't mstate result" where
  "mod_finish L s =
     (case m_txn s of
        None \<Rightarrow> Inl GoPanic
      | Some t \<Rightarrow>
          orPanic (setIndex L t (m_newIndex s)) (\<lambda>t1.
          orPanic (if m_newRev s > m_oldRev s then setRevision L t1 (m_newRev s) else Inr t1) (\<lambda>t2.
          Inr (s\<lparr>m_db := t2, m_txn := None, m_flushed := m_flushed s @ m_queue s, m_queue := []\<rparr>))))"

text \<open>A batch of the host: the entries, then \<open>finish\<close>.\<close>

fun mod_updates :: "'x sm_env_scheme \<Rightarrow> 't lmdb \<Rightarrow> (u64 \<times> bytes) list \<Rightarrow> 't mstate \<Rightarrow> ('t mstate \<times> (u64 \<times> bytes) list) result" where
  "mod_updates env L [] s = Inr (s, [])"
| "mod_updates env L ((index, cmd) # ents) s =
     bindE (mod_update env L index cmd s) (\<lambda>(s1, r).
     bindE (mod_updates env L ents s1) (\<lambda>(s2, rs). Inr (s2, r # rs)))"

definition mod_batch :: "'x sm_env_scheme \<Rightarrow> 't lmdb \<Rightarrow> (u64 \<times> bytes) list \<Rightarrow> 't mstate \<Rightarrow> ('t mstate \<times> (u64 \<times> bytes) list) result" where
  "mod_batch env L ents s =
     bindE (mod_updates env L ents s) (\<lambda>(s1, rs). bindE (mod_finish L s1) (\<lambda>s2. Inr (s2, rs)))"

section \<open>read\<close>

text \<open>The answer to a query from the marshalled response.\<close>

definition mod_reply :: "'x sm_env_scheme \<Rightarrow> message \<Rightarrow> (u64 \<times> bytes) result" where
  "mod_reply env m = orReturn (\<lambda>e. (0, err_Error env e)) (marshal env m) (\<lambda>data. Inr (1, data))"

definition mod_read_Range :: "'x sm_env_scheme \<Rightarrow> 't lmdb \<Rightarrow> 't \<Rightarrow> bytes \<Rightarrow> (u64 \<times> bytes) result" where
  "mod_read_Range env L t query =
     (case unmarshal_RangeRequest env (butlast query) of
        None \<Rightarrow> Inr (0, invalid_query query)
      | Some req \<Rightarrow>
          orReturn (\<lambda>e. (0, err_Error env e)) (bindE (getRevision L t) (\<lambda>rv. queryRange env L t rv req)) (\<lambda>resp.
          mod_reply env (MRange resp)))"

definition mod_read_LeaseLeases :: "'x sm_env_scheme \<Rightarrow> 't lmdb \<Rightarrow> 't \<Rightarrow> bytes \<Rightarrow> (u64 \<times> bytes) result" where
  "mod_read_LeaseLeases env L t query =
     (case unmarshal_LeaseLeasesRequest env (butlast query) of
        None \<Rightarrow> Inr (0, invalid_query query)
      | Some _ \<Rightarrow>
          orReturn (\<lambda>e. (0, err_Error env e))
            (bindE (getRevision L t) (\<lambda>rv. bindE (queryLeaseLeases L t) (\<lambda>resp. Inr (rv, resp)))) (\<lambda>(rv, resp).
          mod_reply env (MLeaseLeases (resp\<lparr>LeaseLeasesResponse_Header := Some (responseHeader env rv)\<rparr>))))"

definition mod_read_LeaseTimeToLive :: "'x sm_env_scheme \<Rightarrow> 't lmdb \<Rightarrow> 't \<Rightarrow> bytes \<Rightarrow> (u64 \<times> bytes) result" where
  "mod_read_LeaseTimeToLive env L t query =
     (case unmarshal_LeaseTimeToLiveRequest env (butlast query) of
        None \<Rightarrow> Inr (0, invalid_query query)
      | Some req \<Rightarrow>
          orReturn (\<lambda>e. (0, err_Error env e))
            (bindE (getRevision L t) (\<lambda>rv. bindE (queryLeaseTimeToLive L t req) (\<lambda>resp. Inr (rv, resp)))) (\<lambda>(rv, resp).
          mod_reply env (MLeaseTimeToLive (resp\<lparr>LeaseTimeToLiveResponse_Header := Some (responseHeader env rv)\<rparr>))))"

text \<open>\<open>watchProgress\<close> is an atomic the watches store: the last revision they have been told of. The header query drops
  the error of the read.\<close>

definition mod_read :: "'x sm_env_scheme \<Rightarrow> 't lmdb \<Rightarrow> u64 \<Rightarrow> 't \<Rightarrow> bytes \<Rightarrow> (u64 \<times> bytes) result" where
  "mod_read env L watchProgress t query =
     (if query = [] then Inl GoPanic else
      let q = last query in
      if q = MOD_QUERY_KV_RANGE then mod_read_Range env L t query
      else if q = MOD_QUERY_LEASE_LEASES then mod_read_LeaseLeases env L t query
      else if q = MOD_QUERY_LEASE_TIME_TO_LIVE then mod_read_LeaseTimeToLive env L t query
      else if q = MOD_QUERY_WATCH_PROGRESS then mod_reply env (MHeader (responseHeader env watchProgress))
      else if q = MOD_QUERY_HEADER then
        (case getRevision L t of
           Inl GoPanic \<Rightarrow> Inl GoPanic
         | Inl _ \<Rightarrow> mod_reply env (MHeader (responseHeader env 0))
         | Inr rv \<Rightarrow> mod_reply env (MHeader (responseHeader env rv)))
      else Inr (0, []))"

section \<open>The native machine as the specification\<close>

text \<open>The entry of the native machine for a command of the module.\<close>

definition native_number :: "byte \<Rightarrow> byte" where
  "native_number c =
     (if c = MOD_CMD_KV_PUT then CMD_KV_PUT
      else if c = MOD_CMD_KV_DELETE_RANGE then CMD_KV_DELETE_RANGE
      else if c = MOD_CMD_KV_COMPACT then CMD_KV_COMPACT
      else if c = MOD_CMD_KV_TXN then CMD_KV_TXN
      else if c = MOD_CMD_LEASE_GRANT then CMD_LEASE_GRANT
      else if c = MOD_CMD_LEASE_REVOKE then CMD_LEASE_REVOKE
      else if c = MOD_CMD_LEASE_KEEP_ALIVE then CMD_LEASE_KEEP_ALIVE
      else if c = MOD_CMD_LEASE_KEEP_ALIVE_BATCH then CMD_LEASE_KEEP_ALIVE_BATCH
      else if c = MOD_CMD_INTERNAL_TICK then CMD_INTERNAL_TICK
      else if c = MOD_CMD_INTERNAL_TERM then CMD_INTERNAL_TERM
      else c)"

definition entry_of :: "u64 \<Rightarrow> bytes \<Rightarrow> Entry" where
  "entry_of index cmd = \<lparr>Entry_Index = index, Entry_Cmd = butlast cmd @ [native_number (last cmd)], Result_Value = 0, Result_Data = []\<rparr>"

definition sim :: "'t mtx \<Rightarrow> 't upd \<Rightarrow> bool" where
  "sim x u \<longleftrightarrow> x_txn x = u_txn u \<and> x_epoch x = u_epoch u \<and> x_newRev x = u_newRev u"

lemma queueRev_simps [simp]:
  "x_txn (queueRev x ks) = x_txn x" "x_epoch (queueRev x ks) = x_epoch x" "x_newRev (queueRev x ks) = bumpRev (x_newRev x) ks"
  by (simp_all add: queueRev_def bumpRev_def)

text \<open>What the module answers when the native machine has applied an entry: the same state, and the same result as soon
  as the command can be decoded.\<close>

definition agrees :: "'t upd \<times> Entry \<Rightarrow> bool \<Rightarrow> 't reply result \<Rightarrow> bool" where
  "agrees r decodes m \<longleftrightarrow> (\<exists>x v d. m = Inr (x, v, d) \<and> sim x (fst r) \<and> (decodes \<longrightarrow> v = Result_Value (snd r) \<and> d = Result_Data (snd r)))"

lemma entry_of_simps [simp]:
  "cmd_body (entry_of index cmd) = butlast cmd" "Result_Value (entry_of index cmd) = 0" "Result_Data (entry_of index cmd) = []"
  "Entry_Index (entry_of index cmd) = index" "last (Entry_Cmd (entry_of index cmd)) = native_number (last cmd)" "Entry_Cmd (entry_of index cmd) \<noteq> []"
  by (simp_all add: entry_of_def cmd_body_def)

lemma put_agrees:
  assumes "update_Put env L u (entry_of index cmd) = Inr r" "sim x u"
  shows "agrees r (unmarshal_PutRequest env (butlast cmd) \<noteq> None) (mod_Put env L cmd x)"
proof (cases "unmarshal_PutRequest env (butlast cmd)")
  case (Some req)
  let ?lease = "if PutRequest_Lease req \<noteq> 0 then bindE (dbLease_get L (u_txn u) (PutRequest_Lease req)) (\<lambda>item. Inr (lease_id item \<noteq> 0)) else Inr True"
  show ?thesis
  proof (cases "?lease")
    case (Inr leased)
    show ?thesis
    proof (cases "cmdPut env L (u_txn u) (u_newRev u + 1) 0 (u_epoch u) req")
      case (Inl e)
      then show ?thesis using assms Some Inr by (auto simp: update_Put_def mod_Put_def agrees_def sim_def split: if_splits)
    next
      case put: (Inr p)
      obtain t1 res val ks where p: "p = (t1, res, val, ks)" by (metis prod_cases4)
      show ?thesis using assms Some Inr put p
        by (auto simp: update_Put_def mod_Put_def agrees_def sim_def Let_def elim!: bindE_InrE split: if_splits)
    qed
  qed (use assms Some in \<open>auto simp: update_Put_def mod_Put_def agrees_def sim_def split: if_splits\<close>)
qed (use assms in \<open>auto simp: update_Put_def mod_Put_def agrees_def\<close>)

lemma delete_agrees:
  assumes "update_DeleteRange env L u (entry_of index cmd) = Inr r" "sim x u"
  shows "agrees r (unmarshal_DeleteRangeRequest env (butlast cmd) \<noteq> None) (mod_DeleteRange env L cmd x)"
  using assms by (auto simp: update_DeleteRange_def mod_DeleteRange_def agrees_def sim_def Let_def elim!: bindE_InrE split: option.splits)

lemma grant_agrees:
  assumes "update_LeaseGrant env L u (entry_of index cmd) = Inr r" "sim x u"
  shows "agrees r (unmarshal_LeaseGrantRequest env (butlast cmd) \<noteq> None) (mod_LeaseGrant env L cmd x)"
  using assms by (auto simp: update_LeaseGrant_def mod_LeaseGrant_def agrees_def sim_def Let_def elim!: bindE_InrE split: option.splits)

lemma revoke_agrees:
  assumes "update_LeaseRevoke env L u (entry_of index cmd) = Inr r" "sim x u"
  shows "agrees r (unmarshal_LeaseRevokeRequest env (butlast cmd) \<noteq> None) (mod_LeaseRevoke env L cmd x)"
  using assms by (auto simp: update_LeaseRevoke_def mod_LeaseRevoke_def agrees_def sim_def Let_def elim!: bindE_InrE split: option.splits)

lemma keepalive_agrees:
  assumes "update_LeaseKeepAlive env L u (entry_of index cmd) = Inr r" "sim x u"
  shows "agrees r (unmarshal_LeaseKeepAliveRequest env (butlast cmd) \<noteq> None) (mod_LeaseKeepAlive env L cmd x)"
  using assms by (auto simp: update_LeaseKeepAlive_def mod_LeaseKeepAlive_def agrees_def sim_def Let_def elim!: bindE_InrE split: option.splits)

lemma keepalive_batch_agrees:
  assumes "update_LeaseKeepAliveBatch env L u (entry_of index cmd) = Inr r" "sim x u"
  shows "agrees r (unmarshal_LeaseKeepAliveBatchRequest env (butlast cmd) \<noteq> None) (mod_LeaseKeepAliveBatch env L cmd x)"
  using assms by (auto simp: update_LeaseKeepAliveBatch_def mod_LeaseKeepAliveBatch_def agrees_def sim_def Let_def elim!: bindE_InrE split: option.splits)

lemma term_agrees:
  assumes "update_Term env L u (entry_of index cmd) = Inr r" "sim x u"
  shows "agrees r (unmarshal_TermRequest env (butlast cmd) \<noteq> None) (mod_Term env L index cmd x)"
  using assms by (auto simp: update_Term_def mod_Term_def agrees_def sim_def Let_def elim!: bindE_InrE split: option.splits if_splits)

lemma txn_agrees:
  assumes "update_Txn env L u (entry_of index cmd) = Inr r" "sim x u" "\<And>m. \<exists>d. marshal env m = Inr d"
  shows "agrees r (unmarshal_TxnRequest env (butlast cmd) \<noteq> None) (mod_Txn env L cmd x)"
proof (cases "unmarshal_TxnRequest env (butlast cmd)")
  case (Some req)
  with assms(1) obtain success where c: "txnCompare env L (u_txn u) (TxnRequest_Compare req) = Inr success"
    by (auto simp: update_Txn_def elim!: bindE_InrE)
  obtain t1 res ks err where o: "txnOps env L (u_txn u) (u_newRev u + 1) (u_epoch u)
      (if success then TxnRequest_Success req else TxnRequest_Failure req) = (t1, res, ks, err)" by (metis prod_cases4)
  show ?thesis
  proof (cases err)
    case None
    obtain d where "marshal env (MTxn \<lparr>TxnResponse_Header = Some (responseHeader env (bumpRev (u_newRev u) ks)),
        TxnResponse_Succeeded = success, TxnResponse_Responses = res\<rparr>) = Inr d" using assms(3) by blast
    then show ?thesis using assms(1,2) Some c o None by (auto simp: update_Txn_def mod_Txn_def agrees_def sim_def Let_def)
  next
    case (Some e)
    then show ?thesis using assms(1,2) \<open>unmarshal_TxnRequest env (butlast cmd) = Some req\<close> c o
      by (auto simp: update_Txn_def mod_Txn_def agrees_def sim_def Let_def split: if_splits)
  qed
qed (use assms in \<open>auto simp: update_Txn_def mod_Txn_def agrees_def\<close>)

definition cmd_decodes :: "'x sm_env_scheme \<Rightarrow> bytes \<Rightarrow> bool" where
  "cmd_decodes env cmd =
     (let c = last cmd; b = butlast cmd in
      if c = MOD_CMD_KV_PUT then unmarshal_PutRequest env b \<noteq> None
      else if c = MOD_CMD_KV_DELETE_RANGE then unmarshal_DeleteRangeRequest env b \<noteq> None
      else if c = MOD_CMD_KV_COMPACT then unmarshal_CompactionRequest env b \<noteq> None
      else if c = MOD_CMD_KV_TXN then unmarshal_TxnRequest env b \<noteq> None
      else if c = MOD_CMD_LEASE_GRANT then unmarshal_LeaseGrantRequest env b \<noteq> None
      else if c = MOD_CMD_LEASE_REVOKE then unmarshal_LeaseRevokeRequest env b \<noteq> None
      else if c = MOD_CMD_LEASE_KEEP_ALIVE then unmarshal_LeaseKeepAliveRequest env b \<noteq> None
      else if c = MOD_CMD_LEASE_KEEP_ALIVE_BATCH then unmarshal_LeaseKeepAliveBatchRequest env b \<noteq> None
      else if c = MOD_CMD_INTERNAL_TICK then unmarshal_TickRequest env b \<noteq> None
      else if c = MOD_CMD_INTERNAL_TERM then unmarshal_TermRequest env b \<noteq> None
      else True)"

lemma command_agrees:
  assumes run: "update_entry env L u (entry_of index cmd) = Inr r" and sim: "sim x u" and m: "\<And>m. \<exists>d. marshal env m = Inr d"
    and cmd: "cmd \<noteq> []" "last cmd \<noteq> MOD_CMD_KV_COMPACT" "last cmd \<noteq> MOD_CMD_INTERNAL_TICK"
  shows "agrees r (cmd_decodes env cmd) (mod_command env L index cmd x)"
proof -
  let ?c = "last cmd"
  consider "?c = MOD_CMD_KV_PUT" | "?c = MOD_CMD_KV_DELETE_RANGE" | "?c = MOD_CMD_KV_TXN" | "?c = MOD_CMD_LEASE_GRANT" | "?c = MOD_CMD_LEASE_REVOKE"
    | "?c = MOD_CMD_LEASE_KEEP_ALIVE" | "?c = MOD_CMD_LEASE_KEEP_ALIVE_BATCH" | "?c = MOD_CMD_INTERNAL_TERM"
    | "?c \<notin> {MOD_CMD_KV_PUT, MOD_CMD_KV_DELETE_RANGE, MOD_CMD_KV_TXN, MOD_CMD_LEASE_GRANT, MOD_CMD_LEASE_REVOKE,
        MOD_CMD_LEASE_KEEP_ALIVE, MOD_CMD_LEASE_KEEP_ALIVE_BATCH, MOD_CMD_INTERNAL_TERM}" by blast
  then show ?thesis
  proof cases
    case 1
    with put_agrees [OF _ sim, of env L index cmd r] run cmd(1) show ?thesis
      by (simp add: update_entry_def native_number_def mod_command_def cmd_decodes_def MOD_CMD_defs CMD_defs)
  next
    case 2
    with delete_agrees [OF _ sim, of env L index cmd r] run cmd(1) show ?thesis
      by (simp add: update_entry_def native_number_def mod_command_def cmd_decodes_def MOD_CMD_defs CMD_defs)
  next
    case 3
    with txn_agrees [OF _ sim m, of L index cmd r] run cmd(1) show ?thesis
      by (simp add: update_entry_def native_number_def mod_command_def cmd_decodes_def MOD_CMD_defs CMD_defs)
  next
    case 4
    with grant_agrees [OF _ sim, of env L index cmd r] run cmd(1) show ?thesis
      by (simp add: update_entry_def native_number_def mod_command_def cmd_decodes_def MOD_CMD_defs CMD_defs)
  next
    case 5
    with revoke_agrees [OF _ sim, of env L index cmd r] run cmd(1) show ?thesis
      by (simp add: update_entry_def native_number_def mod_command_def cmd_decodes_def MOD_CMD_defs CMD_defs)
  next
    case 6
    with keepalive_agrees [OF _ sim, of env L index cmd r] run cmd(1) show ?thesis
      by (simp add: update_entry_def native_number_def mod_command_def cmd_decodes_def MOD_CMD_defs CMD_defs)
  next
    case 7
    with keepalive_batch_agrees [OF _ sim, of env L index cmd r] run cmd(1) show ?thesis
      by (simp add: update_entry_def native_number_def mod_command_def cmd_decodes_def MOD_CMD_defs CMD_defs)
  next
    case 8
    with term_agrees [OF _ sim, of env L index cmd r] run cmd(1) show ?thesis
      by (simp add: update_entry_def native_number_def mod_command_def cmd_decodes_def MOD_CMD_defs CMD_defs)
  next
    case 9
    have "native_number ?c = ?c" "mod_command env L index cmd x = Inr (x, 0, [])"
      using 9 cmd by (simp_all add: native_number_def mod_command_def)
    moreover have "?c \<notin> {0, 1, 2, 3, 4, 5, 6, 7, 8, 9}" using 9 cmd(2,3) by (simp add: MOD_CMD_defs)
    ultimately show ?thesis using run sim by (auto simp: update_entry_def CMD_defs agrees_def)
  qed
qed

section \<open>The tick\<close>

text \<open>A loop over the expiry entries with another state that follows the first one step by step.\<close>

lemma exp_scan_loop_sim:
  assumes step: "\<And>lid s s' r. R s s' \<Longrightarrow> yield lid s = Inr r \<Longrightarrow> \<exists>r'. yield' lid s' = Inr r' \<and> R r r'"
    and fst: "\<And>s s'. R s s' \<Longrightarrow> fst s = fst s'"
  shows "R s s' \<Longrightarrow> dbLeaseExp_scan_loop L n e yield cur s = Inr r \<Longrightarrow> \<exists>r'. dbLeaseExp_scan_loop L n e yield' cur s' = Inr r' \<and> R r r'"
proof (induction n arbitrary: cur s s')
  case (Suc n)
  show ?case
  proof (cases cur)
    case (Inr p)
    obtain k v where p: "p = (k, v)" by (rule prod.exhaust)
    obtain lid m where u: "Uvarint (drop 8 k) = (lid, m)" by (rule prod.exhaust)
    show ?thesis
    proof (cases "trimChecksum k v")
      case (Inr w)
      show ?thesis
      proof (cases "length k < 9 \<or> Uint64 (take 8 k) > e")
        case False
        with Suc.prems(2) obtain s1 where s1: "yield lid s = Inr s1"
          "dbLeaseExp_scan_loop L n e yield (cur_Next L (fst s1) DBI_lease_exp (Some (k, v))) s1 = Inr r"
          using \<open>cur = Inr p\<close> p u Inr by (auto simp: Let_def elim!: bindE_InrE)
        from step [OF Suc.prems(1) s1(1)] obtain s1' where s1': "yield' lid s' = Inr s1'" "R s1 s1'" by blast
        from Suc.IH [OF s1'(2) s1(2)] show ?thesis using \<open>cur = Inr p\<close> p u Inr False s1'(1) fst [OF s1'(2)] by (auto simp: Let_def)
      qed (use Suc.prems \<open>cur = Inr p\<close> p Inr in \<open>auto split: if_splits\<close>)
    qed (use Suc.prems Inr p in auto)
  qed (use Suc.prems in auto)
qed simp

definition tick_sim :: "u64 \<Rightarrow> 't \<times> u64 \<times> bytes list \<Rightarrow> 't \<times> 't mtx \<Rightarrow> bool" where
  "tick_sim e s s' \<longleftrightarrow> fst s = fst s' \<and> fst (snd s) = x_newRev (snd s') \<and> x_epoch (snd s') = e \<and> snd (snd s) = concat (map snd (x_queue (snd s')))"

lemma expire_sim:
  assumes "tick_sim e s s'" "tick_expire L ep lid s = Inr r"
  shows "\<exists>r'. mod_expire L ep lid s' = Inr r' \<and> tick_sim e r r'"
proof -
  obtain t n ks where s: "s = (t, n, ks)" by (rule prod_cases3)
  obtain t' x where s': "s' = (t', x)" by (rule prod.exhaust)
  from assms(2) s obtain t1 aff val where
    c: "cmdLeaseRevoke L t (n + 1) ep lid = Inr (t1, aff, val)" "r = (t1, bumpRev n aff, ks @ aff)" by (auto simp: tick_expire_def elim!: bindE_InrE)
  have a: "t' = t" "x_newRev x = n" "x_epoch x = e" "ks = concat (map snd (x_queue x))" using assms(1) by (auto simp: s s' tick_sim_def)
  have "concat (map snd (x_queue (queueRev x aff))) = ks @ aff" using a(4) by (simp add: queueRev_def)
  then show ?thesis using c a by (simp add: mod_expire_def s' tick_sim_def)
qed

lemma exp_scan_sim:
  assumes "tick_sim e s s'" "dbLeaseExp_scan L ep (tick_expire L ep) s = Inr r"
  shows "\<exists>r'. dbLeaseExp_scan L ep (mod_expire L ep) s' = Inr r' \<and> tick_sim e r r'"
proof -
  have f: "fst s = fst s'" using assms(1) by (simp add: tick_sim_def)
  show ?thesis
  proof (cases "mdb_OpenCursor L (fst s) DBI_lease_exp")
    case (Inr c)
    have "\<exists>r'. dbLeaseExp_scan_loop L n ep (mod_expire L ep) cur s' = Inr r' \<and> tick_sim e r r'"
      if "dbLeaseExp_scan_loop L n ep (tick_expire L ep) cur s = Inr r" for n cur
      by (rule exp_scan_loop_sim [where R = "tick_sim e", OF _ _ assms(1) that]) (erule (1) expire_sim, simp add: tick_sim_def)
    then show ?thesis using assms(2) Inr f by (simp add: dbLeaseExp_scan_def del: dbLeaseExp_scan_loop.simps)
  qed (use assms(2) in \<open>simp add: dbLeaseExp_scan_def\<close>)
qed

text \<open>A tick of the module is the native one and a compaction at the requested revision.\<close>

lemma tick_agrees:
  assumes run: "update_Tick env L u (entry_of index cmd) = Inr (u', ent')" and sim: "sim x u" and q: "concat (map snd (x_queue x)) = u_keys u"
    and req: "unmarshal_TickRequest env (butlast cmd) = Some req" "getTerm L (u_txn u) = Inr a"
  shows "if a > TickRequest_Term req then u' = u \<and> mod_Tick env L index cmd x = Inr (x, 0, err_Error env ErrTermExpired)
    else \<exists>x2. sim x2 u' \<and> concat (map snd (x_queue x2)) = u_keys u' \<and> mod_Tick env L index cmd x = mod_tick_compact env L index x2"
proof (cases "a > TickRequest_Term req")
  case False
  let ?e = "u_epoch u + 1"
  from run req False obtain t1 t2 n ks where
    t: "setEpoch L (u_txn u) ?e = Inr t1" "dbLeaseExp_scan L ?e (tick_expire L ?e) (t1, u_newRev u, u_keys u) = Inr (t2, n, ks)"
      "u' = \<lparr>u_txn = t2, u_epoch = ?e, u_newRev = n, u_keys = ks\<rparr>" by (auto simp: update_Tick_def Let_def elim!: bindE_InrE)
  have "tick_sim ?e (t1, u_newRev u, u_keys u) (t1, x\<lparr>x_epoch := ?e\<rparr>)" using sim q by (simp add: tick_sim_def sim_def)
  from exp_scan_sim [OF this t(2)] obtain t2' x2 where
    x2: "dbLeaseExp_scan L ?e (mod_expire L ?e) (t1, x\<lparr>x_epoch := ?e\<rparr>) = Inr (t2', x2)" "tick_sim ?e (t2, n, ks) (t2', x2)" by (metis surj_pair)
  have "sim (x2\<lparr>x_txn := t2'\<rparr>) u'" "concat (map snd (x_queue (x2\<lparr>x_txn := t2'\<rparr>))) = u_keys u'"
    using x2(2) t(3) by (auto simp: tick_sim_def sim_def)
  moreover have "mod_Tick env L index cmd x = mod_tick_compact env L index (x2\<lparr>x_txn := t2'\<rparr>)"
    using req sim False t(1) x2(1) by (simp add: mod_Tick_def sim_def Let_def)
  ultimately show ?thesis using False by auto
qed (use assms in \<open>auto simp: update_Tick_def mod_Tick_def sim_def\<close>)

section \<open>The invariant\<close>

definition upd_of :: "'t mtx \<Rightarrow> 't upd" where
  "upd_of x = \<lparr>u_txn = x_txn x, u_epoch = x_epoch x, u_newRev = x_newRev x, u_keys = concat (map snd (x_queue x))\<rparr>"

lemma upd_of_simps [simp]:
  "u_txn (upd_of x) = x_txn x" "u_epoch (upd_of x) = x_epoch x" "u_newRev (upd_of x) = x_newRev x"
  "u_keys (upd_of x) = concat (map snd (x_queue x))" "sim x (upd_of x)"
  by (simp_all add: upd_of_def sim_def)

lemma sim_inv: "sim x u \<Longrightarrow> upd_inv env view (upd_of x) = upd_inv env view u"
  by (simp add: sim_def upd_inv_def)

lemma sim_step: "sim x u \<Longrightarrow> u_step view u0 (upd_of x) = u_step view u0 u"
  by (simp add: sim_def u_step_def)

text \<open>What must hold of a command: what the native machine needs of its entry, except that a compaction may name any
  revision.\<close>

definition mod_entry_ok :: "'x sm_env_scheme \<Rightarrow> 't lmdb \<Rightarrow> ('t \<Rightarrow> dbi \<Rightarrow> entry list) \<Rightarrow> 't mtx \<Rightarrow> bytes \<Rightarrow> bool" where
  "mod_entry_ok env L view x cmd \<longleftrightarrow> cmd \<noteq> [] \<and> (last cmd = MOD_CMD_KV_COMPACT \<or> entry_ok env L view (upd_of x) (entry_of 0 cmd))"

definition mod_good :: "'x env_scheme \<Rightarrow> ('t \<Rightarrow> dbi \<Rightarrow> entry list) \<Rightarrow> 't mtx \<Rightarrow> 't reply result \<Rightarrow> bool" where
  "mod_good env view x res \<longleftrightarrow> (\<exists>x' v d. res = Inr (x', v, d) \<and> upd_inv env view (upd_of x') \<and> u_step view (upd_of x) (upd_of x'))"

lemma entry_ok_index: "entry_ok env L view u (entry_of i cmd) = entry_ok env L view u (entry_of j cmd)"
  by (simp add: entry_ok_def body_ok_def)

context lmdb
begin

text \<open>A compaction keeps the invariant whether it fails or not.\<close>

lemma compact_rel:
  assumes "sm_rel env view t b A"
  shows "\<exists>t' A'. (mod_compact L t mx \<in> {Inl (t', ErrChecksumMissing), Inl (t', ErrChecksumInvalid)} \<or> (\<exists>lst. mod_compact L t mx = Inr (t', lst))) \<and>
    sm_rel env view t' b A' \<and> (\<forall>key. counter view t' key = counter view t key) \<and>
    a_leases A' = a_leases A \<and> a_exps A' = a_exps A \<and> a_keys A' = a_keys A \<and> (\<forall>k. take 1 (a_hist A' k) = take 1 (a_hist A k)) \<and>
    a_events A' \<subseteq> a_events A \<and>
    (0 < mx \<longrightarrow> same_from mx (a_hist A) (a_hist A') \<and> {x \<in> a_events A. mx \<le> upper (fst x)} \<subseteq> a_events A') \<and>
    (\<forall>d. d \<notin> {DBI_revision, DBI_value, DBI_event} \<longrightarrow> view t' d = view t d)"
proof -
  note d = sm_relD [OF assms]
  from mod_compact_keeps [OF d(6,7,8), of mx] obtain t' H' E' where
    c: "mod_compact L t mx \<in> {Inl (t', ErrChecksumMissing), Inl (t', ErrChecksumInvalid)} \<or> (\<exists>lst. mod_compact L t mx = Inr (t', lst))"
      "kv_rel env view t' H'" "ev_rel view t' E'" "E' \<subseteq> a_events A" "logged H' E'" "\<forall>k. set (H' k) \<subseteq> set (a_hist A k)"
      "\<forall>k. take 1 (H' k) = take 1 (a_hist A k)"
      "0 < mx \<longrightarrow> same_from mx (a_hist A) H' \<and> {x \<in> a_events A. mx \<le> upper (fst x)} \<subseteq> E'"
      "\<forall>d. d \<notin> {DBI_revision, DBI_value, DBI_event} \<longrightarrow> view t' d = view t d" by (elim exE conjE)
  let ?A = "A\<lparr>a_hist := H', a_events := E'\<rparr>"
  have "kv_inv env view t' b H' E'" using c(2-6) kv_invD(4,5) [OF d(1)] unfolding kv_inv_def by blast
  moreover have "linked ?A" by (rule linked_compact [OF d(5) c(7)])
  ultimately have "sm_rel env view t' b ?A" using d(2-4) c(9) by (simp add: sm_rel_def lease_rel_def stored_def)
  moreover have "counter view t' key = counter view t key" for key using c(9) by (simp add: counter_def)
  ultimately show ?thesis using c(1,4,7-9) by (intro exI [of _ t'] exI [of _ ?A]) simp
qed

lemma inv_counters:
  assumes inv: "upd_inv env view (upd_of x)" and rel: "sm_rel env view t' b A" "upper b \<le> x_newRev x"
    and c: "\<forall>key. key \<noteq> metaKeyRevisionMin \<longrightarrow> key \<noteq> metaKeyRevisionCompacted \<longrightarrow> counter view t' key = counter view (x_txn x) key"
      "\<exists>v. counter view t' metaKeyRevisionMin = Inr v" "\<exists>v. counter view t' metaKeyRevisionCompacted = Inr v"
  shows "upd_inv env view (upd_of (x\<lparr>x_txn := t'\<rparr>)) \<and> u_step view (upd_of x) (upd_of (x\<lparr>x_txn := t'\<rparr>))"
proof
  have ok: "counters_ok view (x_txn x)" using inv by (simp add: upd_inv_def)
  have "\<exists>v. counter view t' key = Inr v" if "key \<in> set metaKeys" for key
    using c counters_okD [OF ok that] by (cases "key = metaKeyRevisionMin \<or> key = metaKeyRevisionCompacted") auto
  then show "upd_inv env view (upd_of (x\<lparr>x_txn := t'\<rparr>))"
    using inv rel c(1) metaKeys_distinct by (auto simp: upd_inv_def counters_ok_def)
  show "u_step view (upd_of x) (upd_of (x\<lparr>x_txn := t'\<rparr>))" by (rule u_step_same) (use ok c(1) in auto)
qed

lemma tick_compact_good:
  assumes env: "sm_env_ok env" and inv: "upd_inv env view (upd_of x)"
  shows "mod_good env view x (mod_tick_compact env L index x)"
proof -
  let ?t = "x_txn x"
  from inv obtain b A where rel: "sm_rel env view ?t b A" "upper b \<le> x_newRev x" by (auto simp: upd_inv_def)
  have ok: "counters_ok view ?t" using inv by (simp add: upd_inv_def)
  from counters_okD [OF ok, of metaKeyRevisionMin] counters_okD [OF ok, of metaKeyRevisionCompacted] obtain mn v where mn: "counter view ?t metaKeyRevisionMin = Inr mn" "counter view ?t metaKeyRevisionCompacted = Inr v"
    by (auto simp: metaKeys_def)
  have g: "getRevisionMin L ?t = Inr mn" using mn(1) by (simp add: getRevisionMin_def getUint64_counter)
  from compact_rel [OF rel(1), of mn] obtain t1 A1 where
    k: "mod_compact L ?t mn \<in> {Inl (t1, ErrChecksumMissing), Inl (t1, ErrChecksumInvalid)} \<or> (\<exists>lst. mod_compact L ?t mn = Inr (t1, lst))"
      "sm_rel env view t1 b A1" "\<forall>key. counter view t1 key = counter view ?t key" by blast
  note i1 = inv_counters [OF inv k(2) rel(2)]
  show ?thesis
  proof (cases "mod_compact L ?t mn")
    case (Inl p)
    then obtain e where "mod_compact L ?t mn = Inl (t1, e)" "\<not> stuck e" using k(1) by (auto simp: stuck_def)
    then have "mod_tick_compact env L index x = Inr (x\<lparr>x_txn := t1\<rparr>, 0, err_Error env e)" using g by (simp add: mod_tick_compact_def)
    then show ?thesis using i1 k(3) mn unfolding mod_good_def by auto
  next
    case (Inr p)
    then obtain lst where c: "mod_compact L ?t mn = Inr (t1, lst)" using k(1) by auto
    from putUint64_step [OF k(2), of metaKeyRevisionCompacted lst] obtain t2 where
      t2: "setRevisionCompacted L t1 lst = Inr t2" "sm_rel env view t2 b A1"
        "\<forall>key. counter view t2 key = (if key = metaKeyRevisionCompacted then Inr lst else counter view t1 key)" by (auto simp: setRevisionCompacted_def)
    obtain data where "marshal env (MTick (x_epoch x)) = Inr data" using env by (auto simp: sm_env_ok_def)
    then have "mod_tick_compact env L index x = Inr (x\<lparr>x_txn := t2\<rparr>, index, data)" using g c t2(1) by (simp add: mod_tick_compact_def)
    then show ?thesis using inv_counters [OF inv t2(2) rel(2)] t2(3) k(3) mn metaKeys_distinct unfolding mod_good_def by auto
  qed
qed

lemma mod_Compact_good:
  assumes env: "sm_env_ok env" and inv: "upd_inv env view (upd_of x)"
  shows "mod_good env view x (mod_Compact env L cmd x)"
proof (cases "unmarshal_CompactionRequest env (butlast cmd)")
  case None
  then have "mod_Compact env L cmd x = Inr (x, 0, invalid_command cmd)" by (simp add: mod_Compact_def)
  moreover have "u_step view (upd_of x) (upd_of x)" by (rule u_step_refl) (use inv in \<open>simp add: upd_inv_def\<close>)
  ultimately show ?thesis using inv unfolding mod_good_def by blast
next
  case (Some req)
  let ?mx = "CompactionRequest_Revision req"
  from inv obtain b A where rel: "sm_rel env view (x_txn x) b A" "upper b \<le> x_newRev x" by (auto simp: upd_inv_def)
  have ok: "counters_ok view (x_txn x)" using inv by (simp add: upd_inv_def)
  from counters_okD [OF ok, of metaKeyRevisionCompacted] obtain v where v: "counter view (x_txn x) metaKeyRevisionCompacted = Inr v" by (auto simp: metaKeys_def)
  from putUint64_step [OF rel(1), of metaKeyRevisionMin ?mx] obtain t1 where
    t1: "setRevisionMin L (x_txn x) ?mx = Inr t1" "sm_rel env view t1 b A"
      "\<forall>key. counter view t1 key = (if key = metaKeyRevisionMin then Inr ?mx else counter view (x_txn x) key)" by (auto simp: setRevisionMin_def)
  obtain data where "marshal env (MCompaction \<lparr>CompactionResponse_Header = Some (responseHeader env (x_newRev x))\<rparr>) = Inr data"
    using env by (auto simp: sm_env_ok_def)
  then have "mod_Compact env L cmd x = Inr (x\<lparr>x_txn := t1\<rparr>, 1, data)" using Some t1(1) by (simp add: mod_Compact_def)
  then show ?thesis using inv_counters [OF inv t1(2) rel(2)] t1(3) v unfolding mod_good_def by auto
qed

lemma agrees_good:
  assumes "update_entry env L (upd_of x) ent = Inr r" "good env view (upd_of x) ent (Inr r)" "agrees r dec res"
  shows "mod_good env view x res"
proof -
  from assms(3) obtain x' v d where a: "res = Inr (x', v, d)" "sim x' (fst r)" by (auto simp: agrees_def)
  from assms(2) have "upd_inv env view (fst r)" "u_step view (upd_of x) (fst r)" by (auto simp: good_def)
  then show ?thesis using a(1) sim_inv [OF a(2)] sim_step [OF a(2)] unfolding mod_good_def by blast
qed

lemma mod_command_good:
  assumes env: "sm_env_ok env" and inv: "upd_inv env view (upd_of x)" and ok: "mod_entry_ok env L view x cmd"
  shows "mod_good env view x (mod_command env L index cmd x)"
proof -
  have m: "\<exists>d. marshal env y = Inr d" for y using env by (simp add: sm_env_ok_def)
  have ne: "cmd \<noteq> []" using ok by (simp add: mod_entry_ok_def)
  have idle: "u_step view (upd_of x) (upd_of x)" by (rule u_step_refl) (use inv in \<open>simp add: upd_inv_def\<close>)
  consider "last cmd = MOD_CMD_KV_COMPACT" | "last cmd = MOD_CMD_INTERNAL_TICK" | "last cmd \<noteq> MOD_CMD_KV_COMPACT" "last cmd \<noteq> MOD_CMD_INTERNAL_TICK" by blast
  then show ?thesis
  proof cases
    case 1
    then show ?thesis using mod_Compact_good [OF env inv, of cmd] ne by (simp add: mod_command_def MOD_CMD_defs)
  next
    case 2
    then have run: "mod_command env L index cmd x = mod_Tick env L index cmd x" using ne by (simp add: mod_command_def MOD_CMD_defs)
    have e: "entry_ok env L view (upd_of x) (entry_of index cmd)" using ok 2 entry_ok_index [of env L view "upd_of x" index cmd 0] by (auto simp: mod_entry_ok_def MOD_CMD_defs)
    have u: "update_entry env L (upd_of x) (entry_of index cmd) = update_Tick env L (upd_of x) (entry_of index cmd)"
      using 2 by (simp add: update_entry_def native_number_def MOD_CMD_defs CMD_defs)
    from update_entry_good [OF env inv e] obtain u' ent' where
      g: "update_Tick env L (upd_of x) (entry_of index cmd) = Inr (u', ent')" "upd_inv env view u'" "u_step view (upd_of x) u'"
      unfolding u by (auto simp: good_def)
    show ?thesis
    proof (cases "unmarshal_TickRequest env (butlast cmd)")
      case None
      then show ?thesis using run inv idle unfolding mod_good_def by (auto simp: mod_Tick_def)
    next
      case (Some req)
      have "counters_ok view (x_txn x)" using inv by (simp add: upd_inv_def)
      from counters_okD [OF this, of metaKeyTerm] obtain a where a: "getTerm L (u_txn (upd_of x)) = Inr a"
        by (auto simp: metaKeys_def getTerm_def getUint64_counter)
      note t = tick_agrees [OF g(1) upd_of_simps(5) _ Some a]
      show ?thesis
      proof (cases "a > TickRequest_Term req")
        case True
        then show ?thesis using t run inv idle unfolding mod_good_def by auto
      next
        case False
        with t obtain x2 where x2: "sim x2 u'" "mod_Tick env L index cmd x = mod_tick_compact env L index x2" by auto
        have "upd_inv env view (upd_of x2)" using g(2) sim_inv [OF x2(1)] by blast
        from tick_compact_good [OF env this, of index] show ?thesis
          using run x2 g(3) sim_step [OF x2(1)] u_step_trans unfolding mod_good_def by metis
      qed
    qed
  next
    case 3
    then have e: "entry_ok env L view (upd_of x) (entry_of index cmd)" using ok entry_ok_index [of env L view "upd_of x" index cmd 0] by (auto simp: mod_entry_ok_def)
    note g = update_entry_good [OF env inv e]
    then obtain r where r: "update_entry env L (upd_of x) (entry_of index cmd) = Inr r" by (auto simp: good_def)
    show ?thesis by (rule agrees_good [OF r _ command_agrees [OF r upd_of_simps(5) m ne 3]]) (use g r in simp)
  qed
qed

end

section \<open>Batches\<close>

definition mtx_of :: "'t \<Rightarrow> 't mstate \<Rightarrow> 't mtx" where
  "mtx_of t s = \<lparr>x_txn = t, x_epoch = m_epoch s, x_newRev = m_newRev s, x_queue = m_queue s\<rparr>"

definition m_inv :: "'x env_scheme \<Rightarrow> ('t \<Rightarrow> dbi \<Rightarrow> entry list) \<Rightarrow> 't mstate \<Rightarrow> bool" where
  "m_inv env view s \<longleftrightarrow> sm_ok env view (m_db s) \<and>
     (case m_txn s of
        None \<Rightarrow> m_queue s = []
      | Some t \<Rightarrow> upd_inv env view (upd_of (mtx_of t s)) \<and> counter view t metaKeyRevision = Inr (m_oldRev s) \<and> m_oldRev s \<le> m_newRev s \<and>
          counter view (m_db s) metaKeyRevision = Inr (m_oldRev s))"

definition mod_cmd_ok :: "'x sm_env_scheme \<Rightarrow> 't lmdb \<Rightarrow> ('t \<Rightarrow> dbi \<Rightarrow> entry list) \<Rightarrow> 't mstate \<Rightarrow> bytes \<Rightarrow> bool" where
  "mod_cmd_ok env L view s cmd \<longleftrightarrow>
     (case mod_begin L s of Inl _ \<Rightarrow> True | Inr (t, s1) \<Rightarrow> mod_entry_ok env L view (mtx_of t s1) cmd)"

definition mod_init :: "'t \<Rightarrow> 't mstate" where
  "mod_init t = \<lparr>m_db = t, m_txn = None, m_epoch = 0, m_newIndex = 0, m_newRev = 0, m_oldRev = 0, m_queue = [], m_flushed = []\<rparr>"

text \<open>The states of the module: its entry points in the order the host calls them. A restart loses the open transaction
  and the global variables.\<close>

inductive mod_reach :: "'x sm_env_scheme \<Rightarrow> 't lmdb \<Rightarrow> ('t \<Rightarrow> dbi \<Rightarrow> entry list) \<Rightarrow> 't mstate \<Rightarrow> bool" for env L view where
  mr_open: "\<forall>d. view t0 d = [] \<Longrightarrow> mod_open L t0 = Inr (t, i) \<Longrightarrow> mod_reach env L view (mod_init t)"
| mr_restart: "mod_reach env L view s \<Longrightarrow> mod_open L (m_db s) = Inr (t, i) \<Longrightarrow> mod_reach env L view (mod_init t)"
| mr_update: "mod_reach env L view s \<Longrightarrow> mod_cmd_ok env L view s cmd \<Longrightarrow> mod_update env L index cmd s = Inr (s', v, d) \<Longrightarrow>
    mod_reach env L view s'"
| mr_finish: "mod_reach env L view s \<Longrightarrow> mod_finish L s = Inr s' \<Longrightarrow> mod_reach env L view s'"

lemma mod_meta_init_Inr: "meta_init L v ks t = Inr t' \<Longrightarrow> mod_meta_init L v ks t = (t', True)"
  by (induction ks arbitrary: t) (auto elim!: bindE_InrE split: sum.splits if_splits)

lemma mod_open_Inr: "sm_Open L t = Inr r \<Longrightarrow> mod_open L t = Inr r"
  by (auto simp: sm_Open_def newDbMeta_def newDbStats_def newDbKv_def newDbLease_def newDbLeaseExp_def newDbLeaseKey_def
      mod_open_def mod_dbMeta_init_def Let_def mod_meta_init_Inr elim!: bindE_InrE simp del: meta_init.simps mod_meta_init.simps)

lemma mod_begin_simps [simp]:
  "m_txn s = Some t \<Longrightarrow> mod_begin L s = Inr (t, s)" "mod_begin L (s\<lparr>m_newIndex := i\<rparr>) = map_sum id (\<lambda>(t, s). (t, s\<lparr>m_newIndex := i\<rparr>)) (mod_begin L s)"
  "mtx_of t (s\<lparr>m_newIndex := i\<rparr>) = mtx_of t s"
  by (auto simp: mod_begin_def orPanic_def mtx_of_def split: option.splits sum.splits)

context lmdb
begin

lemma begin_inv:
  assumes "m_inv env view s"
  shows "\<exists>t s1. mod_begin L s = Inr (t, s1) \<and> upd_inv env view (upd_of (mtx_of t s1)) \<and> counter view t metaKeyRevision = Inr (m_oldRev s1) \<and>
    m_oldRev s1 \<le> m_newRev s1 \<and> counter view (m_db s) metaKeyRevision = Inr (m_oldRev s1) \<and> m_db s1 = m_db s \<and> m_flushed s1 = m_flushed s \<and> m_queue s1 = m_queue s \<and> m_newIndex s1 = m_newIndex s"
proof (cases "m_txn s")
  case None
  have ok: "sm_ok env view (m_db s)" using assms by (simp add: m_inv_def)
  then obtain n b A where n: "counters_ok view (m_db s)" "counter view (m_db s) metaKeyRevision = Inr n" "sm_rel env view (m_db s) b A" "upper b \<le> n"
    by (auto simp: sm_ok_def)
  from counters_okD [OF n(1), of metaKeyEpoch] obtain e where e: "counter view (m_db s) metaKeyEpoch = Inr e" by (auto simp: metaKeys_def)
  have g: "getEpoch L (m_db s) = Inr e" "getRevision L (m_db s) = Inr n" using e n(2) by (simp_all add: getEpoch_def getRevision_def getUint64_counter)
  let ?s = "s\<lparr>m_txn := Some (m_db s), m_epoch := e, m_newRev := n, m_oldRev := n\<rparr>"
  have "mod_begin L s = Inr (m_db s, ?s)" using None g by (simp add: mod_begin_def)
  moreover have "upd_inv env view (upd_of (mtx_of (m_db s) ?s))" using n e by (auto simp: upd_inv_def mtx_of_def upd_of_def)
  ultimately show ?thesis using n(2) by (intro exI [of _ "m_db s"] exI [of _ ?s]) simp
next
  case (Some t)
  then show ?thesis using assms by (intro exI [of _ t] exI [of _ s]) (simp add: m_inv_def)
qed

lemma update_inv:
  assumes env: "sm_env_ok env" and inv: "m_inv env view s" and ok: "mod_cmd_ok env L view s cmd"
  shows "\<exists>s' v d. mod_update env L index cmd s = Inr (s', v, d) \<and> m_inv env view s' \<and> m_txn s' \<noteq> None \<and> m_newIndex s' = index \<and>
    m_db s' = m_db s \<and> m_flushed s' = m_flushed s \<and> (\<exists>n. getRevision L (m_db s) = Inr n \<and> n \<le> m_newRev s')"
proof -
  from begin_inv [OF inv] obtain t s1 where
    b: "mod_begin L s = Inr (t, s1)" "upd_inv env view (upd_of (mtx_of t s1))" "counter view t metaKeyRevision = Inr (m_oldRev s1)"
      "m_oldRev s1 \<le> m_newRev s1" "m_db s1 = m_db s" "m_flushed s1 = m_flushed s" "counter view (m_db s) metaKeyRevision = Inr (m_oldRev s1)" by blast
  have "mod_entry_ok env L view (mtx_of t s1) cmd" using ok b(1) by (simp add: mod_cmd_ok_def)
  from mod_command_good [OF env b(2) this, of index] obtain x v d where
    x: "mod_command env L index cmd (mtx_of t s1) = Inr (x, v, d)" "upd_inv env view (upd_of x)" "u_step view (upd_of (mtx_of t s1)) (upd_of x)"
    by (auto simp: mod_good_def)
  let ?s = "s1\<lparr>m_newIndex := index, m_txn := Some (x_txn x), m_epoch := x_epoch x, m_newRev := x_newRev x, m_queue := x_queue x\<rparr>"
  have run: "mod_update env L index cmd s = Inr (?s, v, d)" using b(1) x(1) by (simp add: mod_update_def mtx_of_def)
  have "mtx_of (x_txn x) ?s = x" by (simp add: mtx_of_def)
  moreover have le: "counter view (x_txn x) metaKeyRevision = Inr (m_oldRev s1)" "m_newRev s1 \<le> x_newRev x"
    using x(3) b(3) by (auto simp: u_step_def mtx_of_def)
  ultimately have "m_inv env view ?s" using inv x(2) b(4,5,7) by (auto simp: m_inv_def)
  moreover have "getRevision L (m_db s) = Inr (m_oldRev s1)" using b(7) by (simp add: getRevision_def getUint64_counter)
  ultimately show ?thesis using run b(4-6) le(2) by (intro exI [of _ ?s]) auto
qed

lemma finish_inv:
  assumes inv: "m_inv env view s" and t: "m_txn s = Some t"
  shows "\<exists>s'. mod_finish L s = Inr s' \<and> m_inv env view s' \<and> m_txn s' = None \<and> m_queue s' = [] \<and> m_flushed s' = m_flushed s @ m_queue s \<and>
    getRevision L (m_db s') = Inr (m_newRev s) \<and> getIndex L (m_db s') = Inr (m_newIndex s) \<and> view (m_db s') DBI_event = view t DBI_event"
proof -
  have u: "upd_inv env view (upd_of (mtx_of t s))" "counter view t metaKeyRevision = Inr (m_oldRev s)" "m_oldRev s \<le> m_newRev s"
    using inv t by (simp_all add: m_inv_def)
  from u(1) obtain b A where rel: "sm_rel env view t b A" "upper b \<le> m_newRev s" "counters_ok view t" by (auto simp: upd_inv_def mtx_of_def)
  from putUint64_step [OF rel(1), of metaKeyIndex "m_newIndex s"] obtain t1 where
    t1: "setIndex L t (m_newIndex s) = Inr t1" "sm_rel env view t1 b A"
      "\<forall>key. counter view t1 key = (if key = metaKeyIndex then Inr (m_newIndex s) else counter view t key)"
      "view t1 DBI_event = view t DBI_event" by (auto simp: setIndex_def)
  have "\<exists>t2. (if m_newRev s > m_oldRev s then setRevision L t1 (m_newRev s) else Inr t1) = Inr t2 \<and> sm_rel env view t2 b A \<and>
    (\<forall>key. counter view t2 key = (if key = metaKeyRevision then Inr (m_newRev s) else counter view t1 key)) \<and>
    view t2 DBI_event = view t1 DBI_event"
  proof (cases "m_newRev s > m_oldRev s")
    case True
    then show ?thesis using putUint64_step [OF t1(2), of metaKeyRevision "m_newRev s"] by (auto simp: setRevision_def)
  next
    case False
    then have "m_newRev s = m_oldRev s" using u(3) by simp
    moreover have "counter view t1 metaKeyRevision = Inr (m_oldRev s)" using t1(3) u(2) metaKeys_distinct by auto
    ultimately show ?thesis using t1(2) by auto
  qed
  then obtain t2 where t2: "(if m_newRev s > m_oldRev s then setRevision L t1 (m_newRev s) else Inr t1) = Inr t2" "sm_rel env view t2 b A"
    "\<forall>key. counter view t2 key = (if key = metaKeyRevision then Inr (m_newRev s) else counter view t1 key)"
    "view t2 DBI_event = view t1 DBI_event" by blast
  let ?s = "s\<lparr>m_db := t2, m_txn := None, m_flushed := m_flushed s @ m_queue s, m_queue := []\<rparr>"
  have run: "mod_finish L s = Inr ?s" using t t1(1) t2(1) by (simp add: mod_finish_def)
  have c: "counter view t2 metaKeyRevision = Inr (m_newRev s)" "counter view t2 metaKeyIndex = Inr (m_newIndex s)"
    using t2(3) t1(3) metaKeys_distinct by auto
  have "counters_ok view t2" using rel(3) t1(3) t2(3) by (simp add: counters_ok_def)
  then have "sm_ok env view t2" using c(1) t2(2) rel(2) by (auto simp: sm_ok_def)
  moreover have "getRevision L t2 = Inr (m_newRev s)" "getIndex L t2 = Inr (m_newIndex s)"
    using c by (simp_all add: getRevision_def getIndex_def getUint64_counter)
  ultimately show ?thesis using run t1(4) t2(4) by (intro exI [of _ ?s]) (simp add: m_inv_def)
qed

lemma mod_reach_inv:
  assumes "mod_reach env L view s" "sm_env_ok env"
  shows "m_inv env view s"
  using assms
proof (induction rule: mod_reach.induct)
  case (mr_open t0 t i)
  from open_empty [OF mr_open(1), of env] obtain t' where t': "sm_Open L t0 = Inr (t', 0)" "sm_ok env view t'" by blast
  then have "t' = t" using mod_open_Inr [OF t'(1)] mr_open(2) by simp
  then show ?case using t'(2) by (simp add: m_inv_def mod_init_def)
next
  case (mr_restart s t i)
  then have ok: "sm_ok env view (m_db s)" by (simp add: m_inv_def)
  then obtain j where "getIndex L (m_db s) = Inr j" using counter_get(4) [of "m_db s"] by (auto simp: sm_ok_def)
  from reopen [OF ok this] obtain t' where t': "sm_Open L (m_db s) = Inr (t', j)" "sm_ok env view t'" by blast
  then have "t' = t" using mod_open_Inr [OF t'(1)] mr_restart(2) by simp
  then show ?case using t'(2) by (simp add: m_inv_def mod_init_def)
next
  case (mr_update s cmd index s' v d)
  then show ?case using update_inv [of env s cmd index] by auto
next
  case (mr_finish s s')
  from mr_finish(2) obtain t where "m_txn s = Some t" by (auto simp: mod_finish_def split: option.splits)
  with finish_inv [of env s t] mr_finish show ?case by auto
qed

end

section \<open>A transaction that fails\<close>

context lmdb
begin

lemma cmdPut_dup:
  assumes env: "env_ok env" "\<not> PCB_TXN_MULTI_WRITE_ENABLED env" and rel: "sm_rel env view t b A"
    and rv: "rev_fits rv 0" "rv \<noteq> 0" "upper b < rv" and wf: "put_wf req"
    and key: "2 \<le> length (PutRequest_Key req)" "length (PutRequest_Key req) \<le> PCB_LIMIT_KEY_LENGTH" "PutRequest_Key req' = PutRequest_Key req"
  shows "\<exists>t1 resp. cmdPut env L t rv 0 epoch req = Inr (t1, resp, 1, [PutRequest_Key req]) \<and> cmdPut env L t1 rv 1 epoch req' = Inl ErrGRPCDuplicateKey"
proof -
  let ?k = "PutRequest_Key req" and ?H = "a_hist A"
  note d = sm_relD [OF rel]
  have w: "length (sl (PutRequest_Value req)) < 2 ^ 62" "PutRequest_IgnoreValue req \<Longrightarrow> PutRequest_Value req = None" "0 \<le> sint (PutRequest_Lease req)"
    using wf by (auto simp: put_wf_def)
  have lt: "b < newkeyrev rv 0 False" by (rule upper_less_newkeyrev [OF rv(1,3)])
  have fr: "fresh (newkeyrev rv 0 False) ?H" unfolding fresh_def using kv_invD(4) [OF d(1)] lt by (meson order_le_less_trans)
  have "upper (vrev h) \<noteq> rv" if "h \<in> set (?H ?k)" for h using upper_mono [OF kv_invD(4) [OF d(1) that]] rv(3) by auto
  then have ok: "put_ok env rv (?H ?k)" by (cases "?H ?k") (auto simp: put_ok_def)
  let ?h = "(spec_put rv 0 (PutRequest_Lease req) ?k (PutRequest_Value req) (PutRequest_IgnoreValue req) (PutRequest_IgnoreLease req) (?H ?k), PutRequest_Lease req)"
  from put_spec [OF env(1) d(6) key(1,2) rv(1,2) fr ok w(1), of "PutRequest_IgnoreValue req" "PutRequest_Lease req" epoch "PutRequest_IgnoreLease req"] w(2) obtain t0 prev nx pt where
    p: "dbKv_put env L t rv 0 (PutRequest_Lease req) epoch ?k (PutRequest_Value req) (PutRequest_IgnoreValue req) (PutRequest_IgnoreLease req) = Inr (t0, prev, nx, pt)"
      "kv_rel env view t0 (add_version ?k ?h ?H)" "plain prev = spec_at 0 (?H ?k)" "\<forall>d. d \<notin> {DBI_revision, DBI_value, DBI_event} \<longrightarrow> view t0 d = view t d" by blast
  have pl: "kv_lease prev = kv_lease (spec_at 0 (?H ?k))" unfolding p(3) [symmetric] by (simp add: plain_def)
  have mem: "kv_lease prev \<noteq> 0 \<longrightarrow> (kv_lease prev, ?k) \<in> a_keys A"
    using d(5) unfolding pl spec_at_lease by (simp add: linked_def attached_def)
  have lk: "lkey_rel view t0 (a_keys A)" using d(4) p(4) by (simp add: stored_def)
  from cmdPut_lease_spec [OF lk key(2) w(3) mem] obtain t1 where
    t1: "cmdPut_lease L t0 prev req = Inr t1" "\<forall>d. d \<noteq> DBI_lease_key \<longrightarrow> view t1 d = view t0 d" by blast
  have rel1: "kv_rel env view t1 (add_version ?k ?h ?H)" using p(2) t1(2) by (simp add: kv_rel_def)
  have "vrev ?h = newkeyrev rv 0 False" using spec_put_simps(1) [OF rv(1)] by simp
  then have "\<not> put_ok env rv (add_version ?k ?h ?H ?k)"
    using env(2) upper_newkeyrev [OF rv(1), of False] isdel_newkeyrev [OF rv(1), of False] by (simp add: put_ok_def add_version_def)
  from put_dup [OF rel1 key(1,2) this] key(3) p(1) t1(1) show ?thesis by (simp add: cmdPut_def)
qed

lemma past_empty:
  assumes "upd_inv env view (upd_of x)" "unat (x_newRev x) + 1 < 2 ^ 52"
  shows "scan_entries (x_txn x) (x_newRev x + 1) = []"
proof -
  from assms(1) obtain b A where rel: "sm_rel env view (x_txn x) b A" "upper b \<le> x_newRev x" by (auto simp: upd_inv_def)
  have n: "unat (x_newRev x + 1) = unat (x_newRev x) + 1" using assms(2) by (simp add: unat_plus_if')
  have "\<not> push_bit 12 (x_newRev x + 1) \<le> fst y" if "y \<in> a_events A" for y
  proof -
    have "upper (fst y) \<le> x_newRev x" using upper_mono [OF kv_invD(5) [OF sm_relD(1) [OF rel(1)] that]] rel(2) by simp
    then show ?thesis using push_bit_le_upper [of "x_newRev x + 1" "fst y"] n assms(2) by (simp add: word_le_nat_alt)
  qed
  then show ?thesis using sm_relD(7) [OF rel(1)] unfolding scan_entries_def filter_empty_conv by (auto simp: ev_rel_def be64_le)
qed

end

end
