(* ===== verification/Module_Correct.thy ===== *)
theory Module_Correct
  imports Module_Machine
begin

text \<open>
  What the state machine of the module promises: an update succeeds in every reachable state, whole batches do to the store
  what the native machine does, queries answer the same, a tick compacts without touching what can still be read, the watches
  are told of every revision in order, and the one case where they are told of a revision that has no events.
\<close>

declare split_paired_Ex [simp del] split_paired_All [simp del]

section \<open>Batches against the native machine\<close>

lemma spec_at_latest: "take 1 hs' = take 1 hs \<Longrightarrow> spec_at 0 hs' = spec_at 0 hs"
  by (cases hs; cases hs') (simp_all add: spec_at_def visible_def newer_def)

definition plain_cmd :: "bytes \<Rightarrow> bool" where
  "plain_cmd cmd \<longleftrightarrow> cmd \<noteq> [] \<and> last cmd \<noteq> MOD_CMD_KV_COMPACT \<and> last cmd \<noteq> MOD_CMD_INTERNAL_TICK"

definition entries_of :: "(u64 \<times> bytes) list \<Rightarrow> Entry list" where
  "entries_of = map (\<lambda>(index, cmd). entry_of index cmd)"

definition results :: "Entry list \<Rightarrow> (u64 \<times> bytes) list" where
  "results = map (\<lambda>ent. (Result_Value ent, Result_Data ent))"

lemma update_agrees:
  assumes "update_entry env L u (entry_of index cmd) = Inr (u1, ent1)" "m_txn s = Some t" "sim (mtx_of t s) u"
    and "\<And>m. \<exists>d. marshal env m = Inr d" "plain_cmd cmd"
  shows "\<exists>s1 v d t1. mod_update env L index cmd s = Inr (s1, v, d) \<and> m_txn s1 = Some t1 \<and> sim (mtx_of t1 s1) u1 \<and> m_newIndex s1 = index \<and>
    m_oldRev s1 = m_oldRev s \<and> m_db s1 = m_db s \<and> (cmd_decodes env cmd \<longrightarrow> v = Result_Value ent1 \<and> d = Result_Data ent1)"
proof -
  from command_agrees [OF assms(1,3,4)] assms(5) obtain x v d where
    c: "mod_command env L index cmd (mtx_of t s) = Inr (x, v, d)" "sim x u1" "cmd_decodes env cmd \<longrightarrow> v = Result_Value ent1 \<and> d = Result_Data ent1"
    by (auto simp: plain_cmd_def agrees_def)
  let ?s = "s\<lparr>m_newIndex := index, m_txn := Some (x_txn x), m_epoch := x_epoch x, m_newRev := x_newRev x, m_queue := x_queue x\<rparr>"
  have "mod_update env L index cmd s = Inr (?s, v, d)" using assms(2) c(1) by (simp add: mod_update_def mtx_of_def)
  then show ?thesis using c(2,3) by (intro exI [of _ ?s] exI [of _ v] exI [of _ d] exI [of _ "x_txn x"]) (simp add: mtx_of_def sim_def)
qed

lemma updates_agree:
  assumes m: "\<And>m. \<exists>d. marshal env m = Inr d"
  shows "update_entries env L u (entries_of ents) = Inr (u', ents') \<Longrightarrow> m_txn s = Some t \<Longrightarrow> sim (mtx_of t s) u \<Longrightarrow>
    list_all (\<lambda>(i, cmd). plain_cmd cmd) ents \<Longrightarrow>
    \<exists>s' rs t'. mod_updates env L ents s = Inr (s', rs) \<and> m_txn s' = Some t' \<and> sim (mtx_of t' s') u' \<and>
      m_newIndex s' = (if ents = [] then m_newIndex s else fst (last ents)) \<and> m_oldRev s' = m_oldRev s \<and> m_db s' = m_db s \<and>
      (list_all (\<lambda>(i, cmd). cmd_decodes env cmd) ents \<longrightarrow> rs = results ents')"
proof (induction ents arbitrary: u s t ents')
  case (Cons e ents)
  obtain index cmd where e: "e = (index, cmd)" by (rule prod.exhaust)
  from Cons.prems(1) obtain u1 ent1 ents1 where
    n: "update_entry env L u (entry_of index cmd) = Inr (u1, ent1)" "update_entries env L u1 (entries_of ents) = Inr (u', ents1)" "ents' = ent1 # ents1"
    by (auto simp: entries_of_def e elim!: bindE_InrE)
  have "plain_cmd cmd" using Cons.prems(4) e by simp
  from update_agrees [OF n(1) Cons.prems(2,3) m this] obtain s1 v d t1 where
    s1: "mod_update env L index cmd s = Inr (s1, v, d)" "m_txn s1 = Some t1" "sim (mtx_of t1 s1) u1" "m_newIndex s1 = index" "m_oldRev s1 = m_oldRev s"
      "m_db s1 = m_db s" "cmd_decodes env cmd \<longrightarrow> v = Result_Value ent1 \<and> d = Result_Data ent1" by blast
  from Cons.IH [OF n(2) s1(2,3)] Cons.prems(4) obtain s' rs t' where
    "mod_updates env L ents s1 = Inr (s', rs)" "m_txn s' = Some t'" "sim (mtx_of t' s') u'"
    "m_newIndex s' = (if ents = [] then m_newIndex s1 else fst (last ents))" "m_oldRev s' = m_oldRev s1" "m_db s' = m_db s1"
    "list_all (\<lambda>(i, cmd). cmd_decodes env cmd) ents \<longrightarrow> rs = results ents1" by auto
  with s1 show ?case by (simp add: e n(3) results_def)
qed (auto simp: entries_of_def results_def)

context lmdb
begin

lemma batch_agrees:
  assumes env: "sm_env_ok env" and minv: "m_inv env view s" and s: "m_txn s = None"
    and batch: "batch_ok env L view (m_db s) (entries_of ents)" and plain: "list_all (\<lambda>(i, cmd). plain_cmd cmd) ents"
  shows "\<exists>res s' rs. sm_Update env L (m_db s) (entries_of ents) = Inr res \<and> mod_batch env L ents s = Inr (s', rs) \<and>
    m_db s' = ur_txn res \<and> m_txn s' = None \<and> m_newRev s' = ur_newRev res \<and>
    (list_all (\<lambda>(i, cmd). cmd_decodes env cmd) ents \<longrightarrow> rs = results (ur_entries res))"
proof -
  have m: "\<exists>d. marshal env y = Inr d" for y using env by (simp add: sm_env_ok_def)
  have ok: "sm_ok env view (m_db s)" using minv by (simp add: m_inv_def)
  from update_batch [OF env ok batch] obtain res where run: "sm_Update env L (m_db s) (entries_of ents) = Inr res" by blast
  then obtain e n u' ents' t1 t2 where
    r: "getEpoch L (m_db s) = Inr e" "getRevision L (m_db s) = Inr n"
      "update_entries env L \<lparr>u_txn = m_db s, u_epoch = e, u_newRev = n, u_keys = []\<rparr> (entries_of ents) = Inr (u', ents')" "ents' \<noteq> []"
      "setIndex L (u_txn u') (Entry_Index (last ents')) = Inr t1" "(if u_newRev u' > n then setRevision L t1 (u_newRev u') else Inr t1) = Inr t2"
      "res = \<lparr>ur_txn = t2, ur_entries = ents', ur_rev = n, ur_newRev = u_newRev u', ur_keys = u_keys u'\<rparr>"
    unfolding sm_Update_def by (elim bindE_InrE) (auto split: if_splits elim!: bindE_InrE)
  let ?s = "s\<lparr>m_txn := Some (m_db s), m_epoch := e, m_newRev := n, m_oldRev := n\<rparr>"
    and ?u = "\<lparr>u_txn = m_db s, u_epoch = e, u_newRev = n, u_keys = []\<rparr>"
  have b: "mod_begin L s = Inr (m_db s, ?s)" "mod_begin L ?s = Inr (m_db s, ?s)" using s r(1,2) by (simp_all add: mod_begin_def)
  have sim: "sim (mtx_of (m_db s) ?s) ?u" by (simp add: sim_def mtx_of_def)
  from begin_inv [OF minv] b(1) have "upd_inv env view (upd_of (mtx_of (m_db s) ?s))" by auto
  then have inv: "upd_inv env view ?u" using sim_inv [OF sim] by blast
  have ne: "ents \<noteq> []" "entries_ok env L view (entries_of ents) ?u" using batch r(1,2) by (auto simp: batch_ok_def entries_of_def)
  from update_entries_good [OF env inv ne(2)] r(3) have "map Entry_Index ents' = map Entry_Index (entries_of ents)" by auto
  also have "\<dots> = map fst ents" by (simp add: entries_of_def entry_of_def case_prod_unfold)
  finally have "Entry_Index (last ents') = fst (last ents)" using r(4) ne(1) by (metis last_map)
  moreover from updates_agree [OF m r(3) _ sim plain] obtain s' rs t' where
    s': "mod_updates env L ents ?s = Inr (s', rs)" "m_txn s' = Some t'" "sim (mtx_of t' s') u'" "m_newIndex s' = fst (last ents)" "m_oldRev s' = n"
      "list_all (\<lambda>(i, cmd). cmd_decodes env cmd) ents \<longrightarrow> rs = results ents'" using ne by auto
  ultimately have "mod_finish L s' = Inr (s'\<lparr>m_db := t2, m_txn := None, m_flushed := m_flushed s' @ m_queue s', m_queue := []\<rparr>)"
    using r(5,6) by (simp add: mod_finish_def sim_def mtx_of_def split: if_splits)
  moreover have "mod_update env L i cmd s = mod_update env L i cmd ?s" for i cmd by (simp only: mod_update_def mod_begin_simps(2) b)
  then have "mod_updates env L ents s = mod_updates env L ents ?s" using ne(1) by (cases ents) auto
  ultimately show ?thesis using run s'(1,3,6) r(7) by (simp add: mod_batch_def sim_def mtx_of_def)
qed

text \<open>An update and the end of the batch after it.\<close>

lemma update_finish:
  assumes env: "sm_env_ok env" and inv: "m_inv env view s" and ok: "mod_cmd_ok env L view s cmd"
  shows "\<exists>s1 v d s2 n. mod_update env L index cmd s = Inr (s1, v, d) \<and> mod_finish L s1 = Inr s2 \<and> m_txn s2 = None \<and>
    getIndex L (m_db s2) = Inr index \<and> getRevision L (m_db s) = Inr n \<and> getRevision L (m_db s2) = Inr (m_newRev s1) \<and> n \<le> m_newRev s1"
proof -
  from update_inv [OF env inv ok, of index] obtain s1 v d n t where
    u: "mod_update env L index cmd s = Inr (s1, v, d)" "m_inv env view s1" "m_txn s1 = Some t" "m_newIndex s1 = index"
      "getRevision L (m_db s) = Inr n" "n \<le> m_newRev s1" by blast
  from finish_inv [OF u(2,3)] u show ?thesis by auto
qed

section \<open>Ticks\<close>

lemma tick_compact_keeps:
  assumes env: "sm_env_ok env" and inv: "upd_inv env view (upd_of x)"
  shows "\<exists>x' v d mn. mod_tick_compact env L index x = Inr (x', v, d) \<and> x_epoch x' = x_epoch x \<and> x_newRev x' = x_newRev x \<and> x_queue x' = x_queue x \<and>
    getRevisionMin L (x_txn x) = Inr mn \<and>
    (\<forall>d. d \<notin> {DBI_revision, DBI_value, DBI_event, DBI_meta} \<longrightarrow> view (x_txn x') d = view (x_txn x) d) \<and>
    (\<forall>key. key \<noteq> metaKeyRevisionCompacted \<longrightarrow> counter view (x_txn x') key = counter view (x_txn x) key) \<and>
    (\<forall>k r. k \<noteq> [] \<and> (r = 0 \<or> 0 < mn \<and> mn \<le> r) \<longrightarrow> kv_read env L (x_txn x') k r = kv_read env L (x_txn x) k r)"
proof -
  let ?t = "x_txn x"
  from inv obtain b A where rel: "sm_rel env view ?t b A" by (auto simp: upd_inv_def)
  have "counters_ok view ?t" using inv by (simp add: upd_inv_def)
  from counter_get(6) [OF this] obtain mn where mn: "getRevisionMin L ?t = Inr mn" by blast
  have db: "kv_db L view env" using env by (intro kv_db.intro kv_db_axioms.intro lmdb_axioms) (simp add: sm_env_ok_def)
  from compact_rel [OF rel, of mn] obtain t1 A1 where
    k: "mod_compact L ?t mn \<in> {Inl (t1, ErrChecksumMissing), Inl (t1, ErrChecksumInvalid)} \<or> (\<exists>lst. mod_compact L ?t mn = Inr (t1, lst))"
      "sm_rel env view t1 b A1" "\<forall>k. take 1 (a_hist A1 k) = take 1 (a_hist A k)" "0 < mn \<longrightarrow> same_from mn (a_hist A) (a_hist A1)"
      "\<forall>d. d \<notin> {DBI_revision, DBI_value, DBI_event} \<longrightarrow> view t1 d = view ?t d" "\<forall>key. counter view t1 key = counter view ?t key" by blast
  have "spec_at r (a_hist A1 k) = spec_at r (a_hist A k)" if "r = 0 \<or> 0 < mn \<and> mn \<le> r" for k r
  proof (cases "r = 0")
    case True
    then show ?thesis using spec_at_latest [OF k(3) [rule_format, of k]] by simp
  qed (use k(4) that in \<open>auto simp: same_from_def\<close>)
  then have rd: "kv_read env L t' k r = kv_read env L ?t k r" if "kv_rel env view t' (a_hist A1)" "k \<noteq> []" "r = 0 \<or> 0 < mn \<and> mn \<le> r" for t' k r
    using kv_db.kv_read_spec [OF db that(1,2), of r] kv_db.kv_read_spec [OF db sm_relD(6) [OF rel] that(2), of r] that(3) by simp
  show ?thesis
  proof (cases "mod_compact L ?t mn")
    case (Inl p)
    then obtain e where "mod_compact L ?t mn = Inl (t1, e)" "\<not> stuck e" using k(1) by (auto simp: stuck_def)
    then show ?thesis using mn rd sm_relD(6) [OF k(2)] k(5,6) by (simp add: mod_tick_compact_def)
  next
    case (Inr p)
    then obtain lst where c: "mod_compact L ?t mn = Inr (t1, lst)" using k(1) by auto
    from putUint64_step [OF k(2), of metaKeyRevisionCompacted lst] obtain t2 where
      t2: "setRevisionCompacted L t1 lst = Inr t2" "sm_rel env view t2 b A1"
        "\<forall>key. counter view t2 key = (if key = metaKeyRevisionCompacted then Inr lst else counter view t1 key)" by (auto simp: setRevisionCompacted_def)
    have "view t2 d = view t1 d" if "d \<noteq> DBI_meta" for d using t2(1) that putUint64_other by (simp add: setRevisionCompacted_def)
    moreover obtain data where "marshal env (MTick (x_epoch x)) = Inr data" using env by (auto simp: sm_env_ok_def)
    ultimately show ?thesis using mn c t2(1,3) rd sm_relD(6) [OF t2(2)] k(5,6) by (simp add: mod_tick_compact_def)
  qed
qed

lemma tick_run_keeps:
  assumes env: "sm_env_ok env" and inv: "m_inv env view s" and s: "m_txn s = None" and ok: "mod_cmd_ok env L view s (body @ [MOD_CMD_INTERNAL_TICK])"
    and c: "getEpoch L (m_db s) = Inr e" "getRevision L (m_db s) = Inr n" "getTerm L (m_db s) = Inr a"
    and req: "unmarshal_TickRequest env body = Some req" "a \<le> TickRequest_Term req"
  shows "\<exists>u' ent' s' v d t' mn. update_Tick env L \<lparr>u_txn = m_db s, u_epoch = e, u_newRev = n, u_keys = []\<rparr>
        (entry_of index (body @ [MOD_CMD_INTERNAL_TICK])) = Inr (u', ent') \<and>
      mod_update env L index (body @ [MOD_CMD_INTERNAL_TICK]) s = Inr (s', v, d) \<and> m_txn s' = Some t' \<and>
      m_epoch s' = u_epoch u' \<and> m_newRev s' = u_newRev u' \<and> getRevisionMin L (u_txn u') = Inr mn \<and>
      (\<forall>d. d \<notin> {DBI_revision, DBI_value, DBI_event, DBI_meta} \<longrightarrow> view t' d = view (u_txn u') d) \<and> (\<forall>i. dbLease_get L t' i = dbLease_get L (u_txn u') i) \<and>
      (\<forall>key. key \<noteq> metaKeyRevisionCompacted \<longrightarrow> counter view t' key = counter view (u_txn u') key) \<and>
      (\<forall>k r. k \<noteq> [] \<and> (r = 0 \<or> 0 < mn \<and> mn \<le> r) \<longrightarrow> kv_read env L t' k r = kv_read env L (u_txn u') k r)"
proof -
  let ?cmd = "body @ [MOD_CMD_INTERNAL_TICK]" and ?s1 = "s\<lparr>m_txn := Some (m_db s), m_epoch := e, m_newRev := n, m_oldRev := n\<rparr>"
    and ?u = "\<lparr>u_txn = m_db s, u_epoch = e, u_newRev = n, u_keys = []\<rparr>"
  let ?x = "mtx_of (m_db s) ?s1"
  have b: "mod_begin L s = Inr (m_db s, ?s1)" using s c(1,2) by (simp add: mod_begin_def)
  have u: "upd_of ?x = ?u" using inv s by (simp add: upd_of_def mtx_of_def m_inv_def)
  from begin_inv [OF inv] b have i: "upd_inv env view ?u" by (auto simp: u)
  have e: "entry_ok env L view ?u (entry_of index ?cmd)"
    using ok b entry_ok_index [of env L view ?u index ?cmd 0] by (auto simp: mod_cmd_ok_def mod_entry_ok_def MOD_CMD_defs u)
  have "update_entry env L ?u (entry_of index ?cmd) = update_Tick env L ?u (entry_of index ?cmd)"
    by (simp add: update_entry_def native_number_def MOD_CMD_defs CMD_defs)
  with update_entry_good [OF env i e] obtain u' ent' where
    g: "update_Tick env L ?u (entry_of index ?cmd) = Inr (u', ent')" "upd_inv env view u'" by (auto simp: good_def)
  have "sim ?x ?u" using upd_of_simps(5) [of ?x] unfolding u .
  from tick_agrees [OF g(1) this, of req a] inv s req c(3) leD [OF req(2)] obtain x2 where
    x2: "sim x2 u'" "mod_Tick env L index ?cmd ?x = mod_tick_compact env L index x2" by (auto simp: mtx_of_def m_inv_def)
  have "upd_inv env view (upd_of x2)" using g(2) sim_inv [OF x2(1)] by blast
  from tick_compact_keeps [OF env this, of index] obtain x' v d mn where
    x': "mod_tick_compact env L index x2 = Inr (x', v, d)" "x_epoch x' = x_epoch x2" "x_newRev x' = x_newRev x2" "getRevisionMin L (x_txn x2) = Inr mn"
      "\<forall>d. d \<notin> {DBI_revision, DBI_value, DBI_event, DBI_meta} \<longrightarrow> view (x_txn x') d = view (x_txn x2) d"
      "\<forall>key. key \<noteq> metaKeyRevisionCompacted \<longrightarrow> counter view (x_txn x') key = counter view (x_txn x2) key"
      "\<forall>k r. k \<noteq> [] \<and> (r = 0 \<or> 0 < mn \<and> mn \<le> r) \<longrightarrow> kv_read env L (x_txn x') k r = kv_read env L (x_txn x2) k r"
    by (elim exE conjE) (rule that)
  let ?s' = "?s1\<lparr>m_newIndex := index, m_txn := Some (x_txn x'), m_epoch := x_epoch x', m_newRev := x_newRev x', m_queue := x_queue x'\<rparr>"
  have "mod_command env L index ?cmd ?x = Inr (x', v, d)" using x2(2) x'(1) by (simp add: mod_command_def MOD_CMD_defs)
  then have "mod_update env L index ?cmd s = Inr (?s', v, d)" using b by (simp add: mod_update_def mtx_of_def)
  moreover from g(2) x2(1) obtain b A where rel: "sm_rel env view (x_txn x2) b A" by (auto simp: upd_inv_def sim_def)
  then have "lease_rel view (x_txn x') (a_leases A)" using x'(5) sm_relD(2) [OF rel] by (simp add: lease_rel_def)
  then have "dbLease_get L (x_txn x') i = dbLease_get L (x_txn x2) i" for i
    using dbLease_get_spec [OF sm_relD(2) [OF rel], of i] dbLease_get_spec [of "x_txn x'" "a_leases A" i] by argo
  moreover have "u_txn u' = x_txn x2" "u_epoch u' = x_epoch x2" "u_newRev u' = x_newRev x2" using x2(1) by (simp_all add: sim_def)
  ultimately show ?thesis using x'(2-7)
    by (intro exI [of _ u'] exI [of _ ent'] exI [of _ ?s'] exI [of _ v] exI [of _ d] exI [of _ "x_txn x'"] exI [of _ mn] conjI g(1)) simp_all
qed

section \<open>Duplicate keys\<close>

text \<open>A transaction of two puts of one key: the second put fails, the sub-transaction is dropped, and the keys of the first
  put are still reported.\<close>

lemma txnOps_dup:
  assumes env: "sm_env_ok env" "\<not> PCB_TXN_MULTI_WRITE_ENABLED env" and inv: "upd_inv env view (upd_of x)"
    and room: "unat (x_newRev x) + 1 < 2 ^ 52" and wf: "put_wf p"
    and key: "2 \<le> length (PutRequest_Key p)" "length (PutRequest_Key p) \<le> PCB_LIMIT_KEY_LENGTH" "PutRequest_Key q = PutRequest_Key p"
  shows "\<exists>res. txnOps env L (x_txn x) (x_newRev x + 1) (x_epoch x) [RequestPut p, RequestPut q] =
    (x_txn x, res, [PutRequest_Key p], Some ErrGRPCDuplicateKey)"
proof -
  from inv obtain b A where rel: "sm_rel env view (x_txn x) b A" "upper b \<le> x_newRev x" by (auto simp: upd_inv_def)
  note n = bumpRev_bounds [OF room]
  have e: "env_ok env" using env(1) by (simp add: sm_env_ok_def)
  have "upper b < x_newRev x + 1" using rel(2) n(6) by simp
  from cmdPut_dup [OF e env(2) rel(1) n(4,5) this wf key, of "x_epoch x"] show ?thesis by (auto simp: txnOps_def)
qed

lemma dup_txn_run:
  assumes env: "sm_env_ok env" "\<not> PCB_TXN_MULTI_WRITE_ENABLED env" and inv: "m_inv env view s" and s: "m_txn s = None"
    and n: "getRevision L (m_db s) = Inr n" "unat n + 1 < 2 ^ 52"
    and req: "unmarshal_TxnRequest env body = Some req" "TxnRequest_Compare req = []" "TxnRequest_Success req = [RequestPut p, RequestPut q]"
    and wf: "put_wf p" "2 \<le> length (PutRequest_Key p)" "length (PutRequest_Key p) \<le> PCB_LIMIT_KEY_LENGTH" "PutRequest_Key q = PutRequest_Key p"
  shows "\<exists>s1 s2. mod_update env L index (body @ [MOD_CMD_KV_TXN]) s = Inr (s1, 0, err_Error env ErrGRPCDuplicateKey) \<and> m_txn s1 = Some (m_db s) \<and>
    mod_finish L s1 = Inr s2 \<and> getRevision L (m_db s2) = Inr (n + 1) \<and>
    m_flushed s2 = m_flushed s @ [(n + 1, [PutRequest_Key p])] \<and> revScan L (m_db s2) [n + 1] [] = Inl GoPanic"
proof -
  from begin_inv [OF inv] obtain t s1 where b: "mod_begin L s = Inr (t, s1)" "upd_inv env view (upd_of (mtx_of t s1))" by blast
  have s1: "t = m_db s" "m_newRev s1 = n" "m_oldRev s1 = n" "m_queue s1 = []" "m_flushed s1 = m_flushed s" "m_db s1 = m_db s"
    using b(1) s n(1) inv by (auto simp: m_inv_def mod_begin_def orPanic_def split: sum.splits)
  let ?x = "mtx_of t s1" and ?k = "PutRequest_Key p"
  have x: "x_txn ?x = m_db s" "x_newRev ?x = n" using s1 by (simp_all add: mtx_of_def)
  from txnOps_dup [OF env b(2) _ wf] n(2) x obtain res where
    o: "txnOps env L (m_db s) (n + 1) (x_epoch ?x) [RequestPut p, RequestPut q] = (m_db s, res, [?k], Some ErrGRPCDuplicateKey)" by auto
  let ?x1 = "?x\<lparr>x_newRev := n + 1, x_queue := [(n + 1, [?k])]\<rparr>"
  have c: "mod_command env L index (body @ [MOD_CMD_KV_TXN]) ?x = Inr (?x1, 0, err_Error env ErrGRPCDuplicateKey)"
    using req o x s1 by (simp add: mod_command_def mod_Txn_def MOD_CMD_defs queueRev_def mtx_of_def)
  let ?s1 = "s1\<lparr>m_newIndex := index, m_txn := Some (m_db s), m_epoch := x_epoch ?x, m_newRev := n + 1, m_queue := [(n + 1, [?k])]\<rparr>"
  have u: "mod_update env L index (body @ [MOD_CMD_KV_TXN]) s = Inr (?s1, 0, err_Error env ErrGRPCDuplicateKey)"
    using b(1) c s1 by (simp add: mod_update_def mtx_of_def)
  have le: "n \<le> n + 1" using bumpRev_bounds(6) [OF n(2)] by simp
  have "upd_inv env view (upd_of ?x1)" using b(2) x le unfolding upd_inv_def by (auto intro: order_trans)
  moreover have "mtx_of (m_db s) ?s1 = ?x1" using s1 by (simp add: mtx_of_def)
  moreover have "counter view (m_db s) metaKeyRevision = Inr n" using n(1) by (simp add: getRevision_def getUint64_counter)
  ultimately have "m_inv env view ?s1" using inv s1 le by (simp add: m_inv_def)
  from finish_inv [OF this, of "m_db s"] obtain s2 where
    f: "mod_finish L ?s1 = Inr s2" "m_flushed s2 = m_flushed s @ [(n + 1, [?k])]" "getRevision L (m_db s2) = Inr (n + 1)"
      "view (m_db s2) DBI_event = view (m_db s) DBI_event" using s1(5) by auto
  have "scan_entries (m_db s2) (n + 1) = []" using past_empty [OF b(2)] n(2) x f(4) by (simp add: scan_entries_def)
  then show ?thesis using u f(1-3) revScan_missing by (intro exI [of _ ?s1] exI [of _ s2]) simp
qed

end

section \<open>Queries\<close>

text \<open>The query numbers of the module are not those of the native machine.\<close>

definition native_query :: "byte \<Rightarrow> byte" where
  "native_query q =
     (if q = MOD_QUERY_KV_RANGE then QUERY_KV_RANGE
      else if q = MOD_QUERY_LEASE_LEASES then QUERY_LEASE_LEASES
      else if q = MOD_QUERY_LEASE_TIME_TO_LIVE then QUERY_LEASE_TIME_TO_LIVE
      else if q = MOD_QUERY_HEADER then QUERY_HEADER
      else q)"

definition query_decodes :: "'x sm_env_scheme \<Rightarrow> bytes \<Rightarrow> bool" where
  "query_decodes env query =
     (let q = last query; b = butlast query in
      if q = MOD_QUERY_KV_RANGE then unmarshal_RangeRequest env b \<noteq> None
      else if q = MOD_QUERY_LEASE_LEASES then unmarshal_LeaseLeasesRequest env b \<noteq> None
      else if q = MOD_QUERY_LEASE_TIME_TO_LIVE then unmarshal_LeaseTimeToLiveRequest env b \<noteq> None
      else q = MOD_QUERY_HEADER)"

lemmas MOD_QUERY_defs = MOD_QUERY_HEADER_def MOD_QUERY_KV_RANGE_def MOD_QUERY_LEASE_LEASES_def MOD_QUERY_LEASE_TIME_TO_LIVE_def MOD_QUERY_WATCH_PROGRESS_def

lemma reply_agrees: "(\<And>m. \<exists>d. marshal env m = Inr d) \<Longrightarrow> query_reply env m = Inr (Some res) \<Longrightarrow> mod_reply env m = Inr (Res_Value res, Res_Data res)"
  by (auto simp: query_reply_def mod_reply_def split: sum.splits) (metis Inr_not_Inl)

lemma read_error:
  assumes "(case Inl e of Inl GoPanic \<Rightarrow> Inl GoPanic | Inl NoReturn \<Rightarrow> Inl NoReturn | Inl err \<Rightarrow> Inr (Some (res_zero\<lparr>Res_Data := err_Error env err\<rparr>)) | Inr x \<Rightarrow> f x) =
    Inr (Some res)"
  shows "orReturn (\<lambda>e. (0, err_Error env e)) (Inl e) g = Inr (Res_Value res, Res_Data res)"
  using assms by (cases e) (auto simp: orReturn_def stuck_def res_zero_def)

lemma range_agrees:
  assumes m: "\<And>m. \<exists>d. marshal env m = Inr d" and run: "query_Range env L t (butlast query) = Inr (Some res)"
    and dec: "unmarshal_RangeRequest env (butlast query) = Some req"
  shows "mod_read_Range env L t query = Inr (Res_Value res, Res_Data res)"
proof (cases "bindE (getRevision L t) (\<lambda>rv. queryRange env L t rv req)")
  case (Inl e)
  then show ?thesis using run dec read_error [where e = e and env = env and res = res] by (simp add: query_Range_def mod_read_Range_def)
next
  case (Inr resp)
  obtain d where "marshal env (MRange resp) = Inr d" using m by blast
  then show ?thesis using run dec Inr by (auto simp: query_Range_def mod_read_Range_def mod_reply_def)
qed

lemma leases_agrees:
  assumes m: "\<And>m. \<exists>d. marshal env m = Inr d" and run: "query_LeaseLeases env L t (butlast query) = Inr (Some res)"
    and dec: "unmarshal_LeaseLeasesRequest env (butlast query) = Some req"
  shows "mod_read_LeaseLeases env L t query = Inr (Res_Value res, Res_Data res)"
proof (cases "bindE (getRevision L t) (\<lambda>rv. bindE (queryLeaseLeases L t) (\<lambda>resp. Inr (rv, resp)))")
  case (Inl e)
  then show ?thesis using run dec read_error [where e = e and env = env and res = res] by (simp add: query_LeaseLeases_def mod_read_LeaseLeases_def)
next
  case (Inr p)
  then show ?thesis using run dec reply_agrees [OF m] by (cases p) (simp add: query_LeaseLeases_def mod_read_LeaseLeases_def)
qed

lemma ttl_agrees:
  assumes m: "\<And>m. \<exists>d. marshal env m = Inr d" and run: "query_LeaseTimeToLive env L t (butlast query) = Inr (Some res)"
    and dec: "unmarshal_LeaseTimeToLiveRequest env (butlast query) = Some req"
  shows "mod_read_LeaseTimeToLive env L t query = Inr (Res_Value res, Res_Data res)"
proof (cases "bindE (getRevision L t) (\<lambda>rv. bindE (queryLeaseTimeToLive L t req) (\<lambda>resp. Inr (rv, resp)))")
  case (Inl e)
  then show ?thesis using run dec read_error [where e = e and env = env and res = res] by (simp add: query_LeaseTimeToLive_def mod_read_LeaseTimeToLive_def)
next
  case (Inr p)
  then show ?thesis using run dec reply_agrees [OF m] by (cases p) (simp add: query_LeaseTimeToLive_def mod_read_LeaseTimeToLive_def)
qed

lemma read_agrees:
  assumes m: "\<And>m. \<exists>d. marshal env m = Inr d" and run: "sm_Query env L t (butlast query @ [native_query (last query)]) = Inr (Some res)"
    and ne: "query \<noteq> []" and dec: "query_decodes env query" and rv: "getRevision L t = Inr n"
  shows "mod_read env L wp t query = Inr (Res_Value res, Res_Data res)"
proof -
  have "last query \<in> {MOD_QUERY_KV_RANGE, MOD_QUERY_LEASE_LEASES, MOD_QUERY_LEASE_TIME_TO_LIVE, MOD_QUERY_HEADER}"
    using dec by (auto simp: query_decodes_def Let_def split: if_splits)
  then consider "last query = MOD_QUERY_KV_RANGE" | "last query = MOD_QUERY_LEASE_LEASES" | "last query = MOD_QUERY_LEASE_TIME_TO_LIVE" | "last query = MOD_QUERY_HEADER"
    by blast
  then show ?thesis
  proof cases
    case 1
    then show ?thesis using range_agrees [OF m, of L t query res] run ne dec
      by (auto simp: sm_Query_def mod_read_def native_query_def query_decodes_def MOD_QUERY_defs QUERY_defs)
  next
    case 2
    then show ?thesis using leases_agrees [OF m, of L t query res] run ne dec
      by (auto simp: sm_Query_def mod_read_def native_query_def query_decodes_def MOD_QUERY_defs QUERY_defs)
  next
    case 3
    then show ?thesis using ttl_agrees [OF m, of L t query res] run ne dec
      by (auto simp: sm_Query_def mod_read_def native_query_def query_decodes_def MOD_QUERY_defs QUERY_defs)
  next
    case 4
    then show ?thesis using reply_agrees [OF m] run ne rv
      by (simp add: sm_Query_def mod_read_def native_query_def query_Header_def MOD_QUERY_defs QUERY_defs)
  qed
qed

section \<open>The order of the revisions\<close>

text \<open>A command advances the revision and the queue together: one revision after the other, none left out.\<close>

definition revs_from :: "u64 \<Rightarrow> (u64 \<times> bytes list) list \<Rightarrow> bool" where
  "revs_from r q \<longleftrightarrow> map fst q = map (\<lambda>i. r + of_nat (Suc i)) [0..<length q]"

definition q_step :: "'t mtx \<Rightarrow> 't mtx \<Rightarrow> bool" where
  "q_step x x' \<longleftrightarrow> (\<exists>q. x_queue x' = x_queue x @ q \<and> revs_from (x_newRev x) q \<and> x_newRev x' = x_newRev x + of_nat (length q))"

lemma revs_from_append: "revs_from r (p @ q) \<longleftrightarrow> revs_from r p \<and> revs_from (r + of_nat (length p)) q"
proof -
  have "[0..<length p + length q] = [0..<length p] @ map (\<lambda>i. length p + i) [0..<length q]"
    by (rule nth_equalityI) (simp_all add: nth_append)
  then show ?thesis by (simp add: revs_from_def comp_def add.assoc add.left_commute)
qed

lemma q_step_refl [simp]: "q_step x x" "q_step x (x\<lparr>x_txn := t\<rparr>)" "q_step x (x\<lparr>x_epoch := e\<rparr>)"
  by (auto simp: q_step_def revs_from_def)

lemma q_step_trans: "q_step x y \<Longrightarrow> q_step y z \<Longrightarrow> q_step x z"
  unfolding q_step_def by (elim exE) (rule exI, auto simp: revs_from_append)

lemma q_step_queue [simp]: "q_step x (queueRev (x\<lparr>x_txn := t\<rparr>) ks)" "q_step x (queueRev x ks)"
  by (auto simp: q_step_def queueRev_def revs_from_def)

lemma orPanic_InrE: "orPanic m f = Inr b \<Longrightarrow> (\<And>a. m = Inr a \<Longrightarrow> f a = Inr b \<Longrightarrow> P) \<Longrightarrow> P"
  by (cases m) (auto simp: orPanic_def)

lemma orReturn_InrE: "orReturn r m f = Inr b \<Longrightarrow> (\<And>e. m = Inl e \<Longrightarrow> b = r e \<Longrightarrow> P) \<Longrightarrow> (\<And>a. m = Inr a \<Longrightarrow> f a = Inr b \<Longrightarrow> P) \<Longrightarrow> P"
  by (cases m) (auto simp: orReturn_def split: if_splits)

lemma if_InrE: "(if c then a else b) = Inr r \<Longrightarrow> (c \<Longrightarrow> a = Inr r \<Longrightarrow> P) \<Longrightarrow> (\<not> c \<Longrightarrow> b = Inr r \<Longrightarrow> P) \<Longrightarrow> P"
  by (simp split: if_splits)

lemma expire_q: "mod_expire L e lid st = Inr st' \<Longrightarrow> q_step (snd st) (snd st')"
  by (cases st) (auto simp: mod_expire_def elim!: orPanic_InrE)

lemma exp_loop_q:
  "dbLeaseExp_scan_loop L n e (mod_expire L e) cur st = Inr st' \<Longrightarrow> q_step (snd st) (snd st')"
proof (induction n arbitrary: cur st)
  case (Suc n)
  from Suc.prems show ?case
    by (auto simp: Let_def elim!: bindE_InrE intro: q_step_trans [OF expire_q Suc.IH] split: sum.splits if_splits prod.splits)
qed simp

lemma compact_q: "mod_tick_compact env L index x = Inr (x', v, d) \<Longrightarrow> q_step x x'"
  by (auto simp: mod_tick_compact_def elim!: orReturn_InrE orPanic_InrE split: sum.splits prod.splits if_splits)

lemma tick_q: "mod_Tick env L index cmd x = Inr (x', v, d) \<Longrightarrow> q_step x x'"
proof -
  assume run: "mod_Tick env L index cmd x = Inr (x', v, d)"
  show ?thesis
  proof (cases "q_step x x'")
    case False
    then obtain t1 t2 x2 where t: "dbLeaseExp_scan L (x_epoch x + 1) (mod_expire L (x_epoch x + 1)) (t1, x\<lparr>x_epoch := x_epoch x + 1\<rparr>) = Inr (t2, x2)"
      "mod_tick_compact env L index (x2\<lparr>x_txn := t2\<rparr>) = Inr (x', v, d)"
      using run by (auto simp: mod_Tick_def Let_def elim!: orPanic_InrE bindE_InrE split: option.splits if_splits)
    have q: "q_step (x\<lparr>x_epoch := x_epoch x + 1\<rparr>) x2"
      using t(1) by (auto simp: dbLeaseExp_scan_def simp del: dbLeaseExp_scan_loop.simps dest!: exp_loop_q split: sum.splits)
    show ?thesis by (rule q_step_trans [OF q_step_trans [OF q_step_refl(3) q] q_step_trans [OF q_step_refl(2) compact_q [OF t(2)]]])
  qed
qed

lemma commands_q:
  "mod_DeleteRange env L cmd x = Inr (x', v, d) \<Longrightarrow> q_step x x'" "mod_Compact env L cmd x = Inr (x', v, d) \<Longrightarrow> q_step x x'"
  "mod_Txn env L cmd x = Inr (x', v, d) \<Longrightarrow> q_step x x'" "mod_LeaseGrant env L cmd x = Inr (x', v, d) \<Longrightarrow> q_step x x'"
  "mod_LeaseRevoke env L cmd x = Inr (x', v, d) \<Longrightarrow> q_step x x'" "mod_LeaseKeepAlive env L cmd x = Inr (x', v, d) \<Longrightarrow> q_step x x'"
  "mod_LeaseKeepAliveBatch env L cmd x = Inr (x', v, d) \<Longrightarrow> q_step x x'" "mod_Term env L index cmd x = Inr (x', v, d) \<Longrightarrow> q_step x x'"
  by (auto simp: mod_DeleteRange_def mod_Compact_def mod_Txn_def mod_LeaseGrant_def mod_LeaseRevoke_def mod_LeaseKeepAlive_def
      mod_LeaseKeepAliveBatch_def mod_Term_def Let_def elim!: orReturn_InrE orPanic_InrE split: option.splits prod.splits if_splits)

lemma put_q: "mod_Put env L cmd x = Inr (x', v, d) \<Longrightarrow> q_step x x'"
  by (auto simp: mod_Put_def Let_def elim!: orReturn_InrE orPanic_InrE split: option.splits sum.splits if_splits)

lemma command_q: "mod_command env L index cmd x = Inr (x', v, d) \<Longrightarrow> q_step x x'"
  unfolding mod_command_def Let_def
  by (elim if_InrE; (rule put_q commands_q tick_q, assumption)?) auto

text \<open>The revisions flushed since the module was opened are those between the revision it was opened at and the stored one,
  and the queued ones continue them.\<close>

definition flush_inv :: "'t lmdb \<Rightarrow> u64 \<Rightarrow> 't mstate \<Rightarrow> bool" where
  "flush_inv L r0 s \<longleftrightarrow> (\<exists>r. getRevision L (m_db s) = Inr r \<and> revs_from r0 (m_flushed s) \<and> r = r0 + of_nat (length (m_flushed s)) \<and>
     (m_txn s \<noteq> None \<longrightarrow> m_oldRev s = r \<and> revs_from r (m_queue s) \<and> m_newRev s = r + of_nat (length (m_queue s))))"

text \<open>The states the module goes through after it was opened on the store \<open>t\<close>, by the entry points of the host, until it is
  opened again.\<close>

inductive mod_run :: "'x sm_env_scheme \<Rightarrow> 't lmdb \<Rightarrow> ('t \<Rightarrow> dbi \<Rightarrow> entry list) \<Rightarrow> 't \<Rightarrow> 't mstate \<Rightarrow> bool" for env L view t where
  run_init: "mod_run env L view t (mod_init t)"
| run_update: "mod_run env L view t s \<Longrightarrow> mod_cmd_ok env L view s cmd \<Longrightarrow> mod_update env L index cmd s = Inr (s', v, d) \<Longrightarrow>
    mod_run env L view t s'"
| run_finish: "mod_run env L view t s \<Longrightarrow> mod_finish L s = Inr s' \<Longrightarrow> mod_run env L view t s'"

context lmdb
begin

lemma update_flush:
  assumes inv: "m_inv env view s" "flush_inv L r0 s" and run: "mod_update env L index cmd s = Inr (s', v, d)"
  shows "flush_inv L r0 s'"
proof -
  from begin_inv [OF inv(1)] obtain t s1 where b: "mod_begin L s = Inr (t, s1)" by blast
  from inv(2) obtain r where r: "getRevision L (m_db s) = Inr r" "revs_from r0 (m_flushed s)" "r = r0 + of_nat (length (m_flushed s))"
    "m_txn s \<noteq> None \<Longrightarrow> m_oldRev s = r \<and> revs_from r (m_queue s) \<and> m_newRev s = r + of_nat (length (m_queue s))"
    unfolding flush_inv_def by blast
  have s1: "m_db s1 = m_db s" "m_flushed s1 = m_flushed s" "m_oldRev s1 = r" "revs_from r (m_queue s1)" "m_newRev s1 = r + of_nat (length (m_queue s1))"
    using b r inv(1) by (auto simp: mod_begin_def orPanic_def m_inv_def revs_from_def split: option.splits sum.splits)
  from run b obtain x where x: "mod_command env L index cmd (mtx_of t s1) = Inr (x, v, d)"
    "s' = s1\<lparr>m_newIndex := index, m_txn := Some (x_txn x), m_epoch := x_epoch x, m_newRev := x_newRev x, m_queue := x_queue x\<rparr>"
    by (auto simp: mod_update_def mtx_of_def elim!: bindE_InrE)
  from command_q [OF x(1)] obtain q where "x_queue x = m_queue s1 @ q" "revs_from (m_newRev s1) q" "x_newRev x = m_newRev s1 + of_nat (length q)"
    by (auto simp: q_step_def mtx_of_def)
  then show ?thesis using r(1-3) s1 x(2) by (auto simp: flush_inv_def revs_from_append)
qed

lemma finish_flush:
  assumes inv: "m_inv env view s" "flush_inv L r0 s" and run: "mod_finish L s = Inr s'"
  shows "flush_inv L r0 s'"
proof -
  from run obtain t where t: "m_txn s = Some t" by (auto simp: mod_finish_def split: option.splits)
  from inv(2) t obtain r where r: "revs_from r0 (m_flushed s)" "r = r0 + of_nat (length (m_flushed s))" "revs_from r (m_queue s)"
    "m_newRev s = r + of_nat (length (m_queue s))" unfolding flush_inv_def by auto
  from finish_inv [OF inv(1) t] run have "m_flushed s' = m_flushed s @ m_queue s" "getRevision L (m_db s') = Inr (m_newRev s)" "m_txn s' = None" by auto
  then show ?thesis using r unfolding flush_inv_def by (intro exI [of _ "m_newRev s"]) (simp add: revs_from_append)
qed

lemma run_flush:
  assumes "mod_run env L view t s" "mod_reach env L view (mod_init t)" "sm_env_ok env" "getRevision L t = Inr r0"
  shows "mod_reach env L view s \<and> flush_inv L r0 s"
  using assms
proof (induction rule: mod_run.induct)
  case run_init
  then show ?case by (auto simp: flush_inv_def mod_init_def revs_from_def)
next
  case (run_update s cmd index s' v d)
  then show ?case using update_flush [OF mod_reach_inv] mod_reach.mr_update by blast
next
  case (run_finish s s')
  then show ?case using finish_flush [OF mod_reach_inv] mod_reach.mr_finish by blast
qed

end

section \<open>Properties\<close>

text \<open>C6: in every reachable state of the module, an update with a command it can apply and the \<open>finish\<close> after it succeed
  (none of the panics of \<open>main.go\<close> is reached); the index of the entry is stored, and the stored revision never goes back.\<close>

theorem module_applies:
  assumes "lmdb L view" "sm_env_ok env" "mod_reach env L view s" "mod_cmd_ok env L view s cmd"
  shows "\<exists>s1 v d s2 n. mod_update env L index cmd s = Inr (s1, v, d) \<and> mod_finish L s1 = Inr s2 \<and> m_txn s2 = None \<and>
    getIndex L (m_db s2) = Inr index \<and> getRevision L (m_db s) = Inr n \<and> getRevision L (m_db s2) = Inr (m_newRev s1) \<and> n \<le> m_newRev s1"
  by (rule lmdb.update_finish [OF assms(1,2) lmdb.mod_reach_inv [OF assms(1,3,2)] assms(4)])

text \<open>C5: the module is the native state machine. For a batch of well-formed entries without compactions and ticks, \<open>update\<close> for every entry and
  \<open>finish\<close> leave the very store that \<open>Update\<close> of \<open>state_machine.go\<close> leaves, at the same revision, and as long as every
  command can be decoded they answer every entry with the same value and data.\<close>

theorem module_batch_agrees:
  assumes "lmdb L view" "sm_env_ok env" "mod_reach env L view s" "m_txn s = None" "batch_ok env L view (m_db s) (entries_of ents)"
    and "list_all (\<lambda>(i, cmd). plain_cmd cmd) ents"
  shows "\<exists>res s' rs. sm_Update env L (m_db s) (entries_of ents) = Inr res \<and> mod_batch env L ents s = Inr (s', rs) \<and>
    m_db s' = ur_txn res \<and> m_txn s' = None \<and> m_newRev s' = ur_newRev res \<and>
    (list_all (\<lambda>(i, cmd). cmd_decodes env cmd) ents \<longrightarrow> rs = results (ur_entries res))"
  by (rule lmdb.batch_agrees [OF assms(1,2) lmdb.mod_reach_inv [OF assms(1,3,2)] assms(4-6)])

text \<open>C12: the queries of the module are those of the native machine. In every reachable state a range, lease list, time-to-live or
  header query whose body can be decoded, a range query to a request with a key, is answered with the value and the data
  \<open>Query\<close> of \<open>state_machine.go\<close> answers it with. The progress query is not among them: the module answers it from its watches.\<close>

theorem module_reads_agree:
  assumes "lmdb L view" "sm_env_ok env" "mod_reach env L view s" "query \<noteq> []" "query_decodes env query"
    and "\<forall>req. last query = MOD_QUERY_KV_RANGE \<and> unmarshal_RangeRequest env (butlast query) = Some req \<longrightarrow> RangeRequest_Key req \<noteq> []"
  shows "\<exists>res. sm_Query env L (m_db s) (butlast query @ [native_query (last query)]) = Inr (Some res) \<and>
    mod_read env L progress (m_db s) query = Inr (Res_Value res, Res_Data res)"
proof -
  have ok: "sm_ok env view (m_db s)" using lmdb.mod_reach_inv [OF assms(1,3,2)] by (simp add: m_inv_def)
  have m: "\<exists>d. marshal env y = Inr d" for y using assms(2) by (simp add: sm_env_ok_def)
  have "counters_ok view (m_db s)" using ok by (simp add: sm_ok_def)
  from lmdb.counter_get(2) [OF assms(1) this] obtain n where n: "getRevision L (m_db s) = Inr n" by blast
  have "native_query (last query) = QUERY_KV_RANGE \<Longrightarrow> last query = MOD_QUERY_KV_RANGE"
    using assms(5) by (auto simp: query_decodes_def native_query_def MOD_QUERY_defs QUERY_defs split: if_splits)
  with lmdb.sm_Query_spec [OF assms(1,2) ok, of "butlast query @ [native_query (last query)]"] assms(6) obtain res where
    r: "sm_Query env L (m_db s) (butlast query @ [native_query (last query)]) = Inr (Some res)" by auto
  from read_agrees [OF m r assms(4,5) n] r show ?thesis by blast
qed

text \<open>C14: a tick of the module, unless its term has expired, is the native tick and a compaction. Against the store the native
  \<open>update_Tick\<close> leaves it has the same epoch and revision, the same counters (the one that records compactions aside) and the
  same leases, expiries and attached keys, and every read of a key at the latest revision, or, once a positive smallest revision
  has been requested, from that revision on, returns what it returns there: when the compaction fails as well.\<close>

theorem module_tick_keeps_reads:
  assumes "lmdb L view" "sm_env_ok env" "mod_reach env L view s" "m_txn s = None" "mod_cmd_ok env L view s (body @ [MOD_CMD_INTERNAL_TICK])"
    and "getEpoch L (m_db s) = Inr e" "getRevision L (m_db s) = Inr n" "getTerm L (m_db s) = Inr a"
    and "unmarshal_TickRequest env body = Some req" "a \<le> TickRequest_Term req"
  shows "\<exists>u' ent' s' v d t' mn. update_Tick env L \<lparr>u_txn = m_db s, u_epoch = e, u_newRev = n, u_keys = []\<rparr>
        (entry_of index (body @ [MOD_CMD_INTERNAL_TICK])) = Inr (u', ent') \<and>
      mod_update env L index (body @ [MOD_CMD_INTERNAL_TICK]) s = Inr (s', v, d) \<and> m_txn s' = Some t' \<and>
      m_epoch s' = u_epoch u' \<and> m_newRev s' = u_newRev u' \<and> getRevisionMin L (u_txn u') = Inr mn \<and>
      (\<forall>d. d \<notin> {DBI_revision, DBI_value, DBI_event, DBI_meta} \<longrightarrow> view t' d = view (u_txn u') d) \<and> (\<forall>i. dbLease_get L t' i = dbLease_get L (u_txn u') i) \<and>
      (\<forall>key. key \<noteq> metaKeyRevisionCompacted \<longrightarrow> counter view t' key = counter view (u_txn u') key) \<and>
      (\<forall>k r. k \<noteq> [] \<and> (r = 0 \<or> 0 < mn \<and> mn \<le> r) \<longrightarrow> kv_read env L t' k r = kv_read env L (u_txn u') k r)"
  by (rule lmdb.tick_run_keeps [OF assms(1,2) lmdb.mod_reach_inv [OF assms(1,3,2)] assms(4-10)])

text \<open>C13: the watches are told of every revision. After the module was opened on a store at revision \<open>r0\<close>, empty or with the
  state of an earlier run, the revisions flushed since are, in order and without a gap, \<open>r0 + 1\<close> up to the stored revision; what
  is queued continues them.\<close>

theorem module_flush_order:
  assumes "lmdb L view" "sm_env_ok env" "mod_reach env L view (mod_init t)" "mod_run env L view t s" "getRevision L t = Inr r0"
  shows "\<exists>r. getRevision L (m_db s) = Inr r \<and> r = r0 + of_nat (length (m_flushed s)) \<and>
    map fst (m_flushed s) = map (\<lambda>i. r0 + of_nat (Suc i)) [0..<length (m_flushed s)] \<and>
    (m_txn s \<noteq> None \<longrightarrow> map fst (m_queue s) = map (\<lambda>i. r + of_nat (Suc i)) [0..<length (m_queue s)] \<and> m_newRev s = r + of_nat (length (m_queue s)))"
  using lmdb.run_flush [OF assms(1,4,3,2,5)] unfolding flush_inv_def revs_from_def by blast

text \<open>C38: a transaction that puts one key twice is answered with \<open>ErrGRPCDuplicateKey\<close> and writes nothing, but its revision
  is stored and flushed to the watches. No event has it, and \<open>revScan\<close>, which every notified watch calls, panics.\<close>

theorem module_duplicate_txn:
  assumes "lmdb L view" "sm_env_ok env" "\<not> PCB_TXN_MULTI_WRITE_ENABLED env" "mod_reach env L view s" "m_txn s = None"
    and "getRevision L (m_db s) = Inr n" "unat n + 1 < 2 ^ 52"
    and "unmarshal_TxnRequest env body = Some req" "TxnRequest_Compare req = []" "TxnRequest_Success req = [RequestPut p, RequestPut q]"
    and "put_wf p" "2 \<le> length (PutRequest_Key p)" "length (PutRequest_Key p) \<le> PCB_LIMIT_KEY_LENGTH" "PutRequest_Key q = PutRequest_Key p"
  shows "\<exists>s1 s2. mod_update env L index (body @ [MOD_CMD_KV_TXN]) s = Inr (s1, 0, err_Error env ErrGRPCDuplicateKey) \<and> m_txn s1 = Some (m_db s) \<and>
    mod_finish L s1 = Inr s2 \<and> getRevision L (m_db s2) = Inr (n + 1) \<and>
    m_flushed s2 = m_flushed s @ [(n + 1, [PutRequest_Key p])] \<and> revScan L (m_db s2) [n + 1] [] = Inl GoPanic"
  by (rule lmdb.dup_txn_run [OF assms(1-3) lmdb.mod_reach_inv [OF assms(1,4,2)] assms(5-14)])

section \<open>Concrete runs\<close>

definition dup_env :: sm_env where
  "dup_env = wit_env\<lparr>unmarshal_TxnRequest := (\<lambda>_. Some \<lparr>TxnRequest_Compare = [],
     TxnRequest_Success = [RequestPut wit_put, RequestPut wit_put], TxnRequest_Failure = []\<rparr>)\<rparr>"

lemma dup_env_ok: "sm_env_ok dup_env" "\<not> PCB_TXN_MULTI_WRITE_ENABLED dup_env"
proof -
  show "sm_env_ok dup_env" using wit_env_ok unfolding dup_env_def
    by (simp add: sm_env_ok_def env_ok_def snappy_ok_def pools_ok_def label_ok_def)
  show "\<not> PCB_TXN_MULTI_WRITE_ENABLED dup_env"
    by (simp add: dup_env_def wit_env_def plain_sm_env_def plain_env_def default_config_def config.defs env.defs)
qed

lemma module_start:
  assumes "sm_env_ok env"
  obtains t where "mod_open mem_lmdb mem_empty = Inr (t, 0)" "mod_reach env mem_lmdb mem_view (mod_init t)" "getRevision mem_lmdb t = Inr 1"
    "getEpoch mem_lmdb t = Inr 0" "getTerm mem_lmdb t = Inr 0" "mdb_Entries mem_lmdb t DBI_lease_exp = 0"
proof -
  from mem.open_empty [of mem_empty env] obtain t where
    t: "sm_Open mem_lmdb mem_empty = Inr (t, 0)" "counter mem_view t metaKeyRevision = Inr 1" "\<forall>d. d \<noteq> DBI_meta \<longrightarrow> mem_view t d = []"
    "counter mem_view t metaKeyTerm = Inr 0" "counter mem_view t metaKeyEpoch = Inr 0" by auto
  have o: "mod_open mem_lmdb mem_empty = Inr (t, 0)" by (rule mod_open_Inr [OF t(1)])
  have "mod_reach env mem_lmdb mem_view (mod_init t)" by (rule mod_reach.mr_open [OF _ o]) simp
  moreover have "getRevision mem_lmdb t = Inr 1" "getEpoch mem_lmdb t = Inr 0" "getTerm mem_lmdb t = Inr 0"
    using t(2,4,5) by (simp_all add: getRevision_def getEpoch_def getTerm_def mem.getUint64_counter)
  moreover have "mdb_Entries mem_lmdb t DBI_lease_exp = 0" using t(3) by (simp add: mem.Entries)
  ultimately show ?thesis by (rule that [OF o])
qed

lemma module_start_ok:
  assumes "getRevision mem_lmdb t = Inr 1" "getEpoch mem_lmdb t = Inr 0" "mdb_Entries mem_lmdb t DBI_lease_exp = 0"
  shows "mod_cmd_ok wit_env mem_lmdb mem_view (mod_init t) [MOD_CMD_KV_PUT]" "mod_cmd_ok wit_env mem_lmdb mem_view (mod_init t) [MOD_CMD_INTERNAL_TICK]"
    "batch_ok wit_env mem_lmdb mem_view t (entries_of [(7, [MOD_CMD_KV_PUT])])"
  using assms by (simp_all add: mod_cmd_ok_def mod_begin_def mod_init_def mod_entry_ok_def entry_ok_def body_ok_def put_req_ok_def wit_put_def entry_of_def
      native_number_def MOD_CMD_defs CMD_defs cmd_body_def upd_of_def mtx_of_def batch_ok_def entries_of_def split: sum.splits)

theorem module_applies_witness:
  "\<exists>t i s1 v d s2. mod_open mem_lmdb mem_empty = Inr (t, i) \<and> mod_update wit_env mem_lmdb 7 [MOD_CMD_KV_PUT] (mod_init t) = Inr (s1, v, d) \<and>
     mod_finish mem_lmdb s1 = Inr s2 \<and> getIndex mem_lmdb (m_db s2) = Inr 7"
proof -
  obtain t where t: "mod_open mem_lmdb mem_empty = Inr (t, 0)" "mod_reach wit_env mem_lmdb mem_view (mod_init t)" "getRevision mem_lmdb t = Inr 1"
    "getEpoch mem_lmdb t = Inr 0" "mdb_Entries mem_lmdb t DBI_lease_exp = 0" by (rule module_start [OF wit_env_ok])
  from module_applies [OF mem.lmdb_axioms wit_env_ok t(2) module_start_ok(1) [OF t(3-5)], of 7] t(1) show ?thesis by blast
qed

theorem module_batch_agrees_witness:
  "\<exists>t i res s' rs. mod_open mem_lmdb mem_empty = Inr (t, i) \<and> sm_Update wit_env mem_lmdb t (entries_of [(7, [MOD_CMD_KV_PUT])]) = Inr res \<and>
     mod_batch wit_env mem_lmdb [(7, [MOD_CMD_KV_PUT])] (mod_init t) = Inr (s', rs) \<and> m_db s' = ur_txn res \<and> rs = results (ur_entries res)"
proof -
  obtain t where t: "mod_open mem_lmdb mem_empty = Inr (t, 0)" "mod_reach wit_env mem_lmdb mem_view (mod_init t)" "getRevision mem_lmdb t = Inr 1"
    "getEpoch mem_lmdb t = Inr 0" "mdb_Entries mem_lmdb t DBI_lease_exp = 0" by (rule module_start [OF wit_env_ok])
  have m: "m_db (mod_init t) = t" "m_txn (mod_init t) = None" by (simp_all add: mod_init_def)
  have "list_all (\<lambda>(i, cmd). plain_cmd cmd) [(7, [MOD_CMD_KV_PUT])]" "list_all (\<lambda>(i, cmd). cmd_decodes wit_env cmd) [(7, [MOD_CMD_KV_PUT])]"
    by (simp_all add: plain_cmd_def cmd_decodes_def MOD_CMD_defs)
  with module_batch_agrees [OF mem.lmdb_axioms wit_env_ok t(2) m(2), of "[(7, [MOD_CMD_KV_PUT])]"] module_start_ok(3) [OF t(3-5)] t(1) m(1)
  show ?thesis by auto
qed

theorem module_reads_agree_witness:
  "\<exists>t req res res'. mod_open mem_lmdb mem_empty = Inr (t, 0) \<and> unmarshal_RangeRequest query_env [] = Some req \<and> RangeRequest_Key req = [] \<and>
     sm_Query query_env mem_lmdb t [QUERY_HEADER] = Inr (Some res) \<and>
     mod_read query_env mem_lmdb 0 t [MOD_QUERY_HEADER] = Inr (Res_Value res, Res_Data res) \<and>
     sm_Query query_env mem_lmdb t [97, 98, QUERY_KV_RANGE] = Inr (Some res') \<and>
     mod_read query_env mem_lmdb 0 t [97, 98, MOD_QUERY_KV_RANGE] = Inr (Res_Value res', Res_Data res')"
proof -
  obtain t where t: "mod_open mem_lmdb mem_empty = Inr (t, 0)" "mod_reach query_env mem_lmdb mem_view (mod_init t)" by (rule module_start [OF query_env_ok])
  have m: "m_db (mod_init t) = t" by (simp add: mod_init_def)
  note r = module_reads_agree [OF mem.lmdb_axioms query_env_ok t(2), where progress = 0, unfolded m]
  have "query_decodes query_env [MOD_QUERY_HEADER]" "native_query MOD_QUERY_HEADER = QUERY_HEADER" "MOD_QUERY_HEADER \<noteq> MOD_QUERY_KV_RANGE"
    "query_decodes query_env [97, 98, MOD_QUERY_KV_RANGE]" "native_query MOD_QUERY_KV_RANGE = QUERY_KV_RANGE"
    "\<forall>req. unmarshal_RangeRequest query_env [97, 98] = Some req \<longrightarrow> RangeRequest_Key req \<noteq> []"
    "\<exists>req. unmarshal_RangeRequest query_env [] = Some req \<and> RangeRequest_Key req = []"
    by (auto simp: query_decodes_def native_query_def query_env_def MOD_QUERY_defs QUERY_defs)
  with r [of "[MOD_QUERY_HEADER]"] r [of "[97, 98, MOD_QUERY_KV_RANGE]"] t(1) show ?thesis by auto
qed

theorem module_tick_keeps_reads_witness:
  "\<exists>t i u' ent' s' v d t'. mod_open mem_lmdb mem_empty = Inr (t, i) \<and>
     update_Tick wit_env mem_lmdb \<lparr>u_txn = t, u_epoch = 0, u_newRev = 1, u_keys = []\<rparr> (entry_of 7 [MOD_CMD_INTERNAL_TICK]) = Inr (u', ent') \<and>
     mod_update wit_env mem_lmdb 7 [MOD_CMD_INTERNAL_TICK] (mod_init t) = Inr (s', v, d) \<and> m_txn s' = Some t' \<and> m_epoch s' = u_epoch u' \<and>
     kv_read wit_env mem_lmdb t' [97, 98] 0 = kv_read wit_env mem_lmdb (u_txn u') [97, 98] 0 \<and>
     dbLease_get mem_lmdb t' 5 = dbLease_get mem_lmdb (u_txn u') 5"
proof -
  obtain t where t: "mod_open mem_lmdb mem_empty = Inr (t, 0)" "mod_reach wit_env mem_lmdb mem_view (mod_init t)" "getRevision mem_lmdb t = Inr 1"
    "getEpoch mem_lmdb t = Inr 0" "getTerm mem_lmdb t = Inr 0" "mdb_Entries mem_lmdb t DBI_lease_exp = 0" by (rule module_start [OF wit_env_ok])
  have m: "m_db (mod_init t) = t" "m_txn (mod_init t) = None" by (simp_all add: mod_init_def)
  from module_tick_keeps_reads [OF mem.lmdb_axioms wit_env_ok t(2) m(2), of "[]" 0 1 0 "\<lparr>TickRequest_Term = 0\<rparr>" 7] module_start_ok(2) [OF t(3,4,6)] t m(1)
  obtain u' ent' s' v d t' mn where
    "update_Tick wit_env mem_lmdb \<lparr>u_txn = t, u_epoch = 0, u_newRev = 1, u_keys = []\<rparr> (entry_of 7 [MOD_CMD_INTERNAL_TICK]) = Inr (u', ent')"
    "mod_update wit_env mem_lmdb 7 [MOD_CMD_INTERNAL_TICK] (mod_init t) = Inr (s', v, d)" "m_txn s' = Some t'" "m_epoch s' = u_epoch u'"
    "\<forall>i. dbLease_get mem_lmdb t' i = dbLease_get mem_lmdb (u_txn u') i"
    "\<forall>k r. k \<noteq> [] \<and> (r = 0 \<or> 0 < mn \<and> mn \<le> r) \<longrightarrow> kv_read wit_env mem_lmdb t' k r = kv_read wit_env mem_lmdb (u_txn u') k r" by auto
  with t(1) show ?thesis by blast
qed

text \<open>The first put after the module was opened: revision 2 is flushed.\<close>

lemma put_run:
  assumes "mod_reach wit_env mem_lmdb mem_view (mod_init t)" "getRevision mem_lmdb t = Inr 1"
    and "mod_cmd_ok wit_env mem_lmdb mem_view (mod_init t) [MOD_CMD_KV_PUT]"
  shows "\<exists>s1 v d s2. mod_update wit_env mem_lmdb index [MOD_CMD_KV_PUT] (mod_init t) = Inr (s1, v, d) \<and> mod_finish mem_lmdb s1 = Inr s2 \<and> length (m_flushed s2) = 1"
proof -
  have inv: "m_inv wit_env mem_view (mod_init t)" by (rule mem.mod_reach_inv [OF assms(1) wit_env_ok])
  from mem.begin_inv [OF inv] obtain t' s where b: "mod_begin mem_lmdb (mod_init t) = Inr (t', s)" "upd_inv wit_env mem_view (upd_of (mtx_of t' s))" by blast
  have s: "t' = t" "m_newRev s = 1" "m_queue s = []" "m_flushed s = []"
    using b(1) assms(2) by (auto simp: mod_init_def mod_begin_def orPanic_def split: sum.splits)
  let ?x = "mtx_of t s"
  from b(2) s obtain c A where rel: "sm_rel wit_env mem_view t c A" "upper c \<le> 1" by (auto simp: upd_inv_def mtx_of_def)
  have "env_ok wit_env" "\<not> PCB_TXN_MULTI_WRITE_ENABLED wit_env" using wit_env_ok
    by (simp_all add: sm_env_ok_def wit_env_def plain_sm_env_def plain_env_def default_config_def config.defs env.defs)
  moreover have "upper c < 2" by (rule le_less_trans [OF rel(2)]) simp
  ultimately obtain t1 resp where p: "cmdPut wit_env mem_lmdb t 2 0 (m_epoch s) wit_put = Inr (t1, resp, 1, [[97, 98]])"
    using mem.cmdPut_dup [OF _ _ rel(1), of 2 wit_put wit_put "m_epoch s"]
    by (auto simp: put_wf_def wit_put_def PCB_LIMIT_KEY_LENGTH_def rev_fits_def)
  let ?x1 = "?x\<lparr>x_txn := t1, x_newRev := 2, x_queue := [(2, [[97, 98]])]\<rparr>"
  have "PutRequest_Lease wit_put = 0" "\<not> PutRequest_IgnoreValue wit_put" "\<not> PutRequest_IgnoreLease wit_put" by (simp_all add: wit_put_def)
  then have "mod_command wit_env mem_lmdb index [MOD_CMD_KV_PUT] ?x = Inr (?x1, 1, [])"
    using p s by (simp add: mod_command_def mod_Put_def MOD_CMD_defs queueRev_def mtx_of_def)
  then obtain s1 where u: "mod_update wit_env mem_lmdb index [MOD_CMD_KV_PUT] (mod_init t) = Inr (s1, 1, [])" "m_queue s1 = [(2, [[97, 98]])]" "m_flushed s1 = []"
    "m_txn s1 = Some t1" using b(1) s by (simp add: mod_update_def mtx_of_def)
  have "m_inv wit_env mem_view s1" using mem.update_inv [OF wit_env_ok inv assms(3), of index] u(1) by auto
  from mem.finish_inv [OF this u(4)] u show ?thesis by auto
qed

theorem module_flush_order_witness:
  "\<exists>t s1 v d s2. mod_open mem_lmdb mem_empty = Inr (t, 0) \<and> mod_update wit_env mem_lmdb 7 [MOD_CMD_KV_PUT] (mod_init t) = Inr (s1, v, d) \<and>
     mod_finish mem_lmdb s1 = Inr s2 \<and> getRevision mem_lmdb (m_db s2) = Inr 2 \<and> map fst (m_flushed s2) = [2]"
proof -
  obtain t where t: "mod_open mem_lmdb mem_empty = Inr (t, 0)" "mod_reach wit_env mem_lmdb mem_view (mod_init t)" "getRevision mem_lmdb t = Inr 1"
    "getEpoch mem_lmdb t = Inr 0" "mdb_Entries mem_lmdb t DBI_lease_exp = 0" by (rule module_start [OF wit_env_ok])
  note ok = module_start_ok(1) [OF t(3-5)]
  from put_run [OF t(2,3) ok, of 7] obtain s1 v d s2 where
    s: "mod_update wit_env mem_lmdb 7 [MOD_CMD_KV_PUT] (mod_init t) = Inr (s1, v, d)" "mod_finish mem_lmdb s1 = Inr s2" "length (m_flushed s2) = 1"
    by blast
  have "mod_run wit_env mem_lmdb mem_view t s2" by (rule run_finish [OF run_update [OF run_init ok s(1)] s(2)])
  from module_flush_order [OF mem.lmdb_axioms wit_env_ok t(2) this t(3)] s(3) have
    "getRevision mem_lmdb (m_db s2) = Inr 2" "map fst (m_flushed s2) = [2]" by auto
  with t(1) s(1,2) show ?thesis by (intro exI conjI)
qed

theorem module_duplicate_txn_witness:
  "\<exists>t i s1 d s2. mod_open mem_lmdb mem_empty = Inr (t, i) \<and> mod_update dup_env mem_lmdb 7 [MOD_CMD_KV_TXN] (mod_init t) = Inr (s1, 0, d) \<and>
     mod_finish mem_lmdb s1 = Inr s2 \<and> m_flushed s2 = [(2, [[97, 98]])] \<and> revScan mem_lmdb (m_db s2) [2] [] = Inl GoPanic"
proof -
  obtain t where t: "mod_open mem_lmdb mem_empty = Inr (t, 0)" "mod_reach dup_env mem_lmdb mem_view (mod_init t)" "getRevision mem_lmdb t = Inr 1"
    by (rule module_start [OF dup_env_ok(1)])
  have m: "m_db (mod_init t) = t" "m_txn (mod_init t) = None" "m_flushed (mod_init t) = []" by (simp_all add: mod_init_def)
  have w: "put_wf wit_put" "2 \<le> length (PutRequest_Key wit_put)" "length (PutRequest_Key wit_put) \<le> PCB_LIMIT_KEY_LENGTH" "PutRequest_Key wit_put = [97, 98]"
    by (simp_all add: put_wf_def wit_put_def PCB_LIMIT_KEY_LENGTH_def)
  from module_duplicate_txn [OF mem.lmdb_axioms dup_env_ok t(2) m(2), of 1 "[]"
      "\<lparr>TxnRequest_Compare = [], TxnRequest_Success = [RequestPut wit_put, RequestPut wit_put], TxnRequest_Failure = []\<rparr>" wit_put wit_put 7] t w m
  show ?thesis by (auto simp: dup_env_def)
qed

end
