(* ===== verification/Module_Watch.thy ===== *)
theory Module_Watch
  imports Module_Correct Sm_Query
begin

text \<open>
  The watches of the module, \<open>src/module/storage-kv/stream.go\<close>: \<open>streamRecv\<close>, \<open>watchStart\<close>, \<open>watchScan\<close> and
  \<open>rangeWatchRecv\<close>.

  The host keeps the watches: \<open>range_watch\<close> (the intervals, and the notices with the revisions flushed by \<open>finish\<close>),
  \<open>small_cache\<close> (the marshalled requests by watch id) and the atomics (the last id, the revision a watch has been told
  of, the progress). Its calls are the fields of the record \<open>host\<close>, over a state of its own. What \<open>raft.StreamSend\<close> is
  given is a list of pairs of the value and the data.

  \<open>range reqs\<close> at the end of \<open>rangeWatchRecv\<close> visits a map in no fixed order: the model visits it in the order of insertion.
\<close>

declare split_paired_Ex [simp del] split_paired_All [simp del]

section \<open>The host and the messages\<close>

record 'h host =
  rw_Reserve :: "'h \<Rightarrow> bytes \<Rightarrow> 'h option"
  rw_Open :: "'h \<Rightarrow> bytes \<Rightarrow> bytes \<Rightarrow> bytes \<Rightarrow> 'h option"
  rw_OpenStart :: "'h \<Rightarrow> bytes \<Rightarrow> bytes \<Rightarrow> bytes \<Rightarrow> 'h option"
  rw_Start :: "'h \<Rightarrow> bytes \<Rightarrow> 'h option"
  rw_Stop :: "'h \<Rightarrow> bytes \<Rightarrow> 'h"
  wc_Get :: "'h \<Rightarrow> bytes \<Rightarrow> bytes"
  wc_Put :: "'h \<Rightarrow> bytes \<Rightarrow> bytes \<Rightarrow> 'h"
  wc_Del :: "'h \<Rightarrow> bytes \<Rightarrow> 'h"
  wc_Min :: "'h \<Rightarrow> bytes"
  wr_Load :: "'h \<Rightarrow> u64 \<Rightarrow> u64"
  wr_Store :: "'h \<Rightarrow> u64 \<Rightarrow> u64 \<Rightarrow> 'h"
  wr_Del :: "'h \<Rightarrow> u64 \<Rightarrow> 'h"
  wid_Add :: "'h \<Rightarrow> 'h \<times> u64"
  wp_Store :: "'h \<Rightarrow> u64 \<Rightarrow> 'h"

record Notice =
  Notice_Val :: u64
  Notice_IDs :: "bytes list"

definition MOD_WatchMessageType_CANCELED :: byte where "MOD_WatchMessageType_CANCELED = 1"
definition MOD_WatchMessageType_ERR_COMPACTED :: byte where "MOD_WatchMessageType_ERR_COMPACTED = 2"
definition MOD_WatchMessageType_ERR_EXISTS :: byte where "MOD_WatchMessageType_ERR_EXISTS = 3"
definition MOD_WatchMessageType_EVENT_BATCH :: byte where "MOD_WatchMessageType_EVENT_BATCH = 4"
definition MOD_WatchMessageType_EVENT_SYNC :: byte where "MOD_WatchMessageType_EVENT_SYNC = 5"
definition MOD_WatchMessageType_INIT :: byte where "MOD_WatchMessageType_INIT = 6"
definition MOD_WatchMessageType_NOTIFY :: byte where "MOD_WatchMessageType_NOTIFY = 7"

record WatchEventBatch =
  WatchEventBatch_Event :: Event
  WatchEventBatch_Revision :: u64
  WatchEventBatch_WatchIds :: "i64 list"
  WatchEventBatch_WatchIdsPrev :: "i64 list"

record WatchEventSync =
  WatchEventSync_IDs :: "i64 list"
  WatchEventSync_Revision :: u64

datatype stream_message = SBatch WatchEventBatch | SSync WatchEventSync

datatype mod_request =
    MR_Create WatchCreateRequest | MR_Cancel i64 | MR_Progress | MR_Other

record mod_env = sm_env +
  marshal_stream :: "stream_message \<Rightarrow> bytes result"
  marshal_create :: "WatchCreateRequest \<Rightarrow> bytes result"
  unmarshal_create :: "bytes \<Rightarrow> WatchCreateRequest option"
  unmarshal_WatchRequest :: "bytes \<Rightarrow> mod_request option"

type_synonym sends = "(u64 \<times> bytes) list"

definition sendCodeHeader :: "'x sm_env_scheme \<Rightarrow> u64 \<Rightarrow> byte \<Rightarrow> u64 \<Rightarrow> (u64 \<times> bytes) result" where
  "sendCodeHeader env val code rv = orPanic (marshal env (MHeader (responseHeader env rv))) (\<lambda>data. Inr (val, code # data))"

definition sendCodeMsg :: "'x mod_env_scheme \<Rightarrow> u64 \<Rightarrow> byte \<Rightarrow> stream_message \<Rightarrow> (u64 \<times> bytes) result" where
  "sendCodeMsg env val code msg = orPanic (marshal_stream env msg) (\<lambda>data. Inr (val, code # data))"

section \<open>watchScan\<close>

text \<open>The tests of the loops: the key against the key and the end of the range, and the filters.\<close>

definition mod_in_range :: "WatchCreateRequest \<Rightarrow> bytes \<Rightarrow> bool" where
  "mod_in_range req k =
     (if k < WatchCreateRequest_Key req then False
      else if WatchCreateRequest_Key req < k then \<not> WatchCreateRequest_RangeEnd req \<le> k
      else True)"

definition mod_filtered :: "WatchCreateRequest \<Rightarrow> kvEvent \<Rightarrow> bool" where
  "mod_filtered req evt = list_ex (\<lambda>f. etype evt = f) (WatchCreateRequest_Filters req)"

text \<open>The pair of versions of an event. The error of the lookup for a deletion is left in the variable \<open>err\<close>.\<close>

definition mod_versions :: "'x env_scheme \<Rightarrow> 't lmdb \<Rightarrow> 't \<Rightarrow> bool \<Rightarrow> kvEvent \<Rightarrow> error option \<Rightarrow> (kv \<times> kv \<times> error option) result" where
  "mod_versions env L t withPrev evt err =
     (if isdel (evt_rev evt) then
        let current = kv_zero\<lparr>kv_key := evt_key evt, kv_rev := evt_rev evt\<rparr> in
        if withPrev
        then bindE (dbKv_getRev env L t (evt_key evt) (upper (evt_rev evt)) True) (\<lambda>(_, prev, err1). Inr (current, prev, err1))
        else Inr (current, kv_zero, err)
      else
        bindE (dbKv_getRev env L t (evt_key evt) (upper (evt_rev evt)) withPrev) (\<lambda>(current, prev, err1).
        if err1 \<noteq> None then Inl GoPanic else Inr (current, prev, None)))"

fun mod_watch_events :: "'x mod_env_scheme \<Rightarrow> 't lmdb \<Rightarrow> 't \<Rightarrow> WatchCreateRequest \<Rightarrow> u64 \<Rightarrow> kvEvent list \<Rightarrow> sends \<Rightarrow> error option
    \<Rightarrow> (sends \<times> error option) result" where
  "mod_watch_events env L t req rv [] out err = Inr (out, err)"
| "mod_watch_events env L t req rv (evt # evts) out err =
     (if \<not> mod_in_range req (evt_key evt) then mod_watch_events env L t req rv evts out err
      else if mod_filtered req evt then mod_watch_events env L t req rv evts out err
      else
        bindE (mod_versions env L t (WatchCreateRequest_PrevKv req) evt err) (\<lambda>(current, prev, err1).
        let e = \<lparr>Event_Type = etype evt,
                 Event_Kv = (if 0 < upper (kv_rev current) then Some (ToProto current) else None),
                 Event_PrevKv = (if 0 < upper (kv_rev prev) then Some (ToProto prev) else None)\<rparr> in
        bindE (sendCodeMsg env (WatchCreateRequest_WatchId req) MOD_WatchMessageType_EVENT_BATCH
                 (SBatch \<lparr>WatchEventBatch_Event = e, WatchEventBatch_Revision = rv,
                          WatchEventBatch_WatchIds = [WatchCreateRequest_WatchId req], WatchEventBatch_WatchIdsPrev = []\<rparr>)) (\<lambda>m.
        mod_watch_events env L t req rv evts (out @ [m]) err1)))"

text \<open>The revision, the messages and the error of a scan. The sync is sent even when the scan failed.\<close>

definition mod_watch_scan :: "'x mod_env_scheme \<Rightarrow> 't lmdb \<Rightarrow> 't \<Rightarrow> WatchCreateRequest \<Rightarrow> u64 \<Rightarrow> bool
    \<Rightarrow> (u64 \<times> sends \<times> error option) result" where
  "mod_watch_scan env L t req since start =
     (case getRevision L t of
        Inl err \<Rightarrow> if stuck err then Inl err else Inr (0, [], Some err)
      | Inr rv \<Rightarrow>
          bindE (if start
                 then bindE (sendCodeHeader env (WatchCreateRequest_WatchId req) MOD_WatchMessageType_INIT rv) (\<lambda>m. Inr [m])
                 else Inr []) (\<lambda>init.
          if since = 0 then Inr (rv, init, None)
          else
            bindE (mod_scan L t since) (\<lambda>evts.
            bindE (mod_watch_events env L t req rv evts [] None) (\<lambda>(out, err).
            if 0 < length out then
              bindE (sendCodeMsg env 0 MOD_WatchMessageType_EVENT_SYNC
                       (SSync \<lparr>WatchEventSync_IDs = [WatchCreateRequest_WatchId req], WatchEventSync_Revision = rv\<rparr>)) (\<lambda>m.
              Inr (rv, init @ out @ [m], err))
            else Inr (rv, init @ out, err)))))"

section \<open>watchStart\<close>

text \<open>The loop that looks for an id that is not taken.\<close>

fun mod_reserve_loop :: "'h host \<Rightarrow> nat \<Rightarrow> 'h \<Rightarrow> ('h \<times> u64) result" where
  "mod_reserve_loop H 0 h = Inl NoReturn"
| "mod_reserve_loop H (Suc n) h =
     (let (h1, i) = wid_Add H h in
      case rw_Reserve H h1 (be64 i) of Some h2 \<Rightarrow> Inr (h2, i) | None \<Rightarrow> mod_reserve_loop H n h1)"

definition mod_assign :: "'h host \<Rightarrow> nat \<Rightarrow> 'h \<Rightarrow> WatchCreateRequest \<Rightarrow> ('h \<times> WatchCreateRequest option) result" where
  "mod_assign H fuel h req =
     (if WatchCreateRequest_WatchId req = 0
      then bindE (mod_reserve_loop H fuel h) (\<lambda>(h1, i). Inr (h1, Some (req\<lparr>WatchCreateRequest_WatchId := i\<rparr>)))
      else
        (case rw_Reserve H h (be64 (WatchCreateRequest_WatchId req)) of
           None \<Rightarrow> Inr (h, None)
         | Some h1 \<Rightarrow> Inr (h1, Some req)))"

text \<open>A failing call of the host panics.\<close>

definition hostPanic :: "'h option \<Rightarrow> ('h \<Rightarrow> 'b result) \<Rightarrow> 'b result" where
  "hostPanic m f = (case m of None \<Rightarrow> Inl GoPanic | Some h \<Rightarrow> f h)"

text \<open>The part after the scan. A watch from a revision is opened between two scans: \<open>t2\<close> is the state the second one sees.\<close>

definition mod_watch_open :: "'x mod_env_scheme \<Rightarrow> 't lmdb \<Rightarrow> 't \<Rightarrow> 'h host \<Rightarrow> 'h \<Rightarrow> WatchCreateRequest \<Rightarrow> bytes \<Rightarrow> u64 \<Rightarrow> u64
    \<Rightarrow> ('h \<times> u64 \<times> sends) result" where
  "mod_watch_open env L t2 H h req b since rv =
     (let i = WatchCreateRequest_WatchId req; key = be64 i in
      if since = 0 then
        hostPanic (rw_OpenStart H (wc_Put H (wr_Store H h i rv) key b) key (WatchCreateRequest_Key req) (WatchCreateRequest_RangeEnd req))
          (\<lambda>h1. Inr (h1, rv, []))
      else
        hostPanic (rw_Open H h key (WatchCreateRequest_Key req) (WatchCreateRequest_RangeEnd req)) (\<lambda>h1.
        bindE (mod_watch_scan env L t2 req (rv + 1) False) (\<lambda>(rv1, out, err).
        if err \<noteq> None then Inl GoPanic
        else hostPanic (rw_Start H (wc_Put H (wr_Store H h1 i rv1) key b) key) (\<lambda>h2. Inr (h2, rv1, out)))))"

text \<open>The states the transactions of \<open>watchStart\<close> see: \<open>t0\<close> for the check, \<open>t1\<close> and \<open>t2\<close> for the scans. The request is
  marshalled with the id it has been given.\<close>

definition watchStart :: "'x mod_env_scheme \<Rightarrow> 't lmdb \<Rightarrow> 't \<Rightarrow> 't \<Rightarrow> 't \<Rightarrow> 'h host \<Rightarrow> nat \<Rightarrow> 'h \<Rightarrow> WatchCreateRequest \<Rightarrow> ('h \<times> sends) result" where
  "watchStart env L t0 t1 t2 H fuel h req0 =
     (let since = WatchCreateRequest_StartRevision req0 in
      bindE (mod_assign H fuel h req0) (\<lambda>(h1, assigned).
      case assigned of
        None \<Rightarrow> Inr (h1, [(1, [MOD_WatchMessageType_ERR_EXISTS])])
      | Some req \<Rightarrow>
          orPanic (getRevisionMin L t0) (\<lambda>mn.
          if 0 < since \<and> mn > since then
            bindE (sendCodeHeader env (WatchCreateRequest_WatchId req) MOD_WatchMessageType_ERR_COMPACTED mn) (\<lambda>m. Inr (h1, [m]))
          else
            orPanic (marshal_create env req) (\<lambda>b.
            bindE (mod_watch_scan env L t1 req since True) (\<lambda>(rv, out, err).
            if err \<noteq> None then Inl GoPanic
            else
              bindE (mod_watch_open env L t2 H h1 req b since rv) (\<lambda>(h2, rv1, out1).
              if WatchCreateRequest_ProgressNotify req then
                bindE (sendCodeHeader env (WatchCreateRequest_WatchId req) MOD_WatchMessageType_NOTIFY rv1) (\<lambda>m.
                Inr (h2, out @ out1 @ [m]))
              else Inr (h2, out @ out1)))))))"

section \<open>streamRecv\<close>

definition mod_progress :: "'x sm_env_scheme \<Rightarrow> 't lmdb \<Rightarrow> 't \<Rightarrow> 'h host \<Rightarrow> 'h \<Rightarrow> (u64 \<times> bytes) result" where
  "mod_progress env L t H h =
     orPanic (getRevision L t) (\<lambda>rv.
     let b = wc_Min H h in
     sendCodeHeader env (if length b = 8 then Uint64 b else 0) MOD_WatchMessageType_NOTIFY rv)"

definition streamRecv :: "'x mod_env_scheme \<Rightarrow> 't lmdb \<Rightarrow> 't \<Rightarrow> 't \<Rightarrow> 't \<Rightarrow> 'h host \<Rightarrow> nat \<Rightarrow> 'h \<Rightarrow> bytes \<Rightarrow> ('h \<times> sends) result" where
  "streamRecv env L t0 t1 t2 H fuel h data =
     (case unmarshal_WatchRequest env data of
        None \<Rightarrow> Inl GoPanic
      | Some (MR_Create req) \<Rightarrow> watchStart env L t0 t1 t2 H fuel h req
      | Some (MR_Cancel i) \<Rightarrow>
          Inr (wr_Del H (wc_Del H (rw_Stop H h (be64 i)) (be64 i)) i, [(i, [MOD_WatchMessageType_CANCELED])])
      | Some MR_Progress \<Rightarrow> bindE (mod_progress env L t0 H h) (\<lambda>m. Inr (h, [m]))
      | Some MR_Other \<Rightarrow> Inr (h, []))"

section \<open>rangeWatchRecv\<close>

text \<open>The first loop: the ids for the sync, the requests and the revisions of the watches by their ids, and for every notice
  the number of its watches that want the previous version.\<close>

type_synonym recv_maps = "i64 list \<times> (u64 \<times> WatchCreateRequest) list \<times> (u64 \<times> u64) list"

fun recv_ids :: "'x mod_env_scheme \<Rightarrow> 'h host \<Rightarrow> 'h \<Rightarrow> bytes list \<Rightarrow> recv_maps \<Rightarrow> nat \<Rightarrow> (recv_maps \<times> nat) result" where
  "recv_ids env H h [] maps p = Inr (maps, p)"
| "recv_ids env H h (b # bs) (sync, reqs, mins) p =
     (if length b < 8 then Inl GoPanic
      else
        let i = Uint64 b; sync1 = sync @ [i] in
        case map_of reqs i of
          Some req \<Rightarrow> recv_ids env H h bs (sync1, reqs, mins) (if WatchCreateRequest_PrevKv req then Suc p else p)
        | None \<Rightarrow>
            let c = wc_Get H h b in
            if length c = 0 then recv_ids env H h bs (sync1, reqs, mins) p
            else
              (case unmarshal_create env c of
                 None \<Rightarrow> Inl GoPanic
               | Some req \<Rightarrow>
                   recv_ids env H h bs (sync1, reqs @ [(i, req)], mins @ [(i, wr_Load H h i)])
                     (if WatchCreateRequest_PrevKv req then Suc p else p)))"

fun recv_notices :: "'x mod_env_scheme \<Rightarrow> 'h host \<Rightarrow> 'h \<Rightarrow> Notice list \<Rightarrow> recv_maps \<Rightarrow> nat list \<Rightarrow> (recv_maps \<times> nat list) result" where
  "recv_notices env H h [] maps prevs = Inr (maps, prevs)"
| "recv_notices env H h (n # ns) maps prevs =
     bindE (recv_ids env H h (Notice_IDs n) maps 0) (\<lambda>(maps1, p).
     recv_notices env H h ns maps1 (prevs @ [p]))"

text \<open>The watches of a notice that get an event: those without and with the previous version, and how many events each
  watch has got.\<close>

fun recv_watches :: "(u64 \<times> WatchCreateRequest) list \<Rightarrow> (u64 \<times> u64) list \<Rightarrow> kvEvent \<Rightarrow> bytes list
    \<Rightarrow> i64 list \<times> i64 list \<times> (u64 \<Rightarrow> nat) \<Rightarrow> i64 list \<times> i64 list \<times> (u64 \<Rightarrow> nat)" where
  "recv_watches reqs mins evt [] acc = acc"
| "recv_watches reqs mins evt (b # bs) (ids, idsPrev, sent) =
     (let i = Uint64 b in
      case map_of reqs i of
        None \<Rightarrow> recv_watches reqs mins evt bs (ids, idsPrev, sent)
      | Some req \<Rightarrow>
          let mn = (case map_of mins i of None \<Rightarrow> 0 | Some m \<Rightarrow> m) in
          if 0 < mn \<and> upper (evt_rev evt) \<le> mn then recv_watches reqs mins evt bs (ids, idsPrev, sent)
          else if mod_filtered req evt then recv_watches reqs mins evt bs (ids, idsPrev, sent)
          else if \<not> mod_in_range req (evt_key evt) then recv_watches reqs mins evt bs (ids, idsPrev, sent)
          else if \<not> WatchCreateRequest_PrevKv req
          then recv_watches reqs mins evt bs (ids @ [i], idsPrev, sent(i := Suc (sent i)))
          else recv_watches reqs mins evt bs (ids, idsPrev @ [i], sent(i := Suc (sent i))))"

text \<open>The loop over the events. \<open>n\<close> is the revision of the last event and \<open>i\<close> the index of its notice. The batches are sent one
  by one; the model collects them and marshals them afterwards. An event without a version dereferences nil.\<close>

fun recv_events :: "'x env_scheme \<Rightarrow> 't lmdb \<Rightarrow> 't \<Rightarrow> Notice list \<Rightarrow> nat list \<Rightarrow> (u64 \<times> WatchCreateRequest) list \<Rightarrow> (u64 \<times> u64) list
    \<Rightarrow> kvEvent list \<Rightarrow> u64 \<Rightarrow> nat \<Rightarrow> (u64 \<Rightarrow> nat) \<Rightarrow> WatchEventBatch list \<Rightarrow> error option \<Rightarrow> (WatchEventBatch list \<times> (u64 \<Rightarrow> nat) \<times> error option) result" where
  "recv_events env L t notices prevs reqs mins [] n i sent out err = Inr (out, sent, err)"
| "recv_events env L t notices prevs reqs mins (evt # evts) n i sent out err =
     (let u = upper (evt_rev evt); j = (if n \<noteq> u \<and> 0 < n then Suc i else i) in
      if length notices \<le> j \<or> length prevs \<le> j then Inl GoPanic
      else
        bindE (mod_versions env L t (0 < prevs ! j) evt err) (\<lambda>(current, previous, err1).
        if \<not> 0 < upper (kv_rev current) then Inl GoPanic
        else
          let kv = ToProto current;
              e = \<lparr>Event_Type = etype evt, Event_Kv = Some kv,
                   Event_PrevKv = (if 0 < prevs ! j \<and> 0 < upper (kv_rev previous) then Some (ToProto previous) else None)\<rparr>;
              (ids, idsPrev, sent1) = recv_watches reqs mins evt (Notice_IDs (notices ! j)) ([], [], sent);
              batch = \<lparr>WatchEventBatch_Event = e, WatchEventBatch_Revision = KeyValue_ModRevision kv,
                       WatchEventBatch_WatchIds = ids, WatchEventBatch_WatchIdsPrev = idsPrev\<rparr> in
          recv_events env L t notices prevs reqs mins evts u j sent1
            (if 0 < length ids \<or> 0 < length idsPrev then out @ [batch] else out) err1))"

fun sendBatches :: "'x mod_env_scheme \<Rightarrow> WatchEventBatch list \<Rightarrow> sends result" where
  "sendBatches env [] = Inr []"
| "sendBatches env (b # bs) =
     bindE (sendCodeMsg env 0 MOD_WatchMessageType_EVENT_BATCH (SBatch b)) (\<lambda>m. bindE (sendBatches env bs) (\<lambda>ms. Inr (m # ms)))"

text \<open>The watches that got nothing and want to know of the progress.\<close>

fun sendNotifies :: "'x sm_env_scheme \<Rightarrow> (u64 \<Rightarrow> nat) \<Rightarrow> u64 \<Rightarrow> (u64 \<times> WatchCreateRequest) list \<Rightarrow> sends result" where
  "sendNotifies env sent rv [] = Inr []"
| "sendNotifies env sent rv ((i, req) # reqs) =
     (if sent i = 0 \<and> WatchCreateRequest_ProgressNotify req
      then bindE (sendCodeHeader env i MOD_WatchMessageType_NOTIFY rv) (\<lambda>m. bindE (sendNotifies env sent rv reqs) (\<lambda>ms. Inr (m # ms)))
      else sendNotifies env sent rv reqs)"

definition rangeWatchRecv :: "'x mod_env_scheme \<Rightarrow> 't lmdb \<Rightarrow> 't \<Rightarrow> 'h host \<Rightarrow> 'h \<Rightarrow> Notice list \<Rightarrow> ('h \<times> sends) result" where
  "rangeWatchRecv env L t H h notices =
     bindE (recv_notices env H h notices ([], [], []) []) (\<lambda>((sync, reqs, mins), prevs).
     bindE (revScan L t (map Notice_Val notices) []) (\<lambda>evts.
     bindE (recv_events env L t notices prevs reqs mins evts 0 0 (\<lambda>_. 0) [] None) (\<lambda>(batches, sent, err).
     bindE (sendBatches env batches) (\<lambda>out.
     if err \<noteq> None \<or> notices = [] then Inl GoPanic
     else
       let rv = Notice_Val (last notices) in
       bindE (if 0 < length sync
              then bindE (sendCodeMsg env 0 MOD_WatchMessageType_EVENT_SYNC
                      (SSync \<lparr>WatchEventSync_IDs = sync, WatchEventSync_Revision = rv\<rparr>)) (\<lambda>m. Inr [m])
              else Inr []) (\<lambda>syncs.
       bindE (sendNotifies env sent rv reqs) (\<lambda>notifies.
       Inr (wp_Store H h rv, out @ syncs @ notifies)))))))"

section \<open>Selection\<close>

lemma mod_selects: "mod_in_range req (evt_key evt) \<and> \<not> mod_filtered req evt \<longleftrightarrow> watch_selects req evt"
  by (cases "WatchCreateRequest_RangeEnd req") (auto simp: mod_in_range_def mod_filtered_def watch_selects_def list_ex_iff)

text \<open>A watch by its id: the request in the cache, and whether an event is new to it and selected.\<close>

definition cached :: "'x mod_env_scheme \<Rightarrow> 'h host \<Rightarrow> 'h \<Rightarrow> u64 \<Rightarrow> WatchCreateRequest option" where
  "cached env H h i = (let c = wc_Get H h (be64 i) in if c = [] then None else unmarshal_create env c)"

definition wants :: "'x mod_env_scheme \<Rightarrow> 'h host \<Rightarrow> 'h \<Rightarrow> kvEvent \<Rightarrow> u64 \<Rightarrow> bool" where
  "wants env H h evt i \<longleftrightarrow> (case cached env H h i of None \<Rightarrow> False
     | Some req \<Rightarrow> watch_selects req evt \<and> (wr_Load H h i = 0 \<or> wr_Load H h i < upper (evt_rev evt)))"

definition wants_prev :: "'x mod_env_scheme \<Rightarrow> 'h host \<Rightarrow> 'h \<Rightarrow> u64 \<Rightarrow> bool" where
  "wants_prev env H h i \<longleftrightarrow> (case cached env H h i of None \<Rightarrow> False | Some req \<Rightarrow> WatchCreateRequest_PrevKv req)"

text \<open>Ids of eight bytes whose requests can be decoded.\<close>

definition ids_ok :: "'x mod_env_scheme \<Rightarrow> 'h host \<Rightarrow> 'h \<Rightarrow> bytes list \<Rightarrow> bool" where
  "ids_ok env H h bs = list_all (\<lambda>b. length b = 8 \<and> (wc_Get H h b = [] \<or> unmarshal_create env (wc_Get H h b) \<noteq> None)) bs"

text \<open>The maps hold the requests of the ids seen so far.\<close>

definition maps_ok :: "'x mod_env_scheme \<Rightarrow> 'h host \<Rightarrow> 'h \<Rightarrow> bytes list \<Rightarrow> recv_maps \<Rightarrow> bool" where
  "maps_ok env H h seen maps \<longleftrightarrow> (case maps of (sync, reqs, mins) \<Rightarrow> sync = map Uint64 seen \<and>
     (\<forall>i. map_of reqs i = (if be64 i \<in> set seen then cached env H h i else None)) \<and>
     (\<forall>i. map_of mins i = (if be64 i \<in> set seen \<and> cached env H h i \<noteq> None then Some (wr_Load H h i) else None)))"

lemma recv_ids_spec:
  assumes "maps_ok env H h seen maps" "ids_ok env H h bs"
  shows "\<exists>maps1. recv_ids env H h bs maps p = Inr (maps1, p + length (filter (\<lambda>b. wants_prev env H h (Uint64 b)) bs)) \<and> maps_ok env H h (seen @ bs) maps1"
  using assms
proof (induction bs arbitrary: seen maps p)
  case (Cons b bs)
  obtain sync reqs mins where m: "maps = (sync, reqs, mins)" by (rule prod_cases3)
  let ?i = "Uint64 b"
  have b: "length b = 8" "be64 ?i = b" "ids_ok env H h bs" "wc_Get H h b = [] \<or> unmarshal_create env (wc_Get H h b) \<noteq> None"
    using Cons.prems(2) be64_Uint64 [of b] by (auto simp: ids_ok_def)
  have k: "sync = map Uint64 seen" "\<And>i. map_of reqs i = (if be64 i \<in> set seen then cached env H h i else None)"
    "\<And>i. map_of mins i = (if be64 i \<in> set seen \<and> cached env H h i \<noteq> None then Some (wr_Load H h i) else None)"
    using Cons.prems(1) by (auto simp: maps_ok_def m)
  have eq: "be64 i = b \<longleftrightarrow> i = ?i" for i using b(2) by (metis Uint64_be64_0)
  show ?case
  proof (cases "map_of reqs ?i")
    case (Some req)
    then have in_seen: "be64 ?i \<in> set seen" "b \<in> set seen" "cached env H h ?i = Some req" using k(2) [of ?i] b(2) by (auto split: if_splits)
    have "maps_ok env H h (seen @ [b]) (sync @ [?i], reqs, mins)" using k in_seen(1,2) eq by (auto simp: maps_ok_def)
    from Cons.IH [OF this b(3), of p] Cons.IH [OF this b(3), of "Suc p"] show ?thesis using Some b(1) in_seen(3)
      by (auto simp: m Let_def wants_prev_def)
  next
    case None
    show ?thesis
    proof (cases "cached env H h ?i")
      case no: None
      have "maps_ok env H h (seen @ [b]) (sync @ [?i], reqs, mins)" using k no eq by (auto simp: maps_ok_def)
      from Cons.IH [OF this b(3)] show ?thesis using None no b by (auto simp: m Let_def wants_prev_def cached_def split: if_splits)
    next
      case yes: (Some req)
      then have c: "wc_Get H h b \<noteq> []" "unmarshal_create env (wc_Get H h b) = Some req" using b(2) by (auto simp: cached_def Let_def split: if_splits)
      have "b \<notin> set seen" using k(2) [of ?i] None yes b(2) by auto
      then have "maps_ok env H h (seen @ [b]) (sync @ [?i], reqs @ [(?i, req)], mins @ [(?i, wr_Load H h ?i)])"
        using k yes eq b(2) by (auto simp: maps_ok_def map_of_append map_add_def split: option.splits)
      from Cons.IH [OF this b(3), of p] Cons.IH [OF this b(3), of "Suc p"] show ?thesis using None yes c b(1)
        by (auto simp: m Let_def wants_prev_def)
    qed
  qed
qed simp

lemma recv_notices_spec:
  assumes "maps_ok env H h seen maps" "list_all (\<lambda>n. ids_ok env H h (Notice_IDs n)) ns"
  shows "\<exists>maps1. recv_notices env H h ns maps prevs =
      Inr (maps1, prevs @ map (\<lambda>n. length (filter (\<lambda>b. wants_prev env H h (Uint64 b)) (Notice_IDs n))) ns) \<and>
    maps_ok env H h (seen @ concat (map Notice_IDs ns)) maps1"
  using assms
proof (induction ns arbitrary: seen maps prevs)
  case (Cons n ns)
  from recv_ids_spec [OF Cons.prems(1), of "Notice_IDs n" 0] Cons.prems(2) obtain maps1 where
    m: "recv_ids env H h (Notice_IDs n) maps 0 = Inr (maps1, length (filter (\<lambda>b. wants_prev env H h (Uint64 b)) (Notice_IDs n)))"
      "maps_ok env H h (seen @ Notice_IDs n) maps1" by auto
  from Cons.IH [OF m(2), of "prevs @ [length (filter (\<lambda>b. wants_prev env H h (Uint64 b)) (Notice_IDs n))]"] Cons.prems(2) m(1)
  show ?case by auto
qed simp

lemma recv_watches_spec:
  assumes "maps_ok env H h seen (sync, reqs, mins)" "set bs \<subseteq> set seen" "list_all (\<lambda>b. length b = 8) bs"
  shows "\<exists>sent1. recv_watches reqs mins evt bs (ids, idsPrev, sent) =
    (ids @ map Uint64 (filter (\<lambda>b. wants env H h evt (Uint64 b) \<and> \<not> wants_prev env H h (Uint64 b)) bs),
     idsPrev @ map Uint64 (filter (\<lambda>b. wants env H h evt (Uint64 b) \<and> wants_prev env H h (Uint64 b)) bs), sent1)"
  using assms(2,3)
proof (induction bs arbitrary: ids idsPrev sent)
  case (Cons b bs)
  let ?i = "Uint64 b"
  have b: "be64 ?i = b" "b \<in> set seen" using Cons.prems be64_Uint64 [of b] by auto
  have k: "map_of reqs ?i = cached env H h ?i" "map_of mins ?i = (if cached env H h ?i \<noteq> None then Some (wr_Load H h ?i) else None)"
    using assms(1) b by (auto simp: maps_ok_def)
  have IH: "\<exists>sent1. recv_watches reqs mins evt bs (ids, idsPrev, sent) =
    (ids @ map Uint64 (filter (\<lambda>b. wants env H h evt (Uint64 b) \<and> \<not> wants_prev env H h (Uint64 b)) bs),
     idsPrev @ map Uint64 (filter (\<lambda>b. wants env H h evt (Uint64 b) \<and> wants_prev env H h (Uint64 b)) bs), sent1)" for ids idsPrev sent
    using Cons by auto
  show ?case
  proof (cases "cached env H h ?i")
    case None
    then show ?thesis using k IH [of ids idsPrev sent] by (simp add: wants_def Let_def)
  next
    case (Some req)
    have w: "wants env H h evt ?i \<longleftrightarrow> \<not> (0 < wr_Load H h ?i \<and> upper (evt_rev evt) \<le> wr_Load H h ?i) \<and> \<not> mod_filtered req evt \<and> mod_in_range req (evt_key evt)"
      using Some mod_selects [of req evt] by (auto simp: wants_def word_gt_0 not_less [symmetric])
    have p: "wants_prev env H h ?i = WatchCreateRequest_PrevKv req" using Some by (simp add: wants_prev_def)
    show ?thesis using k Some w p IH [of ids idsPrev sent] IH [of "ids @ [?i]" idsPrev] IH [of ids "idsPrev @ [?i]"] by (auto simp: Let_def)
  qed
qed simp

section \<open>The events of the notices\<close>

text \<open>The events of the first operation of a revision, of a list of events: those with the smallest packed revision. When the
  revision has one operation these are all its events.\<close>

definition first_ops :: "kvEvent list \<Rightarrow> u64 \<Rightarrow> kvEvent list" where
  "first_ops evts r = filter (\<lambda>e. upper (evt_rev e) = r \<and> (\<forall>d \<in> set evts. upper (evt_rev d) = r \<longrightarrow> evt_rev e \<le> evt_rev d)) evts"

lemma first_ops_all:
  assumes "\<forall>e \<in> set evts. \<forall>d \<in> set evts. upper (evt_rev e) = r \<and> upper (evt_rev d) = r \<longrightarrow> evt_rev e = evt_rev d"
  shows "first_ops evts r = filter (\<lambda>e. upper (evt_rev e) = r) evts"
  unfolding first_ops_def by (rule filter_cong) (use assms in auto)

lemma unat_upper_less: "unat (upper r) < 2 ^ 52"
  using unsigned_less [of r, where ?'a = nat] by (simp add: unat_upper less_mult_imp_div_less)

context lmdb
begin

lemma revScan_concat:
  assumes "ev_rel view t E" "list_all (\<lambda>r. scan_entries t r \<noteq> []) rs"
  shows "revScan L t rs evts = Inr (evts @ concat (map (\<lambda>r. map evt_dec (first_key t r)) rs))"
  using assms(2)
proof (induction rs arbitrary: evts)
  case (Cons r rs)
  then show ?case using revScan_step [OF assms(1), of r rs evts] by (simp del: revScan.simps)
qed simp

lemma ev_finite: "ev_rel view t E \<Longrightarrow> finite E"
  using finite_imageD [of evt_entry E] by (simp add: ev_rel_def inj_on_def) (metis List.finite_set)

lemma image_filter_fst: "{e \<in> f ` A. fst e = k} = f ` {z \<in> A. fst (f z) = k}"
  by auto

lemma first_key_spec:
  assumes ev: "ev_rel view t E" and x: "x \<in> E" "push_bit 12 r \<le> fst x"
  shows "scan_entries t r \<noteq> [] \<and> (\<exists>xs. first_key t r = map evt_entry xs \<and> distinct xs \<and>
    set xs = {y \<in> E. fst y = Min (fst ` {y \<in> E. push_bit 12 r \<le> fst y})})"
proof -
  let ?F = "{y \<in> E. push_bit 12 r \<le> fst y}"
  have fin: "finite E" by (rule ev_finite [OF ev])
  have F: "set (scan_entries t r) = evt_entry ` ?F" using ev by (auto simp: ev_rel_def scan_entries_def evt_entry_def be64_le)
  then have ne: "scan_entries t r \<noteq> []" using x by auto
  then obtain e es where e: "scan_entries t r = e # es" by (cases "scan_entries t r") auto
  have srt: "ssorted (e # es)" unfolding e [symmetric] scan_entries_def by (simp add: sorted_wrt_filter)
  have "e \<in> evt_entry ` ?F" using F e by auto
  then obtain y where y: "e = evt_entry y" "y \<in> ?F" by (elim imageE)
  have "fst y \<le> fst z" if "z \<in> ?F" for z
  proof -
    have "evt_entry z \<in> set (e # es)" using F e that by auto
    then have "e \<le> evt_entry z" using srt by auto
    then show ?thesis unfolding y(1) by (auto simp: evt_entry_def less_eq_prod_def be64_le less_le)
  qed
  then have mn: "Min (fst ` ?F) = fst y" using y(2) fin by (intro Min_eqI) auto
  let ?K = "filter (\<lambda>e'. fst e' = fst e) (e # es)"
  have K: "first_key t r = ?K" by (simp add: first_key_def e)
  have "\<forall>e' \<in> set ?K. \<exists>z. e' = evt_entry z" using F e by auto
  then have "\<exists>xs. ?K = map evt_entry xs" by (simp only: ex_map_conv)
  then obtain xs where xs: "?K = map evt_entry xs" ..
  have "distinct ?K" by (rule distinct_filter) (use srt in \<open>auto simp: strict_sorted_iff\<close>)
  then have "distinct xs" unfolding xs by (simp add: distinct_map)
  moreover have "evt_entry ` set xs = evt_entry ` {z \<in> E. fst z = fst y}"
  proof -
    have "evt_entry ` set xs = set ?K" unfolding xs list.set_map ..
    also have "\<dots> = {e' \<in> evt_entry ` ?F. fst e' = fst e}" unfolding set_filter e [symmetric] F ..
    also have "\<dots> = evt_entry ` {z \<in> ?F. fst (evt_entry z) = fst (evt_entry y)}" unfolding y(1) by (rule image_filter_fst)
    also have "{z \<in> ?F. fst (evt_entry z) = fst (evt_entry y)} = {z \<in> E. fst z = fst y}" using y(2) by auto
    finally show ?thesis .
  qed
  then have "set xs = {z \<in> E. fst z = fst y}" by (rule inj_image_eq_iff [THEN iffD1, rotated]) (simp add: inj_def)
  ultimately show ?thesis using ne K xs mn by auto
qed

lemma first_revision:
  assumes ev: "ev_rel view t E" and x: "x \<in> E" "upper (ev_rev x) = r"
  shows "scan_entries t r \<noteq> [] \<and> (\<exists>xs. first_key t r = map evt_entry xs \<and> xs \<noteq> [] \<and> set xs \<subseteq> E \<and> (\<forall>y \<in> set xs. upper (ev_rev y) = r))"
proof -
  let ?F = "{y \<in> E. push_bit 12 r \<le> fst y}"
  have fits: "unat r < 2 ^ 52" using x(2) unat_upper_less [of "ev_rev x"] by simp
  have le: "push_bit 12 r \<le> fst x" using push_bit_le_upper [OF fits] x(2) by simp
  from first_key_spec [OF ev x(1) le] obtain xs where
    k: "scan_entries t r \<noteq> []" "first_key t r = map evt_entry xs" "set xs = {y \<in> E. fst y = Min (fst ` ?F)}" by blast
  have fin: "finite E" by (rule ev_finite [OF ev])
  have "Min (fst ` ?F) \<in> fst ` ?F" using fin x(1) le by (intro Min_in) auto
  then obtain y where y: "y \<in> E" "push_bit 12 r \<le> fst y" "fst y = Min (fst ` ?F)" by (auto simp del: split_paired_Ex)
  have "fst y \<le> fst x" using fin x(1) le unfolding y(3) by (intro Min_le) auto
  then have "upper (fst y) = r" using upper_mono [of "fst y" "fst x"] push_bit_le_upper [OF fits] y(2) x(2) by simp
  then show ?thesis using k y by (intro conjI exI [of _ xs]) auto
qed

lemma first_key_ops:
  assumes ev: "ev_rel view t E" and x: "x \<in> E" "upper (ev_rev x) = r"
  shows "map evt_dec (first_key t r) = first_ops (map evt_dec (scan_entries t 0)) r"
proof -
  have fits: "unat r < 2 ^ 52" using x(2) unat_upper_less [of "ev_rev x"] by simp
  have V: "set (view t DBI_event) = evt_entry ` E" using ev by (simp add: ev_rel_def)
  have all: "scan_entries t 0 = view t DBI_event" unfolding scan_entries_def filter_id_conv using V by (auto simp: be64_le)
  from first_revision [OF assms] obtain xs where
    f: "scan_entries t r \<noteq> []" "first_key t r = map evt_entry xs" "set xs \<subseteq> E" "\<forall>y \<in> set xs. upper (ev_rev y) = r" by blast
  then obtain e es where e: "scan_entries t r = e # es" by (cases "scan_entries t r") auto
  have K: "first_key t r = filter (\<lambda>e'. fst e' = fst e) (scan_entries t r)" by (simp add: first_key_def e)
  have "e \<in> set (first_key t r)" unfolding K e by simp
  then obtain y where y: "e = evt_entry y" "y \<in> E" "upper (fst y) = r" using f(3,4) unfolding f(2) set_map by blast
  have srt: "ssorted (e # es)" unfolding e [symmetric] scan_entries_def by (simp add: sorted_wrt_filter)
  have least: "fst y \<le> fst z" if z: "z \<in> E" "upper (fst z) = r" for z
  proof -
    have "evt_entry z \<in> set (scan_entries t r)" using z V push_bit_le_upper [OF fits, of "fst z"] by (auto simp: scan_entries_def be64_le)
    then have "e \<le> evt_entry z" using srt unfolding e by auto
    then show ?thesis unfolding y(1) by (auto simp: evt_entry_def less_eq_prod_def be64_le less_le)
  qed
  have ly: "push_bit 12 r \<le> fst y" using push_bit_le_upper [OF fits] y(3) by simp
  have "(be64 (push_bit 12 r) \<le> fst e' \<and> fst e' = fst e) \<longleftrightarrow>
      upper (evt_rev (evt_dec e')) = r \<and> (\<forall>d \<in> set (map evt_dec (view t DBI_event)). upper (evt_rev d) = r \<longrightarrow> evt_rev (evt_dec e') \<le> evt_rev d)"
    if e': "e' \<in> set (view t DBI_event)" for e'
  proof -
    from e' V obtain z where z: "z \<in> E" "e' = evt_entry z" by blast
    have "(\<forall>d \<in> set (map evt_dec (view t DBI_event)). upper (evt_rev d) = r \<longrightarrow> fst z \<le> evt_rev d) \<longleftrightarrow> (\<forall>w \<in> E. upper (fst w) = r \<longrightarrow> fst z \<le> fst w)"
      unfolding set_map V by (simp add: evt_of_def)
    moreover have "be64 (fst z) = be64 (fst y) \<longleftrightarrow> fst z = fst y" by (metis Uint64_be64_0)
    moreover have "upper (fst z) = r \<and> (\<forall>w \<in> E. upper (fst w) = r \<longrightarrow> fst z \<le> fst w) \<longleftrightarrow> fst z = fst y"
      using least [OF z(1)] y(2,3) least by (metis antisym)
    ultimately show ?thesis using z(2) y(1) ly by (auto simp: be64_le evt_of_def)
  qed
  then have "filter (\<lambda>e'. be64 (push_bit 12 r) \<le> fst e' \<and> fst e' = fst e) (view t DBI_event) = filter (\<lambda>e'. upper (evt_rev (evt_dec e')) = r \<and>
      (\<forall>d \<in> set (map evt_dec (view t DBI_event)). upper (evt_rev d) = r \<longrightarrow> evt_rev (evt_dec e') \<le> evt_rev d)) (view t DBI_event)" by (rule filter_cong [OF refl])
  then show ?thesis unfolding K first_ops_def all filter_map comp_def by (simp add: scan_entries_def conj_commute)
qed

text \<open>The version of an event can be read at its revision when no other write of that revision to its key came after it:
  \<open>put\<close> and \<open>deleteRange\<close> refuse a second write of a live key in one revision.\<close>

lemma versions_spec:
  assumes env: "env_ok env" and rel: "kv_rel env view t H" and lg: "logged H E" and x: "x \<in> E" and r0: "0 < upper (ev_rev x)"
    and lst: "\<forall>k. \<forall>h \<in> set (H k). \<not> isdel (vrev h) \<longrightarrow> (\<forall>h' \<in> set (H k). upper (vrev h') = upper (vrev h) \<longrightarrow> vrev h' \<le> vrev h)"
  shows "\<exists>current prev. mod_versions env L t withPrev (evt_of x) None = Inr (current, prev, None) \<and> kv_key current = ev_key x \<and>
    upper (kv_rev current) = upper (ev_rev x)"
proof -
  let ?k = "ev_key x" and ?r = "upper (ev_rev x)"
  from lg x obtain h where h: "h \<in> set (H ?k)" "vrev h = ev_rev x" by (auto simp: logged_def)
  have "H ?k \<noteq> []" using h(1) by (metis empty_iff list.set(1))
  then have k: "?k \<noteq> []" using hist_okD(1) [OF kv_relD(1) [OF rel]] by fastforce
  have f: "evt_key (evt_of x) = ?k" "evt_rev (evt_of x) = ev_rev x" by (simp_all add: evt_of_def)
  show ?thesis
  proof (cases "isdel (ev_rev x)")
    case True
    then show ?thesis using getRev_spec [OF env rel k, of ?r True] f by (auto simp: mod_versions_def Let_def kv_zero_def)
  next
    case False
    have srt: "sorted_wrt (\<lambda>h h'. vrev h' < vrev h) (H ?k)" by (rule hist_okD(3) [OF kv_relD(1) [OF rel]])
    have "visible ?r (H ?k) \<noteq> []" using h by (auto simp: visible_def newer_def dropWhile_eq_Nil_conv intro!: bexI [of _ h])
    then obtain h1 hs where v: "visible ?r (H ?k) = h1 # hs" by (cases "visible ?r (H ?k)") auto
    then have h1: "h1 \<in> set (H ?k)" "\<not> newer ?r h1" unfolding visible_def by (metis list.set_intros(1) set_dropWhileD, metis hd_dropWhile list.sel(1) list.simps(3))
    have "h \<in> set (h1 # hs)"
    proof -
      have "h \<in> set (takeWhile (newer ?r) (H ?k)) \<or> h \<in> set (dropWhile (newer ?r) (H ?k))" using h(1) by (metis UnE set_append takeWhile_dropWhile_id)
      moreover have "\<not> newer ?r h" using h(2) by (simp add: newer_def)
      ultimately show ?thesis using v set_takeWhileD [of h "newer ?r" "H ?k"] by (auto simp: visible_def)
    qed
    moreover have "sorted_wrt (\<lambda>h h'. vrev h' < vrev h) (h1 # hs)" using srt unfolding v [symmetric] visible_def by (metis dropWhile_eq_drop sorted_wrt_drop)
    ultimately have le: "vrev h \<le> vrev h1" by auto
    have "upper (vrev h1) = ?r" using upper_mono [OF le] h(2) h1(2) r0 by (simp add: newer_def)
    then have "vrev h1 \<le> vrev h" using lst h h1(1) False by metis
    then have e: "vrev h1 = ev_rev x" using le h(2) by simp
    then have "spec_at ?r (H ?k) = plain (fst h1)" using v False by (simp add: spec_at_def ver_kv_def)
    moreover have "kv_key (fst h1) = ?k" using hist_okD(2) [OF kv_relD(1) [OF rel] h1(1)] e False by (simp add: ver_ok_def)
    moreover from getRev_spec [OF env rel k, of ?r withPrev] obtain item prev where
      g: "dbKv_getRev env L t ?k ?r withPrev = Inr (item, prev, None)" "plain item = spec_at ?r (H ?k)" by blast
    ultimately have "plain item = plain (fst h1)" "kv_key (fst h1) = ?k" by simp_all
    then have "kv_key item = ?k" "kv_rev item = ev_rev x" using e by (auto simp: plain_def dest: arg_cong [of _ _ kv_key] arg_cong [of _ _ kv_rev])
    then show ?thesis using g(1) f False by (simp add: mod_versions_def)
  qed
qed

end

section \<open>Delivery\<close>

text \<open>What a watch is sent: the keys and revisions of the batches that name it.\<close>

definition addressed :: "u64 \<Rightarrow> WatchEventBatch \<Rightarrow> bool" where
  "addressed w b \<longleftrightarrow> w \<in> set (WatchEventBatch_WatchIds b @ WatchEventBatch_WatchIdsPrev b)"

definition event_item :: "Event \<Rightarrow> bytes \<times> u64" where
  "event_item e = (case Event_Kv e of None \<Rightarrow> ([], 0) | Some kv \<Rightarrow> (KeyValue_Key kv, KeyValue_ModRevision kv))"

definition batch_item :: "WatchEventBatch \<Rightarrow> bytes \<times> u64" where
  "batch_item b = event_item (WatchEventBatch_Event b)"

definition delivered :: "u64 \<Rightarrow> WatchEventBatch list \<Rightarrow> (bytes \<times> u64) list" where
  "delivered w bs = map batch_item (filter (addressed w) bs)"

definition evt_item :: "kvEvent \<Rightarrow> bytes \<times> u64" where
  "evt_item e = (evt_key e, upper (evt_rev e))"

lemma delivered_append [simp]: "delivered w (xs @ ys) = delivered w xs @ delivered w ys" "delivered w [] = []"
  by (simp_all add: delivered_def)

lemma delivered_one:
  "delivered w (if 0 < length (WatchEventBatch_WatchIds b) \<or> 0 < length (WatchEventBatch_WatchIdsPrev b) then [b] else []) =
    (if addressed w b then [batch_item b] else [])"
  by (auto simp: delivered_def addressed_def)

text \<open>The events of one notice.\<close>

lemma recv_events_notice:
  assumes maps: "maps_ok env H h seen (sync, reqs, mins)" and ids: "set (Notice_IDs (notices ! j)) \<subseteq> set seen" "ids_ok env H h (Notice_IDs (notices ! j))"
    and j: "j < length notices" "j < length prevs"
    and vers: "\<forall>e \<in> set es. \<exists>current prev. mod_versions env L t (0 < prevs ! j) e None = Inr (current, prev, None) \<and> kv_key current = evt_key e \<and>
      upper (kv_rev current) = upper (evt_rev e)"
    and u: "\<forall>e \<in> set es. upper (evt_rev e) = u" "0 < u"
    and pos: "if n = u \<or> n = 0 then i = j else Suc i = j"
  shows "es = [] \<or> (\<exists>bs sent1. recv_events env L t notices prevs reqs mins (es @ later) n i sent out None =
      recv_events env L t notices prevs reqs mins later u j sent1 (out @ bs) None \<and>
    (\<forall>b \<in> set bs. distinct (Notice_IDs (notices ! j)) \<longrightarrow> distinct (WatchEventBatch_WatchIds b @ WatchEventBatch_WatchIdsPrev b)) \<and>
    (\<forall>w. delivered w bs = map evt_item (filter (\<lambda>e. be64 w \<in> set (Notice_IDs (notices ! j)) \<and> wants env H h e w) es)))"
  using vers u(1) pos
proof (induction es arbitrary: n i sent out)
  case (Cons e es)
  let ?ids = "Notice_IDs (notices ! j)"
  let ?a = "map Uint64 (filter (\<lambda>b. wants env H h e (Uint64 b) \<and> \<not> wants_prev env H h (Uint64 b)) ?ids)"
    and ?b = "map Uint64 (filter (\<lambda>b. wants env H h e (Uint64 b) \<and> wants_prev env H h (Uint64 b)) ?ids)"
  from Cons.prems(1) obtain current prev where
    v: "mod_versions env L t (0 < prevs ! j) e None = Inr (current, prev, None)" "kv_key current = evt_key e" "upper (kv_rev current) = upper (evt_rev e)" by auto
  have len: "list_all (\<lambda>b. length b = 8) ?ids" using ids(2) by (auto simp: ids_ok_def list_all_iff)
  from recv_watches_spec [OF maps ids(1) len, of e "[]" "[]" sent] obtain sent1 where
    w: "recv_watches reqs mins e ?ids ([], [], sent) = (?a, ?b, sent1)" by auto
  have ue: "upper (evt_rev e) = u" using Cons.prems(2) by simp
  have jj: "(if n \<noteq> u \<and> 0 < n then Suc i else i) = j" using Cons.prems(3) by (auto simp: word_gt_0 split: if_splits)
  let ?batch = "\<lparr>WatchEventBatch_Event = \<lparr>Event_Type = etype e, Event_Kv = Some (ToProto current),
      Event_PrevKv = (if 0 < prevs ! j \<and> 0 < upper (kv_rev prev) then Some (ToProto prev) else None)\<rparr>,
    WatchEventBatch_Revision = KeyValue_ModRevision (ToProto current), WatchEventBatch_WatchIds = ?a, WatchEventBatch_WatchIdsPrev = ?b\<rparr>"
  let ?bs = "if 0 < length ?a \<or> 0 < length ?b then [?batch] else []"
  have step: "recv_events env L t notices prevs reqs mins ((e # es) @ later) n i sent out None =
      recv_events env L t notices prevs reqs mins (es @ later) u j sent1 (out @ ?bs) None"
    using v w j u(2) ue jj by (simp add: Let_def)
  have uid: "Uint64 b = x \<longleftrightarrow> b = be64 x" if "b \<in> set ?ids" for b x
    using that len be64_Uint64 [of b] by (auto simp: list_all_iff)
  have "x \<in> set ?a \<or> x \<in> set ?b \<longleftrightarrow> be64 x \<in> set ?ids \<and> wants env H h e x" for x
    using uid by (auto simp: image_iff) (metis uid)+
  then have "addressed x ?batch \<longleftrightarrow> be64 x \<in> set ?ids \<and> wants env H h e x" for x unfolding addressed_def set_append Un_iff WatchEventBatch.select_convs .
  moreover have "batch_item ?batch = evt_item e" using v(2,3) by (simp add: batch_item_def event_item_def evt_item_def ToProto_def)
  ultimately have one: "delivered x ?bs = map evt_item (filter (\<lambda>e. be64 x \<in> set ?ids \<and> wants env H h e x) [e])" for x
    using delivered_one [of x ?batch] unfolding WatchEventBatch.select_convs by simp
  have inj: "inj_on Uint64 (set ?ids)" using uid by (metis inj_onI)
  have dist: "distinct ?ids \<longrightarrow> (\<forall>b \<in> set ?bs. distinct (WatchEventBatch_WatchIds b @ WatchEventBatch_WatchIdsPrev b))"
    using inj by (auto simp: distinct_map inj_on_def dest: inj_onD [OF inj])
  show ?case
  proof (cases "es = []")
    case True
    then show ?thesis using step one dist by (intro disjI2 exI [of _ ?bs] exI [of _ sent1]) auto
  next
    case False
    have "if u = u \<or> u = 0 then j = j else Suc j = j" by simp
    from Cons.IH [OF _ _ this, of sent1 "out @ ?bs"] Cons.prems(1,2) False obtain bs sent2 where
      i: "recv_events env L t notices prevs reqs mins (es @ later) u j sent1 (out @ ?bs) None =
          recv_events env L t notices prevs reqs mins later u j sent2 ((out @ ?bs) @ bs) None"
        "\<forall>b \<in> set bs. distinct ?ids \<longrightarrow> distinct (WatchEventBatch_WatchIds b @ WatchEventBatch_WatchIdsPrev b)"
        "\<forall>w. delivered w bs = map evt_item (filter (\<lambda>e. be64 w \<in> set ?ids \<and> wants env H h e w) es)" by auto
    have "delivered x (?bs @ bs) = map evt_item (filter (\<lambda>e. be64 x \<in> set ?ids \<and> wants env H h e x) (e # es))" for x
      unfolding delivered_append(1) one i(3) [rule_format] by simp
    then show ?thesis using step i(1,2) dist
      by (intro disjI2 exI [of _ "?bs @ bs"] exI [of _ sent2] conjI) (auto simp del: delivered_append)
  qed
qed simp

text \<open>All notices: the index of the notice follows the revisions of the events, as every notice has some.\<close>

definition wanted :: "'x mod_env_scheme \<Rightarrow> 'h host \<Rightarrow> 'h \<Rightarrow> (u64 \<Rightarrow> kvEvent list) \<Rightarrow> u64 \<Rightarrow> Notice \<Rightarrow> (bytes \<times> u64) list" where
  "wanted env H h evs w n = map evt_item (filter (\<lambda>e. be64 w \<in> set (Notice_IDs n) \<and> wants env H h e w) (evs (Notice_Val n)))"

lemma recv_events_notices:
  assumes maps: "maps_ok env H h seen (sync, reqs, mins)"
    and ids: "\<forall>n \<in> set notices. set (Notice_IDs n) \<subseteq> set seen \<and> ids_ok env H h (Notice_IDs n) \<and> distinct (Notice_IDs n)"
    and evs: "\<forall>n \<in> set notices. evs (Notice_Val n) \<noteq> [] \<and> 0 < Notice_Val n \<and> (\<forall>e \<in> set (evs (Notice_Val n)). upper (evt_rev e) = Notice_Val n)"
    and vers: "\<forall>p. \<forall>n \<in> set notices. \<forall>e \<in> set (evs (Notice_Val n)). \<exists>current prev. mod_versions env L t p e None = Inr (current, prev, None) \<and>
      kv_key current = evt_key e \<and> upper (kv_rev current) = upper (evt_rev e)"
    and prevs: "length prevs = length notices" and srt: "sorted_wrt (<) (map Notice_Val notices)"
  shows "notices = past @ ns \<Longrightarrow> (if past = [] then n = 0 \<and> i = 0 else n = Notice_Val (last past) \<and> Suc i = length past) \<Longrightarrow>
    \<exists>bs sent1. recv_events env L t notices prevs reqs mins (concat (map (\<lambda>n. evs (Notice_Val n)) ns)) n i sent out None = Inr (out @ bs, sent1, None) \<and>
      (\<forall>b \<in> set bs. distinct (WatchEventBatch_WatchIds b @ WatchEventBatch_WatchIdsPrev b)) \<and>
      (\<forall>w. delivered w bs = concat (map (wanted env H h evs w) ns))"
proof (induction ns arbitrary: past n i sent out)
  case (Cons m ns)
  let ?j = "length past" and ?u = "Notice_Val m" and ?es = "evs (Notice_Val m)" and ?later = "concat (map (\<lambda>n. evs (Notice_Val n)) ns)"
  have m: "m \<in> set notices" "notices ! ?j = m" "?j < length notices" using Cons.prems(1) by auto
  have "past \<noteq> [] \<Longrightarrow> Notice_Val (last past) < ?u" using srt Cons.prems(1) by (auto simp: sorted_wrt_append)
  then have pos: "if n = ?u \<or> n = 0 then i = ?j else Suc i = ?j" using Cons.prems(2) evs m(1) srt Cons.prems(1)
    by (cases past rule: rev_cases) auto
  have a: "set (Notice_IDs (notices ! ?j)) \<subseteq> set seen" "ids_ok env H h (Notice_IDs (notices ! ?j))" "distinct (Notice_IDs (notices ! ?j))"
    "\<forall>e \<in> set ?es. upper (evt_rev e) = ?u" "0 < ?u" "?es \<noteq> []" using ids evs m(1,2) by auto
  have v: "\<forall>e \<in> set ?es. \<exists>current prev. mod_versions env L t (0 < prevs ! ?j) e None = Inr (current, prev, None) \<and> kv_key current = evt_key e \<and>
      upper (kv_rev current) = upper (evt_rev e)" using vers m(1) by blast
  have jp: "?j < length prevs" using prevs m(3) by simp
  from recv_events_notice [OF maps a(1,2) m(3) jp v a(4,5) pos, of ?later sent out] a(3,6) obtain bs sent1 where
    s: "recv_events env L t notices prevs reqs mins (?es @ ?later) n i sent out None =
        recv_events env L t notices prevs reqs mins ?later ?u ?j sent1 (out @ bs) None"
      "\<forall>b \<in> set bs. distinct (WatchEventBatch_WatchIds b @ WatchEventBatch_WatchIdsPrev b)"
      "\<forall>w. delivered w bs = map evt_item (filter (\<lambda>e. be64 w \<in> set (Notice_IDs m) \<and> wants env H h e w) ?es)" unfolding m(2) by blast
  have "notices = (past @ [m]) @ ns" using Cons.prems(1) by simp
  from Cons.IH [OF this, of ?u ?j sent1 "out @ bs"] obtain bs' sent2 where
    i: "recv_events env L t notices prevs reqs mins ?later ?u ?j sent1 (out @ bs) None = Inr ((out @ bs) @ bs', sent2, None)"
      "\<forall>b \<in> set bs'. distinct (WatchEventBatch_WatchIds b @ WatchEventBatch_WatchIdsPrev b)"
      "\<forall>w. delivered w bs' = concat (map (wanted env H h evs w) ns)" by auto
  have "delivered w bs = wanted env H h evs w m" for w using s(3) by (simp add: wanted_def)
  then show ?case using s(1,2) i by (intro exI [of _ "bs @ bs'"] exI [of _ sent2]) auto
qed simp

lemma sendBatches_ok: "(\<And>m. \<exists>d. marshal_stream env m = Inr d) \<Longrightarrow> \<exists>out. sendBatches env bs = Inr out"
proof (induction bs)
  case (Cons b bs)
  obtain d out where "marshal_stream env (SBatch b) = Inr d" "sendBatches env bs = Inr out" using Cons by blast
  then show ?case by (simp add: sendCodeMsg_def)
qed simp

lemma sendNotifies_ok: "(\<And>m. \<exists>d. marshal env m = Inr d) \<Longrightarrow> \<exists>out. sendNotifies env sent rv reqs = Inr out"
proof (induction reqs)
  case (Cons r reqs)
  obtain i req where r: "r = (i, req)" by (rule prod.exhaust)
  obtain d out where "marshal env (MHeader (responseHeader env rv)) = Inr d" "sendNotifies env sent rv reqs = Inr out" using Cons by blast
  then show ?case by (simp add: sendCodeHeader_def r)
qed simp

lemma sendNotifies_code: "sendNotifies env sent rv reqs = Inr ms \<Longrightarrow> \<forall>m \<in> set ms. take 1 (snd m) = [MOD_WatchMessageType_NOTIFY]"
proof (induction reqs arbitrary: ms)
  case (Cons r reqs)
  obtain i req where r: "r = (i, req)" by (rule prod.exhaust)
  from Cons show ?case unfolding r by (fastforce simp: sendCodeHeader_def elim!: bindE_InrE orPanic_InrE split: if_splits)
qed simp

context lmdb
begin

lemma notices_run:
  assumes env: "sm_env_ok env" "\<And>m. \<exists>d. marshal_stream env m = Inr d"
    and rel: "kv_rel env view t Hist" "ev_rel view t E" "logged Hist E"
    and lst: "\<forall>k. \<forall>h \<in> set (Hist k). \<not> isdel (vrev h) \<longrightarrow> (\<forall>h' \<in> set (Hist k). upper (vrev h') = upper (vrev h) \<longrightarrow> vrev h' \<le> vrev h)"
    and ns: "notices \<noteq> []" "list_all (\<lambda>n. ids_ok env H h (Notice_IDs n) \<and> distinct (Notice_IDs n)) notices" "sorted_wrt (<) (map Notice_Val notices)"
    and evs: "\<forall>n \<in> set notices. 0 < Notice_Val n \<and> (\<exists>x \<in> E. upper (ev_rev x) = Notice_Val n)"
  shows "\<exists>evts batches out syncs notifies. dbKv_scan L t 0 = Inr evts \<and> sendBatches env batches = Inr out \<and>
    rangeWatchRecv env L t H h notices = Inr (wp_Store H h (Notice_Val (last notices)), out @ syncs @ notifies) \<and>
    (\<forall>b \<in> set batches. distinct (WatchEventBatch_WatchIds b @ WatchEventBatch_WatchIdsPrev b)) \<and>
    (\<forall>w. delivered w batches = concat (map (wanted env H h (first_ops evts) w) notices)) \<and>
    (if concat (map Notice_IDs notices) = [] then syncs = []
     else \<exists>d. syncs = [(0, MOD_WatchMessageType_EVENT_SYNC # d)] \<and>
       marshal_stream env (SSync \<lparr>WatchEventSync_IDs = map Uint64 (concat (map Notice_IDs notices)), WatchEventSync_Revision = Notice_Val (last notices)\<rparr>) = Inr d) \<and>
    (\<exists>sent reqs. sendNotifies env sent (Notice_Val (last notices)) reqs = Inr notifies)"
proof -
  let ?evs = "\<lambda>r. map evt_dec (first_key t r)" and ?log = "map evt_dec (scan_entries t 0)"
  have e: "env_ok env" and m: "\<And>m. \<exists>d. marshal env m = Inr d" using env(1) by (simp_all add: sm_env_ok_def)
  have fk: "scan_entries t (Notice_Val n) \<noteq> [] \<and> (\<exists>xs. first_key t (Notice_Val n) = map evt_entry xs \<and> xs \<noteq> [] \<and> set xs \<subseteq> E \<and>
      (\<forall>y \<in> set xs. upper (ev_rev y) = Notice_Val n))" if n: "n \<in> set notices" for n
    using evs n first_revision [OF rel(2)] by blast
  have scan: "revScan L t (map Notice_Val notices) [] = Inr (concat (map (\<lambda>n. ?evs (Notice_Val n)) notices))"
    using revScan_concat [OF rel(2), of "map Notice_Val notices" "[]"] fk by (simp add: list_all_iff comp_def)
  have one: "?evs (Notice_Val n) = first_ops ?log (Notice_Val n)" if "n \<in> set notices" for n
    using evs that first_key_ops [OF rel(2)] by blast
  have "maps_ok env H h [] ([], [], [])" by (simp add: maps_ok_def)
  from recv_notices_spec [OF this, of notices "[]"] ns(2) obtain sync reqs mins where
    rn: "recv_notices env H h notices ([], [], []) [] =
        Inr ((sync, reqs, mins), map (\<lambda>n. length (filter (\<lambda>b. wants_prev env H h (Uint64 b)) (Notice_IDs n))) notices)"
      "maps_ok env H h (concat (map Notice_IDs notices)) (sync, reqs, mins)" by (auto simp: list_all_iff)
  let ?p = "map (\<lambda>n. length (filter (\<lambda>b. wants_prev env H h (Uint64 b)) (Notice_IDs n))) notices"
  have ids: "\<forall>n \<in> set notices. set (Notice_IDs n) \<subseteq> set (concat (map Notice_IDs notices)) \<and> ids_ok env H h (Notice_IDs n) \<and> distinct (Notice_IDs n)"
    using ns(2) by (auto simp: list_all_iff)
  have ev: "\<forall>n \<in> set notices. ?evs (Notice_Val n) \<noteq> [] \<and> 0 < Notice_Val n \<and> (\<forall>e \<in> set (?evs (Notice_Val n)). upper (evt_rev e) = Notice_Val n)"
  proof
    fix n assume n: "n \<in> set notices"
    from fk [OF n] obtain xs where "first_key t (Notice_Val n) = map evt_entry xs" "xs \<noteq> []" "\<forall>y \<in> set xs. upper (ev_rev y) = Notice_Val n" by blast
    then show "?evs (Notice_Val n) \<noteq> [] \<and> 0 < Notice_Val n \<and> (\<forall>e \<in> set (?evs (Notice_Val n)). upper (evt_rev e) = Notice_Val n)"
      using evs n by (auto simp: evt_of_def)
  qed
  have vers: "\<forall>p. \<forall>n \<in> set notices. \<forall>e \<in> set (?evs (Notice_Val n)). \<exists>current prev. mod_versions env L t p e None = Inr (current, prev, None) \<and>
      kv_key current = evt_key e \<and> upper (kv_rev current) = upper (evt_rev e)"
  proof (intro allI ballI)
    fix p n e assume n: "n \<in> set notices" and en: "e \<in> set (?evs (Notice_Val n))"
    from fk [OF n] obtain xs where xs: "first_key t (Notice_Val n) = map evt_entry xs" "set xs \<subseteq> E" "\<forall>y \<in> set xs. upper (ev_rev y) = Notice_Val n" by blast
    from en xs(1) have "e \<in> evt_of ` set xs" by simp
    then obtain x where x: "x \<in> set xs" "e = evt_of x" by blast
    have "0 < upper (ev_rev x)" using xs(3) x(1) evs n by simp
    from versions_spec [OF e rel(1,3) _ this lst, of p] xs(2) x show "\<exists>current prev. mod_versions env L t p e None = Inr (current, prev, None) \<and>
      kv_key current = evt_key e \<and> upper (kv_rev current) = upper (evt_rev e)" by (auto simp: evt_of_def)
  qed
  from recv_events_notices [OF rn(2) ids ev vers, of ?p "[]" notices 0 0 "\<lambda>_. 0" "[]"] ns(3) obtain bs sent1 where
    re: "recv_events env L t notices ?p reqs mins (concat (map (\<lambda>n. ?evs (Notice_Val n)) notices)) 0 0 (\<lambda>_. 0) [] None = Inr (bs, sent1, None)"
      "\<forall>b \<in> set bs. distinct (WatchEventBatch_WatchIds b @ WatchEventBatch_WatchIdsPrev b)"
      "\<forall>w. delivered w bs = concat (map (wanted env H h ?evs w) notices)" by auto
  from sendBatches_ok [OF env(2)] obtain out where o: "sendBatches env bs = Inr out" by blast
  from sendNotifies_ok [OF m] obtain nt where nt: "sendNotifies env sent1 (Notice_Val (last notices)) reqs = Inr nt" by blast
  obtain d where d: "marshal_stream env (SSync \<lparr>WatchEventSync_IDs = sync, WatchEventSync_Revision = Notice_Val (last notices)\<rparr>) = Inr d"
    using env(2) by blast
  have sync: "sync = map Uint64 (concat (map Notice_IDs notices))" using rn(2) by (simp add: maps_ok_def)
  let ?s = "if sync = [] then [] else [(0, MOD_WatchMessageType_EVENT_SYNC # d)]"
  have run: "rangeWatchRecv env L t H h notices = Inr (wp_Store H h (Notice_Val (last notices)), out @ ?s @ nt)"
    using rn(1) scan re(1) o nt d ns(1) by (simp add: rangeWatchRecv_def sendCodeMsg_def Let_def)
  have "map (wanted env H h ?evs w) notices = map (wanted env H h (first_ops ?log) w) notices" for w
    using one by (simp add: wanted_def)
  then have "\<forall>w. delivered w bs = concat (map (wanted env H h (first_ops ?log) w) notices)" using re(3) by metis
  moreover have "if concat (map Notice_IDs notices) = [] then ?s = [] else \<exists>d. ?s = [(0, MOD_WatchMessageType_EVENT_SYNC # d)] \<and>
       marshal_stream env (SSync \<lparr>WatchEventSync_IDs = map Uint64 (concat (map Notice_IDs notices)), WatchEventSync_Revision = Notice_Val (last notices)\<rparr>) = Inr d"
    using d unfolding sync by simp
  ultimately show ?thesis using o run re(2) nt scan_run [OF rel(2), of 0] by (intro exI [of _ ?log] exI [of _ bs] exI [of _ out] exI [of _ ?s] exI [of _ nt] conjI) blast+
qed

end

section \<open>Properties\<close>

text \<open>C39: \<open>revScan\<close> reads one operation of a revision. For a revision at or after which the log has an event it returns the events
  that share the smallest packed revision from there on, each once: the events of the later operations of a transaction,
  which have larger subrevisions, are not among them.\<close>

theorem revScan_first_operation:
  assumes "lmdb L view" "ev_rel view t E" "x \<in> E" "upper (fst x) = r"
  shows "\<exists>xs m. revScan L t [r] [] = Inr (map evt_of xs) \<and> distinct xs \<and> set xs = {y \<in> E. fst y = m} \<and>
    m \<in> fst ` E \<and> upper m = r \<and> (\<forall>y \<in> E. upper (fst y) = r \<longrightarrow> m \<le> fst y) \<and>
    (\<forall>y \<in> E. upper (fst y) = r \<and> fst y \<noteq> m \<longrightarrow> evt_of y \<notin> set (map evt_of xs))"
proof -
  let ?F = "{y \<in> E. push_bit 12 r \<le> fst y}"
  have fits: "unat r < 2 ^ 52" using assms(4) unat_upper_less [of "fst x"] by simp
  have le: "push_bit 12 r \<le> fst y" if "upper (fst y) = r" for y :: event using push_bit_le_upper [OF fits] that by simp
  from lmdb.first_key_spec [OF assms(1,2,3) le [OF assms(4)]] obtain xs where
    k: "lmdb.scan_entries view t r \<noteq> []" "lmdb.first_key view t r = map evt_entry xs" "distinct xs" "set xs = {y \<in> E. fst y = Min (fst ` ?F)}" by blast
  from lmdb.first_revision [OF assms] obtain ys where
    f: "lmdb.first_key view t r = map evt_entry ys" "ys \<noteq> []" "set ys \<subseteq> E" "\<forall>y \<in> set ys. upper (ev_rev y) = r" by blast
  have "xs = ys" using k(2) f(1) by (simp add: inj_map_eq_map inj_def)
  then have "hd xs \<in> set xs" "upper (fst (hd xs)) = r" using f(2,4) by simp_all
  then obtain y where y: "y \<in> E" "upper (fst y) = r" "fst y = Min (fst ` ?F)" unfolding k(4) by blast
  have fin: "finite E" by (rule lmdb.ev_finite [OF assms(1,2)])
  have "Min (fst ` ?F) \<le> fst z" if "z \<in> E" "upper (fst z) = r" for z using fin that le by (intro Min_le) auto
  moreover have "revScan L t [r] [] = Inr (map evt_of xs)"
    using lmdb.revScan_concat [OF assms(1,2), of "[r]" "[]"] k(1,2) by (simp del: revScan.simps add: comp_def)
  moreover have "evt_of z \<notin> set (map evt_of xs)" if "fst z \<noteq> Min (fst ` ?F)" for z using that k(4) by (auto simp: evt_of_def)
  moreover have "Min (fst ` ?F) \<in> fst ` E" "upper (Min (fst ` ?F)) = r" using imageI [OF y(1), of fst] y(2) unfolding y(3) by simp_all
  ultimately show ?thesis using k(3,4) by (intro exI [of _ xs] exI [of _ "Min (fst ` ?F)"] conjI ballI impI) (blast | simp)+
qed

text \<open>C8: every notified event reaches every watch that wants it, once. For notices at growing revisions that all have events, in a
  store where no key is written again in the revision of a put (as without multi-write), \<open>rangeWatchRecv\<close> succeeds. It sends the
  batches, then one sync that names the watches of the notices, then notifications only. What the batches have for a watch are,
  in order and each once, the keys and revisions of the events in the log of the first operation of the revision of every notice
  that names the watch (of all its events, \<open>first_ops_all\<close>, unless the revision is a transaction of several operations), as far as the
  watch selects them and they are newer than what it has been told of at its start; no batch names a watch twice, and the
  progress is the last revision.\<close>

theorem watch_notified:
  assumes "lmdb L view" "sm_env_ok env" "\<And>m. \<exists>d. marshal_stream env m = Inr d"
    and "kv_rel env view t Hist" "ev_rel view t E" "logged Hist E"
    and "\<forall>k. \<forall>h \<in> set (Hist k). \<not> isdel (vrev h) \<longrightarrow> (\<forall>h' \<in> set (Hist k). upper (vrev h') = upper (vrev h) \<longrightarrow> vrev h' \<le> vrev h)"
    and "notices \<noteq> []" "list_all (\<lambda>n. ids_ok env H h (Notice_IDs n) \<and> distinct (Notice_IDs n)) notices" "sorted_wrt (<) (map Notice_Val notices)"
    and "\<forall>n \<in> set notices. 0 < Notice_Val n \<and> (\<exists>x \<in> E. upper (fst x) = Notice_Val n)"
  shows "\<exists>evts batches out syncs notifies. dbKv_scan L t 0 = Inr evts \<and> sendBatches env batches = Inr out \<and>
    rangeWatchRecv env L t H h notices = Inr (wp_Store H h (Notice_Val (last notices)), out @ syncs @ notifies) \<and>
    (\<forall>b \<in> set batches. distinct (WatchEventBatch_WatchIds b @ WatchEventBatch_WatchIdsPrev b)) \<and>
    (\<forall>w. delivered w batches = concat (map (wanted env H h (first_ops evts) w) notices)) \<and>
    (if concat (map Notice_IDs notices) = [] then syncs = []
     else \<exists>d. syncs = [(0, MOD_WatchMessageType_EVENT_SYNC # d)] \<and>
       marshal_stream env (SSync \<lparr>WatchEventSync_IDs = map Uint64 (concat (map Notice_IDs notices)), WatchEventSync_Revision = Notice_Val (last notices)\<rparr>) = Inr d) \<and>
    (\<forall>m \<in> set notifies. take 1 (snd m) = [MOD_WatchMessageType_NOTIFY])"
proof -
  from lmdb.notices_run [OF assms] obtain evts batches out syncs notifies sent reqs where
    r: "dbKv_scan L t 0 = Inr evts" "sendBatches env batches = Inr out"
      "rangeWatchRecv env L t H h notices = Inr (wp_Store H h (Notice_Val (last notices)), out @ syncs @ notifies)"
      "\<forall>b \<in> set batches. distinct (WatchEventBatch_WatchIds b @ WatchEventBatch_WatchIdsPrev b)"
      "\<forall>w. delivered w batches = concat (map (wanted env H h (first_ops evts) w) notices)"
      "if concat (map Notice_IDs notices) = [] then syncs = []
       else \<exists>d. syncs = [(0, MOD_WatchMessageType_EVENT_SYNC # d)] \<and>
         marshal_stream env (SSync \<lparr>WatchEventSync_IDs = map Uint64 (concat (map Notice_IDs notices)), WatchEventSync_Revision = Notice_Val (last notices)\<rparr>) = Inr d"
    and n: "sendNotifies env sent (Notice_Val (last notices)) reqs = Inr notifies" by (elim exE conjE)
  from r sendNotifies_code [OF n] show ?thesis
    by (intro exI [of _ evts] exI [of _ batches] exI [of _ out] exI [of _ syncs] exI [of _ notifies] conjI)
qed

section \<open>A concrete run\<close>

definition dlv_env :: mod_env where
  "dlv_env = sm_env.extend wit_env \<lparr>marshal_stream = (\<lambda>_. Inr []), marshal_create = (\<lambda>_. Inr []),
     unmarshal_create = (\<lambda>_. Some \<lparr>WatchCreateRequest_Key = [97], WatchCreateRequest_RangeEnd = [98], WatchCreateRequest_StartRevision = 0,
       WatchCreateRequest_ProgressNotify = False, WatchCreateRequest_Filters = [], WatchCreateRequest_PrevKv = False,
       WatchCreateRequest_WatchId = 5, WatchCreateRequest_Fragment = False\<rparr>),
     unmarshal_WatchRequest = (\<lambda>_. None)\<rparr>"

text \<open>A host with one request for every id. Its state is the last progress.\<close>

definition one_host :: "u64 host" where
  "one_host = \<lparr>rw_Reserve = (\<lambda>h _. Some h), rw_Open = (\<lambda>h _ _ _. Some h), rw_OpenStart = (\<lambda>h _ _ _. Some h), rw_Start = (\<lambda>h _. Some h),
     rw_Stop = (\<lambda>h _. h), wc_Get = (\<lambda>_ _. [1]), wc_Put = (\<lambda>h _ _. h), wc_Del = (\<lambda>h _. h), wc_Min = (\<lambda>_. []), wr_Load = (\<lambda>_ _. 0),
     wr_Store = (\<lambda>h _ _. h), wr_Del = (\<lambda>h _. h), wid_Add = (\<lambda>h. (h, 1)), wp_Store = (\<lambda>_ rv. rv)\<rparr>"

lemma dlv_env_ok: "sm_env_ok dlv_env" "marshal_stream dlv_env m = Inr []"
  using wit_env_ok by (simp_all add: dlv_env_def sm_env.defs sm_env_ok_def env_ok_def snappy_ok_def pools_ok_def label_ok_def)

text \<open>A store with one key at revision 2, and its scans.\<close>

lemma one_key_put:
  assumes e: "env_ok env" and t0: "kv_rel env mem_view t0 (\<lambda>_. [])" "mem_view t0 DBI_event = []"
  shows "\<exists>t out. dbKv_put env mem_lmdb t0 2 0 0 1 [97, 98] (Some [1]) False False = Inr (t, out) \<and> kv_rel env mem_view t one_key \<and>
    ev_rel mem_view t {(newkeyrev 2 0 False, 1, [97, 98])} \<and> mem_view t DBI_meta = mem_view t0 DBI_meta"
proof -
  have p: "2 \<le> length [97, 98 :: byte]" "length [97, 98 :: byte] \<le> PCB_LIMIT_KEY_LENGTH" "rev_fits 2 0" "(2 :: u64) \<noteq> 0"
    "fresh (newkeyrev 2 0 False) (\<lambda>_. [])" "put_ok env 2 []" "length (sl (Some [1 :: byte])) < 2 ^ 62"
    by (simp_all add: PCB_LIMIT_KEY_LENGTH_def rev_fits_def fresh_def put_ok_def)
  from mem.put_spec [OF e t0(1) p, of False 0 1 False] show ?thesis
    unfolding one_key_def ev_rel_def evt_entry_def t0(2) by fastforce
qed

lemma one_key_last:
  "\<forall>k. \<forall>h \<in> set (one_key k). \<not> isdel (vrev h) \<longrightarrow> (\<forall>h' \<in> set (one_key k). upper (vrev h') = upper (vrev h) \<longrightarrow> vrev h' \<le> vrev h)"
  by (simp add: one_key_def add_version_def)

lemma single_revision: "{y \<in> {x}. fst y = fst x} = {x}"
  by auto

lemma one_key_scans:
  assumes "ev_rel mem_view t {(newkeyrev 2 0 False, 1, [97, 98])}"
  shows "dbKv_scan mem_lmdb t 0 = Inr [evt_of (newkeyrev 2 0 False, 1, [97, 98])]"
proof -
  let ?x = "(newkeyrev 2 0 False, 1 :: u64, [97, 98 :: byte])"
  from mem.scan_spec [OF assms, of 0] obtain evts where
    e: "dbKv_scan mem_lmdb t 0 = Inr evts" "set evts = {evt_of ?x}" "distinct evts" by auto
  then have "evts = [evt_of ?x]" by (cases evts; cases "tl evts") auto
  then show ?thesis using e(1) by simp
qed

theorem revScan_first_operation_witness:
  "\<exists>t out xs. dbKv_put plain_env mem_lmdb mem_empty 2 0 0 1 [97, 98] (Some [1]) False False = Inr (t, out) \<and>
     revScan mem_lmdb t [2] [] = Inr (map evt_of xs) \<and> set xs = {(newkeyrev 2 0 False, 1, [97, 98])}"
proof -
  from one_key_events obtain t out where
    t: "dbKv_put plain_env mem_lmdb mem_empty 2 0 0 1 [97, 98] (Some [1]) False False = Inr (t, out)"
      "ev_rel mem_view t {(newkeyrev 2 0 False, 1, [97, 98])}" by blast
  have u: "upper (fst (newkeyrev 2 0 False, 1 :: u64, [97, 98 :: byte])) = 2" by simp
  from revScan_first_operation [OF mem.lmdb_axioms t(2) singletonI u] obtain xs m where
    r: "revScan mem_lmdb t [2] [] = Inr (map evt_of xs)" "set xs = {y \<in> {(newkeyrev 2 0 False, 1 :: u64, [97, 98 :: byte])}. fst y = m}"
    "m \<in> fst ` {(newkeyrev 2 0 False, 1 :: u64, [97, 98 :: byte])}" by (elim exE conjE)
  have m: "m = fst (newkeyrev 2 0 False, 1 :: u64, [97, 98 :: byte])" using r(3) by (simp only: image_insert image_empty singleton_iff)
  have "set xs = {(newkeyrev 2 0 False, 1, [97, 98])}" unfolding r(2) m by (rule single_revision)
  with t(1) r(1) show ?thesis by blast
qed

theorem watch_notified_witness:
  "\<exists>t put batches out syncs notifies. dbKv_put dlv_env mem_lmdb mem_empty 2 0 0 1 [97, 98] (Some [1]) False False = Inr (t, put) \<and>
     sendBatches dlv_env batches = Inr out \<and>
     rangeWatchRecv dlv_env mem_lmdb t one_host 0 [\<lparr>Notice_Val = 2, Notice_IDs = [be64 5]\<rparr>] = Inr (2, out @ syncs @ notifies) \<and>
     delivered 5 batches = [([97, 98], 2)] \<and> length syncs = 1 \<and> (\<forall>m \<in> set notifies. take 1 (snd m) = [MOD_WatchMessageType_NOTIFY])"
proof -
  let ?n = "\<lparr>Notice_Val = 2, Notice_IDs = [be64 5]\<rparr>" and ?x = "(newkeyrev 2 0 False, 1 :: u64, [97, 98 :: byte])"
  have e: "env_ok dlv_env" "mem_view mem_empty DBI_event = []" using dlv_env_ok(1) by (simp_all add: sm_env_ok_def)
  from one_key_put [OF e(1) kv_rel_empty e(2)] obtain t put where
    t: "dbKv_put dlv_env mem_lmdb mem_empty 2 0 0 1 [97, 98] (Some [1]) False False = Inr (t, put)"
      "kv_rel dlv_env mem_view t one_key" "ev_rel mem_view t {?x}" by blast
  have ns: "[?n] \<noteq> []" "list_all (\<lambda>n. ids_ok dlv_env one_host 0 (Notice_IDs n) \<and> distinct (Notice_IDs n)) [?n]" "sorted_wrt (<) (map Notice_Val [?n])"
    "\<forall>n \<in> set [?n]. 0 < Notice_Val n \<and> (\<exists>x \<in> {?x}. upper (fst x) = Notice_Val n)"
    by (simp_all add: ids_ok_def one_host_def dlv_env_def sm_env.defs)
  have m: "\<exists>d. marshal_stream dlv_env m = Inr d" for m by (simp add: dlv_env_ok)
  from watch_notified [OF mem.lmdb_axioms dlv_env_ok(1) m t(2,3) one_key_logged one_key_last ns] obtain evts batches out syncs notifies where
    r: "dbKv_scan mem_lmdb t 0 = Inr evts" "sendBatches dlv_env batches = Inr out"
      "rangeWatchRecv dlv_env mem_lmdb t one_host 0 [?n] = Inr (wp_Store one_host 0 (Notice_Val (last [?n])), out @ syncs @ notifies)"
      "\<forall>w. delivered w batches = concat (map (wanted dlv_env one_host 0 (first_ops evts) w) [?n])"
      "if concat (map Notice_IDs [?n]) = [] then syncs = []
       else \<exists>d. syncs = [(0, MOD_WatchMessageType_EVENT_SYNC # d)] \<and>
         marshal_stream dlv_env (SSync \<lparr>WatchEventSync_IDs = map Uint64 (concat (map Notice_IDs [?n])), WatchEventSync_Revision = Notice_Val (last [?n])\<rparr>) = Inr d"
      "\<forall>m \<in> set notifies. take 1 (snd m) = [MOD_WatchMessageType_NOTIFY]" by (elim exE conjE)
  have "evts = [evt_of ?x]" using r(1) one_key_scans [OF t(3)] by simp
  then have "delivered 5 batches = [([97, 98], 2)]" using r(4)
    by (simp add: wanted_def first_ops_def wants_def cached_def one_host_def dlv_env_def sm_env.defs evt_item_def evt_of_def watch_selects_def)
  moreover have "wp_Store one_host 0 (Notice_Val (last [?n])) = 2" by (simp add: one_host_def)
  moreover have "length syncs = 1" using r(5) by (auto split: if_splits)
  ultimately show ?thesis using t(1) r(2,3,6)
    by (intro exI [of _ t] exI [of _ put] exI [of _ batches] exI [of _ out] exI [of _ syncs] exI [of _ notifies]) simp
qed

end
