(* ===== verification/Module_Grpc.thy ===== *)
theory Module_Grpc
  imports Module_Watch Watch_Service
begin

text \<open>
  The watch service of the gRPC module, \<open>src/module/service-grpc/service_watch.go\<close>: \<open>shardRecv\<close>, which takes what the storage
  module sends with \<open>raft.StreamSend\<close>, \<open>sendEvent\<close> and \<open>clearEvents\<close>.

  The events of a watch wait in a buffer of the host (\<open>buffer.MultiValueSet\<close>) until a sync or until the buffer is full. The
  buffers are the parameter \<open>B\<close>, a record of their calls over a state of their own; the locale \<open>multi_value\<close> states what the
  code relies on. The outputs are listed as responses: \<open>grpc_server.Send\<close> is given their bytes, and a response that cannot be
  marshalled panics.

  \<open>holds\<close> says which events wait for which watch, \<open>sent_to\<close> which events a client has got for a watch. Every step keeps the two
  together equal to what has come in; a sync empties the buffers it names. With the lemmas of \<open>Module_Watch\<close> on what the storage
  module sends this gives what a client receives. An encoding that can be read back shows that the assumptions can hold.
\<close>

declare split_paired_Ex [simp del] split_paired_All [simp del]

section \<open>Messages and buffers\<close>

record grpc_response = WatchResponse +
  WatchResponse_CancelReason :: bytes

record grpc_env = mod_env +
  unmarshal_Batch :: "bytes \<Rightarrow> WatchEventBatch option"
  unmarshal_Sync :: "bytes \<Rightarrow> WatchEventSync option"
  unmarshal_Header :: "bytes \<Rightarrow> ResponseHeader option"
  unmarshal_Event :: "bytes \<Rightarrow> Event option"
  marshal_Response :: "grpc_response \<Rightarrow> bytes result"
  errWatcherDuplicateID :: bytes

record 'b buffers =
  mv_Append :: "'b \<Rightarrow> u64 \<Rightarrow> bytes \<Rightarrow> 'b option"
  mv_Iter :: "'b \<Rightarrow> u64 \<Rightarrow> bytes list"
  mv_Reset :: "'b \<Rightarrow> u64 \<Rightarrow> 'b"

definition WATCH_ID_ERROR :: u64 where "WATCH_ID_ERROR = push_bit 63 1"

definition gresp_zero :: grpc_response where
  "gresp_zero = WatchResponse.extend watch_resp_zero \<lparr>WatchResponse_CancelReason = []\<rparr>"

definition gsend :: "'x grpc_env_scheme \<Rightarrow> grpc_response \<Rightarrow> grpc_response result" where
  "gsend env resp = orPanic (marshal_Response env resp) (\<lambda>_. Inr resp)"

section \<open>clearEvents and sendEvent\<close>

text \<open>The loop over a buffer: the events and the revision of the last one. A value below eight bytes is sliced out of range.\<close>

fun clear_items :: "'x grpc_env_scheme \<Rightarrow> bytes list \<Rightarrow> Event list \<Rightarrow> u64 \<Rightarrow> (Event list \<times> u64) result" where
  "clear_items env [] evts lastRev = Inr (evts, lastRev)"
| "clear_items env (b # bs) evts lastRev =
     (if length b < 8 then Inl GoPanic
      else
        (case unmarshal_Event env (take (length b - 8) b) of
           None \<Rightarrow> Inl GoPanic
         | Some evt \<Rightarrow> clear_items env bs (evts @ [evt]) (Uint64 (drop (length b - 8) b))))"

definition clearEvents :: "'x grpc_env_scheme \<Rightarrow> 'b buffers \<Rightarrow> 'b \<Rightarrow> i64 \<Rightarrow> u64 \<Rightarrow> bool \<Rightarrow> ('b \<times> grpc_response list) result" where
  "clearEvents env B s i rv sync =
     bindE (clear_items env (mv_Iter B s i) [] 0) (\<lambda>(evts, lastRev).
     if length evts = 0 then Inr (s, [])
     else
       bindE (gsend env (gresp_zero\<lparr>WatchResponse_Header := header_zero\<lparr>Header_Revision := rv\<rparr>, WatchResponse_WatchId := i,
                WatchResponse_Fragment := (\<not> sync \<and> lastRev = rv), WatchResponse_Events := evts\<rparr>)) (\<lambda>resp.
       Inr (mv_Reset B s i, [resp])))"

definition sendEvent :: "'x grpc_env_scheme \<Rightarrow> 'b buffers \<Rightarrow> 'b \<Rightarrow> i64 \<Rightarrow> u64 \<Rightarrow> bytes \<Rightarrow> ('b \<times> grpc_response list) result" where
  "sendEvent env B s i rv b =
     (let b2 = b @ be64 rv in
      case mv_Append B s i b2 of
        Some s1 \<Rightarrow> Inr (s1, [])
      | None \<Rightarrow>
          bindE (clearEvents env B s i rv False) (\<lambda>(s1, out).
          case mv_Append B s1 i b2 of
            None \<Rightarrow> Inl GoPanic
          | Some s2 \<Rightarrow> Inr (s2, out)))"

section \<open>shardRecv\<close>

fun sendEvents :: "'x grpc_env_scheme \<Rightarrow> 'b buffers \<Rightarrow> u64 \<Rightarrow> bytes \<Rightarrow> i64 list \<Rightarrow> 'b \<Rightarrow> grpc_response list \<Rightarrow> ('b \<times> grpc_response list) result" where
  "sendEvents env B rv b [] s out = Inr (s, out)"
| "sendEvents env B rv b (i # is) s out =
     bindE (sendEvent env B s i rv b) (\<lambda>(s1, out1). sendEvents env B rv b is s1 (out @ out1))"

text \<open>The watches that want the previous version get the event as it is, the others without it.\<close>

definition recv_batch :: "'x grpc_env_scheme \<Rightarrow> 'b buffers \<Rightarrow> 'b \<Rightarrow> WatchEventBatch \<Rightarrow> ('b \<times> grpc_response list) result" where
  "recv_batch env B s batch =
     bindE (if 0 < length (WatchEventBatch_WatchIdsPrev batch)
            then orPanic (marshal env (MEvent (WatchEventBatch_Event batch))) (\<lambda>b.
                 sendEvents env B (WatchEventBatch_Revision batch) b (WatchEventBatch_WatchIdsPrev batch) s [])
            else Inr (s, [])) (\<lambda>(s1, out1).
     if 0 < length (WatchEventBatch_WatchIds batch)
     then orPanic (marshal env (MEvent ((WatchEventBatch_Event batch)\<lparr>Event_PrevKv := None\<rparr>))) (\<lambda>b.
          sendEvents env B (WatchEventBatch_Revision batch) b (WatchEventBatch_WatchIds batch) s1 out1)
     else Inr (s1, out1))"

fun recv_sync :: "'x grpc_env_scheme \<Rightarrow> 'b buffers \<Rightarrow> u64 \<Rightarrow> i64 list \<Rightarrow> 'b \<Rightarrow> grpc_response list \<Rightarrow> ('b \<times> grpc_response list) result" where
  "recv_sync env B rv [] s out = Inr (s, out)"
| "recv_sync env B rv (i # is) s out =
     bindE (clearEvents env B s i rv True) (\<lambda>(s1, out1). recv_sync env B rv is s1 (out @ out1))"

text \<open>The header of a message, or a panic.\<close>

definition recv_header :: "'x grpc_env_scheme \<Rightarrow> bytes \<Rightarrow> (ResponseHeader \<Rightarrow> 'a result) \<Rightarrow> 'a result" where
  "recv_header env data f = (case unmarshal_Header env data of None \<Rightarrow> Inl GoPanic | Some h \<Rightarrow> f h)"

definition shardRecv :: "'x grpc_env_scheme \<Rightarrow> 'b buffers \<Rightarrow> 'b \<Rightarrow> u64 \<Rightarrow> bytes \<Rightarrow> ('b \<times> grpc_response list) result" where
  "shardRecv env B s i data =
     (if i = WATCH_ID_ERROR then Inr (s, [])
      else
        (case data of
           [] \<Rightarrow> Inl GoPanic
         | code # body \<Rightarrow>
             if code = MOD_WatchMessageType_INIT then
               recv_header env body (\<lambda>h.
               bindE (gsend env (gresp_zero\<lparr>WatchResponse_Header := h, WatchResponse_WatchId := i, WatchResponse_Created := True\<rparr>)) (\<lambda>r.
               Inr (s, [r])))
             else if code = MOD_WatchMessageType_EVENT_BATCH then
               (case unmarshal_Batch env body of None \<Rightarrow> Inl GoPanic | Some batch \<Rightarrow> recv_batch env B s batch)
             else if code = MOD_WatchMessageType_EVENT_SYNC then
               (case unmarshal_Sync env body of
                  None \<Rightarrow> Inl GoPanic
                | Some sync \<Rightarrow> recv_sync env B (WatchEventSync_Revision sync) (WatchEventSync_IDs sync) s [])
             else if code = MOD_WatchMessageType_NOTIFY then
               recv_header env body (\<lambda>h.
               bindE (gsend env (gresp_zero\<lparr>WatchResponse_Header := h, WatchResponse_WatchId := i\<rparr>)) (\<lambda>r. Inr (s, [r])))
             else if code = MOD_WatchMessageType_CANCELED then
               bindE (gsend env (gresp_zero\<lparr>WatchResponse_WatchId := i, WatchResponse_Canceled := True\<rparr>)) (\<lambda>r. Inr (s, [r]))
             else if code = MOD_WatchMessageType_ERR_EXISTS then
               bindE (gsend env (gresp_zero\<lparr>WatchResponse_WatchId := - 1, WatchResponse_Created := True, WatchResponse_Canceled := True,
                        WatchResponse_CancelReason := errWatcherDuplicateID env\<rparr>)) (\<lambda>r. Inr (s, [r]))
             else if code = MOD_WatchMessageType_ERR_COMPACTED then
               recv_header env body (\<lambda>h.
               bindE (gsend env (gresp_zero\<lparr>WatchResponse_Header := h, WatchResponse_WatchId := i, WatchResponse_Created := True\<rparr>)) (\<lambda>r1.
               bindE (gsend env (gresp_zero\<lparr>WatchResponse_Header := h, WatchResponse_WatchId := i, WatchResponse_Canceled := True,
                        WatchResponse_CompactRevision := Header_Revision h\<rparr>)) (\<lambda>r2.
               Inr (s, [r1, r2]))))
             else Inl GoPanic))"

text \<open>The messages of the storage module, one after the other.\<close>

fun shardRecvs :: "'x grpc_env_scheme \<Rightarrow> 'b buffers \<Rightarrow> 'b \<Rightarrow> sends \<Rightarrow> ('b \<times> grpc_response list) result" where
  "shardRecvs env B s [] = Inr (s, [])"
| "shardRecvs env B s ((i, data) # ms) =
     bindE (shardRecv env B s i data) (\<lambda>(s1, out1).
     bindE (shardRecvs env B s1 ms) (\<lambda>(s2, out2). Inr (s2, out1 @ out2)))"

section \<open>Buffers\<close>

text \<open>What the buffers promise: a value that is taken is the last one of its buffer and of no other, a reset empties one
  buffer, and an empty buffer takes every value that fits.\<close>

locale multi_value =
  fixes B :: "'b buffers" and fits :: "bytes \<Rightarrow> bool"
  assumes Append: "mv_Append B s i x = Some s' \<Longrightarrow> mv_Iter B s' j = (if j = i then mv_Iter B s i @ [x] else mv_Iter B s j)"
    and Reset: "mv_Iter B (mv_Reset B s i) j = (if j = i then [] else mv_Iter B s j)"
    and Fresh: "mv_Iter B s i = [] \<Longrightarrow> fits x \<Longrightarrow> \<exists>s'. mv_Append B s i x = Some s'"

text \<open>Buffers in memory, of a size in values.\<close>

definition mem_buffers :: "nat \<Rightarrow> (u64 \<Rightarrow> bytes list) buffers" where
  "mem_buffers n = \<lparr>mv_Append = (\<lambda>s i x. if length (s i) < n then Some (s(i := s i @ [x])) else None),
     mv_Iter = (\<lambda>s i. s i), mv_Reset = (\<lambda>s i. s(i := []))\<rparr>"

interpretation mem_buf: multi_value "mem_buffers (Suc n)" "\<lambda>_. True"
  by unfold_locales (auto simp: mem_buffers_def split: if_splits)

section \<open>What is held and what is sent\<close>

text \<open>What the code relies on of the encoding: what is marshalled can be unmarshalled again, and an event with its revision
  fits into an empty buffer.\<close>

definition grpc_ok :: "'x grpc_env_scheme \<Rightarrow> (bytes \<Rightarrow> bool) \<Rightarrow> bool" where
  "grpc_ok env fits \<longleftrightarrow>
     (\<forall>m. \<exists>d. marshal env m = Inr d) \<and> (\<forall>m. \<exists>d. marshal_stream env m = Inr d) \<and> (\<forall>r. \<exists>d. marshal_Response env r = Inr d) \<and>
     (\<forall>e d. marshal env (MEvent e) = Inr d \<longrightarrow> unmarshal_Event env d = Some e) \<and>
     (\<forall>h d. marshal env (MHeader h) = Inr d \<longrightarrow> unmarshal_Header env d = Some h) \<and>
     (\<forall>b d. marshal_stream env (SBatch b) = Inr d \<longrightarrow> unmarshal_Batch env d = Some b) \<and>
     (\<forall>b d. marshal_stream env (SSync b) = Inr d \<longrightarrow> unmarshal_Sync env d = Some b) \<and>
     (\<forall>e d rv. marshal env (MEvent e) = Inr d \<longrightarrow> fits (d @ be64 rv))"

lemma grpc_okD:
  assumes "grpc_ok env fits"
  shows "\<And>m. \<exists>d. marshal env m = Inr d" "\<And>m. \<exists>d. marshal_stream env m = Inr d" "\<And>r. \<exists>d. marshal_Response env r = Inr d"
    "\<And>e d. marshal env (MEvent e) = Inr d \<Longrightarrow> unmarshal_Event env d = Some e"
    "\<And>h d. marshal env (MHeader h) = Inr d \<Longrightarrow> unmarshal_Header env d = Some h"
    "\<And>b d. marshal_stream env (SBatch b) = Inr d \<Longrightarrow> unmarshal_Batch env d = Some b"
    "\<And>b d. marshal_stream env (SSync b) = Inr d \<Longrightarrow> unmarshal_Sync env d = Some b"
    "\<And>e d rv. marshal env (MEvent e) = Inr d \<Longrightarrow> fits (d @ be64 rv)"
  using assms unfolding grpc_ok_def by simp_all

text \<open>A buffer that holds events, and the events a client gets.\<close>

definition holds :: "'x grpc_env_scheme \<Rightarrow> 'b buffers \<Rightarrow> 'b \<Rightarrow> (u64 \<Rightarrow> Event list) \<Rightarrow> bool" where
  "holds env B s buf \<longleftrightarrow> (\<forall>i. \<exists>rvs ds. mv_Iter B s i = map2 (\<lambda>d rv. d @ be64 rv) ds rvs \<and> length rvs = length ds \<and>
     list_all2 (\<lambda>e d. marshal env (MEvent e) = Inr d) (buf i) ds)"

definition sent_to :: "u64 \<Rightarrow> grpc_response list \<Rightarrow> Event list" where
  "sent_to i rs = concat (map WatchResponse_Events (filter (\<lambda>r. WatchResponse_WatchId r = i) rs))"

text \<open>The event a batch has for a watch.\<close>

definition batch_event :: "u64 \<Rightarrow> WatchEventBatch \<Rightarrow> Event list" where
  "batch_event w b =
     (if w \<in> set (WatchEventBatch_WatchIdsPrev b) then [WatchEventBatch_Event b]
      else if w \<in> set (WatchEventBatch_WatchIds b) then [(WatchEventBatch_Event b)\<lparr>Event_PrevKv := None\<rparr>] else [])"

definition batch_events :: "u64 \<Rightarrow> WatchEventBatch list \<Rightarrow> Event list" where
  "batch_events w bs = concat (map (batch_event w) bs)"

lemma batch_events_items: "map event_item (batch_events w bs) = delivered w bs"
  by (induction bs) (auto simp: batch_events_def batch_event_def delivered_def addressed_def batch_item_def event_item_def split: if_splits)

lemma sent_to_simps [simp]:
  "sent_to i [] = []" "sent_to i (r # rs) = (if WatchResponse_WatchId r = i then WatchResponse_Events r else []) @ sent_to i rs"
  "sent_to i (rs @ rs') = sent_to i rs @ sent_to i rs'"
  by (simp_all add: sent_to_def)

lemma gresp_simps [simp]:
  "WatchResponse_Events gresp_zero = []" "WatchResponse_WatchId gresp_zero = 0"
  by (simp_all add: gresp_zero_def watch_resp_zero_def WatchResponse.defs)

lemma gsend_ok: "grpc_ok env fits \<Longrightarrow> gsend env r = Inr r"
  by (auto simp: grpc_ok_def gsend_def) (metis orPanic_Inr)

lemma clear_items_spec:
  assumes "grpc_ok env fits" "list_all2 (\<lambda>e d. marshal env (MEvent e) = Inr d) es ds" "length rvs = length ds"
  shows "\<exists>lst. clear_items env (map2 (\<lambda>d rv. d @ be64 rv) ds rvs) evts lr = Inr (evts @ es, lst)"
  using assms(2,3)
proof (induction es ds arbitrary: rvs evts lr rule: list_all2_induct)
  case (Cons e es d ds)
  from Cons.prems obtain rv rvs' where r: "rvs = rv # rvs'" "length rvs' = length ds" by (cases rvs) auto
  have "unmarshal_Event env d = Some e" using assms(1) Cons.hyps(1) by (simp add: grpc_ok_def)
  with Cons.IH [OF r(2), of "evts @ [e]" "Uint64 (be64 rv)"] show ?case by (simp add: r(1))
qed simp

lemma holds_empty: "holds env B s (\<lambda>_. []) \<longleftrightarrow> (\<forall>i. mv_Iter B s i = [])"
  by (auto simp: holds_def)

lemma shardRecvs_append:
  "shardRecvs env B s (ms @ ms') = bindE (shardRecvs env B s ms) (\<lambda>(s1, out1). bindE (shardRecvs env B s1 ms') (\<lambda>(s2, out2). Inr (s2, out1 @ out2)))"
proof (induction ms arbitrary: s)
  case Nil
  show ?case by (cases "shardRecvs env B s ms'") auto
next
  case (Cons m ms)
  obtain i data where m: "m = (i, data)" by (rule prod.exhaust)
  show ?case
  proof (cases "shardRecv env B s i data")
    case (Inr r)
    obtain s1 out1 where r: "r = (s1, out1)" by (rule prod.exhaust)
    show ?thesis
    proof (cases "shardRecvs env B s1 ms")
      case inr: (Inr r2)
      obtain s2 out2 where r2: "r2 = (s2, out2)" by (rule prod.exhaust)
      show ?thesis by (cases "shardRecvs env B s2 ms'") (auto simp: m Inr r inr r2 Cons.IH)
    qed (simp add: m Inr r Cons.IH)
  qed (simp add: m)
qed

text \<open>The messages of a list of batches, sent with one value.\<close>

definition batch_msgs :: "'x mod_env_scheme \<Rightarrow> u64 \<Rightarrow> WatchEventBatch list \<Rightarrow> sends \<Rightarrow> bool" where
  "batch_msgs env v bs ms = list_all2 (\<lambda>b m. fst m = v \<and> (\<exists>d. marshal_stream env (SBatch b) = Inr d \<and> snd m = MOD_WatchMessageType_EVENT_BATCH # d)) bs ms"

lemma sendBatches_msgs: "sendBatches env bs = Inr ms \<Longrightarrow> batch_msgs env 0 bs ms"
proof (induction bs arbitrary: ms)
  case (Cons b bs)
  then show ?case
    by (cases "marshal_stream env (SBatch b)"; cases "sendBatches env bs") (auto simp: sendCodeMsg_def orPanic_def batch_msgs_def split: if_splits)
qed (simp add: batch_msgs_def)

context multi_value
begin

lemma clearEvents_spec:
  assumes ok: "grpc_ok env fits" and h: "holds env B s buf"
  shows "\<exists>s' out. clearEvents env B s i rv sync = Inr (s', out) \<and> holds env B s' (buf(i := [])) \<and>
    (\<forall>w. sent_to w out = (if w = i then buf i else [])) \<and> mv_Iter B s' i = []"
proof -
  from h obtain rvs ds where b: "mv_Iter B s i = map2 (\<lambda>d rv. d @ be64 rv) ds rvs" "length rvs = length ds"
    "list_all2 (\<lambda>e d. marshal env (MEvent e) = Inr d) (buf i) ds" unfolding holds_def by blast
  from clear_items_spec [OF ok b(3,2), of "[]" 0] b(1) obtain lst where c: "clear_items env (mv_Iter B s i) [] 0 = Inr (buf i, lst)" by auto
  show ?thesis
  proof (cases "buf i = []")
    case True
    then have "mv_Iter B s i = []" using b by simp
    moreover have "buf(i := []) = buf" using True by auto
    ultimately show ?thesis using c True h by (simp add: clearEvents_def)
  next
    case False
    have "holds env B (mv_Reset B s i) (buf(i := []))" using h unfolding holds_def Reset by auto
    then show ?thesis using c False gsend_ok [OF ok] Reset by (simp add: clearEvents_def)
  qed
qed

lemma append_holds:
  assumes "holds env B s buf" "marshal env (MEvent e) = Inr d" "mv_Append B s i (d @ be64 rv) = Some s'"
  shows "holds env B s' (buf(i := buf i @ [e]))"
  unfolding holds_def
proof
  fix j
  from assms(1) obtain rvs ds where b: "mv_Iter B s j = map2 (\<lambda>d rv. d @ be64 rv) ds rvs" "length rvs = length ds"
    "list_all2 (\<lambda>e d. marshal env (MEvent e) = Inr d) (buf j) ds" unfolding holds_def by blast
  show "\<exists>rvs ds. mv_Iter B s' j = map2 (\<lambda>d rv. d @ be64 rv) ds rvs \<and> length rvs = length ds \<and>
     list_all2 (\<lambda>e d. marshal env (MEvent e) = Inr d) ((buf(i := buf i @ [e])) j) ds"
  proof (cases "j = i")
    case True
    then show ?thesis using b Append [OF assms(3), of j] assms(2)
      by (intro exI [of _ "rvs @ [rv]"] exI [of _ "ds @ [d]"]) (auto simp: list_all2_appendI)
  next
    case False
    then show ?thesis using b Append [OF assms(3), of j] by (intro exI [of _ rvs] exI [of _ ds]) simp
  qed
qed

lemma sendEvent_spec:
  assumes ok: "grpc_ok env fits" and h: "holds env B s buf" and d: "marshal env (MEvent e) = Inr d"
  shows "\<exists>s' out buf'. sendEvent env B s i rv d = Inr (s', out) \<and> holds env B s' buf' \<and>
    (\<forall>w. sent_to w out @ buf' w = buf w @ (if w = i then [e] else []))"
proof (cases "mv_Append B s i (d @ be64 rv)")
  case (Some s')
  then show ?thesis using append_holds [OF h d Some] by (intro exI [of _ s'] exI [of _ "[]"] exI [of _ "buf(i := buf i @ [e])"]) (simp add: sendEvent_def)
next
  case None
  from clearEvents_spec [OF ok h, of i rv False] obtain s1 out where
    c: "clearEvents env B s i rv False = Inr (s1, out)" "holds env B s1 (buf(i := []))" "\<forall>w. sent_to w out = (if w = i then buf i else [])"
      "mv_Iter B s1 i = []" by blast
  have "fits (d @ be64 rv)" using ok d by (simp add: grpc_ok_def)
  from Fresh [OF c(4) this] obtain s2 where s2: "mv_Append B s1 i (d @ be64 rv) = Some s2" by blast
  from append_holds [OF c(2) d s2] show ?thesis using None c(1,3) s2
    by (intro exI [of _ s2] exI [of _ out] exI [of _ "(buf(i := []))(i := (buf(i := [])) i @ [e])"]) (simp add: sendEvent_def)
qed

lemma sendEvents_spec:
  assumes ok: "grpc_ok env fits" and d: "marshal env (MEvent e) = Inr d"
  shows "holds env B s buf \<Longrightarrow> distinct is \<Longrightarrow> \<exists>s' out' buf'. sendEvents env B rv d is s out = Inr (s', out @ out') \<and> holds env B s' buf' \<and>
    (\<forall>w. sent_to w out' @ buf' w = buf w @ (if w \<in> set is then [e] else []))"
proof (induction "is" arbitrary: s buf out)
  case (Cons i "is")
  from sendEvent_spec [OF ok Cons.prems(1) d, of i rv] obtain s1 out1 buf1 where
    a: "sendEvent env B s i rv d = Inr (s1, out1)" "holds env B s1 buf1" "\<forall>w. sent_to w out1 @ buf1 w = buf w @ (if w = i then [e] else [])" by blast
  from Cons.IH [OF a(2), of "out @ out1"] Cons.prems(2) obtain s2 out2 buf2 where
    c: "sendEvents env B rv d is s1 (out @ out1) = Inr (s2, (out @ out1) @ out2)" "holds env B s2 buf2"
      "\<forall>w. sent_to w out2 @ buf2 w = buf1 w @ (if w \<in> set is then [e] else [])" by auto
  have "sent_to w (out1 @ out2) @ buf2 w = buf w @ (if w \<in> set (i # is) then [e] else [])" for w
  proof -
    have "sent_to w (out1 @ out2) @ buf2 w = (sent_to w out1 @ buf1 w) @ (if w \<in> set is then [e] else [])" using c(3) by simp
    also have "\<dots> = buf w @ (if w = i then [e] else []) @ (if w \<in> set is then [e] else [])" using a(3) by simp
    finally show ?thesis using Cons.prems(2) by auto
  qed
  then show ?case using a(1) c(1,2) by (intro exI [of _ s2] exI [of _ "out1 @ out2"] exI [of _ buf2]) simp
qed auto

lemma recv_batch_spec:
  assumes ok: "grpc_ok env fits" and h: "holds env B s buf"
    and dist: "distinct (WatchEventBatch_WatchIds b @ WatchEventBatch_WatchIdsPrev b)"
  shows "\<exists>s' out buf'. recv_batch env B s b = Inr (s', out) \<and> holds env B s' buf' \<and> (\<forall>w. sent_to w out @ buf' w = buf w @ batch_event w b)"
proof -
  let ?e = "WatchEventBatch_Event b" and ?rv = "WatchEventBatch_Revision b" and ?ids = "WatchEventBatch_WatchIds b" and ?prev = "WatchEventBatch_WatchIdsPrev b"
  have dd: "distinct ?ids" "distinct ?prev" "set ?ids \<inter> set ?prev = {}" using dist by auto
  obtain d where d: "marshal env (MEvent ?e) = Inr d" using grpc_okD(1,2) [OF ok] by blast
  obtain d' where d': "marshal env (MEvent (?e\<lparr>Event_PrevKv := None\<rparr>)) = Inr d'" using grpc_okD(1) [OF ok] by blast
  from sendEvents_spec [OF ok d h dd(2), of ?rv "[]"] obtain s1 out1 buf1 where
    a: "sendEvents env B ?rv d ?prev s [] = Inr (s1, out1)" "holds env B s1 buf1"
      "\<forall>w. sent_to w out1 @ buf1 w = buf w @ (if w \<in> set ?prev then [?e] else [])" by auto
  from sendEvents_spec [OF ok d' a(2) dd(1), of ?rv out1] obtain s2 out2 buf2 where
    c: "sendEvents env B ?rv d' ?ids s1 out1 = Inr (s2, out1 @ out2)" "holds env B s2 buf2"
      "\<forall>w. sent_to w out2 @ buf2 w = buf1 w @ (if w \<in> set ?ids then [?e\<lparr>Event_PrevKv := None\<rparr>] else [])" by auto
  have run: "recv_batch env B s b = Inr (s2, out1 @ out2)" using a(1) c(1) d d' by (auto simp: recv_batch_def)
  have "sent_to w (out1 @ out2) @ buf2 w = buf w @ batch_event w b" for w
  proof -
    have "sent_to w (out1 @ out2) @ buf2 w = (sent_to w out1 @ buf1 w) @ (if w \<in> set ?ids then [?e\<lparr>Event_PrevKv := None\<rparr>] else [])" using c(3) by simp
    also have "\<dots> = buf w @ (if w \<in> set ?prev then [?e] else []) @ (if w \<in> set ?ids then [?e\<lparr>Event_PrevKv := None\<rparr>] else [])" using a(3) by simp
    finally show ?thesis using dd(3) by (auto simp: batch_event_def)
  qed
  then show ?thesis using run c(2) by blast
qed

lemma recv_sync_spec:
  assumes ok: "grpc_ok env fits"
  shows "holds env B s buf \<Longrightarrow> \<exists>s' out'. recv_sync env B rv is s out = Inr (s', out @ out') \<and>
    holds env B s' (\<lambda>w. if w \<in> set is then [] else buf w) \<and> (\<forall>w. sent_to w out' = (if w \<in> set is then buf w else []))"
proof (induction "is" arbitrary: s buf out)
  case (Cons i "is")
  from clearEvents_spec [OF ok Cons.prems, of i rv True] obtain s1 out1 where
    a: "clearEvents env B s i rv True = Inr (s1, out1)" "holds env B s1 (buf(i := []))" "\<forall>w. sent_to w out1 = (if w = i then buf i else [])" by blast
  from Cons.IH [OF a(2), of "out @ out1"] obtain s2 out2 where
    c: "recv_sync env B rv is s1 (out @ out1) = Inr (s2, (out @ out1) @ out2)"
      "holds env B s2 (\<lambda>w. if w \<in> set is then [] else (buf(i := [])) w)" "\<forall>w. sent_to w out2 = (if w \<in> set is then (buf(i := [])) w else [])" by blast
  have "(\<lambda>w. if w \<in> set is then [] else (buf(i := [])) w) = (\<lambda>w. if w \<in> set (i # is) then [] else buf w)" by auto
  then show ?case using a(1,3) c by (intro exI [of _ s2] exI [of _ "out1 @ out2"]) auto
qed simp

text \<open>The messages of \<open>rangeWatchRecv\<close> and of \<open>watchScan\<close>, part by part.\<close>

lemma recv_batches_spec:
  assumes ok: "grpc_ok env fits" and v: "v \<noteq> WATCH_ID_ERROR"
  shows "batch_msgs env v bs ms \<Longrightarrow> holds env B s buf \<Longrightarrow> \<forall>b \<in> set bs. distinct (WatchEventBatch_WatchIds b @ WatchEventBatch_WatchIdsPrev b) \<Longrightarrow>
    \<exists>s' out buf'. shardRecvs env B s ms = Inr (s', out) \<and> holds env B s' buf' \<and> (\<forall>w. sent_to w out @ buf' w = buf w @ batch_events w bs)"
  unfolding batch_msgs_def
proof (induction arbitrary: s buf rule: list_all2_induct)
  case (Cons b bs m ms)
  from Cons.hyps(1) obtain d where d: "marshal_stream env (SBatch b) = Inr d" "m = (v, MOD_WatchMessageType_EVENT_BATCH # d)" by (cases m) auto
  have u: "unmarshal_Batch env d = Some b" by (rule grpc_okD(6) [OF ok d(1)])
  from recv_batch_spec [OF ok Cons.prems(1), of b] Cons.prems(2) obtain s1 out1 buf1 where
    a: "recv_batch env B s b = Inr (s1, out1)" "holds env B s1 buf1" "\<forall>w. sent_to w out1 @ buf1 w = buf w @ batch_event w b" by auto
  from Cons.IH [OF a(2)] Cons.prems(2) obtain s2 out2 buf2 where
    c: "shardRecvs env B s1 ms = Inr (s2, out2)" "holds env B s2 buf2" "\<forall>w. sent_to w out2 @ buf2 w = buf1 w @ batch_events w bs" by auto
  have "shardRecv env B s v (MOD_WatchMessageType_EVENT_BATCH # d) = Inr (s1, out1)" using a(1) u v
    by (simp add: shardRecv_def MOD_WatchMessageType_EVENT_BATCH_def MOD_WatchMessageType_INIT_def)
  then have run: "shardRecvs env B s (m # ms) = Inr (s2, out1 @ out2)" using c(1) by (simp add: d(2))
  have "sent_to w (out1 @ out2) @ buf2 w = buf w @ batch_events w (b # bs)" for w
  proof -
    have "sent_to w (out1 @ out2) @ buf2 w = (sent_to w out1 @ buf1 w) @ batch_events w bs" using c(3) by simp
    also have "\<dots> = buf w @ batch_events w (b # bs)" using a(3) by (simp add: batch_events_def)
    finally show ?thesis .
  qed
  then show ?case using run c(2) by blast
qed (auto simp: batch_events_def)

lemma shardRecv_sync:
  assumes ok: "grpc_ok env fits" and h: "holds env B s buf" and d: "marshal_stream env (SSync sync) = Inr d"
  shows "\<exists>s' out. shardRecv env B s 0 (MOD_WatchMessageType_EVENT_SYNC # d) = Inr (s', out) \<and>
    holds env B s' (\<lambda>w. if w \<in> set (WatchEventSync_IDs sync) then [] else buf w) \<and>
    (\<forall>w. sent_to w out = (if w \<in> set (WatchEventSync_IDs sync) then buf w else []))"
proof -
  have "unmarshal_Sync env d = Some sync" by (rule grpc_okD(7) [OF ok d])
  then have "shardRecv env B s 0 (MOD_WatchMessageType_EVENT_SYNC # d) = recv_sync env B (WatchEventSync_Revision sync) (WatchEventSync_IDs sync) s []"
    by (simp add: shardRecv_def WATCH_ID_ERROR_def MOD_WatchMessageType_EVENT_SYNC_def MOD_WatchMessageType_EVENT_BATCH_def MOD_WatchMessageType_INIT_def)
  then show ?thesis using recv_sync_spec [OF ok h, of "WatchEventSync_Revision sync" "WatchEventSync_IDs sync" "[]"] by auto
qed

text \<open>Batches whose watches are all in the sync that follows: everything is sent and nothing stays.\<close>

lemma recv_flush:
  assumes ok: "grpc_ok env fits" and v: "v \<noteq> WATCH_ID_ERROR" and ms: "batch_msgs env v bs ms"
    and dist: "\<forall>b \<in> set bs. distinct (WatchEventBatch_WatchIds b @ WatchEventBatch_WatchIdsPrev b)"
    and e: "\<forall>i. mv_Iter B s i = []" and d: "marshal_stream env (SSync sync) = Inr d"
    and all: "\<forall>w. batch_events w bs \<noteq> [] \<longrightarrow> w \<in> set (WatchEventSync_IDs sync)"
  shows "\<exists>s' out. shardRecvs env B s (ms @ [(0, MOD_WatchMessageType_EVENT_SYNC # d)]) = Inr (s', out) \<and> (\<forall>i. mv_Iter B s' i = []) \<and>
    (\<forall>w. sent_to w out = batch_events w bs)"
proof -
  have "holds env B s (\<lambda>_. [])" using e by (simp add: holds_empty)
  from recv_batches_spec [OF ok v ms this dist] obtain s1 out1 buf1 where
    a: "shardRecvs env B s ms = Inr (s1, out1)" "holds env B s1 buf1" "\<forall>w. sent_to w out1 @ buf1 w = batch_events w bs" by auto
  from shardRecv_sync [OF ok a(2) d] obtain s2 out2 where
    c: "shardRecv env B s1 0 (MOD_WatchMessageType_EVENT_SYNC # d) = Inr (s2, out2)" "holds env B s2 (\<lambda>w. if w \<in> set (WatchEventSync_IDs sync) then [] else buf1 w)"
      "\<forall>w. sent_to w out2 = (if w \<in> set (WatchEventSync_IDs sync) then buf1 w else [])" by blast
  have none: "w \<notin> set (WatchEventSync_IDs sync) \<Longrightarrow> sent_to w out1 = [] \<and> buf1 w = []" for w using all a(3) by (metis append_is_Nil_conv)
  then have "(\<lambda>w. if w \<in> set (WatchEventSync_IDs sync) then [] else buf1 w) = (\<lambda>_. [])" by auto
  with c(2) have "\<forall>i. mv_Iter B s2 i = []" by (simp add: holds_empty)
  moreover have "sent_to w (out1 @ out2) = batch_events w bs" for w using c(3) none [of w] a(3) by (auto simp: a(3) [rule_format, symmetric])
  moreover have "shardRecvs env B s (ms @ [(0, MOD_WatchMessageType_EVENT_SYNC # d)]) = Inr (s2, out1 @ out2)" using a(1) c(1) by (simp add: shardRecvs_append)
  ultimately show ?thesis by blast
qed

text \<open>With no watch to sync there is no sync, and nothing to send.\<close>

lemma recv_synced:
  assumes ok: "grpc_ok env fits" and ms: "batch_msgs env 0 bs ms"
    and dist: "\<forall>b \<in> set bs. distinct (WatchEventBatch_WatchIds b @ WatchEventBatch_WatchIdsPrev b)"
    and e: "\<forall>i. mv_Iter B s i = []"
    and y: "if ids = [] then syncs = [] else \<exists>d. syncs = [(0, MOD_WatchMessageType_EVENT_SYNC # d)] \<and>
      marshal_stream env (SSync \<lparr>WatchEventSync_IDs = map Uint64 ids, WatchEventSync_Revision = rv\<rparr>) = Inr d"
    and all: "\<forall>w. batch_events w bs \<noteq> [] \<longrightarrow> w \<in> set (map Uint64 ids)"
  shows "\<exists>s' out. shardRecvs env B s (ms @ syncs) = Inr (s', out) \<and> (\<forall>i. mv_Iter B s' i = []) \<and> (\<forall>w. sent_to w out = batch_events w bs)"
proof (cases "ids = []")
  case True
  have "holds env B s (\<lambda>_. [])" using e by (simp add: holds_empty)
  from recv_batches_spec [OF ok _ ms this dist] obtain s1 out1 buf1 where
    a: "shardRecvs env B s ms = Inr (s1, out1)" "holds env B s1 buf1" "\<forall>w. sent_to w out1 @ buf1 w = batch_events w bs"
    by (auto simp: WATCH_ID_ERROR_def)
  have "batch_events w bs = []" for w using all True by auto
  then have "buf1 = (\<lambda>_. [])" "\<forall>w. sent_to w out1 = batch_events w bs" using a(3) by auto
  then show ?thesis using a(1,2) y True by (simp add: holds_empty)
next
  case False
  from y [unfolded if_not_P [OF False]] obtain d where d: "syncs = [(0, MOD_WatchMessageType_EVENT_SYNC # d)]"
    "marshal_stream env (SSync \<lparr>WatchEventSync_IDs = map Uint64 ids, WatchEventSync_Revision = rv\<rparr>) = Inr d" by (elim exE conjE)
  show ?thesis unfolding d(1)
    by (rule recv_flush [OF ok _ ms dist e d(2)]) (use all in \<open>auto simp: WATCH_ID_ERROR_def\<close>)
qed

lemma recv_notifies_spec:
  assumes ok: "grpc_ok env fits"
  shows "sendNotifies env sent rv reqs = Inr ms \<Longrightarrow> \<exists>out. shardRecvs env B s ms = Inr (s, out) \<and> (\<forall>w. sent_to w out = [])"
proof (induction reqs arbitrary: ms)
  case (Cons r reqs)
  obtain i req where r: "r = (i, req)" by (rule prod.exhaust)
  obtain d where d: "marshal env (MHeader (responseHeader env rv)) = Inr d" using grpc_okD(1,2) [OF ok] by blast
  then have u: "unmarshal_Header env d = Some (responseHeader env rv)" by (rule grpc_okD(5) [OF ok])
  have one: "\<exists>out. shardRecv env B s i (MOD_WatchMessageType_NOTIFY # d) = Inr (s, out) \<and> (\<forall>w. sent_to w out = [])"
    using u gsend_ok [OF ok]
    by (auto simp: shardRecv_def recv_header_def MOD_WatchMessageType_EVENT_BATCH_def MOD_WatchMessageType_INIT_def
        MOD_WatchMessageType_NOTIFY_def MOD_WatchMessageType_EVENT_SYNC_def)
  from Cons.prems show ?case using Cons.IH one d by (cases "sendNotifies env sent rv reqs") (fastforce simp: r sendCodeHeader_def split: if_splits)+
qed simp

end

text \<open>The batches of \<open>watchScan\<close>: one for every selected event, with its type, key and revision; they name the watch among those
  without the previous version.\<close>

definition scan_batch :: "WatchCreateRequest \<Rightarrow> WatchEventBatch \<Rightarrow> kvEvent \<Rightarrow> bool" where
  "scan_batch req b e \<longleftrightarrow> WatchEventBatch_WatchIds b = [WatchCreateRequest_WatchId req] \<and> WatchEventBatch_WatchIdsPrev b = [] \<and>
     Event_Type (WatchEventBatch_Event b) = etype e \<and> batch_item b = evt_item e"

lemma watch_events_run:
  assumes m: "\<And>m. \<exists>d. marshal_stream env m = Inr d"
    and v: "\<forall>e \<in> set evts. \<exists>current prev. mod_versions env L t (WatchCreateRequest_PrevKv req) e None = Inr (current, prev, None) \<and>
      kv_key current = evt_key e \<and> upper (kv_rev current) = upper (evt_rev e) \<and> 0 < upper (evt_rev e)"
  shows "\<exists>bs ms. mod_watch_events env L t req rv evts out None = Inr (out @ ms, None) \<and> batch_msgs env (WatchCreateRequest_WatchId req) bs ms \<and>
    list_all2 (scan_batch req) bs (filter (watch_selects req) evts)"
  using v
proof (induction evts arbitrary: out)
  case (Cons evt evts)
  show ?case
  proof (cases "watch_selects req evt")
    case False
    then show ?thesis using Cons mod_selects [of req evt] by auto
  next
    case True
    then have sel: "mod_in_range req (evt_key evt)" "\<not> mod_filtered req evt" using mod_selects [of req evt] by auto
    let ?i = "WatchCreateRequest_WatchId req"
    from Cons.prems obtain current prev where v: "mod_versions env L t (WatchCreateRequest_PrevKv req) evt None = Inr (current, prev, None)"
      "kv_key current = evt_key evt" "upper (kv_rev current) = upper (evt_rev evt)" "0 < upper (evt_rev evt)" by auto
    define b where "b = \<lparr>WatchEventBatch_Event = \<lparr>Event_Type = etype evt, Event_Kv = Some (ToProto current),
        Event_PrevKv = (if 0 < upper (kv_rev prev) then Some (ToProto prev) else None)\<rparr>,
      WatchEventBatch_Revision = rv, WatchEventBatch_WatchIds = [?i], WatchEventBatch_WatchIdsPrev = []\<rparr>"
    obtain d where d: "marshal_stream env (SBatch b) = Inr d" using m by blast
    let ?m = "(?i, MOD_WatchMessageType_EVENT_BATCH # d)"
    from Cons.IH [of "out @ [?m]"] Cons.prems obtain bs ms where
      i: "mod_watch_events env L t req rv evts (out @ [?m]) None = Inr ((out @ [?m]) @ ms, None)" "batch_msgs env ?i bs ms"
        "list_all2 (scan_batch req) bs (filter (watch_selects req) evts)" by auto
    have "scan_batch req b evt" using v(2,3) by (simp add: scan_batch_def b_def batch_item_def event_item_def evt_item_def ToProto_def)
    moreover have "mod_watch_events env L t req rv (evt # evts) out None = Inr (out @ ?m # ms, None)"
      using sel v i(1) d by (simp add: sendCodeMsg_def Let_def b_def)
    ultimately show ?thesis using True i(2,3) d
      by (intro exI [of _ "b # bs"] exI [of _ "?m # ms"]) (simp add: batch_msgs_def)
  qed
qed (auto simp: batch_msgs_def)

context lmdb
begin

text \<open>The scan of \<open>watchStart\<close> from an earlier revision: the creation, the batches and a sync when there are any.\<close>

lemma history_scan:
  assumes env: "sm_env_ok env" "\<And>m. \<exists>d. marshal_stream env m = Inr d" and rel: "kv_rel env view t Hist" "ev_rel view t E" "logged Hist E"
    and lst: "\<forall>k. \<forall>h \<in> set (Hist k). \<not> isdel (vrev h) \<longrightarrow> (\<forall>h' \<in> set (Hist k). upper (vrev h') = upper (vrev h) \<longrightarrow> vrev h' \<le> vrev h)"
    and rv: "getRevision L t = Inr rv" and since: "0 < since" "unat since < 2 ^ 52"
  shows "\<exists>evts bs ms hb d. dbKv_scan L t since = Inr evts \<and> marshal env (MHeader (responseHeader env rv)) = Inr hb \<and>
    marshal_stream env (SSync \<lparr>WatchEventSync_IDs = [WatchCreateRequest_WatchId req], WatchEventSync_Revision = rv\<rparr>) = Inr d \<and>
    mod_watch_scan env L t req since True = Inr (rv, (WatchCreateRequest_WatchId req, MOD_WatchMessageType_INIT # hb) #
      (if ms = [] then [] else ms @ [(0, MOD_WatchMessageType_EVENT_SYNC # d)]), None) \<and>
    batch_msgs env (WatchCreateRequest_WatchId req) bs ms \<and> list_all2 (scan_batch req) bs (filter (watch_selects req) evts)"
proof -
  have e: "env_ok env" and m: "\<And>m. \<exists>d. marshal env m = Inr d" using env(1) by (simp_all add: sm_env_ok_def)
  from scan_spec [OF rel(2), of since] obtain evts where s: "dbKv_scan L t since = Inr evts" "set evts = evt_of ` {x \<in> E. push_bit 12 since \<le> fst x}" by blast
  have v: "\<exists>current prev. mod_versions env L t p e None = Inr (current, prev, None) \<and> kv_key current = evt_key e \<and>
      upper (kv_rev current) = upper (evt_rev e) \<and> 0 < upper (evt_rev e)" if ev: "e \<in> set evts" for p e
  proof -
    from ev s(2) obtain x where x: "x \<in> E" "push_bit 12 since \<le> fst x" "e = evt_of x" by blast
    have "since \<le> upper (fst x)" using push_bit_le_upper [OF since(2)] x(2) by simp
    then have "0 < upper (ev_rev x)" by (rule order_less_le_trans [OF since(1)])
    from versions_spec [OF e rel(1,3) x(1) this lst, of p] this x(3) show ?thesis by (auto simp: evt_of_def)
  qed
  from watch_events_run [OF env(2), of evts L t req rv "[]"] v obtain bs ms where
    r: "mod_watch_events env L t req rv evts [] None = Inr (ms, None)" "batch_msgs env (WatchCreateRequest_WatchId req) bs ms"
      "list_all2 (scan_batch req) bs (filter (watch_selects req) evts)" by auto
  obtain hb where h: "marshal env (MHeader (responseHeader env rv)) = Inr hb" using m by blast
  obtain d where d: "marshal_stream env (SSync \<lparr>WatchEventSync_IDs = [WatchCreateRequest_WatchId req], WatchEventSync_Revision = rv\<rparr>) = Inr d"
    using env(2) by blast
  have "mod_watch_scan env L t req since True = Inr (rv, (WatchCreateRequest_WatchId req, MOD_WatchMessageType_INIT # hb) #
      (if ms = [] then [] else ms @ [(0, MOD_WatchMessageType_EVENT_SYNC # d)]), None)"
    using rv since(1) s(1) r(1) h d mod_scan_eq [OF rel(2), of since] by (auto simp: mod_watch_scan_def sendCodeHeader_def sendCodeMsg_def)
  then show ?thesis using s(1) r(2,3) h d by blast
qed

end

lemma scan_batch_events:
  assumes "list_all2 (scan_batch req) bs evts"
  shows "list_all2 (\<lambda>ev e. Event_Type ev = etype e \<and> event_item ev = evt_item e \<and> Event_PrevKv ev = None) (batch_events (WatchCreateRequest_WatchId req) bs) evts"
    and "w \<noteq> WatchCreateRequest_WatchId req \<Longrightarrow> batch_events w bs = []"
    and "\<forall>b \<in> set bs. distinct (WatchEventBatch_WatchIds b @ WatchEventBatch_WatchIdsPrev b)"
  using assms by (induction rule: list_all2_induct)
    (auto simp: batch_events_def batch_event_def scan_batch_def batch_item_def event_item_def)

context multi_value
begin

text \<open>The messages of a scan: the creation sends no events, and the sync sends all that the batches have.\<close>

lemma recv_history:
  assumes ok: "grpc_ok env fits" and i: "i \<noteq> WATCH_ID_ERROR" and ms: "batch_msgs env i bs ms"
    and dist: "\<forall>b \<in> set bs. distinct (WatchEventBatch_WatchIds b @ WatchEventBatch_WatchIdsPrev b)"
    and e: "\<forall>i. mv_Iter B s i = []" and all: "\<forall>w. w \<noteq> i \<longrightarrow> batch_events w bs = []"
    and hb: "marshal env (MHeader h) = Inr hb" and d: "marshal_stream env (SSync \<lparr>WatchEventSync_IDs = [i], WatchEventSync_Revision = rv\<rparr>) = Inr d"
  shows "\<exists>s' out. shardRecvs env B s ((i, MOD_WatchMessageType_INIT # hb) # (if ms = [] then [] else ms @ [(0, MOD_WatchMessageType_EVENT_SYNC # d)])) =
      Inr (s', out) \<and> (\<forall>i. mv_Iter B s' i = []) \<and> (\<forall>w. sent_to w out = batch_events w bs)"
proof -
  let ?r = "gresp_zero\<lparr>WatchResponse_Header := h, WatchResponse_WatchId := i, WatchResponse_Created := True\<rparr>"
  have "unmarshal_Header env hb = Some h" by (rule grpc_okD(5) [OF ok hb])
  then have init: "shardRecv env B s i (MOD_WatchMessageType_INIT # hb) = Inr (s, [?r])" using i gsend_ok [OF ok] by (simp add: shardRecv_def recv_header_def)
  have "sent_to w [?r] = []" for w by simp
  show ?thesis
  proof (cases "ms = []")
    case True
    then have "bs = []" using ms by (simp add: batch_msgs_def)
    then show ?thesis using True init e by (simp add: batch_events_def)
  next
    case False
    have "\<forall>w. batch_events w bs \<noteq> [] \<longrightarrow> w \<in> set (WatchEventSync_IDs \<lparr>WatchEventSync_IDs = [i], WatchEventSync_Revision = rv\<rparr>)" using all by auto
    from recv_flush [OF ok i ms dist e d this] False init show ?thesis by auto
  qed
qed

end

section \<open>Properties\<close>

text \<open>C7: the two modules together deliver every notified event once. What \<open>rangeWatchRecv\<close> of the storage module sends, the gRPC module
  turns into responses with no panic. The notices come at growing revisions that all have events, and no key is written again in
  the revision of a put (as without multi-write). Starting from empty buffers of any size that takes one event, the events of the
  responses to a watch are, in order and each once, the events in the log of the first operation of the revision of every notice
  that names the watch (of all its events, \<open>first_ops_all\<close>, unless the revision is a transaction of several operations), as far as
  the watch wants them, whatever the buffers cut into fragments, and no event stays in a buffer.\<close>

theorem watch_client_receives:
  assumes "lmdb L view" "sm_env_ok env" "grpc_ok env fits" "multi_value B fits"
    and "kv_rel env view t Hist" "ev_rel view t E" "logged Hist E"
    and "\<forall>k. \<forall>h \<in> set (Hist k). \<not> isdel (vrev h) \<longrightarrow> (\<forall>h' \<in> set (Hist k). upper (vrev h') = upper (vrev h) \<longrightarrow> vrev h' \<le> vrev h)"
    and "notices \<noteq> []" "list_all (\<lambda>n. ids_ok env H h (Notice_IDs n) \<and> distinct (Notice_IDs n)) notices" "sorted_wrt (<) (map Notice_Val notices)"
    and "\<forall>n \<in> set notices. 0 < Notice_Val n \<and> (\<exists>x \<in> E. upper (fst x) = Notice_Val n)"
    and "\<forall>i. mv_Iter B s i = []"
  shows "\<exists>evts ms s' out. dbKv_scan L t 0 = Inr evts \<and> rangeWatchRecv env L t H h notices = Inr (wp_Store H h (Notice_Val (last notices)), ms) \<and>
    shardRecvs env B s ms = Inr (s', out) \<and> (\<forall>i. mv_Iter B s' i = []) \<and>
    (\<forall>w. map event_item (sent_to w out) = concat (map (wanted env H h (first_ops evts) w) notices))"
proof -
  let ?ids = "concat (map Notice_IDs notices)"
  note ok = assms(3)
  from lmdb.notices_run [OF assms(1,2) grpc_okD(2) [OF ok] assms(5-12)] obtain evts bs out syncs notifies sent reqs where
    log: "dbKv_scan L t 0 = Inr evts" and
    r: "sendBatches env bs = Inr out" "rangeWatchRecv env L t H h notices = Inr (wp_Store H h (Notice_Val (last notices)), out @ syncs @ notifies)"
      "\<forall>b \<in> set bs. distinct (WatchEventBatch_WatchIds b @ WatchEventBatch_WatchIdsPrev b)" "\<forall>w. delivered w bs = concat (map (wanted env H h (first_ops evts) w) notices)"
      "if ?ids = [] then syncs = [] else \<exists>d. syncs = [(0, MOD_WatchMessageType_EVENT_SYNC # d)] \<and>
         marshal_stream env (SSync \<lparr>WatchEventSync_IDs = map Uint64 ?ids, WatchEventSync_Revision = Notice_Val (last notices)\<rparr>) = Inr d"
      "sendNotifies env sent (Notice_Val (last notices)) reqs = Inr notifies" by (elim exE conjE)
  let ?w = "\<lambda>w. concat (map (wanted env H h (first_ops evts) w) notices)"
  note ms = sendBatches_msgs [OF r(1)]
  have items: "map event_item (batch_events w bs) = ?w w" for w unfolding batch_events_items using r(4) by simp
  have named: "w \<in> set (map Uint64 ?ids)" if "batch_events w bs \<noteq> []" for w
  proof -
    have "?w w \<noteq> []" using that items [of w] by (metis list.map_disc_iff)
    then obtain n where n: "n \<in> set notices" "be64 w \<in> set (Notice_IDs n)" by (auto simp: wanted_def filter_empty_conv)
    then show ?thesis by (force intro: image_eqI [of _ Uint64 "be64 w"])
  qed
  from multi_value.recv_synced [OF assms(4) ok ms r(3) assms(13) r(5)] named obtain s1 out1 where
    a: "shardRecvs env B s (out @ syncs) = Inr (s1, out1)" "\<forall>i. mv_Iter B s1 i = []" "\<forall>w. sent_to w out1 = batch_events w bs" by blast
  from r(6) multi_value.recv_notifies_spec [OF assms(4) ok] obtain out2 where
    n: "shardRecvs env B s1 notifies = Inr (s1, out2)" "\<forall>w. sent_to w out2 = []" by blast
  have "shardRecvs env B s (out @ syncs @ notifies) = Inr (s1, out1 @ out2)"
    using shardRecvs_append [of env B s "out @ syncs" notifies] a(1) n(1) by simp
  moreover have "map event_item (sent_to w (out1 @ out2)) = ?w w" for w using a(3) n(2) items by simp
  ultimately show ?thesis using log r(2) a(2) by blast
qed

text \<open>C37: a watch from an earlier revision gets no previous versions. The history scan of \<open>watchStart\<close> succeeds, and what it sends, the
  gRPC module turns into one event per selected event of the log from that revision on, with its type, key and revision, in order;
  every one of them has lost its previous version, whether or not the watch asked for it: the scan names the watch among the
  watches without it. As in the other properties of these watches no key is written again in the revision of a put.\<close>

theorem watch_history_loses_prev:
  assumes "lmdb L view" "sm_env_ok env" "grpc_ok env fits" "multi_value B fits"
    and "kv_rel env view t Hist" "ev_rel view t E" "logged Hist E"
    and "\<forall>k. \<forall>h \<in> set (Hist k). \<not> isdel (vrev h) \<longrightarrow> (\<forall>h' \<in> set (Hist k). upper (vrev h') = upper (vrev h) \<longrightarrow> vrev h' \<le> vrev h)"
    and "getRevision L t = Inr rv" "0 < since" "unat since < 2 ^ 52"
    and "WatchCreateRequest_WatchId req \<noteq> WATCH_ID_ERROR" "\<forall>i. mv_Iter B s i = []"
  shows "\<exists>evts ms s' out. dbKv_scan L t since = Inr evts \<and> mod_watch_scan env L t req since True = Inr (rv, ms, None) \<and>
    shardRecvs env B s ms = Inr (s', out) \<and> (\<forall>i. mv_Iter B s' i = []) \<and>
    list_all2 (\<lambda>ev e. Event_Type ev = etype e \<and> event_item ev = evt_item e \<and> Event_PrevKv ev = None)
      (sent_to (WatchCreateRequest_WatchId req) out) (filter (watch_selects req) evts)"
proof -
  from lmdb.history_scan [OF assms(1,2) grpc_okD(2) [OF assms(3)] assms(5-11), of req] obtain evts bs ms hb d where
    h: "dbKv_scan L t since = Inr evts" "marshal env (MHeader (responseHeader env rv)) = Inr hb"
      "marshal_stream env (SSync \<lparr>WatchEventSync_IDs = [WatchCreateRequest_WatchId req], WatchEventSync_Revision = rv\<rparr>) = Inr d"
      "mod_watch_scan env L t req since True = Inr (rv, (WatchCreateRequest_WatchId req, MOD_WatchMessageType_INIT # hb) #
        (if ms = [] then [] else ms @ [(0, MOD_WatchMessageType_EVENT_SYNC # d)]), None)"
      "batch_msgs env (WatchCreateRequest_WatchId req) bs ms" "list_all2 (scan_batch req) bs (filter (watch_selects req) evts)" by (elim exE conjE)
  note b = scan_batch_events [OF h(6)]
  from multi_value.recv_history [OF assms(4,3,12) h(5) b(3) assms(13) _ h(2,3)] b(2) obtain s' out where
    "shardRecvs env B s ((WatchCreateRequest_WatchId req, MOD_WatchMessageType_INIT # hb) # (if ms = [] then [] else ms @ [(0, MOD_WatchMessageType_EVENT_SYNC # d)])) =
      Inr (s', out)" "\<forall>i. mv_Iter B s' i = []" "\<forall>w. sent_to w out = batch_events w bs" by blast
  with h(1,4) b(1) show ?thesis by auto
qed

section \<open>A concrete run\<close>

text \<open>An encoding that can be read back: a message is a list of fields, a byte of a field is preceded by a one and a field ends with
  a zero.\<close>

definition join_fields :: "bytes list \<Rightarrow> bytes" where
  "join_fields fs = concat (map (\<lambda>f. concat (map (\<lambda>b. [1, b]) f) @ [0]) fs)"

fun split_fields :: "bytes \<Rightarrow> bytes \<Rightarrow> bytes list" where
  "split_fields acc [] = []"
| "split_fields acc (c # r) = (if c = 0 then acc # split_fields [] r else split_fields (acc @ take 1 r) (drop 1 r))"

lemma split_field: "split_fields acc (concat (map (\<lambda>b. [1, b]) f) @ 0 # r) = (acc @ f) # split_fields [] r"
  by (induction f arbitrary: acc) auto

lemma split_join [simp]: "split_fields [] (join_fields fs) = fs"
  by (induction fs) (simp_all add: join_fields_def split_field)

fun words_of :: "bytes \<Rightarrow> u64 list" where
  "words_of b = (if b = [] then [] else Uint64 (take 8 b) # words_of (drop 8 b))"

declare words_of.simps [simp del]

lemma words_of_be64 [simp]: "words_of (concat (map be64 ws)) = ws"
proof (induction ws)
  case (Cons w ws)
  have "be64 w \<noteq> []" by (metis length_be64 list.size(3) zero_neq_numeral)
  then show ?case using Cons by (simp add: words_of.simps [of "be64 w @ concat (map be64 ws)"])
qed (simp add: words_of.simps)

definition kv_fields :: "KeyValue option \<Rightarrow> bytes list" where
  "kv_fields kvo = (case kvo of None \<Rightarrow> replicate 7 []
     | Some kv \<Rightarrow> [[1], be64 (KeyValue_CreateRevision kv), be64 (KeyValue_ModRevision kv), be64 (KeyValue_Version kv),
         be64 (KeyValue_Lease kv), KeyValue_Key kv, KeyValue_Value kv])"

definition fields_kv :: "bytes list \<Rightarrow> KeyValue option" where
  "fields_kv fs = (if fs ! 0 = [] then None
     else Some \<lparr>KeyValue_CreateRevision = Uint64 (fs ! 1), KeyValue_ModRevision = Uint64 (fs ! 2), KeyValue_Version = Uint64 (fs ! 3),
       KeyValue_Lease = Uint64 (fs ! 4), KeyValue_Key = fs ! 5, KeyValue_Value = fs ! 6\<rparr>)"

lemma fields_kv_fields [simp]: "fields_kv (kv_fields kvo) = kvo" "length (kv_fields kvo) = 7"
  by (cases kvo; simp add: fields_kv_def kv_fields_def)+

definition event_fields :: "Event \<Rightarrow> bytes list" where
  "event_fields e = [Event_Type e] # kv_fields (Event_Kv e) @ kv_fields (Event_PrevKv e)"

definition fields_event :: "bytes list \<Rightarrow> Event" where
  "fields_event fs = \<lparr>Event_Type = fs ! 0 ! 0, Event_Kv = fields_kv (take 7 (drop 1 fs)), Event_PrevKv = fields_kv (take 7 (drop 8 fs))\<rparr>"

lemma fields_event_fields [simp]: "fields_event (event_fields e) = e" "length (event_fields e) = 15"
  by (simp_all add: fields_event_def event_fields_def)

definition header_fields :: "ResponseHeader \<Rightarrow> bytes list" where
  "header_fields h = [be64 (Header_Revision h), be64 (Header_ClusterId h), be64 (Header_MemberId h), be64 (Header_RaftTerm h)]"

definition fields_header :: "bytes list \<Rightarrow> ResponseHeader" where
  "fields_header fs = \<lparr>Header_Revision = Uint64 (fs ! 0), Header_ClusterId = Uint64 (fs ! 1), Header_MemberId = Uint64 (fs ! 2),
     Header_RaftTerm = Uint64 (fs ! 3)\<rparr>"

definition batch_fields :: "WatchEventBatch \<Rightarrow> bytes list" where
  "batch_fields b = [be64 (WatchEventBatch_Revision b), concat (map be64 (WatchEventBatch_WatchIds b)),
     concat (map be64 (WatchEventBatch_WatchIdsPrev b))] @ event_fields (WatchEventBatch_Event b)"

definition fields_batch :: "bytes list \<Rightarrow> WatchEventBatch" where
  "fields_batch fs = \<lparr>WatchEventBatch_Event = fields_event (drop 3 fs), WatchEventBatch_Revision = Uint64 (fs ! 0),
     WatchEventBatch_WatchIds = words_of (fs ! 1), WatchEventBatch_WatchIdsPrev = words_of (fs ! 2)\<rparr>"

definition sync_fields :: "WatchEventSync \<Rightarrow> bytes list" where
  "sync_fields y = [be64 (WatchEventSync_Revision y), concat (map be64 (WatchEventSync_IDs y))]"

definition fields_sync :: "bytes list \<Rightarrow> WatchEventSync" where
  "fields_sync fs = \<lparr>WatchEventSync_IDs = words_of (fs ! 1), WatchEventSync_Revision = Uint64 (fs ! 0)\<rparr>"

lemma fields_messages [simp]: "fields_header (header_fields h) = h" "fields_batch (batch_fields b) = b" "fields_sync (sync_fields y) = y"
  by (simp_all add: fields_header_def header_fields_def fields_batch_def batch_fields_def fields_sync_def sync_fields_def)

definition client_env :: grpc_env where
  "client_env = mod_env.extend (dlv_env\<lparr>
       marshal := (\<lambda>m. case m of MEvent e \<Rightarrow> Inr (join_fields (event_fields e)) | MHeader h \<Rightarrow> Inr (join_fields (header_fields h)) | _ \<Rightarrow> Inr []),
       marshal_stream := (\<lambda>m. case m of SBatch b \<Rightarrow> Inr (join_fields (batch_fields b)) | SSync y \<Rightarrow> Inr (join_fields (sync_fields y)))\<rparr>)
     \<lparr>unmarshal_Batch = (\<lambda>d. Some (fields_batch (split_fields [] d))), unmarshal_Sync = (\<lambda>d. Some (fields_sync (split_fields [] d))),
      unmarshal_Header = (\<lambda>d. Some (fields_header (split_fields [] d))), unmarshal_Event = (\<lambda>d. Some (fields_event (split_fields [] d))),
      marshal_Response = (\<lambda>_. Inr []), errWatcherDuplicateID = []\<rparr>"

lemma client_env_ok: "sm_env_ok client_env" "grpc_ok client_env (\<lambda>_. True)"
proof -
  have m: "\<exists>d. (case m of MEvent e \<Rightarrow> Inr (join_fields (event_fields e)) | MHeader h \<Rightarrow> Inr (join_fields (header_fields h)) | _ \<Rightarrow> Inr []) = (Inr d :: bytes result)" for m
    by (cases m) auto
  have sm: "\<exists>d. (case m of SBatch b \<Rightarrow> Inr (join_fields (batch_fields b)) | SSync y \<Rightarrow> Inr (join_fields (sync_fields y))) = (Inr d :: bytes result)" for m
    by (cases m) auto
  show "sm_env_ok client_env" using wit_env_ok m
    by (simp add: client_env_def dlv_env_def mod_env.defs sm_env.defs sm_env_ok_def env_ok_def snappy_ok_def pools_ok_def label_ok_def)
  show "grpc_ok client_env (\<lambda>_. True)" using m sm
    by (auto simp: grpc_ok_def client_env_def dlv_env_def mod_env.defs sm_env.defs)
qed

theorem watch_client_receives_witness:
  "\<exists>t put ms s out. dbKv_put client_env mem_lmdb mem_empty 2 0 0 1 [97, 98] (Some [1]) False False = Inr (t, put) \<and>
     rangeWatchRecv client_env mem_lmdb t one_host 0 [\<lparr>Notice_Val = 2, Notice_IDs = [be64 5]\<rparr>] = Inr (2, ms) \<and>
     shardRecvs client_env (mem_buffers 1) (\<lambda>_. []) ms = Inr (s, out) \<and> map event_item (sent_to 5 out) = [([97, 98], 2)]"
proof -
  let ?ns = "[\<lparr>Notice_Val = 2, Notice_IDs = [be64 5]\<rparr>]"
  have e: "env_ok client_env" "mem_view mem_empty DBI_event = []" using client_env_ok(1) by (simp_all add: sm_env_ok_def)
  from one_key_put [OF e(1) kv_rel_empty e(2)] obtain t put where
    t: "dbKv_put client_env mem_lmdb mem_empty 2 0 0 1 [97, 98] (Some [1]) False False = Inr (t, put)"
      "kv_rel client_env mem_view t one_key" "ev_rel mem_view t {(newkeyrev 2 0 False, 1, [97, 98])}" by blast
  have ids: "list_all (\<lambda>n. ids_ok client_env one_host 0 (Notice_IDs n) \<and> distinct (Notice_IDs n)) ?ns"
    by (simp add: ids_ok_def one_host_def client_env_def dlv_env_def mod_env.defs sm_env.defs)
  have ev: "?ns \<noteq> []" "sorted_wrt (<) (map Notice_Val ?ns)"
    "\<forall>n \<in> set ?ns. 0 < Notice_Val n \<and> (\<exists>x \<in> {(newkeyrev 2 0 False, 1 :: u64, [97, 98 :: byte])}. upper (fst x) = Notice_Val n)" by simp_all
  have b: "multi_value (mem_buffers 1) (\<lambda>_. True)" "\<forall>i. mv_Iter (mem_buffers 1) (\<lambda>_. []) i = []"
    using mem_buf.multi_value_axioms [of 0] by (simp_all add: mem_buffers_def)
  from watch_client_receives [OF mem.lmdb_axioms client_env_ok b(1) t(2,3) one_key_logged one_key_last ev(1) ids ev(2,3) b(2)] obtain evts ms s out where
    r: "dbKv_scan mem_lmdb t 0 = Inr evts" "rangeWatchRecv client_env mem_lmdb t one_host 0 ?ns = Inr (wp_Store one_host 0 (Notice_Val (last ?ns)), ms)"
      "shardRecvs client_env (mem_buffers 1) (\<lambda>_. []) ms = Inr (s, out)"
      "map event_item (sent_to 5 out) = concat (map (wanted client_env one_host 0 (first_ops evts) 5) ?ns)" by blast
  have "evts = [evt_of (newkeyrev 2 0 False, 1, [97, 98])]" using r(1) one_key_scans [OF t(3)] by simp
  then have "map event_item (sent_to 5 out) = [([97, 98], 2)]" using r(4)
    by (simp add: wanted_def first_ops_def wants_def cached_def one_host_def client_env_def dlv_env_def mod_env.defs sm_env.defs evt_item_def evt_of_def watch_selects_def)
  moreover have "wp_Store one_host 0 (Notice_Val (last ?ns)) = 2" by (simp add: one_host_def)
  ultimately show ?thesis using t(1) r(2,3) by auto
qed

definition prev_request :: WatchCreateRequest where
  "prev_request = \<lparr>WatchCreateRequest_Key = [97], WatchCreateRequest_RangeEnd = [98], WatchCreateRequest_StartRevision = 3,
     WatchCreateRequest_ProgressNotify = False, WatchCreateRequest_Filters = [], WatchCreateRequest_PrevKv = True,
     WatchCreateRequest_WatchId = 5, WatchCreateRequest_Fragment = False\<rparr>"

text \<open>A store at revision 3 with two versions of a key: the second put has a previous version.\<close>

definition two_versions :: history where
  "two_versions = add_version [97, 98] (spec_put 3 0 0 [97, 98] (Some [2]) False False (one_key [97, 98]), 0) one_key"

lemma two_versions_simps:
  "two_versions [97, 98] = [(spec_put 3 0 0 [97, 98] (Some [2]) False False (one_key [97, 98]), 0), (spec_put 2 0 0 [97, 98] (Some [1]) False False [], 0)]"
  "k \<noteq> [97, 98] \<Longrightarrow> two_versions k = []"
  by (simp_all add: two_versions_def one_key_def add_version_def)

lemma two_versions_revs:
  "kv_rev (spec_put 3 0 0 [97, 98] (Some [2]) False False hs) = newkeyrev 3 0 False"
  "kv_rev (spec_put 2 0 0 [97, 98] (Some [1]) False False []) = newkeyrev 2 0 False"
  by (rule spec_put_simps(1); simp add: rev_fits_def)+

lemma two_puts:
  "\<exists>t0 t1 out1 t out2. setRevision mem_lmdb mem_empty 3 = Inr t0 \<and>
     dbKv_put client_env mem_lmdb t0 2 0 0 1 [97, 98] (Some [1]) False False = Inr (t1, out1) \<and>
     dbKv_put client_env mem_lmdb t1 3 0 0 1 [97, 98] (Some [2]) False False = Inr (t, out2) \<and>
     kv_rel client_env mem_view t two_versions \<and> ev_rel mem_view t {(newkeyrev 2 0 False, 1, [97, 98]), (newkeyrev 3 0 False, 1, [97, 98])} \<and>
     getRevision mem_lmdb t = Inr 3"
proof -
  have e: "env_ok client_env" using client_env_ok(1) by (simp add: sm_env_ok_def)
  have mk: "metaKeyRevision \<noteq> []" "length metaKeyRevision \<le> 511" by (simp_all add: metaKeyRevision_def)
  from mem.putUint64_ok [of DBI_meta metaKeyRevision mem_empty 3] mk obtain t0 where t0: "setRevision mem_lmdb mem_empty 3 = Inr t0"
    by (auto simp: setRevision_def)
  then have v: "mem_view t0 d = []" if "d \<noteq> DBI_meta" for d using mem.putUint64_other [of mem_empty DBI_meta metaKeyRevision 3 t0 d] that
    by (simp add: setRevision_def)
  then have k0: "kv_rel client_env mem_view t0 (\<lambda>_. [])" "mem_view t0 DBI_event = []" by (simp_all add: kv_rel_def hist_ok_def)
  from one_key_put [OF e k0] obtain t1 out1 where
    t1: "dbKv_put client_env mem_lmdb t0 2 0 0 1 [97, 98] (Some [1]) False False = Inr (t1, out1)"
      "kv_rel client_env mem_view t1 one_key" "ev_rel mem_view t1 {(newkeyrev 2 0 False, 1, [97, 98])}" "mem_view t1 DBI_meta = mem_view t0 DBI_meta" by blast
  have ok: "one_key [97, 98] = [(spec_put 2 0 0 [97, 98] (Some [1]) False False [], 0)]" "k \<noteq> [97, 98] \<Longrightarrow> one_key k = []" for k
    by (simp_all add: one_key_def add_version_def)
  have less: "newkeyrev 2 0 False < newkeyrev 3 0 False" by (rule newkeyrev_less [THEN iffD2]) (simp_all add: rev_fits_def)
  have "vrev h < newkeyrev 3 0 False" if "h \<in> set (one_key k)" for k h
    using that less two_versions_revs(2) by (cases "k = [97, 98]") (auto simp: ok)
  then have p: "2 \<le> length [97, 98 :: byte]" "length [97, 98 :: byte] \<le> PCB_LIMIT_KEY_LENGTH" "rev_fits 3 0" "(3 :: u64) \<noteq> 0"
    "fresh (newkeyrev 3 0 False) one_key" "put_ok client_env 3 (one_key [97, 98])" "length (sl (Some [2 :: byte])) < 2 ^ 62"
    using two_versions_revs(2) upper_newkeyrev [of 2 0 False] by (simp_all add: PCB_LIMIT_KEY_LENGTH_def rev_fits_def fresh_def put_ok_def ok)
  from mem.put_spec [OF e t1(2) p, of False 0 1 False] obtain t out2 where
    t: "dbKv_put client_env mem_lmdb t1 3 0 0 1 [97, 98] (Some [2]) False False = Inr (t, out2)" "kv_rel client_env mem_view t two_versions"
      "set (mem_view t DBI_event) = insert (be64 (newkeyrev 3 0 False), event_bytes (newkeyrev 3 0 False) 1 [97, 98]) (set (mem_view t1 DBI_event))"
      "mem_view t DBI_meta = mem_view t1 DBI_meta" unfolding two_versions_def by fastforce
  have "ev_rel mem_view t {(newkeyrev 2 0 False, 1, [97, 98]), (newkeyrev 3 0 False, 1, [97, 98])}"
    using t(3) t1(3) unfolding ev_rel_def evt_entry_def by auto
  moreover have "counter mem_view t metaKeyRevision = Inr 3"
    using mem.putUint64_counter [of mem_empty metaKeyRevision 3 t0 metaKeyRevision] t0 mem.counter_other [OF t1(4)] mem.counter_other [OF t(4)] by (simp add: setRevision_def)
  then have "getRevision mem_lmdb t = Inr 3" using mem.getUint64_counter [OF mk(1)] by (simp add: getRevision_def)
  ultimately show ?thesis using t0 t1(1) t(1,2) by blast
qed

lemma two_versions_ok:
  "logged two_versions {(newkeyrev 2 0 False, 1, [97, 98]), (newkeyrev 3 0 False, 1, [97, 98])}"
  "\<forall>k. \<forall>h \<in> set (two_versions k). \<not> isdel (vrev h) \<longrightarrow> (\<forall>h' \<in> set (two_versions k). upper (vrev h') = upper (vrev h) \<longrightarrow> vrev h' \<le> vrev h)"
proof -
  show "logged two_versions {(newkeyrev 2 0 False, 1, [97, 98]), (newkeyrev 3 0 False, 1, [97, 98])}"
    by (simp add: logged_def two_versions_simps two_versions_revs)
  have u: "upper (newkeyrev 2 0 False) = 2" "upper (newkeyrev 3 0 False) = 3" by (rule upper_newkeyrev; simp add: rev_fits_def)+
  show "\<forall>k. \<forall>h \<in> set (two_versions k). \<not> isdel (vrev h) \<longrightarrow> (\<forall>h' \<in> set (two_versions k). upper (vrev h') = upper (vrev h) \<longrightarrow> vrev h' \<le> vrev h)"
  proof
    fix k show "\<forall>h \<in> set (two_versions k). \<not> isdel (vrev h) \<longrightarrow> (\<forall>h' \<in> set (two_versions k). upper (vrev h') = upper (vrev h) \<longrightarrow> vrev h' \<le> vrev h)"
      by (cases "k = [97, 98]") (simp_all add: two_versions_simps two_versions_revs u)
  qed
qed

text \<open>A watch from revision 3 that asks for the previous versions: the put of revision 3 has one, of revision 2, and the event that
  arrives has none.\<close>

theorem watch_history_loses_prev_witness:
  "\<exists>t0 t1 out1 t out2 item prev ms s out ev. setRevision mem_lmdb mem_empty 3 = Inr t0 \<and>
     dbKv_put client_env mem_lmdb t0 2 0 0 1 [97, 98] (Some [1]) False False = Inr (t1, out1) \<and>
     dbKv_put client_env mem_lmdb t1 3 0 0 1 [97, 98] (Some [2]) False False = Inr (t, out2) \<and>
     dbKv_getRev client_env mem_lmdb t [97, 98] 3 True = Inr (item, prev, None) \<and> upper (kv_rev prev) = 2 \<and>
     WatchCreateRequest_PrevKv prev_request \<and> mod_watch_scan client_env mem_lmdb t prev_request 3 True = Inr (3, ms, None) \<and>
     shardRecvs client_env (mem_buffers 1) (\<lambda>_. []) ms = Inr (s, out) \<and>
     sent_to 5 out = [ev] \<and> event_item ev = ([97, 98], 3) \<and> Event_PrevKv ev = None"
proof -
  from two_puts obtain t0 t1 out1 t out2 where
    t: "setRevision mem_lmdb mem_empty 3 = Inr t0" "dbKv_put client_env mem_lmdb t0 2 0 0 1 [97, 98] (Some [1]) False False = Inr (t1, out1)"
      "dbKv_put client_env mem_lmdb t1 3 0 0 1 [97, 98] (Some [2]) False False = Inr (t, out2)" "kv_rel client_env mem_view t two_versions"
      "ev_rel mem_view t {(newkeyrev 2 0 False, 1, [97, 98]), (newkeyrev 3 0 False, 1, [97, 98])}" "getRevision mem_lmdb t = Inr 3" by blast
  let ?x = "(newkeyrev 2 0 False, 1 :: u64, [97, 98 :: byte])" and ?y = "(newkeyrev 3 0 False, 1 :: u64, [97, 98 :: byte])"
  have e: "env_ok client_env" using client_env_ok(1) by (simp add: sm_env_ok_def)
  have u: "upper (newkeyrev 2 0 False) = 2" "upper (newkeyrev 3 0 False) = 3" "\<not> isdel (newkeyrev 2 0 False)"
    by (rule upper_newkeyrev; simp add: rev_fits_def)+ (simp add: isdel_newkeyrev rev_fits_def)
  have "spec_prev 3 (two_versions [97, 98]) = plain (spec_put 2 0 0 [97, 98] (Some [1]) False False [])"
    by (simp add: spec_prev_def visible_def newer_def ver_kv_def two_versions_simps two_versions_revs u)
  with mem.getRev_spec [OF e t(4), of "[97, 98]" 3 True] obtain item prev where
    g: "dbKv_getRev client_env mem_lmdb t [97, 98] 3 True = Inr (item, prev, None)" "plain prev = plain (spec_put 2 0 0 [97, 98] (Some [1]) False False [])" by auto
  have "kv_rev prev = newkeyrev 2 0 False" using arg_cong [OF g(2), of kv_rev] two_versions_revs(2) by (simp add: plain_def)
  then have pr: "upper (kv_rev prev) = 2" using u(1) by simp
  from mem.scan_spec [OF t(5), of 3] obtain evts where
    s: "dbKv_scan mem_lmdb t 3 = Inr evts" "set evts = evt_of ` {x \<in> {?x, ?y}. push_bit 12 3 \<le> fst x}" "distinct evts" by blast
  have "push_bit 12 3 \<le> newkeyrev 3 0 False" "\<not> push_bit 12 3 \<le> newkeyrev 2 0 False"
    using push_bit_le_upper [of 3 "newkeyrev 3 0 False"] push_bit_le_upper [of 3 "newkeyrev 2 0 False"] u(1,2) by simp_all
  then have "{x \<in> {?x, ?y}. push_bit 12 3 \<le> fst x} = {?y}" by auto
  then have evts: "evts = [evt_of ?y]" using s(2,3) by (cases evts; cases "tl evts") auto
  have b: "multi_value (mem_buffers 1) (\<lambda>_. True)" "\<forall>i. mv_Iter (mem_buffers 1) (\<lambda>_. []) i = []"
    using mem_buf.multi_value_axioms [of 0] by (simp_all add: mem_buffers_def)
  have w: "WatchCreateRequest_WatchId prev_request \<noteq> WATCH_ID_ERROR" "(0 :: u64) < 3" "unat (3 :: u64) < 2 ^ 52" by (simp_all add: prev_request_def WATCH_ID_ERROR_def)
  from watch_history_loses_prev [OF mem.lmdb_axioms client_env_ok b(1) t(4,5) two_versions_ok t(6) w(2,3,1) b(2)] obtain evts' ms s' out where
    r: "dbKv_scan mem_lmdb t 3 = Inr evts'" "mod_watch_scan client_env mem_lmdb t prev_request 3 True = Inr (3, ms, None)"
      "shardRecvs client_env (mem_buffers 1) (\<lambda>_. []) ms = Inr (s', out)"
      "list_all2 (\<lambda>ev e. Event_Type ev = etype e \<and> event_item ev = evt_item e \<and> Event_PrevKv ev = None)
        (sent_to (WatchCreateRequest_WatchId prev_request) out) (filter (watch_selects prev_request) evts')" by blast
  have "watch_selects prev_request (evt_of ?y)" by (simp add: watch_selects_def prev_request_def evt_of_def)
  then have "filter (watch_selects prev_request) evts' = [evt_of ?y]" using r(1) [unfolded s(1) evts] by auto
  with r(4) obtain ev where "sent_to 5 out = [ev]" "event_item ev = evt_item (evt_of ?y)" "Event_PrevKv ev = None"
    by (auto simp: prev_request_def list_all2_Cons2)
  moreover have "evt_item (evt_of ?y) = ([97, 98], 3)" using u(2) by (simp add: evt_item_def evt_of_def)
  moreover have "WatchCreateRequest_PrevKv prev_request" by (simp add: prev_request_def)
  ultimately show ?thesis using t(1-3) g(1) pr r(2,3)
    by (intro exI [of _ t0] exI [of _ t1] exI [of _ out1] exI [of _ t] exI [of _ out2] exI [of _ item] exI [of _ prev] exI [of _ ms] exI [of _ s'] exI [of _ out] exI [of _ ev]) simp
qed

end
