(* ===== verification/Module_Calls.thy ===== *)
theory Module_Calls
  imports Module_Correct
begin

text \<open>
  The calls of the gRPC module, \<open>src/module/service-grpc\<close>: the handlers of \<open>service_kv.go\<close>, \<open>service_lease.go\<close>,
  \<open>service_maintenance.go\<close>, \<open>service_cluster.go\<close> and the two handlers of \<open>service_watch.go\<close> that forward, the answers
  (\<open>asyncRecv\<close>, \<open>grpcError\<close>, \<open>autoSend\<close>) and the table of errors of \<open>error.go\<close>.

  What a handler asks of the host is a list of \<open>grpc_call\<close>. The messages a handler keeps between calls are global variables
  of the module; \<open>UnmarshalVT\<close> merges into them. The library decodes the wire format (parameter \<open>wire_fields\<close>: the numbered
  values up to the first that cannot be decoded); the generated code assigns them to the fields.
\<close>

section \<open>Calls of the host\<close>

datatype code =
    Code_Canceled | Code_Unknown | Code_InvalidArgument | Code_DeadlineExceeded | Code_NotFound | Code_PermissionDenied
  | Code_ResourceExhausted | Code_FailedPrecondition | Code_OutOfRange | Code_Unavailable | Code_DataLoss | Code_Unauthenticated

datatype grpc_call =
    ApplyAsync string bytes
  | ReadAsync string bytes bool
  | StreamOpen string
  | StreamSend string bytes
  | Send bytes
  | SendErr code bytes

text \<open>An error is a status or any other error with its text.\<close>

datatype grpc_error = StatusError code bytes | OtherError bytes

datatype wire = Varint u64 | Chunk bytes | OtherWire nat

datatype proto_error = WrongWireType nat wire | WireError bytes

record StatusResponse =
  StatusResponse_Header :: ResponseHeader
  StatusResponse_Version :: string
  StatusResponse_DbSize :: i64
  StatusResponse_DbSizeInUse :: i64
  StatusResponse_Leader :: u64
  StatusResponse_RaftIndex :: u64
  StatusResponse_RaftTerm :: u64
  StatusResponse_RaftAppliedIndex :: u64
  StatusResponse_IsLearner :: bool

record MemberListResponse =
  MemberListResponse_Header :: ResponseHeader
  MemberListResponse_IDs :: "u64 list"

record call_env =
  wire_fields :: "bytes \<Rightarrow> (nat \<times> wire) list \<times> bytes option"
  bytes_append :: "bytes \<Rightarrow> bytes \<Rightarrow> bytes"
  proto_text :: "proto_error \<Rightarrow> bytes"
  marshal_Status :: "StatusResponse \<Rightarrow> bytes option"
  marshal_MemberList :: "MemberListResponse \<Rightarrow> bytes + bytes"
  marshal_Alarm :: "ResponseHeader \<Rightarrow> bytes option"

definition bytes_of :: "string \<Rightarrow> bytes" where
  "bytes_of = map of_char"

section \<open>UnmarshalVT\<close>

text \<open>The fields of a range request by their numbers. The sort order and target (5 and 6) and unknown fields are kept by the code
  and read by nobody. End groups and illegal tags end the values as what cannot be decoded does; a number whose value cannot be
  decoded is left at zero by the code, which no handler reads.\<close>

definition merge_RangeRequest_field :: "'x call_env_scheme \<Rightarrow> RangeRequest \<Rightarrow> nat \<times> wire \<Rightarrow> proto_error + RangeRequest" where
  "merge_RangeRequest_field env r f =
     (case f of
        (n, Chunk b) \<Rightarrow>
          if n = 1 then Inr (r\<lparr>RangeRequest_Key := bytes_append env (RangeRequest_Key r) b\<rparr>)
          else if n = 2 then Inr (r\<lparr>RangeRequest_RangeEnd := bytes_append env (RangeRequest_RangeEnd r) b\<rparr>)
          else if n \<in> {3..13} then Inl (WrongWireType n (Chunk b))
          else Inr r
      | (n, Varint v) \<Rightarrow>
          if n \<in> {1, 2} then Inl (WrongWireType n (Varint v))
          else if n = 3 then Inr (r\<lparr>RangeRequest_Limit := v\<rparr>)
          else if n = 4 then Inr (r\<lparr>RangeRequest_Revision := v\<rparr>)
          else if n = 7 then Inr (r\<lparr>RangeRequest_Serializable := (v \<noteq> 0)\<rparr>)
          else if n = 8 then Inr (r\<lparr>RangeRequest_KeysOnly := (v \<noteq> 0)\<rparr>)
          else if n = 9 then Inr (r\<lparr>RangeRequest_CountOnly := (v \<noteq> 0)\<rparr>)
          else if n = 10 then Inr (r\<lparr>RangeRequest_MinModRevision := v\<rparr>)
          else if n = 11 then Inr (r\<lparr>RangeRequest_MaxModRevision := v\<rparr>)
          else if n = 12 then Inr (r\<lparr>RangeRequest_MinCreateRevision := v\<rparr>)
          else if n = 13 then Inr (r\<lparr>RangeRequest_MaxCreateRevision := v\<rparr>)
          else Inr r
      | (n, OtherWire w) \<Rightarrow> if n \<in> {1..13} then Inl (WrongWireType n (OtherWire w)) else Inr r)"

definition merge_Header_field :: "ResponseHeader \<Rightarrow> nat \<times> wire \<Rightarrow> proto_error + ResponseHeader" where
  "merge_Header_field h f =
     (case f of
        (n, Varint v) \<Rightarrow>
          if n = 1 then Inr (h\<lparr>Header_ClusterId := v\<rparr>)
          else if n = 2 then Inr (h\<lparr>Header_MemberId := v\<rparr>)
          else if n = 3 then Inr (h\<lparr>Header_Revision := v\<rparr>)
          else if n = 4 then Inr (h\<lparr>Header_RaftTerm := v\<rparr>)
          else Inr h
      | (n, w) \<Rightarrow> if n \<in> {1..4} then Inl (WrongWireType n w) else Inr h)"

text \<open>The loop over the fields: the message as far as it was read, and the error.\<close>

fun merge_fields :: "('r \<Rightarrow> nat \<times> wire \<Rightarrow> proto_error + 'r) \<Rightarrow> 'r \<Rightarrow> (nat \<times> wire) list \<Rightarrow> bytes option \<Rightarrow> 'r \<times> proto_error option" where
  "merge_fields mf r [] err = (r, map_option WireError err)"
| "merge_fields mf r (f # fs) err =
     (case mf r f of Inl e \<Rightarrow> (r, Some e) | Inr r1 \<Rightarrow> merge_fields mf r1 fs err)"

definition RangeRequest_UnmarshalVT :: "'x call_env_scheme \<Rightarrow> RangeRequest \<Rightarrow> bytes \<Rightarrow> RangeRequest \<times> proto_error option" where
  "RangeRequest_UnmarshalVT env r b = (case wire_fields env b of (fs, err) \<Rightarrow> merge_fields (merge_RangeRequest_field env) r fs err)"

definition ResponseHeader_UnmarshalVT :: "'x call_env_scheme \<Rightarrow> ResponseHeader \<Rightarrow> bytes \<Rightarrow> ResponseHeader \<times> proto_error option" where
  "ResponseHeader_UnmarshalVT env h b = (case wire_fields env b of (fs, err) \<Rightarrow> merge_fields merge_Header_field h fs err)"

section \<open>Requests\<close>

text \<open>The command and query numbers of \<open>types.go\<close> of this module.\<close>

definition GRPC_CMD_KV_COMPACT :: byte where "GRPC_CMD_KV_COMPACT = 2"
definition GRPC_CMD_KV_DELETE_RANGE :: byte where "GRPC_CMD_KV_DELETE_RANGE = 3"
definition GRPC_CMD_KV_PUT :: byte where "GRPC_CMD_KV_PUT = 4"
definition GRPC_CMD_KV_TXN :: byte where "GRPC_CMD_KV_TXN = 5"
definition GRPC_CMD_LEASE_GRANT :: byte where "GRPC_CMD_LEASE_GRANT = 6"
definition GRPC_CMD_LEASE_KEEP_ALIVE :: byte where "GRPC_CMD_LEASE_KEEP_ALIVE = 7"
definition GRPC_CMD_LEASE_REVOKE :: byte where "GRPC_CMD_LEASE_REVOKE = 9"
definition GRPC_QUERY_HEADER :: byte where "GRPC_QUERY_HEADER = 0"
definition GRPC_QUERY_KV_RANGE :: byte where "GRPC_QUERY_KV_RANGE = 1"
definition GRPC_QUERY_LEASE_LEASES :: byte where "GRPC_QUERY_LEASE_LEASES = 2"
definition GRPC_QUERY_LEASE_TIME_TO_LIVE :: byte where "GRPC_QUERY_LEASE_TIME_TO_LIVE = 3"

lemmas GRPC_CMD_defs = GRPC_CMD_KV_COMPACT_def GRPC_CMD_KV_DELETE_RANGE_def GRPC_CMD_KV_PUT_def GRPC_CMD_KV_TXN_def GRPC_CMD_LEASE_GRANT_def
  GRPC_CMD_LEASE_KEEP_ALIVE_def GRPC_CMD_LEASE_REVOKE_def

text \<open>\<open>rangeRequest\<close> is a global variable and is not reset.\<close>

definition kvRange :: "'x call_env_scheme \<Rightarrow> RangeRequest \<Rightarrow> bytes \<Rightarrow> RangeRequest \<times> grpc_call list" where
  "kvRange env r b =
     (case RangeRequest_UnmarshalVT env r b of
        (r1, Some e) \<Rightarrow> (r1, [SendErr Code_InvalidArgument (proto_text env e)])
      | (r1, None) \<Rightarrow> (r1, [ReadAsync ''kvRange'' (b @ [GRPC_QUERY_KV_RANGE]) (RangeRequest_Serializable r1)]))"

definition kvPut :: "bytes \<Rightarrow> grpc_call list" where
  "kvPut b = [ApplyAsync ''kvPut'' (b @ [GRPC_CMD_KV_PUT])]"
definition kvDeleteRange :: "bytes \<Rightarrow> grpc_call list" where
  "kvDeleteRange b = [ApplyAsync ''kvDeleteRange'' (b @ [GRPC_CMD_KV_DELETE_RANGE])]"
definition kvTxn :: "bytes \<Rightarrow> grpc_call list" where
  "kvTxn b = [ApplyAsync ''kvTxn'' (b @ [GRPC_CMD_KV_TXN])]"
definition kvCompact :: "bytes \<Rightarrow> grpc_call list" where
  "kvCompact b = [ApplyAsync ''kvCompact'' (b @ [GRPC_CMD_KV_COMPACT])]"

definition leaseGrant :: "bytes \<Rightarrow> grpc_call list" where
  "leaseGrant b = [ApplyAsync ''leaseGrant'' (b @ [GRPC_CMD_LEASE_GRANT])]"
definition leaseRevoke :: "bytes \<Rightarrow> grpc_call list" where
  "leaseRevoke b = [ApplyAsync ''leaseRevoke'' (b @ [GRPC_CMD_LEASE_REVOKE])]"
definition leaseKeepaliveRecv :: "bytes \<Rightarrow> grpc_call list" where
  "leaseKeepaliveRecv b = [ApplyAsync ''leaseKeepaliveRecv'' (b @ [GRPC_CMD_LEASE_KEEP_ALIVE])]"
definition leaseLeases :: "bytes \<Rightarrow> grpc_call list" where
  "leaseLeases b = [ReadAsync ''leaseLeases'' (b @ [GRPC_QUERY_LEASE_LEASES]) False]"
definition leaseTimeToLive :: "bytes \<Rightarrow> grpc_call list" where
  "leaseTimeToLive b = [ReadAsync ''leaseTimeToLive'' (b @ [GRPC_QUERY_LEASE_TIME_TO_LIVE]) False]"

definition maintenanceStatus :: "bytes \<Rightarrow> grpc_call list" where
  "maintenanceStatus b = [ReadAsync ''maintenanceStatus'' (b @ [GRPC_QUERY_HEADER]) False]"
definition maintenanceAlarm :: "'x call_env_scheme \<Rightarrow> grpc_call list" where
  "maintenanceAlarm env = (case marshal_Alarm env \<lparr>Header_Revision = 0, Header_ClusterId = 0, Header_MemberId = 0, Header_RaftTerm = 0\<rparr> of
     None \<Rightarrow> [] | Some out \<Rightarrow> [Send out])"

definition watchOpen :: "grpc_call list" where "watchOpen = [StreamOpen ''watch'']"
definition watchRecv :: "bytes \<Rightarrow> grpc_call list" where "watchRecv data = [StreamSend ''watch'' data]"

section \<open>Answers\<close>

text \<open>\<open>errStringToError\<close>: the statuses by their messages.\<close>

definition errStringToError :: "(string \<times> code) list" where
  "errStringToError = [
   (''etcdserver: key too long'', Code_InvalidArgument),
   (''etcdserver: key is not provided'', Code_InvalidArgument),
   (''etcdserver: key not found'', Code_InvalidArgument),
   (''etcdserver: value is provided'', Code_InvalidArgument),
   (''etcdserver: lease is provided'', Code_InvalidArgument),
   (''etcdserver: too many operations in txn request'', Code_InvalidArgument),
   (''etcdserver: duplicate key given in txn request'', Code_InvalidArgument),
   (''etcdserver: mvcc: required revision has been compacted'', Code_OutOfRange),
   (''etcdserver: mvcc: required revision is a future revision'', Code_OutOfRange),
   (''etcdserver: mvcc: database space exceeded'', Code_ResourceExhausted),
   (''etcdserver: requested lease not found'', Code_NotFound),
   (''etcdserver: lease already exists'', Code_FailedPrecondition),
   (''etcdserver: too large lease TTL'', Code_OutOfRange),
   (''etcdserver: member ID already exist'', Code_FailedPrecondition),
   (''etcdserver: Peer URLs already exists'', Code_FailedPrecondition),
   (''etcdserver: re-configuration failed due to not enough started members'', Code_FailedPrecondition),
   (''etcdserver: given member URLs are invalid'', Code_InvalidArgument),
   (''etcdserver: member not found'', Code_NotFound),
   (''etcdserver: can only promote a learner member'', Code_FailedPrecondition),
   (''etcdserver: can only promote a learner member which is in sync with leader'', Code_FailedPrecondition),
   (''etcdserver: too many learner members in cluster'', Code_FailedPrecondition),
   (''etcdserver: cluster ID mismatch'', Code_FailedPrecondition),
   (''etcdserver: request is too large'', Code_InvalidArgument),
   (''etcdserver: too many requests'', Code_ResourceExhausted),
   (''etcdserver: root user does not exist'', Code_FailedPrecondition),
   (''etcdserver: root user does not have root role'', Code_FailedPrecondition),
   (''etcdserver: user name already exists'', Code_FailedPrecondition),
   (''etcdserver: user name is empty'', Code_InvalidArgument),
   (''etcdserver: user name not found'', Code_FailedPrecondition),
   (''etcdserver: role name already exists'', Code_FailedPrecondition),
   (''etcdserver: role name not found'', Code_FailedPrecondition),
   (''etcdserver: role name is empty'', Code_InvalidArgument),
   (''etcdserver: authentication failed, invalid user ID or password'', Code_InvalidArgument),
   (''etcdserver: permission denied'', Code_PermissionDenied),
   (''etcdserver: role is not granted to the user'', Code_FailedPrecondition),
   (''etcdserver: permission is not granted to the role'', Code_FailedPrecondition),
   (''etcdserver: authentication is not enabled'', Code_FailedPrecondition),
   (''etcdserver: invalid auth token'', Code_Unauthenticated),
   (''etcdserver: invalid auth management'', Code_InvalidArgument),
   (''etcdserver: revision of auth store is old'', Code_InvalidArgument),
   (''etcdserver: no leader'', Code_Unavailable),
   (''etcdserver: not leader'', Code_FailedPrecondition),
   (''etcdserver: leader changed'', Code_Unavailable),
   (''etcdserver: not capable'', Code_Unavailable),
   (''etcdserver: server stopped'', Code_Unavailable),
   (''etcdserver: request timed out'', Code_Unavailable),
   (''etcdserver: request timed out, possibly due to previous leader failure'', Code_Unavailable),
   (''etcdserver: request timed out, possibly due to connection lost'', Code_Unavailable),
   (''etcdserver: unhealthy cluster'', Code_Unavailable),
   (''etcdserver: corrupt cluster'', Code_DataLoss),
   (''etcdserver: rpc not supported for learner'', Code_Unavailable),
   (''etcdserver: bad leader transferee'', Code_FailedPrecondition),
   (''etcdserver: cluster version not found during downgrade'', Code_Unavailable),
   (''etcdserver: wrong downgrade target version format'', Code_InvalidArgument),
   (''etcdserver: invalid downgrade target version'', Code_InvalidArgument),
   (''etcdserver: cluster has a downgrade job in progress'', Code_FailedPrecondition),
   (''etcdserver: no inflight downgrade job'', Code_FailedPrecondition)]"

definition grpcError :: "u64 \<Rightarrow> bytes \<Rightarrow> grpc_error option \<Rightarrow> bytes \<times> grpc_error option" where
  "grpcError val out err =
     (out,
      if err = None \<and> val \<noteq> 1 then
        (case find (\<lambda>(m, c). bytes_of m = out) errStringToError of
           Some (m, c) \<Rightarrow> Some (StatusError c out)
         | None \<Rightarrow> Some (StatusError Code_Unknown out))
      else err)"

definition autoSend :: "bytes \<times> grpc_error option \<Rightarrow> grpc_call list result" where
  "autoSend r =
     (case r of
        (out, None) \<Rightarrow> Inr [Send out]
      | (out, Some (StatusError c m)) \<Rightarrow> Inr [SendErr c m]
      | (out, Some (OtherError m)) \<Rightarrow> Inl GoPanic)"

text \<open>The answer to a status request is built in the global variable \<open>statusResp\<close>. A failing read sends nothing.\<close>

definition statusRecv :: "'x call_env_scheme \<Rightarrow> StatusResponse \<Rightarrow> bytes \<Rightarrow> u64 \<Rightarrow> grpc_error option \<Rightarrow> StatusResponse \<times> grpc_call list" where
  "statusRecv env st data val err =
     (case grpcError val data err of
        (out, Some e) \<Rightarrow> (st, [])
      | (out, None) \<Rightarrow>
          (case ResponseHeader_UnmarshalVT env (StatusResponse_Header st) out of
             (h, Some e) \<Rightarrow> (st\<lparr>StatusResponse_Header := h\<rparr>, [SendErr Code_Unknown (proto_text env e)])
           | (h, None) \<Rightarrow>
               let st1 = st\<lparr>StatusResponse_Header := h, StatusResponse_Leader := Header_MemberId h, StatusResponse_RaftIndex := Header_Revision h,
                     StatusResponse_RaftTerm := 1, StatusResponse_RaftAppliedIndex := Header_Revision h\<rparr> in
               (st1, case marshal_Status env st1 of None \<Rightarrow> [] | Some b \<Rightarrow> [Send b])))"

definition asyncRecv :: "'x call_env_scheme \<Rightarrow> StatusResponse \<Rightarrow> string \<Rightarrow> bytes \<Rightarrow> u64 \<Rightarrow> grpc_error option \<Rightarrow> (StatusResponse \<times> grpc_call list) result" where
  "asyncRecv env st name data val err =
     (if name = ''maintenanceStatus'' then Inr (statusRecv env st data val err)
      else bindE (autoSend (grpcError val data err)) (\<lambda>out. Inr (st, out)))"

text \<open>The member list is read at once: \<open>rd\<close> is what the read returns. A failure is returned to the host.\<close>

definition clusterMemberList :: "'x call_env_scheme \<Rightarrow> (bytes \<Rightarrow> u64 \<times> bytes \<times> grpc_error option) \<Rightarrow> MemberListResponse \<Rightarrow> bytes
    \<Rightarrow> MemberListResponse \<times> grpc_call list \<times> grpc_error option" where
  "clusterMemberList env rd ml b =
     (case rd (b @ [GRPC_QUERY_HEADER]) of (val, data, err) \<Rightarrow>
      case grpcError val data err of
        (out, Some e) \<Rightarrow> (ml, [], Some e)
      | (out, None) \<Rightarrow>
          (case ResponseHeader_UnmarshalVT env (MemberListResponse_Header ml) out of
             (h, Some e) \<Rightarrow> (ml\<lparr>MemberListResponse_Header := h\<rparr>, [], Some (StatusError Code_Unknown (proto_text env e)))
           | (h, None) \<Rightarrow>
               let ml1 = ml\<lparr>MemberListResponse_Header := h, MemberListResponse_IDs := [Header_MemberId h]\<rparr> in
               (case marshal_MemberList env ml1 of
                  Inl e \<Rightarrow> (ml1, [], Some (OtherError e))
                | Inr res \<Rightarrow> (ml1, [Send res], None))))"

definition httpHandler :: "string \<Rightarrow> nat \<times> string" where
  "httpHandler path =
     (if path = ''/metrics'' then (0, ''pantopic_power_level 9001'')
      else if path = ''/health'' then (0, ''{\"health\":\"true\",\"reason\":\"\"}'')
      else if path = ''/version'' then (0, ''{\"etcdserver\":\"3.5.25\",\"etcdcluster\":\"3.5.0\"}'')
      else (405, []))"

section \<open>Lemmas\<close>

lemma merge_fields_keep:
  assumes "\<And>r f r1. f \<in> set fs \<Longrightarrow> mf r f = Inr r1 \<Longrightarrow> g r1 = g r"
  shows "g (fst (merge_fields mf r fs err)) = g r"
  using assms
proof (induction fs arbitrary: r)
  case (Cons f fs)
  show ?case
  proof (cases "mf r f")
    case (Inr r1)
    have "g (fst (merge_fields mf r1 fs err)) = g r1" by (rule Cons.IH) (use Cons.prems in auto)
    then show ?thesis using Inr Cons.prems [of f r r1] by simp
  qed simp
qed simp

text \<open>A body without field 7 keeps the flag that was there.\<close>

lemma serializable_kept:
  assumes "7 \<notin> fst ` set (fst (wire_fields env b))"
  shows "RangeRequest_Serializable (fst (RangeRequest_UnmarshalVT env r b)) = RangeRequest_Serializable r"
proof -
  obtain fs err where w: "wire_fields env b = (fs, err)" by (rule prod.exhaust)
  have "RangeRequest_Serializable r1 = RangeRequest_Serializable r" if "f \<in> set fs" "merge_RangeRequest_field env r f = Inr r1" for r f r1
  proof -
    have "fst f \<noteq> 7" using that(1) assms w by auto
    then show ?thesis using that(2) by (cases f) (auto simp: merge_RangeRequest_field_def split: wire.splits if_splits)
  qed
  then show ?thesis unfolding RangeRequest_UnmarshalVT_def w using merge_fields_keep [of fs "merge_RangeRequest_field env" RangeRequest_Serializable] by simp
qed

text \<open>Range requests one after the other.\<close>

fun kvRanges :: "'x call_env_scheme \<Rightarrow> RangeRequest \<Rightarrow> bytes list \<Rightarrow> grpc_call list" where
  "kvRanges env r [] = []"
| "kvRanges env r (b # bs) = (case kvRange env r b of (r1, out) \<Rightarrow> out @ kvRanges env r1 bs)"

definition range_zero :: RangeRequest where
  "range_zero = \<lparr>RangeRequest_Key = [], RangeRequest_RangeEnd = [], RangeRequest_Limit = 0, RangeRequest_Revision = 0, RangeRequest_Serializable = False,
     RangeRequest_KeysOnly = False, RangeRequest_CountOnly = False, RangeRequest_MinModRevision = 0, RangeRequest_MaxModRevision = 0,
     RangeRequest_MinCreateRevision = 0, RangeRequest_MaxCreateRevision = 0\<rparr>"

lemma kvRanges_stale:
  assumes "RangeRequest_Serializable r"
    and "\<forall>b \<in> set bs. 7 \<notin> fst ` set (fst (wire_fields env b)) \<and> (\<forall>q. snd (RangeRequest_UnmarshalVT env q b) = None)"
  shows "kvRanges env r bs = map (\<lambda>b. ReadAsync ''kvRange'' (b @ [GRPC_QUERY_KV_RANGE]) True) bs"
  using assms
proof (induction bs arbitrary: r)
  case (Cons b bs)
  obtain r1 e where u: "RangeRequest_UnmarshalVT env r b = (r1, e)" by (rule prod.exhaust)
  have "RangeRequest_Serializable r1" "e = None" using serializable_kept [of env b r] Cons.prems u by (auto simp del: split_paired_All) (metis snd_conv)
  then show ?case using Cons u by (simp add: kvRange_def)
qed simp

text \<open>The numbers of the two modules agree.\<close>

lemma calls_dispatch:
  "mod_command env L index (b @ [GRPC_CMD_KV_PUT]) x = mod_Put env L (b @ [GRPC_CMD_KV_PUT]) x"
  "mod_command env L index (b @ [GRPC_CMD_KV_DELETE_RANGE]) x = mod_DeleteRange env L (b @ [GRPC_CMD_KV_DELETE_RANGE]) x"
  "mod_command env L index (b @ [GRPC_CMD_KV_TXN]) x = mod_Txn env L (b @ [GRPC_CMD_KV_TXN]) x"
  "mod_command env L index (b @ [GRPC_CMD_KV_COMPACT]) x = mod_Compact env L (b @ [GRPC_CMD_KV_COMPACT]) x"
  "mod_command env L index (b @ [GRPC_CMD_LEASE_GRANT]) x = mod_LeaseGrant env L (b @ [GRPC_CMD_LEASE_GRANT]) x"
  "mod_command env L index (b @ [GRPC_CMD_LEASE_REVOKE]) x = mod_LeaseRevoke env L (b @ [GRPC_CMD_LEASE_REVOKE]) x"
  "mod_command env L index (b @ [GRPC_CMD_LEASE_KEEP_ALIVE]) x = mod_LeaseKeepAlive env L (b @ [GRPC_CMD_LEASE_KEEP_ALIVE]) x"
  by (simp_all add: mod_command_def MOD_CMD_defs GRPC_CMD_defs)

lemma of_char_inj: "(of_char c :: byte) = of_char d \<longleftrightarrow> c = d"
proof
  assume "(of_char c :: byte) = of_char d"
  then have "(of_nat (of_char c) :: byte) = of_nat (of_char d)" by (simp only: of_nat_of_char)
  then have "unat (of_nat (of_char c) :: byte) = unat (of_nat (of_char d) :: byte)" by simp
  then have "(of_char c :: nat) mod 256 = of_char d mod 256" by (simp add: unsigned_of_nat take_bit_eq_mod)
  then show "c = d" by simp
qed simp

lemma bytes_of_inj: "inj bytes_of"
  unfolding bytes_of_def by (rule inj_mapI) (simp add: inj_def of_char_inj)

lemma errStrings_distinct: "distinct (map fst errStringToError)"
  by (simp add: errStringToError_def)

text \<open>The code of an answer: that of the table for its messages, Unknown for any other text.\<close>

lemma asyncRecv_answer:
  assumes "name \<noteq> ''maintenanceStatus''"
  shows "\<exists>code. asyncRecv env st name out val None = Inr (st, [if val = 1 then Send out else SendErr code out]) \<and>
    (if \<exists>m. bytes_of m = out \<and> map_of errStringToError m \<noteq> None then \<exists>m. bytes_of m = out \<and> map_of errStringToError m = Some code
     else code = Code_Unknown)"
proof (cases "find (\<lambda>(m, c). bytes_of m = out) errStringToError")
  case None
  then have "bytes_of m \<noteq> out" if "map_of errStringToError m \<noteq> None" for m
    using that by (auto simp: find_None_iff dest!: map_of_SomeD)
  then show ?thesis using assms None by (intro exI [of _ Code_Unknown]) (auto simp: asyncRecv_def grpcError_def autoSend_def)
next
  case (Some mc)
  obtain m c where mc: "mc = (m, c)" by (rule prod.exhaust)
  have "mc \<in> set errStringToError" "bytes_of m = out" using Some mc by (auto simp: find_Some_iff) (metis nth_mem)
  then have "map_of errStringToError m = Some c" "bytes_of m = out" unfolding mc using map_of_eq_Some_iff [OF errStrings_distinct] by simp_all
  then show ?thesis using assms Some by (intro exI [of _ c]) (auto simp: asyncRecv_def grpcError_def autoSend_def mc)
qed

section \<open>Properties\<close>

text \<open>C36: one serializable read makes all later reads stale. The request is decoded into a global variable that is not reset, and a
  body carries the flag only when it is set: after a range request with the flag, every range request without it is sent to the
  shard as a stale read, though decoded into an empty request it would not be one.\<close>

theorem range_serializable_sticks:
  assumes "RangeRequest_UnmarshalVT env r b0 = (r0, None)" "RangeRequest_Serializable r0"
    and "\<forall>b \<in> set bs. 7 \<notin> fst ` set (fst (wire_fields env b)) \<and> (\<forall>q. snd (RangeRequest_UnmarshalVT env q b) = None)"
  shows "kvRanges env r (b0 # bs) = map (\<lambda>b. ReadAsync ''kvRange'' (b @ [GRPC_QUERY_KV_RANGE]) True) (b0 # bs) \<and>
    (\<forall>b \<in> set bs. kvRange env range_zero b =
      (fst (RangeRequest_UnmarshalVT env range_zero b), [ReadAsync ''kvRange'' (b @ [GRPC_QUERY_KV_RANGE]) False]))"
proof -
  have "kvRange env range_zero b = (fst (RangeRequest_UnmarshalVT env range_zero b), [ReadAsync ''kvRange'' (b @ [GRPC_QUERY_KV_RANGE]) False])"
    if b: "b \<in> set bs" for b
  proof -
    obtain r1 e where u: "RangeRequest_UnmarshalVT env range_zero b = (r1, e)" by (rule prod.exhaust)
    have "snd (RangeRequest_UnmarshalVT env range_zero b) = None" using assms(3) b by blast
    moreover have "\<not> RangeRequest_Serializable (fst (RangeRequest_UnmarshalVT env range_zero b))"
      using serializable_kept [of env b range_zero] assms(3) b by (simp add: range_zero_def)
    ultimately show ?thesis using u by (simp add: kvRange_def)
  qed
  then show ?thesis using kvRanges_stale [OF assms(2,3)] assms(1,2) by (simp add: kvRange_def)
qed

text \<open>What a handler gives the shard is the body with the number of its call. The module dispatches it to the command of that name, and the
  answer to what the module returns is one response: the data for the value 1, and otherwise an error, whose code is that of the
  table of errors when the data is one of its messages and Unknown when not, as for the marshalled responses to a missing lease or
  one that exists.\<close>

lemma calls_answered:
  assumes "(h, run) \<in> {(kvPut, mod_Put env L), (kvDeleteRange, mod_DeleteRange env L), (kvTxn, mod_Txn env L), (kvCompact, mod_Compact env L),
    (leaseGrant, mod_LeaseGrant env L), (leaseRevoke, mod_LeaseRevoke env L), (leaseKeepaliveRecv, mod_LeaseKeepAlive env L)}"
  shows "\<exists>name c. h b = [ApplyAsync name (b @ [c])] \<and> mod_command env L index (b @ [c]) x = run (b @ [c]) x \<and>
    (\<forall>x1 val out. mod_command env L index (b @ [c]) x = Inr (x1, val, out) \<longrightarrow>
      (\<exists>code. asyncRecv cenv st name out val None = Inr (st, [if val = 1 then Send out else SendErr code out]) \<and>
        (if \<exists>m. bytes_of m = out \<and> map_of errStringToError m \<noteq> None then \<exists>m. bytes_of m = out \<and> map_of errStringToError m = Some code
         else code = Code_Unknown)))"
proof -
  have "\<exists>name c. h b = [ApplyAsync name (b @ [c])] \<and> mod_command env L index (b @ [c]) x = run (b @ [c]) x \<and> name \<noteq> ''maintenanceStatus''"
    using assms
    by (auto simp: kvPut_def kvDeleteRange_def kvTxn_def kvCompact_def leaseGrant_def leaseRevoke_def leaseKeepaliveRecv_def calls_dispatch)
  then obtain name c where n: "h b = [ApplyAsync name (b @ [c])]" "mod_command env L index (b @ [c]) x = run (b @ [c]) x" "name \<noteq> ''maintenanceStatus''"
    by (elim exE conjE)
  show ?thesis using n(1,2) asyncRecv_answer [OF n(3), of cenv st] by (intro exI [of _ name] exI [of _ c]) blast
qed

section \<open>Concrete runs\<close>

text \<open>Two bodies: one with the flag and one with a key.\<close>

definition call_env1 :: call_env where
  "call_env1 = \<lparr>wire_fields = (\<lambda>b. (if b = [56, 1] then [(7, Varint 1)] else [(1, Chunk (drop 2 b))], None)), bytes_append = (\<lambda>_ b. b), proto_text = (\<lambda>_. []),
     marshal_Status = (\<lambda>_. None), marshal_MemberList = (\<lambda>_. Inr []), marshal_Alarm = (\<lambda>_. None)\<rparr>"

theorem range_serializable_sticks_witness:
  "kvRanges call_env1 range_zero [[56, 1], [10, 1, 97]] =
     [ReadAsync ''kvRange'' [56, 1, GRPC_QUERY_KV_RANGE] True, ReadAsync ''kvRange'' [10, 1, 97, GRPC_QUERY_KV_RANGE] True]"
proof -
  have a: "RangeRequest_UnmarshalVT call_env1 range_zero [56, 1] = (range_zero\<lparr>RangeRequest_Serializable := True\<rparr>, None)"
    "RangeRequest_Serializable (range_zero\<lparr>RangeRequest_Serializable := True\<rparr>)"
    by (simp_all add: RangeRequest_UnmarshalVT_def call_env1_def merge_RangeRequest_field_def)
  have b: "\<forall>b \<in> set [[10, 1, 97]]. 7 \<notin> fst ` set (fst (wire_fields call_env1 b)) \<and> (\<forall>q. snd (RangeRequest_UnmarshalVT call_env1 q b) = None)"
    by (simp add: RangeRequest_UnmarshalVT_def call_env1_def merge_RangeRequest_field_def)
  show ?thesis using range_serializable_sticks [OF a b] by simp
qed

end
