(* ===== verification/Spec2Isabelle.thy ===== *)
theory Spec2Isabelle
  imports Watch_Service Controller Watch_Exact Module_Grpc Module_Calls
begin

text \<open>
  Turbokube: a verification development.

  Turbokube (\<open>src/\<close>) is an etcd-compatible key-value server. Its state is a multi-version store in LMDB, replicated by Raft: the
  entries of the log are applied by a state machine (\<open>state_machine.go\<close>), which also answers queries and feeds watches. gRPC services
  (\<open>service_kv.go\<close>, \<open>service_lease.go\<close>, \<open>service_watch.go\<close>) turn requests into entries, queries and streams; a controller
  (\<open>controller.go\<close>) proposes ticks, which expire leases, and announces terms. The same server exists a second time as two
  WebAssembly modules (\<open>module/storage-kv\<close>, the state machine, and \<open>module/service-grpc\<close>, the services), whose host keeps the
  log, the watch intervals and the buffers.

  \<^bold>\<open>Parts and theories.\<close>

  \<^item> \<open>Prelude\<close>, \<open>Go_Binary\<close>: machine types, errors as values (\<open>result\<close>, with \<open>GoPanic\<close> and \<open>NoReturn\<close> for a panic and a loop that does
    not end), and what the code uses of the Go library: varints, big-endian numbers, CRC-32.
  \<^item> \<open>Lmdb\<close>: the store below everything is third-party code, a record of operations; the locale \<open>lmdb\<close> states its documented behaviour
    and is interpreted on a store in memory (\<open>mem\<close>), on which the witnesses run.
  \<^item> \<open>Types\<close> (\<open>types.go\<close>), \<open>Messages\<close> (the protocol buffer messages), \<open>Db\<close> (\<open>crc.go\<close>, \<open>db.go\<close>), \<open>Db_Meta\<close> (\<open>db_meta.go\<close>, \<open>db_stats.go\<close>),
    \<open>Db_Lease\<close> (\<open>db_lease.go\<close>, \<open>db_lease_exp.go\<close>, \<open>db_lease_key.go\<close>): constants, checksums, counters, leases.
  \<^item> \<open>Lcs\<close> (\<open>internal/patch/lcs\<close>), \<open>Patch\<close> (\<open>internal/patch\<close>), \<open>Kv\<close> (\<open>kv.go\<close>): the diff of two values, patches, and the records and packed
    revisions of the store. \<open>Lcs_Correct\<close>, \<open>Lcs_Backward\<close>, \<open>Lcs_Twosided\<close>, \<open>Lcs_Diff\<close>: the label tables of the two-sided search are the
    furthest points of paths; the search returns, and what it returns is an edit script, so \<open>Apply\<close> inverts \<open>Generate\<close>.
  \<^item> \<open>Db_Kv\<close> (\<open>db_kv.go\<close>): the multi-version store. \<open>Mvcc\<close> and \<open>Mvcc_*\<close>: its abstract state is a list of versions a key (\<open>kv_rel\<close>) and a set of
    events (\<open>ev_rel\<close>); each operation refines its specification on these. \<open>Mvcc_Reach\<close>: the stores that can arise, by rule induction; the
    locale \<open>versioned_store\<close> is the contract of a store whose past does not change, and \<open>kv_db\<close> gives it.
  \<^item> \<open>State_Machine\<close>, \<open>Sm_Query\<close> (\<open>state_machine.go\<close>): \<open>Open\<close>, \<open>Update\<close> with a definition for each command, \<open>Query\<close>, the parts of a watch.
    \<open>Lease_Store\<close>, \<open>Sm_Inv\<close>, \<open>Sm_Lease\<close>, \<open>Sm_Update\<close>, \<open>Sm_Reach\<close>: its abstract state (versions, events, leases, expiries, attached keys), the
    invariant \<open>sm_rel\<close>, that every command keeps it and cannot fail, and the reachable states. The two databases of keys without values are
    instances of the locale \<open>key_set\<close>.
  \<^item> \<open>Watch_Machine\<close>, \<open>Watch_Exact\<close>: a watch and the updates as interleaved steps; what a watch delivers in every interleaving.
  \<^item> \<open>Services\<close>, \<open>Watch_Service\<close>, \<open>Controller\<close> (\<open>service_kv.go\<close>, \<open>service_lease.go\<close>, \<open>service_watch.go\<close>, \<open>controller.go\<close>): the calls over the shard
    client, the aggregation of watch messages into responses, ticks and terms.
  \<^item> \<open>Module_Store\<close> (\<open>module/storage-kv/kv_store.go\<close>), \<open>Module_Machine\<close>, \<open>Module_Correct\<close> (\<open>module/storage-kv/main.go\<close>): what the storage module
    does differently from the native code, with the native machine as its specification. \<open>Module_Watch\<close> (\<open>stream.go\<close>): its watches.
  \<^item> \<open>Module_Grpc\<close> (\<open>module/service-grpc/service_watch.go\<close>), \<open>Module_Calls\<close> (the other files of \<open>module/service-grpc\<close>): the services of the gRPC module.
    The buffers of the host are the locale \<open>multi_value\<close>, interpreted on lists.

  This theory holds the properties of the native state machine as a whole. All operations take their environment (flags, marshalling, texts of
  errors, compression, the label pool) as a record, so that the theorems hold for all its values the hypotheses allow.

  \<^bold>\<open>What is shown.\<close>

  \<^item> The machine: in every reachable state a batch of well-formed entries is applied without a panic and never lowers the revision; queries are
    answered; a replaced leader is fenced; comparisons decide what they ask; grants, revocations and ticks do what is stated of them.
  \<^item> The store: puts, deletions, reads, range reads, scans and compaction refine the list of versions; past reads are stable; compaction keeps
    what can still be read and removes the rest.
  \<^item> Encodings: diff, patch and record round trips; a changed byte is detected.
  \<^item> Watches: exactly once and in order, complete when nothing is under way, both as long as no update compacts (a compaction can remove events
    a watch has not read yet); responses within their bound.
  \<^item> Modules: a batch of well-formed entries without compactions and ticks leaves the store the native machine leaves, with the same answers as far
    as the commands decode; a tick leaves what the native tick leaves, but for what a compaction drops; queries agree; after an opening every revision
    is flushed to the watches, in order and without gaps; the events of the first operation of every notified revision reach the clients through
    both modules, once and in order.

  \<^bold>\<open>Hypotheses.\<close> \<open>lmdb L view\<close>: the store behaves as documented. \<open>env_ok\<close>: compression inverts, the pooled labels have the shape the pool makes. \<open>sm_env_ok\<close>:
  also marshalling succeeds and range counts are exact. \<open>entry_ok\<close>, \<open>batch_ok\<close>, \<open>mod_entry_ok\<close>, \<open>mod_cmd_ok\<close>: the entry is none of those that stop the machine or
  leave the range of the encodings (\<open>body_ok\<close>: a put under a key of one byte or with a negative lease, a deletion without a key, a compaction beyond the log, a
  transaction of more than 1023 operations or with a comparison whose operand is not of the type of its target) and the 52 bits of a revision are not exhausted. \<open>find_ok\<close>: the interval tree finds a watch for a key in its range. \<open>ids_ok\<close>: ids of eight bytes with requests that can be decoded. \<open>grpc_ok\<close>: what is
  marshalled can be unmarshalled, and one event fits into a buffer. Every property with a hypothesis has a witness on a concrete run.

  \<^bold>\<open>Bounds and fuel.\<close> Numbers are 64-bit words that wrap; packed revisions have 52 bits of revision and 10 of subrevision (\<open>rev_fits\<close>). Loops over a
  cursor have one unit of fuel more than the database has entries and the cursor only moves forward, so the theorems exclude \<open>NoReturn\<close>. The search for
  a free lease or watch id has its fuel from the number of ids in use; in \<open>watchStart\<close> of the module, whose ids the host keeps, it is an argument.
  The diff runs on \<open>int\<close> with explicit bounds checks.

  \<^bold>\<open>Not modelled.\<close> Snapshots (copies of files), the gRPC streams and the registry of \<open>service_watch.go\<close>, the timers of lease renewals and of the
  controller, statistics and logging: they do I/O or scheduling only. \<open>service_maintenance.go\<close> and \<open>service_cluster.go\<close>, which send constants,
  commands and configuration (\<open>cmd\<close>, \<open>embed\<close>, \<open>endpoint_handler.go\<close>), and generated code other than two decoders of the gRPC module.
  The files of \<open>module/storage-kv\<close> that repeat native files are represented by the definitions of those.
\<close>

declare split_paired_Ex [simp del] split_paired_All [simp del]

section \<open>The state machine\<close>

text \<open>C1: \<open>Update\<close> never panics and never goes back. In every state that can be reached from an empty
  environment, a batch of well-formed entries is applied as a whole; the revision does not decrease and is
  the one stored, the stored index is that of the last entry, and the term of the leader does not decrease.\<close>

theorem update_applies:
  assumes "lmdb L view" "sm_env_ok env" "sm_reach env L view t" "batch_ok env L view t entries"
  shows "\<exists>res n a c. sm_Update env L t entries = Inr res \<and> getRevision L t = Inr n \<and> n \<le> ur_newRev res \<and>
    getRevision L (ur_txn res) = Inr (ur_newRev res) \<and> getIndex L (ur_txn res) = Inr (Entry_Index (last entries)) \<and>
    getTerm L t = Inr a \<and> getTerm L (ur_txn res) = Inr c \<and> a \<le> c"
  using lmdb.update_batch [OF assms(1,2) lmdb.reach_ok [OF assms(1,3,2)] assms(4)] by blast

theorem update_applies_witness:
  "\<exists>t i res. sm_Open mem_lmdb mem_empty = Inr (t, i) \<and> sm_Update wit_env mem_lmdb t [wit_entry CMD_KV_PUT 7] = Inr res \<and>
     1 \<le> ur_newRev res \<and> getRevision mem_lmdb (ur_txn res) = Inr (ur_newRev res) \<and> getIndex mem_lmdb (ur_txn res) = Inr 7"
proof -
  from mem.open_empty [of mem_empty wit_env] obtain t where t: "sm_Open mem_lmdb mem_empty = Inr (t, 0)" by auto
  note w = wit_batch [OF t]
  from update_applies [OF mem.lmdb_axioms wit_env_ok conjunct1 [OF w], of "[wit_entry CMD_KV_PUT 7]"] w t show ?thesis
    by (auto simp: wit_entry_def)
qed

text \<open>C2: every query of a reachable state is answered. Whatever its body, the empty one too, a query with a known
  or an unknown number gets a result, no panic; only a range query must not decode to a request without a key.\<close>

theorem query_answers:
  assumes "lmdb L view" "sm_env_ok env" "sm_reach env L view t" "query \<noteq> []"
    and "\<forall>req. last query = QUERY_KV_RANGE \<and> unmarshal_RangeRequest env (butlast query) = Some req \<longrightarrow> RangeRequest_Key req \<noteq> []"
  shows "\<exists>res. sm_Query env L t query = Inr (Some res)"
  using lmdb.sm_Query_spec [OF assms(1,2) lmdb.reach_ok [OF assms(1,3,2)] assms(4,5)] .

theorem query_answers_witness:
  "\<exists>t req res res'. sm_Open mem_lmdb mem_empty = Inr (t, 0) \<and>
     unmarshal_RangeRequest query_env [] = Some req \<and> RangeRequest_Key req = [] \<and>
     sm_Query query_env mem_lmdb t [QUERY_LEASE_LEASES] = Inr (Some res) \<and>
     sm_Query query_env mem_lmdb t [97, 98, QUERY_KV_RANGE] = Inr (Some res')"
proof -
  from mem.open_empty [of mem_empty query_env] obtain t where t: "sm_Open mem_lmdb mem_empty = Inr (t, 0)" by auto
  then have r: "sm_reach query_env mem_lmdb mem_view t" by (intro sm_start) simp_all
  note q = query_answers [OF mem.lmdb_axioms query_env_ok r]
  have "\<exists>res. sm_Query query_env mem_lmdb t [QUERY_LEASE_LEASES] = Inr (Some res)"
    "\<exists>res. sm_Query query_env mem_lmdb t [97, 98, QUERY_KV_RANGE] = Inr (Some res)"
    by (rule q; simp add: query_env_def QUERY_KV_RANGE_def QUERY_LEASE_LEASES_def)+
  then show ?thesis using t by (auto simp: query_env_def)
qed

text \<open>C3: opening a state again recovers it: \<open>Open\<close> returns the index of the last applied entry, keeps all
  seven counters (index, revision, term, epoch, lease id, smallest and compacted revision) and leaves every
  other database as it is.\<close>

theorem open_recovers:
  assumes "lmdb L view" "sm_env_ok env" "sm_reach env L view t" "getIndex L t = Inr i"
  shows "\<exists>t'. sm_Open L t = Inr (t', i) \<and> getIndex L t' = getIndex L t \<and> getRevision L t' = getRevision L t \<and>
    getTerm L t' = getTerm L t \<and> getEpoch L t' = getEpoch L t \<and> getLeaseID L t' = getLeaseID L t \<and>
    getRevisionMin L t' = getRevisionMin L t \<and> getRevisionCompacted L t' = getRevisionCompacted L t \<and>
    (\<forall>d. d \<noteq> DBI_meta \<longrightarrow> view t' d = view t d)"
proof -
  have ok: "sm_ok env view t" by (rule lmdb.reach_ok [OF assms(1,3,2)])
  from lmdb.reopen [OF assms(1) ok assms(4)] obtain t' where
    t': "sm_Open L t = Inr (t', i)" "\<forall>key v. counter view t key = Inr v \<longrightarrow> counter view t' key = Inr v"
      "\<forall>d. d \<noteq> DBI_meta \<longrightarrow> view t' d = view t d" by blast
  have "counter view t' key = counter view t key" if "key \<in> set metaKeys" for key
    using that t'(2) ok by (auto simp: sm_ok_def counters_ok_def)
  then show ?thesis using t'(1,3)
    by (auto simp: meta_defs lmdb.getUint64_counter [OF assms(1)] metaKeys_def)
qed

theorem open_recovers_witness:
  "\<exists>t t'. sm_Open mem_lmdb mem_empty = Inr (t, 0) \<and> sm_Open mem_lmdb t = Inr (t', 0) \<and> getRevision mem_lmdb t' = Inr 1"
proof -
  from mem.open_empty [of mem_empty wit_env] obtain t where t: "sm_Open mem_lmdb mem_empty = Inr (t, 0)" by auto
  from mem.sm_Open_spec [of mem_empty] t have "counter mem_view t metaKeyIndex = Inr 0" by (auto simp: counter_def)
  then have ix: "getIndex mem_lmdb t = Inr 0" by (simp add: getIndex_def mem.getUint64_counter)
  note w = wit_batch [OF t]
  from open_recovers [OF mem.lmdb_axioms wit_env_ok conjunct1 [OF w] ix] w t show ?thesis by auto
qed

text \<open>Entries of a leader that has been replaced: ticks and announcements of a term below the stored one.\<close>

definition stale :: "'x sm_env_scheme \<Rightarrow> u64 \<Rightarrow> Entry \<Rightarrow> bool" where
  "stale env term ent \<longleftrightarrow> Entry_Cmd ent \<noteq> [] \<and>
     (if last (Entry_Cmd ent) = CMD_INTERNAL_TICK
      then (case unmarshal_TickRequest env (cmd_body ent) of None \<Rightarrow> False | Some req \<Rightarrow> TickRequest_Term req < term)
      else last (Entry_Cmd ent) = CMD_INTERNAL_TERM \<and>
        (case unmarshal_TermRequest env (cmd_body ent) of None \<Rightarrow> False | Some req \<Rightarrow> TermRequest_Term req < term))"

definition term_env :: sm_env where
  "term_env = wit_env\<lparr>unmarshal_TermRequest := (\<lambda>_. Some \<lparr>TermRequest_Term = 3\<rparr>)\<rparr>"

lemma term_env_ok [simp]: "sm_env_ok term_env"
  using wit_env_ok by (simp add: term_env_def sm_env_ok_def env_ok_def pools_ok_def snappy_ok_def)

lemma stale_entries:
  assumes "getTerm L (u_txn u) = Inr a" "list_all (stale env a) entries"
  shows "update_entries env L u entries = Inr (u, map (\<lambda>ent. ent\<lparr>Result_Data := err_Error env ErrTermExpired\<rparr>) entries)"
  using assms(2)
proof (induction entries)
  case (Cons ent entries)
  then have "update_entry env L u ent = Inr (u, ent\<lparr>Result_Data := err_Error env ErrTermExpired\<rparr>)"
    using assms(1) by (auto simp: stale_def update_entry_def Let_def update_Tick_def update_Term_def CMD_defs split: if_splits option.splits)
  then show ?case using Cons by simp
qed simp

text \<open>C4: a leader that has been replaced changes nothing. A batch of ticks and announcements of older terms is
  answered with \<open>ErrTermExpired\<close> throughout; no lease expires, no watcher is alerted, the epoch, the revision
  and the term stay, and only the index of the last entry is recorded.\<close>

theorem stale_leader_fenced:
  assumes "lmdb L view" "sm_env_ok env" "sm_reach env L view t" "getTerm L t = Inr a" "entries \<noteq> []" "list_all (stale env a) entries"
  shows "\<exists>res. sm_Update env L t entries = Inr res \<and> ur_newRev res = ur_rev res \<and> ur_keys res = [] \<and>
    map Result_Data (ur_entries res) = map (\<lambda>_. err_Error env ErrTermExpired) entries \<and>
    getEpoch L (ur_txn res) = getEpoch L t \<and> getRevision L (ur_txn res) = getRevision L t \<and> getTerm L (ur_txn res) = getTerm L t \<and>
    getIndex L (ur_txn res) = Inr (Entry_Index (last entries)) \<and> (\<forall>d. d \<noteq> DBI_meta \<longrightarrow> view (ur_txn res) d = view t d)"
proof -
  have ok: "sm_ok env view t" by (rule lmdb.reach_ok [OF assms(1,3,2)])
  then obtain e n where c: "getEpoch L t = Inr e" "getRevision L t = Inr n"
    using lmdb.counter_get [OF assms(1)] by (metis sm_ok_def)
  let ?ents = "map (\<lambda>ent. ent\<lparr>Result_Data := err_Error env ErrTermExpired\<rparr>) entries"
  note run = stale_entries [of L "\<lparr>u_txn = t, u_epoch = e, u_newRev = n, u_keys = []\<rparr>", OF _ assms(6)]
  obtain t1 where t1: "putUint64 L t DBI_meta metaKeyIndex (Entry_Index (last entries)) = Inr t1"
    using lmdb.putUint64_ok [OF assms(1), of DBI_meta metaKeyIndex t] by auto
  have "Entry_Index (last ?ents) = Entry_Index (last entries)" using assms(5) by (simp add: last_map)
  then have "sm_Update env L t entries = Inr \<lparr>ur_txn = t1, ur_entries = ?ents, ur_rev = n, ur_newRev = n, ur_keys = []\<rparr>"
    using run c t1 assms(4,5) by (simp add: sm_Update_def setIndex_def)
  then show ?thesis
    using lmdb.putUint64_counter [OF assms(1) t1] lmdb.putUint64_other [OF assms(1) t1] metaKeys_distinct
    by (auto simp: meta_defs lmdb.getUint64_counter [OF assms(1)])
qed

lemma wit_term:
  "\<exists>t res. sm_Open mem_lmdb mem_empty = Inr (t, 0) \<and> sm_Update term_env mem_lmdb t [wit_entry CMD_INTERNAL_TERM 7] = Inr res \<and>
     sm_reach term_env mem_lmdb mem_view (ur_txn res) \<and> getTerm mem_lmdb (ur_txn res) = Inr 3"
proof -
  from mem.open_empty [of mem_empty term_env] obtain t where
    t: "sm_Open mem_lmdb mem_empty = Inr (t, 0)" "sm_ok term_env mem_view t" "counter mem_view t metaKeyTerm = Inr 0"
      "counter mem_view t metaKeyRevision = Inr 1" "\<forall>d. d \<noteq> DBI_meta \<longrightarrow> mem_view t d = []" by auto
  from mem.counter_get t(2) obtain e n where c: "getEpoch mem_lmdb t = Inr e" "getRevision mem_lmdb t = Inr n" by (metis sm_ok_def)
  obtain t1 where t1: "putUint64 mem_lmdb t DBI_meta metaKeyTerm 3 = Inr t1" using mem.putUint64_ok [of DBI_meta metaKeyTerm t 3] by auto
  obtain t2 where t2: "putUint64 mem_lmdb t1 DBI_meta metaKeyIndex 7 = Inr t2" using mem.putUint64_ok [of DBI_meta metaKeyIndex t1 7] by auto
  let ?res = "\<lparr>ur_txn = t2, ur_entries = [wit_entry CMD_INTERNAL_TERM 7\<lparr>Result_Value := 7\<rparr>], ur_rev = n, ur_newRev = n, ur_keys = []\<rparr>"
  have run: "sm_Update term_env mem_lmdb t [wit_entry CMD_INTERNAL_TERM 7] = Inr ?res"
    using c t(3) t1 t2
    by (simp add: sm_Update_def update_entry_def wit_entry_def CMD_defs update_Term_def term_env_def meta_defs mem.getUint64_counter)
  have "batch_ok term_env mem_lmdb mem_view t [wit_entry CMD_INTERNAL_TERM 7]"
    using c t(4,5) by (auto simp: batch_ok_def entry_ok_def body_ok_def wit_entry_def CMD_defs meta_defs mem.getUint64_counter mem.Entries split: sum.splits)
  from sm_update [OF sm_start [OF _ t(1)] this run] have "sm_reach term_env mem_lmdb mem_view t2" by simp
  moreover have "getTerm mem_lmdb t2 = Inr 3"
    using mem.putUint64_counter [OF t1] mem.putUint64_counter [OF t2] metaKeys_distinct by (auto simp: getTerm_def mem.getUint64_counter)
  ultimately show ?thesis using t(1) run by auto
qed

theorem stale_leader_fenced_witness:
  "\<exists>t u res. sm_Open mem_lmdb mem_empty = Inr (t, 0) \<and> sm_Update term_env mem_lmdb t [wit_entry CMD_INTERNAL_TERM 7] = Inr u \<and>
     sm_Update term_env mem_lmdb (ur_txn u) [wit_entry CMD_INTERNAL_TICK 8] = Inr res \<and> ur_keys res = [] \<and>
     getTerm mem_lmdb (ur_txn res) = Inr 3"
proof -
  from wit_term obtain t u where
    t: "sm_Open mem_lmdb mem_empty = Inr (t, 0)" "sm_Update term_env mem_lmdb t [wit_entry CMD_INTERNAL_TERM 7] = Inr u"
      "sm_reach term_env mem_lmdb mem_view (ur_txn u)" "getTerm mem_lmdb (ur_txn u) = Inr 3" by blast
  have "list_all (stale term_env 3) [wit_entry CMD_INTERNAL_TICK 8]" by (simp add: stale_def wit_entry_def term_env_def)
  from stale_leader_fenced [OF mem.lmdb_axioms term_env_ok t(3,4) _ this, OF list.simps(3)] obtain res where
    "sm_Update term_env mem_lmdb (ur_txn u) [wit_entry CMD_INTERNAL_TICK 8] = Inr res" "ur_keys res = []"
    "getTerm mem_lmdb (ur_txn res) = getTerm mem_lmdb (ur_txn u)" by (elim exE conjE) (rule that)
  then show ?thesis using t(1,2,4) by (intro exI [of _ t] exI [of _ u] exI [of _ res]) simp
qed

section \<open>Transactions\<close>

text \<open>C11: the comparisons of a transaction decide exactly what they ask. The loop of \<open>txnCompare\<close> over the
  stored records succeeds if and only if in every comparison the attribute of the current version of its key
  (version, creation revision, modification revision, lease, value; that of \<open>kv_zero\<close> for an absent key) is below,
  equal to or above the operand as the result asks.\<close>

theorem txn_compare_exact:
  assumes "lmdb L view" "env_ok env" "kv_rel env view t H" "list_all cond_wf conds"
  shows "txnCompare env L t conds = Inr (list_all (\<lambda>c. cond_holds (spec_at 0 (H (Compare_Key c))) c) conds)"
  using lmdb.txnCompare_spec [OF assms(1-3), of conds] assms(4) by (simp add: list_all_iff)

theorem txn_compare_exact_witness:
  "\<exists>t out. dbKv_put plain_env mem_lmdb mem_empty 2 0 0 1 [97, 98] (Some [1]) False False = Inr (t, out) \<and>
     txnCompare plain_env mem_lmdb t [\<lparr>Compare_Result = Compare_EQUAL, Compare_Target = Compare_MOD, Compare_Key = [97, 98],
       Compare_TargetUnion = Compare_ModRevision 2\<rparr>] = Inr True"
proof -
  from one_key_store obtain t out where
    t: "dbKv_put plain_env mem_lmdb mem_empty 2 0 0 1 [97, 98] (Some [1]) False False = Inr (t, out)"
      "kv_rel plain_env mem_view t one_key" by blast
  let ?c = "\<lparr>Compare_Result = Compare_EQUAL, Compare_Target = Compare_MOD, Compare_Key = [97, 98], Compare_TargetUnion = Compare_ModRevision 2\<rparr>"
  have wf: "list_all cond_wf [?c]" by (simp add: cond_wf_def)
  have "kv_rev (spec_at 0 (one_key [97, 98])) = newkeyrev 2 0 False" "kv_key (spec_at 0 (one_key [97, 98])) = [97, 98]"
    by (simp_all add: spec_at_def visible_def newer_def ver_kv_def plain_fields) (simp add: spec_put_def Let_def)
  then have "cond_holds (spec_at 0 (one_key [97, 98])) ?c" by (simp add: cond_holds_def outcome_of_def)
  with txn_compare_exact [OF mem.lmdb_axioms env_ok_plain t(2) wf] t(1) show ?thesis by simp
qed

section \<open>Leases\<close>

text \<open>C31: a grant without an id creates a lease of its own. The search for an id ends, the id it finds was
  not in use, its record and the one expiry added to the expiries say that it expires \<open>TTL\<close> epochs later, and all
  other leases are untouched.\<close>

theorem grant_fresh_lease:
  assumes "lmdb L view" "sm_rel env view t b A" "mdb_Entries L t DBI_lease_exp + 1 < 2 ^ 64" "getLeaseID L t = Inr lid"
    and "LeaseGrantRequest_ID req = 0"
  shows "\<exists>t' resp. cmdLeaseGrant L t epoch req = Inr (t', resp, 1) \<and>
    lease_id (lease_at (a_leases A) (LeaseGrantResponse_ID resp)) = 0 \<and>
    (\<forall>i. dbLease_get L t' i =
       (if i = LeaseGrantResponse_ID resp
        then Inr \<lparr>lease_id = i, lease_expires = epoch + LeaseGrantRequest_TTL req, lease_renewed = epoch\<rparr> else dbLease_get L t i)) \<and>
    (\<exists>A'. sm_rel env view t' b A' \<and>
       a_exps A' = insert (epoch + LeaseGrantRequest_TTL req, LeaseGrantResponse_ID resp) (a_exps A))"
proof -
  have c: "counter view t metaKeyLeaseID = Inr lid" using assms(4) by (simp add: getLeaseID_def lmdb.getUint64_counter [OF assms(1)])
  from lmdb.cmdLeaseGrant_spec [OF assms(1-3) c, of epoch req] assms(5) obtain t' resp A' where
    g: "cmdLeaseGrant L t epoch req = Inr (t', resp, 1)" "sm_rel env view t' b A'"
      "lease_id (lease_at (a_leases A) (LeaseGrantResponse_ID resp)) = 0"
      "A' = with_lease \<lparr>lease_id = LeaseGrantResponse_ID resp, lease_expires = epoch + LeaseGrantRequest_TTL req, lease_renewed = epoch\<rparr> A" by auto
  have "dbLease_get L t' i = Inr (lease_at (a_leases A') i)" "dbLease_get L t i = Inr (lease_at (a_leases A) i)" for i
    using lmdb.dbLease_get_spec [OF assms(1) sm_relD(2) [OF g(2)]] lmdb.dbLease_get_spec [OF assms(1) sm_relD(2) [OF assms(2)]] by blast+
  moreover have "a_exps A' = insert (epoch + LeaseGrantRequest_TTL req, LeaseGrantResponse_ID resp) (a_exps A)"
    by (simp add: g(4) with_lease_def)
  ultimately show ?thesis using g(1-3) by (intro exI [of _ t'] exI [of _ resp]) (auto simp: g(4) with_lease_def lease_at_def)
qed

lemma wit_state:
  "\<exists>t b A. sm_Open mem_lmdb mem_empty = Inr (t, 0) \<and> sm_rel wit_env mem_view t b A \<and> getLeaseID mem_lmdb t = Inr 0 \<and>
     mdb_Entries mem_lmdb t DBI_lease_exp = 0 \<and> upper b \<le> 1 \<and> getTerm mem_lmdb t = Inr 0"
proof -
  from mem.open_empty [of mem_empty wit_env] obtain t where
    t: "sm_Open mem_lmdb mem_empty = Inr (t, 0)" "sm_ok wit_env mem_view t" "counter mem_view t metaKeyRevision = Inr 1"
      "\<forall>d. d \<noteq> DBI_meta \<longrightarrow> mem_view t d = []" "counter mem_view t metaKeyLeaseID = Inr 0" "counter mem_view t metaKeyTerm = Inr 0" by auto
  then obtain b A where "sm_rel wit_env mem_view t b A" "upper b \<le> 1" by (auto simp: sm_ok_def)
  moreover have "mdb_Entries mem_lmdb t DBI_lease_exp = 0" using t(4) by (simp add: mem.Entries)
  moreover have "getLeaseID mem_lmdb t = Inr 0" "getTerm mem_lmdb t = Inr 0" using t(5,6) by (simp_all add: meta_defs mem.getUint64_counter)
  ultimately show ?thesis using t(1) by blast
qed

theorem grant_fresh_lease_witness:
  "\<exists>t t' resp. sm_Open mem_lmdb mem_empty = Inr (t, 0) \<and>
     cmdLeaseGrant mem_lmdb t 4 \<lparr>LeaseGrantRequest_TTL = 30, LeaseGrantRequest_ID = 0\<rparr> = Inr (t', resp, 1) \<and>
     dbLease_get mem_lmdb t' (LeaseGrantResponse_ID resp) =
       Inr \<lparr>lease_id = LeaseGrantResponse_ID resp, lease_expires = 34, lease_renewed = 4\<rparr> \<and>
     (\<exists>b A'. sm_rel wit_env mem_view t' b A' \<and> a_exps A' = {(34, LeaseGrantResponse_ID resp)})"
proof -
  from wit_state obtain t b A where
    t: "sm_Open mem_lmdb mem_empty = Inr (t, 0)" "sm_rel wit_env mem_view t b A" "getLeaseID mem_lmdb t = Inr 0"
      "mdb_Entries mem_lmdb t DBI_lease_exp = 0" by blast
  have "a_exps A = {}" using mem.entries_exps [OF t(2)] t(4) by simp
  with grant_fresh_lease [OF mem.lmdb_axioms t(2) _ t(3), of "\<lparr>LeaseGrantRequest_TTL = 30, LeaseGrantRequest_ID = 0\<rparr>" 4] t(4)
  obtain t' resp A' where
    g: "cmdLeaseGrant mem_lmdb t 4 \<lparr>LeaseGrantRequest_TTL = 30, LeaseGrantRequest_ID = 0\<rparr> = Inr (t', resp, 1)"
      "dbLease_get mem_lmdb t' (LeaseGrantResponse_ID resp) =
         Inr \<lparr>lease_id = LeaseGrantResponse_ID resp, lease_expires = 34, lease_renewed = 4\<rparr>"
      "sm_rel wit_env mem_view t' b A'" "a_exps A' = {(34, LeaseGrantResponse_ID resp)}" by auto
  show ?thesis by (intro exI conjI) (rule t(1), rule g(1), rule g(2), rule g(3), rule g(4))
qed

text \<open>C29: revoking a lease deletes its keys and nothing else that was readable before. The lease is gone, every
  key attached to it reads as absent, keys that are not attached to it read as before, and so does every key at
  an earlier revision.\<close>

theorem revoke_deletes_keys:
  assumes "lmdb L view" "env_ok env" "sm_rel env view t b A" "rev_fits rv 0" "rv \<noteq> 0" "upper b < rv"
    and "a_leases A i = Some l" "i \<noteq> 0" "k \<noteq> []" "r < rv"
  shows "\<exists>t' keys. cmdLeaseRevoke L t rv epoch i = Inr (t', keys, 1) \<and> dbLease_get L t' i = Inr lease_zero \<and>
    kv_read env L t' k r = (if r = 0 \<and> (i, k) \<in> a_keys A then kv_zero else kv_read env L t k r)"
proof -
  let ?r = "newkeyrev rv 0 True" and ?D = "{k \<in> lease_keys A i. live (a_hist A k)}"
  from lmdb.cmdLeaseRevoke_spec [OF assms(1,3-5) upper_less_newkeyrev [OF assms(4,6)] assms(7,8), of epoch] obtain t' keys where
    c: "cmdLeaseRevoke L t rv epoch i = Inr (t', keys, 1)"
      "sm_rel env view t' (if keys = [] then b else ?r) (revoked ?r epoch i A)" by blast
  have db: "kv_db L view env" using assms(1,2) by (simp add: kv_db_def kv_db_axioms_def)
  note rd = kv_db.kv_read_spec [OF db]
  have r': "kv_read env L t' k r = spec_at r (delete_keys ?r ?D (a_hist A) k)"
    using rd [OF sm_relD(6) [OF c(2)] assms(9)] by (simp add: revoked_def Let_def)
  have r0: "kv_read env L t k r = spec_at r (a_hist A k)" by (rule rd [OF sm_relD(6) [OF assms(3)] assms(9)])
  have "dbLease_get L t' i = Inr lease_zero"
    using lmdb.dbLease_get_spec [OF assms(1) sm_relD(2) [OF c(2)]] by (simp add: revoked_def Let_def lease_at_def)
  moreover have "spec_at r (delete_keys ?r ?D (a_hist A) k) = (if r = 0 \<and> (i, k) \<in> a_keys A then kv_zero else spec_at r (a_hist A k))"
  proof (cases "k \<in> ?D")
    case True
    have "newer r (tomb ?r) \<longleftrightarrow> r \<noteq> 0" "isdel ?r"
      using assms(10) upper_newkeyrev [OF assms(4), of True] isdel_newkeyrev [OF assms(4), of True] by (auto simp: newer_def word_gt_0)
    then show ?thesis using True by (auto simp: delete_keys_def spec_at_def visible_def lease_keys_def ver_kv_def)
  next
    case False
    have "spec_at 0 (a_hist A k) = kv_zero" if "\<not> live (a_hist A k)"
      using that by (cases "a_hist A k") (auto simp: spec_at_def visible_def newer_def ver_kv_def)
    then show ?thesis using False by (auto simp: delete_keys_def lease_keys_def)
  qed
  ultimately show ?thesis using c(1) r' r0 by auto
qed

text \<open>An empty machine with a lease 5 that expires at epoch 10.\<close>

lemma wit_lease:
  fixes l
  defines "l \<equiv> \<lparr>lease_id = 5, lease_expires = 10, lease_renewed = 4\<rparr>"
  shows "\<exists>t0 t1 t b A. sm_Open mem_lmdb mem_empty = Inr (t0, 0) \<and> dbLease_put mem_lmdb t0 l = Inr t1 \<and> dbLeaseExp_put mem_lmdb t1 l = Inr t \<and>
     sm_rel wit_env mem_view t b A \<and> a_leases A 5 = Some l \<and> a_exps A = {(10, 5)} \<and> upper b \<le> 1 \<and> getTerm mem_lmdb t = Inr 0 \<and>
     mdb_Entries mem_lmdb t DBI_lease_exp = 1"
proof -
  from wit_state obtain t0 b A where
    t0: "sm_Open mem_lmdb mem_empty = Inr (t0, 0)" "sm_rel wit_env mem_view t0 b A" "mdb_Entries mem_lmdb t0 DBI_lease_exp = 0"
      "upper b \<le> 1" "getTerm mem_lmdb t0 = Inr 0" by blast
  from mem.store_lease [OF t0(2), of l] obtain t1 t where
    t: "dbLease_put mem_lmdb t0 l = Inr t1" "dbLeaseExp_put mem_lmdb t1 l = Inr t" "sm_rel wit_env mem_view t b (with_lease l A)"
      "mem_view t DBI_meta = mem_view t0 DBI_meta" by blast
  have A: "a_exps (with_lease l A) = {(10, 5)}" "a_leases (with_lease l A) 5 = Some l"
    using mem.entries_exps [OF t0(2)] t0(3) by (simp_all add: with_lease_def l_def)
  have "getTerm mem_lmdb t = Inr 0" using t0(5) t(4) by (simp add: getTerm_def mem.getUint64_counter counter_def)
  moreover have "mdb_Entries mem_lmdb t DBI_lease_exp = 1" using mem.entries_exps [OF t(3)] A(1) by simp
  ultimately show ?thesis using t0(1,4) t(1-3) A by blast
qed

theorem revoke_deletes_keys_witness:
  "\<exists>t0 t1 t t' keys. sm_Open mem_lmdb mem_empty = Inr (t0, 0) \<and>
     dbLease_put mem_lmdb t0 \<lparr>lease_id = 5, lease_expires = 10, lease_renewed = 4\<rparr> = Inr t1 \<and>
     dbLeaseExp_put mem_lmdb t1 \<lparr>lease_id = 5, lease_expires = 10, lease_renewed = 4\<rparr> = Inr t \<and>
     cmdLeaseRevoke mem_lmdb t 3 4 5 = Inr (t', keys, 1) \<and> dbLease_get mem_lmdb t' 5 = Inr lease_zero \<and>
     kv_read wit_env mem_lmdb t' [97, 98] 2 = kv_read wit_env mem_lmdb t [97, 98] 2"
proof -
  from wit_lease obtain t0 t1 t b A where
    t: "sm_Open mem_lmdb mem_empty = Inr (t0, 0)" "dbLease_put mem_lmdb t0 \<lparr>lease_id = 5, lease_expires = 10, lease_renewed = 4\<rparr> = Inr t1"
      "dbLeaseExp_put mem_lmdb t1 \<lparr>lease_id = 5, lease_expires = 10, lease_renewed = 4\<rparr> = Inr t" "sm_rel wit_env mem_view t b A"
      "a_leases A 5 = Some \<lparr>lease_id = 5, lease_expires = 10, lease_renewed = 4\<rparr>" "upper b \<le> 1" by blast
  have "env_ok wit_env" using wit_env_ok by (simp add: sm_env_ok_def)
  moreover have "upper b < 3" by (rule le_less_trans [OF t(6)]) simp
  ultimately show ?thesis using revoke_deletes_keys [OF mem.lmdb_axioms _ t(4) _ _ _ t(5), of 3 "[97, 98]" 2 4] t(1-3)
    by (auto simp: rev_fits_def)
qed

text \<open>C30: a tick revokes exactly the leases whose id stands under an expiry that has come, and no other one
  changes; the epoch advances by one.\<close>

theorem tick_revokes_due:
  assumes "lmdb L view" "sm_env_ok env" "sm_rel env view (u_txn u) b A" "upper b \<le> u_newRev u"
    and "unat (u_newRev u) + mdb_Entries L (u_txn u) DBI_lease_exp < 2 ^ 52"
    and "unmarshal_TickRequest env (cmd_body ent) = Some req" "getTerm L (u_txn u) = Inr a" "a \<le> TickRequest_Term req"
  shows "\<exists>u' ent'. update_Tick env L u ent = Inr (u', ent') \<and> u_epoch u' = u_epoch u + 1 \<and> getEpoch L (u_txn u') = Inr (u_epoch u + 1) \<and>
    dbLease_get L (u_txn u') i =
      (if i \<in> due (u_epoch u + 1) (a_exps A) then Inr lease_zero else dbLease_get L (u_txn u) i)"
  using lmdb.tick_effect [OF assms] .

theorem tick_revokes_due_witness:
  "\<exists>t0 t1 t u' ent'. sm_Open mem_lmdb mem_empty = Inr (t0, 0) \<and>
     dbLease_put mem_lmdb t0 \<lparr>lease_id = 5, lease_expires = 10, lease_renewed = 4\<rparr> = Inr t1 \<and>
     dbLeaseExp_put mem_lmdb t1 \<lparr>lease_id = 5, lease_expires = 10, lease_renewed = 4\<rparr> = Inr t \<and>
     update_Tick wit_env mem_lmdb \<lparr>u_txn = t, u_epoch = 9, u_newRev = 1, u_keys = []\<rparr> (wit_entry CMD_INTERNAL_TICK 7) = Inr (u', ent') \<and>
     dbLease_get mem_lmdb (u_txn u') 5 = Inr lease_zero"
proof -
  from wit_lease obtain t0 t1 t b A where
    t: "sm_Open mem_lmdb mem_empty = Inr (t0, 0)" "dbLease_put mem_lmdb t0 \<lparr>lease_id = 5, lease_expires = 10, lease_renewed = 4\<rparr> = Inr t1"
      "dbLeaseExp_put mem_lmdb t1 \<lparr>lease_id = 5, lease_expires = 10, lease_renewed = 4\<rparr> = Inr t" "sm_rel wit_env mem_view t b A"
      "a_exps A = {(10, 5)}" "upper b \<le> 1" "getTerm mem_lmdb t = Inr 0" "mdb_Entries mem_lmdb t DBI_lease_exp = 1" by blast
  let ?u = "\<lparr>u_txn = t, u_epoch = 9, u_newRev = 1, u_keys = []\<rparr>"
  have "sm_rel wit_env mem_view (u_txn ?u) b A" using t(4) by simp
  from tick_revokes_due [OF mem.lmdb_axioms wit_env_ok this, of "wit_entry CMD_INTERNAL_TICK 7" "\<lparr>TickRequest_Term = 0\<rparr>" 0 5] t
  show ?thesis by (auto simp: due_def)
qed

text \<open>A renewal does not keep a lease alive. The entry under the old expiry stays, so that after a keep-alive
  at any epoch the tick that reaches the old expiry revokes the lease, although its record says that it expires
  later.\<close>

theorem keepalive_does_not_extend:
  assumes "lmdb L view" "sm_env_ok env" "sm_rel env view t b A" "upper b \<le> n"
    and "unat n + mdb_Entries L t DBI_lease_exp + 1 < 2 ^ 52"
    and "a_leases A (LeaseKeepAliveRequest_ID req) = Some l" "LeaseKeepAliveRequest_ID req \<noteq> 0" "lease_expires l \<le> e + 1"
    and "unmarshal_TickRequest env (cmd_body ent) = Some tick" "getTerm L t = Inr a" "a \<le> TickRequest_Term tick"
  shows "\<exists>t1 resp u' ent'. cmdLeaseKeepAlive L t epoch req = Inr (t1, resp, 1) \<and>
    dbLease_get L t1 (LeaseKeepAliveRequest_ID req) =
      Inr (l\<lparr>lease_expires := epoch + (lease_expires l - lease_renewed l), lease_renewed := epoch\<rparr>) \<and>
    update_Tick env L \<lparr>u_txn = t1, u_epoch = e, u_newRev = n, u_keys = []\<rparr> ent = Inr (u', ent') \<and>
    dbLease_get L (u_txn u') (LeaseKeepAliveRequest_ID req) = Inr lease_zero"
  using lmdb.keepalive_effect [OF assms] .

theorem keepalive_does_not_extend_witness:
  "\<exists>t0 t1 t t2 resp u' ent'. sm_Open mem_lmdb mem_empty = Inr (t0, 0) \<and>
     dbLease_put mem_lmdb t0 \<lparr>lease_id = 5, lease_expires = 10, lease_renewed = 4\<rparr> = Inr t1 \<and>
     dbLeaseExp_put mem_lmdb t1 \<lparr>lease_id = 5, lease_expires = 10, lease_renewed = 4\<rparr> = Inr t \<and>
     cmdLeaseKeepAlive mem_lmdb t 9 \<lparr>LeaseKeepAliveRequest_ID = 5\<rparr> = Inr (t2, resp, 1) \<and>
     dbLease_get mem_lmdb t2 5 = Inr \<lparr>lease_id = 5, lease_expires = 15, lease_renewed = 9\<rparr> \<and>
     update_Tick wit_env mem_lmdb \<lparr>u_txn = t2, u_epoch = 9, u_newRev = 1, u_keys = []\<rparr> (wit_entry CMD_INTERNAL_TICK 7) = Inr (u', ent') \<and>
     dbLease_get mem_lmdb (u_txn u') 5 = Inr lease_zero"
proof -
  from wit_lease obtain t0 t1 t b A where
    t: "sm_Open mem_lmdb mem_empty = Inr (t0, 0)" "dbLease_put mem_lmdb t0 \<lparr>lease_id = 5, lease_expires = 10, lease_renewed = 4\<rparr> = Inr t1"
      "dbLeaseExp_put mem_lmdb t1 \<lparr>lease_id = 5, lease_expires = 10, lease_renewed = 4\<rparr> = Inr t" "sm_rel wit_env mem_view t b A"
      "a_leases A 5 = Some \<lparr>lease_id = 5, lease_expires = 10, lease_renewed = 4\<rparr>"
      "upper b \<le> 1" "getTerm mem_lmdb t = Inr 0" "mdb_Entries mem_lmdb t DBI_lease_exp = 1" by blast
  have "\<exists>t2 resp u' ent'. cmdLeaseKeepAlive mem_lmdb t 9 \<lparr>LeaseKeepAliveRequest_ID = 5\<rparr> = Inr (t2, resp, 1) \<and>
     dbLease_get mem_lmdb t2 5 = Inr \<lparr>lease_id = 5, lease_expires = 15, lease_renewed = 9\<rparr> \<and>
     update_Tick wit_env mem_lmdb \<lparr>u_txn = t2, u_epoch = 9, u_newRev = 1, u_keys = []\<rparr> (wit_entry CMD_INTERNAL_TICK 7) = Inr (u', ent') \<and>
     dbLease_get mem_lmdb (u_txn u') 5 = Inr lease_zero"
    using keepalive_does_not_extend [OF mem.lmdb_axioms wit_env_ok t(4,6), of "\<lparr>LeaseKeepAliveRequest_ID = 5\<rparr>"
      "\<lparr>lease_id = 5, lease_expires = 10, lease_renewed = 4\<rparr>" 9 "wit_entry CMD_INTERNAL_TICK 7" "\<lparr>TickRequest_Term = 0\<rparr>" 0 9] t(5,7,8) by simp
  then show ?thesis using t(1-3) by blast
qed

end
